(* ===== verification/Prelude.thy ===== *)
theory Prelude
  imports Main "HOL-Library.Word" "HOL-Library.Multiset" "HOL-Library.Monad_Syntax"
begin

text \<open>
  Shared base of the development: the runtime's return codes
  (\<^verbatim>\<open>argobots_framework/src/include/abt.h.in\<close>), addresses of work units, the collections of
  simplification rules the components extend, and the generic lemmas on circular lists,
  folds and updates used by more than one component.

  Two conventions hold everywhere. A C function that returns a code and changes state is a
  function to a pair of an \<open>abt_errno\<close> and the new state. A function that would dereference
  a NULL pointer, fail an assertion or divide by zero has an \<open>option\<close> result, and \<open>None\<close>
  stands for that undefined behaviour, so a theorem that the result is \<open>Some\<close> states that
  the code does not run into it.
\<close>

named_theorems cell_simps \<open>field updates of linked cells\<close>
named_theorems frame_rules \<open>what an operation leaves alone\<close>

datatype abt_errno =
  ABT_SUCCESS | ABT_ERR_MEM | ABT_ERR_OTHER | ABT_ERR_INV_XSTREAM | ABT_ERR_INV_SCHED
| ABT_ERR_INV_SCHED_CONFIG | ABT_ERR_INV_POOL | ABT_ERR_INV_POOL_KIND | ABT_ERR_INV_POOL_ACCESS
| ABT_ERR_INV_POOL_CONFIG | ABT_ERR_INV_UNIT | ABT_ERR_INV_THREAD | ABT_ERR_INV_THREAD_ATTR
| ABT_ERR_INV_KEY | ABT_ERR_INV_MUTEX | ABT_ERR_INV_MUTEX_ATTR | ABT_ERR_INV_COND
| ABT_ERR_INV_RWLOCK | ABT_ERR_INV_EVENTUAL | ABT_ERR_INV_FUTURE | ABT_ERR_INV_BARRIER
| ABT_ERR_INV_TIMER | ABT_ERR_INV_ARG | ABT_ERR_SCHED | ABT_ERR_POOL | ABT_ERR_UNIT
| ABT_ERR_THREAD | ABT_ERR_KEY | ABT_ERR_MUTEX | ABT_ERR_MUTEX_LOCKED | ABT_ERR_COND
| ABT_ERR_COND_TIMEDOUT | ABT_ERR_RWLOCK | ABT_ERR_EVENTUAL | ABT_ERR_FUTURE
| ABT_ERR_BARRIER | ABT_ERR_SYS | ABT_ERR_INV_SCHED_PREDEF | ABT_ERR_MIGRATION_TARGET
| ABT_ERR_MIGRATION_NA | ABT_ERR_INV_XSTREAM_RANK | ABT_ERR_XSTREAM | ABT_ERR_XSTREAM_STATE
| ABT_ERR_MISSING_JOIN | ABT_ERR_INV_TASK | ABT_ERR_CPUID | ABT_ERR_INV_QUERY_KIND

type_synonym thread_ptr = nat

section \<open>Circular adjacency\<close>

text \<open>
  \<open>circ P xs\<close>: every element of \<open>xs\<close> is related by \<open>P\<close> to its successor and the last one
  to the first.
\<close>

definition circ :: "('a \<Rightarrow> 'a \<Rightarrow> bool) \<Rightarrow> 'a list \<Rightarrow> bool" where
  "circ P xs \<longleftrightarrow> xs = [] \<or> (successively P xs \<and> P (last xs) (hd xs))"

lemma circ_Nil [simp]: "circ P []"
  by (simp add: circ_def)

lemma circ_single [simp]: "circ P [x] \<longleftrightarrow> P x x"
  by (simp add: circ_def)

lemma circ_rotate: "circ P (xs @ ys) \<longleftrightarrow> circ P (ys @ xs)"
  by (cases xs; cases ys) (auto simp: circ_def successively_append_iff successively_Cons)

lemma circ_snoc:
  "xs \<noteq> [] \<Longrightarrow> circ P (xs @ [t]) \<longleftrightarrow> successively P xs \<and> P (last xs) t \<and> P t (hd xs)"
  by (auto simp: circ_def successively_append_iff)

lemma circ_ConsD:
  assumes "circ P (t # xs)" and "xs \<noteq> []"
  shows "P t (hd xs)" and "P (last xs) t" and "successively P xs"
  using assms by (cases xs; auto simp: circ_def)+

lemma successively_mono_on:
  "successively P xs \<Longrightarrow> (\<And>a b. a \<in> set xs \<Longrightarrow> b \<in> set xs \<Longrightarrow> P a b \<Longrightarrow> Q a b)
    \<Longrightarrow> successively Q xs"
  by (induction xs rule: induct_list012) auto

lemma successively_distinct_mono:
  "successively P xs \<Longrightarrow> distinct xs
    \<Longrightarrow> (\<And>a b. a \<in> set (butlast xs) \<Longrightarrow> b \<in> set (tl xs) \<Longrightarrow> P a b \<Longrightarrow> Q a b)
    \<Longrightarrow> successively Q xs"
proof (induction xs rule: induct_list012)
  case (3 x y zs)
  have "successively Q (y # zs)"
  proof (rule "3.IH"(2))
    show "successively P (y # zs)" and "distinct (y # zs)"
      using "3.prems" by auto
    show "Q a b" if "a \<in> set (butlast (y # zs))" "b \<in> set (tl (y # zs))" "P a b" for a b
      using that by (intro "3.prems"(3)) auto
  qed
  moreover have "Q x y"
    using "3.prems"(1) by (intro "3.prems"(3)) auto
  ultimately show ?case by simp
qed auto

lemma circ_mono_on:
  "circ P xs \<Longrightarrow> (\<And>a b. a \<in> set xs \<Longrightarrow> b \<in> set xs \<Longrightarrow> P a b \<Longrightarrow> Q a b) \<Longrightarrow> circ Q xs"
  by (auto simp: circ_def intro: successively_mono_on)

section \<open>Lists\<close>

lemma last_in_butlast_distinct: "distinct xs \<Longrightarrow> xs \<noteq> [] \<Longrightarrow> last xs \<notin> set (butlast xs)"
  by (metis append_butlast_last_id distinct_butlast not_distinct_conv_prefix)

lemma hd_in_tl_distinct: "distinct xs \<Longrightarrow> xs \<noteq> [] \<Longrightarrow> hd xs \<notin> set (tl xs)"
  by (cases xs) auto

lemma foldl_assoc_split:
  "foldl f a (xs @ ys) = foldl f (foldl f a xs) ys"
  by simp

end
