(* ===== verification/RedOps.thy ===== *)
theory RedOps
  imports Prelude Complex_Main
begin

text \<open>
  The reduction functions and default values of
  \<^verbatim>\<open>argobots_framework/examples/reduction/abt_reduction.c\<close>: the tables that the macros
  \<^verbatim>\<open>DEF_HOST\<close> and \<^verbatim>\<open>DEFINE_REDFUNC\<close> expand, on LP64 with a signed \<^verbatim>\<open>char\<close>.

  Integers are in the range of their type and arithmetic wraps around. That is what C defines for
  \<^verbatim>\<open>char\<close> with gcc; for the wider types it is what the code computes unless it overflows, which
  ISO C leaves undefined. \<^verbatim>\<open>float\<close> and \<^verbatim>\<open>double\<close> values are real numbers: comparisons are exact,
  sums and products are without their rounding.

  The locale \<open>red_monoid\<close> is the contract a reduction function has to meet so that the grouping
  of the elements does not matter; every integer function but \<open>Rsub\<close> meets it.
\<close>

section \<open>Types and functions\<close>

datatype int_type = TChar | TInt | TLong | TLongLong

datatype real_type = TFloat | TDouble

datatype red_func =
  Rsum | Rsub | Rprod | Rand | Ror | Rxor | Rlogical_and | Rlogical_or | Rmax | Rmin

fun bits :: "int_type \<Rightarrow> nat" where
  "bits TChar = 8" | "bits TInt = 32" | "bits TLong = 64" | "bits TLongLong = 64"

definition type_min :: "int_type \<Rightarrow> int" where "type_min ty = - (2 ^ (bits ty - 1))"

definition type_max :: "int_type \<Rightarrow> int" where "type_max ty = 2 ^ (bits ty - 1) - 1"

definition wrap :: "int_type \<Rightarrow> int \<Rightarrow> int" where
  "wrap ty x = signed_take_bit (bits ty - 1) x"

definition values_of :: "int_type \<Rightarrow> int set" where
  "values_of ty = {x. type_min ty \<le> x \<and> x \<le> type_max ty}"

text \<open>The bodies: the new value of \<^verbatim>\<open>*a\<close> from those of \<^verbatim>\<open>*a\<close> and \<^verbatim>\<open>*b\<close>.\<close>

fun int_body :: "red_func \<Rightarrow> int_type \<Rightarrow> int \<Rightarrow> int \<Rightarrow> int" where
  "int_body Rsum ty a b = wrap ty (a + b)"
| "int_body Rsub ty a b = wrap ty (a - b)"
| "int_body Rprod ty a b = wrap ty (a * b)"
| "int_body Rand ty a b = and a b"
| "int_body Ror ty a b = or a b"
| "int_body Rxor ty a b = xor a b"
| "int_body Rlogical_and ty a b = (if b \<noteq> 0 \<and> a \<noteq> 0 then 1 else 0)"
| "int_body Rlogical_or ty a b = (if b \<noteq> 0 \<or> a \<noteq> 0 then 1 else 0)"
| "int_body Rmax ty a b = (if a < b then b else a)"
| "int_body Rmin ty a b = (if a > b then b else a)"

fun int_default :: "red_func \<Rightarrow> int_type \<Rightarrow> int" where
  "int_default Rsum ty = 0"
| "int_default Rsub ty = 0"
| "int_default Rprod ty = 1"
| "int_default Rand ty = not 0"
| "int_default Ror ty = 0"
| "int_default Rxor ty = 0"
| "int_default Rlogical_and TLongLong = 0"
| "int_default Rlogical_and ty = 1"
| "int_default Rlogical_or ty = 0"
| "int_default Rmax ty = type_min ty"
| "int_default Rmin ty = type_max ty"

text \<open>Only five of the functions exist for the floating-point types.\<close>

fun real_body :: "red_func \<Rightarrow> (real \<Rightarrow> real \<Rightarrow> real) option" where
  "real_body Rsum = Some (+)"
| "real_body Rsub = Some (-)"
| "real_body Rprod = Some (*)"
| "real_body Rmax = Some (\<lambda>a b. if a < b then b else a)"
| "real_body Rmin = Some (\<lambda>a b. if a > b then b else a)"
| "real_body _ = None"

definition FLT_MIN :: real where "FLT_MIN = 1 / 2 ^ 126"

definition FLT_MAX :: real where "FLT_MAX = (2 - 1 / 2 ^ 23) * 2 ^ 127"

definition DBL_MIN :: real where "DBL_MIN = 1 / 2 ^ 1022"

definition DBL_MAX :: real where "DBL_MAX = (2 - 1 / 2 ^ 52) * 2 ^ 1023"

fun real_default :: "red_func \<Rightarrow> real_type \<Rightarrow> real" where
  "real_default Rsum ty = 0"
| "real_default Rsub ty = 0"
| "real_default Rprod ty = 1"
| "real_default Rmax TFloat = FLT_MIN"
| "real_default Rmax TDouble = DBL_MIN"
| "real_default Rmin TFloat = FLT_MAX"
| "real_default Rmin TDouble = DBL_MAX"
| "real_default _ ty = 0"

section \<open>Contract\<close>

text \<open>
  \<open>V\<close> are the elements, \<open>W\<close> the values an accumulator takes that starts at the default \<open>d\<close>.
\<close>

locale red_monoid =
  fixes f :: "'v \<Rightarrow> 'v \<Rightarrow> 'v" and d :: 'v and V :: "'v set" and W :: "'v set"
  assumes start: "d \<in> W"
    and closed: "a \<in> W \<Longrightarrow> x \<in> V \<Longrightarrow> f a x \<in> W"
    and neutral: "a \<in> W \<Longrightarrow> f a d = a"
    and assoc: "a \<in> W \<Longrightarrow> b \<in> W \<Longrightarrow> x \<in> V \<Longrightarrow> f (f a b) x = f a (f b x)"

context red_monoid
begin

lemma fold_closed: "a \<in> W \<Longrightarrow> set xs \<subseteq> V \<Longrightarrow> foldl f a xs \<in> W"
  by (induction xs arbitrary: a) (auto intro: closed)

lemma fold_from: "a \<in> W \<Longrightarrow> set xs \<subseteq> V \<Longrightarrow> foldl f a xs = f a (foldl f d xs)"
proof (induction xs rule: rev_induct)
  case Nil
  then show ?case
    by (simp add: neutral)
next
  case (snoc x xs)
  then show ?case
    using assoc [OF _ fold_closed [OF start], of a xs x] by simp
qed

text \<open>Two partial results combine to the result of the whole.\<close>

lemma fold_merge:
  assumes "set xs \<subseteq> V" "set ys \<subseteq> V"
  shows "f (foldl f d xs) (foldl f d ys) = foldl f d (xs @ ys)"
  using fold_from [OF fold_closed [OF start assms(1)] assms(2)] by simp

end

section \<open>The integer functions\<close>

lemma wrap_in: "wrap ty x \<in> values_of ty"
  unfolding wrap_def values_of_def type_min_def type_max_def
  using signed_take_bit_int_greater_eq_minus_exp [of "bits ty - 1" x]
    signed_take_bit_int_less_exp [of "bits ty - 1" x] by simp

lemma wrap_id: "x \<in> values_of ty \<Longrightarrow> wrap ty x = x"
  unfolding wrap_def values_of_def type_min_def type_max_def
  by (simp add: signed_take_bit_int_eq_self)

lemma wrap_wrap_add: "wrap ty (wrap ty x + y) = wrap ty (x + y)" "wrap ty (x + wrap ty y) = wrap ty (x + y)"
  unfolding wrap_def by (metis signed_take_bit_add signed_take_bit_signed_take_bit min.idem)+

lemma wrap_wrap_mult: "wrap ty (wrap ty x * y) = wrap ty (x * y)" "wrap ty (x * wrap ty y) = wrap ty (x * y)"
  unfolding wrap_def by (metis signed_take_bit_mult signed_take_bit_signed_take_bit min.idem)+

lemma bit_ops_in:
  assumes "a \<in> values_of ty" "b \<in> values_of ty"
  shows "and a b \<in> values_of ty" "or a b \<in> values_of ty" "xor a b \<in> values_of ty"
proof -
  have w: "wrap ty a = a" "wrap ty b = b"
    using assms wrap_id by blast+
  have "wrap ty (and a b) = and (wrap ty a) (wrap ty b)" "wrap ty (or a b) = or (wrap ty a) (wrap ty b)"
    "wrap ty (xor a b) = xor (wrap ty a) (wrap ty b)"
    unfolding wrap_def by (rule bit_eqI; auto simp: bit_simps)+
  then show "and a b \<in> values_of ty" "or a b \<in> values_of ty" "xor a b \<in> values_of ty"
    using wrap_in w by metis+
qed

lemma small_in: "0 \<in> values_of ty" "1 \<in> values_of ty" "-1 \<in> values_of ty"
  "type_min ty \<in> values_of ty" "type_max ty \<in> values_of ty"
  by (cases ty; simp add: values_of_def type_min_def type_max_def)+

text \<open>The values an accumulator takes.\<close>

fun acc_values :: "red_func \<Rightarrow> int_type \<Rightarrow> int set" where
  "acc_values Rlogical_and TLongLong = {0}"
| "acc_values Rlogical_and ty = {0, 1}"
| "acc_values Rlogical_or ty = {0, 1}"
| "acc_values _ ty = values_of ty"

lemma red_monoid_int:
  assumes "op \<noteq> Rsub"
  shows "red_monoid (int_body op ty) (int_default op ty) (values_of ty) (acc_values op ty)"
proof (cases op)
  case Rsum
  then show ?thesis
    by unfold_locales (auto simp: small_in wrap_in wrap_id wrap_wrap_add ac_simps)
next
  case Rsub
  then show ?thesis using assms by simp
next
  case Rprod
  then show ?thesis
    by unfold_locales (auto simp: small_in wrap_in wrap_id wrap_wrap_mult ac_simps)
next
  case Rand
  then show ?thesis
    by unfold_locales (auto simp: small_in bit_ops_in and.assoc)
next
  case Ror
  then show ?thesis
    by unfold_locales (auto simp: small_in bit_ops_in or.assoc)
next
  case Rxor
  then show ?thesis
    by unfold_locales (auto simp: small_in bit_ops_in xor.assoc)
next
  case Rlogical_and
  then show ?thesis
    by (cases ty; unfold_locales) auto
next
  case Rlogical_or
  then show ?thesis
    by unfold_locales auto
next
  case Rmax
  then show ?thesis
    using small_in [of ty] by unfold_locales (auto simp: values_of_def)
next
  case Rmin
  then show ?thesis
    using small_in [of ty] by unfold_locales (auto simp: values_of_def)
qed

interpretation int_sum: red_monoid "int_body Rsum ty" "int_default Rsum ty" "values_of ty" "acc_values Rsum ty" for ty
  by (rule red_monoid_int) simp

interpretation int_max: red_monoid "int_body Rmax ty" "int_default Rmax ty" "values_of ty" "acc_values Rmax ty" for ty
  by (rule red_monoid_int) simp

interpretation int_land: red_monoid "int_body Rlogical_and ty" "int_default Rlogical_and ty" "values_of ty"
    "acc_values Rlogical_and ty" for ty
  by (rule red_monoid_int) simp

text \<open>Over the reals, with the accumulator bounded by the default for the extrema.\<close>

fun real_acc :: "red_func \<Rightarrow> real_type \<Rightarrow> real set" where
  "real_acc Rmax ty = {x. real_default Rmax ty \<le> x}"
| "real_acc Rmin ty = {x. x \<le> real_default Rmin ty}"
| "real_acc _ ty = UNIV"

lemma red_monoid_real:
  assumes "op \<noteq> Rsub" "real_body op = Some g"
  shows "red_monoid g (real_default op ty) UNIV (real_acc op ty)"
  using assms by (cases op) (auto intro!: red_monoid.intro)

section \<open>What the folds compute\<close>

text \<open>The sum is exact whenever it fits the type, even if partial sums do not.\<close>

lemma fold_sum: "foldl (int_body Rsum ty) (wrap ty a) xs = wrap ty (a + sum_list xs)"
  by (induction xs arbitrary: a) (simp_all add: wrap_wrap_add add.assoc)

lemma fold_sum_exact:
  assumes "sum_list xs \<in> values_of ty"
  shows "foldl (int_body Rsum ty) (int_default Rsum ty) xs = sum_list xs"
  using fold_sum [of ty 0 xs] wrap_id [OF small_in(1), of ty] wrap_id [OF assms] by simp

lemma fold_max: "foldl (int_body Rmax ty) a xs = Max (insert a (set xs))"
proof (induction xs arbitrary: a)
  case (Cons x xs)
  have "Max (insert a (set (x # xs))) = Max (insert (max a x) (set xs))"
    by (cases "xs = []") (auto simp: max_def Max_insert2 insert_commute)
  then show ?case
    using Cons by (simp add: max_def)
qed simp

lemma fold_max_ok:
  assumes "xs \<noteq> []" "set xs \<subseteq> values_of ty"
  shows "foldl (int_body Rmax ty) (int_default Rmax ty) xs = Max (set xs)"
proof -
  have "type_min ty \<le> Max (set xs)"
    using assms(1) subsetD [OF assms(2) hd_in_set [OF assms(1)]]
    by (auto simp: values_of_def Max_ge_iff intro!: bexI [of _ "hd xs"])
  then show ?thesis
    using assms(1) by (simp add: fold_max)
qed

lemma fold_land:
  "foldl (int_body Rlogical_and ty) (if b then 1 else 0) xs = (if b \<and> 0 \<notin> set xs then 1 else 0)"
  by (induction xs arbitrary: b) (auto split: if_splits)

text \<open>
  Two table entries are not neutral: the default 0 of the \<^verbatim>\<open>long long\<close> conjunction, and the
  smallest positive normal number as the default of the floating-point maximum.
\<close>

lemma fold_land_long_long:
  "foldl (int_body Rlogical_and TLongLong) (int_default Rlogical_and TLongLong) xs = 0"
  using fold_land [of TLongLong False xs] by simp

lemma fold_max_real_low:
  assumes "real_body Rmax = Some g" "\<forall>x \<in> set xs. x \<le> real_default Rmax ty"
  shows "foldl g (real_default Rmax ty) xs = real_default Rmax ty"
  using assms(2) by (induction xs) (use assms(1) in auto)

end
