(* ===== verification/Waitlist.thy ===== *)
theory Waitlist
  imports Prelude
begin

text \<open>
  The list of threads blocked on a synchronization object
  (\<^verbatim>\<open>argobots_framework/src/include/abti_waitlist.h\<close>). It is singly linked through
  \<^verbatim>\<open>p_next\<close>; a waiter with a time limit is a dummy thread on its caller's stack that also
  records its predecessor in \<^verbatim>\<open>p_prev\<close>, so that it can take itself out when the limit
  passes, while signal, broadcast and the untimed wait never look at \<^verbatim>\<open>p_prev\<close>. The caller
  holds the object's lock throughout, so each definition is one atomic action; suspending a
  ULT, spinning and sleeping on the futex are the time between a wait and the moment the
  waiter's state is READY.

  \<open>wl_rep T h w xs\<close> says that \<open>w\<close> represents the waiters \<open>xs\<close>, oldest first, where \<open>T\<close> are the
  dummies of timed waits. The tricky part of the code, removal in the middle with partially
  maintained back links, is shown to remove exactly the caller.
\<close>

section \<open>State\<close>

record wait_heap =
  wl_next :: "thread_ptr \<Rightarrow> thread_ptr option"
  wl_prev :: "thread_ptr \<Rightarrow> thread_ptr option"
  wl_ready :: "thread_ptr \<Rightarrow> bool"
  wl_yieldable :: "thread_ptr \<Rightarrow> bool"

record waitlist =
  wl_head :: "thread_ptr option"
  wl_tail :: "thread_ptr option"

section \<open>Operations\<close>

definition ABTI_waitlist_init :: waitlist where
  "ABTI_waitlist_init = \<lparr>wl_head = None, wl_tail = None\<rparr>"

definition ABTI_waitlist_is_empty :: "waitlist \<Rightarrow> bool" where
  "ABTI_waitlist_is_empty w = (wl_head w = None)"

text \<open>The enqueueing half of \<^verbatim>\<open>ABTI_waitlist_wait_and_unlock\<close>, for either kind of thread.\<close>

definition ABTI_waitlist_wait ::
    "thread_ptr \<Rightarrow> waitlist \<Rightarrow> wait_heap \<Rightarrow> (wait_heap \<times> waitlist) option" where
  "ABTI_waitlist_wait t w h =
     (let h1 = h\<lparr>wl_ready := (wl_ready h)(t := False), wl_next := (wl_next h)(t := None)\<rparr>
      in case wl_head w of
           None \<Rightarrow> Some (h1, \<lparr>wl_head = Some t, wl_tail = Some t\<rparr>)
         | Some _ \<Rightarrow> do {
             l \<leftarrow> wl_tail w;
             Some (h1\<lparr>wl_next := (wl_next h1)(l := Some t)\<rparr>, w\<lparr>wl_tail := Some t\<rparr>)
           })"

text \<open>The enqueueing half of \<^verbatim>\<open>ABTI_waitlist_wait_timedout_and_unlock\<close>.\<close>

definition ABTI_waitlist_wait_timed ::
    "thread_ptr \<Rightarrow> waitlist \<Rightarrow> wait_heap \<Rightarrow> (wait_heap \<times> waitlist) option" where
  "ABTI_waitlist_wait_timed t w h =
     (let h1 = h\<lparr>wl_ready := (wl_ready h)(t := False), wl_next := (wl_next h)(t := None)\<rparr>
      in case wl_head w of
           None \<Rightarrow> Some (h1\<lparr>wl_prev := (wl_prev h1)(t := None)\<rparr>,
                         \<lparr>wl_head = Some t, wl_tail = Some t\<rparr>)
         | Some _ \<Rightarrow> do {
             l \<leftarrow> wl_tail w;
             Some (h1\<lparr>wl_next := (wl_next h1)(l := Some t), wl_prev := (wl_prev h1)(t := Some l)\<rparr>,
                   w\<lparr>wl_tail := Some t\<rparr>)
           })"

text \<open>
  The code after the label \<^verbatim>\<open>timeout\<close>: the result tells whether the wait timed out (it has
  not if the waiter was signaled before the lock was taken). Failed assertions are \<open>None\<close>.
\<close>

definition ABTI_waitlist_timeout ::
    "thread_ptr \<Rightarrow> waitlist \<Rightarrow> wait_heap \<Rightarrow> (bool \<times> wait_heap \<times> waitlist) option" where
  "ABTI_waitlist_timeout t w h =
     (if wl_ready h t then Some (False, h, w)
      else if wl_head w = Some t then
        (let w1 = w\<lparr>wl_head := wl_next h t\<rparr>
         in if wl_next h t = None then
              (if wl_tail w1 = Some t then Some (True, h, w1\<lparr>wl_tail := None\<rparr>) else None)
            else Some (True, h, w1))
      else do {
        p \<leftarrow> wl_prev h t;
        let h1 = h\<lparr>wl_next := (wl_next h)(p := wl_next h t)\<rparr>;
        (case wl_next h1 t of
           Some n \<Rightarrow> Some (True, h1\<lparr>wl_prev := (wl_prev h1)(n := wl_prev h1 t)\<rparr>, w)
         | None \<Rightarrow>
             if wl_tail w = Some t then Some (True, h1, w\<lparr>wl_tail := wl_prev h1 t\<rparr>) else None)
      })"

text \<open>
  Waking one thread: a ULT is pushed back to its pool, any other thread has its state set to
  READY and the futex broadcast; both make it READY. The result names the thread woken.
\<close>

definition ABTI_waitlist_signal ::
    "waitlist \<Rightarrow> wait_heap \<Rightarrow> thread_ptr option \<times> wait_heap \<times> waitlist" where
  "ABTI_waitlist_signal w h =
     (case wl_head w of
        None \<Rightarrow> (None, h, w)
      | Some t \<Rightarrow>
          (let n = wl_next h t;
               h1 = h\<lparr>wl_next := (wl_next h)(t := None)\<rparr>;
               h2 = h1\<lparr>wl_ready := (wl_ready h1)(t := True)\<rparr>;
               w1 = w\<lparr>wl_head := n\<rparr>
           in (Some t, h2, if n = None then w1\<lparr>wl_tail := None\<rparr> else w1)))"

text \<open>
  The loop of the broadcast: the threads woken, in order, and whether the futex has to be
  broadcast because one of them is not yieldable.
\<close>

partial_function (option) wake_loop ::
    "thread_ptr \<Rightarrow> bool \<Rightarrow> wait_heap \<Rightarrow> (thread_ptr list \<times> bool \<times> wait_heap) option" where
  "wake_loop t wakeup h =
     (let n = wl_next h t;
          h1 = h\<lparr>wl_next := (wl_next h)(t := None)\<rparr>;
          h2 = h1\<lparr>wl_ready := (wl_ready h1)(t := True)\<rparr>;
          wakeup1 = (wakeup \<or> \<not> wl_yieldable h t)
      in case n of
           None \<Rightarrow> Some ([t], wakeup1, h2)
         | Some t' \<Rightarrow> do {
             (ts, wk, h3) \<leftarrow> wake_loop t' wakeup1 h2;
             Some (t # ts, wk, h3)
           })"

definition ABTI_waitlist_broadcast ::
    "waitlist \<Rightarrow> wait_heap \<Rightarrow> (thread_ptr list \<times> bool \<times> wait_heap \<times> waitlist) option" where
  "ABTI_waitlist_broadcast w h =
     (case wl_head w of
        None \<Rightarrow> Some ([], False, h, w)
      | Some t \<Rightarrow> do {
          (ts, wk, h1) \<leftarrow> wake_loop t False h;
          Some (ts, wk, h1, \<lparr>wl_head = None, wl_tail = None\<rparr>)
        })"

section \<open>Representation\<close>

definition wl_link :: "thread_ptr set \<Rightarrow> wait_heap \<Rightarrow> thread_ptr \<Rightarrow> thread_ptr \<Rightarrow> bool" where
  "wl_link T h a b \<longleftrightarrow> wl_next h a = Some b \<and> (b \<in> T \<longrightarrow> wl_prev h b = Some a)"

definition wl_rep :: "thread_ptr set \<Rightarrow> wait_heap \<Rightarrow> waitlist \<Rightarrow> thread_ptr list \<Rightarrow> bool" where
  "wl_rep T h w xs \<longleftrightarrow>
     wl_head w = (if xs = [] then None else Some (hd xs)) \<and>
     wl_tail w = (if xs = [] then None else Some (last xs)) \<and>
     distinct xs \<and> successively (wl_link T h) xs \<and>
     (xs \<noteq> [] \<longrightarrow> wl_next h (last xs) = None) \<and> (\<forall>x \<in> set xs. \<not> wl_ready h x)"

lemma wl_rep_init [simp]: "wl_rep T h ABTI_waitlist_init []"
  by (simp add: wl_rep_def ABTI_waitlist_init_def)

lemma wl_rep_empty: "wl_rep T h w xs \<Longrightarrow> ABTI_waitlist_is_empty w \<longleftrightarrow> xs = []"
  by (simp add: wl_rep_def ABTI_waitlist_is_empty_def)

lemma wl_snoc_links:
  assumes "successively (wl_link T h) xs" "distinct xs" "t \<notin> set xs"
    and "\<And>x. x \<notin> {t, last xs} \<Longrightarrow> wl_next h' x = wl_next h x"
    and "\<And>x. x \<noteq> t \<Longrightarrow> wl_prev h' x = wl_prev h x"
  shows "successively (wl_link T h') xs"
proof (rule successively_distinct_mono [OF assms(1,2)])
  fix a b assume ab: "a \<in> set (butlast xs)" "b \<in> set (tl xs)" "wl_link T h a b"
  then have "xs \<noteq> []" by auto
  then have "a \<noteq> last xs" "a \<noteq> t" "b \<noteq> t"
    using ab assms(2,3) last_in_butlast_distinct [of xs]
    by (auto dest: in_set_butlastD list.set_sel(2))
  then show "wl_link T h' a b"
    using ab(3) assms(4,5) by (auto simp: wl_link_def)
qed

lemma wait_rep:
  assumes "wl_rep T h w xs" "t \<notin> set xs" "t \<notin> T"
  shows "\<exists>h' w'. ABTI_waitlist_wait t w h = Some (h', w') \<and> wl_rep T h' w' (xs @ [t])"
proof (cases "xs = []")
  case True
  then show ?thesis
    using assms by (auto simp: ABTI_waitlist_wait_def wl_rep_def Let_def)
next
  case False
  let ?h = "h\<lparr>wl_ready := (wl_ready h)(t := False),
              wl_next := (wl_next h)(t := None, last xs := Some t)\<rparr>"
  have "ABTI_waitlist_wait t w h = Some (?h, w\<lparr>wl_tail := Some t\<rparr>)"
    using assms False by (simp add: ABTI_waitlist_wait_def wl_rep_def Let_def)
  moreover have "successively (wl_link T ?h) xs"
    by (rule wl_snoc_links [of T h xs t]) (use assms in \<open>auto simp: wl_rep_def\<close>)
  moreover have "last xs \<noteq> t"
    using False assms(2) last_in_set by metis
  ultimately show ?thesis
    using assms False by (auto simp: wl_rep_def successively_append_iff wl_link_def)
qed

lemma wait_ready:
  "ABTI_waitlist_wait t w h = Some (h', w') \<Longrightarrow> wl_ready h' = (wl_ready h)(t := False)"
  by (auto simp: ABTI_waitlist_wait_def Let_def split: option.splits bind_splits)

lemma wait_timed_rep:
  assumes "wl_rep T h w xs" "t \<notin> set xs"
  shows "\<exists>h' w'. ABTI_waitlist_wait_timed t w h = Some (h', w') \<and> wl_rep T h' w' (xs @ [t])"
proof (cases "xs = []")
  case True
  then show ?thesis
    using assms by (auto simp: ABTI_waitlist_wait_timed_def wl_rep_def Let_def)
next
  case False
  let ?h = "h\<lparr>wl_ready := (wl_ready h)(t := False),
              wl_next := (wl_next h)(t := None, last xs := Some t),
              wl_prev := (wl_prev h)(t := Some (last xs))\<rparr>"
  have "ABTI_waitlist_wait_timed t w h = Some (?h, w\<lparr>wl_tail := Some t\<rparr>)"
    using assms False by (simp add: ABTI_waitlist_wait_timed_def wl_rep_def Let_def)
  moreover have "successively (wl_link T ?h) xs"
    by (rule wl_snoc_links [of T h xs t]) (use assms in \<open>auto simp: wl_rep_def\<close>)
  moreover have "last xs \<noteq> t"
    using False assms(2) last_in_set by metis
  ultimately show ?thesis
    using assms False by (auto simp: wl_rep_def successively_append_iff wl_link_def)
qed

lemma wait_timed_ready:
  "ABTI_waitlist_wait_timed t w h = Some (h', w') \<Longrightarrow> wl_ready h' = (wl_ready h)(t := False)"
  by (auto simp: ABTI_waitlist_wait_timed_def Let_def split: option.splits bind_splits)

lemma signal_rep:
  assumes "wl_rep T h w (t # xs)"
  shows "\<exists>h' w'. ABTI_waitlist_signal w h = (Some t, h', w') \<and> wl_rep T h' w' xs \<and>
    wl_ready h' = (wl_ready h)(t := True)"
proof -
  let ?h = "h\<lparr>wl_next := (wl_next h)(t := None), wl_ready := (wl_ready h)(t := True)\<rparr>"
  have "successively (wl_link T ?h) xs"
    by (rule successively_mono_on [of "wl_link T h"])
       (use assms in \<open>auto simp: wl_rep_def wl_link_def successively_Cons\<close>)
  then show ?thesis
    using assms by (cases xs) (auto simp: ABTI_waitlist_signal_def wl_rep_def wl_link_def Let_def)
qed

lemma signal_empty: "wl_rep T h w [] \<Longrightarrow> ABTI_waitlist_signal w h = (None, h, w)"
  by (simp add: ABTI_waitlist_signal_def wl_rep_def)

lemma wake_loop_ok:
  assumes "successively (wl_link T h) (t # xs)" "distinct (t # xs)" "wl_next h (last (t # xs)) = None"
  shows "\<exists>h'. wake_loop t wk h = Some (t # xs, wk \<or> (\<exists>x \<in> set (t # xs). \<not> wl_yieldable h x), h')
    \<and> (\<forall>x. wl_ready h' x \<longleftrightarrow> wl_ready h x \<or> x \<in> set (t # xs))"
  using assms
proof (induction xs arbitrary: t wk h)
  case Nil
  then show ?case by (subst wake_loop.simps) (auto simp: Let_def)
next
  case (Cons y xs)
  let ?h = "h\<lparr>wl_next := (wl_next h)(t := None), wl_ready := (wl_ready h)(t := True)\<rparr>"
  have n: "wl_next h t = Some y"
    using Cons.prems(1) by (simp add: wl_link_def)
  have 1: "successively (wl_link T ?h) (y # xs)"
    by (rule successively_mono_on [of "wl_link T h"]) (use Cons.prems in \<open>auto simp: wl_link_def\<close>)
  have 2: "wl_next ?h (last (y # xs)) = None"
    using Cons.prems by auto
  have 3: "distinct (y # xs)"
    using Cons.prems(2) by simp
  show ?case
    using Cons.IH [OF 1 3 2, of "wk \<or> \<not> wl_yieldable h t"] n
    by (subst wake_loop.simps) (auto simp: Let_def)
qed

text \<open>A broadcast returns, wakes every waiter in order of arrival and empties the list.\<close>

lemma broadcast_rep:
  assumes "wl_rep T h w xs"
  shows "\<exists>h' w'. ABTI_waitlist_broadcast w h
      = Some (xs, \<exists>x \<in> set xs. \<not> wl_yieldable h x, h', w') \<and> wl_rep T h' w' []
    \<and> (\<forall>x. wl_ready h' x \<longleftrightarrow> wl_ready h x \<or> x \<in> set xs)"
proof (cases xs)
  case Nil
  then show ?thesis
    using assms by (auto simp: ABTI_waitlist_broadcast_def wl_rep_def)
next
  case (Cons t ys)
  then show ?thesis
    using assms wake_loop_ok [of T h t ys False]
    by (auto simp: ABTI_waitlist_broadcast_def wl_rep_def)
qed

text \<open>
  A timed wait that times out removes exactly its own dummy, wherever it is in the list, and
  passes every assertion of the code.
\<close>

lemma timeout_rep:
  assumes "wl_rep T h w (as @ t # bs)" "t \<in> T"
  shows "\<exists>h' w'. ABTI_waitlist_timeout t w h = Some (True, h', w') \<and> wl_rep T h' w' (as @ bs)"
proof (cases "as = []")
  case True
  then show ?thesis
    using assms by (cases bs) (auto simp: ABTI_waitlist_timeout_def wl_rep_def wl_link_def Let_def)
next
  case False
  have L: "successively (wl_link T h) as" "wl_link T h (last as) t" "distinct (as @ t # bs)"
    "bs \<noteq> [] \<Longrightarrow> wl_link T h t (hd bs)" "successively (wl_link T h) bs"
    "bs = [] \<Longrightarrow> wl_next h t = None" "\<not> wl_ready h t" "wl_head w \<noteq> Some t"
    using assms False
    by (auto simp: wl_rep_def successively_append_iff successively_Cons dest: hd_in_set)
  have p: "wl_prev h t = Some (last as)" "wl_next h t = (if bs = [] then None else Some (hd bs))"
    using L assms(2) by (auto simp: wl_link_def)
  show ?thesis
  proof (cases "bs = []")
    case True
    let ?h = "h\<lparr>wl_next := (wl_next h)(last as := None)\<rparr>"
    have "successively (wl_link T ?h) as"
      by (rule wl_snoc_links [of T h as t]) (use L in auto)
    moreover have "ABTI_waitlist_timeout t w h = Some (True, ?h, w\<lparr>wl_tail := Some (last as)\<rparr>)"
      using p L assms(1) True False by (auto simp: ABTI_waitlist_timeout_def wl_rep_def Let_def)
    ultimately show ?thesis
      using assms(1) True False by (auto simp: wl_rep_def)
  next
    case ne: False
    let ?h = "h\<lparr>wl_next := (wl_next h)(last as := Some (hd bs)),
                wl_prev := (wl_prev h)(hd bs := Some (last as))\<rparr>"
    have "last as \<noteq> t" "last as \<notin> set bs" "hd bs \<notin> set as"
      using L(3) False ne by (auto dest: last_in_set hd_in_set)
    have "successively (wl_link T ?h) as"
    proof (rule successively_distinct_mono [OF L(1)])
      fix a b assume "a \<in> set (butlast as)" "b \<in> set (tl as)" "wl_link T h a b"
      moreover have "last as \<notin> set (butlast as)"
        using last_in_butlast_distinct L(3) False by auto
      ultimately show "wl_link T ?h a b"
        using \<open>hd bs \<notin> set as\<close> by (auto simp: wl_link_def dest: list.set_sel(2) [OF False])
    qed (use L in auto)
    moreover have "successively (wl_link T ?h) bs"
    proof (rule successively_distinct_mono [OF L(5)])
      fix a b assume "a \<in> set (butlast bs)" "b \<in> set (tl bs)" "wl_link T h a b"
      moreover have "hd bs \<notin> set (tl bs)"
        using hd_in_tl_distinct L(3) ne by auto
      ultimately show "wl_link T ?h a b"
        using \<open>last as \<notin> set bs\<close> by (auto simp: wl_link_def dest: in_set_butlastD)
    qed (use L in auto)
    moreover have "wl_link T ?h (last as) (hd bs)"
      by (simp add: wl_link_def)
    moreover have "ABTI_waitlist_timeout t w h = Some (True, ?h, w)"
      using p L ne \<open>last as \<noteq> t\<close> by (simp add: ABTI_waitlist_timeout_def Let_def)
    moreover have "last bs \<noteq> last as"
      using ne \<open>last as \<notin> set bs\<close> last_in_set by metis
    then have "wl_next ?h (last bs) = None"
      using assms(1) ne by (auto simp: wl_rep_def)
    ultimately show ?thesis
      using assms(1) False ne by (auto simp: wl_rep_def successively_append_iff)
  qed
qed

lemma timeout_ready:
  "ABTI_waitlist_timeout t w h = Some (b, h', w') \<Longrightarrow> wl_ready h' = wl_ready h"
  by (auto simp: ABTI_waitlist_timeout_def Let_def split: option.splits bind_splits if_splits)

text \<open>A timed waiter that was signaled in the meantime has not timed out.\<close>

lemma timeout_signaled: "wl_ready h t \<Longrightarrow> ABTI_waitlist_timeout t w h = Some (False, h, w)"
  by (simp add: ABTI_waitlist_timeout_def)

end
