(* ===== verification/SyncBase.thy ===== *)
theory SyncBase
  imports Waitlist
begin

text \<open>
  What the synchronization objects (barrier, eventual, future, rwlock) share: who the caller
  of a blocking function is, what such a call does, and the contract of an object whose
  waiters are all woken at once.

  Every handler runs under the object's spinlock from its first access to its last, so it is
  one atomic action on the object and on the heap of wait-list links. A handler that blocks has
  enqueued its caller; the caller goes on when another handler has made it READY.
\<close>

text \<open>
  \<^verbatim>\<open>ABTI_local_get_local\<close> returns NULL on an external thread; otherwise the type of the
  current work unit tells a yieldable ULT from a tasklet.
\<close>

datatype caller = External | Yieldable | Tasklet

datatype outcome = Returns abt_errno | Blocks

text \<open>\<^verbatim>\<open>ABTI_CHECK_TRUE (type & YIELDABLE)\<close> under \<^verbatim>\<open>if (p_local)\<close>.\<close>

definition may_block :: "caller \<Rightarrow> bool" where
  "may_block c = (c \<noteq> Tasklet)"

lemma may_block_simps [simp]:
  "may_block External" "may_block Yieldable" "\<not> may_block Tasklet"
  by (simp_all add: may_block_def)

section \<open>Threads and the locks they hold\<close>

text \<open>
  \<open>Moves\<close>: the action was done. \<open>Spins\<close>: the thread polls or sleeps and has to try again.
  \<open>Fails\<close>: an assertion of the code failed or a counter overflowed.
\<close>

datatype 's micro = Moves 's | Spins | Fails

text \<open>The threads of \<open>P\<close> whose program counter satisfies \<open>Q\<close>.\<close>

definition holders :: "thread_ptr set \<Rightarrow> ('pc \<Rightarrow> bool) \<Rightarrow> (thread_ptr \<Rightarrow> 'pc) \<Rightarrow> thread_ptr set" where
  "holders P Q pc = {t \<in> P. Q (pc t)}"

text \<open>A lock bit and the set of its holders.\<close>

definition excl :: "bool \<Rightarrow> thread_ptr set \<Rightarrow> bool" where
  "excl b A = (if b then \<exists>t. A = {t} else A = {})"

lemma holders_upd:
  "t \<in> P \<Longrightarrow> holders P Q (pc(t := c))
    = (if Q c then insert t (holders P Q pc) else holders P Q pc - {t})"
  by (auto simp: holders_def)

lemma in_holders: "t \<in> P \<Longrightarrow> t \<in> holders P Q pc \<longleftrightarrow> Q (pc t)"
  by (simp add: holders_def)

lemma excl_keep: "excl b A \<Longrightarrow> t \<in> A \<Longrightarrow> excl b (insert t A)"
  by (simp add: insert_absorb)

lemma excl_keep_out: "excl b A \<Longrightarrow> t \<notin> A \<Longrightarrow> excl b (A - {t})"
  by simp

lemma excl_take: "excl False A \<Longrightarrow> excl True (insert t A)"
  by (simp add: excl_def)

lemma excl_drop: "excl b A \<Longrightarrow> t \<in> A \<Longrightarrow> excl False (A - {t})"
  by (auto simp: excl_def split: if_splits)

lemma excl_held: "excl b A \<Longrightarrow> t \<in> A \<Longrightarrow> b \<and> A = {t}"
  by (auto simp: excl_def split: if_splits)

lemmas excl_rules = excl_keep excl_keep_out excl_take excl_drop

lemma held_by:
  "excl True (holders P Q pc) \<Longrightarrow> \<exists>t \<in> P. Q (pc t)"
  by (auto simp: excl_def holders_def)

section \<open>Objects that wake all their waiters\<close>

text \<open>
  \<open>block t s\<close> is the state after \<open>t\<close> has blocked on \<open>s\<close>, \<open>None\<close> if the call does not block;
  \<open>wake s\<close> is the operation that releases everybody, with the threads it makes READY, and
  \<open>idle\<close> is what it establishes.
\<close>

locale wake_all =
  fixes rep :: "'s \<Rightarrow> thread_ptr list \<Rightarrow> bool"
    and block :: "thread_ptr \<Rightarrow> 's \<Rightarrow> 's option"
    and wake :: "'s \<Rightarrow> (thread_ptr list \<times> 's) option"
    and idle :: "'s \<Rightarrow> bool"
  assumes block_rep: "rep s xs \<Longrightarrow> t \<notin> set xs \<Longrightarrow> \<exists>s'. block t s = Some s' \<and> rep s' (xs @ [t])"
    and wake_rep: "rep s xs \<Longrightarrow> \<exists>s'. wake s = Some (xs, s') \<and> idle s'"

context wake_all
begin

primrec blocks :: "thread_ptr list \<Rightarrow> 's \<Rightarrow> 's option" where
  "blocks [] s = Some s"
| "blocks (t # ts) s = Option.bind (block t s) (blocks ts)"

lemma blocks_rep:
  "rep s xs \<Longrightarrow> distinct (xs @ ts) \<Longrightarrow> \<exists>s'. blocks ts s = Some s' \<and> rep s' (xs @ ts)"
proof (induction ts arbitrary: s xs)
  case (Cons t ts)
  obtain s1 where "block t s = Some s1" "rep s1 (xs @ [t])"
    using block_rep [of s xs t] Cons.prems by auto
  then show ?case
    using Cons.IH [of s1 "xs @ [t]"] Cons.prems by auto
qed simp

text \<open>One wake-up reaches every thread that blocked before it, in the order they came.\<close>

lemma wake_reaches_all:
  assumes "rep s xs" "distinct (xs @ ts)"
  shows "\<exists>s1 s2. blocks ts s = Some s1 \<and> wake s1 = Some (xs @ ts, s2) \<and> idle s2"
  using blocks_rep [OF assms] wake_rep by blast

end

text \<open>After the wake-up of a one-shot object nobody blocks any more.\<close>

locale one_shot = wake_all rep block wake idle
  for rep :: "'s \<Rightarrow> thread_ptr list \<Rightarrow> bool" and block and wake and idle +
  fixes passes :: "thread_ptr \<Rightarrow> 's \<Rightarrow> bool"
  assumes idle_passes: "idle s \<Longrightarrow> passes t s"

context one_shot
begin

lemma nobody_left_behind:
  assumes "rep s []" "distinct ts"
  shows "\<exists>s1 s2. blocks ts s = Some s1 \<and> wake s1 = Some (ts, s2) \<and> (\<forall>t. passes t s2)"
  using wake_reaches_all [of s "[]" ts] assms idle_passes by fastforce

end

end
