(* ===== verification/Barrier.thy ===== *)
theory Barrier
  imports SyncBase
begin

text \<open>
  The barrier (\<^verbatim>\<open>argobots_framework/src/barrier.c\<close>). The counter is a \<^verbatim>\<open>size_t\<close> that stays
  below a number of waiters that fits 32 bits, so a natural number is exact. A NULL handle is
  the argument \<open>None\<close>; a failed \<^verbatim>\<open>ABTI_ASSERT\<close> is the result \<open>None\<close>.

  \<open>barrier_rep\<close> relates the object to the list of threads blocked in the current round, and
  \<open>arrive\<close> is what one call does to that list. The step relation at the end lets a fixed set
  of threads pass the barrier again and again, with any delay between being made READY and
  running on.
\<close>

record barrier =
  b_num_waiters :: nat
  b_counter :: nat
  b_waitlist :: waitlist

section \<open>Operations\<close>

definition ABT_barrier_create :: "bool \<Rightarrow> 32 word \<Rightarrow> abt_errno \<times> barrier option" where
  "ABT_barrier_create malloc_ok num_waiters =
     (if num_waiters = 0 then (ABT_ERR_INV_ARG, None)
      else if \<not> malloc_ok then (ABT_ERR_MEM, None)
      else (ABT_SUCCESS, Some \<lparr>b_num_waiters = unat num_waiters, b_counter = 0,
                               b_waitlist = ABTI_waitlist_init\<rparr>))"

definition ABT_barrier_reinit ::
    "barrier option \<Rightarrow> 32 word \<Rightarrow> abt_errno \<times> barrier option" where
  "ABT_barrier_reinit barrier num_waiters =
     (case barrier of
        None \<Rightarrow> (ABT_ERR_INV_BARRIER, None)
      | Some b \<Rightarrow>
          if num_waiters = 0 then (ABT_ERR_INV_ARG, Some b)
          else if unat num_waiters \<noteq> b_num_waiters b
          then (ABT_SUCCESS, Some (b\<lparr>b_num_waiters := unat num_waiters\<rparr>))
          else (ABT_SUCCESS, Some b))"

text \<open>Freeing takes the object away and sets the caller's handle to \<^verbatim>\<open>ABT_BARRIER_NULL\<close>.\<close>

definition ABT_barrier_free :: "barrier option \<Rightarrow> abt_errno \<times> barrier option" where
  "ABT_barrier_free barrier =
     (case barrier of None \<Rightarrow> (ABT_ERR_INV_BARRIER, None) | Some b \<Rightarrow> (ABT_SUCCESS, None))"

definition ABT_barrier_wait ::
    "caller \<Rightarrow> thread_ptr \<Rightarrow> barrier option \<Rightarrow> wait_heap
     \<Rightarrow> (outcome \<times> thread_ptr list \<times> wait_heap \<times> barrier option) option" where
  "ABT_barrier_wait c self barrier h =
     (case barrier of
        None \<Rightarrow> Some (Returns ABT_ERR_INV_BARRIER, [], h, None)
      | Some b \<Rightarrow>
          if \<not> may_block c then Some (Returns ABT_ERR_BARRIER, [], h, Some b)
          else if \<not> b_counter b < b_num_waiters b then None
          else
            let b1 = b\<lparr>b_counter := b_counter b + 1\<rparr>
            in if b_counter b1 < b_num_waiters b1 then do {
                 (h', w') \<leftarrow> ABTI_waitlist_wait self (b_waitlist b1) h;
                 Some (Blocks, [], h', Some (b1\<lparr>b_waitlist := w'\<rparr>))
               }
               else do {
                 (woken, _, h', w') \<leftarrow> ABTI_waitlist_broadcast (b_waitlist b1) h;
                 Some (Returns ABT_SUCCESS, woken, h', Some (b1\<lparr>b_waitlist := w', b_counter := 0\<rparr>))
               })"

definition ABT_barrier_get_num_waiters :: "barrier option \<Rightarrow> abt_errno \<times> 32 word option" where
  "ABT_barrier_get_num_waiters barrier =
     (case barrier of
        None \<Rightarrow> (ABT_ERR_INV_BARRIER, None)
      | Some b \<Rightarrow> (ABT_SUCCESS, Some (of_nat (b_num_waiters b))))"

section \<open>What a call does\<close>

definition barrier_rep :: "nat \<Rightarrow> wait_heap \<Rightarrow> barrier \<Rightarrow> thread_ptr list \<Rightarrow> bool" where
  "barrier_rep n h b xs \<longleftrightarrow> wl_rep {} h (b_waitlist b) xs \<and> b_num_waiters b = n
     \<and> b_counter b = length xs \<and> length xs < n"

text \<open>The abstract barrier: who is woken, and who is blocked afterwards.\<close>

definition arrive :: "nat \<Rightarrow> thread_ptr \<Rightarrow> thread_ptr list \<Rightarrow> thread_ptr list \<times> thread_ptr list" where
  "arrive n t xs = (if length xs + 1 < n then ([], xs @ [t]) else (xs, []))"

lemma create_rep:
  assumes "num \<noteq> 0"
  shows "\<exists>b. ABT_barrier_create True num = (ABT_SUCCESS, Some b) \<and> barrier_rep (unat num) h b []"
  using assms by (simp add: ABT_barrier_create_def barrier_rep_def unat_gt_0)

lemma barrier_wait_rep:
  assumes "barrier_rep n h b xs" "t \<notin> set xs" "may_block c"
  shows "\<exists>h' b'. ABT_barrier_wait c t (Some b) h
      = Some (if length xs + 1 < n then Blocks else Returns ABT_SUCCESS, fst (arrive n t xs), h', Some b')
    \<and> barrier_rep n h' b' (snd (arrive n t xs))
    \<and> (\<forall>x. x \<noteq> t \<longrightarrow> (wl_ready h' x \<longleftrightarrow> wl_ready h x \<or> x \<in> set (fst (arrive n t xs))))"
proof (cases "length xs + 1 < n")
  case True
  have "wl_rep {} h (b_waitlist b) xs"
    using assms(1) by (simp add: barrier_rep_def)
  then obtain h' w' where w: "ABTI_waitlist_wait t (b_waitlist b) h = Some (h', w')"
    "wl_rep {} h' w' (xs @ [t])"
    using wait_rep [of "{}" h "b_waitlist b" xs t] assms(2) by blast
  then show ?thesis
    using wait_ready [OF w(1)] True assms by (auto simp: ABT_barrier_wait_def barrier_rep_def arrive_def Let_def)
next
  case False
  have "wl_rep {} h (b_waitlist b) xs"
    using assms(1) by (simp add: barrier_rep_def)
  from broadcast_rep [OF this] show ?thesis
    using False assms by (auto simp: ABT_barrier_wait_def barrier_rep_def arrive_def Let_def)
qed

section \<open>Rounds\<close>

text \<open>
  The threads of \<open>P\<close> share a barrier for \<open>card P\<close> waiters and call it again and again. A thread
  has arrived \<open>bs_arrived\<close> times and returned from \<open>bs_passed\<close> of these calls; a blocked
  thread returns some time after it was made READY.
\<close>

record barrier_sys =
  bs_heap :: wait_heap
  bs_barrier :: barrier
  bs_arrived :: "thread_ptr \<Rightarrow> nat"
  bs_passed :: "thread_ptr \<Rightarrow> nat"

inductive barrier_step :: "thread_ptr set \<Rightarrow> barrier_sys \<Rightarrow> barrier_sys \<Rightarrow> bool"
  for P :: "thread_ptr set" where
  call: "barrier_step P s (s\<lparr>bs_heap := h', bs_barrier := b',
            bs_arrived := (bs_arrived s)(t := bs_arrived s t + 1),
            bs_passed := (if out = Blocks then bs_passed s else (bs_passed s)(t := bs_passed s t + 1))\<rparr>)"
  if "t \<in> P" "bs_passed s t = bs_arrived s t"
    "ABT_barrier_wait Yieldable t (Some (bs_barrier s)) (bs_heap s) = Some (out, woken, h', Some b')"
| resume: "barrier_step P s (s\<lparr>bs_passed := (bs_passed s)(t := bs_passed s t + 1)\<rparr>)"
  if "t \<in> P" "bs_arrived s t = bs_passed s t + 1" "wl_ready (bs_heap s) t"

inductive barrier_reachable :: "thread_ptr set \<Rightarrow> barrier_sys \<Rightarrow> bool"
  for P :: "thread_ptr set" where
  init: "barrier_reachable P \<lparr>bs_heap = h, bs_barrier = b, bs_arrived = (\<lambda>_. 0), bs_passed = (\<lambda>_. 0)\<rparr>"
  if "ABT_barrier_create True n = (ABT_SUCCESS, Some b)" "unat n = card P"
| step: "barrier_reachable P s'" if "barrier_reachable P s" "barrier_step P s s'"

text \<open>In round \<open>k\<close> the threads of \<open>xs\<close> have arrived; the others may still be on their way out of the last one.\<close>

definition round_inv :: "thread_ptr set \<Rightarrow> barrier_sys \<Rightarrow> nat \<Rightarrow> thread_ptr list \<Rightarrow> bool" where
  "round_inv P s k xs \<longleftrightarrow>
     barrier_rep (card P) (bs_heap s) (bs_barrier s) xs \<and> set xs \<subseteq> P \<and>
     (\<forall>t \<in> set xs. bs_arrived s t = k + 1 \<and> bs_passed s t = k) \<and>
     (\<forall>t \<in> P - set xs. bs_arrived s t = k \<and>
        (bs_passed s t = k \<or> bs_passed s t + 1 = k \<and> wl_ready (bs_heap s) t))"

lemma rep_distinct: "barrier_rep n h b xs \<Longrightarrow> distinct xs \<and> (\<forall>x \<in> set xs. \<not> wl_ready h x)"
  by (simp add: barrier_rep_def wl_rep_def)

lemma barrier_call_inv:
  assumes inv: "round_inv P s k xs" and t: "t \<in> P" "bs_passed s t = bs_arrived s t"
    and fin: "finite P"
    and call: "ABT_barrier_wait Yieldable t (Some (bs_barrier s)) (bs_heap s)
      = Some (out, woken, h', Some b')"
  shows "\<exists>k' xs'. round_inv P (s\<lparr>bs_heap := h', bs_barrier := b',
            bs_arrived := (bs_arrived s)(t := bs_arrived s t + 1),
            bs_passed := (if out = Blocks then bs_passed s else (bs_passed s)(t := bs_passed s t + 1))\<rparr>) k' xs'"
proof -
  have rep: "barrier_rep (card P) (bs_heap s) (bs_barrier s) xs" and sub: "set xs \<subseteq> P"
    and tx: "t \<notin> set xs" and tk: "bs_arrived s t = k" "bs_passed s t = k"
    using inv t by (auto simp: round_inv_def)
  note res = barrier_wait_rep [OF rep tx, of Yieldable, simplified, unfolded call]
  show ?thesis
  proof (cases "length xs + 1 < card P")
    case True
    then have "round_inv P (s\<lparr>bs_heap := h', bs_barrier := b',
            bs_arrived := (bs_arrived s)(t := bs_arrived s t + 1),
            bs_passed := (if out = Blocks then bs_passed s else (bs_passed s)(t := bs_passed s t + 1))\<rparr>)
            k (xs @ [t])"
      using inv t tk res by (auto simp: round_inv_def arrive_def)
    then show ?thesis by blast
  next
    case False
    have "card (insert t (set xs)) = card P"
      using False rep tx rep_distinct [OF rep] by (auto simp: barrier_rep_def distinct_card)
    then have P: "P = insert t (set xs)"
      using card_subset_eq [OF fin, of "insert t (set xs)"] sub t(1) by auto
    have "round_inv P (s\<lparr>bs_heap := h', bs_barrier := b',
            bs_arrived := (bs_arrived s)(t := bs_arrived s t + 1),
            bs_passed := (if out = Blocks then bs_passed s else (bs_passed s)(t := bs_passed s t + 1))\<rparr>)
            (k + 1) []"
      using inv tk tx res False P by (auto simp: round_inv_def arrive_def)
    then show ?thesis by blast
  qed
qed

lemma barrier_resume_inv:
  assumes "round_inv P s k xs" "t \<in> P" "bs_arrived s t = bs_passed s t + 1" "wl_ready (bs_heap s) t"
  shows "round_inv P (s\<lparr>bs_passed := (bs_passed s)(t := bs_passed s t + 1)\<rparr>) k xs"
proof -
  have "t \<notin> set xs"
    using assms(1,4) by (auto simp: round_inv_def dest: rep_distinct)
  then show ?thesis
    using assms by (auto simp: round_inv_def)
qed

lemma reachable_inv:
  assumes "barrier_reachable P s" "finite P"
  shows "\<exists>k xs. round_inv P s k xs"
  using assms
proof (induction rule: barrier_reachable.induct)
  case (init n b h)
  then have "n \<noteq> 0"
    by (auto simp: ABT_barrier_create_def)
  then have "round_inv P \<lparr>bs_heap = h, bs_barrier = b, bs_arrived = (\<lambda>_. 0), bs_passed = (\<lambda>_. 0)\<rparr> 0 []"
    using init create_rep [of n h] by (auto simp: round_inv_def)
  then show ?case by blast
next
  case (step s s')
  then obtain k xs where inv: "round_inv P s k xs"
    by blast
  from step.hyps(2) show ?case
  proof cases
    case (call t out woken h' b')
    show ?thesis
      unfolding call(1) by (rule barrier_call_inv [OF inv call(2,3) step.prems call(4)])
  next
    case (resume t)
    show ?thesis
      unfolding resume(1) using barrier_resume_inv [OF inv resume(2-4)] by blast
  qed
qed

text \<open>Some thread of \<open>P\<close> can always go on.\<close>

lemma inv_progress:
  assumes inv: "round_inv P s k xs" and fin: "finite P"
  shows "\<exists>s'. barrier_step P s s'"
proof -
  have rep: "barrier_rep (card P) (bs_heap s) (bs_barrier s) xs" and sub: "set xs \<subseteq> P"
    using inv by (auto simp: round_inv_def)
  have "card (set xs) < card P"
    using rep rep_distinct [OF rep] by (simp add: barrier_rep_def distinct_card)
  then obtain t where t: "t \<in> P" "t \<notin> set xs"
    using card_mono [OF finite_set, of P xs] by (meson not_le subsetI)
  then consider "bs_passed s t = bs_arrived s t" | "bs_arrived s t = bs_passed s t + 1" "wl_ready (bs_heap s) t"
    using inv by (auto simp: round_inv_def)
  then show ?thesis
  proof cases
    case 1
    then show ?thesis
      using barrier_wait_rep [OF rep t(2), of Yieldable] t(1) barrier_step.call by fastforce
  next
    case 2
    then show ?thesis
      using t(1) barrier_step.resume by blast
  qed
qed

text \<open>Nobody is past a round that somebody has not reached.\<close>

lemma round_safety:
  assumes "round_inv P s k xs" "t \<in> P" "u \<in> P" "j < bs_passed s t"
  shows "j < bs_arrived s u"
proof -
  have "bs_passed s t = k \<or> bs_passed s t + 1 = k"
    using assms(1,2) unfolding round_inv_def by blast
  moreover have "bs_arrived s u = k \<or> bs_arrived s u = k + 1"
    using assms(1,3) unfolding round_inv_def by blast
  ultimately show ?thesis
    using assms(4) by linarith
qed

end
