(* ===== verification/Reduction.thy ===== *)
theory Reduction
  imports RedOps Barrier
begin

text \<open>
  The parallel reduction of \<^verbatim>\<open>argobots_framework/examples/reduction/abt_reduction.c\<close> as it is built
  (\<^verbatim>\<open>USE_TREE_REDUCTION\<close> is 1): \<^verbatim>\<open>reduce_common\<close> splits the array, creates one ULT per chunk and
  joins them; the ULTs fold their chunks, publish the results and combine them pairwise,
  with a barrier before every level of the tree.

  \<open>red_step\<close> interleaves the main thread and the ULTs one shared access at a time; reading and
  writing a slot of \<^verbatim>\<open>thread_results\<close> in a combination are two steps. The barrier is the linked
  object of theory Barrier, \<open>rd_barrier\<close>, and a ULT inside it goes on when the runtime has made it
  READY. A freed or unwritten slot is \<open>None\<close>; accessing it is a failure, as is an overflow of
  \<^verbatim>\<open>step\<close>. Allocation succeeds. The pointers a ULT gets are the elements they point to.
\<close>

section \<open>Splitting the work\<close>

record 'v reduction_args =
  ra_array :: "'v list"
  ra_num_elems :: nat
  ra_default :: 'v
  ra_num_threads :: nat
  ra_thread_id :: nat

definition thread_args :: "nat \<Rightarrow> 'v list \<Rightarrow> 'v \<Rightarrow> nat \<Rightarrow> 'v reduction_args" where
  "thread_args num_threads array dflt i =
     (let num_elems = length array;
          elems_per_thread = num_elems div num_threads
      in \<lparr>ra_array = drop (i * elems_per_thread) array,
          ra_num_elems = (if i = num_threads - 1 then num_elems - i * elems_per_thread
                          else elems_per_thread),
          ra_default = dflt, ra_num_threads = num_threads, ra_thread_id = i\<rparr>)"

text \<open>The arguments and the pool of every ULT. No threads or no pools is a division by zero.\<close>

definition reduce_setup :: "nat \<Rightarrow> nat \<Rightarrow> 'v list \<Rightarrow> 'v \<Rightarrow> ('v reduction_args \<times> nat) list option" where
  "reduce_setup num_threads num_pools array dflt =
     (if num_threads = 0 \<or> num_pools = 0 then None
      else Some (map (\<lambda>i. (thread_args num_threads array dflt i, i mod num_pools)) [0..<num_threads]))"

definition chunk :: "nat \<Rightarrow> 'v list \<Rightarrow> nat \<Rightarrow> 'v list" where
  "chunk n array i =
     (let a = thread_args n array undefined i in take (ra_num_elems a) (ra_array a))"

lemma chunk_eq: "chunk n array i = take (ra_num_elems (thread_args n array d i)) (ra_array (thread_args n array d i))"
  by (simp add: chunk_def thread_args_def Let_def)

lemma thread_args_fits:
  assumes "i < n"
  shows "ra_num_elems (thread_args n array d i) \<le> length (ra_array (thread_args n array d i))"
proof -
  have "i * (length array div n) + length array div n \<le> length array"
  proof -
    have "(i + 1) * (length array div n) \<le> n * (length array div n)"
      using assms by (intro mult_right_mono) simp_all
    also have "\<dots> \<le> length array" by simp
    finally show ?thesis by simp
  qed
  then show ?thesis
    by (auto simp: thread_args_def Let_def)
qed

text \<open>The chunks are the array, in order, without gap or overlap.\<close>

lemma chunks_prefix:
  assumes "m \<le> n - 1"
  shows "concat (map (chunk n array) [0..<m]) = take (m * (length array div n)) array"
  using assms
proof (induction m)
  case (Suc m)
  have c: "chunk n array m = take (length array div n) (drop (m * (length array div n)) array)"
    using Suc.prems by (simp add: chunk_def thread_args_def Let_def)
  have "Suc m * (length array div n) = m * (length array div n) + length array div n"
    by simp
  then show ?case
    using Suc c by (simp only: take_add) simp
qed simp

lemma chunks_cover:
  assumes "0 < n"
  shows "concat (map (chunk n array) [0..<n]) = array"
proof -
  have "[0..<n] = [0..<n - 1] @ [n - 1]"
    using assms by (metis Suc_diff_1 upt_Suc_append zero_le)
  then have "concat (map (chunk n array) [0..<n])
      = take ((n - 1) * (length array div n)) array @ chunk n array (n - 1)"
    by (simp add: chunks_prefix)
  also have "\<dots> = array"
    using assms by (simp add: chunk_def thread_args_def Let_def)
  finally show ?thesis .
qed

section \<open>The ULT\<close>

datatype 'v red_pc =
  PNew | PLoop 'v nat | PPublish 'v | PBarrier nat | PBlocked nat | PTree nat | PRead nat
| PWrite nat 'v | PFinal | PFree | PDone

definition C_INT_MAX :: nat where "C_INT_MAX = 2 ^ 31 - 1"

text \<open>
  The code of \<^verbatim>\<open>reduction_thread\<close> outside the barrier: \<open>slots\<close> is \<^verbatim>\<open>thread_results\<close>, \<open>res\<close> the
  memory at \<^verbatim>\<open>result\<close>.
\<close>

fun red_micro ::
    "('v \<Rightarrow> 'v \<Rightarrow> 'v) \<Rightarrow> 'v reduction_args \<Rightarrow> 'v red_pc \<Rightarrow> (nat \<Rightarrow> 'v option) \<Rightarrow> 'v option
     \<Rightarrow> ('v red_pc \<times> (nat \<Rightarrow> 'v option) \<times> 'v option) micro" where
  "red_micro f A (PLoop acc j) slots res =
     (if j < ra_num_elems A
      then if j < length (ra_array A) then Moves (PLoop (f acc (ra_array A ! j)) (j + 1), slots, res)
           else Fails
      else Moves (PPublish acc, slots, res))"
| "red_micro f A (PPublish acc) slots res =
     Moves (PBarrier 1, slots(ra_thread_id A := Some acc), res)"
| "red_micro f A (PTree step) slots res =
     (if step < ra_num_threads A then Moves (PRead step, slots, res) else Moves (PFinal, slots, res))"
| "red_micro f A (PRead step) slots res =
     (if C_INT_MAX < 2 * step \<or>
         ra_thread_id A mod (2 * step) = 0 \<and> C_INT_MAX < ra_thread_id A + step then Fails
      else if ra_thread_id A mod (2 * step) = 0 \<and> ra_thread_id A + step < ra_num_threads A then
        (case (slots (ra_thread_id A), slots (ra_thread_id A + step)) of
           (Some a, Some b) \<Rightarrow> Moves (PWrite step (f a b), slots, res)
         | _ \<Rightarrow> Fails)
      else Moves (PBarrier (2 * step), slots, res))"
| "red_micro f A (PWrite step v) slots res =
     Moves (PBarrier (2 * step), slots(ra_thread_id A := Some v), res)"
| "red_micro f A PFinal slots res =
     (if ra_thread_id A = 0 then
        (case slots 0 of Some v \<Rightarrow> Moves (PFree, slots, Some v) | None \<Rightarrow> Fails)
      else Moves (PFree, slots, res))"
| "red_micro f A PFree slots res =
     (if slots (ra_thread_id A) = None then Fails
      else Moves (PDone, slots(ra_thread_id A := None), res))"
| "red_micro f A _ slots res = Spins"

section \<open>The whole reduction\<close>

datatype main_pc = MCreate nat | MJoin nat | MReturn

record 'v red_sys =
  rd_pc :: "nat \<Rightarrow> 'v red_pc"
  rd_slots :: "nat \<Rightarrow> 'v option"
  rd_result :: "'v option"
  rd_barrier :: barrier_sys
  rd_main :: main_pc

definition bar_call :: "nat \<Rightarrow> outcome \<Rightarrow> wait_heap \<Rightarrow> barrier \<Rightarrow> barrier_sys \<Rightarrow> barrier_sys" where
  "bar_call t out h b s = s\<lparr>bs_heap := h, bs_barrier := b,
     bs_arrived := (bs_arrived s)(t := bs_arrived s t + 1),
     bs_passed := (if out = Blocks then bs_passed s else (bs_passed s)(t := bs_passed s t + 1))\<rparr>"

inductive red_step ::
    "('v \<Rightarrow> 'v \<Rightarrow> 'v) \<Rightarrow> nat \<Rightarrow> 'v list \<Rightarrow> 'v \<Rightarrow> 'v red_sys \<Rightarrow> 'v red_sys \<Rightarrow> bool"
  for f :: "'v \<Rightarrow> 'v \<Rightarrow> 'v" and n :: nat and array :: "'v list" and d :: 'v where
  create: "red_step f n array d s (s\<lparr>rd_pc := (rd_pc s)(i := PLoop d 0), rd_main := MCreate (i + 1)\<rparr>)"
  if "rd_main s = MCreate i" "i < n"
| created: "red_step f n array d s (s\<lparr>rd_main := MJoin 0\<rparr>)"
  if "rd_main s = MCreate n"
| join: "red_step f n array d s (s\<lparr>rd_main := MJoin (i + 1)\<rparr>)"
  if "rd_main s = MJoin i" "i < n" "rd_pc s i = PDone"
| finish: "red_step f n array d s (s\<lparr>rd_main := MReturn\<rparr>)"
  if "rd_main s = MJoin n"
| run: "red_step f n array d s (s\<lparr>rd_pc := (rd_pc s)(i := pc'), rd_slots := slots', rd_result := res'\<rparr>)"
  if "i < n"
    "red_micro f (thread_args n array d i) (rd_pc s i) (rd_slots s) (rd_result s) = Moves (pc', slots', res')"
| call: "red_step f n array d s (s\<lparr>rd_barrier := bar_call i out h' b' (rd_barrier s),
      rd_pc := (rd_pc s)(i := if out = Blocks then PBlocked step else PTree step)\<rparr>)"
  if "i < n" "rd_pc s i = PBarrier step"
    "ABT_barrier_wait Yieldable i (Some (bs_barrier (rd_barrier s))) (bs_heap (rd_barrier s))
       = Some (out, woken, h', Some b')"
| resume: "red_step f n array d s (s\<lparr>rd_barrier := (rd_barrier s)\<lparr>bs_passed :=
      (bs_passed (rd_barrier s))(i := bs_passed (rd_barrier s) i + 1)\<rparr>,
      rd_pc := (rd_pc s)(i := PTree step)\<rparr>)"
  if "i < n" "rd_pc s i = PBlocked step" "wl_ready (bs_heap (rd_barrier s)) i"

inductive red_reachable :: "('v \<Rightarrow> 'v \<Rightarrow> 'v) \<Rightarrow> nat \<Rightarrow> 'v list \<Rightarrow> 'v \<Rightarrow> 'v red_sys \<Rightarrow> bool"
  for f :: "'v \<Rightarrow> 'v \<Rightarrow> 'v" and n :: nat and array :: "'v list" and d :: 'v where
  init: "red_reachable f n array d \<lparr>rd_pc = (\<lambda>_. PNew), rd_slots = (\<lambda>_. None), rd_result = r0,
      rd_barrier = \<lparr>bs_heap = h, bs_barrier = b, bs_arrived = (\<lambda>_. 0), bs_passed = (\<lambda>_. 0)\<rparr>,
      rd_main = MCreate 0\<rparr>"
  if "ABT_barrier_create True (of_nat n) = (ABT_SUCCESS, Some b)"
| step: "red_reachable f n array d s'" if "red_reachable f n array d s" "red_step f n array d s s'"

section \<open>The values on the tree\<close>

text \<open>What slot \<open>i\<close> holds after \<open>k\<close> levels, by the code's own recurrence.\<close>

fun level :: "('v \<Rightarrow> 'v \<Rightarrow> 'v) \<Rightarrow> nat \<Rightarrow> (nat \<Rightarrow> 'v) \<Rightarrow> nat \<Rightarrow> nat \<Rightarrow> 'v" where
  "level f n base 0 i = base i"
| "level f n base (Suc k) i =
     (if i mod 2 ^ Suc k = 0 \<and> i + 2 ^ k < n then f (level f n base k i) (level f n base k (i + 2 ^ k))
      else level f n base k i)"

definition base_value :: "('v \<Rightarrow> 'v \<Rightarrow> 'v) \<Rightarrow> nat \<Rightarrow> 'v list \<Rightarrow> 'v \<Rightarrow> nat \<Rightarrow> 'v" where
  "base_value f n array d i = foldl f d (chunk n array i)"

lemma partner_level:
  assumes "i mod 2 ^ Suc k = 0"
  shows "level f n base (Suc k) (i + 2 ^ k) = level f n base k (i + 2 ^ k)"
proof -
  obtain q where "i = 2 ^ Suc k * q"
    using assms by (metis dvdE mod_0_imp_dvd)
  then have "(i + 2 ^ k) mod 2 ^ Suc k = 2 ^ k"
    by simp
  then show ?thesis
    by simp
qed

definition block :: "nat \<Rightarrow> 'v list \<Rightarrow> nat \<Rightarrow> nat \<Rightarrow> 'v list" where
  "block n array i j = concat (map (chunk n array) [i..<min j n])"

lemma block_join:
  assumes "i \<le> j" "j \<le> k" "j \<le> n"
  shows "block n array i j @ block n array j k = block n array i k"
proof -
  have "[i..<min k n] = [i..<j] @ [j..<min k n]"
    using assms upt_add_eq_append [of i j "min k n - j"] by simp
  then show ?thesis
    using assms(3) by (simp add: block_def)
qed

context red_monoid
begin

lemma level_block:
  assumes "set array \<subseteq> V" "i < n" "i mod 2 ^ k = 0"
  shows "level f n (base_value f n array d) k i = foldl f d (block n array i (i + 2 ^ k))"
  using assms(2,3)
proof (induction k arbitrary: i)
  case 0
  then have "[i..<min (i + 1) n] = [i]"
    by (simp add: min_def)
  then show ?case
    by (simp add: block_def base_value_def)
next
  case (Suc k)
  have i: "i mod 2 ^ k = 0"
    using Suc.prems(2) by (metis mod_mod_trivial mod_mult_right_eq mod_0_imp_dvd dvd_mod_imp_dvd dvd_triv_right
        mod_eq_0_iff_dvd power_Suc)
  have V: "set (block n array a b) \<subseteq> V" for a b
  proof -
    have "set (chunk n array m) \<subseteq> set array" for m
      using set_take_subset set_drop_subset
      by (fastforce simp: chunk_def thread_args_def Let_def)
    then show ?thesis
      using assms(1) by (fastforce simp: block_def)
  qed
  show ?case
  proof (cases "i + 2 ^ k < n")
    case True
    have p: "(i + 2 ^ k) mod 2 ^ k = 0"
      using i by simp
    have "level f n (base_value f n array d) (Suc k) i
        = f (foldl f d (block n array i (i + 2 ^ k))) (foldl f d (block n array (i + 2 ^ k) (i + 2 ^ k + 2 ^ k)))"
      using Suc.IH [OF Suc.prems(1) i] Suc.IH [OF True p] True Suc.prems(2) by simp
    also have "\<dots> = foldl f d (block n array i (i + 2 ^ k) @ block n array (i + 2 ^ k) (i + 2 ^ k + 2 ^ k))"
      using fold_merge V by blast
    also have "\<dots> = foldl f d (block n array i (i + 2 ^ Suc k))"
      using True block_join [of i "i + 2 ^ k" "i + 2 ^ k + 2 ^ k" n array] by (simp add: add.assoc mult_2)
    finally show ?thesis .
  next
    case False
    then have "min (i + 2 ^ Suc k) n = min (i + 2 ^ k) n"
      by simp
    then have "block n array i (i + 2 ^ Suc k) = block n array i (i + 2 ^ k)"
      unfolding block_def by metis
    then show ?thesis
      using Suc.IH [OF Suc.prems(1) i] False by simp
  qed
qed

text \<open>At the root of the tree: the fold of the whole array.\<close>

lemma level_root:
  assumes "set array \<subseteq> V" "0 < n" "n \<le> 2 ^ k"
  shows "level f n (base_value f n array d) k 0 = foldl f d array"
  using level_block [OF assms(1,2), of k] assms(2,3) chunks_cover [OF assms(2), of array]
  by (simp add: block_def)

end

end
