(* ===== verification/ReductionTree.thy ===== *)
theory ReductionTree
  imports Reduction
begin

text \<open>
  Correctness of the tree reduction of theory Reduction: an invariant of all interleavings, no
  deadlock, a measure that every step decreases, and with them the result of every run.

  The bound \<open>n \<le> 2 ^ 30\<close> on the number of ULTs is what keeps \<^verbatim>\<open>step\<close> from overflowing an \<^verbatim>\<open>int\<close>.
\<close>

section \<open>Invariant\<close>

text \<open>Level \<open>k\<close> is reached only if the level before it was needed.\<close>

definition level_ok :: "nat \<Rightarrow> nat \<Rightarrow> bool" where
  "level_ok n k \<longleftrightarrow> k = 0 \<or> 2 ^ (k - 1) < n"

text \<open>\<open>L k\<close> is the value of the ULT's slot after \<open>k\<close> levels, \<open>a\<close> and \<open>p\<close> its calls of and returns from the barrier.\<close>

fun pc_inv ::
    "('v \<Rightarrow> 'v \<Rightarrow> 'v) \<Rightarrow> nat \<Rightarrow> (nat \<Rightarrow> 'v) \<Rightarrow> 'v reduction_args \<Rightarrow> nat \<Rightarrow> nat \<Rightarrow> 'v option \<Rightarrow> 'v option
     \<Rightarrow> 'v red_pc \<Rightarrow> bool" where
  "pc_inv f n L A a p slot res PNew \<longleftrightarrow> a = 0 \<and> p = 0"
| "pc_inv f n L A a p slot res (PLoop acc j) \<longleftrightarrow> a = 0 \<and> p = 0 \<and> j \<le> ra_num_elems A \<and>
     acc = foldl f (ra_default A) (take j (ra_array A))"
| "pc_inv f n L A a p slot res (PPublish acc) \<longleftrightarrow> a = 0 \<and> p = 0 \<and> acc = L 0"
| "pc_inv f n L A a p slot res (PBarrier st) \<longleftrightarrow> p = a \<and> st = 2 ^ a \<and> level_ok n a \<and> slot = Some (L a)"
| "pc_inv f n L A a p slot res (PBlocked st) \<longleftrightarrow>
     a = p + 1 \<and> st = 2 ^ p \<and> level_ok n p \<and> slot = Some (L p)"
| "pc_inv f n L A a p slot res (PTree st) \<longleftrightarrow>
     0 < p \<and> a = p \<and> st = 2 ^ (p - 1) \<and> level_ok n (p - 1) \<and> slot = Some (L (p - 1))"
| "pc_inv f n L A a p slot res (PRead st) \<longleftrightarrow>
     0 < p \<and> a = p \<and> st = 2 ^ (p - 1) \<and> st < n \<and> slot = Some (L (p - 1))"
| "pc_inv f n L A a p slot res (PWrite st v) \<longleftrightarrow>
     0 < p \<and> a = p \<and> st = 2 ^ (p - 1) \<and> st < n \<and> slot = Some (L (p - 1)) \<and> v = L p"
| "pc_inv f n L A a p slot res PFinal \<longleftrightarrow>
     0 < p \<and> a = p \<and> n \<le> 2 ^ (p - 1) \<and> level_ok n (p - 1) \<and> slot = Some (L (p - 1))"
| "pc_inv f n L A a p slot res PFree \<longleftrightarrow>
     0 < p \<and> a = p \<and> n \<le> 2 ^ (p - 1) \<and> level_ok n (p - 1) \<and> slot = Some (L (p - 1)) \<and>
     (ra_thread_id A = 0 \<longrightarrow> res = Some (L (p - 1)))"
| "pc_inv f n L A a p slot res PDone \<longleftrightarrow>
     0 < p \<and> a = p \<and> n \<le> 2 ^ (p - 1) \<and> level_ok n (p - 1) \<and>
     (ra_thread_id A = 0 \<longrightarrow> res = Some (L (p - 1)))"

definition ult_inv :: "('v \<Rightarrow> 'v \<Rightarrow> 'v) \<Rightarrow> nat \<Rightarrow> 'v list \<Rightarrow> 'v \<Rightarrow> 'v red_sys \<Rightarrow> nat \<Rightarrow> bool" where
  "ult_inv f n array d s i =
     pc_inv f n (\<lambda>k. level f n (base_value f n array d) k i) (thread_args n array d i)
       (bs_arrived (rd_barrier s) i) (bs_passed (rd_barrier s) i) (rd_slots s i) (rd_result s) (rd_pc s i)"

definition main_inv :: "nat \<Rightarrow> 'v red_sys \<Rightarrow> bool" where
  "main_inv n s = (case rd_main s of
      MCreate m \<Rightarrow> m \<le> n \<and> (\<forall>i < n. rd_pc s i = PNew \<longleftrightarrow> m \<le> i)
    | MJoin m \<Rightarrow> m \<le> n \<and> (\<forall>i < n. rd_pc s i \<noteq> PNew) \<and> (\<forall>i < m. rd_pc s i = PDone)
    | MReturn \<Rightarrow> (\<forall>i < n. rd_pc s i = PDone))"

definition red_inv :: "('v \<Rightarrow> 'v \<Rightarrow> 'v) \<Rightarrow> nat \<Rightarrow> 'v list \<Rightarrow> 'v \<Rightarrow> 'v red_sys \<Rightarrow> bool" where
  "red_inv f n array d s \<longleftrightarrow> barrier_reachable {..<n} (rd_barrier s) \<and>
     (\<forall>i < n. ult_inv f n array d s i) \<and> main_inv n s"

lemma args_simps [simp]:
  "ra_thread_id (thread_args n array d i) = i" "ra_num_threads (thread_args n array d i) = n"
  "ra_default (thread_args n array d i) = d"
  by (simp_all add: thread_args_def Let_def)

text \<open>What one action does to its own ULT, given the value of the partner's slot.\<close>

lemma micro_pc_inv:
  assumes inv: "pc_inv f n L (thread_args n array d i) a p (slots i) res pc"
    and L: "L = (\<lambda>k. level f n (base_value f n array d) k i)"
    and partner: "\<And>st. pc = PRead st \<Longrightarrow> i mod (2 * st) = 0 \<Longrightarrow> i + st < n
        \<Longrightarrow> slots (i + st) = Some (level f n (base_value f n array d) (p - 1) (i + st))"
    and m: "red_micro f (thread_args n array d i) pc slots res = Moves (pc', slots', res')"
    and i: "i < n"
  shows "pc_inv f n L (thread_args n array d i) a p (slots' i) res' pc'"
proof (cases pc)
  case (PLoop acc j)
  have L0: "L 0 = foldl f d (take (ra_num_elems (thread_args n array d i)) (ra_array (thread_args n array d i)))"
    by (simp add: L base_value_def chunk_eq [of n array i d])
  show ?thesis
    using inv m PLoop L0 by (auto simp: take_Suc_conv_app_nth split: if_splits)
next
  case (PRead st)
  then have p: "0 < p" "a = p" "st = 2 ^ (p - 1)" "st < n" "slots i = Some (L (p - 1))"
    using inv by simp_all
  have st: "2 * st = 2 ^ p"
    using p(1,3) by (cases p) simp_all
  have Lp: "L p = (if i mod (2 * st) = 0 \<and> i + st < n
      then f (L (p - 1)) (level f n (base_value f n array d) (p - 1) (i + st)) else L (p - 1))"
    using p(1,3) by (cases p) (simp_all add: L)
  show ?thesis
  proof (cases "i mod (2 * st) = 0 \<and> i + st < n")
    case True
    then show ?thesis
      using m PRead p partner [OF PRead] Lp by (auto split: if_splits)
  next
    case False
    then have "pc' = PBarrier (2 * st)" "slots' = slots"
      using m PRead by (auto split: if_splits)
    moreover have "L p = L (p - 1)"
      by (subst Lp) (rule if_not_P [OF False])
    ultimately show ?thesis
      using p st by (simp add: level_ok_def)
  qed
next
  case (PWrite st v)
  then have p: "0 < p" "a = p" "st = 2 ^ (p - 1)" "st < n" "v = L p"
    using inv by simp_all
  have "2 * st = 2 ^ p"
    using p(1,3) by (cases p) simp_all
  then show ?thesis
    using m PWrite p by (auto simp: level_ok_def)
next
  case (PPublish acc)
  then show ?thesis
    using inv m by (auto simp: level_ok_def)
qed (use inv m in \<open>auto simp: level_ok_def split: if_splits option.splits\<close>)

lemma micro_frame:
  assumes "red_micro f (thread_args n array d i) pc slots res = Moves (pc', slots', res')" "j \<noteq> i"
  shows "slots' j = slots j \<and> (i \<noteq> 0 \<longrightarrow> res' = res)"
  using assms by (cases pc) (auto split: if_splits option.splits)

lemma pc_inv_res:
  assumes "pc_inv f n L A a p slot res pc" "ra_thread_id A \<noteq> 0 \<or> res' = res"
  shows "pc_inv f n L A a p slot res' pc"
  using assms by (cases pc) auto

text \<open>
  While a ULT combines at level \<open>k\<close>, its partner's slot holds the partner's value of level \<open>k\<close>:
  the barrier keeps the partner in this level or waiting for the next.
\<close>

lemma partner_slot:
  assumes bar: "round_inv {..<n} (rd_barrier s) r xs"
    and i: "i < n" "ult_inv f n array d s i" "rd_pc s i = PRead st" "i mod (2 * st) = 0"
    and j: "i + st < n" "ult_inv f n array d s (i + st)"
  shows "rd_slots s (i + st)
    = Some (level f n (base_value f n array d) (bs_passed (rd_barrier s) i - 1) (i + st))"
proof -
  let ?b = "rd_barrier s" and ?j = "i + st"
  define k where "k = bs_passed ?b i - 1"
  have c: "bs_passed ?b i = Suc k" "bs_arrived ?b i = Suc k" "st = 2 ^ k" "st < n"
    using i(2,3) by (auto simp: ult_inv_def k_def)
  have a: "Suc k \<le> bs_arrived ?b ?j"
    using round_safety [OF bar, of i ?j k] i(1) j(1) c(1) by simp
  have p: "bs_passed ?b ?j \<le> Suc k"
    using round_safety [OF bar, of ?j i "Suc k"] i(1) j(1) c(2) by force
  have up: "level f n (base_value f n array d) (Suc k) ?j = level f n (base_value f n array d) k ?j"
    using partner_level [of i k f n] i(4) c(3) by simp
  have same: "q = k \<or> q = Suc k \<Longrightarrow> level f n (base_value f n array d) q ?j = level f n (base_value f n array d) k ?j" for q
    using up by auto
  have "rd_slots s ?j = Some (level f n (base_value f n array d) k ?j)"
  proof (cases "rd_pc s ?j")
    case (PBarrier st')
    then have "bs_passed ?b ?j = Suc k" "rd_slots s ?j = Some (level f n (base_value f n array d) (bs_passed ?b ?j) ?j)"
      using j(2) a p by (auto simp: ult_inv_def)
    then show ?thesis
      using up by simp
  next
    case (PBlocked st')
    then have "bs_passed ?b ?j = k \<or> bs_passed ?b ?j = Suc k"
      "rd_slots s ?j = Some (level f n (base_value f n array d) (bs_passed ?b ?j) ?j)"
      using j(2) a p by (auto simp: ult_inv_def)
    then show ?thesis
      using same by metis
  qed (use j(2) a p c in \<open>auto simp: ult_inv_def\<close>)
  then show ?thesis
    by (simp add: k_def)
qed

lemma barrier_inv:
  "red_inv f n array d s \<Longrightarrow> \<exists>r xs. round_inv {..<n} (rd_barrier s) r xs"
  using reachable_inv [of "{..<n}" "rd_barrier s"] by (simp add: red_inv_def)

lemma run_inv:
  assumes inv: "red_inv f n array d s" and i: "i < n"
    and m: "red_micro f (thread_args n array d i) (rd_pc s i) (rd_slots s) (rd_result s) = Moves (pc', slots', res')"
  shows "red_inv f n array d (s\<lparr>rd_pc := (rd_pc s)(i := pc'), rd_slots := slots', rd_result := res'\<rparr>)"
    (is "red_inv f n array d ?s")
proof -
  obtain r xs where bar: "round_inv {..<n} (rd_barrier s) r xs"
    using barrier_inv [OF inv] by blast
  have u: "ult_inv f n array d s j" if "j < n" for j
    using inv that by (simp add: red_inv_def)
  have "ult_inv f n array d ?s i"
    unfolding ult_inv_def
    using micro_pc_inv [OF u [OF i, unfolded ult_inv_def] refl _ m i] partner_slot [OF bar i u [OF i]] u
    by simp
  moreover have "ult_inv f n array d ?s j" if j: "j < n" "j \<noteq> i" for j
  proof -
    have "slots' j = rd_slots s j" "i \<noteq> 0 \<longrightarrow> res' = rd_result s"
      using micro_frame [OF m j(2)] by blast+
    then show ?thesis
      using u [OF j(1)] pc_inv_res [OF u [OF j(1), unfolded ult_inv_def], of res'] j by (auto simp: ult_inv_def)
  qed
  moreover have "pc' \<noteq> PNew" "rd_pc s i \<noteq> PNew" "rd_pc s i \<noteq> PDone"
    using m by (cases "rd_pc s i"; auto split: if_splits option.splits)+
  then have "main_inv n ?s"
    using inv i by (auto simp: red_inv_def main_inv_def split: main_pc.splits)
  ultimately show ?thesis
    using inv unfolding red_inv_def by (cases "i = i") auto
qed

text \<open>A call of the barrier and the return from it are steps of the barrier's own system.\<close>

lemma red_call_inv:
  assumes inv: "red_inv f n array d s" and i: "i < n" "rd_pc s i = PBarrier st"
    and c: "ABT_barrier_wait Yieldable i (Some (bs_barrier (rd_barrier s))) (bs_heap (rd_barrier s))
       = Some (out, woken, h', Some b')"
  shows "red_inv f n array d (s\<lparr>rd_barrier := bar_call i out h' b' (rd_barrier s),
      rd_pc := (rd_pc s)(i := if out = Blocks then PBlocked st else PTree st)\<rparr>)"
    (is "red_inv f n array d ?s")
proof -
  have u: "ult_inv f n array d s j" if "j < n" for j
    using inv that by (simp add: red_inv_def)
  have e: "bs_passed (rd_barrier s) i = bs_arrived (rd_barrier s) i"
    using u [OF i(1)] i(2) by (simp add: ult_inv_def)
  have "barrier_step {..<n} (rd_barrier s) (bar_call i out h' b' (rd_barrier s))"
    unfolding bar_call_def using barrier_step.call [of i "{..<n}", OF _ e c] i(1) by simp
  then have "barrier_reachable {..<n} (bar_call i out h' b' (rd_barrier s))"
    using inv barrier_reachable.step by (auto simp: red_inv_def)
  moreover have "ult_inv f n array d ?s j" if "j < n" for j
    using u [OF that] i(2) e by (auto simp: ult_inv_def bar_call_def)
  moreover have "main_inv n ?s"
    using inv i by (auto simp: red_inv_def main_inv_def split: main_pc.splits)
  ultimately show ?thesis
    by (simp add: red_inv_def)
qed

lemma red_resume_inv:
  assumes inv: "red_inv f n array d s" and i: "i < n" "rd_pc s i = PBlocked st"
    and r: "wl_ready (bs_heap (rd_barrier s)) i"
  shows "red_inv f n array d (s\<lparr>rd_barrier := (rd_barrier s)\<lparr>bs_passed :=
      (bs_passed (rd_barrier s))(i := bs_passed (rd_barrier s) i + 1)\<rparr>,
      rd_pc := (rd_pc s)(i := PTree st)\<rparr>)"
    (is "red_inv f n array d ?s")
proof -
  have u: "ult_inv f n array d s j" if "j < n" for j
    using inv that by (simp add: red_inv_def)
  have e: "bs_arrived (rd_barrier s) i = bs_passed (rd_barrier s) i + 1"
    using u [OF i(1)] i(2) by (simp add: ult_inv_def)
  have "barrier_step {..<n} (rd_barrier s) (rd_barrier ?s)"
    using barrier_step.resume [of i "{..<n}", OF _ e r] i(1) by simp
  then have "barrier_reachable {..<n} (rd_barrier ?s)"
    using inv barrier_reachable.step unfolding red_inv_def by blast
  moreover have "ult_inv f n array d ?s j" if "j < n" for j
    using u [OF that] i(2) e by (auto simp: ult_inv_def)
  moreover have "main_inv n ?s"
    using inv i by (auto simp: red_inv_def main_inv_def split: main_pc.splits)
  ultimately show ?thesis
    by (simp add: red_inv_def)
qed

lemma main_step_inv:
  assumes inv: "red_inv f n array d s"
  shows "rd_main s = MCreate i \<Longrightarrow> i < n
      \<Longrightarrow> red_inv f n array d (s\<lparr>rd_pc := (rd_pc s)(i := PLoop d 0), rd_main := MCreate (i + 1)\<rparr>)"
    and "rd_main s = MCreate n \<Longrightarrow> red_inv f n array d (s\<lparr>rd_main := MJoin 0\<rparr>)"
    and "rd_main s = MJoin i \<Longrightarrow> i < n \<Longrightarrow> rd_pc s i = PDone
      \<Longrightarrow> red_inv f n array d (s\<lparr>rd_main := MJoin (i + 1)\<rparr>)"
    and "rd_main s = MJoin n \<Longrightarrow> red_inv f n array d (s\<lparr>rd_main := MReturn\<rparr>)"
proof -
  assume c: "rd_main s = MCreate i" "i < n"
  then have "rd_pc s i = PNew"
    using inv by (auto simp: red_inv_def main_inv_def)
  moreover have "ult_inv f n array d s i"
    using inv c(2) by (simp add: red_inv_def)
  ultimately have "bs_arrived (rd_barrier s) i = 0" "bs_passed (rd_barrier s) i = 0"
    by (simp_all add: ult_inv_def)
  then show "red_inv f n array d (s\<lparr>rd_pc := (rd_pc s)(i := PLoop d 0), rd_main := MCreate (i + 1)\<rparr>)"
    using inv c by (auto simp: red_inv_def main_inv_def ult_inv_def)
qed (use inv in \<open>auto simp: red_inv_def main_inv_def ult_inv_def less_Suc_eq\<close>)

lemma red_step_inv:
  assumes "red_inv f n array d s" "red_step f n array d s s'"
  shows "red_inv f n array d s'"
  using assms(2)
proof cases
  case (run i pc' slots' res')
  show ?thesis
    unfolding run(1) by (rule run_inv [OF assms(1) run(2,3)])
next
  case (call i step out woken h' b')
  show ?thesis
    unfolding call(1) by (rule red_call_inv [OF assms(1) call(2-4)])
next
  case (resume i step)
  show ?thesis
    unfolding resume(1) by (rule red_resume_inv [OF assms(1) resume(2-4)])
qed (use main_step_inv [OF assms(1)] in auto)

definition few_threads :: "nat \<Rightarrow> bool" where
  "few_threads n \<longleftrightarrow> 0 < n \<and> n \<le> 2 ^ 30"

lemma red_reachable_inv:
  assumes "red_reachable f n array d s" "few_threads n"
  shows "red_inv f n array d s"
  using assms
proof (induction rule: red_reachable.induct)
  case (init b r0 h)
  have "unat (of_nat n :: 32 word) = n"
    using init(2) by (simp add: few_threads_def unat_of_nat take_bit_nat_eq_self)
  then have "barrier_reachable {..<n} \<lparr>bs_heap = h, bs_barrier = b, bs_arrived = (\<lambda>_. 0), bs_passed = (\<lambda>_. 0)\<rparr>"
    using barrier_reachable.init [OF init(1)] by simp
  then show ?case
    by (simp add: red_inv_def ult_inv_def main_inv_def)
qed (auto intro: red_step_inv)

section \<open>Progress\<close>

lemma small_step:
  assumes "few_threads n" "st = 2 ^ k" "st < n" "i < n"
  shows "2 * st \<le> C_INT_MAX" "i + st \<le> C_INT_MAX"
proof -
  have "(2::nat) ^ k < 2 ^ 30"
    using assms by (simp add: few_threads_def)
  then have "k < 30"
    by (rule power_less_imp_less_exp [rotated]) simp
  then have "(2::nat) ^ k \<le> 2 ^ 29"
    by (intro power_increasing) simp_all
  then show "2 * st \<le> C_INT_MAX" "i + st \<le> C_INT_MAX"
    using assms by (simp_all add: few_threads_def C_INT_MAX_def)
qed

text \<open>No failure: every access is to memory that is there, and nothing overflows.\<close>

lemma red_micro_never_fails:
  assumes inv: "red_inv f n array d s" and n: "few_threads n" and i: "i < n"
  shows "red_micro f (thread_args n array d i) (rd_pc s i) (rd_slots s) (rd_result s) \<noteq> Fails"
proof -
  have u: "ult_inv f n array d s j" if "j < n" for j
    using inv that by (simp add: red_inv_def)
  obtain r xs where bar: "round_inv {..<n} (rd_barrier s) r xs"
    using barrier_inv [OF inv] by blast
  show ?thesis
  proof (cases "rd_pc s i")
    case (PLoop acc j)
    then show ?thesis
      using thread_args_fits [OF i, of array d] by auto
  next
    case (PRead st)
    then have p: "st = 2 ^ (bs_passed (rd_barrier s) i - 1)" "st < n" "rd_slots s i \<noteq> None"
      using u [OF i] by (simp_all add: ult_inv_def)
    have o: "\<not> C_INT_MAX < 2 * st" "\<not> C_INT_MAX < i + st"
      using small_step [OF n p(1,2) i] by simp_all
    show ?thesis
    proof (cases "i mod (2 * st) = 0 \<and> i + st < n")
      case True
      then have "rd_slots s (i + st) \<noteq> None"
        using partner_slot [OF bar i u [OF i] PRead _ _ u] by simp
      then show ?thesis
        using PRead o p(3) by (auto split: option.split)
    next
      case False
      then show ?thesis
        using PRead o by auto
    qed
  qed (use u [OF i] in \<open>auto simp: ult_inv_def\<close>)
qed

lemma blocked_all_ready:
  assumes bar: "round_inv {..<n} (rd_barrier s) r xs" and u: "\<forall>i < n. ult_inv f n array d s i"
    and m: "m < n" "rd_pc s m = PBlocked st"
    and all: "\<forall>i < n. rd_pc s i = PDone \<or> (\<exists>st. rd_pc s i = PBlocked st)"
  shows "\<exists>i < n. \<exists>st. rd_pc s i = PBlocked st \<and> wl_ready (bs_heap (rd_barrier s)) i"
proof (rule ccontr)
  assume none: "\<not> ?thesis"
  let ?b = "rd_barrier s"
  have out: "bs_arrived ?b i = r \<and> (bs_passed ?b i = r \<or> bs_passed ?b i + 1 = r \<and> wl_ready (bs_heap ?b) i)"
    if "i < n" "i \<notin> set xs" for i
    using bar that by (simp add: round_inv_def)
  have blocked_in: "i \<in> set xs" if i: "i < n" "rd_pc s i = PBlocked st'" for i st'
  proof (rule ccontr)
    assume "i \<notin> set xs"
    then have "wl_ready (bs_heap ?b) i"
      using out [OF i(1)] u i by (auto simp: ult_inv_def)
    then show False
      using none i by blast
  qed
  have "barrier_rep (card {..<n}) (bs_heap ?b) (bs_barrier ?b) xs"
    using bar unfolding round_inv_def by blast
  then have "card (set xs) < n"
    using rep_distinct [of n "bs_heap ?b" "bs_barrier ?b" xs] by (simp add: barrier_rep_def distinct_card)
  then obtain v where v: "v < n" "v \<notin> set xs"
    using card_mono [OF finite_set, of "{..<n}" xs] by (metis card_lessThan lessThan_iff not_le subsetI)
  have pv: "rd_pc s v = PDone"
    using all blocked_in v by blast
  then have r: "0 < r" "n \<le> 2 ^ (r - 1)"
    using u v(1) out [OF v] by (auto simp: ult_inv_def)
  have "bs_passed ?b m = r"
    using bar blocked_in [OF m] by (simp add: round_inv_def)
  then have "level_ok n r"
    using u m by (auto simp: ult_inv_def)
  then show False
    using r by (simp add: level_ok_def)
qed

text \<open>A ULT that is neither created yet, done nor blocked can act.\<close>

lemma ult_acts:
  assumes inv: "red_inv f n array d s" and n: "few_threads n" and i: "i < n"
    and pc: "rd_pc s i \<noteq> PNew" "rd_pc s i \<noteq> PDone" "\<forall>st. rd_pc s i \<noteq> PBlocked st"
  shows "\<exists>s'. red_step f n array d s s'"
proof (cases "\<exists>st. rd_pc s i = PBarrier st")
  case True
  then obtain st where st: "rd_pc s i = PBarrier st" ..
  obtain r xs where bar: "round_inv {..<n} (rd_barrier s) r xs"
    using barrier_inv [OF inv] by blast
  have "bs_passed (rd_barrier s) i = bs_arrived (rd_barrier s) i"
  proof -
    have "ult_inv f n array d s i"
      using inv i by (simp add: red_inv_def)
    then show ?thesis
      using st by (simp add: ult_inv_def)
  qed
  moreover have "i \<in> set xs \<Longrightarrow> bs_arrived (rd_barrier s) i = bs_passed (rd_barrier s) i + 1"
    using bar unfolding round_inv_def by (metis)
  ultimately have "i \<notin> set xs"
    by auto
  moreover have "barrier_rep (card {..<n}) (bs_heap (rd_barrier s)) (bs_barrier (rd_barrier s)) xs"
    using bar unfolding round_inv_def by blast
  ultimately obtain out woken h' b' where "ABT_barrier_wait Yieldable i (Some (bs_barrier (rd_barrier s)))
      (bs_heap (rd_barrier s)) = Some (out, woken, h', Some b')"
    using barrier_wait_rep [of "card {..<n}" "bs_heap (rd_barrier s)" "bs_barrier (rd_barrier s)" xs i Yieldable]
    by (metis may_block_simps(2))
  from red_step.call [OF i st this, of f array d] show ?thesis
    by (rule exI)
next
  case False
  have "red_micro f (thread_args n array d i) (rd_pc s i) (rd_slots s) (rd_result s) \<noteq> Spins"
    using False pc by (cases "rd_pc s i") (auto split: option.splits)
  then obtain x where "red_micro f (thread_args n array d i) (rd_pc s i) (rd_slots s) (rd_result s) = Moves x"
    using red_micro_never_fails [OF inv n i] by (metis micro.exhaust)
  moreover obtain pc' sl re where "x = (pc', sl, re)"
    by (cases x)
  ultimately have "red_micro f (thread_args n array d i) (rd_pc s i) (rd_slots s) (rd_result s) = Moves (pc', sl, re)"
    by simp
  from red_step.run [OF i this] show ?thesis
    by (rule exI)
qed

lemma red_progress:
  assumes inv: "red_inv f n array d s" and n: "few_threads n" and nr: "rd_main s \<noteq> MReturn"
  shows "\<exists>s'. red_step f n array d s s'"
proof -
  have main: "main_inv n s" and u: "\<forall>i < n. ult_inv f n array d s i"
    using inv by (simp_all add: red_inv_def)
  obtain r xs where bar: "round_inv {..<n} (rd_barrier s) r xs"
    using barrier_inv [OF inv] by blast
  show ?thesis
  proof (cases "rd_main s")
    case (MCreate m)
    then have "m < n \<or> rd_main s = MCreate n"
      using main by (auto simp: main_inv_def)
    then show ?thesis
      using red_step.create [OF MCreate, of n f array d] red_step.created [of s n f array d] by blast
  next
    case (MJoin m)
    then have m: "m \<le> n" "\<forall>i < n. rd_pc s i \<noteq> PNew"
      using main by (simp_all add: main_inv_def)
    show ?thesis
    proof (cases "m = n")
      case True
      then show ?thesis
        using red_step.finish [of s n f array d] MJoin by blast
    next
      case False
      then have mn: "m < n"
        using m(1) by simp
      show ?thesis
      proof (cases "\<forall>i < n. rd_pc s i = PDone \<or> (\<exists>st. rd_pc s i = PBlocked st)")
        case False
        then show ?thesis
          using ult_acts [OF inv n] m(2) by blast
      next
        case all: True
        show ?thesis
        proof (cases "rd_pc s m = PDone")
          case True
          from red_step.join [OF MJoin mn True, of f array d] show ?thesis
            by (rule exI)
        next
          case False
          then obtain st where "rd_pc s m = PBlocked st"
            using all mn by blast
          then obtain i st' where i: "i < n" "rd_pc s i = PBlocked st'" "wl_ready (bs_heap (rd_barrier s)) i"
            using blocked_all_ready [OF bar u mn _ all] by blast
          from red_step.resume [OF i, of f array d] show ?thesis
            by (rule exI)
        qed
      qed
    qed
  qed (use nr in simp)
qed

section \<open>Termination\<close>

fun ult_rank :: "nat \<Rightarrow> nat \<Rightarrow> 'v red_pc \<Rightarrow> nat" where
  "ult_rank n m PNew = 10 * n + 10 + m"
| "ult_rank n m (PLoop acc j) = 10 * n + 9 + (m - j)"
| "ult_rank n m (PPublish acc) = 10 * n + 8"
| "ult_rank n m (PBarrier st) = 5 * (2 * n - st) + 7"
| "ult_rank n m (PBlocked st) = 5 * (2 * n - st) + 6"
| "ult_rank n m (PTree st) = 5 * (2 * n - st) + 5"
| "ult_rank n m (PRead st) = 5 * (2 * n - st) + 4"
| "ult_rank n m (PWrite st v) = 5 * (2 * n - st) + 3"
| "ult_rank n m PFinal = 2"
| "ult_rank n m PFree = 1"
| "ult_rank n m PDone = 0"

fun main_rank :: "nat \<Rightarrow> main_pc \<Rightarrow> nat" where
  "main_rank n (MCreate m) = (n - m) + n + 2"
| "main_rank n (MJoin m) = (n - m) + 1"
| "main_rank n MReturn = 0"

definition red_measure :: "nat \<Rightarrow> 'v list \<Rightarrow> 'v red_sys \<Rightarrow> nat" where
  "red_measure n array s =
     (\<Sum>i<n. ult_rank n (length array) (rd_pc s i)) + main_rank n (rd_main s)"

lemma sum_rank_less:
  assumes "i < n" "ult_rank n m pc' < ult_rank n m (pcs i)"
  shows "(\<Sum>j<n. ult_rank n m ((pcs(i := pc')) j)) < (\<Sum>j<n. ult_rank n m (pcs j))"
  by (rule sum_strict_mono_ex1) (use assms in auto)

lemma micro_rank:
  assumes inv: "ult_inv f n array d s i" and i: "i < n"
    and m: "red_micro f (thread_args n array d i) (rd_pc s i) (rd_slots s) (rd_result s) = Moves (pc', slots', res')"
  shows "ult_rank n (length array) pc' < ult_rank n (length array) (rd_pc s i)"
proof (cases "rd_pc s i")
  case (PLoop acc j)
  have "ra_num_elems (thread_args n array d i) \<le> length array"
    using thread_args_fits [OF i, of array d] by (auto simp: thread_args_def Let_def split: if_splits)
  then show ?thesis
    using m PLoop by (auto split: if_splits)
next
  case (PRead st)
  then have "0 < st" "st < n"
    using inv by (simp_all add: ult_inv_def)
  then show ?thesis
    using m PRead by (auto split: if_splits option.splits)
next
  case (PWrite st v)
  then have "0 < st" "st < n"
    using inv by (simp_all add: ult_inv_def)
  then show ?thesis
    using m PWrite by auto
qed (use m i in \<open>auto split: if_splits option.splits\<close>)

lemma red_step_decreases:
  assumes inv: "red_inv f n array d s" and st: "red_step f n array d s s'"
  shows "red_measure n array s' < red_measure n array s"
proof -
  have u: "ult_inv f n array d s j" if "j < n" for j
    using inv that by (simp add: red_inv_def)
  from st show ?thesis
  proof cases
    case (create i)
    then have "rd_pc s i = PNew"
      using inv by (auto simp: red_inv_def main_inv_def)
    then have "ult_rank n (length array) (PLoop d 0) < ult_rank n (length array) (rd_pc s i)"
      by simp
    then show ?thesis
      using sum_rank_less [OF create(3), of "length array" "PLoop d 0" "rd_pc s"] create
      by (simp add: red_measure_def)
  next
    case (run i pc' slots' res')
    then show ?thesis
      using sum_rank_less [of i n "length array" pc' "rd_pc s"] micro_rank [OF u [OF run(2)] run(2,3)]
      by (simp add: red_measure_def)
  next
    case (call i step out woken h' b')
    then show ?thesis
      using sum_rank_less [OF call(2), of "length array" "if out = Blocks then PBlocked step else PTree step" "rd_pc s"]
      by (simp add: red_measure_def)
  next
    case (resume i step)
    then show ?thesis
      using sum_rank_less [OF resume(2), of "length array" "PTree step" "rd_pc s"]
      by (simp add: red_measure_def)
  qed (auto simp: red_measure_def)
qed

section \<open>The result\<close>

lemma finished_level:
  assumes n: "few_threads n" and inv: "red_inv f n array d s" and fin: "rd_main s = MReturn"
  shows "\<exists>k. n \<le> 2 ^ k \<and> level_ok n k \<and> rd_result s = Some (level f n (base_value f n array d) k 0)"
proof -
  have n0: "0 < n"
    using n by (simp add: few_threads_def)
  then have "rd_pc s 0 = PDone" "ult_inv f n array d s 0"
    using inv fin by (simp_all add: red_inv_def main_inv_def)
  then show ?thesis
    by (auto simp: ult_inv_def)
qed

lemma finished_result:
  assumes mon: "red_monoid f d V W" and V: "set array \<subseteq> V" and n: "few_threads n"
    and inv: "red_inv f n array d s" and fin: "rd_main s = MReturn"
  shows "rd_result s = Some (foldl f d array)"
proof -
  have n0: "0 < n"
    using n by (simp add: few_threads_def)
  then show ?thesis
    using finished_level [OF n inv fin] red_monoid.level_root [OF mon V n0] by metis
qed

text \<open>With one or two ULTs, by any function: no combination, or one.\<close>

lemma sub_one_level:
  assumes "few_threads 1" "red_inv f 1 array d s" "rd_main s = MReturn"
  shows "rd_result s = Some (base_value f 1 array d 0)"
proof -
  obtain k where k: "level_ok 1 k" "rd_result s = Some (level f 1 (base_value f 1 array d) k 0)"
    using finished_level [OF assms] by blast
  then have "k = 0"
    by (simp add: level_ok_def)
  then show ?thesis
    using k(2) by simp
qed

lemma sub_two_levels:
  assumes "few_threads 2" "red_inv f 2 array d s" "rd_main s = MReturn"
  shows "rd_result s = Some (f (base_value f 2 array d 0) (base_value f 2 array d 1))"
proof -
  obtain k where k: "2 \<le> (2::nat) ^ k" "level_ok 2 k" "rd_result s = Some (level f 2 (base_value f 2 array d) k 0)"
    using finished_level [OF assms] by blast
  have "k \<noteq> 0"
    using k(1) by (cases k) auto
  moreover have "(2::nat) ^ (k - 1) < 2 ^ 1"
    using k(2) \<open>k \<noteq> 0\<close> by (simp add: level_ok_def)
  then have "k - 1 < 1"
    by (rule power_less_imp_less_exp [rotated]) simp
  ultimately have "k = Suc 0"
    by simp
  then show ?thesis
    using k(3) by simp
qed

text \<open>A run of \<open>k\<close> steps.\<close>

primrec red_steps :: "('v \<Rightarrow> 'v \<Rightarrow> 'v) \<Rightarrow> nat \<Rightarrow> 'v list \<Rightarrow> 'v \<Rightarrow> nat \<Rightarrow> 'v red_sys \<Rightarrow> 'v red_sys \<Rightarrow> bool" where
  "red_steps f n array d 0 s t = (s = t)"
| "red_steps f n array d (Suc k) s t = (\<exists>s'. red_step f n array d s s' \<and> red_steps f n array d k s' t)"

lemma red_steps_bound:
  "red_inv f n array d s \<Longrightarrow> red_steps f n array d k s t
    \<Longrightarrow> red_inv f n array d t \<and> k + red_measure n array t \<le> red_measure n array s"
proof (induction k arbitrary: s)
  case (Suc k)
  then obtain s' where s': "red_step f n array d s s'" "red_steps f n array d k s' t"
    by auto
  then show ?case
    using Suc.IH [OF red_step_inv [OF Suc.prems(1) s'(1)] s'(2)] red_step_decreases [OF Suc.prems(1) s'(1)]
    by simp
qed simp

lemma red_steps_reachable:
  "red_reachable f n array d s \<Longrightarrow> red_steps f n array d k s t \<Longrightarrow> red_reachable f n array d t"
  by (induction k arbitrary: s) (auto intro: red_reachable.step)

text \<open>From every state that is reached, some run ends, and it ends with the result.\<close>

lemma red_can_finish:
  assumes n: "few_threads n"
  shows "red_inv f n array d s \<Longrightarrow> \<exists>k t. red_steps f n array d k s t \<and> rd_main t = MReturn"
proof (induction "red_measure n array s" arbitrary: s rule: less_induct)
  case less
  show ?case
  proof (cases "rd_main s = MReturn")
    case True
    then show ?thesis
      by (intro exI [of _ 0] exI [of _ s]) simp
  next
    case False
    then obtain s' where s': "red_step f n array d s s'"
      using red_progress [OF less.prems n] by blast
    then obtain k t where "red_steps f n array d k s' t" "rd_main t = MReturn"
      using less.hyps [OF red_step_decreases [OF less.prems s'] red_step_inv [OF less.prems s']] by blast
    then show ?thesis
      using s' by (intro exI [of _ "Suc k"] exI [of _ t]) auto
  qed
qed

text \<open>There are runs, and all of them can be completed.\<close>

definition red_start :: "nat \<Rightarrow> 'v red_sys" where
  "red_start n = \<lparr>rd_pc = (\<lambda>_. PNew), rd_slots = (\<lambda>_. None), rd_result = None,
     rd_barrier = \<lparr>bs_heap = \<lparr>wl_next = (\<lambda>_. None), wl_prev = (\<lambda>_. None), wl_ready = (\<lambda>_. False),
                               wl_yieldable = (\<lambda>_. True)\<rparr>,
                   bs_barrier = the (snd (ABT_barrier_create True (of_nat n))),
                   bs_arrived = (\<lambda>_. 0), bs_passed = (\<lambda>_. 0)\<rparr>,
     rd_main = MCreate 0\<rparr>"

lemma red_start_reachable:
  assumes "few_threads n"
  shows "red_reachable f n array d (red_start n)"
proof -
  have "unat (of_nat n :: 32 word) = n"
    using assms by (simp add: few_threads_def unat_of_nat take_bit_nat_eq_self)
  then have "(of_nat n :: 32 word) \<noteq> 0"
    using assms by (auto simp: few_threads_def)
  then have "ABT_barrier_create True (of_nat n)
      = (ABT_SUCCESS, Some (the (snd (ABT_barrier_create True (of_nat n)))))"
    by (simp add: ABT_barrier_create_def)
  then show ?thesis
    unfolding red_start_def by (rule red_reachable.init)
qed

lemma red_end_reachable:
  assumes "few_threads n"
  obtains s where "red_reachable f n array d s" "rd_main s = MReturn"
proof -
  have r: "red_reachable f n array d (red_start n)"
    by (rule red_start_reachable [OF assms])
  obtain k t where "red_steps f n array d k (red_start n) t" "rd_main t = MReturn"
    using red_can_finish [OF assms red_reachable_inv [OF r assms]] by blast
  then show ?thesis
    using red_steps_reachable [OF r] that by blast
qed

text \<open>
  Three results that are not what their names say: the logical-and of long long values starts from
  0, the maximum of reals from the smallest positive number, and differences depend on the number
  of threads.
\<close>

lemma logical_and_long_long_zero:
  assumes "few_threads n" "set array \<subseteq> values_of TLongLong"
    and "red_reachable (int_body Rlogical_and TLongLong) n array (int_default Rlogical_and TLongLong) s"
    and "rd_main s = MReturn"
  shows "rd_result s = Some 0"
  using finished_result [OF red_monoid_int assms(2,1) red_reachable_inv [OF assms(3,1)] assms(4)]
    fold_land_long_long [of array] by simp

lemma real_max_ignores_negatives:
  assumes "few_threads n" "real_body Rmax = Some g" "\<forall>x \<in> set array. x \<le> real_default Rmax ty"
    and "red_reachable g n array (real_default Rmax ty) s" "rd_main s = MReturn"
  shows "rd_result s = Some (real_default Rmax ty)"
  using finished_result [OF red_monoid_real [OF _ assms(2)] subset_UNIV assms(1) red_reachable_inv [OF assms(4,1)] assms(5)]
    fold_max_real_low [OF assms(2,3)] by simp

lemma sub_depends_on_threads:
  "\<exists>s t. red_reachable (int_body Rsub TInt) 1 [1, 2] (int_default Rsub TInt) s \<and> rd_main s = MReturn \<and>
     red_reachable (int_body Rsub TInt) 2 [1, 2] (int_default Rsub TInt) t \<and> rd_main t = MReturn \<and>
     rd_result s = Some (-3) \<and> rd_result t = Some 1"
proof -
  have n: "few_threads 1" "few_threads 2"
    by (simp_all add: few_threads_def)
  obtain s where s: "red_reachable (int_body Rsub TInt) 1 [1, 2] (int_default Rsub TInt) s" "rd_main s = MReturn"
    by (rule red_end_reachable [OF n(1)])
  obtain t where t: "red_reachable (int_body Rsub TInt) 2 [1, 2] (int_default Rsub TInt) t" "rd_main t = MReturn"
    by (rule red_end_reachable [OF n(2)])
  have c: "chunk 1 [1, 2 :: int] 0 = [1, 2]" "chunk 2 [1, 2 :: int] 0 = [1]" "chunk 2 [1, 2 :: int] 1 = [2]"
    by (simp_all add: chunk_def thread_args_def Let_def)
  have "rd_result s = Some (-3)"
    using sub_one_level [OF n(1) red_reachable_inv [OF s(1) n(1)] s(2)] c
    by (simp add: base_value_def wrap_def signed_take_bit_int_eq_self)
  moreover have "rd_result t = Some 1"
    using sub_two_levels [OF n(2) red_reachable_inv [OF t(1) n(2)] t(2)] c
    by (simp add: base_value_def wrap_def signed_take_bit_int_eq_self)
  ultimately show ?thesis
    using s t by blast
qed

end
