(* ===== verification/Mutex.thy ===== *)
theory Mutex
  imports SyncBase
begin

text \<open>
  The mutex (\<^verbatim>\<open>argobots_framework/src/include/abti_mutex.h\<close>, \<^verbatim>\<open>mutex.c\<close>, \<^verbatim>\<open>mutex_attr.c\<close>),
  default build: a test-and-set lock, and a second spinlock that protects the list of
  waiters. Locking and unlocking are not atomic, so they are modelled one shared access at a
  time: \<open>mutex_micro\<close> is the next action of a thread inside \<^verbatim>\<open>ABTI_mutex_lock_no_recursion\<close>
  or \<^verbatim>\<open>ABTI_mutex_unlock_no_recursion\<close>, and \<open>mutex_step\<close> interleaves any set of threads.

  Thread ids are nonzero, as \<^verbatim>\<open>owner_id\<close> uses 0 for nobody. The nesting count is an \<^verbatim>\<open>int\<close>;
  incrementing it past its maximum is undefined and has no step.
\<close>

section \<open>Data\<close>

definition ABTI_MUTEX_ATTR_NONE :: "32 word" where "ABTI_MUTEX_ATTR_NONE = 0"

definition ABTI_MUTEX_ATTR_RECURSIVE :: "32 word" where "ABTI_MUTEX_ATTR_RECURSIVE = 1"

record mutex =
  m_attrs :: "32 word"
  m_lock :: bool
  m_nesting_cnt :: int
  m_owner_id :: nat
  m_waiter_lock :: bool
  m_waitlist :: waitlist

definition INT_MAX :: int where "INT_MAX = 2 ^ 31 - 1"

definition mutex_is_recursive :: "mutex \<Rightarrow> bool" where
  "mutex_is_recursive m = (and (m_attrs m) ABTI_MUTEX_ATTR_RECURSIVE \<noteq> 0)"

section \<open>Attributes\<close>

text \<open>A NULL attribute handle is \<open>None\<close>, an attribute object its bits.\<close>

definition ABT_mutex_attr_create :: "bool \<Rightarrow> abt_errno \<times> 32 word option" where
  "ABT_mutex_attr_create malloc_ok =
     (if malloc_ok then (ABT_SUCCESS, Some ABTI_MUTEX_ATTR_NONE) else (ABT_ERR_MEM, None))"

definition ABT_mutex_attr_free :: "32 word option \<Rightarrow> abt_errno \<times> 32 word option" where
  "ABT_mutex_attr_free attr =
     (case attr of None \<Rightarrow> (ABT_ERR_INV_MUTEX_ATTR, None) | Some a \<Rightarrow> (ABT_SUCCESS, None))"

definition ABT_mutex_attr_set_recursive ::
    "32 word option \<Rightarrow> bool \<Rightarrow> abt_errno \<times> 32 word option" where
  "ABT_mutex_attr_set_recursive attr recursive =
     (case attr of
        None \<Rightarrow> (ABT_ERR_INV_MUTEX_ATTR, None)
      | Some a \<Rightarrow> (ABT_SUCCESS,
          Some (if recursive then or a ABTI_MUTEX_ATTR_RECURSIVE
                else and a (not ABTI_MUTEX_ATTR_RECURSIVE))))"

definition ABT_mutex_attr_get_recursive :: "32 word option \<Rightarrow> abt_errno \<times> bool" where
  "ABT_mutex_attr_get_recursive attr =
     (case attr of
        None \<Rightarrow> (ABT_ERR_INV_MUTEX_ATTR, False)
      | Some a \<Rightarrow> (ABT_SUCCESS, and a ABTI_MUTEX_ATTR_RECURSIVE \<noteq> 0))"

section \<open>Creation\<close>

definition ABTI_mutex_init :: mutex where
  "ABTI_mutex_init = \<lparr>m_attrs = ABTI_MUTEX_ATTR_NONE, m_lock = False, m_nesting_cnt = 0,
     m_owner_id = 0, m_waiter_lock = False, m_waitlist = ABTI_waitlist_init\<rparr>"

definition ABT_mutex_create :: "bool \<Rightarrow> abt_errno \<times> mutex option" where
  "ABT_mutex_create malloc_ok =
     (if malloc_ok then (ABT_SUCCESS, Some ABTI_mutex_init) else (ABT_ERR_MEM, None))"

definition ABT_mutex_create_with_attr ::
    "bool \<Rightarrow> 32 word option \<Rightarrow> abt_errno \<times> mutex option" where
  "ABT_mutex_create_with_attr malloc_ok attr =
     (if \<not> malloc_ok then (ABT_ERR_MEM, None)
      else (ABT_SUCCESS, Some (case attr of
              None \<Rightarrow> ABTI_mutex_init | Some a \<Rightarrow> ABTI_mutex_init\<lparr>m_attrs := a\<rparr>)))"

definition ABT_mutex_get_attr :: "bool \<Rightarrow> mutex option \<Rightarrow> abt_errno \<times> 32 word option" where
  "ABT_mutex_get_attr malloc_ok mutex =
     (case mutex of
        None \<Rightarrow> (ABT_ERR_INV_MUTEX, None)
      | Some m \<Rightarrow> if malloc_ok then (ABT_SUCCESS, Some (m_attrs m)) else (ABT_ERR_MEM, None))"

definition ABTI_mutex_is_locked :: "mutex \<Rightarrow> bool" where
  "ABTI_mutex_is_locked m = m_lock m"

section \<open>Calls\<close>

datatype mutex_pc =
  Idle | Try | GetWaiterLock | Recheck | DropWaiterLock | Enqueue | Blocked | Took | Crit
| UnlockGetWaiterLock | UnlockRelease | UnlockBroadcast | UnlockDropWaiterLock

text \<open>Entering \<^verbatim>\<open>ABTI_mutex_lock\<close>: the owner of a recursive mutex only counts.\<close>

definition ABTI_mutex_lock :: "thread_ptr \<Rightarrow> mutex \<Rightarrow> (mutex_pc \<times> mutex) micro" where
  "ABTI_mutex_lock self m =
     (if mutex_is_recursive m \<and> self = m_owner_id m then
        (if m_nesting_cnt m = INT_MAX then Fails
         else Moves (Crit, m\<lparr>m_nesting_cnt := m_nesting_cnt m + 1\<rparr>))
      else Moves (Try, m))"

definition ABTI_mutex_trylock_no_recursion :: "mutex \<Rightarrow> abt_errno \<times> mutex" where
  "ABTI_mutex_trylock_no_recursion m =
     (if m_lock m then (ABT_ERR_MUTEX_LOCKED, m) else (ABT_SUCCESS, m\<lparr>m_lock := True\<rparr>))"

definition ABTI_mutex_trylock :: "thread_ptr \<Rightarrow> mutex \<Rightarrow> (abt_errno \<times> mutex) micro" where
  "ABTI_mutex_trylock self m =
     (if mutex_is_recursive m then
        if self \<noteq> m_owner_id m then
          (case ABTI_mutex_trylock_no_recursion m of
             (ABT_SUCCESS, m') \<Rightarrow>
               if m_nesting_cnt m' = 0 then Moves (ABT_SUCCESS, m'\<lparr>m_owner_id := self\<rparr>) else Fails
           | (rc, m') \<Rightarrow> Moves (rc, m'))
        else if m_nesting_cnt m = INT_MAX then Fails
        else Moves (ABT_SUCCESS, m\<lparr>m_nesting_cnt := m_nesting_cnt m + 1\<rparr>)
      else Moves (ABTI_mutex_trylock_no_recursion m))"

text \<open>One attempt of the spinning lock, which never uses the list of waiters.\<close>

definition ABTI_mutex_spinlock :: "thread_ptr \<Rightarrow> mutex \<Rightarrow> mutex micro" where
  "ABTI_mutex_spinlock self m =
     (if mutex_is_recursive m then
        if self \<noteq> m_owner_id m then
          if m_lock m then Spins
          else if m_nesting_cnt m = 0 then Moves (m\<lparr>m_lock := True, m_owner_id := self\<rparr>)
          else Fails
        else if m_nesting_cnt m = INT_MAX then Fails
        else Moves (m\<lparr>m_nesting_cnt := m_nesting_cnt m + 1\<rparr>)
      else if m_lock m then Spins
      else Moves (m\<lparr>m_lock := True\<rparr>))"

text \<open>Entering \<^verbatim>\<open>ABTI_mutex_unlock\<close>.\<close>

definition ABTI_mutex_unlock :: "mutex \<Rightarrow> mutex_pc \<times> mutex" where
  "ABTI_mutex_unlock m =
     (if mutex_is_recursive m then
        if m_nesting_cnt m = 0 then (UnlockGetWaiterLock, m\<lparr>m_owner_id := 0\<rparr>)
        else (Crit, m\<lparr>m_nesting_cnt := m_nesting_cnt m - 1\<rparr>)
      else (UnlockGetWaiterLock, m))"

text \<open>The actions inside a lock or unlock; \<open>Took\<close> is the code after the loop of the lock.\<close>

fun mutex_micro ::
    "thread_ptr \<Rightarrow> mutex_pc \<Rightarrow> wait_heap \<Rightarrow> mutex \<Rightarrow> (mutex_pc \<times> wait_heap \<times> mutex) micro" where
  "mutex_micro t Try h m =
     (if m_lock m then Moves (GetWaiterLock, h, m) else Moves (Took, h, m\<lparr>m_lock := True\<rparr>))"
| "mutex_micro t GetWaiterLock h m =
     (if m_waiter_lock m then Spins else Moves (Recheck, h, m\<lparr>m_waiter_lock := True\<rparr>))"
| "mutex_micro t Recheck h m =
     (if m_lock m then Moves (Enqueue, h, m) else Moves (DropWaiterLock, h, m\<lparr>m_lock := True\<rparr>))"
| "mutex_micro t DropWaiterLock h m = Moves (Took, h, m\<lparr>m_waiter_lock := False\<rparr>)"
| "mutex_micro t Enqueue h m =
     (case ABTI_waitlist_wait t (m_waitlist m) h of
        None \<Rightarrow> Fails
      | Some (h', w') \<Rightarrow> Moves (Blocked, h', m\<lparr>m_waitlist := w', m_waiter_lock := False\<rparr>))"
| "mutex_micro t Blocked h m = (if wl_ready h t then Moves (Try, h, m) else Spins)"
| "mutex_micro t Took h m =
     (if mutex_is_recursive m then
        if m_nesting_cnt m = 0 then Moves (Crit, h, m\<lparr>m_owner_id := t\<rparr>) else Fails
      else Moves (Crit, h, m))"
| "mutex_micro t UnlockGetWaiterLock h m =
     (if m_waiter_lock m then Spins else Moves (UnlockRelease, h, m\<lparr>m_waiter_lock := True\<rparr>))"
| "mutex_micro t UnlockRelease h m = Moves (UnlockBroadcast, h, m\<lparr>m_lock := False\<rparr>)"
| "mutex_micro t UnlockBroadcast h m =
     (case ABTI_waitlist_broadcast (m_waitlist m) h of
        None \<Rightarrow> Fails
      | Some (_, _, h', w') \<Rightarrow> Moves (UnlockDropWaiterLock, h', m\<lparr>m_waitlist := w'\<rparr>))"
| "mutex_micro t UnlockDropWaiterLock h m = Moves (Idle, h, m\<lparr>m_waiter_lock := False\<rparr>)"
| "mutex_micro t Idle h m = Spins"
| "mutex_micro t Crit h m = Spins"

section \<open>The functions of the interface\<close>

text \<open>Each checks its handle first; a NULL handle is \<open>None\<close> and gives the error of the left summand.\<close>

definition ABT_mutex_free :: "mutex option \<Rightarrow> abt_errno \<times> mutex option" where
  "ABT_mutex_free mutex =
     (case mutex of None \<Rightarrow> (ABT_ERR_INV_MUTEX, None) | Some _ \<Rightarrow> (ABT_SUCCESS, None))"

definition ABT_mutex_lock ::
    "thread_ptr \<Rightarrow> mutex option \<Rightarrow> abt_errno + (mutex_pc \<times> mutex) micro" where
  "ABT_mutex_lock self mutex =
     (case mutex of None \<Rightarrow> Inl ABT_ERR_INV_MUTEX | Some m \<Rightarrow> Inr (ABTI_mutex_lock self m))"

definition ABT_mutex_lock_low ::
    "thread_ptr \<Rightarrow> mutex option \<Rightarrow> abt_errno + (mutex_pc \<times> mutex) micro" where
  "ABT_mutex_lock_low self mutex =
     (case mutex of None \<Rightarrow> Inl ABT_ERR_INV_MUTEX | Some m \<Rightarrow> Inr (ABTI_mutex_lock self m))"

definition ABT_mutex_lock_high ::
    "thread_ptr \<Rightarrow> mutex option \<Rightarrow> abt_errno + (mutex_pc \<times> mutex) micro" where
  "ABT_mutex_lock_high self mutex =
     (case mutex of None \<Rightarrow> Inl ABT_ERR_INV_MUTEX | Some m \<Rightarrow> Inr (ABTI_mutex_lock self m))"

definition ABT_mutex_trylock :: "thread_ptr \<Rightarrow> mutex option \<Rightarrow> (abt_errno \<times> mutex option) micro" where
  "ABT_mutex_trylock self mutex =
     (case mutex of
        None \<Rightarrow> Moves (ABT_ERR_INV_MUTEX, None)
      | Some m \<Rightarrow> (case ABTI_mutex_trylock self m of
            Moves (rc, m') \<Rightarrow> Moves (rc, Some m') | Spins \<Rightarrow> Spins | Fails \<Rightarrow> Fails))"

definition ABT_mutex_spinlock :: "thread_ptr \<Rightarrow> mutex option \<Rightarrow> (abt_errno \<times> mutex option) micro" where
  "ABT_mutex_spinlock self mutex =
     (case mutex of
        None \<Rightarrow> Moves (ABT_ERR_INV_MUTEX, None)
      | Some m \<Rightarrow> (case ABTI_mutex_spinlock self m of
            Moves m' \<Rightarrow> Moves (ABT_SUCCESS, Some m') | Spins \<Rightarrow> Spins | Fails \<Rightarrow> Fails))"

definition ABT_mutex_unlock :: "mutex option \<Rightarrow> abt_errno + (mutex_pc \<times> mutex)" where
  "ABT_mutex_unlock mutex =
     (case mutex of None \<Rightarrow> Inl ABT_ERR_INV_MUTEX | Some m \<Rightarrow> Inr (ABTI_mutex_unlock m))"

definition ABT_mutex_unlock_se :: "mutex option \<Rightarrow> abt_errno + (mutex_pc \<times> mutex)" where
  "ABT_mutex_unlock_se mutex =
     (case mutex of None \<Rightarrow> Inl ABT_ERR_INV_MUTEX | Some m \<Rightarrow> Inr (ABTI_mutex_unlock m))"

definition ABT_mutex_unlock_de :: "mutex option \<Rightarrow> abt_errno + (mutex_pc \<times> mutex)" where
  "ABT_mutex_unlock_de mutex =
     (case mutex of None \<Rightarrow> Inl ABT_ERR_INV_MUTEX | Some m \<Rightarrow> Inr (ABTI_mutex_unlock m))"

text \<open>Handles are compared as pointers; NULL is 0.\<close>

definition ABT_mutex_equal :: "nat \<Rightarrow> nat \<Rightarrow> abt_errno \<times> bool" where
  "ABT_mutex_equal mutex1 mutex2 = (ABT_SUCCESS, mutex1 = mutex2)"

section \<open>Any number of threads\<close>

record mutex_sys =
  ms_heap :: wait_heap
  ms_mutex :: mutex
  ms_pc :: "thread_ptr \<Rightarrow> mutex_pc"

inductive mutex_step :: "thread_ptr set \<Rightarrow> mutex_sys \<Rightarrow> mutex_sys \<Rightarrow> bool"
  for P :: "thread_ptr set" where
  lock: "mutex_step P s (s\<lparr>ms_mutex := m', ms_pc := (ms_pc s)(t := pc')\<rparr>)"
  if "t \<in> P" "ms_pc s t = Idle \<or> ms_pc s t = Crit \<and> mutex_is_recursive (ms_mutex s)"
    "ABTI_mutex_lock t (ms_mutex s) = Moves (pc', m')"
| trylock: "mutex_step P s (s\<lparr>ms_mutex := m',
      ms_pc := (ms_pc s)(t := if rc = ABT_SUCCESS then Crit else ms_pc s t)\<rparr>)"
  if "t \<in> P" "ms_pc s t = Idle \<or> ms_pc s t = Crit"
    "ABTI_mutex_trylock t (ms_mutex s) = Moves (rc, m')"
| spinlock: "mutex_step P s (s\<lparr>ms_mutex := m', ms_pc := (ms_pc s)(t := Crit)\<rparr>)"
  if "t \<in> P" "ms_pc s t = Idle \<or> ms_pc s t = Crit"
    "ABTI_mutex_spinlock t (ms_mutex s) = Moves m'"
| unlock: "mutex_step P s (s\<lparr>ms_mutex := m', ms_pc := (ms_pc s)(t := pc')\<rparr>)"
  if "t \<in> P" "ms_pc s t = Crit" "ABTI_mutex_unlock (ms_mutex s) = (pc', m')"
| run: "mutex_step P s (s\<lparr>ms_heap := h', ms_mutex := m', ms_pc := (ms_pc s)(t := pc')\<rparr>)"
  if "t \<in> P" "mutex_micro t (ms_pc s t) (ms_heap s) (ms_mutex s) = Moves (pc', h', m')"

inductive mutex_reachable :: "thread_ptr set \<Rightarrow> mutex_sys \<Rightarrow> bool"
  for P :: "thread_ptr set" where
  init: "mutex_reachable P \<lparr>ms_heap = h, ms_mutex = m, ms_pc = (\<lambda>_. Idle)\<rparr>"
  if "ABT_mutex_create_with_attr True attr = (ABT_SUCCESS, Some m)"
| step: "mutex_reachable P s'" if "mutex_reachable P s" "mutex_step P s s'"

section \<open>Invariant\<close>

fun holds_lock :: "mutex_pc \<Rightarrow> bool" where
  "holds_lock pc = (pc \<in> {DropWaiterLock, Took, Crit, UnlockGetWaiterLock, UnlockRelease})"

fun holds_waiter_lock :: "mutex_pc \<Rightarrow> bool" where
  "holds_waiter_lock pc =
     (pc \<in> {Recheck, DropWaiterLock, Enqueue, UnlockRelease, UnlockBroadcast, UnlockDropWaiterLock})"

definition lock_inv :: "thread_ptr set \<Rightarrow> mutex_sys \<Rightarrow> bool" where
  "lock_inv P s \<longleftrightarrow>
     excl (m_lock (ms_mutex s)) (holders P holds_lock (ms_pc s)) \<and>
     excl (m_waiter_lock (ms_mutex s)) (holders P holds_waiter_lock (ms_pc s)) \<and>
     (\<forall>t \<in> P. ms_pc s t = Enqueue \<longrightarrow> m_lock (ms_mutex s))"

text \<open>No lost wake-up: while anybody is on the list, the lock is held or a broadcast is due.\<close>

definition wait_inv :: "thread_ptr set \<Rightarrow> mutex_sys \<Rightarrow> thread_ptr list \<Rightarrow> bool" where
  "wait_inv P s xs \<longleftrightarrow>
     wl_rep {} (ms_heap s) (m_waitlist (ms_mutex s)) xs \<and>
     (\<forall>t \<in> set xs. t \<in> P \<and> ms_pc s t = Blocked) \<and>
     (\<forall>t \<in> P. ms_pc s t = Blocked \<longrightarrow> t \<in> set xs \<or> wl_ready (ms_heap s) t) \<and>
     (xs \<noteq> [] \<longrightarrow> m_lock (ms_mutex s) \<or> (\<exists>t \<in> P. ms_pc s t = UnlockBroadcast))"

definition owner_set :: "mutex \<Rightarrow> thread_ptr set" where
  "owner_set m = (if m_owner_id m = 0 then {} else {m_owner_id m})"

definition owner_inv :: "thread_ptr set \<Rightarrow> mutex_sys \<Rightarrow> bool" where
  "owner_inv P s \<longleftrightarrow>
     (if mutex_is_recursive (ms_mutex s)
      then holders P (\<lambda>pc. pc = Crit) (ms_pc s) = owner_set (ms_mutex s)
      else m_owner_id (ms_mutex s) = 0) \<and>
     0 \<le> m_nesting_cnt (ms_mutex s) \<and>
     (m_nesting_cnt (ms_mutex s) \<noteq> 0 \<longrightarrow> m_owner_id (ms_mutex s) \<noteq> 0)"

definition mutex_inv :: "thread_ptr set \<Rightarrow> mutex_sys \<Rightarrow> bool" where
  "mutex_inv P s \<longleftrightarrow> lock_inv P s \<and> (\<exists>xs. wait_inv P s xs) \<and> owner_inv P s"

lemma micro_lock_inv:
  assumes inv: "lock_inv P s" and t: "t \<in> P"
    and m: "mutex_micro t (ms_pc s t) (ms_heap s) (ms_mutex s) = Moves (pc', h', m')"
  shows "lock_inv P (s\<lparr>ms_heap := h', ms_mutex := m', ms_pc := (ms_pc s)(t := pc')\<rparr>)"
proof -
  let ?H = "holders P holds_lock (ms_pc s)" and ?W = "holders P holds_waiter_lock (ms_pc s)"
  have e: "excl (m_lock (ms_mutex s)) ?H" "excl (m_waiter_lock (ms_mutex s)) ?W"
    using inv by (simp_all add: lock_inv_def)
  have H: "t \<in> ?H \<longleftrightarrow> holds_lock (ms_pc s t)" and W: "t \<in> ?W \<longleftrightarrow> holds_waiter_lock (ms_pc s t)"
    using t by (simp_all add: in_holders)
  have "excl (m_lock m') (holders P holds_lock ((ms_pc s)(t := pc')))"
    using m e(1) H
    by (cases "ms_pc s t") (auto simp: holders_upd [OF t] insert_absorb excl_take
        intro: excl_drop split: if_splits option.splits)
  moreover have "excl (m_waiter_lock m') (holders P holds_waiter_lock ((ms_pc s)(t := pc')))"
    using m e(2) W
    by (cases "ms_pc s t") (auto simp: holders_upd [OF t] insert_absorb excl_take
        intro: excl_drop split: if_splits option.splits)
  moreover have "m_lock m'" if u: "u \<in> P" "((ms_pc s)(t := pc')) u = Enqueue" for u
  proof (cases "u = t")
    case True
    then show ?thesis
      using m u(2) by (cases "ms_pc s t") (auto split: if_splits option.splits)
  next
    case False
    then have "ms_pc s u = Enqueue" "m_lock (ms_mutex s)"
      using u inv by (auto simp: lock_inv_def)
    moreover have "ms_pc s t \<noteq> UnlockRelease"
    proof
      assume "ms_pc s t = UnlockRelease"
      then have "t \<in> ?W" "u \<in> ?W"
        using W u(1) \<open>ms_pc s u = Enqueue\<close> by (auto simp: in_holders)
      then show False
        using excl_held [OF e(2)] False by blast
    qed
    ultimately show ?thesis
      using m by (cases "ms_pc s t") (auto split: if_splits option.splits)
  qed
  ultimately show ?thesis
    by (simp add: lock_inv_def)
qed

lemma wait_inv_frame:
  assumes "wait_inv P s xs" "t \<in> P" "m_waitlist m' = m_waitlist (ms_mutex s)"
    and "ms_pc s t \<noteq> UnlockBroadcast" "pc' \<noteq> Blocked" "t \<notin> set xs"
    and "m_lock (ms_mutex s) \<Longrightarrow> m_lock m' \<or> pc' = UnlockBroadcast"
  shows "wait_inv P (s\<lparr>ms_mutex := m', ms_pc := (ms_pc s)(t := pc')\<rparr>) xs"
  using assms by (auto simp: wait_inv_def)

lemma wait_inv_enqueue:
  assumes "wait_inv P s xs" "t \<in> P" "ms_pc s t = Enqueue" "m_lock (ms_mutex s)"
    "ABTI_waitlist_wait t (m_waitlist (ms_mutex s)) (ms_heap s) = Some (h', w')"
  shows "wait_inv P (s\<lparr>ms_heap := h', ms_mutex := (ms_mutex s)\<lparr>m_waitlist := w', m_waiter_lock := False\<rparr>,
            ms_pc := (ms_pc s)(t := Blocked)\<rparr>) (xs @ [t])"
proof -
  have "wl_rep {} (ms_heap s) (m_waitlist (ms_mutex s)) xs" "t \<notin> set xs"
    using assms(1,3) by (auto simp: wait_inv_def)
  then have "wl_rep {} h' w' (xs @ [t])"
    using wait_rep [of "{}"] assms(5) by fastforce
  then show ?thesis
    using assms wait_ready [OF assms(5)] by (auto simp: wait_inv_def)
qed

lemma wait_inv_broadcast:
  assumes "wait_inv P s xs" "t \<in> P" "ms_pc s t = UnlockBroadcast"
    "ABTI_waitlist_broadcast (m_waitlist (ms_mutex s)) (ms_heap s) = Some (ts, b, h', w')"
  shows "wait_inv P (s\<lparr>ms_heap := h', ms_mutex := (ms_mutex s)\<lparr>m_waitlist := w'\<rparr>,
            ms_pc := (ms_pc s)(t := UnlockDropWaiterLock)\<rparr>) []"
proof -
  have "wl_rep {} (ms_heap s) (m_waitlist (ms_mutex s)) xs"
    using assms(1) by (simp add: wait_inv_def)
  from broadcast_rep [OF this] show ?thesis
    using assms by (auto simp: wait_inv_def)
qed

lemma micro_wait_inv:
  assumes inv: "wait_inv P s xs" and lock: "lock_inv P s" and t: "t \<in> P"
    and m: "mutex_micro t (ms_pc s t) (ms_heap s) (ms_mutex s) = Moves (pc', h', m')"
  shows "\<exists>xs. wait_inv P (s\<lparr>ms_heap := h', ms_mutex := m', ms_pc := (ms_pc s)(t := pc')\<rparr>) xs"
proof (cases "ms_pc s t \<in> {Enqueue, UnlockBroadcast}")
  case True
  then show ?thesis
    using m lock t wait_inv_enqueue [OF inv t] wait_inv_broadcast [OF inv t]
    by (auto simp: lock_inv_def split: option.splits) blast+
next
  case False
  have "t \<notin> set xs"
    using inv m by (auto simp: wait_inv_def wl_rep_def split: if_splits)
  moreover have "h' = ms_heap s" "m_waitlist m' = m_waitlist (ms_mutex s)" "pc' \<noteq> Blocked"
    "m_lock (ms_mutex s) \<Longrightarrow> m_lock m' \<or> pc' = UnlockBroadcast"
    using m False by (cases "ms_pc s t"; auto split: if_splits)+
  ultimately have "wait_inv P (s\<lparr>ms_heap := h', ms_mutex := m', ms_pc := (ms_pc s)(t := pc')\<rparr>) xs"
    using wait_inv_frame [OF inv t] False by auto
  then show ?thesis by blast
qed

lemma crit_holder:
  assumes "lock_inv P s" "t \<in> P" "u \<in> P" "holds_lock (ms_pc s t)" "holds_lock (ms_pc s u)"
  shows "t = u"
proof -
  have "t \<in> holders P holds_lock (ms_pc s)" "u \<in> holders P holds_lock (ms_pc s)"
    using assms by (simp_all add: in_holders)
  then show ?thesis
    using assms(1) excl_held by (fastforce simp: lock_inv_def)
qed

lemma micro_rec: "mutex_micro t pc h m = Moves (pc', h', m') \<Longrightarrow> m_attrs m' = m_attrs m"
  by (cases pc) (auto split: if_splits option.splits)

lemma no_crit_when_free:
  assumes "lock_inv P s" "\<not> m_lock (ms_mutex s)" "u \<in> P"
  shows "\<not> holds_lock (ms_pc s u)"
proof -
  have "holders P holds_lock (ms_pc s) = {}"
    using assms(1,2) by (simp add: lock_inv_def excl_def)
  then show ?thesis
    using assms(3) by (auto simp: holders_def)
qed

lemma crit_locked:
  assumes "lock_inv P s" "u \<in> P" "holds_lock (ms_pc s u)"
  shows "m_lock (ms_mutex s)"
  using no_crit_when_free [OF assms(1)] assms(2,3) by blast

lemma others_crit:
  assumes "lock_inv P s" "t \<in> P" "holds_lock (ms_pc s t) \<or> \<not> m_lock (ms_mutex s)"
  shows "holders P (\<lambda>pc. pc = Crit) (ms_pc s) - {t} = {}"
proof -
  have "u = t" if u: "u \<in> P" "ms_pc s u = Crit" for u
  proof -
    have c: "holds_lock (ms_pc s u)"
      using u(2) by simp
    then show ?thesis
      using crit_holder [OF assms(1) u(1) assms(2) c] no_crit_when_free [OF assms(1) _ u(1)] assms(3)
      by blast
  qed
  then show ?thesis
    by (auto simp: holders_def)
qed

lemma pos_in: "t \<in> P \<Longrightarrow> 0 \<notin> P \<Longrightarrow> 0 < (t::nat)"
  by (cases "t = 0") auto

lemma crit_owner:
  assumes "owner_inv P s" "mutex_is_recursive (ms_mutex s)" "t \<in> P" "0 \<notin> P"
  shows "ms_pc s t = Crit \<longleftrightarrow> t = m_owner_id (ms_mutex s)"
proof -
  have "holders P (\<lambda>pc. pc = Crit) (ms_pc s) = owner_set (ms_mutex s)"
    using assms(1,2) by (simp add: owner_inv_def)
  then have "ms_pc s t = Crit \<longleftrightarrow> t \<in> owner_set (ms_mutex s)"
    using in_holders [OF assms(3), of "\<lambda>pc. pc = Crit" "ms_pc s"] by simp
  also have "\<dots> \<longleftrightarrow> t = m_owner_id (ms_mutex s)"
    using pos_in [OF assms(3,4)] by (cases "m_owner_id (ms_mutex s) = 0") (simp_all add: owner_set_def)
  finally show ?thesis .
qed

text \<open>What a change of \<open>t\<close> has to do to the owner fields.\<close>

lemma owner_invI:
  assumes inv: "owner_inv P s" and t: "t \<in> P" "0 \<notin> P" and a: "m_attrs m' = m_attrs (ms_mutex s)"
    and r: "mutex_is_recursive (ms_mutex s) \<Longrightarrow>
      (if pc' = Crit then m_owner_id m' = t \<and> holders P (\<lambda>pc. pc = Crit) (ms_pc s) - {t} = {}
       else owner_set m' = owner_set (ms_mutex s) - {t})"
    and n: "\<not> mutex_is_recursive (ms_mutex s) \<Longrightarrow> m_owner_id m' = 0"
    and c: "0 \<le> m_nesting_cnt m'" "m_nesting_cnt m' \<noteq> 0 \<Longrightarrow> m_owner_id m' \<noteq> 0"
  shows "owner_inv P (s\<lparr>ms_heap := h', ms_mutex := m', ms_pc := (ms_pc s)(t := pc')\<rparr>)"
proof -
  have "mutex_is_recursive m' = mutex_is_recursive (ms_mutex s)"
    using a by (simp add: mutex_is_recursive_def)
  moreover have "holders P (\<lambda>pc. pc = Crit) ((ms_pc s)(t := pc')) = owner_set m'"
    if rec: "mutex_is_recursive (ms_mutex s)"
  proof (cases "pc' = Crit")
    case True
    then show ?thesis
      using r [OF rec] pos_in [OF t] by (auto simp: holders_upd [OF t(1)] owner_set_def split: if_splits)
  next
    case False
    then show ?thesis
      using r [OF rec] inv rec by (simp add: holders_upd [OF t(1)] owner_inv_def)
  qed
  ultimately show ?thesis
    using n c by (simp add: owner_inv_def)
qed

lemma not_owner:
  assumes "owner_inv P s" "mutex_is_recursive (ms_mutex s)" "t \<in> P" "0 \<notin> P" "ms_pc s t \<noteq> Crit"
  shows "owner_set (ms_mutex s) - {t} = owner_set (ms_mutex s)"
  using crit_owner [OF assms(1-4)] assms(5) by (auto simp: owner_set_def)

lemma owner_inv_cnt:
  assumes "owner_inv P s"
  shows "0 \<le> m_nesting_cnt (ms_mutex s)" "m_nesting_cnt (ms_mutex s) \<noteq> 0 \<Longrightarrow> m_owner_id (ms_mutex s) \<noteq> 0"
    "\<not> mutex_is_recursive (ms_mutex s) \<Longrightarrow> m_owner_id (ms_mutex s) = 0"
  using assms by (auto simp: owner_inv_def)

lemma micro_owner_inv:
  assumes inv: "owner_inv P s" and lock: "lock_inv P s" and t: "t \<in> P" "0 \<notin> P"
    and m: "mutex_micro t (ms_pc s t) (ms_heap s) (ms_mutex s) = Moves (pc', h', m')"
  shows "owner_inv P (s\<lparr>ms_heap := h', ms_mutex := m', ms_pc := (ms_pc s)(t := pc')\<rparr>)"
proof (cases "ms_pc s t = Took")
  case True
  show ?thesis
    by (rule owner_invI [OF inv t micro_rec [OF m]])
       (use m True others_crit [OF lock t(1)] owner_inv_cnt [OF inv] t in \<open>auto split: if_splits\<close>)
next
  case False
  have pc: "ms_pc s t \<noteq> Crit" "pc' \<noteq> Crit"
    using m False by (cases "ms_pc s t"; auto split: if_splits option.splits)+
  have same: "m_owner_id m' = m_owner_id (ms_mutex s)" "m_nesting_cnt m' = m_nesting_cnt (ms_mutex s)"
    using m False by (cases "ms_pc s t"; auto split: if_splits option.splits)+
  show ?thesis
    by (rule owner_invI [OF inv t micro_rec [OF m]])
       (use pc same not_owner [OF inv _ t] owner_inv_cnt [OF inv] in \<open>auto simp: owner_set_def\<close>)
qed

text \<open>A call moves its thread between \<open>Idle\<close>, \<open>Crit\<close>, \<open>Try\<close> and \<open>UnlockGetWaiterLock\<close>.\<close>

lemma call_lock_inv:
  assumes inv: "lock_inv P s" and t: "t \<in> P" and pc: "ms_pc s t \<in> {Idle, Crit}"
    "pc' \<in> {Idle, Crit, Try, UnlockGetWaiterLock}"
    and w: "m_waiter_lock m' = m_waiter_lock (ms_mutex s)"
    and l: "m_lock m' = (m_lock (ms_mutex s) \<or> holds_lock pc')"
    and keep: "holds_lock (ms_pc s t) \<Longrightarrow> holds_lock pc'"
    and free: "holds_lock pc' \<Longrightarrow> \<not> holds_lock (ms_pc s t) \<Longrightarrow> \<not> m_lock (ms_mutex s)"
  shows "lock_inv P (s\<lparr>ms_mutex := m', ms_pc := (ms_pc s)(t := pc')\<rparr>)"
proof -
  let ?H = "holders P holds_lock (ms_pc s)" and ?W = "holders P holds_waiter_lock (ms_pc s)"
  have e: "excl (m_lock (ms_mutex s)) ?H" "excl (m_waiter_lock (ms_mutex s)) ?W"
    using inv by (simp_all add: lock_inv_def)
  have H: "t \<in> ?H \<longleftrightarrow> holds_lock (ms_pc s t)" and W: "t \<notin> ?W"
    using t pc by (auto simp: in_holders)
  have "excl (m_lock m') (holders P holds_lock ((ms_pc s)(t := pc')))"
  proof (cases "holds_lock (ms_pc s t)")
    case True
    then show ?thesis
      using e(1) H keep l excl_held [OF e(1)] by (auto simp: holders_upd [OF t] insert_absorb)
  next
    case False
    then show ?thesis
      using e(1) H l free by (auto simp: holders_upd [OF t] excl_take simp del: holds_lock.simps)
  qed
  moreover have "excl (m_waiter_lock m') (holders P holds_waiter_lock ((ms_pc s)(t := pc')))"
    using e(2) w W pc by (auto simp: holders_upd [OF t])
  ultimately show ?thesis
    using inv l pc by (auto simp: lock_inv_def)
qed

lemma call_wait_inv:
  assumes "wait_inv P s xs" "t \<in> P" "ms_pc s t \<in> {Idle, Crit}"
    "pc' \<in> {Idle, Crit, Try, UnlockGetWaiterLock}"
    and "m_waitlist m' = m_waitlist (ms_mutex s)" "m_lock (ms_mutex s) \<Longrightarrow> m_lock m'"
  shows "wait_inv P (s\<lparr>ms_mutex := m', ms_pc := (ms_pc s)(t := pc')\<rparr>) xs"
  by (rule wait_inv_frame [OF assms(1,2,5)]) (use assms in \<open>auto simp: wait_inv_def\<close>)

text \<open>What the calls do, seen from outside: \<open>call_ok\<close> collects what the invariants need.\<close>

definition call_ok :: "thread_ptr set \<Rightarrow> mutex_sys \<Rightarrow> thread_ptr \<Rightarrow> mutex_pc \<Rightarrow> mutex \<Rightarrow> bool" where
  "call_ok P s t pc' m' \<longleftrightarrow>
     pc' \<in> {Idle, Crit, Try, UnlockGetWaiterLock} \<and>
     m_attrs m' = m_attrs (ms_mutex s) \<and> m_waitlist m' = m_waitlist (ms_mutex s) \<and>
     m_waiter_lock m' = m_waiter_lock (ms_mutex s) \<and>
     m_lock m' = (m_lock (ms_mutex s) \<or> holds_lock pc') \<and>
     (holds_lock (ms_pc s t) \<longrightarrow> holds_lock pc') \<and>
     (holds_lock pc' \<and> \<not> holds_lock (ms_pc s t) \<longrightarrow> \<not> m_lock (ms_mutex s)) \<and>
     owner_inv P (s\<lparr>ms_mutex := m', ms_pc := (ms_pc s)(t := pc')\<rparr>)"

lemma mutex_call_inv:
  assumes "mutex_inv P s" "t \<in> P" "ms_pc s t \<in> {Idle, Crit}" "call_ok P s t pc' m'"
  shows "mutex_inv P (s\<lparr>ms_mutex := m', ms_pc := (ms_pc s)(t := pc')\<rparr>)"
proof -
  obtain xs where w: "wait_inv P s xs" and l: "lock_inv P s"
    using assms(1) by (auto simp: mutex_inv_def)
  have "lock_inv P (s\<lparr>ms_mutex := m', ms_pc := (ms_pc s)(t := pc')\<rparr>)"
    by (rule call_lock_inv [OF l assms(2,3)]) (use assms(4) in \<open>auto simp: call_ok_def\<close>)
  moreover have "wait_inv P (s\<lparr>ms_mutex := m', ms_pc := (ms_pc s)(t := pc')\<rparr>) xs"
    by (rule call_wait_inv [OF w assms(2,3)]) (use assms(4) in \<open>auto simp: call_ok_def\<close>)
  ultimately show ?thesis
    using assms(4) unfolding mutex_inv_def call_ok_def by blast
qed

lemma call_okI:
  assumes inv: "lock_inv P s" "owner_inv P s" and t: "t \<in> P" "0 \<notin> P"
    and a: "pc' \<in> {Idle, Crit, Try, UnlockGetWaiterLock}"
      "m_attrs m' = m_attrs (ms_mutex s)" "m_waitlist m' = m_waitlist (ms_mutex s)"
      "m_waiter_lock m' = m_waiter_lock (ms_mutex s)"
      "m_lock m' = (m_lock (ms_mutex s) \<or> holds_lock pc')"
      "holds_lock (ms_pc s t) \<Longrightarrow> holds_lock pc'"
      "holds_lock pc' \<Longrightarrow> \<not> holds_lock (ms_pc s t) \<Longrightarrow> \<not> m_lock (ms_mutex s)"
    and o: "mutex_is_recursive (ms_mutex s) \<Longrightarrow>
        (if pc' = Crit then m_owner_id m' = t else owner_set m' = owner_set (ms_mutex s) - {t})"
      "\<not> mutex_is_recursive (ms_mutex s) \<Longrightarrow> m_owner_id m' = 0"
      "0 \<le> m_nesting_cnt m'" "m_nesting_cnt m' \<noteq> 0 \<Longrightarrow> m_owner_id m' \<noteq> 0"
  shows "call_ok P s t pc' m'"
proof -
  have "holders P (\<lambda>pc. pc = Crit) (ms_pc s) - {t} = {}" if "pc' = Crit"
    using others_crit [OF inv(1) t(1)] a(7) that by auto
  then have "owner_inv P (s\<lparr>ms_heap := ms_heap s, ms_mutex := m', ms_pc := (ms_pc s)(t := pc')\<rparr>)"
    by (intro owner_invI [OF inv(2) t a(2)]) (use o in auto)
  then show ?thesis
    using a by (simp add: call_ok_def)
qed

lemma lock_call_ok:
  assumes inv: "lock_inv P s" "owner_inv P s" and t: "t \<in> P" "0 \<notin> P"
    "ms_pc s t = Idle \<or> ms_pc s t = Crit \<and> mutex_is_recursive (ms_mutex s)"
    and c: "ABTI_mutex_lock t (ms_mutex s) = Moves (pc', m')"
  shows "call_ok P s t pc' m'"
proof (cases "ms_pc s t = Crit")
  case True
  then have o: "mutex_is_recursive (ms_mutex s)" "m_owner_id (ms_mutex s) = t" "m_lock (ms_mutex s)"
    using True t(3) crit_owner [OF inv(2) _ t(1,2)] crit_locked [OF inv(1) t(1)] by auto
  show ?thesis
    by (rule call_okI [OF inv t(1,2)])
       (use c o True t pos_in [OF t(1,2)] owner_inv_cnt [OF inv(2)] in \<open>auto simp: ABTI_mutex_lock_def split: if_splits\<close>)
next
  case False
  then have "\<not> (mutex_is_recursive (ms_mutex s) \<and> t = m_owner_id (ms_mutex s))"
    using crit_owner [OF inv(2) _ t(1,2)] by simp
  then have "pc' = Try" "m' = ms_mutex s"
    using c by (auto simp: ABTI_mutex_lock_def)
  then show ?thesis
    by (intro call_okI [OF inv t(1,2)])
       (use False t not_owner [OF inv(2) _ t(1,2)] owner_inv_cnt [OF inv(2)] in auto)
qed

lemma unlock_call_ok:
  assumes inv: "lock_inv P s" "owner_inv P s" and t: "t \<in> P" "0 \<notin> P" "ms_pc s t = Crit"
    and c: "ABTI_mutex_unlock (ms_mutex s) = (pc', m')"
  shows "call_ok P s t pc' m'"
proof -
  have l: "m_lock (ms_mutex s)" "mutex_is_recursive (ms_mutex s) \<Longrightarrow> m_owner_id (ms_mutex s) = t"
    using crit_locked [OF inv(1) t(1)] crit_owner [OF inv(2) _ t(1,2)] t(3) by auto
  show ?thesis
    by (rule call_okI [OF inv t(1,2)])
       (use c l t owner_inv_cnt [OF inv(2)]
        in \<open>auto simp: ABTI_mutex_unlock_def owner_set_def split: if_splits\<close>)
qed

text \<open>The two ways to succeed: taking the free lock, and counting by the owner.\<close>

definition fresh_acquire :: "thread_ptr \<Rightarrow> mutex \<Rightarrow> mutex \<Rightarrow> bool" where
  "fresh_acquire t m m' \<longleftrightarrow> \<not> m_lock m \<and> (mutex_is_recursive m \<longrightarrow> t \<noteq> m_owner_id m \<and> m_nesting_cnt m = 0)
     \<and> m' = m\<lparr>m_lock := True, m_owner_id := (if mutex_is_recursive m then t else m_owner_id m)\<rparr>"

definition nested_acquire :: "thread_ptr \<Rightarrow> mutex \<Rightarrow> mutex \<Rightarrow> bool" where
  "nested_acquire t m m' \<longleftrightarrow> mutex_is_recursive m \<and> t = m_owner_id m
     \<and> m' = m\<lparr>m_nesting_cnt := m_nesting_cnt m + 1\<rparr>"

lemma trylock_cases:
  assumes "ABTI_mutex_trylock t m = Moves (rc, m')"
  obtains "rc = ABT_ERR_MUTEX_LOCKED" "m' = m"
  | "rc = ABT_SUCCESS" "fresh_acquire t m m'"
  | "rc = ABT_SUCCESS" "nested_acquire t m m'"
proof (cases "mutex_is_recursive m \<and> t = m_owner_id m")
  case True
  then show ?thesis
    using assms that(3) by (simp add: ABTI_mutex_trylock_def nested_acquire_def split: if_splits)
next
  case False
  show ?thesis
  proof (cases "m_lock m")
    case True
    then show ?thesis
      using assms False that(1)
      by (simp add: ABTI_mutex_trylock_def ABTI_mutex_trylock_no_recursion_def split: if_splits)
  next
    case free: False
    then show ?thesis
      using assms False that(2)
      by (simp add: ABTI_mutex_trylock_def ABTI_mutex_trylock_no_recursion_def fresh_acquire_def
          split: if_splits)
  qed
qed

lemma spinlock_cases:
  assumes "ABTI_mutex_spinlock t m = Moves m'"
  obtains "fresh_acquire t m m'" | "nested_acquire t m m'"
proof (cases "mutex_is_recursive m \<and> t = m_owner_id m")
  case True
  then show ?thesis
    using assms that(2) by (simp add: ABTI_mutex_spinlock_def nested_acquire_def split: if_splits)
next
  case False
  then show ?thesis
    using assms that(1) by (simp add: ABTI_mutex_spinlock_def fresh_acquire_def split: if_splits)
qed

lemma fresh_call_ok:
  assumes inv: "lock_inv P s" "owner_inv P s" and t: "t \<in> P" "0 \<notin> P"
    and f: "fresh_acquire t (ms_mutex s) m'"
  shows "call_ok P s t Crit m'"
proof -
  have free: "\<not> m_lock (ms_mutex s)"
    using f by (simp add: fresh_acquire_def)
  have m': "m' = (ms_mutex s)\<lparr>m_lock := True,
      m_owner_id := (if mutex_is_recursive (ms_mutex s) then t else m_owner_id (ms_mutex s))\<rparr>"
    "mutex_is_recursive (ms_mutex s) \<Longrightarrow> m_nesting_cnt (ms_mutex s) = 0"
    using f by (simp_all add: fresh_acquire_def)
  show ?thesis
    by (rule call_okI [OF inv t])
       (use free m' owner_inv_cnt [OF inv(2)] in \<open>auto simp del: split_paired_All\<close>)
qed

lemma nested_call_ok:
  assumes inv: "lock_inv P s" "owner_inv P s" and t: "t \<in> P" "0 \<notin> P"
    and f: "nested_acquire t (ms_mutex s) m'"
  shows "call_ok P s t Crit m'"
proof -
  have r: "mutex_is_recursive (ms_mutex s)" "t = m_owner_id (ms_mutex s)"
    and m': "m' = (ms_mutex s)\<lparr>m_nesting_cnt := m_nesting_cnt (ms_mutex s) + 1\<rparr>"
    using f by (auto simp: nested_acquire_def)
  have c: "ms_pc s t = Crit" "m_lock (ms_mutex s)" "0 < t"
    using r crit_owner [OF inv(2) _ t] crit_locked [OF inv(1) t(1)] pos_in [OF t] by auto
  show ?thesis
    by (rule call_okI [OF inv t])
       (use r m' c owner_inv_cnt(1) [OF inv(2)] in simp_all)
qed

lemma failed_call_ok:
  assumes "lock_inv P s" "owner_inv P s" "t \<in> P" "ms_pc s t \<in> {Idle, Crit}"
  shows "call_ok P s t (ms_pc s t) (ms_mutex s)"
proof -
  have "(ms_pc s)(t := ms_pc s t) = ms_pc s" by simp
  moreover have "holds_lock (ms_pc s t) \<Longrightarrow> m_lock (ms_mutex s)"
    using crit_locked [OF assms(1,3)] .
  ultimately show ?thesis
    using assms(2,4) by (auto simp: call_ok_def)
qed

lemma step_inv:
  assumes inv: "mutex_inv P s" and P: "0 \<notin> P" and st: "mutex_step P s s'"
  shows "mutex_inv P s'"
proof -
  obtain xs where l: "lock_inv P s" and w: "wait_inv P s xs" and o: "owner_inv P s"
    using inv by (auto simp: mutex_inv_def)
  from st show ?thesis
  proof cases
    case (lock t pc' m')
    then have "ms_pc s t \<in> {Idle, Crit}" by auto
    then show ?thesis
      using mutex_call_inv [OF inv lock(2)] lock_call_ok [OF l o lock(2) P lock(3,4)] lock(1) by simp
  next
    case (trylock t rc m')
    then have pc: "ms_pc s t \<in> {Idle, Crit}" by auto
    from trylock(4) have "call_ok P s t (if rc = ABT_SUCCESS then Crit else ms_pc s t) m'"
      by (cases rule: trylock_cases)
         (use failed_call_ok [OF l o trylock(2) pc] fresh_call_ok [OF l o trylock(2) P]
            nested_call_ok [OF l o trylock(2) P] in simp_all)
    then show ?thesis
      using mutex_call_inv [OF inv trylock(2) pc] trylock(1) by simp
  next
    case (spinlock t m')
    then have pc: "ms_pc s t \<in> {Idle, Crit}" by auto
    from spinlock(4) have "call_ok P s t Crit m'"
      by (cases rule: spinlock_cases)
         (use fresh_call_ok [OF l o spinlock(2) P] nested_call_ok [OF l o spinlock(2) P] in simp_all)
    then show ?thesis
      using mutex_call_inv [OF inv spinlock(2) pc] spinlock(1) by simp
  next
    case (unlock t pc' m')
    then have "ms_pc s t \<in> {Idle, Crit}" by simp
    then show ?thesis
      using mutex_call_inv [OF inv unlock(2)] unlock_call_ok [OF l o unlock(2) P unlock(3,4)] unlock(1) by simp
  next
    case (run t pc' h' m')
    then show ?thesis
      using micro_lock_inv [OF l run(2,3)] micro_wait_inv [OF w l run(2,3)]
        micro_owner_inv [OF o l run(2) P run(3)] by (auto simp: mutex_inv_def)
  qed
qed

lemma init_inv:
  assumes "ABT_mutex_create_with_attr True attr = (ABT_SUCCESS, Some m)"
  shows "mutex_inv P \<lparr>ms_heap = h, ms_mutex = m, ms_pc = (\<lambda>_. Idle)\<rparr>"
proof -
  have m: "m_waitlist m = ABTI_waitlist_init" "\<not> m_lock m" "\<not> m_waiter_lock m"
    "m_owner_id m = 0" "m_nesting_cnt m = 0"
    using assms by (auto simp: ABT_mutex_create_with_attr_def ABTI_mutex_init_def split: option.splits)
  have "wait_inv P \<lparr>ms_heap = h, ms_mutex = m, ms_pc = (\<lambda>_. Idle)\<rparr> []"
    using m by (simp add: wait_inv_def)
  then show ?thesis
    using m by (auto simp: mutex_inv_def lock_inv_def owner_inv_def holders_def excl_def owner_set_def)
qed

lemma reachable_mutex_inv:
  "mutex_reachable P s \<Longrightarrow> 0 \<notin> P \<Longrightarrow> mutex_inv P s"
  by (induction rule: mutex_reachable.induct) (auto intro: init_inv step_inv)

section \<open>Consequences\<close>

text \<open>No assertion of the code fails and no list operation is stuck.\<close>

lemma nobody_counts:
  assumes "lock_inv P s" "owner_inv P s" "t \<in> P" "0 \<notin> P" "ms_pc s t = Took"
    "mutex_is_recursive (ms_mutex s)"
  shows "m_nesting_cnt (ms_mutex s) = 0"
proof (rule ccontr)
  assume "m_nesting_cnt (ms_mutex s) \<noteq> 0"
  then have o: "m_owner_id (ms_mutex s) \<noteq> 0"
    using owner_inv_cnt(2) [OF assms(2)] by simp
  then have "m_owner_id (ms_mutex s) \<in> holders P (\<lambda>pc. pc = Crit) (ms_pc s)"
    using assms(2,6) by (simp add: owner_inv_def owner_set_def)
  then have u: "m_owner_id (ms_mutex s) \<in> P" "ms_pc s (m_owner_id (ms_mutex s)) = Crit"
    by (simp_all add: holders_def)
  then have "t = m_owner_id (ms_mutex s)"
    using crit_holder [OF assms(1,3) u(1)] assms(5) by simp
  then show False
    using u(2) assms(5) by simp
qed

lemma mutex_micro_never_fails:
  assumes inv: "mutex_inv P s" and t: "t \<in> P" "0 \<notin> P"
  shows "mutex_micro t (ms_pc s t) (ms_heap s) (ms_mutex s) \<noteq> Fails"
proof -
  obtain xs where l: "lock_inv P s" and w: "wait_inv P s xs" and o: "owner_inv P s"
    using inv by (auto simp: mutex_inv_def)
  have rep: "wl_rep {} (ms_heap s) (m_waitlist (ms_mutex s)) xs"
    and out: "ms_pc s t = Enqueue \<Longrightarrow> t \<notin> set xs"
    using w by (auto simp: wait_inv_def)
  show ?thesis
    using wait_rep [OF rep, of t] broadcast_rep [OF rep] out nobody_counts [OF l o t]
    by (cases "ms_pc s t") (auto split: if_splits)
qed

text \<open>
  Unless some thread is in its critical section or all are idle, some thread inside a lock or
  unlock can act: the two locks and the wait list never deadlock.
\<close>

lemma free_waiter_lock:
  assumes "lock_inv P s" "\<not> m_waiter_lock (ms_mutex s)" "u \<in> P"
  shows "\<not> holds_waiter_lock (ms_pc s u)"
proof -
  have "holders P holds_waiter_lock (ms_pc s) = {}"
    using assms(1,2) by (simp add: lock_inv_def excl_def)
  then show ?thesis
    using assms(3) by (auto simp: holders_def)
qed

definition can_run :: "mutex_sys \<Rightarrow> thread_ptr \<Rightarrow> bool" where
  "can_run s t = (case mutex_micro t (ms_pc s t) (ms_heap s) (ms_mutex s) of Moves _ \<Rightarrow> True | _ \<Rightarrow> False)"

lemma can_runI:
  assumes "mutex_inv P s" "t \<in> P" "0 \<notin> P"
    "mutex_micro t (ms_pc s t) (ms_heap s) (ms_mutex s) \<noteq> Spins"
  shows "can_run s t"
  using mutex_micro_never_fails [OF assms(1-3)] assms(4) by (auto simp: can_run_def split: micro.splits)

lemma inv_run:
  assumes inv: "mutex_inv P s" and P: "0 \<notin> P" and nc: "\<forall>t \<in> P. ms_pc s t \<noteq> Crit"
    and ni: "t0 \<in> P" "ms_pc s t0 \<noteq> Idle"
  shows "\<exists>t \<in> P. can_run s t"
proof -
  obtain xs where l: "lock_inv P s" and w: "wait_inv P s xs"
    using inv by (auto simp: mutex_inv_def)
  show ?thesis
  proof (cases "m_waiter_lock (ms_mutex s)")
    case True
    then obtain t where t: "t \<in> P" "holds_waiter_lock (ms_pc s t)"
      using l held_by [of P holds_waiter_lock] by (auto simp: lock_inv_def)
    have "mutex_micro t (ms_pc s t) (ms_heap s) (ms_mutex s) \<noteq> Spins"
      using t(2) by (cases "ms_pc s t") (auto split: option.splits)
    then show ?thesis
      using can_runI [OF inv t(1) P] t(1) by blast
  next
    case False
    note nw = free_waiter_lock [OF l False]
    have runs: "can_run s u" if "u \<in> P" "ms_pc s u \<notin> {Idle, Crit, Blocked}" for u
      by (rule can_runI [OF inv that(1) P]) (use that False nw in \<open>cases "ms_pc s u"; auto\<close>)
    show ?thesis
    proof (cases "ms_pc s t0 = Blocked")
      case False
      then show ?thesis
        using runs ni nc by blast
    next
      case blocked: True
      show ?thesis
      proof (cases "wl_ready (ms_heap s) t0")
        case True
        then show ?thesis
          using blocked ni(1) can_runI [OF inv ni(1) P] by force
      next
        case not_ready: False
        then have "xs \<noteq> []"
          using w blocked ni(1) by (auto simp: wait_inv_def)
        then have "m_lock (ms_mutex s) \<or> (\<exists>t \<in> P. ms_pc s t = UnlockBroadcast)"
          using w by (simp add: wait_inv_def)
        then have "m_lock (ms_mutex s)"
          using nw by auto
        then obtain t where t: "t \<in> P" "holds_lock (ms_pc s t)"
          using l held_by [of P holds_lock] by (auto simp: lock_inv_def)
        then show ?thesis
          using runs [OF t(1)] nc by auto
      qed
    qed
  qed
qed

text \<open>A recursive mutex: the owner comes back to the same state by as many unlocks as locks.\<close>

lemma nested_lock_unlock:
  assumes "ABTI_mutex_lock t m = Moves (Crit, m')" "0 \<le> m_nesting_cnt m"
  shows "ABTI_mutex_unlock m' = (Crit, m)"
  using assms by (auto simp: ABTI_mutex_lock_def ABTI_mutex_unlock_def mutex_is_recursive_def split: if_splits)

end
