(* ===== verification/Cond.thy ===== *)
theory Cond
  imports SyncBase Complex_Main
begin

text \<open>
  The condition variable (\<^verbatim>\<open>argobots_framework/src/cond.c\<close>, \<^verbatim>\<open>include/abti_cond.h\<close>). Each
  handler runs under the condition's lock up to the point where its caller is suspended; the
  mutex is given by its address. A result \<open>Blocks\<close> means that the mutex was unlocked and the
  caller enqueued, an error that the mutex is still locked. Whoever blocked locks the mutex again
  when it is woken or timed out, which is the mutex's business.

  \<open>cond_sim\<close> at the end relates the code on linked lists, with dummies removed from the middle
  when a time limit passes, to a queue of threads.
\<close>

record cond_var =
  c_waiter_mutex :: "nat option"
  c_waitlist :: waitlist

section \<open>Operations\<close>

definition ABTI_cond_init :: cond_var where
  "ABTI_cond_init = \<lparr>c_waiter_mutex = None, c_waitlist = ABTI_waitlist_init\<rparr>"

definition ABT_cond_create :: "bool \<Rightarrow> abt_errno \<times> cond_var option" where
  "ABT_cond_create malloc_ok =
     (if malloc_ok then (ABT_SUCCESS, Some ABTI_cond_init) else (ABT_ERR_MEM, None))"

definition ABT_cond_free :: "cond_var option \<Rightarrow> abt_errno \<times> cond_var option" where
  "ABT_cond_free cv =
     (case cv of
        None \<Rightarrow> (ABT_ERR_INV_COND, None)
      | Some c \<Rightarrow> if \<not> ABTI_waitlist_is_empty (c_waitlist c) then (ABT_ERR_COND, Some c)
                  else (ABT_SUCCESS, None))"

text \<open>The check of the associated mutex, the same in both kinds of wait; \<open>None\<close> is the error.\<close>

definition cond_bind :: "nat \<Rightarrow> cond_var \<Rightarrow> cond_var option" where
  "cond_bind p_mutex c =
     (case c_waiter_mutex c of
        None \<Rightarrow> Some (c\<lparr>c_waiter_mutex := Some p_mutex\<rparr>)
      | Some m \<Rightarrow> if m \<noteq> p_mutex then None else Some c)"

definition ABTI_cond_wait ::
    "thread_ptr \<Rightarrow> cond_var \<Rightarrow> nat \<Rightarrow> wait_heap \<Rightarrow> (outcome \<times> wait_heap \<times> cond_var) option" where
  "ABTI_cond_wait self c p_mutex h =
     (case cond_bind p_mutex c of
        None \<Rightarrow> Some (Returns ABT_ERR_INV_MUTEX, h, c)
      | Some c1 \<Rightarrow> do {
          (h', w') \<leftarrow> ABTI_waitlist_wait self (c_waitlist c1) h;
          Some (Blocks, h', c1\<lparr>c_waitlist := w'\<rparr>)
        })"

definition ABT_cond_wait ::
    "caller \<Rightarrow> thread_ptr \<Rightarrow> cond_var option \<Rightarrow> nat option \<Rightarrow> wait_heap
     \<Rightarrow> (outcome \<times> wait_heap \<times> cond_var option) option" where
  "ABT_cond_wait caller self cv mutex h =
     (if \<not> may_block caller then Some (Returns ABT_ERR_COND, h, cv)
      else case cv of
        None \<Rightarrow> Some (Returns ABT_ERR_INV_COND, h, None)
      | Some c \<Rightarrow> (case mutex of
            None \<Rightarrow> Some (Returns ABT_ERR_INV_MUTEX, h, Some c)
          | Some p_mutex \<Rightarrow> do {
              (out, h', c') \<leftarrow> ABTI_cond_wait self c p_mutex h;
              Some (out, h', Some c')
            }))"

text \<open>The timed wait up to the suspension; its waiter is the dummy thread on the stack.\<close>

definition ABT_cond_timedwait ::
    "thread_ptr \<Rightarrow> cond_var option \<Rightarrow> nat option \<Rightarrow> wait_heap
     \<Rightarrow> (outcome \<times> wait_heap \<times> cond_var option) option" where
  "ABT_cond_timedwait dummy cv mutex h =
     (case cv of
        None \<Rightarrow> Some (Returns ABT_ERR_INV_COND, h, None)
      | Some c \<Rightarrow> (case mutex of
            None \<Rightarrow> Some (Returns ABT_ERR_INV_MUTEX, h, Some c)
          | Some p_mutex \<Rightarrow>
              (case cond_bind p_mutex c of
                 None \<Rightarrow> Some (Returns ABT_ERR_INV_MUTEX, h, Some c)
               | Some c1 \<Rightarrow> do {
                   (h', w') \<leftarrow> ABTI_waitlist_wait_timed dummy (c_waitlist c1) h;
                   Some (Blocks, h', Some (c1\<lparr>c_waitlist := w'\<rparr>))
                 })))"

text \<open>Its end when the limit has passed: the code it returns after locking the mutex again.\<close>

definition cond_timedwait_end ::
    "thread_ptr \<Rightarrow> cond_var \<Rightarrow> wait_heap \<Rightarrow> (abt_errno \<times> wait_heap \<times> cond_var) option" where
  "cond_timedwait_end dummy c h = do {
     (is_timedout, h', w') \<leftarrow> ABTI_waitlist_timeout dummy (c_waitlist c) h;
     Some (if is_timedout then ABT_ERR_COND_TIMEDOUT else ABT_SUCCESS, h', c\<lparr>c_waitlist := w'\<rparr>)
   }"

definition convert_timespec_to_sec :: "int \<Rightarrow> int \<Rightarrow> real" where
  "convert_timespec_to_sec tv_sec tv_nsec = real_of_int tv_sec + real_of_int tv_nsec / 10 ^ 9"

definition ABT_cond_signal ::
    "cond_var option \<Rightarrow> wait_heap \<Rightarrow> abt_errno \<times> thread_ptr option \<times> wait_heap \<times> cond_var option" where
  "ABT_cond_signal cv h =
     (case cv of
        None \<Rightarrow> (ABT_ERR_INV_COND, None, h, None)
      | Some c \<Rightarrow>
          (let (t, h', w') = ABTI_waitlist_signal (c_waitlist c) h
           in (ABT_SUCCESS, t, h', Some (c\<lparr>c_waitlist := w'\<rparr>))))"

definition ABTI_cond_broadcast ::
    "cond_var \<Rightarrow> wait_heap \<Rightarrow> (thread_ptr list \<times> wait_heap \<times> cond_var) option" where
  "ABTI_cond_broadcast c h = do {
     (ts, _, h', w') \<leftarrow> ABTI_waitlist_broadcast (c_waitlist c) h;
     Some (ts, h', c\<lparr>c_waitlist := w'\<rparr>)
   }"

definition ABT_cond_broadcast ::
    "cond_var option \<Rightarrow> wait_heap
     \<Rightarrow> (abt_errno \<times> thread_ptr list \<times> wait_heap \<times> cond_var option) option" where
  "ABT_cond_broadcast cv h =
     (case cv of
        None \<Rightarrow> Some (ABT_ERR_INV_COND, [], h, None)
      | Some c \<Rightarrow> do {
          (ts, h', c') \<leftarrow> ABTI_cond_broadcast c h;
          Some (ABT_SUCCESS, ts, h', Some c')
        })"

section \<open>As an object that wakes all its waiters\<close>

definition cond_rep ::
    "thread_ptr set \<Rightarrow> nat \<Rightarrow> wait_heap \<Rightarrow> cond_var \<Rightarrow> thread_ptr list \<Rightarrow> bool" where
  "cond_rep T m h c xs \<longleftrightarrow> wl_rep T h (c_waitlist c) xs \<and> c_waiter_mutex c \<in> {None, Some m}"

lemma cond_wait_rep:
  assumes "cond_rep T m h c xs" "t \<notin> set xs" "t \<notin> T"
  shows "\<exists>h' c'. ABTI_cond_wait t c m h = Some (Blocks, h', c') \<and> cond_rep T m h' c' (xs @ [t])
    \<and> wl_ready h' = (wl_ready h)(t := False)"
proof -
  have "wl_rep T h (c_waitlist c) xs"
    using assms(1) by (simp add: cond_rep_def)
  from wait_rep [OF this assms(2,3)] show ?thesis
    using assms(1) wait_ready by (fastforce simp: ABTI_cond_wait_def cond_rep_def cond_bind_def)
qed

lemma cond_broadcast_rep:
  assumes "cond_rep T m h c xs"
  shows "\<exists>h' c'. ABTI_cond_broadcast c h = Some (xs, h', c') \<and> cond_rep T m h' c' []
    \<and> (\<forall>x. wl_ready h' x \<longleftrightarrow> wl_ready h x \<or> x \<in> set xs)"
proof -
  have "wl_rep T h (c_waitlist c) xs"
    using assms(1) by (simp add: cond_rep_def)
  from broadcast_rep [OF this] show ?thesis
    using assms(1) by (auto simp: ABTI_cond_broadcast_def cond_rep_def)
qed

definition cv_block ::
    "nat \<Rightarrow> thread_ptr \<Rightarrow> wait_heap \<times> cond_var \<Rightarrow> (wait_heap \<times> cond_var) option" where
  "cv_block m t s =
     (case ABTI_cond_wait t (snd s) m (fst s) of
        Some (Blocks, h', c') \<Rightarrow> Some (h', c') | _ \<Rightarrow> None)"

definition cv_broadcast ::
    "wait_heap \<times> cond_var \<Rightarrow> (thread_ptr list \<times> wait_heap \<times> cond_var) option" where
  "cv_broadcast s = ABTI_cond_broadcast (snd s) (fst s)"

interpretation cv: wake_all
  "\<lambda>s xs. cond_rep {} m (fst s) (snd s) xs" "cv_block m" cv_broadcast
  "\<lambda>s. cond_rep {} m (fst s) (snd s) []" for m
proof unfold_locales
  fix s xs t
  assume a: "cond_rep {} m (fst s) (snd s) xs" and t: "t \<notin> set xs"
  show "\<exists>s'. cv_block m t s = Some s' \<and> cond_rep {} m (fst s') (snd s') (xs @ [t])"
    using cond_wait_rep [OF a t] by (auto simp: cv_block_def)
next
  fix s xs
  assume "cond_rep {} m (fst s) (snd s) xs"
  then show "\<exists>s'. cv_broadcast s = Some (xs, s') \<and> cond_rep {} m (fst s') (snd s') []"
    using cond_broadcast_rep [of "{}" m "fst s" "snd s" xs] by (auto simp: cv_broadcast_def)
qed

section \<open>Refinement of a queue\<close>

text \<open>Waits name their caller or dummy and the mutex; \<open>CTimeout\<close> is a time limit that has passed.\<close>

datatype cond_op =
  CWait thread_ptr nat | CTimed thread_ptr nat | CTimeout thread_ptr | CSignal | CBroadcast

datatype cond_res = RBlocked | RError abt_errno | RReturned abt_errno | RWoken "thread_ptr list"

fun cond_exec ::
    "cond_op \<Rightarrow> wait_heap \<times> cond_var \<Rightarrow> (cond_res \<times> wait_heap \<times> cond_var) option" where
  "cond_exec (CWait t m) (h, c) = do {
     (out, h', c') \<leftarrow> ABT_cond_wait Yieldable t (Some c) (Some m) h;
     c1 \<leftarrow> c';
     Some (case out of Blocks \<Rightarrow> RBlocked | Returns e \<Rightarrow> RError e, h', c1)
   }"
| "cond_exec (CTimed t m) (h, c) = do {
     (out, h', c') \<leftarrow> ABT_cond_timedwait t (Some c) (Some m) h;
     c1 \<leftarrow> c';
     Some (case out of Blocks \<Rightarrow> RBlocked | Returns e \<Rightarrow> RError e, h', c1)
   }"
| "cond_exec (CTimeout t) (h, c) = do {
     (e, h', c') \<leftarrow> cond_timedwait_end t c h;
     Some (RReturned e, h', c')
   }"
| "cond_exec CSignal (h, c) =
     (case ABT_cond_signal (Some c) h of
        (_, t, h', Some c') \<Rightarrow> Some (RWoken (case t of None \<Rightarrow> [] | Some x \<Rightarrow> [x]), h', c')
      | _ \<Rightarrow> None)"
| "cond_exec CBroadcast (h, c) = do {
     (_, ts, h', c') \<leftarrow> ABT_cond_broadcast (Some c) h;
     c1 \<leftarrow> c';
     Some (RWoken ts, h', c1)
   }"

text \<open>
  The specification. \<open>ac_timed\<close> are the timed waits that have not ended. A sequence of calls is
  legal if no thread waits twice at the same time; a timed wait ends once, after it began.
\<close>

record acond =
  ac_queue :: "thread_ptr list"
  ac_timed :: "thread_ptr set"
  ac_bound :: "nat option"

fun acond_exec :: "thread_ptr set \<Rightarrow> cond_op \<Rightarrow> acond \<Rightarrow> (cond_res \<times> acond) option" where
  "acond_exec T (CWait t m) a =
     (if t \<in> set (ac_queue a) \<or> t \<in> T then None
      else if ac_bound a \<notin> {None, Some m} then Some (RError ABT_ERR_INV_MUTEX, a)
      else Some (RBlocked, a\<lparr>ac_queue := ac_queue a @ [t], ac_bound := Some m\<rparr>))"
| "acond_exec T (CTimed t m) a =
     (if t \<in> ac_timed a \<or> t \<notin> T then None
      else if ac_bound a \<notin> {None, Some m} then Some (RError ABT_ERR_INV_MUTEX, a)
      else Some (RBlocked, a\<lparr>ac_queue := ac_queue a @ [t], ac_timed := insert t (ac_timed a),
                             ac_bound := Some m\<rparr>))"
| "acond_exec T (CTimeout t) a =
     (if t \<notin> ac_timed a then None
      else Some (RReturned (if t \<in> set (ac_queue a) then ABT_ERR_COND_TIMEDOUT else ABT_SUCCESS),
        a\<lparr>ac_queue := remove1 t (ac_queue a), ac_timed := ac_timed a - {t}\<rparr>))"
| "acond_exec T CSignal a =
     Some (RWoken (take 1 (ac_queue a)), a\<lparr>ac_queue := drop 1 (ac_queue a)\<rparr>)"
| "acond_exec T CBroadcast a = Some (RWoken (ac_queue a), a\<lparr>ac_queue := []\<rparr>)"

definition cond_sim :: "thread_ptr set \<Rightarrow> wait_heap \<times> cond_var \<Rightarrow> acond \<Rightarrow> bool" where
  "cond_sim T s a \<longleftrightarrow>
     wl_rep T (fst s) (c_waitlist (snd s)) (ac_queue a) \<and> c_waiter_mutex (snd s) = ac_bound a \<and>
     ac_timed a \<subseteq> T \<and> set (ac_queue a) \<inter> T \<subseteq> ac_timed a \<and>
     (\<forall>t \<in> ac_timed a. t \<in> set (ac_queue a) \<or> wl_ready (fst s) t)"

lemma sim_wait:
  assumes "cond_sim T (h, c) a" "acond_exec T (CWait t m) a = Some (r, a')"
  shows "\<exists>s'. cond_exec (CWait t m) (h, c) = Some (r, s') \<and> cond_sim T s' a'"
proof -
  have rep: "wl_rep T h (c_waitlist c) (ac_queue a)" and t: "t \<notin> set (ac_queue a)" "t \<notin> T"
    using assms by (auto simp: cond_sim_def split: if_splits)
  obtain h' w' where w: "ABTI_waitlist_wait t (c_waitlist c) h = Some (h', w')"
    "wl_rep T h' w' (ac_queue a @ [t])"
    using wait_rep [OF rep t] by blast
  have "wl_ready h' = (wl_ready h)(t := False)"
    using wait_ready [OF w(1)] .
  then show ?thesis
    using assms w t
    by (auto simp: cond_sim_def ABT_cond_wait_def ABTI_cond_wait_def cond_bind_def
        split: if_splits option.splits)
qed

lemma sim_timed:
  assumes "cond_sim T (h, c) a" "acond_exec T (CTimed t m) a = Some (r, a')"
  shows "\<exists>s'. cond_exec (CTimed t m) (h, c) = Some (r, s') \<and> cond_sim T s' a'"
proof -
  have rep: "wl_rep T h (c_waitlist c) (ac_queue a)" and t: "t \<notin> set (ac_queue a)" "t \<in> T"
    using assms by (auto simp: cond_sim_def split: if_splits)
  obtain h' w' where w: "ABTI_waitlist_wait_timed t (c_waitlist c) h = Some (h', w')"
    "wl_rep T h' w' (ac_queue a @ [t])"
    using wait_timed_rep [OF rep t(1)] by blast
  have "wl_ready h' = (wl_ready h)(t := False)"
    using wait_timed_ready [OF w(1)] .
  then show ?thesis
    using assms w t
    by (auto simp: cond_sim_def ABT_cond_timedwait_def cond_bind_def
        split: if_splits option.splits)
qed

lemma sim_timeout:
  assumes "cond_sim T (h, c) a" "acond_exec T (CTimeout t) a = Some (r, a')"
  shows "\<exists>s'. cond_exec (CTimeout t) (h, c) = Some (r, s') \<and> cond_sim T s' a'"
proof (cases "t \<in> set (ac_queue a)")
  case True
  have rep: "wl_rep T h (c_waitlist c) (ac_queue a)" and t: "t \<in> T" "distinct (ac_queue a)"
    using assms by (auto simp: cond_sim_def wl_rep_def split: if_splits)
  obtain as bs where q: "ac_queue a = as @ t # bs" "t \<notin> set as"
    using True by (metis split_list_first)
  have "t \<notin> set bs"
    using t(2) q by simp
  obtain h' w' where w: "ABTI_waitlist_timeout t (c_waitlist c) h = Some (True, h', w')"
    "wl_rep T h' w' (as @ bs)"
    using timeout_rep [of T h "c_waitlist c" as t bs] rep q t by auto
  have "wl_ready h' = wl_ready h"
    using timeout_ready [OF w(1)] .
  then show ?thesis
    using assms w q \<open>t \<notin> set bs\<close>
    by (auto simp: cond_sim_def cond_timedwait_end_def remove1_append split: if_splits)
next
  case False
  then have "wl_ready h t"
    using assms by (auto simp: cond_sim_def split: if_splits)
  then show ?thesis
    using assms False
    by (auto simp: cond_sim_def cond_timedwait_end_def timeout_signaled remove1_idem split: if_splits)
qed

lemma sim_signal:
  assumes "cond_sim T (h, c) a" "acond_exec T CSignal a = Some (r, a')"
  shows "\<exists>s'. cond_exec CSignal (h, c) = Some (r, s') \<and> cond_sim T s' a'"
proof (cases "ac_queue a")
  case Nil
  then show ?thesis
    using assms signal_empty [of T h "c_waitlist c"] by (auto simp: cond_sim_def ABT_cond_signal_def)
next
  case (Cons t xs)
  then have "wl_rep T h (c_waitlist c) (t # xs)"
    using assms(1) by (simp add: cond_sim_def)
  from signal_rep [OF this] show ?thesis
    using assms Cons by (auto simp: cond_sim_def ABT_cond_signal_def)
qed

lemma sim_broadcast:
  assumes "cond_sim T (h, c) a" "acond_exec T CBroadcast a = Some (r, a')"
  shows "\<exists>s'. cond_exec CBroadcast (h, c) = Some (r, s') \<and> cond_sim T s' a'"
proof -
  have "wl_rep T h (c_waitlist c) (ac_queue a)"
    using assms(1) by (simp add: cond_sim_def)
  from broadcast_rep [OF this] show ?thesis
    using assms by (auto simp: cond_sim_def ABT_cond_broadcast_def ABTI_cond_broadcast_def)
qed

lemma cond_exec_sim:
  assumes "cond_sim T s a" "acond_exec T op a = Some (r, a')"
  shows "\<exists>s'. cond_exec op s = Some (r, s') \<and> cond_sim T s' a'"
  using assms sim_wait sim_timed sim_timeout sim_signal sim_broadcast
  by (cases s; cases op) metis+

text \<open>Sequences of calls, with the results in order.\<close>

primrec cond_run ::
    "cond_op list \<Rightarrow> wait_heap \<times> cond_var \<Rightarrow> (cond_res list \<times> wait_heap \<times> cond_var) option" where
  "cond_run [] s = Some ([], s)"
| "cond_run (x # ops) s = do {
     (r, s1) \<leftarrow> cond_exec x s;
     (rs, s2) \<leftarrow> cond_run ops s1;
     Some (r # rs, s2)
   }"

primrec acond_run :: "thread_ptr set \<Rightarrow> cond_op list \<Rightarrow> acond \<Rightarrow> (cond_res list \<times> acond) option" where
  "acond_run T [] a = Some ([], a)"
| "acond_run T (x # ops) a = do {
     (r, a1) \<leftarrow> acond_exec T x a;
     (rs, a2) \<leftarrow> acond_run T ops a1;
     Some (r # rs, a2)
   }"

lemma cond_run_sim:
  "cond_sim T s a \<Longrightarrow> acond_run T ops a = Some (rs, a')
    \<Longrightarrow> \<exists>s'. cond_run ops s = Some (rs, s') \<and> cond_sim T s' a'"
proof (induction ops arbitrary: s a rs)
  case (Cons x ops)
  then obtain r a1 rs1 where a: "acond_exec T x a = Some (r, a1)" "acond_run T ops a1 = Some (rs1, a')"
    "rs = r # rs1"
    by (auto split: bind_splits)
  obtain s1 where s1: "cond_exec x s = Some (r, s1)" "cond_sim T s1 a1"
    using cond_exec_sim [OF Cons.prems(1) a(1)] by blast
  then show ?case
    using Cons.IH [OF s1(2) a(2)] a(3) by auto
qed simp

lemma cond_sim_init:
  "cond_sim T (h, ABTI_cond_init) \<lparr>ac_queue = [], ac_timed = {}, ac_bound = None\<rparr>"
  by (simp add: cond_sim_def ABTI_cond_init_def)

section \<open>The associated mutex\<close>

text \<open>No operation resets \<^verbatim>\<open>p_waiter_mutex\<close>: the first mutex stays associated for good.\<close>

lemma bound_kept:
  "cond_exec op (h, c) = Some (r, h', c') \<Longrightarrow> c_waiter_mutex c = Some m \<Longrightarrow> c_waiter_mutex c' = Some m"
  by (cases op)
     (auto simp: ABT_cond_wait_def ABTI_cond_wait_def ABT_cond_timedwait_def cond_timedwait_end_def
        ABT_cond_signal_def ABT_cond_broadcast_def ABTI_cond_broadcast_def cond_bind_def Let_def
        split: bind_splits option.splits if_splits prod.splits)

lemma bound_kept_run:
  "cond_run ops (h, c) = Some (rs, h', c') \<Longrightarrow> c_waiter_mutex c = Some m \<Longrightarrow> c_waiter_mutex c' = Some m"
proof (induction ops arbitrary: h c rs)
  case (Cons x ops)
  then show ?case
    using bound_kept by (fastforce split: bind_splits)
qed simp

lemma wait_other_mutex:
  "c_waiter_mutex c = Some m \<Longrightarrow> m' \<noteq> m
    \<Longrightarrow> ABT_cond_wait Yieldable t (Some c) (Some m') h = Some (Returns ABT_ERR_INV_MUTEX, h, Some c)"
  by (simp add: ABT_cond_wait_def ABTI_cond_wait_def cond_bind_def)

end
