(* ===== verification/Rwlock.thy ===== *)
theory Rwlock
  imports Cond
begin

text \<open>
  The readers-writer lock (\<^verbatim>\<open>argobots_framework/src/rwlock.c\<close>): a mutex, a condition variable,
  a reader count and a writer flag. The mutex is one bit here, taken and released in one step,
  which theory Mutex justifies; the condition's own lock and its linked list of waiters are
  kept, and \<^verbatim>\<open>ABTI_cond_wait\<close> is taken apart into its accesses, because the lock of the mutex
  is released in the middle of it.
\<close>

record rwlock =
  rw_locked :: bool
  rw_mutex_addr :: nat
  rw_cond :: cond_var
  rw_cond_lock :: bool
  rw_reader_count :: nat
  rw_write_flag :: bool

definition ABT_rwlock_create :: "bool \<Rightarrow> nat \<Rightarrow> abt_errno \<times> rwlock option" where
  "ABT_rwlock_create malloc_ok addr =
     (if malloc_ok
      then (ABT_SUCCESS, Some \<lparr>rw_locked = False, rw_mutex_addr = addr, rw_cond = ABTI_cond_init,
              rw_cond_lock = False, rw_reader_count = 0, rw_write_flag = False\<rparr>)
      else (ABT_ERR_MEM, None))"

definition ABT_rwlock_free :: "rwlock option \<Rightarrow> abt_errno \<times> rwlock option" where
  "ABT_rwlock_free rw =
     (case rw of None \<Rightarrow> (ABT_ERR_INV_RWLOCK, None) | Some _ \<Rightarrow> (ABT_SUCCESS, None))"

section \<open>Calls\<close>

datatype rw_kind = Reader | Writer

text \<open>
  The \<open>R\<close> states are inside \<^verbatim>\<open>rdlock\<close> or \<^verbatim>\<open>wrlock\<close>, the \<open>U\<close> states inside \<^verbatim>\<open>unlock\<close>; there the
  kind only remembers how the caller holds the lock.
\<close>

datatype rw_pc =
  RIdle | RLockMutex rw_kind | RCheck rw_kind | RCondLock rw_kind | RCondUnlockMutex rw_kind
| RCondEnqueue rw_kind | RSleep rw_kind | RUnlockMutex rw_kind | RFailed | RHeld rw_kind
| ULockMutex rw_kind | UBody rw_kind | UBroadcast | UUnlockMutex

text \<open>The checks at the entry: an error code, or where the caller goes on.\<close>

definition ABT_rwlock_rdlock :: "caller \<Rightarrow> rwlock option \<Rightarrow> abt_errno + rw_pc" where
  "ABT_rwlock_rdlock c rw =
     (if rw = None then Inl ABT_ERR_INV_RWLOCK
      else if \<not> may_block c then Inl ABT_ERR_RWLOCK else Inr (RLockMutex Reader))"

definition ABT_rwlock_wrlock :: "caller \<Rightarrow> rwlock option \<Rightarrow> abt_errno + rw_pc" where
  "ABT_rwlock_wrlock c rw =
     (if rw = None then Inl ABT_ERR_INV_RWLOCK
      else if \<not> may_block c then Inl ABT_ERR_RWLOCK else Inr (RLockMutex Writer))"

definition ABT_rwlock_unlock :: "rw_kind \<Rightarrow> rwlock option \<Rightarrow> abt_errno + rw_pc" where
  "ABT_rwlock_unlock k rw = (if rw = None then Inl ABT_ERR_INV_RWLOCK else Inr (ULockMutex k))"

text \<open>The conditions of the two waiting loops, and what follows them.\<close>

fun must_wait :: "rw_kind \<Rightarrow> rwlock \<Rightarrow> bool" where
  "must_wait Reader rw = rw_write_flag rw"
| "must_wait Writer rw = (rw_write_flag rw \<or> rw_reader_count rw \<noteq> 0)"

fun take_rwlock :: "rw_kind \<Rightarrow> rwlock \<Rightarrow> rwlock" where
  "take_rwlock Reader rw = rw\<lparr>rw_reader_count := rw_reader_count rw + 1\<rparr>"
| "take_rwlock Writer rw = rw\<lparr>rw_write_flag := True\<rparr>"

fun rw_micro :: "thread_ptr \<Rightarrow> rw_pc \<Rightarrow> wait_heap \<Rightarrow> rwlock \<Rightarrow> (rw_pc \<times> wait_heap \<times> rwlock) micro" where
  "rw_micro t (RLockMutex k) h rw =
     (if rw_locked rw then Spins else Moves (RCheck k, h, rw\<lparr>rw_locked := True\<rparr>))"
| "rw_micro t (RCheck k) h rw =
     (if must_wait k rw then Moves (RCondLock k, h, rw)
      else Moves (RUnlockMutex k, h, take_rwlock k rw))"
| "rw_micro t (RCondLock k) h rw =
     (if rw_cond_lock rw then Spins
      else case cond_bind (rw_mutex_addr rw) (rw_cond rw) of
             None \<Rightarrow> Moves (RFailed, h, rw)
           | Some c \<Rightarrow> Moves (RCondUnlockMutex k, h, rw\<lparr>rw_cond := c, rw_cond_lock := True\<rparr>))"
| "rw_micro t (RCondUnlockMutex k) h rw = Moves (RCondEnqueue k, h, rw\<lparr>rw_locked := False\<rparr>)"
| "rw_micro t (RCondEnqueue k) h rw =
     (case ABTI_waitlist_wait t (c_waitlist (rw_cond rw)) h of
        None \<Rightarrow> Fails
      | Some (h', w') \<Rightarrow>
          Moves (RSleep k, h', rw\<lparr>rw_cond := (rw_cond rw)\<lparr>c_waitlist := w'\<rparr>, rw_cond_lock := False\<rparr>))"
| "rw_micro t (RSleep k) h rw = (if wl_ready h t then Moves (RLockMutex k, h, rw) else Spins)"
| "rw_micro t (RUnlockMutex k) h rw = Moves (RHeld k, h, rw\<lparr>rw_locked := False\<rparr>)"
| "rw_micro t RFailed h rw = Moves (RIdle, h, rw\<lparr>rw_locked := False\<rparr>)"
| "rw_micro t (ULockMutex k) h rw =
     (if rw_locked rw then Spins else Moves (UBody k, h, rw\<lparr>rw_locked := True\<rparr>))"
| "rw_micro t (UBody k) h rw =
     (if rw_write_flag rw then Moves (UBroadcast, h, rw\<lparr>rw_write_flag := False\<rparr>)
      else if rw_reader_count rw = 0 then Fails
      else Moves (UBroadcast, h, rw\<lparr>rw_reader_count := rw_reader_count rw - 1\<rparr>))"
| "rw_micro t UBroadcast h rw =
     (if rw_cond_lock rw then Spins
      else case ABTI_cond_broadcast (rw_cond rw) h of
             None \<Rightarrow> Fails
           | Some (_, h', c') \<Rightarrow> Moves (UUnlockMutex, h', rw\<lparr>rw_cond := c'\<rparr>))"
| "rw_micro t UUnlockMutex h rw = Moves (RIdle, h, rw\<lparr>rw_locked := False\<rparr>)"
| "rw_micro t RIdle h rw = Spins"
| "rw_micro t (RHeld k) h rw = Spins"

record rw_sys =
  rs_heap :: wait_heap
  rs_rw :: rwlock
  rs_pc :: "thread_ptr \<Rightarrow> rw_pc"

text \<open>Any thread may ask for the lock when it is idle and gives it back when it holds it.\<close>

inductive rw_step :: "thread_ptr set \<Rightarrow> rw_sys \<Rightarrow> rw_sys \<Rightarrow> bool"
  for P :: "thread_ptr set" where
  rdlock: "rw_step P s (s\<lparr>rs_pc := (rs_pc s)(t := pc')\<rparr>)"
  if "t \<in> P" "rs_pc s t = RIdle" "ABT_rwlock_rdlock c (Some (rs_rw s)) = Inr pc'"
| wrlock: "rw_step P s (s\<lparr>rs_pc := (rs_pc s)(t := pc')\<rparr>)"
  if "t \<in> P" "rs_pc s t = RIdle" "ABT_rwlock_wrlock c (Some (rs_rw s)) = Inr pc'"
| unlock: "rw_step P s (s\<lparr>rs_pc := (rs_pc s)(t := pc')\<rparr>)"
  if "t \<in> P" "rs_pc s t = RHeld k" "ABT_rwlock_unlock k (Some (rs_rw s)) = Inr pc'"
| run: "rw_step P s (s\<lparr>rs_heap := h', rs_rw := rw', rs_pc := (rs_pc s)(t := pc')\<rparr>)"
  if "t \<in> P" "rw_micro t (rs_pc s t) (rs_heap s) (rs_rw s) = Moves (pc', h', rw')"

inductive rw_reachable :: "thread_ptr set \<Rightarrow> rw_sys \<Rightarrow> bool"
  for P :: "thread_ptr set" where
  init: "rw_reachable P \<lparr>rs_heap = h, rs_rw = rw, rs_pc = (\<lambda>_. RIdle)\<rparr>"
  if "ABT_rwlock_create True addr = (ABT_SUCCESS, Some rw)"
| step: "rw_reachable P s'" if "rw_reachable P s" "rw_step P s s'"

section \<open>Invariant\<close>

fun holds_mutex :: "rw_pc \<Rightarrow> bool" where
  "holds_mutex (RCheck k) = True" | "holds_mutex (RCondLock k) = True"
| "holds_mutex (RCondUnlockMutex k) = True" | "holds_mutex (RUnlockMutex k) = True"
| "holds_mutex RFailed = True" | "holds_mutex (UBody k) = True" | "holds_mutex UBroadcast = True"
| "holds_mutex UUnlockMutex = True" | "holds_mutex _ = False"

fun holds_cond :: "rw_pc \<Rightarrow> bool" where
  "holds_cond (RCondUnlockMutex k) = True" | "holds_cond (RCondEnqueue k) = True"
| "holds_cond _ = False"

text \<open>Between taking the lock as \<open>k\<close> and giving it back.\<close>

fun inside :: "rw_kind \<Rightarrow> rw_pc \<Rightarrow> bool" where
  "inside k (RUnlockMutex k') = (k = k')" | "inside k (RHeld k') = (k = k')"
| "inside k (ULockMutex k') = (k = k')" | "inside k (UBody k') = (k = k')"
| "inside k _ = False"

fun about_to_sleep :: "rw_pc \<Rightarrow> bool" where
  "about_to_sleep (RCondLock k) = True" | "about_to_sleep (RCondUnlockMutex k) = True"
| "about_to_sleep (RCondEnqueue k) = True" | "about_to_sleep _ = False"

fun sleeps :: "rw_pc \<Rightarrow> bool" where
  "sleeps (RSleep k) = True" | "sleeps _ = False"

definition mutex_part :: "thread_ptr set \<Rightarrow> rw_sys \<Rightarrow> bool" where
  "mutex_part P s \<longleftrightarrow> excl (rw_locked (rs_rw s)) (holders P holds_mutex (rs_pc s))
     \<and> excl (rw_cond_lock (rs_rw s)) (holders P holds_cond (rs_pc s))
     \<and> c_waiter_mutex (rw_cond (rs_rw s)) \<in> {None, Some (rw_mutex_addr (rs_rw s))}
     \<and> (\<forall>t \<in> P. rs_pc s t \<noteq> RFailed)"

definition count_part :: "thread_ptr set \<Rightarrow> rw_sys \<Rightarrow> bool" where
  "count_part P s \<longleftrightarrow> rw_reader_count (rs_rw s) = card (holders P (inside Reader) (rs_pc s))
     \<and> excl (rw_write_flag (rs_rw s)) (holders P (inside Writer) (rs_pc s))
     \<and> (rw_write_flag (rs_rw s) \<longrightarrow> rw_reader_count (rs_rw s) = 0)"

text \<open>No lost wake-up: whoever sleeps or is about to finds the lock taken, or a broadcast is due.\<close>

definition busy :: "thread_ptr set \<Rightarrow> rwlock \<Rightarrow> (thread_ptr \<Rightarrow> rw_pc) \<Rightarrow> bool" where
  "busy P rw pc \<longleftrightarrow> rw_write_flag rw \<or> rw_reader_count rw \<noteq> 0 \<or> holders P (\<lambda>c. c = UBroadcast) pc \<noteq> {}"

definition sleep_part :: "thread_ptr set \<Rightarrow> rw_sys \<Rightarrow> thread_ptr list \<Rightarrow> bool" where
  "sleep_part P s xs \<longleftrightarrow> wl_rep {} (rs_heap s) (c_waitlist (rw_cond (rs_rw s))) xs
     \<and> (\<forall>t \<in> set xs. t \<in> P \<and> sleeps (rs_pc s t))
     \<and> (\<forall>t \<in> P. sleeps (rs_pc s t) \<longrightarrow> t \<in> set xs \<or> wl_ready (rs_heap s) t)
     \<and> (xs \<noteq> [] \<or> holders P about_to_sleep (rs_pc s) \<noteq> {} \<longrightarrow>
          busy P (rs_rw s) (rs_pc s))"

definition rw_inv :: "thread_ptr set \<Rightarrow> rw_sys \<Rightarrow> bool" where
  "rw_inv P s \<longleftrightarrow> mutex_part P s \<and> count_part P s \<and> (\<exists>xs. sleep_part P s xs)"

lemma take_rwlock_other [simp]:
  "rw_locked (take_rwlock k rw) = rw_locked rw" "rw_cond (take_rwlock k rw) = rw_cond rw"
  "rw_cond_lock (take_rwlock k rw) = rw_cond_lock rw"
  "rw_mutex_addr (take_rwlock k rw) = rw_mutex_addr rw"
  by (cases k; simp)+

lemma broadcast_keeps_mutex:
  "ABTI_cond_broadcast c h = Some (ts, h', c') \<Longrightarrow> c_waiter_mutex c' = c_waiter_mutex c"
  by (auto simp: ABTI_cond_broadcast_def split: bind_splits)

lemma micro_mutex_part:
  assumes inv: "mutex_part P s" and t: "t \<in> P"
    and m: "rw_micro t (rs_pc s t) (rs_heap s) (rs_rw s) = Moves (pc', h', rw')"
  shows "mutex_part P (s\<lparr>rs_heap := h', rs_rw := rw', rs_pc := (rs_pc s)(t := pc')\<rparr>)"
proof -
  let ?H = "holders P holds_mutex (rs_pc s)" and ?C = "holders P holds_cond (rs_pc s)"
  have e: "excl (rw_locked (rs_rw s)) ?H" "excl (rw_cond_lock (rs_rw s)) ?C"
    and b: "c_waiter_mutex (rw_cond (rs_rw s)) \<in> {None, Some (rw_mutex_addr (rs_rw s))}"
    and nf: "\<forall>t \<in> P. rs_pc s t \<noteq> RFailed"
    using inv by (simp_all add: mutex_part_def)
  have H: "t \<in> ?H \<longleftrightarrow> holds_mutex (rs_pc s t)" and C: "t \<in> ?C \<longleftrightarrow> holds_cond (rs_pc s t)"
    using t by (simp_all add: in_holders)
  have "excl (rw_locked rw') (holders P holds_mutex ((rs_pc s)(t := pc')))"
    using m e(1) H
    by (cases "rs_pc s t") (auto simp: holders_upd [OF t] insert_absorb excl_take
        intro: excl_drop split: if_splits option.splits)
  moreover have "excl (rw_cond_lock rw') (holders P holds_cond ((rs_pc s)(t := pc')))"
    using m e(2) C
    by (cases "rs_pc s t") (auto simp: holders_upd [OF t] insert_absorb excl_take
        intro: excl_drop split: if_splits option.splits)
  moreover have "c_waiter_mutex (rw_cond rw') \<in> {None, Some (rw_mutex_addr rw')}" "pc' \<noteq> RFailed"
    using m b by (cases "rs_pc s t"; auto simp: cond_bind_def broadcast_keeps_mutex split: if_splits option.splits)+
  ultimately show ?thesis
    using nf by (auto simp: mutex_part_def)
qed

lemma micro_count_part:
  assumes inv: "count_part P s" and t: "t \<in> P" "finite P"
    and m: "rw_micro t (rs_pc s t) (rs_heap s) (rs_rw s) = Moves (pc', h', rw')"
  shows "count_part P (s\<lparr>rs_heap := h', rs_rw := rw', rs_pc := (rs_pc s)(t := pc')\<rparr>)"
proof -
  let ?R = "holders P (inside Reader) (rs_pc s)" and ?W = "holders P (inside Writer) (rs_pc s)"
  have e: "rw_reader_count (rs_rw s) = card ?R" "excl (rw_write_flag (rs_rw s)) ?W"
    "rw_write_flag (rs_rw s) \<longrightarrow> rw_reader_count (rs_rw s) = 0"
    using inv unfolding count_part_def by blast+
  have R: "t \<in> ?R \<longleftrightarrow> inside Reader (rs_pc s t)" and W: "t \<in> ?W \<longleftrightarrow> inside Writer (rs_pc s t)"
    using t by (simp_all add: in_holders)
  have f: "finite ?R"
    using t(2) by (simp add: holders_def)
  show ?thesis
  proof (cases "\<exists>k. rs_pc s t \<in> {RCheck k, UBody k}")
    case False
    then have "rw_reader_count rw' = rw_reader_count (rs_rw s)" "rw_write_flag rw' = rw_write_flag (rs_rw s)"
      "\<And>k. inside k pc' = inside k (rs_pc s t)"
      using m by (cases "rs_pc s t"; auto split: if_splits option.splits)+
    then show ?thesis
      using e R W by (auto simp: count_part_def holders_upd [OF t(1)] insert_absorb)
  next
    case True
    then obtain k where k: "rs_pc s t = RCheck k \<or> rs_pc s t = UBody k" by auto
    then show ?thesis
    proof
      assume "rs_pc s t = RCheck k"
      then show ?thesis
        using m e R W f
        by (cases k) (auto simp: count_part_def holders_upd [OF t(1)] excl_take split: if_splits)
    next
      assume pc: "rs_pc s t = UBody k"
      show ?thesis
      proof (cases k)
        case Writer
        then have "rw_write_flag (rs_rw s)"
          using pc W excl_held [OF e(2)] by simp
        then show ?thesis
          using m e R W pc Writer
          by (auto simp: count_part_def holders_upd [OF t(1)] intro: excl_drop)
      next
        case Reader
        then have "rw_reader_count (rs_rw s) \<noteq> 0" "\<not> rw_write_flag (rs_rw s)"
          using pc R f e by auto
        then show ?thesis
          using m e R W pc Reader f
          by (auto simp: count_part_def holders_upd [OF t(1)])
      qed
    qed
  qed
qed

text \<open>Only giving the lock back and the broadcast can end the reason to sleep.\<close>

lemma busy_kept:
  assumes b: "busy P (rs_rw s) (rs_pc s)" and t: "t \<in> P" and n: "rs_pc s t \<noteq> UBroadcast"
    and m: "rw_micro t (rs_pc s t) (rs_heap s) (rs_rw s) = Moves (pc', h', rw')"
  shows "busy P rw' ((rs_pc s)(t := pc'))"
proof (cases "\<exists>k. rs_pc s t = UBody k")
  case True
  then have "pc' = UBroadcast"
    using m by (auto split: if_splits)
  then show ?thesis
    by (simp add: busy_def holders_upd [OF t])
next
  case False
  have "t \<notin> holders P (\<lambda>c. c = UBroadcast) (rs_pc s)"
    using n t by (simp add: in_holders)
  then have "holders P (\<lambda>c. c = UBroadcast) ((rs_pc s)(t := pc')) \<noteq> {}"
    if "holders P (\<lambda>c. c = UBroadcast) (rs_pc s) \<noteq> {}"
    using that by (auto simp: holders_upd [OF t])
  moreover have "rw_write_flag rw' \<or> \<not> rw_write_flag (rs_rw s)"
    "rw_reader_count rw' \<noteq> 0 \<or> rw_reader_count (rs_rw s) = 0"
  proof -
    show "rw_write_flag rw' \<or> \<not> rw_write_flag (rs_rw s)"
    proof (cases "rs_pc s t")
      case (RCheck k)
      then show ?thesis using m by (cases k) (auto split: if_splits)
    qed (use m False in \<open>auto split: if_splits option.splits\<close>)
    show "rw_reader_count rw' \<noteq> 0 \<or> rw_reader_count (rs_rw s) = 0"
    proof (cases "rs_pc s t")
      case (RCheck k)
      then show ?thesis using m by (cases k) (auto split: if_splits)
    qed (use m False in \<open>auto split: if_splits option.splits\<close>)
  qed
  ultimately show ?thesis
    using b by (auto simp: busy_def)
qed

lemma sleep_frame:
  assumes inv: "sleep_part P s xs" and t: "t \<in> P" "t \<notin> set xs" "\<not> sleeps pc'"
    and w: "c_waitlist (rw_cond rw') = c_waitlist (rw_cond (rs_rw s))"
    and b: "busy P (rs_rw s) (rs_pc s) \<Longrightarrow> busy P rw' ((rs_pc s)(t := pc'))"
    and a: "about_to_sleep pc' \<Longrightarrow> about_to_sleep (rs_pc s t) \<or> busy P rw' ((rs_pc s)(t := pc'))"
  shows "sleep_part P (s\<lparr>rs_rw := rw', rs_pc := (rs_pc s)(t := pc')\<rparr>) xs"
proof -
  have "busy P rw' ((rs_pc s)(t := pc'))"
    if "xs \<noteq> [] \<or> holders P about_to_sleep ((rs_pc s)(t := pc')) \<noteq> {}"
  proof (cases "xs \<noteq> [] \<or> holders P about_to_sleep (rs_pc s) \<noteq> {}")
    case True
    then show ?thesis
      using inv b by (simp add: sleep_part_def)
  next
    case False
    then have "about_to_sleep pc'" "\<not> about_to_sleep (rs_pc s t)"
      using that t(1) by (auto simp: holders_upd [OF t(1)] holders_def split: if_splits)
    then show ?thesis
      using a by blast
  qed
  then show ?thesis
    using inv t w by (auto simp: sleep_part_def)
qed

lemma nobody_about_to_sleep:
  assumes inv: "mutex_part P s" and t: "t \<in> P" "rs_pc s t = UBroadcast" and c: "\<not> rw_cond_lock (rs_rw s)"
  shows "holders P about_to_sleep (rs_pc s) = {}"
proof -
  have "t \<in> holders P holds_mutex (rs_pc s)"
    using t by (simp add: in_holders)
  then have m: "holders P holds_mutex (rs_pc s) = {t}"
    using inv excl_held unfolding mutex_part_def by blast
  have n: "holders P holds_cond (rs_pc s) = {}"
    using inv c by (simp add: mutex_part_def excl_def)
  have "\<not> about_to_sleep (rs_pc s u)" if u: "u \<in> P" for u
  proof
    assume a: "about_to_sleep (rs_pc s u)"
    then have "u \<in> holders P holds_mutex (rs_pc s) \<or> u \<in> holders P holds_cond (rs_pc s)"
      using u by (cases "rs_pc s u") (simp_all add: in_holders)
    then have "u = t"
      using m n by blast
    then show False
      using a t(2) by simp
  qed
  then show ?thesis
    by (simp add: holders_def)
qed

lemma micro_sleep_enqueue:
  assumes inv: "sleep_part P s xs" and t: "t \<in> P" and enq: "rs_pc s t = RCondEnqueue k"
    and m: "rw_micro t (rs_pc s t) (rs_heap s) (rs_rw s) = Moves (pc', h', rw')"
  shows "sleep_part P (s\<lparr>rs_heap := h', rs_rw := rw', rs_pc := (rs_pc s)(t := pc')\<rparr>) (xs @ [t])"
proof -
  have rep: "wl_rep {} (rs_heap s) (c_waitlist (rw_cond (rs_rw s))) xs" and tx: "t \<notin> set xs"
    using inv enq by (auto simp: sleep_part_def)
  obtain w' where w: "ABTI_waitlist_wait t (c_waitlist (rw_cond (rs_rw s))) (rs_heap s) = Some (h', w')"
    and pc: "pc' = RSleep k"
    and rw: "rw' = (rs_rw s)\<lparr>rw_cond := (rw_cond (rs_rw s))\<lparr>c_waitlist := w'\<rparr>, rw_cond_lock := False\<rparr>"
    using m unfolding enq by (cases "ABTI_waitlist_wait t (c_waitlist (rw_cond (rs_rw s))) (rs_heap s)") auto
  have r: "wl_rep {} h' w' (xs @ [t])" "wl_ready h' = (wl_ready (rs_heap s))(t := False)"
    using wait_rep [OF rep tx] w wait_ready [OF w] by simp_all
  have "t \<in> holders P about_to_sleep (rs_pc s)"
    using t enq by (simp add: in_holders)
  then have "busy P (rs_rw s) (rs_pc s)"
    using inv unfolding sleep_part_def by blast
  then have "busy P rw' ((rs_pc s)(t := pc'))"
    using busy_kept [OF _ t _ m] enq by simp
  then show ?thesis
    using inv r t by (simp add: sleep_part_def pc rw)
qed

lemma micro_sleep_broadcast:
  assumes inv: "sleep_part P s xs" and mu: "mutex_part P s" and t: "t \<in> P" and bc: "rs_pc s t = UBroadcast"
    and m: "rw_micro t (rs_pc s t) (rs_heap s) (rs_rw s) = Moves (pc', h', rw')"
  shows "sleep_part P (s\<lparr>rs_heap := h', rs_rw := rw', rs_pc := (rs_pc s)(t := pc')\<rparr>) []"
proof -
  have rep: "wl_rep {} (rs_heap s) (c_waitlist (rw_cond (rs_rw s))) xs"
    using inv by (simp add: sleep_part_def)
  have c: "\<not> rw_cond_lock (rs_rw s)"
    using m bc by (auto split: if_splits)
  obtain ts c' where b: "ABTI_cond_broadcast (rw_cond (rs_rw s)) (rs_heap s) = Some (ts, h', c')"
    and pc: "pc' = UUnlockMutex" and rw: "rw' = (rs_rw s)\<lparr>rw_cond := c'\<rparr>"
    using m bc c by (auto split: option.splits)
  have r: "wl_rep {} h' (c_waitlist c') []" "\<forall>x. wl_ready h' x \<longleftrightarrow> wl_ready (rs_heap s) x \<or> x \<in> set xs"
    using broadcast_rep [OF rep] b by (auto simp: ABTI_cond_broadcast_def)
  have "holders P about_to_sleep ((rs_pc s)(t := pc')) = {}"
    using nobody_about_to_sleep [OF mu t bc c] pc by (simp add: holders_upd [OF t])
  then show ?thesis
    using inv r by (simp add: sleep_part_def pc rw) blast
qed

text \<open>The other actions leave the list alone.\<close>

lemma micro_list_same:
  assumes "rw_micro t pc h rw = Moves (pc', h', rw')" "\<forall>k. pc \<noteq> RCondEnqueue k" "pc \<noteq> UBroadcast"
  shows "c_waitlist (rw_cond rw') = c_waitlist (rw_cond rw) \<and> h' = h \<and> \<not> sleeps pc'"
  using assms
  by (cases pc) (auto simp: cond_bind_def split: if_splits option.splits)

lemma micro_about:
  assumes "rw_micro t pc h rw = Moves (pc', h', rw')" "about_to_sleep pc'" "\<not> about_to_sleep pc"
  shows "rw' = rw \<and> (rw_write_flag rw \<or> rw_reader_count rw \<noteq> 0)"
proof (cases pc)
  case (RCheck k)
  then show ?thesis
    using assms by (cases k) (auto split: if_splits)
qed (use assms in \<open>auto split: if_splits option.splits\<close>)

lemma micro_sleep_part:
  assumes inv: "sleep_part P s xs" and mu: "mutex_part P s" and t: "t \<in> P"
    and m: "rw_micro t (rs_pc s t) (rs_heap s) (rs_rw s) = Moves (pc', h', rw')"
  shows "\<exists>xs. sleep_part P (s\<lparr>rs_heap := h', rs_rw := rw', rs_pc := (rs_pc s)(t := pc')\<rparr>) xs"
proof (cases "(\<exists>k. rs_pc s t = RCondEnqueue k) \<or> rs_pc s t = UBroadcast")
  case True
  then show ?thesis
    using micro_sleep_enqueue [OF inv t _ m] micro_sleep_broadcast [OF inv mu t _ m] by blast
next
  case False
  then have w: "c_waitlist (rw_cond rw') = c_waitlist (rw_cond (rs_rw s))" "h' = rs_heap s" "\<not> sleeps pc'"
    using micro_list_same [OF m] by blast+
  have tx: "t \<notin> set xs"
  proof
    assume x: "t \<in> set xs"
    then have "sleeps (rs_pc s t)" "\<not> wl_ready (rs_heap s) t"
      using inv by (simp_all add: sleep_part_def wl_rep_def)
    then show False
      using m by (cases "rs_pc s t") simp_all
  qed
  have "sleep_part P (s\<lparr>rs_rw := rw', rs_pc := (rs_pc s)(t := pc')\<rparr>) xs"
  proof (rule sleep_frame [OF inv t tx w(3) w(1)])
    show "busy P rw' ((rs_pc s)(t := pc'))" if "busy P (rs_rw s) (rs_pc s)"
      using busy_kept [OF that t _ m] False by blast
    show "about_to_sleep (rs_pc s t) \<or> busy P rw' ((rs_pc s)(t := pc'))" if "about_to_sleep pc'"
      using micro_about [OF m that] by (auto simp: busy_def)
  qed
  then show ?thesis
    using w(2) by auto
qed

text \<open>Entering a call changes nothing that the invariant speaks of.\<close>

lemma enter_inv:
  assumes inv: "rw_inv P s" and t: "t \<in> P"
    and pc: "rs_pc s t = RIdle \<and> pc' = RLockMutex k \<or> rs_pc s t = RHeld k \<and> pc' = ULockMutex k"
  shows "rw_inv P (s\<lparr>rs_pc := (rs_pc s)(t := pc')\<rparr>)"
proof -
  obtain xs where i: "mutex_part P s" "count_part P s" "sleep_part P s xs"
    using inv by (auto simp: rw_inv_def)
  have same: "holders P Q ((rs_pc s)(t := pc')) = holders P Q (rs_pc s)" if "Q pc' = Q (rs_pc s t)" for Q
    using that t by (auto simp: holders_def)
  have "holders P holds_mutex ((rs_pc s)(t := pc')) = holders P holds_mutex (rs_pc s)"
    "holders P holds_cond ((rs_pc s)(t := pc')) = holders P holds_cond (rs_pc s)"
    "\<And>k'. holders P (inside k') ((rs_pc s)(t := pc')) = holders P (inside k') (rs_pc s)"
    "holders P about_to_sleep ((rs_pc s)(t := pc')) = holders P about_to_sleep (rs_pc s)"
    "holders P (\<lambda>c. c = UBroadcast) ((rs_pc s)(t := pc')) = holders P (\<lambda>c. c = UBroadcast) (rs_pc s)"
    by (rule same; use pc in auto)+
  moreover have "pc' \<noteq> RFailed" "\<not> sleeps pc'" "\<not> sleeps (rs_pc s t)"
    using pc by auto
  ultimately have "mutex_part P (s\<lparr>rs_pc := (rs_pc s)(t := pc')\<rparr>)"
    "count_part P (s\<lparr>rs_pc := (rs_pc s)(t := pc')\<rparr>)"
    "sleep_part P (s\<lparr>rs_pc := (rs_pc s)(t := pc')\<rparr>) xs"
    using i by (auto simp: mutex_part_def count_part_def sleep_part_def busy_def)
  then show ?thesis
    by (auto simp: rw_inv_def)
qed

lemma rw_step_inv:
  assumes inv: "rw_inv P s" and fin: "finite P" and st: "rw_step P s s'"
  shows "rw_inv P s'"
proof -
  obtain xs where i: "mutex_part P s" "count_part P s" "sleep_part P s xs"
    using inv by (auto simp: rw_inv_def)
  from st show ?thesis
  proof cases
    case (rdlock t c pc')
    then show ?thesis
      using enter_inv [OF inv rdlock(2), of pc' Reader] by (auto simp: ABT_rwlock_rdlock_def split: if_splits)
  next
    case (wrlock t c pc')
    then show ?thesis
      using enter_inv [OF inv wrlock(2), of pc' Writer] by (auto simp: ABT_rwlock_wrlock_def split: if_splits)
  next
    case (unlock t k pc')
    then show ?thesis
      using enter_inv [OF inv unlock(2), of pc' k] by (auto simp: ABT_rwlock_unlock_def)
  next
    case (run t pc' h' rw')
    then show ?thesis
      using micro_mutex_part [OF i(1) run(2,3)] micro_count_part [OF i(2) run(2) fin run(3)]
        micro_sleep_part [OF i(3) i(1) run(2,3)] by (auto simp: rw_inv_def)
  qed
qed

lemma rw_reachable_inv:
  "rw_reachable P s \<Longrightarrow> finite P \<Longrightarrow> rw_inv P s"
proof (induction rule: rw_reachable.induct)
  case (init addr rw h)
  then show ?case
    by (auto simp: ABT_rwlock_create_def ABTI_cond_init_def rw_inv_def mutex_part_def count_part_def
        sleep_part_def holders_def excl_def intro!: exI [of _ "[]"])
qed (auto intro: rw_step_inv)

section \<open>Consequences\<close>

text \<open>A writer excludes everybody else.\<close>

lemma writer_alone:
  assumes inv: "rw_inv P s" and t: "t \<in> P" "rs_pc s t = RHeld Writer" and u: "u \<in> P" "u \<noteq> t"
    and fin: "finite P"
  shows "rs_pc s u \<noteq> RHeld k"
proof
  assume pc: "rs_pc s u = RHeld k"
  have c: "count_part P s"
    using inv by (simp add: rw_inv_def)
  have w: "rw_write_flag (rs_rw s)" "holders P (inside Writer) (rs_pc s) = {t}"
    using c t excl_held [of "rw_write_flag (rs_rw s)" "holders P (inside Writer) (rs_pc s)" t]
    by (simp_all add: count_part_def in_holders)
  then have "card (holders P (inside Reader) (rs_pc s)) = 0"
    using c by (auto simp: count_part_def)
  then have "holders P (inside Reader) (rs_pc s) = {}"
    using fin by (simp add: holders_def)
  moreover have "u \<in> holders P (inside k) (rs_pc s)"
    using u(1) pc by (simp add: in_holders)
  ultimately show False
    using w(2) u(2) by (cases k) auto
qed

lemma rw_never_fails:
  assumes inv: "rw_inv P s" and t: "t \<in> P" and fin: "finite P"
  shows "rw_micro t (rs_pc s t) (rs_heap s) (rs_rw s) \<noteq> Fails"
proof -
  obtain xs where i: "mutex_part P s" "count_part P s" "sleep_part P s xs"
    using inv by (auto simp: rw_inv_def)
  have rep: "wl_rep {} (rs_heap s) (c_waitlist (rw_cond (rs_rw s))) xs"
    using i(3) by (simp add: sleep_part_def)
  show ?thesis
  proof (cases "rs_pc s t")
    case (RCondEnqueue k)
    then have "t \<notin> set xs"
      using i(3) by (auto simp: sleep_part_def)
    then show ?thesis
      using wait_rep [OF rep, of t] RCondEnqueue by auto
  next
    case UBroadcast
    then show ?thesis
      using broadcast_rep [OF rep] by (auto simp: ABTI_cond_broadcast_def)
  next
    case (UBody k)
    show ?thesis
    proof (cases k)
      case Writer
      then have "t \<in> holders P (inside Writer) (rs_pc s)"
        using UBody t by (simp add: in_holders)
      then show ?thesis
        using i(2) UBody excl_held by (fastforce simp: count_part_def)
    next
      case Reader
      then have "t \<in> holders P (inside Reader) (rs_pc s)" "finite (holders P (inside Reader) (rs_pc s))"
        using UBody t fin by (simp_all add: in_holders holders_def)
      then have "rw_reader_count (rs_rw s) \<noteq> 0"
        using i(2) by (auto simp: count_part_def)
      then show ?thesis
        using UBody by simp
    qed
  qed (use i(1) in \<open>auto simp: mutex_part_def split: option.splits\<close>)
qed

definition rw_can_run :: "rw_sys \<Rightarrow> thread_ptr \<Rightarrow> bool" where
  "rw_can_run s t = (case rw_micro t (rs_pc s t) (rs_heap s) (rs_rw s) of Moves _ \<Rightarrow> True | _ \<Rightarrow> False)"

lemma rw_can_runI:
  assumes "rw_inv P s" "t \<in> P" "finite P" "rw_micro t (rs_pc s t) (rs_heap s) (rs_rw s) \<noteq> Spins"
  shows "rw_can_run s t"
  using rw_never_fails [OF assms(1-3)] assms(4) by (auto simp: rw_can_run_def split: micro.splits)

text \<open>If nobody holds the lock and somebody is inside a call, somebody there can act.\<close>

lemma rw_progress:
  assumes inv: "rw_inv P s" and fin: "finite P" and nh: "\<forall>t \<in> P. \<forall>k. rs_pc s t \<noteq> RHeld k"
    and ni: "t0 \<in> P" "rs_pc s t0 \<noteq> RIdle"
  shows "\<exists>t \<in> P. rw_can_run s t"
proof -
  obtain xs where i: "mutex_part P s" "count_part P s" "sleep_part P s xs"
    using inv by (auto simp: rw_inv_def)
  have clock: "rw_cond_lock (rs_rw s) \<Longrightarrow> \<exists>t \<in> P. holds_cond (rs_pc s t)"
    using i(1) held_by [of P holds_cond] by (auto simp: mutex_part_def)
  have mlock: "rw_locked (rs_rw s) \<Longrightarrow> \<exists>t \<in> P. holds_mutex (rs_pc s t)"
    using i(1) held_by [of P holds_mutex] by (auto simp: mutex_part_def)
  show ?thesis
  proof (cases "rw_cond_lock (rs_rw s)")
    case True
    then obtain t where t: "t \<in> P" "holds_cond (rs_pc s t)"
      using clock by blast
    then show ?thesis
      by (intro bexI [of _ t] rw_can_runI [OF inv t(1) fin])
         (cases "rs_pc s t"; auto split: option.splits)+
  next
    case nc: False
    show ?thesis
    proof (cases "rw_locked (rs_rw s)")
      case True
      then obtain t where t: "t \<in> P" "holds_mutex (rs_pc s t)"
        using mlock by blast
      then show ?thesis
        using nc
        by (intro bexI [of _ t] rw_can_runI [OF inv t(1) fin])
           (cases "rs_pc s t"; auto split: option.splits)+
    next
      case nm: False
      have runs: "rw_can_run s u" if "u \<in> P" "\<not> sleeps (rs_pc s u)" "rs_pc s u \<noteq> RIdle" for u
        by (rule rw_can_runI [OF inv that(1) fin])
           (use that nc nm nh in \<open>cases "rs_pc s u"; auto split: option.splits\<close>)
      show ?thesis
      proof (cases "sleeps (rs_pc s t0) \<and> \<not> wl_ready (rs_heap s) t0")
        case False
        have "rw_can_run s t0"
        proof (cases "sleeps (rs_pc s t0)")
          case True
          then show ?thesis
            using False by (intro rw_can_runI [OF inv ni(1) fin]) (cases "rs_pc s t0"; auto)
        qed (use runs ni in blast)
        then show ?thesis
          using ni(1) by blast
      next
        case True
        then have "busy P (rs_rw s) (rs_pc s)"
          using i(3) ni(1) by (auto simp: sleep_part_def)
        moreover have "holders P (inside Reader) (rs_pc s) \<noteq> {}" if "rw_reader_count (rs_rw s) \<noteq> 0"
          using that i(2) by (auto simp: count_part_def)
        moreover have "holders P (inside Writer) (rs_pc s) \<noteq> {}" if "rw_write_flag (rs_rw s)"
          using that i(2) by (auto simp: count_part_def excl_def)
        ultimately obtain t where t: "t \<in> P" "inside Reader (rs_pc s t) \<or> inside Writer (rs_pc s t) \<or> rs_pc s t = UBroadcast"
          unfolding busy_def holders_def by blast
        then have "\<not> sleeps (rs_pc s t)" "rs_pc s t \<noteq> RIdle"
          by (cases "rs_pc s t"; auto)+
        then show ?thesis
          using runs t(1) by blast
      qed
    qed
  qed
qed

end
