(* ===== verification/Eventual.thy ===== *)
theory Eventual
  imports SyncBase
begin

text \<open>
  The eventual (\<^verbatim>\<open>argobots_framework/src/eventual.c\<close>): one value, written once into a buffer
  of the object, and the threads waiting for it. The buffer is a list of bytes, \<open>None\<close> the
  NULL pointer of an eventual without a value. The memory that \<^verbatim>\<open>malloc\<close> returns for it is an
  argument of the creation, with any content.
\<close>

record eventual =
  e_ready :: bool
  e_nbytes :: nat
  e_value :: "8 word list option"
  e_waitlist :: waitlist

section \<open>Operations\<close>

definition ABT_eventual_create ::
    "bool \<Rightarrow> 8 word list option \<Rightarrow> int \<Rightarrow> abt_errno \<times> eventual option" where
  "ABT_eventual_create malloc_ok buffer nbytes =
     (if nbytes < 0 then (ABT_ERR_INV_ARG, None)
      else if \<not> malloc_ok then (ABT_ERR_MEM, None)
      else if nat nbytes = 0
      then (ABT_SUCCESS, Some \<lparr>e_ready = False, e_nbytes = 0, e_value = None,
                               e_waitlist = ABTI_waitlist_init\<rparr>)
      else case buffer of
             None \<Rightarrow> (ABT_ERR_MEM, None)
           | Some bs \<Rightarrow> (ABT_SUCCESS, Some \<lparr>e_ready = False, e_nbytes = nat nbytes,
                          e_value = Some bs, e_waitlist = ABTI_waitlist_init\<rparr>))"

definition ABT_eventual_free :: "eventual option \<Rightarrow> abt_errno \<times> eventual option" where
  "ABT_eventual_free eventual =
     (case eventual of None \<Rightarrow> (ABT_ERR_INV_EVENTUAL, None) | Some e \<Rightarrow> (ABT_SUCCESS, None))"

text \<open>
  A caller that blocks stores the value pointer only after it was woken; the value it returns
  is then the one of \<open>eventual_wait_end\<close>.
\<close>

definition ABT_eventual_wait ::
    "caller \<Rightarrow> thread_ptr \<Rightarrow> eventual option \<Rightarrow> wait_heap
     \<Rightarrow> (outcome \<times> 8 word list option \<times> wait_heap \<times> eventual option) option" where
  "ABT_eventual_wait c self eventual h =
     (case eventual of
        None \<Rightarrow> Some (Returns ABT_ERR_INV_EVENTUAL, None, h, None)
      | Some e \<Rightarrow>
          if \<not> may_block c then Some (Returns ABT_ERR_EVENTUAL, None, h, Some e)
          else if \<not> e_ready e then do {
            (h', w') \<leftarrow> ABTI_waitlist_wait self (e_waitlist e) h;
            Some (Blocks, None, h', Some (e\<lparr>e_waitlist := w'\<rparr>))
          }
          else Some (Returns ABT_SUCCESS, e_value e, h, Some e))"

definition eventual_wait_end :: "eventual \<Rightarrow> abt_errno \<times> 8 word list option" where
  "eventual_wait_end e = (ABT_SUCCESS, e_value e)"

definition ABT_eventual_test ::
    "eventual option \<Rightarrow> abt_errno \<times> bool \<times> 8 word list option" where
  "ABT_eventual_test eventual =
     (case eventual of
        None \<Rightarrow> (ABT_ERR_INV_EVENTUAL, False, None)
      | Some e \<Rightarrow> if e_ready e then (ABT_SUCCESS, True, e_value e) else (ABT_SUCCESS, False, None))"

text \<open>\<^verbatim>\<open>memcpy\<close> of \<open>n\<close> bytes; reading or writing past the end of a block is undefined.\<close>

definition memcpy :: "8 word list \<Rightarrow> 8 word list \<Rightarrow> nat \<Rightarrow> 8 word list option" where
  "memcpy dst src n =
     (if n \<le> length dst \<and> n \<le> length src then Some (take n src @ drop n dst) else None)"

definition ABT_eventual_set ::
    "eventual option \<Rightarrow> 8 word list \<Rightarrow> int \<Rightarrow> wait_heap
     \<Rightarrow> (abt_errno \<times> thread_ptr list \<times> wait_heap \<times> eventual option) option" where
  "ABT_eventual_set eventual val nbytes h =
     (case eventual of
        None \<Rightarrow> Some (ABT_ERR_INV_EVENTUAL, [], h, None)
      | Some e \<Rightarrow>
          if nbytes < 0 then Some (ABT_ERR_INV_ARG, [], h, Some e)
          else if \<not> nat nbytes \<le> e_nbytes e then Some (ABT_ERR_INV_EVENTUAL, [], h, Some e)
          else if \<not> e_ready e then do {
            v \<leftarrow> (case e_value e of
                    None \<Rightarrow> Some None
                  | Some buf \<Rightarrow> map_option Some (memcpy buf val (nat nbytes)));
            (woken, _, h', w') \<leftarrow> ABTI_waitlist_broadcast (e_waitlist e) h;
            Some (ABT_SUCCESS, woken, h', Some (e\<lparr>e_value := v, e_ready := True, e_waitlist := w'\<rparr>))
          }
          else Some (ABT_ERR_EVENTUAL, [], h, Some e))"

definition ABT_eventual_reset :: "eventual option \<Rightarrow> abt_errno \<times> eventual option" where
  "ABT_eventual_reset eventual =
     (case eventual of
        None \<Rightarrow> (ABT_ERR_INV_EVENTUAL, None)
      | Some e \<Rightarrow> (ABT_SUCCESS, Some (e\<lparr>e_ready := False\<rparr>)))"

section \<open>Invariant and behaviour\<close>

text \<open>A ready eventual has no waiters, and its buffer has the size it was created with.\<close>

definition buffer_ok :: "eventual \<Rightarrow> bool" where
  "buffer_ok e \<longleftrightarrow>
     (case e_value e of None \<Rightarrow> e_nbytes e = 0 | Some buf \<Rightarrow> length buf = e_nbytes e \<and> 0 < e_nbytes e)"

definition eventual_rep :: "wait_heap \<Rightarrow> eventual \<Rightarrow> thread_ptr list \<Rightarrow> bool" where
  "eventual_rep h e xs \<longleftrightarrow> wl_rep {} h (e_waitlist e) xs \<and> (e_ready e \<longrightarrow> xs = []) \<and> buffer_ok e"

lemma buffer_ok_update [simp]:
  "buffer_ok (e\<lparr>e_waitlist := w\<rparr>) = buffer_ok e" "buffer_ok (e\<lparr>e_ready := r\<rparr>) = buffer_ok e"
  by (simp_all add: buffer_ok_def split: option.split)

lemma eventual_create_rep:
  assumes "0 \<le> n" "length buf = nat n"
  shows "\<exists>e. ABT_eventual_create True (Some buf) n = (ABT_SUCCESS, Some e) \<and> eventual_rep h e []
    \<and> \<not> e_ready e \<and> e_nbytes e = nat n \<and> e_value e = (if n = 0 then None else Some buf)"
  using assms by (auto simp: ABT_eventual_create_def eventual_rep_def buffer_ok_def)

lemma eventual_wait_rep:
  assumes "eventual_rep h e xs" "t \<notin> set xs" "may_block c" "\<not> e_ready e"
  shows "\<exists>h' e'. ABT_eventual_wait c t (Some e) h = Some (Blocks, None, h', Some e')
    \<and> eventual_rep h' e' (xs @ [t]) \<and> \<not> e_ready e' \<and> e_nbytes e' = e_nbytes e
    \<and> e_value e' = e_value e"
proof -
  have "wl_rep {} h (e_waitlist e) xs"
    using assms(1) by (simp add: eventual_rep_def)
  from wait_rep [OF this assms(2)] show ?thesis
    using assms by (auto simp: ABT_eventual_wait_def eventual_rep_def)
qed

lemma eventual_wait_ready:
  "e_ready e \<Longrightarrow> may_block c
    \<Longrightarrow> ABT_eventual_wait c t (Some e) h = Some (Returns ABT_SUCCESS, e_value e, h, Some e)"
  by (simp add: ABT_eventual_wait_def)

lemma eventual_set_rep:
  assumes "eventual_rep h e xs" "\<not> e_ready e" "length val \<le> e_nbytes e"
  shows "\<exists>h' e'. ABT_eventual_set (Some e) val (int (length val)) h = Some (ABT_SUCCESS, xs, h', Some e')
    \<and> eventual_rep h' e' [] \<and> e_ready e' \<and> e_nbytes e' = e_nbytes e
    \<and> e_value e' = map_option (\<lambda>buf. val @ drop (length val) buf) (e_value e)
    \<and> (\<forall>x \<in> set xs. wl_ready h' x)"
proof -
  have w: "wl_rep {} h (e_waitlist e) xs" and ok: "buffer_ok e"
    using assms(1) by (simp_all add: eventual_rep_def)
  show ?thesis
  proof (cases "e_value e")
    case None
    then show ?thesis
      using broadcast_rep [OF w] assms(2,3) ok
      by (auto simp: ABT_eventual_set_def eventual_rep_def buffer_ok_def)
  next
    case (Some buf)
    then show ?thesis
      using broadcast_rep [OF w] assms(2,3) ok
      by (auto simp: ABT_eventual_set_def eventual_rep_def buffer_ok_def memcpy_def)
  qed
qed

text \<open>A second set is refused and leaves the first value in place.\<close>

lemma eventual_set_twice:
  "e_ready e \<Longrightarrow> 0 \<le> n \<Longrightarrow> nat n \<le> e_nbytes e
    \<Longrightarrow> ABT_eventual_set (Some e) val n h = Some (ABT_ERR_EVENTUAL, [], h, Some e)"
  by (simp add: ABT_eventual_set_def)

section \<open>As a one-shot object\<close>

definition ev_block :: "thread_ptr \<Rightarrow> wait_heap \<times> eventual \<Rightarrow> (wait_heap \<times> eventual) option" where
  "ev_block t s =
     (case ABT_eventual_wait Yieldable t (Some (snd s)) (fst s) of
        Some (Blocks, _, h', Some e') \<Rightarrow> Some (h', e') | _ \<Rightarrow> None)"

definition ev_set ::
    "8 word list \<Rightarrow> wait_heap \<times> eventual \<Rightarrow> (thread_ptr list \<times> wait_heap \<times> eventual) option" where
  "ev_set val s =
     (case ABT_eventual_set (Some (snd s)) val (int (length val)) (fst s) of
        Some (ABT_SUCCESS, woken, h', Some e') \<Rightarrow> Some (woken, h', e') | _ \<Rightarrow> None)"

text \<open>Set with \<open>val\<close> on the buffer \<open>v\<close>: what everybody reads afterwards.\<close>

definition written :: "8 word list \<Rightarrow> 8 word list option \<Rightarrow> 8 word list option" where
  "written val v = map_option (\<lambda>buf. val @ drop (length val) buf) v"

definition unset :: "8 word list option \<Rightarrow> 8 word list \<Rightarrow> wait_heap \<times> eventual \<Rightarrow> thread_ptr list \<Rightarrow> bool" where
  "unset v val s xs \<longleftrightarrow> eventual_rep (fst s) (snd s) xs \<and> \<not> e_ready (snd s) \<and>
     length val \<le> e_nbytes (snd s) \<and> e_value (snd s) = v"

interpretation ev: one_shot "unset v val" ev_block "ev_set val"
  "\<lambda>s. e_ready (snd s) \<and> e_value (snd s) = written val v"
  "\<lambda>t s. ABT_eventual_wait Yieldable t (Some (snd s)) (fst s)
           = Some (Returns ABT_SUCCESS, written val v, fst s, Some (snd s))"
  for v val
proof unfold_locales
  fix s xs t
  assume a: "unset v val s xs" and t: "t \<notin> set xs"
  show "\<exists>s'. ev_block t s = Some s' \<and> unset v val s' (xs @ [t])"
    using eventual_wait_rep [of "fst s" "snd s" xs t Yieldable] a t by (auto simp: ev_block_def unset_def)
next
  fix s xs
  assume "unset v val s xs"
  then show "\<exists>s'. ev_set val s = Some (xs, s') \<and> e_ready (snd s') \<and> e_value (snd s') = written val v"
    using eventual_set_rep [of "fst s" "snd s" xs val] by (auto simp: ev_set_def unset_def written_def)
qed (simp add: eventual_wait_ready)

text \<open>A second set of an eventual is refused and changes nothing.\<close>

lemma eventual_set_once:
  assumes "eventual_rep h e xs" "\<not> e_ready e" "length val \<le> e_nbytes e" "length val' \<le> e_nbytes e"
  shows "\<exists>h' e'. ABT_eventual_set (Some e) val (int (length val)) h = Some (ABT_SUCCESS, xs, h', Some e') \<and>
    ABT_eventual_set (Some e') val' (int (length val')) h' = Some (ABT_ERR_EVENTUAL, [], h', Some e')"
proof -
  obtain h' e' where s: "ABT_eventual_set (Some e) val (int (length val)) h = Some (ABT_SUCCESS, xs, h', Some e')"
    "e_ready e'" "e_nbytes e' = e_nbytes e"
    using eventual_set_rep [OF assms(1-3)] by blast
  then show ?thesis
    using eventual_set_twice [of e' "int (length val')" val' h'] assms(4) by auto
qed

end
