(* ===== verification/Future.thy ===== *)
theory Future
  imports SyncBase
begin

text \<open>
  The future (\<^verbatim>\<open>argobots_framework/src/futures.c\<close>): an array of compartments filled in the
  order of the calls of \<^verbatim>\<open>ABT_future_set\<close>. The values are \<^verbatim>\<open>void *\<close>, here of any type \<open>'v\<close>.
  The user's callback gets the array itself and may change it, so it is a function on arrays
  and a field of the object; \<open>None\<close> is the NULL callback.
\<close>

record 'v future =
  f_counter :: nat
  f_num_compartments :: nat
  f_array :: "'v list"
  f_callback :: "('v list \<Rightarrow> 'v list) option"
  f_waitlist :: waitlist

section \<open>Operations\<close>

text \<open>The array argument is the memory returned by \<^verbatim>\<open>malloc\<close>; a future of no compartments has none.\<close>

definition ABT_future_create ::
    "bool \<Rightarrow> 'v list option \<Rightarrow> 32 word \<Rightarrow> ('v list \<Rightarrow> 'v list) option
     \<Rightarrow> abt_errno \<times> 'v future option" where
  "ABT_future_create malloc_ok mem num_compartments cb_func =
     (if \<not> malloc_ok then (ABT_ERR_MEM, None)
      else if 0 < unat num_compartments then
        (case mem of
           None \<Rightarrow> (ABT_ERR_MEM, None)
         | Some a \<Rightarrow> (ABT_SUCCESS, Some \<lparr>f_counter = 0, f_num_compartments = unat num_compartments,
             f_array = a, f_callback = cb_func, f_waitlist = ABTI_waitlist_init\<rparr>))
      else (ABT_SUCCESS, Some \<lparr>f_counter = 0, f_num_compartments = 0,
             f_array = [], f_callback = cb_func, f_waitlist = ABTI_waitlist_init\<rparr>))"

definition ABT_future_free :: "'v future option \<Rightarrow> abt_errno \<times> 'v future option" where
  "ABT_future_free future =
     (case future of None \<Rightarrow> (ABT_ERR_INV_FUTURE, None) | Some f \<Rightarrow> (ABT_SUCCESS, None))"

definition ABT_future_wait ::
    "caller \<Rightarrow> thread_ptr \<Rightarrow> 'v future option \<Rightarrow> wait_heap
     \<Rightarrow> (outcome \<times> wait_heap \<times> 'v future option) option" where
  "ABT_future_wait c self future h =
     (case future of
        None \<Rightarrow> Some (Returns ABT_ERR_INV_FUTURE, h, None)
      | Some f \<Rightarrow>
          if \<not> may_block c then Some (Returns ABT_ERR_FUTURE, h, Some f)
          else if f_counter f < f_num_compartments f then do {
            (h', w') \<leftarrow> ABTI_waitlist_wait self (f_waitlist f) h;
            Some (Blocks, h', Some (f\<lparr>f_waitlist := w'\<rparr>))
          }
          else Some (Returns ABT_SUCCESS, h, Some f))"

definition ABT_future_test :: "'v future option \<Rightarrow> abt_errno \<times> bool" where
  "ABT_future_test future =
     (case future of
        None \<Rightarrow> (ABT_ERR_INV_FUTURE, False)
      | Some f \<Rightarrow> (ABT_SUCCESS, f_counter f = f_num_compartments f))"

definition ABT_future_set ::
    "'v future option \<Rightarrow> 'v \<Rightarrow> wait_heap
     \<Rightarrow> (abt_errno \<times> thread_ptr list \<times> wait_heap \<times> 'v future option) option" where
  "ABT_future_set future val h =
     (case future of
        None \<Rightarrow> Some (ABT_ERR_INV_FUTURE, [], h, None)
      | Some f \<Rightarrow>
          if f_num_compartments f \<le> f_counter f then Some (ABT_ERR_FUTURE, [], h, Some f)
          else if \<not> f_counter f < length (f_array f) then None
          else
            (let f1 = f\<lparr>f_array := (f_array f)[f_counter f := val]\<rparr>;
                 counter = f_counter f + 1;
                 f2 = (case f_callback f1 of
                         Some cb \<Rightarrow> if counter = f_num_compartments f
                                    then f1\<lparr>f_array := cb (f_array f1)\<rparr> else f1
                       | None \<Rightarrow> f1);
                 f3 = f2\<lparr>f_counter := counter\<rparr>
             in if counter = f_num_compartments f then do {
                  (woken, _, h', w') \<leftarrow> ABTI_waitlist_broadcast (f_waitlist f3) h;
                  Some (ABT_SUCCESS, woken, h', Some (f3\<lparr>f_waitlist := w'\<rparr>))
                }
                else Some (ABT_SUCCESS, [], h, Some f3)))"

definition ABT_future_reset :: "'v future option \<Rightarrow> abt_errno \<times> 'v future option" where
  "ABT_future_reset future =
     (case future of
        None \<Rightarrow> (ABT_ERR_INV_FUTURE, None)
      | Some f \<Rightarrow> (ABT_SUCCESS, Some (f\<lparr>f_counter := 0\<rparr>)))"

section \<open>Invariant and behaviour\<close>

text \<open>
  \<open>vs\<close> are the values set since the last reset. A future that is ready has no waiters, and as
  long as it is not, the filled compartments hold \<open>vs\<close>.
\<close>

definition future_rep ::
    "wait_heap \<Rightarrow> 'v future \<Rightarrow> 'v list \<Rightarrow> thread_ptr list \<Rightarrow> bool" where
  "future_rep h f vs xs \<longleftrightarrow> wl_rep {} h (f_waitlist f) xs \<and> f_counter f = length vs \<and>
     length vs < f_num_compartments f \<and> length (f_array f) = f_num_compartments f \<and>
     take (length vs) (f_array f) = vs"

definition future_done ::
    "wait_heap \<Rightarrow> 'v future \<Rightarrow> 'v list \<Rightarrow> bool" where
  "future_done h f vs \<longleftrightarrow> wl_rep {} h (f_waitlist f) [] \<and> f_counter f = f_num_compartments f \<and>
     f_array f = (case f_callback f of None \<Rightarrow> vs | Some cb \<Rightarrow> cb vs)"

lemma future_create_rep:
  assumes "n \<noteq> 0" "length mem = unat n"
  shows "\<exists>f. ABT_future_create True (Some mem) n cb = (ABT_SUCCESS, Some f) \<and> future_rep h f [] []
    \<and> f_num_compartments f = unat n \<and> f_callback f = cb"
  using assms by (simp add: ABT_future_create_def future_rep_def unat_gt_0)

lemma future_wait_rep:
  assumes "future_rep h f vs xs" "t \<notin> set xs" "may_block c"
  shows "\<exists>h' f'. ABT_future_wait c t (Some f) h = Some (Blocks, h', Some f')
    \<and> future_rep h' f' vs (xs @ [t])
    \<and> f_num_compartments f' = f_num_compartments f \<and> f_callback f' = f_callback f"
proof -
  have "wl_rep {} h (f_waitlist f) xs"
    using assms(1) by (simp add: future_rep_def)
  from wait_rep [OF this assms(2)] show ?thesis
    using assms by (auto simp: ABT_future_wait_def future_rep_def)
qed

lemma future_wait_done:
  "future_done h f vs \<Longrightarrow> may_block c
    \<Longrightarrow> ABT_future_wait c t (Some f) h = Some (Returns ABT_SUCCESS, h, Some f)"
  by (simp add: ABT_future_wait_def future_done_def)

lemma take_Suc_update: "i < length xs \<Longrightarrow> take (Suc i) (xs[i := v]) = take i xs @ [v]"
  by (simp add: take_Suc_conv_app_nth)

text \<open>A set that does not fill the last compartment wakes nobody.\<close>

lemma future_set_rep:
  assumes "future_rep h f vs xs" "length vs + 1 < f_num_compartments f"
  shows "\<exists>f'. ABT_future_set (Some f) v h = Some (ABT_SUCCESS, [], h, Some f')
    \<and> future_rep h f' (vs @ [v]) xs
    \<and> f_num_compartments f' = f_num_compartments f \<and> f_callback f' = f_callback f"
  using assms
  by (auto simp: ABT_future_set_def future_rep_def Let_def take_Suc_update split: option.splits)

text \<open>The last set runs the callback on the complete array and wakes every waiter.\<close>

lemma future_set_last:
  assumes "future_rep h f vs xs" "length vs + 1 = f_num_compartments f"
  shows "\<exists>h' f'. ABT_future_set (Some f) v h = Some (ABT_SUCCESS, xs, h', Some f')
    \<and> future_done h' f' (vs @ [v])
    \<and> f_num_compartments f' = f_num_compartments f \<and> f_callback f' = f_callback f
    \<and> (\<forall>x \<in> set xs. wl_ready h' x)"
proof -
  have w: "wl_rep {} h (f_waitlist f) xs" and a: "(f_array f)[length vs := v] = vs @ [v]"
    using assms take_Suc_update [of "length vs" "f_array f" v] by (auto simp: future_rep_def)
  then show ?thesis
    using assms broadcast_rep [OF w]
    by (cases "f_callback f") (auto simp: ABT_future_set_def future_rep_def future_done_def Let_def)
qed

lemma future_set_done:
  "future_done h f vs \<Longrightarrow> ABT_future_set (Some f) v h = Some (ABT_ERR_FUTURE, [], h, Some f)"
  by (simp add: ABT_future_set_def future_done_def)

text \<open>Setting \<open>vs\<close> one after another.\<close>

fun future_sets ::
    "'v list \<Rightarrow> wait_heap \<times> 'v future \<Rightarrow> (thread_ptr list \<times> wait_heap \<times> 'v future) option" where
  "future_sets [] s = Some ([], s)"
| "future_sets (v # vs) s =
     (case ABT_future_set (Some (snd s)) v (fst s) of
        Some (ABT_SUCCESS, woken, h', Some f') \<Rightarrow>
          map_option (\<lambda>(woken', s'). (woken @ woken', s')) (future_sets vs (h', f'))
      | _ \<Rightarrow> None)"

lemma future_sets_complete:
  assumes "future_rep h f us xs" "length us + length vs = f_num_compartments f"
  shows "\<exists>h' f'. future_sets vs (h, f) = Some (xs, h', f') \<and> future_done h' f' (us @ vs)
    \<and> f_num_compartments f' = f_num_compartments f \<and> f_callback f' = f_callback f
    \<and> (\<forall>x \<in> set xs. wl_ready h' x)"
  using assms
proof (induction vs arbitrary: f us)
  case Nil
  then show ?case
    by (simp add: future_rep_def)
next
  case (Cons v vs)
  show ?case
  proof (cases "vs = []")
    case True
    then show ?thesis
      using future_set_last [OF Cons.prems(1), of v] Cons.prems(2) by auto
  next
    case False
    then have "length us + 1 < f_num_compartments f"
      using Cons.prems(2) by (cases vs) auto
    from future_set_rep [OF Cons.prems(1) this, of v] obtain f' where
      "ABT_future_set (Some f) v h = Some (ABT_SUCCESS, [], h, Some f')"
      "future_rep h f' (us @ [v]) xs"
      "f_num_compartments f' = f_num_compartments f" "f_callback f' = f_callback f"
      by blast
    then show ?thesis
      using Cons.IH [of f' "us @ [v]"] Cons.prems(2) by auto
  qed
qed

section \<open>As a one-shot object\<close>

definition fut_block :: "thread_ptr \<Rightarrow> wait_heap \<times> 'v future \<Rightarrow> (wait_heap \<times> 'v future) option" where
  "fut_block t s =
     (case ABT_future_wait Yieldable t (Some (snd s)) (fst s) of
        Some (Blocks, h', Some f') \<Rightarrow> Some (h', f') | _ \<Rightarrow> None)"

text \<open>A future nothing has been set on yet that will be filled by \<open>vs\<close>, with the callback \<open>cb\<close>.\<close>

definition pending ::
    "'v list \<Rightarrow> ('v list \<Rightarrow> 'v list) option \<Rightarrow> wait_heap \<times> 'v future \<Rightarrow> thread_ptr list \<Rightarrow> bool" where
  "pending vs cb s xs \<longleftrightarrow> future_rep (fst s) (snd s) [] xs \<and>
     length vs = f_num_compartments (snd s) \<and> f_callback (snd s) = cb"

interpretation fut: one_shot "pending vs cb" fut_block "future_sets vs"
  "\<lambda>s. future_done (fst s) (snd s) vs \<and> f_callback (snd s) = cb"
  "\<lambda>t s. ABT_future_wait Yieldable t (Some (snd s)) (fst s) = Some (Returns ABT_SUCCESS, fst s, Some (snd s))"
  for vs :: "'v list" and cb
proof unfold_locales
  fix s :: "wait_heap \<times> 'v future" and xs t
  assume a: "pending vs cb s xs" and t: "t \<notin> set xs"
  show "\<exists>s'. fut_block t s = Some s' \<and> pending vs cb s' (xs @ [t])"
    using future_wait_rep [of "fst s" "snd s" "[]" xs t Yieldable] a t
    by (auto simp: fut_block_def pending_def)
next
  fix s :: "wait_heap \<times> 'v future" and xs
  assume "pending vs cb s xs"
  then show "\<exists>s'. future_sets vs s = Some (xs, s') \<and> future_done (fst s') (snd s') vs \<and> f_callback (snd s') = cb"
    using future_sets_complete [of "fst s" "snd s" "[]" xs vs] by (auto simp: pending_def)
qed (auto simp: future_wait_done)

end
