(* ===== verification/ThreadQueue.thy ===== *)
theory ThreadQueue
  imports Prelude
begin

text \<open>
  The intrusive doubly linked queue of work units that every built-in pool holds
  (\<^verbatim>\<open>argobots_framework/src/pool/thread_queue.h\<close>). Work units are addresses; the fields of
  \<open>ABTI_thread\<close> that the queue writes are the store \<open>thread_heap\<close>. The operations are
  translated assignment by assignment; a read through a NULL pointer makes the result \<open>None\<close>.
  \<open>tq_rep h q xs\<close> says that \<open>q\<close> represents the list \<open>xs\<close>, and each operation is shown to
  return and to act on \<open>xs\<close> as the list operation of its name, leaving every cell outside
  the queue unchanged.
\<close>

section \<open>State\<close>

record thread_heap =
  p_prev :: "thread_ptr \<Rightarrow> thread_ptr option"
  p_next :: "thread_ptr \<Rightarrow> thread_ptr option"
  is_in_pool :: "thread_ptr \<Rightarrow> bool"

record thread_queue =
  num_threads :: nat
  q_head :: "thread_ptr option"
  q_tail :: "thread_ptr option"
  q_is_empty :: bool

definition set_prev :: "thread_ptr \<Rightarrow> thread_ptr option \<Rightarrow> thread_heap \<Rightarrow> thread_heap" where
  "set_prev t v h = h\<lparr>p_prev := (p_prev h)(t := v)\<rparr>"

definition set_next :: "thread_ptr \<Rightarrow> thread_ptr option \<Rightarrow> thread_heap \<Rightarrow> thread_heap" where
  "set_next t v h = h\<lparr>p_next := (p_next h)(t := v)\<rparr>"

definition set_in_pool :: "thread_ptr \<Rightarrow> bool \<Rightarrow> thread_heap \<Rightarrow> thread_heap" where
  "set_in_pool t v h = h\<lparr>is_in_pool := (is_in_pool h)(t := v)\<rparr>"

lemma set_cell_simps [cell_simps, simp]:
  "p_prev (set_prev t v h) = (p_prev h)(t := v)"
  "p_next (set_prev t v h) = p_next h"
  "is_in_pool (set_prev t v h) = is_in_pool h"
  "p_prev (set_next t v h) = p_prev h"
  "p_next (set_next t v h) = (p_next h)(t := v)"
  "is_in_pool (set_next t v h) = is_in_pool h"
  "p_prev (set_in_pool t b h) = p_prev h"
  "p_next (set_in_pool t b h) = p_next h"
  "is_in_pool (set_in_pool t b h) = (is_in_pool h)(t := b)"
  by (simp_all add: set_prev_def set_next_def set_in_pool_def)

section \<open>Operations\<close>

definition thread_queue_init :: thread_queue where
  "thread_queue_init = \<lparr>num_threads = 0, q_head = None, q_tail = None, q_is_empty = True\<rparr>"

definition thread_queue_is_empty :: "thread_queue \<Rightarrow> bool" where
  "thread_queue_is_empty q = q_is_empty q"

definition thread_queue_get_size :: "thread_queue \<Rightarrow> nat" where
  "thread_queue_get_size q = num_threads q"

definition thread_queue_push_head ::
    "thread_queue \<Rightarrow> thread_ptr \<Rightarrow> thread_heap \<Rightarrow> (thread_heap \<times> thread_queue) option" where
  "thread_queue_push_head q t h =
     (if num_threads q = 0 then
        (let h1 = set_prev t (Some t) h;
             h2 = set_next t (Some t) h1;
             q1 = q\<lparr>q_head := Some t, q_tail := Some t, num_threads := 1, q_is_empty := False\<rparr>
         in Some (set_in_pool t True h2, q1))
      else do {
        p_hd \<leftarrow> q_head q;
        p_tl \<leftarrow> q_tail q;
        let h1 = set_next p_tl (Some t) h;
        let h2 = set_prev p_hd (Some t) h1;
        let h3 = set_prev t (Some p_tl) h2;
        let h4 = set_next t (Some p_hd) h3;
        let q1 = q\<lparr>q_head := Some t, num_threads := num_threads q + 1\<rparr>;
        Some (set_in_pool t True h4, q1)
      })"

definition thread_queue_push_tail ::
    "thread_queue \<Rightarrow> thread_ptr \<Rightarrow> thread_heap \<Rightarrow> (thread_heap \<times> thread_queue) option" where
  "thread_queue_push_tail q t h =
     (if num_threads q = 0 then
        (let h1 = set_prev t (Some t) h;
             h2 = set_next t (Some t) h1;
             q1 = q\<lparr>q_head := Some t, q_tail := Some t, num_threads := 1, q_is_empty := False\<rparr>
         in Some (set_in_pool t True h2, q1))
      else do {
        p_hd \<leftarrow> q_head q;
        p_tl \<leftarrow> q_tail q;
        let h1 = set_next p_tl (Some t) h;
        let h2 = set_prev p_hd (Some t) h1;
        let h3 = set_prev t (Some p_tl) h2;
        let h4 = set_next t (Some p_hd) h3;
        let q1 = q\<lparr>q_tail := Some t, num_threads := num_threads q + 1\<rparr>;
        Some (set_in_pool t True h4, q1)
      })"

text \<open>
  The two statements that take a cell out of the ring, shared by the two pops and the removal.
  Both reads of the second statement come after the write of the first.
\<close>

definition unlink :: "thread_ptr \<Rightarrow> thread_heap \<Rightarrow> thread_heap option" where
  "unlink t h = do {
     p \<leftarrow> p_prev h t;
     let h1 = set_next p (p_next h t) h;
     n \<leftarrow> p_next h1 t;
     Some (set_prev n (p_prev h1 t) h1)
   }"

definition thread_queue_pop_head ::
    "thread_queue \<Rightarrow> thread_heap \<Rightarrow> (thread_ptr option \<times> thread_heap \<times> thread_queue) option" where
  "thread_queue_pop_head q h =
     (if num_threads q > 0 then do {
        t \<leftarrow> q_head q;
        (h1, q1) \<leftarrow>
          (if num_threads q = 1 then
             Some (h, q\<lparr>q_head := None, q_tail := None, num_threads := 0, q_is_empty := True\<rparr>)
           else do {
             h1 \<leftarrow> unlink t h;
             Some (h1, q\<lparr>q_head := p_next h1 t, num_threads := num_threads q - 1\<rparr>)
           });
        let h2 = set_next t None (set_prev t None h1);
        Some (Some t, set_in_pool t False h2, q1)
      } else Some (None, h, q))"

definition thread_queue_pop_tail ::
    "thread_queue \<Rightarrow> thread_heap \<Rightarrow> (thread_ptr option \<times> thread_heap \<times> thread_queue) option" where
  "thread_queue_pop_tail q h =
     (if num_threads q > 0 then do {
        t \<leftarrow> q_tail q;
        (h1, q1) \<leftarrow>
          (if num_threads q = 1 then
             Some (h, q\<lparr>q_head := None, q_tail := None, num_threads := 0, q_is_empty := True\<rparr>)
           else do {
             h1 \<leftarrow> unlink t h;
             Some (h1, q\<lparr>q_tail := p_prev h1 t, num_threads := num_threads q - 1\<rparr>)
           });
        let h2 = set_next t None (set_prev t None h1);
        Some (Some t, set_in_pool t False h2, q1)
      } else Some (None, h, q))"

definition thread_queue_remove ::
    "thread_queue \<Rightarrow> thread_ptr \<Rightarrow> thread_heap \<Rightarrow> (abt_errno \<times> thread_heap \<times> thread_queue) option" where
  "thread_queue_remove q t h =
     (if num_threads q = 0 then Some (ABT_ERR_POOL, h, q)
      else if \<not> is_in_pool h t then Some (ABT_ERR_POOL, h, q)
      else do {
        (h1, q1) \<leftarrow>
          (if num_threads q = 1 then
             Some (h, q\<lparr>q_head := None, q_tail := None, num_threads := 0, q_is_empty := True\<rparr>)
           else do {
             h1 \<leftarrow> unlink t h;
             let q1 = (if Some t = q_head q then q\<lparr>q_head := p_next h1 t\<rparr>
                       else if Some t = q_tail q then q\<lparr>q_tail := p_prev h1 t\<rparr>
                       else q);
             Some (h1, q1\<lparr>num_threads := num_threads q1 - 1\<rparr>)
           });
        let h2 = set_in_pool t False h1;
        Some (ABT_SUCCESS, set_next t None (set_prev t None h2), q1)
      })"

text \<open>\<^verbatim>\<open>thread_queue_print_all\<close> hands the units to the callback in this order.\<close>

fun print_from :: "nat \<Rightarrow> thread_ptr option \<Rightarrow> thread_heap \<Rightarrow> thread_ptr list option" where
  "print_from 0 p h = Some []"
| "print_from (Suc n) p h = do {
     t \<leftarrow> p;
     ts \<leftarrow> print_from n (p_next h t) h;
     Some (t # ts)
   }"

definition thread_queue_print_all :: "thread_queue \<Rightarrow> thread_heap \<Rightarrow> thread_ptr list option" where
  "thread_queue_print_all q h = print_from (num_threads q) (q_head q) h"

section \<open>Representation\<close>

definition linked :: "thread_heap \<Rightarrow> thread_ptr \<Rightarrow> thread_ptr \<Rightarrow> bool" where
  "linked h a b \<longleftrightarrow> p_next h a = Some b \<and> p_prev h b = Some a"

definition tq_rep :: "thread_heap \<Rightarrow> thread_queue \<Rightarrow> thread_ptr list \<Rightarrow> bool" where
  "tq_rep h q xs \<longleftrightarrow>
     num_threads q = length xs \<and> q_is_empty q = (xs = []) \<and>
     q_head q = (if xs = [] then None else Some (hd xs)) \<and>
     q_tail q = (if xs = [] then None else Some (last xs)) \<and>
     distinct xs \<and> circ (linked h) xs \<and> (\<forall>x \<in> set xs. is_in_pool h x)"

definition heap_eq_outside :: "thread_ptr set \<Rightarrow> thread_heap \<Rightarrow> thread_heap \<Rightarrow> bool" where
  "heap_eq_outside A h h' \<longleftrightarrow>
     (\<forall>x. x \<notin> A \<longrightarrow> p_prev h' x = p_prev h x \<and> p_next h' x = p_next h x \<and> is_in_pool h' x = is_in_pool h x)"

lemma tq_rep_frame [frame_rules]:
  "tq_rep h q ys \<Longrightarrow> heap_eq_outside A h h' \<Longrightarrow> A \<inter> set ys = {} \<Longrightarrow> tq_rep h' q ys"
  unfolding tq_rep_def
  by (auto simp: heap_eq_outside_def disjoint_iff)
     (rule circ_mono_on [of "linked h"]; auto simp: linked_def)+

lemma tq_rep_empty [simp]: "tq_rep h thread_queue_init []"
  by (simp add: tq_rep_def thread_queue_init_def)

lemma tq_repD:
  assumes "tq_rep h q xs"
  shows "num_threads q = length xs" "q_is_empty q \<longleftrightarrow> xs = []" "distinct xs"
    "xs \<noteq> [] \<Longrightarrow> q_head q = Some (hd xs)" "xs \<noteq> [] \<Longrightarrow> q_tail q = Some (last xs)"
    "x \<in> set xs \<Longrightarrow> is_in_pool h x"
  using assms by (auto simp: tq_rep_def)

text \<open>inserting a cell between the last and the first\<close>

definition ring_insert :: "thread_ptr \<Rightarrow> thread_ptr \<Rightarrow> thread_ptr \<Rightarrow> thread_heap \<Rightarrow> thread_heap" where
  "ring_insert t a b h =
     set_in_pool t True (set_next t (Some a) (set_prev t (Some b) (set_prev a (Some t) (set_next b (Some t) h))))"

lemma ring_insert_linked:
  assumes "circ (linked h) xs" "distinct xs" "xs \<noteq> []" "t \<notin> set xs"
  shows "circ (linked (ring_insert t (hd xs) (last xs) h)) (xs @ [t])"
proof -
  let ?h = "ring_insert t (hd xs) (last xs) h"
  have succ: "successively (linked h) xs"
    using assms by (auto simp: circ_def)
  have "successively (linked ?h) xs"
  proof (rule successively_distinct_mono [OF succ assms(2)])
    fix a b assume ab: "a \<in> set (butlast xs)" "b \<in> set (tl xs)" "linked h a b"
    then have "a \<noteq> last xs" "b \<noteq> hd xs"
      using last_in_butlast_distinct hd_in_tl_distinct assms(2,3) by metis+
    moreover have "a \<noteq> t" "b \<noteq> t"
      using ab assms(4) by (auto dest: in_set_butlastD list.set_sel(2) [OF assms(3)])
    ultimately show "linked ?h a b"
      using ab(3) by (auto simp: linked_def ring_insert_def)
  qed
  moreover have "linked ?h (last xs) t" "linked ?h t (hd xs)"
    using assms(3,4) by (auto simp: linked_def ring_insert_def)
  ultimately show ?thesis
    using assms(3) by (simp add: circ_snoc)
qed

lemma ring_insert_in_pool:
  "is_in_pool (ring_insert t a b h) = (is_in_pool h)(t := True)"
  by (simp add: ring_insert_def)

lemma ring_insert_frame:
  "a \<in> A \<Longrightarrow> b \<in> A \<Longrightarrow> heap_eq_outside (insert t A) h (ring_insert t a b h)"
  by (auto simp: heap_eq_outside_def ring_insert_def)

lemma push_tail_rep:
  assumes "tq_rep h q xs" "t \<notin> set xs"
  shows "\<exists>h' q'. thread_queue_push_tail q t h = Some (h', q') \<and> tq_rep h' q' (xs @ [t]) \<and>
    heap_eq_outside (insert t (set xs)) h h'"
proof (cases "xs = []")
  case True
  then show ?thesis
    using assms
    by (auto simp: thread_queue_push_tail_def tq_rep_def linked_def heap_eq_outside_def Let_def)
next
  case False
  let ?h = "ring_insert t (hd xs) (last xs) h"
  have "thread_queue_push_tail q t h
      = Some (?h, q\<lparr>q_tail := Some t, num_threads := num_threads q + 1\<rparr>)"
    using assms False by (auto simp: thread_queue_push_tail_def tq_rep_def ring_insert_def Let_def)
  moreover have "tq_rep ?h (q\<lparr>q_tail := Some t, num_threads := num_threads q + 1\<rparr>) (xs @ [t])"
    using assms False ring_insert_linked [of h xs t]
    by (auto simp: tq_rep_def ring_insert_in_pool)
  ultimately show ?thesis
    using False ring_insert_frame [of "hd xs" "set xs" "last xs" t h] by simp
qed

lemma push_head_rep:
  assumes "tq_rep h q xs" "t \<notin> set xs"
  shows "\<exists>h' q'. thread_queue_push_head q t h = Some (h', q') \<and> tq_rep h' q' (t # xs) \<and>
    heap_eq_outside (insert t (set xs)) h h'"
proof (cases "xs = []")
  case True
  then show ?thesis
    using assms
    by (auto simp: thread_queue_push_head_def tq_rep_def linked_def heap_eq_outside_def Let_def)
next
  case False
  let ?h = "ring_insert t (hd xs) (last xs) h"
  have "thread_queue_push_head q t h
      = Some (?h, q\<lparr>q_head := Some t, num_threads := num_threads q + 1\<rparr>)"
    using assms False by (auto simp: thread_queue_push_head_def tq_rep_def ring_insert_def Let_def)
  moreover have "circ (linked ?h) (t # xs)"
    using assms False ring_insert_linked [of h xs t] circ_rotate [of _ "[t]" xs]
    by (simp add: tq_rep_def)
  then have "tq_rep ?h (q\<lparr>q_head := Some t, num_threads := num_threads q + 1\<rparr>) (t # xs)"
    using assms False by (auto simp: tq_rep_def ring_insert_in_pool)
  ultimately show ?thesis
    using False ring_insert_frame [of "hd xs" "set xs" "last xs" t h] by simp
qed

text \<open>taking a cell out\<close>

lemma unlink_linked:
  assumes "circ (linked h) (t # ys)" "distinct (t # ys)" "ys \<noteq> []"
  shows "\<exists>h'. unlink t h = Some h' \<and> circ (linked h') ys \<and>
    p_next h' t = Some (hd ys) \<and> p_prev h' t = Some (last ys) \<and>
    is_in_pool h' = is_in_pool h \<and> heap_eq_outside (set ys) h h'"
proof -
  let ?h = "set_prev (hd ys) (Some (last ys)) (set_next (last ys) (Some (hd ys)) h)"
  have t: "p_next h t = Some (hd ys)" "p_prev h t = Some (last ys)" "successively (linked h) ys"
    using circ_ConsD [OF assms(1,3)] by (auto simp: linked_def)
  have ne: "t \<noteq> hd ys" "t \<noteq> last ys"
    using assms by auto
  then have "unlink t h = Some ?h"
    using t by (simp add: unlink_def Let_def)
  moreover have "successively (linked ?h) ys"
  proof (rule successively_distinct_mono [OF t(3)])
    show "distinct ys" using assms by simp
    fix a b assume ab: "a \<in> set (butlast ys)" "b \<in> set (tl ys)" "linked h a b"
    then have "a \<noteq> last ys" "b \<noteq> hd ys"
      using last_in_butlast_distinct hd_in_tl_distinct assms(2,3) by (metis distinct.simps(2))+
    then show "linked ?h a b"
      using ab(3) by (auto simp: linked_def)
  qed
  then have "circ (linked ?h) ys"
    by (auto simp: circ_def linked_def)
  ultimately show ?thesis
    using t ne assms(3) by (auto simp: heap_eq_outside_def)
qed


definition clear_cell :: "thread_ptr \<Rightarrow> thread_heap \<Rightarrow> thread_heap" where
  "clear_cell t h = set_in_pool t False (set_next t None (set_prev t None h))"

lemma clear_cell_linked:
  "t \<notin> set ys \<Longrightarrow> circ (linked h) ys \<Longrightarrow> circ (linked (clear_cell t h)) ys"
  by (rule circ_mono_on [of "linked h"]) (auto simp: linked_def clear_cell_def)

lemma clear_cell_simps [simp]:
  "is_in_pool (clear_cell t h) = (is_in_pool h)(t := False)"
  "p_next (clear_cell t h) = (p_next h)(t := None)"
  "p_prev (clear_cell t h) = (p_prev h)(t := None)"
  by (simp_all add: clear_cell_def)

lemma clear_cell_frame:
  "heap_eq_outside A h h' \<Longrightarrow> t \<in> B \<Longrightarrow> A \<subseteq> B \<Longrightarrow> heap_eq_outside B h (clear_cell t h')"
  by (auto simp: heap_eq_outside_def)

lemma heap_eq_outside_refl [simp]: "heap_eq_outside A h h"
  by (simp add: heap_eq_outside_def)

lemma heap_eq_outside_trans [frame_rules]:
  "heap_eq_outside A h h' \<Longrightarrow> heap_eq_outside B h' h'' \<Longrightarrow> A \<subseteq> C \<Longrightarrow> B \<subseteq> C
    \<Longrightarrow> heap_eq_outside C h h''"
  by (simp add: heap_eq_outside_def subset_iff) metis

text \<open>
  A queue from which \<open>t\<close> has been taken represents the remaining cells, whatever of its ends
  the code moved, provided they are the ends of what remains.
\<close>

lemma tq_rep_taken:
  assumes "circ (linked h1) (as @ bs)" "distinct (as @ t # bs)" "is_in_pool h1 = is_in_pool h"
    "\<forall>x \<in> set (as @ t # bs). is_in_pool h x"
    "num_threads q1 = length (as @ bs)" "q_is_empty q1 = (as @ bs = [])"
    "q_head q1 = (if as @ bs = [] then None else Some (hd (as @ bs)))"
    "q_tail q1 = (if as @ bs = [] then None else Some (last (as @ bs)))"
  shows "tq_rep (clear_cell t h1) q1 (as @ bs)"
proof -
  have "circ (linked (clear_cell t h1)) (as @ bs)"
    by (rule clear_cell_linked) (use assms in auto)
  then show ?thesis
    using assms by (auto simp: tq_rep_def)
qed

lemma unlink_middle:
  assumes "circ (linked h) (as @ t # bs)" "distinct (as @ t # bs)" "as @ bs \<noteq> []"
  shows "\<exists>h'. unlink t h = Some h' \<and> circ (linked h') (as @ bs) \<and>
    p_next h' t = Some (hd (bs @ as)) \<and> p_prev h' t = Some (last (bs @ as)) \<and>
    is_in_pool h' = is_in_pool h \<and> heap_eq_outside (set (as @ bs)) h h'"
proof -
  have "circ (linked h) (t # bs @ as)"
    using assms(1) circ_rotate [of _ as "t # bs"] by simp
  then have "\<exists>h'. unlink t h = Some h' \<and> circ (linked h') (bs @ as) \<and>
    p_next h' t = Some (hd (bs @ as)) \<and> p_prev h' t = Some (last (bs @ as)) \<and>
    is_in_pool h' = is_in_pool h \<and> heap_eq_outside (set (bs @ as)) h h'"
    using assms by (intro unlink_linked) auto
  then show ?thesis
    using circ_rotate [of _ bs as] by (auto simp: Un_commute)
qed

lemma pop_head_rep:
  assumes "tq_rep h q (t # xs)"
  shows "\<exists>h' q'. thread_queue_pop_head q h = Some (Some t, h', q') \<and> tq_rep h' q' xs \<and>
    heap_eq_outside (set (t # xs)) h h' \<and> \<not> is_in_pool h' t"
proof (cases "xs = []")
  case True
  then show ?thesis
    using assms by (auto simp: thread_queue_pop_head_def tq_rep_def heap_eq_outside_def Let_def)
next
  case False
  note r = tq_repD [OF assms]
  obtain h1 where h1: "unlink t h = Some h1" "circ (linked h1) xs" "p_next h1 t = Some (hd xs)"
    "is_in_pool h1 = is_in_pool h" "heap_eq_outside (set xs) h h1"
    using unlink_middle [of h "[]" t xs] assms False by (auto simp: tq_rep_def)
  let ?q = "q\<lparr>q_head := Some (hd xs), num_threads := num_threads q - 1\<rparr>"
  have "thread_queue_pop_head q h = Some (Some t, clear_cell t h1, ?q)"
    using h1 False r by (simp add: thread_queue_pop_head_def Let_def clear_cell_def)
  moreover have "tq_rep (clear_cell t h1) ?q ([] @ xs)"
    by (rule tq_rep_taken) (use h1 False r in auto)
  ultimately show ?thesis
    using clear_cell_frame [OF h1(5), of t "set (t # xs)"] by auto
qed

lemma pop_head_empty: "tq_rep h q [] \<Longrightarrow> thread_queue_pop_head q h = Some (None, h, q)"
  by (simp add: thread_queue_pop_head_def tq_rep_def)

lemma pop_tail_rep:
  assumes "tq_rep h q (xs @ [t])"
  shows "\<exists>h' q'. thread_queue_pop_tail q h = Some (Some t, h', q') \<and> tq_rep h' q' xs \<and>
    heap_eq_outside (set (xs @ [t])) h h' \<and> \<not> is_in_pool h' t"
proof (cases "xs = []")
  case True
  then show ?thesis
    using assms by (auto simp: thread_queue_pop_tail_def tq_rep_def heap_eq_outside_def Let_def)
next
  case False
  note r = tq_repD [OF assms]
  obtain h1 where h1: "unlink t h = Some h1" "circ (linked h1) xs" "p_prev h1 t = Some (last xs)"
    "is_in_pool h1 = is_in_pool h" "heap_eq_outside (set xs) h h1"
    using unlink_middle [of h xs t "[]"] assms False by (auto simp: tq_rep_def)
  let ?q = "q\<lparr>q_tail := Some (last xs), num_threads := num_threads q - 1\<rparr>"
  have "thread_queue_pop_tail q h = Some (Some t, clear_cell t h1, ?q)"
    using h1 False r by (simp add: thread_queue_pop_tail_def Let_def clear_cell_def)
  moreover have "tq_rep (clear_cell t h1) ?q (xs @ [])"
    by (rule tq_rep_taken) (use h1 False r in auto)
  ultimately show ?thesis
    using clear_cell_frame [OF h1(5), of t "set (xs @ [t])"] by auto
qed

lemma pop_tail_empty: "tq_rep h q [] \<Longrightarrow> thread_queue_pop_tail q h = Some (None, h, q)"
  by (simp add: thread_queue_pop_tail_def tq_rep_def)

lemma remove_rep:
  assumes "tq_rep h q (as @ t # bs)"
  shows "\<exists>h' q'. thread_queue_remove q t h = Some (ABT_SUCCESS, h', q') \<and> tq_rep h' q' (as @ bs) \<and>
    heap_eq_outside (set (as @ t # bs)) h h' \<and> \<not> is_in_pool h' t"
proof (cases "as @ bs = []")
  case True
  then show ?thesis
    using assms by (auto simp: thread_queue_remove_def tq_rep_def heap_eq_outside_def Let_def)
next
  case False
  note r = tq_repD [OF assms]
  obtain h1 where h1: "unlink t h = Some h1" "circ (linked h1) (as @ bs)"
    "p_next h1 t = Some (hd (bs @ as))" "p_prev h1 t = Some (last (bs @ as))"
    "is_in_pool h1 = is_in_pool h" "heap_eq_outside (set (as @ bs)) h h1"
    using unlink_middle [of h as t bs] assms False by (auto simp: tq_rep_def)
  let ?q1 = "if Some t = q_head q then q\<lparr>q_head := p_next h1 t\<rparr>
             else if Some t = q_tail q then q\<lparr>q_tail := p_prev h1 t\<rparr> else q"
  let ?q = "?q1\<lparr>num_threads := num_threads ?q1 - 1\<rparr>"
  have "thread_queue_remove q t h = Some (ABT_SUCCESS, clear_cell t h1, ?q)"
    using h1 False r by (auto simp: thread_queue_remove_def Let_def clear_cell_def set_prev_def
        set_next_def set_in_pool_def neq_Nil_conv)
  moreover have "q_head ?q = Some (hd (as @ bs))"
    using h1 r False by (cases as) auto
  moreover have "q_tail ?q = Some (last (as @ bs))"
    using h1 r False by (cases as; cases bs rule: rev_cases) auto
  ultimately show ?thesis
    using clear_cell_frame [OF h1(6), of t "set (as @ t # bs)"] h1 r False
      tq_rep_taken [of h1 as bs t h ?q] by (auto simp: subset_insertI)
qed

text \<open>A unit that is in no pool is refused and nothing changes.\<close>

lemma remove_not_in_pool:
  "\<not> is_in_pool h t \<Longrightarrow> thread_queue_remove q t h = Some (ABT_ERR_POOL, h, q)"
  by (simp add: thread_queue_remove_def)

lemma print_from_path:
  "successively (linked h) xs \<Longrightarrow> print_from (length xs) (if xs = [] then None else Some (hd xs)) h = Some xs
    \<or> xs = []"
proof (induction xs)
  case (Cons x xs)
  show ?case
  proof (cases xs)
    case (Cons y ys)
    then show ?thesis
      using Cons.IH Cons.prems by (auto simp: linked_def bind_eq_Some_conv)
  qed simp
qed simp

lemma print_all_rep:
  assumes "tq_rep h q xs"
  shows "thread_queue_print_all q h = Some xs"
  using assms print_from_path [of h xs]
  by (cases "xs = []") (auto simp: thread_queue_print_all_def tq_rep_def circ_def)

text \<open>Removing a work unit takes out exactly it, and it cannot be removed twice.\<close>

lemma queue_remove_unlinks:
  assumes "tq_rep h q (as @ t # bs)"
  shows "\<exists>h' q'. thread_queue_remove q t h = Some (ABT_SUCCESS, h', q') \<and> tq_rep h' q' (as @ bs) \<and>
    thread_queue_print_all q' h' = Some (as @ bs) \<and> thread_queue_remove q' t h' = Some (ABT_ERR_POOL, h', q')"
  using remove_rep [OF assms] print_all_rep remove_not_in_pool by metis

end
