(* ===== verification/PoolBase.thy ===== *)
theory PoolBase
  imports ThreadQueue
begin

text \<open>
  What the built-in pools share: the tag bit that turns a work unit's address into a unit
  handle (\<^verbatim>\<open>include/abti_unit.h\<close>), the spinlock of a pool, the access modes, the loops of the
  \<^verbatim>\<open>push_many\<close> and \<^verbatim>\<open>pop_many\<close> functions, and the interface \<open>unit_store\<close>: a queue whose
  push and pop act on the list it represents by \<open>put\<close> and \<open>take1\<close>. The facts about the loops
  are proved once for every such queue and used by the FIFO and the work-stealing pools
  through interpretations.
\<close>

section \<open>Unit handles\<close>

text \<open>
  A built-in unit is the address of its work unit with the lowest bit set; work units are
  aligned, so the bit is free. The assertions of the code are the \<open>None\<close> results.
\<close>

definition ABTI_unit_is_builtin :: "nat \<Rightarrow> bool" where
  "ABTI_unit_is_builtin u = odd u"

definition ABTI_unit_get_builtin_unit :: "thread_ptr \<Rightarrow> nat option" where
  "ABTI_unit_get_builtin_unit t = (if odd t then None else Some (t + 1))"

definition ABTI_unit_get_thread_from_builtin_unit :: "nat \<Rightarrow> thread_ptr option" where
  "ABTI_unit_get_thread_from_builtin_unit u =
     (if ABTI_unit_is_builtin u then Some (u - 1) else None)"

lemma builtin_unit_roundtrip [simp]:
  "even t \<Longrightarrow> ABTI_unit_get_thread_from_builtin_unit (t + 1) = Some t"
  "even t \<Longrightarrow> ABTI_unit_get_thread_from_builtin_unit (Suc t) = Some t"
  "even t \<Longrightarrow> ABTI_unit_get_builtin_unit t = Some (Suc t)"
  by (simp_all add: ABTI_unit_get_thread_from_builtin_unit_def ABTI_unit_is_builtin_def
      ABTI_unit_get_builtin_unit_def)

section \<open>Access modes and the pool lock\<close>

datatype ABT_pool_access =
  ABT_POOL_ACCESS_PRIV | ABT_POOL_ACCESS_SPSC | ABT_POOL_ACCESS_MPSC
| ABT_POOL_ACCESS_SPMC | ABT_POOL_ACCESS_MPMC | ABT_POOL_ACCESS_other nat

text \<open>Taking a lock that is held spins for as long as the holder keeps it: no result.\<close>

definition ABTD_spinlock_acquire :: "bool \<Rightarrow> bool option" where
  "ABTD_spinlock_acquire locked = (if locked then None else Some True)"

record pool_data =
  pd_mutex :: bool
  pd_queue :: thread_queue

text \<open>
  \<^verbatim>\<open>thread_queue_acquire_spinlock_if_not_empty\<close> as the sequence of values it reads. The
  argument lists what each atomic read returned, in program order; the result is the return
  value of the function (1: found empty, 0: lock taken), \<open>None\<close> while it is still spinning.
\<close>

function spin_try :: "bool list \<Rightarrow> nat option" and spin_inner :: "bool list \<Rightarrow> nat option" where
  "spin_try [] = None"
| "spin_try (failed # os) = (if failed then spin_inner os else Some 0)"
| "spin_inner [] = None"
| "spin_inner (e # os) =
     (if e then Some 1
      else (case os of [] \<Rightarrow> None
            | locked # os' \<Rightarrow> if \<not> locked then spin_try os' else spin_inner os'))"
  by pat_completeness auto
termination
  by (relation "measure (case_sum length length)") auto

definition thread_queue_acquire_spinlock_if_not_empty :: "bool list \<Rightarrow> nat option" where
  "thread_queue_acquire_spinlock_if_not_empty os =
     (case os of [] \<Rightarrow> None | e # os' \<Rightarrow> if e then Some 1 else spin_try os')"

lemma spin_result:
  "spin_try os = Some r \<Longrightarrow> r = 0 \<or> r = 1"
  "spin_inner os = Some r \<Longrightarrow> r = 0 \<or> r = 1"
  by (induction os and os rule: spin_try_spin_inner.induct) (auto split: if_splits list.splits)

text \<open>
  The same function where nobody else touches the pool while it runs: an empty queue is seen
  empty and the lock is left alone, otherwise the lock is taken.
\<close>

definition acquire_if_not_empty :: "pool_data \<Rightarrow> (bool \<times> pool_data) option" where
  "acquire_if_not_empty d =
     (if thread_queue_is_empty (pd_queue d) then Some (False, d)
      else do {
        m \<leftarrow> ABTD_spinlock_acquire (pd_mutex d);
        Some (True, d\<lparr>pd_mutex := m\<rparr>)
      })"

lemma acquire_if_not_empty_quiet:
  assumes "\<not> pd_mutex d"
  shows "acquire_if_not_empty d
    = (case thread_queue_acquire_spinlock_if_not_empty [thread_queue_is_empty (pd_queue d), pd_mutex d] of
         None \<Rightarrow> None | Some r \<Rightarrow> Some (r = 0, if r = 0 then d\<lparr>pd_mutex := True\<rparr> else d))"
  using assms
  by (simp add: acquire_if_not_empty_def thread_queue_acquire_spinlock_if_not_empty_def
      ABTD_spinlock_acquire_def)

section \<open>The loops over several units\<close>

text \<open>The body of the \<^verbatim>\<open>for\<close> loop of the \<^verbatim>\<open>pool_push_many\<close> functions.\<close>

fun push_units ::
    "('q \<Rightarrow> thread_ptr \<Rightarrow> 'h \<Rightarrow> ('h \<times> 'q) option) \<Rightarrow> nat list \<Rightarrow> 'q \<Rightarrow> 'h \<Rightarrow> ('h \<times> 'q) option" where
  "push_units push [] q h = Some (h, q)"
| "push_units push (u # us) q h = do {
     t \<leftarrow> ABTI_unit_get_thread_from_builtin_unit u;
     (h1, q1) \<leftarrow> push q t h;
     push_units push us q1 h1
   }"

text \<open>The \<^verbatim>\<open>for\<close> loop of the \<^verbatim>\<open>pool_pop_many\<close> functions: the threads stored, in order.\<close>

fun pop_units ::
    "('q \<Rightarrow> 'h \<Rightarrow> (thread_ptr option \<times> 'h \<times> 'q) option) \<Rightarrow> nat \<Rightarrow> 'q \<Rightarrow> 'h
      \<Rightarrow> (thread_ptr list \<times> 'h \<times> 'q) option" where
  "pop_units pop 0 q h = Some ([], h, q)"
| "pop_units pop (Suc n) q h = do {
     (p, h1, q1) \<leftarrow> pop q h;
     (case p of
        None \<Rightarrow> Some ([], h1, q1)
      | Some t \<Rightarrow> do {
          (ts, h2, q2) \<leftarrow> pop_units pop n q1 h1;
          Some (t # ts, h2, q2)
        })
   }"

text \<open>The abstract effect of popping up to \<open>n\<close> units.\<close>

fun takes :: "('a list \<Rightarrow> ('a \<times> 'a list) option) \<Rightarrow> nat \<Rightarrow> 'a list \<Rightarrow> 'a list \<times> 'a list" where
  "takes take1 0 xs = ([], xs)"
| "takes take1 (Suc n) xs =
     (case take1 xs of None \<Rightarrow> ([], xs)
      | Some (x, ys) \<Rightarrow> (case takes take1 n ys of (ts, zs) \<Rightarrow> (x # ts, zs)))"

locale unit_store =
  fixes rep :: "'h \<Rightarrow> 'q \<Rightarrow> nat list \<Rightarrow> bool"
    and same :: "nat set \<Rightarrow> 'h \<Rightarrow> 'h \<Rightarrow> bool"
    and push :: "'q \<Rightarrow> nat \<Rightarrow> 'h \<Rightarrow> ('h \<times> 'q) option"
    and pop :: "'q \<Rightarrow> 'h \<Rightarrow> (nat option \<times> 'h \<times> 'q) option"
    and put :: "nat \<Rightarrow> nat list \<Rightarrow> nat list"
    and take1 :: "nat list \<Rightarrow> (nat \<times> nat list) option"
  assumes push_ok: "rep h q xs \<Longrightarrow> t \<notin> set xs \<Longrightarrow>
      \<exists>h' q'. push q t h = Some (h', q') \<and> rep h' q' (put t xs) \<and> same (insert t (set xs)) h h'"
    and set_put: "set (put t xs) = insert t (set xs)"
    and pop_none: "rep h q xs \<Longrightarrow> take1 xs = None \<Longrightarrow> pop q h = Some (None, h, q)"
    and pop_some: "rep h q xs \<Longrightarrow> take1 xs = Some (t, ys) \<Longrightarrow>
      \<exists>h' q'. pop q h = Some (Some t, h', q') \<and> rep h' q' ys \<and> same (set xs) h h'"
    and take1_perm: "take1 xs = Some (t, ys) \<Longrightarrow> mset xs = add_mset t (mset ys)"
    and same_refl: "same A h h"
    and same_trans: "same A h h' \<Longrightarrow> same B h' h'' \<Longrightarrow> A \<subseteq> C \<Longrightarrow> B \<subseteq> C \<Longrightarrow> same C h h''"
begin

lemma push_units_rep:
  assumes "rep h q xs" "distinct ts" "set ts \<inter> set xs = {}" "\<forall>t \<in> set ts. even t"
  shows "\<exists>h' q'. push_units push (map Suc ts) q h = Some (h', q') \<and> rep h' q' (fold put ts xs)
    \<and> same (set ts \<union> set xs) h h'"
  using assms
proof (induction ts arbitrary: h q xs)
  case (Cons t ts)
  obtain h1 q1 where 1: "push q t h = Some (h1, q1)" "rep h1 q1 (put t xs)"
      "same (insert t (set xs)) h h1"
    using push_ok [of h q xs t] Cons.prems by auto
  obtain h2 q2 where 2: "push_units push (map Suc ts) q1 h1 = Some (h2, q2)"
      "rep h2 q2 (fold put ts (put t xs))" "same (set ts \<union> set (put t xs)) h1 h2"
    using Cons.IH [OF 1(2)] Cons.prems set_put by (auto simp: disjoint_iff)
  have "same (set (t # ts) \<union> set xs) h h2"
    by (rule same_trans [OF 1(3) 2(3)]) (auto simp: set_put)
  then show ?case
    using 1 2 Cons.prems by auto
qed (auto simp: same_refl)

lemma pop_units_rep:
  assumes "rep h q xs"
  shows "\<exists>h' q'. pop_units pop n q h = Some (fst (takes take1 n xs), h', q')
    \<and> rep h' q' (snd (takes take1 n xs)) \<and> same (set xs) h h'"
  using assms
proof (induction n arbitrary: h q xs)
  case (Suc n)
  show ?case
  proof (cases "take1 xs")
    case None
    then show ?thesis
      using Suc.prems pop_none same_refl by auto
  next
    case (Some p)
    obtain t ys where p: "p = (t, ys)" by (cases p)
    obtain h1 q1 where 1: "pop q h = Some (Some t, h1, q1)" "rep h1 q1 ys" "same (set xs) h h1"
      using pop_some [OF Suc.prems] Some p by blast
    obtain h2 q2 where 2: "pop_units pop n q1 h1 = Some (fst (takes take1 n ys), h2, q2)"
        "rep h2 q2 (snd (takes take1 n ys))" "same (set ys) h1 h2"
      using Suc.IH [OF 1(2)] by blast
    have "set ys \<subseteq> set xs"
      using take1_perm [of xs t ys] Some p by (metis mset_eq_setD set_mset_add_mset_insert
          set_mset_mset subset_insertI)
    then have "same (set xs) h h2"
      using same_trans [OF 1(3) 2(3)] by blast
    then show ?thesis
      using 1 2 Some p by (auto split: prod.splits)
  qed
qed (auto simp: same_refl)

text \<open>No unit is lost or duplicated by a bulk pop.\<close>

lemma takes_perm: "mset (fst (takes take1 n xs)) + mset (snd (takes take1 n xs)) = mset xs"
proof (induction n arbitrary: xs)
  case (Suc n)
  show ?case
  proof (cases "take1 xs")
    case (Some p)
    then show ?thesis
      using Suc.IH [of "snd p"] take1_perm [of xs "fst p" "snd p"]
      by (auto split: prod.splits)
  qed simp
qed simp

end

text \<open>Taking from the front and from the back.\<close>

definition take_front :: "'a list \<Rightarrow> ('a \<times> 'a list) option" where
  "take_front xs = (case xs of [] \<Rightarrow> None | x # ys \<Rightarrow> Some (x, ys))"

definition take_back :: "'a list \<Rightarrow> ('a \<times> 'a list) option" where
  "take_back xs = (if xs = [] then None else Some (last xs, butlast xs))"

lemma takes_front: "takes take_front n xs = (take n xs, drop n xs)"
proof (induction n arbitrary: xs)
  case (Suc n)
  then show ?case by (cases xs) (auto simp: take_front_def)
qed simp

lemma take_front_perm: "take_front xs = Some (t, ys) \<Longrightarrow> mset xs = add_mset t (mset ys)"
  by (auto simp: take_front_def split: list.splits)

lemma take_back_perm: "take_back xs = Some (t, ys) \<Longrightarrow> mset xs = add_mset t (mset ys)"
  by (cases xs rule: rev_cases) (auto simp: take_back_def)

lemma pop_head_take_front:
  "tq_rep h q xs \<Longrightarrow> take_front xs = None \<Longrightarrow> thread_queue_pop_head q h = Some (None, h, q)"
  "tq_rep h q xs \<Longrightarrow> take_front xs = Some (t, ys) \<Longrightarrow>
    \<exists>h' q'. thread_queue_pop_head q h = Some (Some t, h', q') \<and> tq_rep h' q' ys \<and> heap_eq_outside (set xs) h h'"
  using pop_head_rep [of h q t ys] pop_head_empty [of h q]
  by (auto simp: take_front_def split: list.splits)

lemma pop_tail_take_back:
  "tq_rep h q xs \<Longrightarrow> take_back xs = None \<Longrightarrow> thread_queue_pop_tail q h = Some (None, h, q)"
  "tq_rep h q xs \<Longrightarrow> take_back xs = Some (t, ys) \<Longrightarrow>
    \<exists>h' q'. thread_queue_pop_tail q h = Some (Some t, h', q') \<and> tq_rep h' q' ys \<and> heap_eq_outside (set xs) h h'"
  by (cases xs rule: rev_cases; force simp: take_back_def pop_tail_empty dest: pop_tail_rep)+

end
