(* ===== verification/PoolFifo.thy ===== *)
theory PoolFifo
  imports PoolBase Complex_Main
begin

text \<open>
  The FIFO pool (\<^verbatim>\<open>argobots_framework/src/pool/fifo.c\<close>): one definition per function of the
  pool's table, in the order of the file. The pool's data are its spinlock and its queue; the
  shared variants take the lock and release it on every path, the private ones do not touch it.
  The context argument, which this pool ignores, is left out.
\<close>

section \<open>The function table\<close>

datatype fifo_fn =
  Fifo_push_private | Fifo_push_shared | Fifo_pop_private | Fifo_pop_shared
| Fifo_push_many_private | Fifo_push_many_shared | Fifo_pop_many_private | Fifo_pop_many_shared
| Fifo_remove_private | Fifo_remove_shared

record fifo_def =
  fd_push :: fifo_fn
  fd_pop :: fifo_fn
  fd_push_many :: fifo_fn
  fd_pop_many :: fifo_fn
  fd_remove :: fifo_fn

definition ABTI_pool_get_fifo_def :: "ABT_pool_access \<Rightarrow> abt_errno + fifo_def" where
  "ABTI_pool_get_fifo_def access =
     (case access of
        ABT_POOL_ACCESS_PRIV \<Rightarrow>
          Inr \<lparr>fd_push = Fifo_push_private, fd_pop = Fifo_pop_private,
               fd_push_many = Fifo_push_many_private, fd_pop_many = Fifo_pop_many_private,
               fd_remove = Fifo_remove_private\<rparr>
      | ABT_POOL_ACCESS_other n \<Rightarrow> Inl ABT_ERR_INV_POOL_ACCESS
      | _ \<Rightarrow>
          Inr \<lparr>fd_push = Fifo_push_shared, fd_pop = Fifo_pop_shared,
               fd_push_many = Fifo_push_many_shared, fd_pop_many = Fifo_pop_many_shared,
               fd_remove = Fifo_remove_shared\<rparr>)"

section \<open>Pool functions\<close>

text \<open>
  \<open>mem\<close> is the block \<^verbatim>\<open>ABTU_malloc\<close> returned (its content is arbitrary), if it returned one.
  The lock is cleared unless the pool is private.
\<close>

definition fifo_pool_init ::
    "pool_data option \<Rightarrow> ABT_pool_access \<Rightarrow> abt_errno \<times> pool_data option" where
  "fifo_pool_init mem access =
     (case mem of
        None \<Rightarrow> (ABT_ERR_MEM, None)
      | Some d \<Rightarrow>
          (let d1 = (if access \<noteq> ABT_POOL_ACCESS_PRIV then d\<lparr>pd_mutex := False\<rparr> else d)
           in (ABT_SUCCESS, Some (d1\<lparr>pd_queue := thread_queue_init\<rparr>))))"

definition fifo_pool_is_empty :: "pool_data \<Rightarrow> bool" where
  "fifo_pool_is_empty d = thread_queue_is_empty (pd_queue d)"

definition fifo_pool_get_size :: "pool_data \<Rightarrow> nat" where
  "fifo_pool_get_size d = thread_queue_get_size (pd_queue d)"

definition fifo_pool_push_shared ::
    "nat \<Rightarrow> pool_data \<Rightarrow> thread_heap \<Rightarrow> (thread_heap \<times> pool_data) option" where
  "fifo_pool_push_shared u d h = do {
     t \<leftarrow> ABTI_unit_get_thread_from_builtin_unit u;
     m \<leftarrow> ABTD_spinlock_acquire (pd_mutex d);
     (h1, q1) \<leftarrow> thread_queue_push_tail (pd_queue d) t h;
     Some (h1, d\<lparr>pd_queue := q1, pd_mutex := False\<rparr>)
   }"

definition fifo_pool_push_private ::
    "nat \<Rightarrow> pool_data \<Rightarrow> thread_heap \<Rightarrow> (thread_heap \<times> pool_data) option" where
  "fifo_pool_push_private u d h = do {
     t \<leftarrow> ABTI_unit_get_thread_from_builtin_unit u;
     (h1, q1) \<leftarrow> thread_queue_push_tail (pd_queue d) t h;
     Some (h1, d\<lparr>pd_queue := q1\<rparr>)
   }"

definition fifo_pool_push_many_shared ::
    "nat list \<Rightarrow> pool_data \<Rightarrow> thread_heap \<Rightarrow> (thread_heap \<times> pool_data) option" where
  "fifo_pool_push_many_shared us d h =
     (if length us > 0 then do {
        m \<leftarrow> ABTD_spinlock_acquire (pd_mutex d);
        (h1, q1) \<leftarrow> push_units thread_queue_push_tail us (pd_queue d) h;
        Some (h1, d\<lparr>pd_queue := q1, pd_mutex := False\<rparr>)
      } else Some (h, d))"

definition fifo_pool_push_many_private ::
    "nat list \<Rightarrow> pool_data \<Rightarrow> thread_heap \<Rightarrow> (thread_heap \<times> pool_data) option" where
  "fifo_pool_push_many_private us d h = do {
     (h1, q1) \<leftarrow> push_units thread_queue_push_tail us (pd_queue d) h;
     Some (h1, d\<lparr>pd_queue := q1\<rparr>)
   }"

text \<open>
  The polling loops. Other threads work on the pool between two iterations, so each iteration
  is given the store and the pool it finds and the value \<^verbatim>\<open>ABTI_get_wtime\<close> returns in it; the
  result is \<open>None\<close> when the loop has not ended after the iterations listed. \<open>t0\<close> is the
  variable \<^verbatim>\<open>time_start\<close>, 0 before the first unsuccessful iteration.
\<close>

type_synonym poll = "thread_heap \<times> pool_data \<times> real"

definition fifo_try_pop ::
    "pool_data \<Rightarrow> thread_heap \<Rightarrow> (thread_ptr option \<times> thread_heap \<times> pool_data) option" where
  "fifo_try_pop d h = do {
     (taken, d1) \<leftarrow> acquire_if_not_empty d;
     if taken then do {
       (p, h1, q1) \<leftarrow> thread_queue_pop_head (pd_queue d1) h;
       Some (p, h1, d1\<lparr>pd_queue := q1, pd_mutex := False\<rparr>)
     } else Some (None, h, d1)
   }"

fun fifo_pool_pop_wait ::
    "real \<Rightarrow> real \<Rightarrow> poll list \<Rightarrow> (thread_ptr option \<times> thread_heap \<times> pool_data) option" where
  "fifo_pool_pop_wait time_secs t0 [] = None"
| "fifo_pool_pop_wait time_secs t0 ((h, d, now) # env) = do {
     (p, h1, d1) \<leftarrow> fifo_try_pop d h;
     (case p of
        Some t \<Rightarrow> Some (Some t, h1, d1)
      | None \<Rightarrow>
          if t0 = 0 then fifo_pool_pop_wait time_secs now env
          else if now - t0 > time_secs then Some (None, h1, d1)
          else fifo_pool_pop_wait time_secs t0 env)
   }"

fun fifo_pool_pop_timedwait ::
    "real \<Rightarrow> poll list \<Rightarrow> (nat option \<times> thread_heap \<times> pool_data) option" where
  "fifo_pool_pop_timedwait abstime [] = None"
| "fifo_pool_pop_timedwait abstime ((h, d, now) # env) = do {
     (p, h1, d1) \<leftarrow> fifo_try_pop d h;
     (case p of
        Some t \<Rightarrow> do { u \<leftarrow> ABTI_unit_get_builtin_unit t; Some (Some u, h1, d1) }
      | None \<Rightarrow>
          if now > abstime then Some (None, h1, d1) else fifo_pool_pop_timedwait abstime env)
   }"

definition fifo_pool_pop_shared ::
    "pool_data \<Rightarrow> thread_heap \<Rightarrow> (thread_ptr option \<times> thread_heap \<times> pool_data) option" where
  "fifo_pool_pop_shared d h = do {
     (taken, d1) \<leftarrow> acquire_if_not_empty d;
     if taken then do {
       (p, h1, q1) \<leftarrow> thread_queue_pop_head (pd_queue d1) h;
       Some (p, h1, d1\<lparr>pd_queue := q1, pd_mutex := False\<rparr>)
     } else Some (None, h, d1)
   }"

definition fifo_pool_pop_private ::
    "pool_data \<Rightarrow> thread_heap \<Rightarrow> (thread_ptr option \<times> thread_heap \<times> pool_data) option" where
  "fifo_pool_pop_private d h = do {
     (p, h1, q1) \<leftarrow> thread_queue_pop_head (pd_queue d) h;
     Some (p, h1, d\<lparr>pd_queue := q1\<rparr>)
   }"

definition fifo_pool_pop_many_shared ::
    "nat \<Rightarrow> pool_data \<Rightarrow> thread_heap \<Rightarrow> (thread_ptr list \<times> thread_heap \<times> pool_data) option" where
  "fifo_pool_pop_many_shared max_threads d h =
     (if max_threads \<noteq> 0 then do {
        (taken, d1) \<leftarrow> acquire_if_not_empty d;
        if taken then do {
          (ts, h1, q1) \<leftarrow> pop_units thread_queue_pop_head max_threads (pd_queue d1) h;
          Some (ts, h1, d1\<lparr>pd_queue := q1, pd_mutex := False\<rparr>)
        } else Some ([], h, d1)
      } else Some ([], h, d))"

definition fifo_pool_pop_many_private ::
    "nat \<Rightarrow> pool_data \<Rightarrow> thread_heap \<Rightarrow> (thread_ptr list \<times> thread_heap \<times> pool_data) option" where
  "fifo_pool_pop_many_private max_threads d h = do {
     (ts, h1, q1) \<leftarrow> pop_units thread_queue_pop_head max_threads (pd_queue d) h;
     Some (ts, h1, d\<lparr>pd_queue := q1\<rparr>)
   }"

definition fifo_pool_remove_shared ::
    "nat \<Rightarrow> pool_data \<Rightarrow> thread_heap \<Rightarrow> (abt_errno \<times> thread_heap \<times> pool_data) option" where
  "fifo_pool_remove_shared u d h = do {
     t \<leftarrow> ABTI_unit_get_thread_from_builtin_unit u;
     m \<leftarrow> ABTD_spinlock_acquire (pd_mutex d);
     (rc, h1, q1) \<leftarrow> thread_queue_remove (pd_queue d) t h;
     Some (rc, h1, d\<lparr>pd_queue := q1, pd_mutex := False\<rparr>)
   }"

definition fifo_pool_remove_private ::
    "nat \<Rightarrow> pool_data \<Rightarrow> thread_heap \<Rightarrow> (abt_errno \<times> thread_heap \<times> pool_data) option" where
  "fifo_pool_remove_private u d h = do {
     t \<leftarrow> ABTI_unit_get_thread_from_builtin_unit u;
     (rc, h1, q1) \<leftarrow> thread_queue_remove (pd_queue d) t h;
     Some (rc, h1, d\<lparr>pd_queue := q1\<rparr>)
   }"

definition fifo_pool_print_all ::
    "ABT_pool_access \<Rightarrow> pool_data \<Rightarrow> thread_heap \<Rightarrow> (thread_ptr list \<times> pool_data) option" where
  "fifo_pool_print_all access d h = do {
     m \<leftarrow> (if access \<noteq> ABT_POOL_ACCESS_PRIV then ABTD_spinlock_acquire (pd_mutex d)
          else Some (pd_mutex d));
     ts \<leftarrow> thread_queue_print_all (pd_queue d) h;
     Some (ts, d\<lparr>pd_mutex := (if access \<noteq> ABT_POOL_ACCESS_PRIV then False else m)\<rparr>)
   }"

definition fifo_pool_unit_is_in_pool :: "nat \<Rightarrow> thread_heap \<Rightarrow> bool option" where
  "fifo_pool_unit_is_in_pool u h = do {
     t \<leftarrow> ABTI_unit_get_thread_from_builtin_unit u;
     Some (is_in_pool h t)
   }"

section \<open>What the functions do to the represented list\<close>

definition pool_rep :: "thread_heap \<Rightarrow> pool_data \<Rightarrow> thread_ptr list \<Rightarrow> bool" where
  "pool_rep h d xs \<longleftrightarrow> tq_rep h (pd_queue d) xs \<and> \<not> pd_mutex d"

interpretation fifo: unit_store tq_rep heap_eq_outside thread_queue_push_tail
    thread_queue_pop_head "\<lambda>t xs. xs @ [t]" take_front
  by unfold_locales
     (simp_all add: push_tail_rep pop_head_take_front take_front_perm, rule heap_eq_outside_trans)

lemma fold_snoc [simp]: "fold (\<lambda>t xs. xs @ [t]) ts xs = xs @ ts"
  by (induction ts arbitrary: xs) auto

lemma spin_free [simp]: "ABTD_spinlock_acquire False = Some True"
  by (simp add: ABTD_spinlock_acquire_def)

lemma acquire_if_not_empty_rep:
  "pool_rep h d xs \<Longrightarrow> acquire_if_not_empty d
    = Some (xs \<noteq> [], if xs = [] then d else d\<lparr>pd_mutex := True\<rparr>)"
  by (auto simp: acquire_if_not_empty_def pool_rep_def tq_rep_def thread_queue_is_empty_def)

lemma fifo_init_rep:
  "fifo_pool_init (Some m) access = (ABT_SUCCESS, Some d) \<Longrightarrow> access \<noteq> ABT_POOL_ACCESS_PRIV
    \<Longrightarrow> pool_rep h d []"
  by (auto simp: fifo_pool_init_def pool_rep_def Let_def)

lemma fifo_push_shared_rep:
  assumes "pool_rep h d xs" "even t" "t \<notin> set xs"
  shows "\<exists>h' d'. fifo_pool_push_shared (t + 1) d h = Some (h', d') \<and> pool_rep h' d' (xs @ [t])
    \<and> heap_eq_outside (insert t (set xs)) h h'"
  using assms push_tail_rep [of h "pd_queue d" xs t]
  by (auto simp: fifo_pool_push_shared_def pool_rep_def)

lemma fifo_push_private_eq:
  "pool_rep h d xs \<Longrightarrow> even t \<Longrightarrow> t \<notin> set xs \<Longrightarrow>
    fifo_pool_push_private (t + 1) d h = fifo_pool_push_shared (t + 1) d h"
  using push_tail_rep [of h "pd_queue d" xs t]
  by (auto simp: fifo_pool_push_shared_def fifo_pool_push_private_def pool_rep_def)

lemma fifo_push_many_shared_rep:
  assumes "pool_rep h d xs" "distinct ts" "set ts \<inter> set xs = {}" "\<forall>t \<in> set ts. even t"
  shows "\<exists>h' d'. fifo_pool_push_many_shared (map Suc ts) d h = Some (h', d') \<and> pool_rep h' d' (xs @ ts)
    \<and> heap_eq_outside (set ts \<union> set xs) h h'"
  using assms fifo.push_units_rep [of h "pd_queue d" xs ts]
  by (auto simp: fifo_pool_push_many_shared_def pool_rep_def)

lemma fifo_pop_shared_rep:
  assumes "pool_rep h d xs"
  shows "\<exists>h' d'. fifo_pool_pop_shared d h = Some (map_option fst (take_front xs), h', d')
    \<and> pool_rep h' d' (tl xs) \<and> heap_eq_outside (set xs) h h'"
proof (cases xs)
  case Nil
  then show ?thesis
    using assms by (simp add: fifo_pool_pop_shared_def acquire_if_not_empty_rep take_front_def)
next
  case (Cons t ys)
  then show ?thesis
    using assms pop_head_rep [of h "pd_queue d" t ys]
    by (auto simp: fifo_pool_pop_shared_def acquire_if_not_empty_rep take_front_def pool_rep_def)
qed

lemma fifo_pop_private_rep:
  assumes "pool_rep h d xs"
  shows "\<exists>h' d'. fifo_pool_pop_private d h = Some (map_option fst (take_front xs), h', d')
    \<and> pool_rep h' d' (tl xs) \<and> heap_eq_outside (set xs) h h'"
  using assms pop_head_rep [of h "pd_queue d" "hd xs" "tl xs"] pop_head_empty [of h "pd_queue d"]
  by (cases xs) (auto simp: fifo_pool_pop_private_def take_front_def pool_rep_def)

lemma fifo_pop_many_shared_rep:
  assumes "pool_rep h d xs"
  shows "\<exists>h' d'. fifo_pool_pop_many_shared n d h = Some (take n xs, h', d')
    \<and> pool_rep h' d' (drop n xs) \<and> heap_eq_outside (set xs) h h'"
proof (cases "n = 0 \<or> xs = []")
  case True
  then show ?thesis
    using assms by (auto simp: fifo_pool_pop_many_shared_def acquire_if_not_empty_rep)
next
  case False
  then show ?thesis
    using assms fifo.pop_units_rep [of h "pd_queue d" xs n]
    by (auto simp: fifo_pool_pop_many_shared_def acquire_if_not_empty_rep pool_rep_def takes_front)
qed

lemma fifo_pop_many_private_rep:
  assumes "pool_rep h d xs"
  shows "\<exists>h' d'. fifo_pool_pop_many_private n d h = Some (take n xs, h', d')
    \<and> pool_rep h' d' (drop n xs) \<and> heap_eq_outside (set xs) h h'"
  using assms fifo.pop_units_rep [of h "pd_queue d" xs n]
  by (auto simp: fifo_pool_pop_many_private_def pool_rep_def takes_front)

lemma fifo_remove_shared_rep:
  assumes "pool_rep h d (as @ t # bs)" "even t"
  shows "\<exists>h' d'. fifo_pool_remove_shared (t + 1) d h = Some (ABT_SUCCESS, h', d')
    \<and> pool_rep h' d' (as @ bs) \<and> heap_eq_outside (set (as @ t # bs)) h h'"
  using assms remove_rep [of h "pd_queue d" as t bs]
  by (auto simp: fifo_pool_remove_shared_def pool_rep_def)

lemma fifo_remove_shared_refused:
  assumes "pool_rep h d xs" "even t" "\<not> is_in_pool h t"
  shows "fifo_pool_remove_shared (t + 1) d h = Some (ABT_ERR_POOL, h, d)"
  using assms by (auto simp: fifo_pool_remove_shared_def pool_rep_def remove_not_in_pool)

lemma fifo_print_all_rep:
  "pool_rep h d xs \<Longrightarrow> fifo_pool_print_all access d h = Some (xs, d)"
  by (auto simp: fifo_pool_print_all_def pool_rep_def print_all_rep)

lemma fifo_size_rep:
  "pool_rep h d xs \<Longrightarrow> fifo_pool_get_size d = length xs \<and> fifo_pool_is_empty d = (xs = [])"
  by (simp add: fifo_pool_get_size_def fifo_pool_is_empty_def pool_rep_def tq_rep_def
      thread_queue_get_size_def thread_queue_is_empty_def)

section \<open>The polling loops\<close>

lemma fifo_try_pop_rep:
  "pool_rep h d [] \<Longrightarrow> fifo_try_pop d h = Some (None, h, d)"
  "pool_rep h d (t # ys) \<Longrightarrow> \<exists>h' d'. fifo_try_pop d h = Some (Some t, h', d') \<and> pool_rep h' d' ys"
  using fifo_pop_shared_rep [of h d "[]"] fifo_pop_shared_rep [of h d "t # ys"]
  by (auto simp: fifo_try_pop_def fifo_pool_pop_shared_def acquire_if_not_empty_rep take_front_def)

text \<open>A wait that gives up has seen the pool empty for more than \<open>time_secs\<close> since \<open>t0\<close>.\<close>

lemma pop_wait_gives_up_late:
  "fifo_pool_pop_wait secs t0 env = Some (None, h', d') \<Longrightarrow> t0 \<noteq> 0 \<Longrightarrow>
    \<exists>(h, d, now) \<in> set env. now - t0 > secs"
proof (induction secs t0 env rule: fifo_pool_pop_wait.induct)
  case (2 secs t0 h d now env)
  then show ?case
    by (cases "fifo_try_pop d h") (fastforce split: option.splits if_splits)+
qed simp

text \<open>
  As long as the pool is found empty, the loop goes on until its clock has passed the limit,
  and it returns then.
\<close>

lemma pop_wait_times_out:
  assumes "\<forall>(h, d, now) \<in> set env. pool_rep h d [] \<and> now - t0 \<le> secs"
    and "pool_rep h d []" "now - t0 > secs" "t0 \<noteq> 0"
  shows "fifo_pool_pop_wait secs t0 (env @ (h, d, now) # rest) = Some (None, h, d)"
  using assms by (induction env) (auto simp: fifo_try_pop_rep)

text \<open>The first non-empty state it finds within the limit gives up its oldest unit.\<close>

lemma pop_wait_takes_oldest:
  assumes "\<forall>(h, d, now) \<in> set env. pool_rep h d [] \<and> now - t0 \<le> secs"
    and "pool_rep h d (t # ys)" "t0 \<noteq> 0"
  shows "\<exists>h' d'. fifo_pool_pop_wait secs t0 (env @ (h, d, now) # rest) = Some (Some t, h', d')
    \<and> pool_rep h' d' ys"
  using assms fifo_try_pop_rep(2) [OF assms(2)] by (induction env) (auto simp: fifo_try_pop_rep(1))

section \<open>Refinement of a list\<close>

text \<open>
  Sequences of calls on a shared pool, by handles. In the specification the pool is the list of
  its units; \<open>None\<close> marks a call outside the contract: pushing a unit that is already in the
  pool, or removing one that is not.
\<close>

datatype pool_op = OPush thread_ptr | OPushMany "thread_ptr list" | OPop | OPopMany nat
  | ORemove thread_ptr | OSize

datatype pool_res = RNone | RUnits "thread_ptr list" | RCode abt_errno | RSize nat

fun fifo_exec :: "pool_op \<Rightarrow> thread_heap \<times> pool_data \<Rightarrow> (pool_res \<times> thread_heap \<times> pool_data) option" where
  "fifo_exec (OPush t) (h, d) = do {
     (h1, d1) \<leftarrow> fifo_pool_push_shared (t + 1) d h; Some (RNone, h1, d1) }"
| "fifo_exec (OPushMany ts) (h, d) = do {
     (h1, d1) \<leftarrow> fifo_pool_push_many_shared (map Suc ts) d h; Some (RNone, h1, d1) }"
| "fifo_exec OPop (h, d) = do {
     (p, h1, d1) \<leftarrow> fifo_pool_pop_shared d h;
     Some (RUnits (case p of None \<Rightarrow> [] | Some t \<Rightarrow> [t]), h1, d1) }"
| "fifo_exec (OPopMany n) (h, d) = do {
     (ts, h1, d1) \<leftarrow> fifo_pool_pop_many_shared n d h; Some (RUnits ts, h1, d1) }"
| "fifo_exec (ORemove t) (h, d) = do {
     (rc, h1, d1) \<leftarrow> fifo_pool_remove_shared (t + 1) d h; Some (RCode rc, h1, d1) }"
| "fifo_exec OSize (h, d) = Some (RSize (fifo_pool_get_size d), h, d)"

fun fifo_spec :: "pool_op \<Rightarrow> thread_ptr list \<Rightarrow> (pool_res \<times> thread_ptr list) option" where
  "fifo_spec (OPush t) xs = (if odd t \<or> t \<in> set xs then None else Some (RNone, xs @ [t]))"
| "fifo_spec (OPushMany ts) xs =
     (if \<not> distinct ts \<or> set ts \<inter> set xs \<noteq> {} \<or> (\<exists>t \<in> set ts. odd t) then None
      else Some (RNone, xs @ ts))"
| "fifo_spec OPop xs = Some (RUnits (take 1 xs), drop 1 xs)"
| "fifo_spec (OPopMany n) xs = Some (RUnits (take n xs), drop n xs)"
| "fifo_spec (ORemove t) xs =
     (if odd t \<or> t \<notin> set xs then None else Some (RCode ABT_SUCCESS, remove1 t xs))"
| "fifo_spec OSize xs = Some (RSize (length xs), xs)"

lemma pool_rep_distinct: "pool_rep h d xs \<Longrightarrow> distinct xs"
  by (simp add: pool_rep_def tq_rep_def)

lemma split_remove1:
  assumes "t \<in> set xs" "distinct xs"
  shows "\<exists>as bs. xs = as @ t # bs \<and> remove1 t xs = as @ bs"
  using assms by (metis remove1_split split_list)

lemma fifo_exec_spec:
  assumes "pool_rep (fst s) (snd s) xs" "fifo_spec op xs = Some (r, ys)"
  shows "\<exists>s'. fifo_exec op s = Some (r, s') \<and> pool_rep (fst s') (snd s') ys"
proof -
  obtain h d where s: "s = (h, d)"
    by (cases s)
  have rep: "pool_rep h d xs"
    using assms(1) s by simp
  show ?thesis
  proof (cases op)
    case (OPush t)
    then show ?thesis
      using assms(2) fifo_push_shared_rep [OF rep, of t] s by (auto split: if_splits)
  next
    case (OPushMany ts)
    then show ?thesis
      using assms(2) fifo_push_many_shared_rep [OF rep, of ts] s by (auto split: if_splits)
  next
    case OPop
    then show ?thesis
      using assms(2) fifo_pop_shared_rep [OF rep] s
      by (cases xs) (auto simp: take_front_def)
  next
    case (OPopMany n)
    then show ?thesis
      using assms(2) fifo_pop_many_shared_rep [OF rep, of n] s by auto
  next
    case (ORemove t)
    then have t: "even t" "t \<in> set xs" "r = RCode ABT_SUCCESS" "ys = remove1 t xs"
      using assms(2) by (auto split: if_splits)
    obtain as bs where x: "xs = as @ t # bs" "remove1 t xs = as @ bs"
      using split_remove1 [OF t(2) pool_rep_distinct [OF rep]] by blast
    have "pool_rep h d (as @ t # bs)"
      using rep x(1) by simp
    from fifo_remove_shared_rep [OF this t(1)] show ?thesis
      using ORemove t s x(2) by auto
  next
    case OSize
    then show ?thesis
      using assms(2) fifo_size_rep [OF rep] s rep by auto
  qed
qed

primrec fifo_run ::
    "pool_op list \<Rightarrow> thread_heap \<times> pool_data \<Rightarrow> (pool_res list \<times> thread_heap \<times> pool_data) option" where
  "fifo_run [] s = Some ([], s)"
| "fifo_run (x # ops) s = do {
     (r, s1) \<leftarrow> fifo_exec x s; (rs, s2) \<leftarrow> fifo_run ops s1; Some (r # rs, s2) }"

primrec fifo_spec_run :: "pool_op list \<Rightarrow> thread_ptr list \<Rightarrow> (pool_res list \<times> thread_ptr list) option" where
  "fifo_spec_run [] xs = Some ([], xs)"
| "fifo_spec_run (x # ops) xs = do {
     (r, ys) \<leftarrow> fifo_spec x xs; (rs, zs) \<leftarrow> fifo_spec_run ops ys; Some (r # rs, zs) }"

lemma fifo_run_spec:
  "pool_rep (fst s) (snd s) xs \<Longrightarrow> fifo_spec_run ops xs = Some (rs, zs)
    \<Longrightarrow> \<exists>s'. fifo_run ops s = Some (rs, s') \<and> pool_rep (fst s') (snd s') zs"
proof (induction ops arbitrary: s xs rs)
  case (Cons x ops)
  then obtain r ys rs1 where a: "fifo_spec x xs = Some (r, ys)" "fifo_spec_run ops ys = Some (rs1, zs)"
    "rs = r # rs1"
    by (auto split: bind_splits)
  obtain s1 where s1: "fifo_exec x s = Some (r, s1)" "pool_rep (fst s1) (snd s1) ys"
    using fifo_exec_spec [OF Cons.prems(1) a(1)] by blast
  then show ?case
    using Cons.IH [OF s1(2) a(2)] a(3) by auto
qed simp

end
