(* ===== verification/PoolRandws.thy ===== *)
theory PoolRandws
  imports PoolFifo
begin

unbundle bit_operations_syntax

text \<open>
  The pool of the random work-stealing scheduler (\<^verbatim>\<open>argobots_framework/src/pool/randws.c\<close>). It is
  a double-ended queue whose ends are chosen by the bits of the context argument: newly created
  and revived units go to the head, other units to the tail; a secondary owner (a thief) takes
  from the tail, everybody else from the head.
\<close>

section \<open>The context\<close>

type_synonym ABT_pool_context = "64 word"

definition ABT_POOL_CONTEXT_OWNER_PRIMARY :: ABT_pool_context where
  "ABT_POOL_CONTEXT_OWNER_PRIMARY = 0x100"

definition ABT_POOL_CONTEXT_OWNER_SECONDARY :: ABT_pool_context where
  "ABT_POOL_CONTEXT_OWNER_SECONDARY = 0x200"

definition ABT_POOL_CONTEXT_OP_POOL_OTHER :: ABT_pool_context where
  "ABT_POOL_CONTEXT_OP_POOL_OTHER = 0"

definition ABT_POOL_CONTEXT_OP_THREAD_CREATE :: ABT_pool_context where
  "ABT_POOL_CONTEXT_OP_THREAD_CREATE = 0x1000"

definition ABT_POOL_CONTEXT_OP_THREAD_CREATE_TO :: ABT_pool_context where
  "ABT_POOL_CONTEXT_OP_THREAD_CREATE_TO = 0x2000"

definition ABT_POOL_CONTEXT_OP_THREAD_REVIVE :: ABT_pool_context where
  "ABT_POOL_CONTEXT_OP_THREAD_REVIVE = 0x4000"

definition ABT_POOL_CONTEXT_OP_THREAD_REVIVE_TO :: ABT_pool_context where
  "ABT_POOL_CONTEXT_OP_THREAD_REVIVE_TO = 0x8000"

definition ABT_POOL_CONTEXT_OP_THREAD_YIELD :: ABT_pool_context where
  "ABT_POOL_CONTEXT_OP_THREAD_YIELD = 0x10000"

definition POOL_CONTEXT_PUSH_HEAD :: ABT_pool_context where
  "POOL_CONTEXT_PUSH_HEAD =
     ABT_POOL_CONTEXT_OP_THREAD_CREATE OR ABT_POOL_CONTEXT_OP_THREAD_CREATE_TO OR
     ABT_POOL_CONTEXT_OP_THREAD_REVIVE OR ABT_POOL_CONTEXT_OP_THREAD_REVIVE_TO"

definition POOL_CONTEXT_POP_TAIL :: ABT_pool_context where
  "POOL_CONTEXT_POP_TAIL = ABT_POOL_CONTEXT_OWNER_SECONDARY"

definition rws_push ::
    "ABT_pool_context \<Rightarrow> thread_queue \<Rightarrow> thread_ptr \<Rightarrow> thread_heap \<Rightarrow> (thread_heap \<times> thread_queue) option" where
  "rws_push ctx q t h =
     (if ctx AND POOL_CONTEXT_PUSH_HEAD \<noteq> 0 then thread_queue_push_head q t h
      else thread_queue_push_tail q t h)"

definition rws_pop ::
    "ABT_pool_context \<Rightarrow> thread_queue \<Rightarrow> thread_heap \<Rightarrow> (thread_ptr option \<times> thread_heap \<times> thread_queue) option" where
  "rws_pop ctx q h =
     (if ctx AND POOL_CONTEXT_POP_TAIL \<noteq> 0 then thread_queue_pop_tail q h
      else thread_queue_pop_head q h)"

section \<open>The function table\<close>

datatype randws_fn =
  Randws_push_private | Randws_push_shared | Randws_pop_private | Randws_pop_shared
| Randws_push_many_private | Randws_push_many_shared | Randws_pop_many_private
| Randws_pop_many_shared | Randws_remove_private | Randws_remove_shared

record randws_def =
  rd_push :: randws_fn
  rd_pop :: randws_fn
  rd_push_many :: randws_fn
  rd_pop_many :: randws_fn
  rd_remove :: randws_fn

definition ABTI_pool_get_randws_def :: "ABT_pool_access \<Rightarrow> abt_errno + randws_def" where
  "ABTI_pool_get_randws_def access =
     (case access of
        ABT_POOL_ACCESS_PRIV \<Rightarrow>
          Inr \<lparr>rd_push = Randws_push_private, rd_pop = Randws_pop_private,
               rd_push_many = Randws_push_many_private, rd_pop_many = Randws_pop_many_private,
               rd_remove = Randws_remove_private\<rparr>
      | ABT_POOL_ACCESS_other n \<Rightarrow> Inl ABT_ERR_INV_POOL_ACCESS
      | _ \<Rightarrow>
          Inr \<lparr>rd_push = Randws_push_shared, rd_pop = Randws_pop_shared,
               rd_push_many = Randws_push_many_shared, rd_pop_many = Randws_pop_many_shared,
               rd_remove = Randws_remove_shared\<rparr>)"

section \<open>Pool functions\<close>

text \<open>
  \<open>mem\<close> is the block \<^verbatim>\<open>ABTU_malloc\<close> returned (its content is arbitrary), if it returned one.
  The lock is cleared unless the pool is private.
\<close>

definition randws_pool_init ::
    "pool_data option \<Rightarrow> ABT_pool_access \<Rightarrow> abt_errno \<times> pool_data option" where
  "randws_pool_init mem access =
     (case mem of
        None \<Rightarrow> (ABT_ERR_MEM, None)
      | Some d \<Rightarrow>
          (let d1 = (if access \<noteq> ABT_POOL_ACCESS_PRIV then d\<lparr>pd_mutex := False\<rparr> else d)
           in (ABT_SUCCESS, Some (d1\<lparr>pd_queue := thread_queue_init\<rparr>))))"

definition randws_pool_is_empty :: "pool_data \<Rightarrow> bool" where
  "randws_pool_is_empty d = thread_queue_is_empty (pd_queue d)"

definition randws_pool_get_size :: "pool_data \<Rightarrow> nat" where
  "randws_pool_get_size d = thread_queue_get_size (pd_queue d)"

definition randws_pool_push_shared ::
    "ABT_pool_context \<Rightarrow> nat \<Rightarrow> pool_data \<Rightarrow> thread_heap \<Rightarrow> (thread_heap \<times> pool_data) option" where
  "randws_pool_push_shared ctx u d h = do {
     t \<leftarrow> ABTI_unit_get_thread_from_builtin_unit u;
     m \<leftarrow> ABTD_spinlock_acquire (pd_mutex d);
     (h1, q1) \<leftarrow> rws_push ctx (pd_queue d) t h;
     Some (h1, d\<lparr>pd_queue := q1, pd_mutex := False\<rparr>)
   }"

definition randws_pool_push_private ::
    "ABT_pool_context \<Rightarrow> nat \<Rightarrow> pool_data \<Rightarrow> thread_heap \<Rightarrow> (thread_heap \<times> pool_data) option" where
  "randws_pool_push_private ctx u d h = do {
     t \<leftarrow> ABTI_unit_get_thread_from_builtin_unit u;
     (h1, q1) \<leftarrow> rws_push ctx (pd_queue d) t h;
     Some (h1, d\<lparr>pd_queue := q1\<rparr>)
   }"

definition randws_pool_push_many_shared ::
    "ABT_pool_context \<Rightarrow> nat list \<Rightarrow> pool_data \<Rightarrow> thread_heap \<Rightarrow> (thread_heap \<times> pool_data) option" where
  "randws_pool_push_many_shared ctx us d h =
     (if length us > 0 then do {
        m \<leftarrow> ABTD_spinlock_acquire (pd_mutex d);
        (h1, q1) \<leftarrow> push_units (rws_push ctx) us (pd_queue d) h;
        Some (h1, d\<lparr>pd_queue := q1, pd_mutex := False\<rparr>)
      } else Some (h, d))"

definition randws_pool_push_many_private ::
    "ABT_pool_context \<Rightarrow> nat list \<Rightarrow> pool_data \<Rightarrow> thread_heap \<Rightarrow> (thread_heap \<times> pool_data) option" where
  "randws_pool_push_many_private ctx us d h = do {
     (h1, q1) \<leftarrow> push_units (rws_push ctx) us (pd_queue d) h;
     Some (h1, d\<lparr>pd_queue := q1\<rparr>)
   }"

definition randws_try_pop ::
    "ABT_pool_context \<Rightarrow> pool_data \<Rightarrow> thread_heap \<Rightarrow> (thread_ptr option \<times> thread_heap \<times> pool_data) option" where
  "randws_try_pop ctx d h = do {
     (taken, d1) \<leftarrow> acquire_if_not_empty d;
     if taken then do {
       (p, h1, q1) \<leftarrow> rws_pop ctx (pd_queue d1) h;
       Some (p, h1, d1\<lparr>pd_queue := q1, pd_mutex := False\<rparr>)
     } else Some (None, h, d1)
   }"

fun randws_pool_pop_wait ::
    "ABT_pool_context \<Rightarrow> real \<Rightarrow> real \<Rightarrow> poll list \<Rightarrow> (thread_ptr option \<times> thread_heap \<times> pool_data) option" where
  "randws_pool_pop_wait ctx time_secs t0 [] = None"
| "randws_pool_pop_wait ctx time_secs t0 ((h, d, now) # env) = do {
     (p, h1, d1) \<leftarrow> randws_try_pop ctx d h;
     (case p of
        Some t \<Rightarrow> Some (Some t, h1, d1)
      | None \<Rightarrow>
          if t0 = 0 then randws_pool_pop_wait ctx time_secs now env
          else if now - t0 > time_secs then Some (None, h1, d1)
          else randws_pool_pop_wait ctx time_secs t0 env)
   }"

text \<open>\<^verbatim>\<open>pool_pop_timedwait\<close> has no context argument and pops from the head.\<close>

fun randws_pool_pop_timedwait ::
    "real \<Rightarrow> poll list \<Rightarrow> (nat option \<times> thread_heap \<times> pool_data) option" where
  "randws_pool_pop_timedwait abstime [] = None"
| "randws_pool_pop_timedwait abstime ((h, d, now) # env) = do {
     (p, h1, d1) \<leftarrow> randws_try_pop 0 d h;
     (case p of
        Some t \<Rightarrow> do { u \<leftarrow> ABTI_unit_get_builtin_unit t; Some (Some u, h1, d1) }
      | None \<Rightarrow>
          if now > abstime then Some (None, h1, d1) else randws_pool_pop_timedwait abstime env)
   }"

definition randws_pool_pop_shared ::
    "ABT_pool_context \<Rightarrow> pool_data \<Rightarrow> thread_heap \<Rightarrow> (thread_ptr option \<times> thread_heap \<times> pool_data) option" where
  "randws_pool_pop_shared ctx d h = do {
     (taken, d1) \<leftarrow> acquire_if_not_empty d;
     if taken then do {
       (p, h1, q1) \<leftarrow> rws_pop ctx (pd_queue d1) h;
       Some (p, h1, d1\<lparr>pd_queue := q1, pd_mutex := False\<rparr>)
     } else Some (None, h, d1)
   }"

definition randws_pool_pop_private ::
    "ABT_pool_context \<Rightarrow> pool_data \<Rightarrow> thread_heap \<Rightarrow> (thread_ptr option \<times> thread_heap \<times> pool_data) option" where
  "randws_pool_pop_private ctx d h = do {
     (p, h1, q1) \<leftarrow> rws_pop ctx (pd_queue d) h;
     Some (p, h1, d\<lparr>pd_queue := q1\<rparr>)
   }"

definition randws_pool_pop_many_shared ::
    "ABT_pool_context \<Rightarrow> nat \<Rightarrow> pool_data \<Rightarrow> thread_heap \<Rightarrow> (thread_ptr list \<times> thread_heap \<times> pool_data) option" where
  "randws_pool_pop_many_shared ctx max_threads d h =
     (if max_threads \<noteq> 0 then do {
        (taken, d1) \<leftarrow> acquire_if_not_empty d;
        if taken then do {
          (ts, h1, q1) \<leftarrow> pop_units (rws_pop ctx) max_threads (pd_queue d1) h;
          Some (ts, h1, d1\<lparr>pd_queue := q1, pd_mutex := False\<rparr>)
        } else Some ([], h, d1)
      } else Some ([], h, d))"

definition randws_pool_pop_many_private ::
    "ABT_pool_context \<Rightarrow> nat \<Rightarrow> pool_data \<Rightarrow> thread_heap \<Rightarrow> (thread_ptr list \<times> thread_heap \<times> pool_data) option" where
  "randws_pool_pop_many_private ctx max_threads d h = do {
     (ts, h1, q1) \<leftarrow> pop_units (rws_pop ctx) max_threads (pd_queue d) h;
     Some (ts, h1, d\<lparr>pd_queue := q1\<rparr>)
   }"

definition randws_pool_remove_shared ::
    "nat \<Rightarrow> pool_data \<Rightarrow> thread_heap \<Rightarrow> (abt_errno \<times> thread_heap \<times> pool_data) option" where
  "randws_pool_remove_shared u d h = do {
     t \<leftarrow> ABTI_unit_get_thread_from_builtin_unit u;
     m \<leftarrow> ABTD_spinlock_acquire (pd_mutex d);
     (rc, h1, q1) \<leftarrow> thread_queue_remove (pd_queue d) t h;
     Some (rc, h1, d\<lparr>pd_queue := q1, pd_mutex := False\<rparr>)
   }"

definition randws_pool_remove_private ::
    "nat \<Rightarrow> pool_data \<Rightarrow> thread_heap \<Rightarrow> (abt_errno \<times> thread_heap \<times> pool_data) option" where
  "randws_pool_remove_private u d h = do {
     t \<leftarrow> ABTI_unit_get_thread_from_builtin_unit u;
     (rc, h1, q1) \<leftarrow> thread_queue_remove (pd_queue d) t h;
     Some (rc, h1, d\<lparr>pd_queue := q1\<rparr>)
   }"

definition randws_pool_print_all ::
    "ABT_pool_access \<Rightarrow> pool_data \<Rightarrow> thread_heap \<Rightarrow> (thread_ptr list \<times> pool_data) option" where
  "randws_pool_print_all access d h = do {
     m \<leftarrow> (if access \<noteq> ABT_POOL_ACCESS_PRIV then ABTD_spinlock_acquire (pd_mutex d)
          else Some (pd_mutex d));
     ts \<leftarrow> thread_queue_print_all (pd_queue d) h;
     Some (ts, d\<lparr>pd_mutex := (if access \<noteq> ABT_POOL_ACCESS_PRIV then False else m)\<rparr>)
   }"

definition randws_pool_unit_is_in_pool :: "nat \<Rightarrow> thread_heap \<Rightarrow> bool option" where
  "randws_pool_unit_is_in_pool u h = do {
     t \<leftarrow> ABTI_unit_get_thread_from_builtin_unit u;
     Some (is_in_pool h t)
   }"

section \<open>What the functions do to the represented list\<close>

text \<open>The abstract push and pop of this pool.\<close>

definition rws_put :: "ABT_pool_context \<Rightarrow> 'a \<Rightarrow> 'a list \<Rightarrow> 'a list" where
  "rws_put ctx t xs = (if ctx AND POOL_CONTEXT_PUSH_HEAD \<noteq> 0 then t # xs else xs @ [t])"

definition rws_take :: "ABT_pool_context \<Rightarrow> 'a list \<Rightarrow> ('a \<times> 'a list) option" where
  "rws_take ctx xs =
     (if ctx AND POOL_CONTEXT_POP_TAIL \<noteq> 0 then take_back xs else take_front xs)"

interpretation rws: unit_store tq_rep heap_eq_outside "rws_push cpush" "rws_pop cpop"
    "rws_put cpush" "rws_take cpop" for cpush cpop
proof
  fix h q xs t ys
  show "tq_rep h q xs \<Longrightarrow> t \<notin> set xs \<Longrightarrow> \<exists>h' q'. rws_push cpush q t h = Some (h', q')
      \<and> tq_rep h' q' (rws_put cpush t xs) \<and> heap_eq_outside (insert t (set xs)) h h'"
    by (simp add: rws_push_def rws_put_def push_head_rep push_tail_rep)
  show "tq_rep h q xs \<Longrightarrow> rws_take cpop xs = None \<Longrightarrow> rws_pop cpop q h = Some (None, h, q)"
    by (simp add: rws_pop_def rws_take_def pop_head_take_front pop_tail_take_back split: if_splits)
  show "tq_rep h q xs \<Longrightarrow> rws_take cpop xs = Some (t, ys) \<Longrightarrow>
      \<exists>h' q'. rws_pop cpop q h = Some (Some t, h', q') \<and> tq_rep h' q' ys \<and> heap_eq_outside (set xs) h h'"
    by (simp add: rws_pop_def rws_take_def pop_head_take_front pop_tail_take_back split: if_splits)
qed (auto simp: rws_put_def rws_take_def take_front_perm take_back_perm intro: heap_eq_outside_trans
      split: if_splits)

lemma rws_take_none: "rws_take ctx xs = None \<longleftrightarrow> xs = []"
  by (auto simp: rws_take_def take_front_def take_back_def split: list.splits)

lemma rws_take_Nil [simp]: "rws_take ctx [] = None"
  by (simp add: rws_take_none)

lemma randws_push_shared_rep:
  assumes "pool_rep h d xs" "even t" "t \<notin> set xs"
  shows "\<exists>h' d'. randws_pool_push_shared ctx (t + 1) d h = Some (h', d')
    \<and> pool_rep h' d' (rws_put ctx t xs) \<and> heap_eq_outside (insert t (set xs)) h h'"
  using assms rws.push_ok [of h "pd_queue d" xs t ctx]
  by (auto simp: randws_pool_push_shared_def pool_rep_def)

lemma randws_pop_shared_rep:
  assumes "pool_rep h d xs"
  shows "\<exists>h' d'. randws_pool_pop_shared ctx d h = Some (map_option fst (rws_take ctx xs), h', d')
    \<and> pool_rep h' d' (case rws_take ctx xs of None \<Rightarrow> [] | Some (_, ys) \<Rightarrow> ys)
    \<and> heap_eq_outside (set xs) h h'"
proof (cases "rws_take ctx xs")
  case None
  then show ?thesis
    using assms by (simp add: randws_pool_pop_shared_def acquire_if_not_empty_rep rws_take_none)
next
  case (Some p)
  then show ?thesis
    using assms rws.pop_some [of h "pd_queue d" xs ctx "fst p" "snd p"]
    by (cases "xs = []")
       (auto simp: randws_pool_pop_shared_def acquire_if_not_empty_rep pool_rep_def
         split: prod.splits)
qed

lemma randws_push_many_shared_rep:
  assumes "pool_rep h d xs" "distinct ts" "set ts \<inter> set xs = {}" "\<forall>t \<in> set ts. even t"
  shows "\<exists>h' d'. randws_pool_push_many_shared ctx (map Suc ts) d h = Some (h', d')
    \<and> pool_rep h' d' (fold (rws_put ctx) ts xs) \<and> heap_eq_outside (set ts \<union> set xs) h h'"
  using assms rws.push_units_rep [of h "pd_queue d" xs ts ctx]
  by (auto simp: randws_pool_push_many_shared_def pool_rep_def)

lemma randws_pop_many_shared_rep:
  assumes "pool_rep h d xs"
  shows "\<exists>h' d'. randws_pool_pop_many_shared ctx n d h
      = Some (fst (takes (rws_take ctx) n xs), h', d')
    \<and> pool_rep h' d' (snd (takes (rws_take ctx) n xs)) \<and> heap_eq_outside (set xs) h h'"
proof (cases "n = 0 \<or> xs = []")
  case True
  then show ?thesis
    using assms by (cases n) (auto simp: randws_pool_pop_many_shared_def acquire_if_not_empty_rep)
next
  case False
  then show ?thesis
    using assms rws.pop_units_rep [of h "pd_queue d" xs ctx n]
    by (auto simp: randws_pool_pop_many_shared_def acquire_if_not_empty_rep pool_rep_def)
qed

text \<open>The bits in use: creation and revival push to the head, stealing pops from the tail.\<close>

lemma rws_bits [simp]:
  "ABT_POOL_CONTEXT_OP_THREAD_CREATE AND POOL_CONTEXT_PUSH_HEAD \<noteq> 0"
  "ABT_POOL_CONTEXT_OP_THREAD_REVIVE AND POOL_CONTEXT_PUSH_HEAD \<noteq> 0"
  "ABT_POOL_CONTEXT_OP_THREAD_YIELD AND POOL_CONTEXT_PUSH_HEAD = 0"
  "ABT_POOL_CONTEXT_OWNER_PRIMARY AND POOL_CONTEXT_POP_TAIL = 0"
  "ABT_POOL_CONTEXT_OWNER_SECONDARY AND POOL_CONTEXT_POP_TAIL \<noteq> 0"
  by (simp_all add: POOL_CONTEXT_PUSH_HEAD_def POOL_CONTEXT_POP_TAIL_def
      ABT_POOL_CONTEXT_OP_THREAD_CREATE_def ABT_POOL_CONTEXT_OP_THREAD_CREATE_TO_def
      ABT_POOL_CONTEXT_OP_THREAD_REVIVE_def ABT_POOL_CONTEXT_OP_THREAD_REVIVE_TO_def
      ABT_POOL_CONTEXT_OP_THREAD_YIELD_def ABT_POOL_CONTEXT_OWNER_PRIMARY_def
      ABT_POOL_CONTEXT_OWNER_SECONDARY_def)

lemma rws_put_create [simp]: "rws_put ABT_POOL_CONTEXT_OP_THREAD_CREATE t xs = t # xs"
  and rws_put_yield [simp]: "rws_put ABT_POOL_CONTEXT_OP_THREAD_YIELD t xs = xs @ [t]"
  and rws_take_owner [simp]: "rws_take ABT_POOL_CONTEXT_OWNER_PRIMARY xs = take_front xs"
  and rws_take_thief [simp]: "rws_take ABT_POOL_CONTEXT_OWNER_SECONDARY xs = take_back xs"
  by (simp_all add: rws_put_def rws_take_def)

section \<open>An owner and its thieves\<close>

text \<open>
  Sequences of the four calls of work stealing on a shared pool: the owner's own push of a new
  or revived unit, its push of a unit that yielded, its pop, and the pop of a thief.
\<close>

datatype ws_op = WCreate thread_ptr | WYield thread_ptr | WPop | WSteal

fun ws_exec ::
    "ws_op \<Rightarrow> thread_heap \<times> pool_data \<Rightarrow> (thread_ptr option \<times> thread_heap \<times> pool_data) option" where
  "ws_exec (WCreate t) (h, d) = do {
     (h1, d1) \<leftarrow> randws_pool_push_shared ABT_POOL_CONTEXT_OP_THREAD_CREATE (t + 1) d h;
     Some (None, h1, d1) }"
| "ws_exec (WYield t) (h, d) = do {
     (h1, d1) \<leftarrow> randws_pool_push_shared ABT_POOL_CONTEXT_OP_THREAD_YIELD (t + 1) d h;
     Some (None, h1, d1) }"
| "ws_exec WPop (h, d) = randws_pool_pop_shared ABT_POOL_CONTEXT_OWNER_PRIMARY d h"
| "ws_exec WSteal (h, d) = randws_pool_pop_shared ABT_POOL_CONTEXT_OWNER_SECONDARY d h"

fun ws_spec :: "ws_op \<Rightarrow> thread_ptr list \<Rightarrow> (thread_ptr option \<times> thread_ptr list) option" where
  "ws_spec (WCreate t) xs = (if odd t \<or> t \<in> set xs then None else Some (None, t # xs))"
| "ws_spec (WYield t) xs = (if odd t \<or> t \<in> set xs then None else Some (None, xs @ [t]))"
| "ws_spec WPop xs = Some (if xs = [] then (None, []) else (Some (hd xs), tl xs))"
| "ws_spec WSteal xs = Some (if xs = [] then (None, []) else (Some (last xs), butlast xs))"

lemma ws_exec_spec:
  assumes "pool_rep (fst s) (snd s) xs" "ws_spec op xs = Some (r, ys)"
  shows "\<exists>s'. ws_exec op s = Some (r, s') \<and> pool_rep (fst s') (snd s') ys"
proof -
  obtain h d where s: "s = (h, d)"
    by (cases s)
  have rep: "pool_rep h d xs"
    using assms(1) s by simp
  show ?thesis
  proof (cases op)
    case (WCreate t)
    then show ?thesis
      using assms(2) s randws_push_shared_rep [OF rep, of t ABT_POOL_CONTEXT_OP_THREAD_CREATE]
      by (auto split: if_splits)
  next
    case (WYield t)
    then show ?thesis
      using assms(2) s randws_push_shared_rep [OF rep, of t ABT_POOL_CONTEXT_OP_THREAD_YIELD]
      by (auto split: if_splits)
  next
    case WPop
    then show ?thesis
      using assms(2) s randws_pop_shared_rep [OF rep, of ABT_POOL_CONTEXT_OWNER_PRIMARY]
      by (cases xs) (auto simp: take_front_def)
  next
    case WSteal
    then show ?thesis
      using assms(2) s randws_pop_shared_rep [OF rep, of ABT_POOL_CONTEXT_OWNER_SECONDARY]
      by (cases "xs = []") (auto simp: take_back_def)
  qed
qed

primrec ws_run ::
    "ws_op list \<Rightarrow> thread_heap \<times> pool_data \<Rightarrow> (thread_ptr option list \<times> thread_heap \<times> pool_data) option" where
  "ws_run [] s = Some ([], s)"
| "ws_run (x # ops) s = do {
     (r, s1) \<leftarrow> ws_exec x s; (rs, s2) \<leftarrow> ws_run ops s1; Some (r # rs, s2) }"

primrec ws_spec_run :: "ws_op list \<Rightarrow> thread_ptr list \<Rightarrow> (thread_ptr option list \<times> thread_ptr list) option" where
  "ws_spec_run [] xs = Some ([], xs)"
| "ws_spec_run (x # ops) xs = do {
     (r, ys) \<leftarrow> ws_spec x xs; (rs, zs) \<leftarrow> ws_spec_run ops ys; Some (r # rs, zs) }"

lemma ws_run_spec:
  "pool_rep (fst s) (snd s) xs \<Longrightarrow> ws_spec_run ops xs = Some (rs, zs)
    \<Longrightarrow> \<exists>s'. ws_run ops s = Some (rs, s') \<and> pool_rep (fst s') (snd s') zs"
proof (induction ops arbitrary: s xs rs)
  case (Cons x ops)
  then obtain r ys rs1 where a: "ws_spec x xs = Some (r, ys)" "ws_spec_run ops ys = Some (rs1, zs)"
    "rs = r # rs1"
    by (auto split: bind_splits)
  obtain s1 where s1: "ws_exec x s = Some (r, s1)" "pool_rep (fst s1) (snd s1) ys"
    using ws_exec_spec [OF Cons.prems(1) a(1)] by blast
  then show ?case
    using Cons.IH [OF s1(2) a(2)] a(3) by auto
qed simp

end
