(* ===== verification/KeyMap.thy ===== *)
theory KeyMap
  imports Prelude
begin

text \<open>
  The contract of the runtime's hash tables (\<^verbatim>\<open>util/hashtable.c\<close>, the thread-local storage
  of \<^verbatim>\<open>include/abti_key.h\<close>, the unit map of \<^verbatim>\<open>unit.c\<close>): what a look-up returns after an update.
  A client that issues any sequence of calls sees a map; this is proved once here, inside
  the locales, and holds for each table through its interpretation.
\<close>

text \<open>
  \<open>put\<close> gives \<open>None\<close> if it fails; it does not while there is \<open>room\<close>, the allocator's promise.
  \<open>fits k s\<close> is what a table asks of its client before \<open>k\<close> is added.
\<close>

locale key_table =
  fixes ok :: "'s \<Rightarrow> bool"
    and look :: "'k \<Rightarrow> 's \<Rightarrow> 'v option"
    and put :: "'k \<Rightarrow> 'v \<Rightarrow> 's \<Rightarrow> 's option"
    and fits :: "'k \<Rightarrow> ('k \<Rightarrow> 'v option) \<Rightarrow> bool"
  assumes put_look: "ok s \<Longrightarrow> fits k (\<lambda>k. look k s) \<Longrightarrow>
    \<exists>s'. put k v s = Some s' \<and> ok s' \<and> (\<forall>k'. look k' s' = (if k' = k then Some v else look k' s))"

context key_table
begin

primrec puts :: "('k \<times> 'v) list \<Rightarrow> 's \<Rightarrow> 's option" where
  "puts [] s = Some s"
| "puts (kv # kvs) s = Option.bind (put (fst kv) (snd kv) s) (puts kvs)"

primrec puts_map :: "('k \<times> 'v) list \<Rightarrow> ('k \<Rightarrow> 'v option) \<Rightarrow> ('k \<Rightarrow> 'v option) option" where
  "puts_map [] m = Some m"
| "puts_map (kv # kvs) m = (if fits (fst kv) m then puts_map kvs (m(fst kv \<mapsto> snd kv)) else None)"

lemma put_map:
  assumes "ok s" "fits k (\<lambda>k. look k s)"
  shows "\<exists>s'. put k v s = Some s' \<and> ok s' \<and> (\<lambda>k. look k s') = (\<lambda>k. look k s)(k \<mapsto> v)"
  using put_look [OF assms, of v] by (auto simp: fun_eq_iff)

lemma puts_refine:
  "ok s \<Longrightarrow> puts_map kvs (\<lambda>k. look k s) = Some m \<Longrightarrow>
    \<exists>s'. puts kvs s = Some s' \<and> ok s' \<and> (\<lambda>k. look k s') = m"
proof (induction kvs arbitrary: s)
  case (Cons kv kvs)
  then have "fits (fst kv) (\<lambda>k. look k s)"
    by (auto split: if_splits)
  then obtain s1 where s1: "put (fst kv) (snd kv) s = Some s1" "ok s1"
    "(\<lambda>k. look k s1) = (\<lambda>k. look k s)(fst kv \<mapsto> snd kv)"
    using put_map [OF Cons.prems(1)] by blast
  then show ?case
    using Cons.IH [OF s1(2)] Cons.prems(2) by (auto split: if_splits)
qed simp

end

text \<open>A table with deletion; the flag tells whether the key was there.\<close>

locale deletable_table = key_table ok look put fits
  for ok :: "'s \<Rightarrow> bool" and look :: "'k \<Rightarrow> 's \<Rightarrow> 'v option" and put and fits +
  fixes del :: "'k \<Rightarrow> 's \<Rightarrow> (bool \<times> 's) option"
    and may_del :: "'k \<Rightarrow> ('k \<Rightarrow> 'v option) \<Rightarrow> bool"
  assumes del_look: "ok s \<Longrightarrow> may_del k (\<lambda>k. look k s) \<Longrightarrow>
    \<exists>s'. del k s = Some (look k s \<noteq> None, s') \<and> ok s' \<and> (\<forall>k'. look k' s' = (if k' = k then None else look k' s))"

datatype ('k, 'v) map_op = MPut 'k 'v | MGet 'k | MDel 'k

datatype 'v map_res = RPut | RGot "'v option" | RDel bool

context deletable_table
begin

primrec exec :: "('k, 'v) map_op \<Rightarrow> 's \<Rightarrow> ('v map_res \<times> 's) option" where
  "exec (MPut k v) s = map_option (\<lambda>s'. (RPut, s')) (put k v s)"
| "exec (MGet k) s = Some (RGot (look k s), s)"
| "exec (MDel k) s = map_option (\<lambda>(b, s'). (RDel b, s')) (del k s)"

primrec spec :: "('k, 'v) map_op \<Rightarrow> ('k \<Rightarrow> 'v option) \<Rightarrow> ('v map_res \<times> ('k \<Rightarrow> 'v option)) option" where
  "spec (MPut k v) m = (if fits k m then Some (RPut, m(k \<mapsto> v)) else None)"
| "spec (MGet k) m = Some (RGot (m k), m)"
| "spec (MDel k) m = (if may_del k m then Some (RDel (m k \<noteq> None), m(k := None)) else None)"

primrec execs :: "('k, 'v) map_op list \<Rightarrow> 's \<Rightarrow> ('v map_res list \<times> 's) option" where
  "execs [] s = Some ([], s)"
| "execs (x # xs) s = Option.bind (exec x s) (\<lambda>(r, s1). map_option (\<lambda>(rs, s2). (r # rs, s2)) (execs xs s1))"

primrec specs ::
    "('k, 'v) map_op list \<Rightarrow> ('k \<Rightarrow> 'v option) \<Rightarrow> ('v map_res list \<times> ('k \<Rightarrow> 'v option)) option" where
  "specs [] m = Some ([], m)"
| "specs (x # xs) m = Option.bind (spec x m) (\<lambda>(r, m1). map_option (\<lambda>(rs, m2). (r # rs, m2)) (specs xs m1))"

lemma del_map:
  assumes "ok s" "may_del k (\<lambda>k. look k s)"
  shows "\<exists>s'. del k s = Some (look k s \<noteq> None, s') \<and> ok s' \<and> (\<lambda>k. look k s') = (\<lambda>k. look k s)(k := None)"
  using del_look [OF assms] by (auto simp: fun_eq_iff)

lemma exec_refines:
  assumes "ok s" "spec x (\<lambda>k. look k s) = Some (r, m)"
  shows "\<exists>s'. exec x s = Some (r, s') \<and> ok s' \<and> (\<lambda>k. look k s') = m"
proof (cases x)
  case (MPut k v)
  then show ?thesis
    using assms put_map [OF assms(1), of k v] by (auto split: if_splits)
next
  case (MGet k)
  then show ?thesis
    using assms by auto
next
  case (MDel k)
  then show ?thesis
    using assms del_map [OF assms(1), of k] by (auto split: if_splits)
qed

lemma execs_refine:
  "ok s \<Longrightarrow> specs xs (\<lambda>k. look k s) = Some (rs, m) \<Longrightarrow>
    \<exists>s'. execs xs s = Some (rs, s') \<and> ok s' \<and> (\<lambda>k. look k s') = m"
proof (induction xs arbitrary: s rs)
  case (Cons x xs)
  then obtain r m1 rs1 where a: "spec x (\<lambda>k. look k s) = Some (r, m1)" "specs xs m1 = Some (rs1, m)"
    "rs = r # rs1"
    by (auto simp: bind_eq_Some_conv)
  obtain s1 where s1: "exec x s = Some (r, s1)" "ok s1" "(\<lambda>k. look k s1) = m1"
    using exec_refines [OF Cons.prems(1) a(1)] by blast
  then show ?case
    using Cons.IH [OF s1(2)] a by auto
qed simp

end

end
