(* ===== verification/HashTable.thy ===== *)
theory HashTable
  imports KeyMap "HOL-Library.Signed_Division"
begin

text \<open>
  The hash table with integer keys (\<^verbatim>\<open>argobots_framework/src/util/hashtable.c\<close>). Every entry
  holds its first element in place, empty if its data pointer is NULL, and a chain of allocated
  elements behind it. The chains are not shared, so a chain is a list of keys and data; the data
  are \<^verbatim>\<open>data_size\<close> bytes copied in and out, any value \<open>'v\<close> here. Allocation may fail where the
  code allocates. A table of no entries divides by zero, \<open>None\<close>.
\<close>

record 'v ht_bucket =
  hb_key :: int
  hb_data :: "'v option"
  hb_next :: "(int \<times> 'v) list"

record 'v hashtable =
  ht_num_entries :: nat
  ht_entry :: "nat \<Rightarrow> 'v ht_bucket"

section \<open>Operations\<close>

definition ABTU_hashtable_create :: "bool \<Rightarrow> nat \<Rightarrow> abt_errno \<times> 'v hashtable option" where
  "ABTU_hashtable_create calloc_ok num_entries =
     (if calloc_ok
      then (ABT_SUCCESS, Some \<lparr>ht_num_entries = num_entries,
              ht_entry = (\<lambda>_. \<lparr>hb_key = 0, hb_data = None, hb_next = []\<rparr>)\<rparr>)
      else (ABT_ERR_MEM, None))"

text \<open>The remainder of C takes the sign of the key.\<close>

definition entry_index :: "nat \<Rightarrow> int \<Rightarrow> nat option" where
  "entry_index num_entries key =
     (if num_entries = 0 then None
      else let tmp = key smod int num_entries
           in Some (nat (if tmp < 0 then tmp + int num_entries else tmp)))"

text \<open>The loops over the elements of an entry, its own one first.\<close>

fun get_loop :: "int \<Rightarrow> (int \<times> 'v) list \<Rightarrow> 'v option" where
  "get_loop key [] = None"
| "get_loop key ((k, v) # es) = (if k = key then Some v else get_loop key es)"

definition ABTU_hashtable_get :: "'v hashtable \<Rightarrow> int \<Rightarrow> 'v option option" where
  "ABTU_hashtable_get t key = do {
     i \<leftarrow> entry_index (ht_num_entries t) key;
     Some (case hb_data (ht_entry t i) of
             None \<Rightarrow> None
           | Some v \<Rightarrow> get_loop key ((hb_key (ht_entry t i), v) # hb_next (ht_entry t i)))
   }"

text \<open>The elements after the loop of \<^verbatim>\<open>set\<close>, and whether one was overwritten; \<open>None\<close> if out of memory.\<close>

fun set_loop :: "bool \<Rightarrow> int \<Rightarrow> 'v \<Rightarrow> (int \<times> 'v) list \<Rightarrow> (bool \<times> (int \<times> 'v) list) option" where
  "set_loop calloc_ok key v [] = None"
| "set_loop calloc_ok key v ((k, w) # es) =
     (if k = key then Some (True, (k, v) # es)
      else if es = [] then (if calloc_ok then Some (False, [(k, w), (key, v)]) else None)
      else map_option (\<lambda>(b, es'). (b, (k, w) # es')) (set_loop calloc_ok key v es))"

definition ABTU_hashtable_set ::
    "bool \<Rightarrow> 'v hashtable \<Rightarrow> int \<Rightarrow> 'v \<Rightarrow> (abt_errno \<times> bool \<times> 'v hashtable) option" where
  "ABTU_hashtable_set calloc_ok t key v = do {
     i \<leftarrow> entry_index (ht_num_entries t) key;
     let b = ht_entry t i;
     Some (case hb_data b of
             None \<Rightarrow> (ABT_SUCCESS, False,
               t\<lparr>ht_entry := (ht_entry t)(i := b\<lparr>hb_key := key, hb_data := Some v\<rparr>)\<rparr>)
           | Some w \<Rightarrow>
               (case set_loop calloc_ok key v ((hb_key b, w) # hb_next b) of
                  Some (ow, (k', w') # es) \<Rightarrow> (ABT_SUCCESS, ow,
                    t\<lparr>ht_entry := (ht_entry t)(i := b\<lparr>hb_key := k', hb_data := Some w', hb_next := es\<rparr>)\<rparr>)
                | _ \<Rightarrow> (ABT_ERR_MEM, False, t)))
   }"

text \<open>The loop of \<^verbatim>\<open>delete\<close> over the chain behind the first element.\<close>

fun delete_loop :: "int \<Rightarrow> (int \<times> 'v) list \<Rightarrow> bool \<times> (int \<times> 'v) list" where
  "delete_loop key [] = (False, [])"
| "delete_loop key ((k, w) # es) =
     (if k = key then (True, es)
      else (case delete_loop key es of (b, es') \<Rightarrow> (b, (k, w) # es')))"

definition ABTU_hashtable_delete :: "'v hashtable \<Rightarrow> int \<Rightarrow> (bool \<times> 'v hashtable) option" where
  "ABTU_hashtable_delete t key = do {
     i \<leftarrow> entry_index (ht_num_entries t) key;
     let b = ht_entry t i;
     Some (case hb_data b of
             None \<Rightarrow> (False, t)
           | Some w \<Rightarrow>
               if hb_key b = key then
                 (case hb_next b of
                    (k', w') # es \<Rightarrow> (True, t\<lparr>ht_entry := (ht_entry t)(i :=
                      b\<lparr>hb_key := k', hb_data := Some w', hb_next := es\<rparr>)\<rparr>)
                  | [] \<Rightarrow> (True, t\<lparr>ht_entry := (ht_entry t)(i := b\<lparr>hb_data := None\<rparr>)\<rparr>))
               else (case delete_loop key (hb_next b) of
                       (d, es) \<Rightarrow> (d, t\<lparr>ht_entry := (ht_entry t)(i := b\<lparr>hb_next := es\<rparr>)\<rparr>)))
   }"

section \<open>Invariant\<close>

definition elems :: "'v ht_bucket \<Rightarrow> (int \<times> 'v) list" where
  "elems b = (case hb_data b of None \<Rightarrow> [] | Some v \<Rightarrow> (hb_key b, v) # hb_next b)"

text \<open>Keys are distinct within an entry, belong there, and an empty entry has no chain.\<close>

definition ht_ok :: "'v hashtable \<Rightarrow> bool" where
  "ht_ok t \<longleftrightarrow> ht_num_entries t \<noteq> 0 \<and>
     (\<forall>i. distinct (map fst (elems (ht_entry t i))) \<and>
        (hb_data (ht_entry t i) = None \<longrightarrow> hb_next (ht_entry t i) = []) \<and>
        (\<forall>k \<in> fst ` set (elems (ht_entry t i)). entry_index (ht_num_entries t) k = Some i))"

definition ht_look :: "int \<Rightarrow> 'v hashtable \<Rightarrow> 'v option" where
  "ht_look key t = (case ABTU_hashtable_get t key of Some (Some v) \<Rightarrow> Some v | _ \<Rightarrow> None)"

lemma get_loop_map_of: "get_loop key es = map_of es key"
  by (induction key es rule: get_loop.induct) auto

lemma smod_to_mod:
  assumes "0 < (n::int)"
  shows "(if key smod n < 0 then key smod n + n else key smod n) = key mod n"
proof -
  let ?r = "key smod n"
  have r: "- n < ?r" "?r < n"
    using smod_int_range [of n key] assms by auto
  have k: "key mod n = ?r mod n"
    using mod_mult_self1 [of ?r "key sdiv n" n] by (simp add: smod_sdiv_mult_eq)
  show ?thesis
  proof (cases "?r < 0")
    case True
    have "(?r + n) mod n = ?r + n"
      using r True by (intro mod_pos_pos_trivial) auto
    then show ?thesis
      using True k by simp
  next
    case False
    then have "?r mod n = ?r"
      using r by (intro mod_pos_pos_trivial) auto
    then show ?thesis
      using False k by simp
  qed
qed

lemma entry_index_mod:
  assumes "n \<noteq> 0"
  shows "entry_index n key = Some (nat (key mod int n))"
  using assms smod_to_mod [of "int n" key] by (simp add: entry_index_def Let_def)

lemma ht_look_map:
  "ht_ok t \<Longrightarrow> entry_index (ht_num_entries t) key = Some i \<Longrightarrow>
    ABTU_hashtable_get t key = Some (map_of (elems (ht_entry t i)) key)"
  by (simp add: ABTU_hashtable_get_def elems_def get_loop_map_of split: option.split)

lemma index_some: "ht_ok t \<Longrightarrow> \<exists>i. entry_index (ht_num_entries t) key = Some i"
  by (simp add: ht_ok_def entry_index_mod)

lemma set_loop_ok:
  "es \<noteq> [] \<Longrightarrow> distinct (map fst es) \<Longrightarrow>
    \<exists>b es'. set_loop True key v es = Some (b, es') \<and> es' \<noteq> [] \<and> distinct (map fst es') \<and>
      fst ` set es' = insert key (fst ` set es) \<and> map_of es' = (map_of es)(key \<mapsto> v) \<and>
      b = (key \<in> fst ` set es)"
proof (induction es)
  case (Cons kw es)
  obtain k w where kw: "kw = (k, w)"
    by (cases kw)
  show ?case
  proof (cases "k = key")
    case True
    then show ?thesis
      using Cons.prems kw by (intro exI [of _ True] exI [of _ "(k, v) # es"]) (simp add: fun_eq_iff)
  next
    case False
    show ?thesis
    proof (cases "es = []")
      case True
      then show ?thesis
        using False kw by (intro exI [of _ False] exI [of _ "[(k, w), (key, v)]"]) (auto simp: fun_eq_iff)
    next
      case es: False
      have "distinct (map fst es)"
        using Cons.prems(2) by simp
      from Cons.IH [OF es this] obtain b es' where s: "set_loop True key v es = Some (b, es')" "distinct (map fst es')"
        "fst ` set es' = insert key (fst ` set es)" "map_of es' = (map_of es)(key \<mapsto> v)"
        "b = (key \<in> fst ` set es)"
        by blast
      have "k \<notin> fst ` set es'"
        using s(3) False Cons.prems(2) kw by simp
      then show ?thesis
        using False es s kw
        by (intro exI [of _ b] exI [of _ "(k, w) # es'"]) (auto simp: fun_eq_iff)
    qed
  qed
qed simp

lemma delete_loop_ok:
  "distinct (map fst es) \<Longrightarrow> delete_loop key es = (b, es') \<Longrightarrow>
    b = (key \<in> fst ` set es) \<and> distinct (map fst es') \<and> fst ` set es' = fst ` set es - {key} \<and>
    map_of es' = (map_of es)(key := None)"
proof (induction es arbitrary: b es')
  case (Cons kw es)
  obtain k w where kw: "kw = (k, w)"
    by (cases kw)
  obtain b1 es1 where d: "delete_loop key es = (b1, es1)"
    by (cases "delete_loop key es")
  show ?case
  proof (cases "k = key")
    case True
    then have "b = True" "es' = es" "map_of es key = None"
      using Cons.prems kw by (auto simp: map_of_eq_None_iff)
    then show ?thesis
      using True kw Cons.prems by (auto simp: fun_eq_iff)
  next
    case False
    then have r: "b = b1" "es' = (k, w) # es1"
      using Cons.prems(2) kw d by simp_all
    show ?thesis
      using Cons.IH [OF _ d] Cons.prems(1) False unfolding r kw by (auto simp: fun_eq_iff)
  qed
qed simp

text \<open>Replacing the elements of one entry.\<close>

lemma ht_update:
  assumes ok: "ht_ok t" and i: "entry_index (ht_num_entries t) key = Some i"
    and b: "distinct (map fst (elems b))" "hb_data b = None \<longrightarrow> hb_next b = []"
    and k: "fst ` set (elems b) \<subseteq> insert key (fst ` set (elems (ht_entry t i)))"
    and m: "map_of (elems b) = (map_of (elems (ht_entry t i)))(key := r)"
  shows "ht_ok (t\<lparr>ht_entry := (ht_entry t)(i := b)\<rparr>)"
    and "ht_look key' (t\<lparr>ht_entry := (ht_entry t)(i := b)\<rparr>) = (if key' = key then r else ht_look key' t)"
proof -
  have "\<forall>k \<in> fst ` set (elems (ht_entry t i)). entry_index (ht_num_entries t) k = Some i"
    using ok unfolding ht_ok_def by blast
  then have "\<forall>k \<in> fst ` set (elems b). entry_index (ht_num_entries t) k = Some i"
    using i k by blast
  then show ok': "ht_ok (t\<lparr>ht_entry := (ht_entry t)(i := b)\<rparr>)"
    using ok b by (simp add: ht_ok_def)
  obtain j where j: "entry_index (ht_num_entries t) key' = Some j"
    using index_some [OF ok] by blast
  have "ABTU_hashtable_get (t\<lparr>ht_entry := (ht_entry t)(i := b)\<rparr>) key'
      = Some (map_of (elems (((ht_entry t)(i := b)) j)) key')"
    using ht_look_map [OF ok', of key' j] j by simp
  moreover have "ABTU_hashtable_get t key' = Some (map_of (elems (ht_entry t j)) key')"
    using ht_look_map [OF ok j] .
  ultimately show "ht_look key' (t\<lparr>ht_entry := (ht_entry t)(i := b)\<rparr>) = (if key' = key then r else ht_look key' t)"
    using i j m by (auto simp: ht_look_def split: option.split)
qed

definition ht_put :: "int \<Rightarrow> 'v \<Rightarrow> 'v hashtable \<Rightarrow> 'v hashtable option" where
  "ht_put key v t =
     (case ABTU_hashtable_set True t key v of Some (ABT_SUCCESS, _, t') \<Rightarrow> Some t' | _ \<Rightarrow> None)"

lemma ht_set_ok:
  assumes ok: "ht_ok t"
  shows "\<exists>t'. ABTU_hashtable_set True t key v = Some (ABT_SUCCESS, ht_look key t \<noteq> None, t') \<and> ht_ok t' \<and>
    (\<forall>key'. ht_look key' t' = (if key' = key then Some v else ht_look key' t))"
proof -
  obtain i where i: "entry_index (ht_num_entries t) key = Some i"
    using index_some [OF ok] by blast
  let ?b = "ht_entry t i"
  have b: "distinct (map fst (elems ?b))" "hb_data ?b = None \<Longrightarrow> hb_next ?b = []"
    using ok by (auto simp: ht_ok_def)
  have lk: "ht_look key t = map_of (elems ?b) key"
    using ht_look_map [OF ok i] by (simp add: ht_look_def split: option.split)
  show ?thesis
  proof (cases "hb_data ?b")
    case None
    let ?n = "?b\<lparr>hb_key := key, hb_data := Some v\<rparr>"
    have e: "elems ?b = []" "elems ?n = [(key, v)]"
      using None b(2) by (simp_all add: elems_def)
    have "ABTU_hashtable_set True t key v
        = Some (ABT_SUCCESS, ht_look key t \<noteq> None, t\<lparr>ht_entry := (ht_entry t)(i := ?n)\<rparr>)"
      using i None lk e by (simp add: ABTU_hashtable_set_def Let_def)
    then show ?thesis
      using ht_update [OF ok i, of ?n "Some v"] e by (auto simp: fun_eq_iff)
  next
    case (Some w)
    then have e: "elems ?b = (hb_key ?b, w) # hb_next ?b"
      by (simp add: elems_def)
    obtain ow es where s: "set_loop True key v (elems ?b) = Some (ow, es)" "es \<noteq> []" "distinct (map fst es)"
      "fst ` set es = insert key (fst ` set (elems ?b))" "map_of es = (map_of (elems ?b))(key \<mapsto> v)"
      "ow = (key \<in> fst ` set (elems ?b))"
      using set_loop_ok [of "elems ?b" key v] b(1) e by auto
    obtain k' w' es' where es: "es = (k', w') # es'"
      using s(2) by (cases es) auto
    let ?n = "?b\<lparr>hb_key := k', hb_data := Some w', hb_next := es'\<rparr>"
    have n: "elems ?n = es"
      using es by (simp add: elems_def)
    have "ow = (ht_look key t \<noteq> None)"
      using s(6) lk by (simp add: map_of_eq_None_iff)
    then have "ABTU_hashtable_set True t key v
        = Some (ABT_SUCCESS, ht_look key t \<noteq> None, t\<lparr>ht_entry := (ht_entry t)(i := ?n)\<rparr>)"
      using i Some s(1) es e by (simp add: ABTU_hashtable_set_def Let_def)
    then show ?thesis
      using ht_update [OF ok i, of ?n "Some v"] n s by auto
  qed
qed

text \<open>If memory runs out, nothing has changed.\<close>

lemma set_loop_failed: "set_loop b key v es = None \<Longrightarrow> es \<noteq> [] \<Longrightarrow> \<not> b \<and> key \<notin> fst ` set es"
  by (induction b key v es rule: set_loop.induct) (auto split: if_splits)

lemma ht_set_failed:
  assumes "ABTU_hashtable_set b t key v = Some (ABT_ERR_MEM, ow, t')"
  shows "t' = t \<and> \<not> ow"
  using assms by (auto simp: ABTU_hashtable_set_def Let_def split: bind_splits option.splits prod.splits list.splits)

lemma ht_delete_ok:
  assumes ok: "ht_ok t"
  shows "\<exists>t'. ABTU_hashtable_delete t key = Some (ht_look key t \<noteq> None, t') \<and> ht_ok t' \<and>
    (\<forall>key'. ht_look key' t' = (if key' = key then None else ht_look key' t))"
proof -
  obtain i where i: "entry_index (ht_num_entries t) key = Some i"
    using index_some [OF ok] by blast
  let ?b = "ht_entry t i"
  have b: "distinct (map fst (elems ?b))" "hb_data ?b = None \<Longrightarrow> hb_next ?b = []"
    using ok by (auto simp: ht_ok_def)
  have lk: "ht_look key t = map_of (elems ?b) key"
    using ht_look_map [OF ok i] by (simp add: ht_look_def split: option.split)
  show ?thesis
  proof (cases "hb_data ?b")
    case None
    then have "elems ?b = []"
      by (simp add: elems_def)
    then have "ABTU_hashtable_delete t key = Some (ht_look key t \<noteq> None, t)" "ht_look key t = None"
      using i None lk by (simp_all add: ABTU_hashtable_delete_def Let_def)
    then show ?thesis
      using ok by auto
  next
    case (Some w)
    then have e: "elems ?b = (hb_key ?b, w) # hb_next ?b"
      by (simp add: elems_def)
    show ?thesis
    proof (cases "hb_key ?b = key")
      case True
      have "ht_look key t \<noteq> None"
        using lk e True by simp
      show ?thesis
      proof (cases "hb_next ?b")
        case Nil
        let ?n = "?b\<lparr>hb_data := None\<rparr>"
        have n: "elems ?n = []"
          by (simp add: elems_def)
        have "ABTU_hashtable_delete t key = Some (True, t\<lparr>ht_entry := (ht_entry t)(i := ?n)\<rparr>)"
          using i Some True Nil by (simp add: ABTU_hashtable_delete_def Let_def)
        then show ?thesis
          using ht_update [OF ok i, of ?n None] n e True Nil \<open>ht_look key t \<noteq> None\<close>
          by (auto simp: fun_eq_iff)
      next
        case (Cons kw es)
        obtain k' w' where kw: "kw = (k', w')"
          by (cases kw)
        let ?n = "?b\<lparr>hb_key := k', hb_data := Some w', hb_next := es\<rparr>"
        have n: "elems ?n = (k', w') # es" "key \<noteq> k'" "key \<notin> fst ` set es"
          using b(1) e Cons kw True by (auto simp: elems_def)
        have "ABTU_hashtable_delete t key = Some (True, t\<lparr>ht_entry := (ht_entry t)(i := ?n)\<rparr>)"
          using i Some True Cons kw by (simp add: ABTU_hashtable_delete_def Let_def)
        moreover have "map_of (elems ?n) = (map_of (elems ?b))(key := None)"
          using n e True Cons kw by (auto simp: fun_eq_iff map_of_eq_None_iff)
        moreover have "distinct (map fst (elems ?n))" "hb_data ?n = None \<longrightarrow> hb_next ?n = []"
          "fst ` set (elems ?n) \<subseteq> insert key (fst ` set (elems ?b))"
          using n e b(1) Cons kw by auto
        ultimately show ?thesis
          using ht_update [OF ok i, of ?n None] \<open>ht_look key t \<noteq> None\<close> by auto
      qed
    next
      case False
      obtain d es where dl: "delete_loop key (hb_next ?b) = (d, es)"
        by (cases "delete_loop key (hb_next ?b)")
      have dist: "distinct (map fst (hb_next ?b))"
        using b(1) e by simp
      note del = delete_loop_ok [OF dist dl]
      let ?n = "?b\<lparr>hb_next := es\<rparr>"
      have n: "elems ?n = (hb_key ?b, w) # es"
        using Some by (simp add: elems_def)
      have "d = (ht_look key t \<noteq> None)"
        using lk e False del by (simp add: map_of_eq_None_iff)
      then have "ABTU_hashtable_delete t key
          = Some (ht_look key t \<noteq> None, t\<lparr>ht_entry := (ht_entry t)(i := ?n)\<rparr>)"
        using i Some False dl by (simp add: ABTU_hashtable_delete_def Let_def)
      moreover have "map_of (elems ?n) = (map_of (elems ?b))(key := None)"
        using n e False del by (auto simp: fun_eq_iff)
      moreover have "distinct (map fst (elems ?n))" "hb_data ?n = None \<longrightarrow> hb_next ?n = []"
        "fst ` set (elems ?n) \<subseteq> insert key (fst ` set (elems ?b))"
        using n e b(1) Some del by auto
      ultimately show ?thesis
        using ht_update [OF ok i, of ?n None] by auto
    qed
  qed
qed

interpretation ht: deletable_table ht_ok ht_look ht_put "\<lambda>_ _. True"
    "\<lambda>key t. ABTU_hashtable_delete t key" "\<lambda>_ _. True"
proof unfold_locales
  fix t :: "'v hashtable" and k v
  assume "ht_ok t"
  from ht_set_ok [OF this, of k v] show "\<exists>t'. ht_put k v t = Some t' \<and> ht_ok t' \<and>
      (\<forall>k'. ht_look k' t' = (if k' = k then Some v else ht_look k' t))"
    by (auto simp: ht_put_def)
next
  fix t :: "'v hashtable" and k
  assume "ht_ok t"
  from ht_delete_ok [OF this, of k] show "\<exists>t'. ABTU_hashtable_delete t k = Some (ht_look k t \<noteq> None, t') \<and>
      ht_ok t' \<and> (\<forall>k'. ht_look k' t' = (if k' = k then None else ht_look k' t))"
    by auto
qed

lemma ht_create_ok:
  assumes "ABTU_hashtable_create True n = (ABT_SUCCESS, Some t)" "n \<noteq> 0"
  shows "ht_ok t \<and> (\<lambda>k. ht_look k t) = (\<lambda>_. None)"
  using assms
  by (auto simp: ABTU_hashtable_create_def ht_ok_def elems_def ht_look_def ABTU_hashtable_get_def
      entry_index_mod fun_eq_iff)

end
