(* ===== verification/Config.thy ===== *)
theory Config
  imports HashTable Complex_Main
begin

text \<open>
  The configuration objects of schedulers and pools
  (\<^verbatim>\<open>argobots_framework/src/sched/sched_config.c\<close>, \<^verbatim>\<open>argobots_framework/src/pool/pool_config.c\<close>):
  tables from indices to typed values over the hash table of theory HashTable. A value is an
  \<^verbatim>\<open>int\<close>, a \<^verbatim>\<open>double\<close> (a real here) or a pointer; the tag of an element is its constructor. What
  a \<^verbatim>\<open>void *\<close> points to is such a value too, and reading it at another type is \<open>None\<close>.

  The functions are shown to act on the map the table represents, \<open>config_map\<close>, and creating a
  configuration from a list of arguments to build the map of that list, the last one winning.
\<close>

section \<open>Elements\<close>

datatype config_element = V_int int | V_double real | V_ptr nat

datatype config_type = CONFIG_INT | CONFIG_DOUBLE | CONFIG_PTR | CONFIG_other nat

fun sched_config_create_element_typed :: "config_type \<Rightarrow> config_element \<Rightarrow> (abt_errno \<times> config_element) option" where
  "sched_config_create_element_typed CONFIG_INT (V_int v) = Some (ABT_SUCCESS, V_int v)"
| "sched_config_create_element_typed CONFIG_DOUBLE (V_double v) = Some (ABT_SUCCESS, V_double v)"
| "sched_config_create_element_typed CONFIG_PTR (V_ptr v) = Some (ABT_SUCCESS, V_ptr v)"
| "sched_config_create_element_typed (CONFIG_other n) e = Some (ABT_ERR_INV_ARG, e)"
| "sched_config_create_element_typed _ _ = None"

fun element_type :: "config_element \<Rightarrow> config_type" where
  "element_type (V_int _) = CONFIG_INT"
| "element_type (V_double _) = CONFIG_DOUBLE"
| "element_type (V_ptr _) = CONFIG_PTR"

lemma create_element_typed_ok [simp]:
  "sched_config_create_element_typed (element_type v) v = Some (ABT_SUCCESS, v)"
  by (cases v) simp_all

section \<open>Scheduler configurations\<close>

type_synonym config = "config_element hashtable"

definition SCHED_CONFIG_HTABLE_SIZE :: nat where "SCHED_CONFIG_HTABLE_SIZE = 8"

definition ABT_sched_config_var_end :: int where "ABT_sched_config_var_end = -1"

definition ABT_sched_config_automatic :: int where "ABT_sched_config_automatic = -3"

definition ABT_sched_basic_freq :: int where "ABT_sched_basic_freq = -4"

text \<open>
  The loop over the variable arguments: per variable whether an allocation in the table would
  succeed, its index, its type and the argument that follows it. Without the end marker the loop
  reads past the arguments.
\<close>

fun config_args :: "(bool \<times> int \<times> config_type \<times> config_element) list \<Rightarrow> config \<Rightarrow> (abt_errno \<times> config) option" where
  "config_args [] t = None"
| "config_args ((mem, idx, ty, arg) # args) t =
     (if idx = ABT_sched_config_var_end then Some (ABT_SUCCESS, t)
      else do {
        (err, data) \<leftarrow> sched_config_create_element_typed ty arg;
        (if err = ABT_SUCCESS then do {
           (err2, _, t2) \<leftarrow> ABTU_hashtable_set mem t idx data;
           if err2 = ABT_SUCCESS then config_args args t2 else Some (err2, t2)
         } else Some (err, t))
      })"

definition ABT_sched_config_create ::
    "bool \<Rightarrow> bool \<Rightarrow> (bool \<times> int \<times> config_type \<times> config_element) list \<Rightarrow> (abt_errno \<times> config option) option" where
  "ABT_sched_config_create calloc_ok table_ok args =
     (if \<not> calloc_ok then Some (ABT_ERR_MEM, None)
      else case ABTU_hashtable_create table_ok SCHED_CONFIG_HTABLE_SIZE of
             (err, None) \<Rightarrow> Some (err, None)
           | (err, Some t) \<Rightarrow> do {
               (err2, t2) \<leftarrow> config_args args t;
               Some (err2, if err2 = ABT_SUCCESS then Some t2 else None)
             })"

definition ABTI_sched_config_read :: "config \<Rightarrow> int \<Rightarrow> (abt_errno \<times> config_element option) option" where
  "ABTI_sched_config_read c idx = do {
     r \<leftarrow> ABTU_hashtable_get c idx;
     Some (case r of Some e \<Rightarrow> (ABT_SUCCESS, Some e) | None \<Rightarrow> (ABT_ERR_INV_ARG, None))
   }"

text \<open>Reading the variables \<open>0, 1, \<dots>\<close>; a NULL pointer skips one, and what is not found is left as it was.\<close>

fun read_vars :: "config \<Rightarrow> int \<Rightarrow> config_element option list \<Rightarrow> config_element option list option" where
  "read_vars c idx [] = Some []"
| "read_vars c idx (p # ps) = do {
     p' \<leftarrow> (case p of
              None \<Rightarrow> Some None
            | Some old \<Rightarrow> do {
                r \<leftarrow> ABTU_hashtable_get c idx;
                Some (Some (case r of Some e \<Rightarrow> e | None \<Rightarrow> old))
              });
     ps' \<leftarrow> read_vars c (idx + 1) ps;
     Some (p' # ps')
   }"

definition ABT_sched_config_read ::
    "config option \<Rightarrow> config_element option list \<Rightarrow> (abt_errno \<times> config_element option list) option" where
  "ABT_sched_config_read config ptrs =
     (case config of
        None \<Rightarrow> Some (ABT_ERR_INV_SCHED_CONFIG, ptrs)
      | Some c \<Rightarrow> map_option (\<lambda>ps. (ABT_SUCCESS, ps)) (read_vars c 0 ptrs))"

definition ABT_sched_config_free :: "config option \<Rightarrow> abt_errno \<times> config option" where
  "ABT_sched_config_free config =
     (case config of None \<Rightarrow> (ABT_ERR_INV_SCHED_CONFIG, None) | Some c \<Rightarrow> (ABT_SUCCESS, None))"

definition ABT_sched_config_set ::
    "bool \<Rightarrow> config option \<Rightarrow> int \<Rightarrow> config_type \<Rightarrow> config_element option \<Rightarrow> (abt_errno \<times> config option) option" where
  "ABT_sched_config_set mem config idx ty val =
     (case config of
        None \<Rightarrow> Some (ABT_ERR_INV_SCHED_CONFIG, None)
      | Some c \<Rightarrow>
          (case val of
             Some v \<Rightarrow> do {
               (err, data) \<leftarrow> sched_config_create_element_typed ty v;
               (if err = ABT_SUCCESS then do {
                  (err2, _, c2) \<leftarrow> ABTU_hashtable_set mem c idx data;
                  Some (err2, Some c2)
                } else Some (err, Some c))
             }
           | None \<Rightarrow> map_option (\<lambda>(_, c2). (ABT_SUCCESS, Some c2)) (ABTU_hashtable_delete c idx)))"

definition ABT_sched_config_get ::
    "config option \<Rightarrow> int \<Rightarrow> (abt_errno \<times> (config_type \<times> config_element) option) option" where
  "ABT_sched_config_get config idx =
     (case config of
        None \<Rightarrow> Some (ABT_ERR_INV_SCHED_CONFIG, None)
      | Some c \<Rightarrow> do {
          r \<leftarrow> ABTU_hashtable_get c idx;
          Some (case r of Some e \<Rightarrow> (ABT_SUCCESS, Some (element_type e, e)) | None \<Rightarrow> (ABT_ERR_INV_ARG, None))
        })"

section \<open>Pool configurations\<close>

definition POOL_CONFIG_HTABLE_SIZE :: nat where "POOL_CONFIG_HTABLE_SIZE = 8"

definition ABT_pool_config_automatic :: int where "ABT_pool_config_automatic = -2"

fun pool_config_create_element_typed :: "config_type \<Rightarrow> config_element \<Rightarrow> (abt_errno \<times> config_element) option" where
  "pool_config_create_element_typed CONFIG_INT (V_int v) = Some (ABT_SUCCESS, V_int v)"
| "pool_config_create_element_typed CONFIG_DOUBLE (V_double v) = Some (ABT_SUCCESS, V_double v)"
| "pool_config_create_element_typed CONFIG_PTR (V_ptr v) = Some (ABT_SUCCESS, V_ptr v)"
| "pool_config_create_element_typed (CONFIG_other n) e = Some (ABT_ERR_INV_ARG, e)"
| "pool_config_create_element_typed _ _ = None"

definition ABT_pool_config_create :: "bool \<Rightarrow> bool \<Rightarrow> abt_errno \<times> config option" where
  "ABT_pool_config_create calloc_ok table_ok =
     (if \<not> calloc_ok then (ABT_ERR_MEM, None)
      else ABTU_hashtable_create table_ok POOL_CONFIG_HTABLE_SIZE)"

definition ABT_pool_config_free :: "config option \<Rightarrow> abt_errno \<times> config option" where
  "ABT_pool_config_free config =
     (case config of None \<Rightarrow> (ABT_ERR_INV_POOL_CONFIG, None) | Some c \<Rightarrow> (ABT_SUCCESS, None))"

definition ABT_pool_config_set ::
    "bool \<Rightarrow> config option \<Rightarrow> int \<Rightarrow> config_type \<Rightarrow> config_element option \<Rightarrow> (abt_errno \<times> config option) option" where
  "ABT_pool_config_set mem config key ty val =
     (case config of
        None \<Rightarrow> Some (ABT_ERR_INV_POOL_CONFIG, None)
      | Some c \<Rightarrow>
          (case val of
             Some v \<Rightarrow> do {
               (err, data) \<leftarrow> pool_config_create_element_typed ty v;
               (if err = ABT_SUCCESS then do {
                  (err2, _, c2) \<leftarrow> ABTU_hashtable_set mem c key data;
                  Some (err2, Some c2)
                } else Some (err, Some c))
             }
           | None \<Rightarrow> map_option (\<lambda>(_, c2). (ABT_SUCCESS, Some c2)) (ABTU_hashtable_delete c key)))"

definition ABT_pool_config_get ::
    "config option \<Rightarrow> int \<Rightarrow> (abt_errno \<times> (config_type \<times> config_element) option) option" where
  "ABT_pool_config_get config key =
     (case config of
        None \<Rightarrow> Some (ABT_ERR_INV_POOL_CONFIG, None)
      | Some c \<Rightarrow> do {
          r \<leftarrow> ABTU_hashtable_get c key;
          Some (case r of Some e \<Rightarrow> (ABT_SUCCESS, Some (element_type e, e)) | None \<Rightarrow> (ABT_ERR_INV_ARG, None))
        })"

definition ABTI_pool_config_read :: "config \<Rightarrow> int \<Rightarrow> (abt_errno \<times> config_element option) option" where
  "ABTI_pool_config_read c key = do {
     r \<leftarrow> ABTU_hashtable_get c key;
     Some (case r of Some e \<Rightarrow> (ABT_SUCCESS, Some e) | None \<Rightarrow> (ABT_ERR_INV_ARG, None))
   }"

section \<open>What a configuration holds\<close>

abbreviation config_map :: "config \<Rightarrow> int \<Rightarrow> config_element option" where
  "config_map c \<equiv> (\<lambda>k. ht_look k c)"

lemma get_look: "ht_ok t \<Longrightarrow> ABTU_hashtable_get t k = Some (ht_look k t)"
  using index_some [of t k] ht_look_map [of t k] by (auto simp: ht_look_def split: option.split)

lemma sched_config_read_map:
  "ht_ok c \<Longrightarrow> ABTI_sched_config_read c idx =
    Some (case config_map c idx of Some e \<Rightarrow> (ABT_SUCCESS, Some e) | None \<Rightarrow> (ABT_ERR_INV_ARG, None))"
  by (simp add: ABTI_sched_config_read_def get_look)

lemma sched_config_get_map:
  "ht_ok c \<Longrightarrow> ABT_sched_config_get (Some c) idx =
    Some (case config_map c idx of Some e \<Rightarrow> (ABT_SUCCESS, Some (element_type e, e)) | None \<Rightarrow> (ABT_ERR_INV_ARG, None))"
  by (simp add: ABT_sched_config_get_def get_look)

lemma sched_config_set_map:
  assumes "ht_ok c"
  shows "\<exists>c'. ABT_sched_config_set True (Some c) idx (element_type v) (Some v) = Some (ABT_SUCCESS, Some c') \<and>
    ht_ok c' \<and> config_map c' = (config_map c)(idx \<mapsto> v)"
  using ht_set_ok [OF assms, of idx v] by (auto simp: ABT_sched_config_set_def fun_eq_iff)

lemma sched_config_unset_map:
  assumes "ht_ok c"
  shows "\<exists>c'. ABT_sched_config_set True (Some c) idx ty None = Some (ABT_SUCCESS, Some c') \<and>
    ht_ok c' \<and> config_map c' = (config_map c)(idx := None)"
  using ht_delete_ok [OF assms, of idx] by (auto simp: ABT_sched_config_set_def fun_eq_iff)

text \<open>Creation. \<open>arg_list kvs\<close> are the arguments of a call that sets the values \<open>kvs\<close>.\<close>

definition arg_list :: "(int \<times> config_element) list \<Rightarrow> (bool \<times> int \<times> config_type \<times> config_element) list" where
  "arg_list kvs = map (\<lambda>(k, v). (True, k, element_type v, v)) kvs
     @ [(True, ABT_sched_config_var_end, CONFIG_INT, V_int 0)]"

lemma config_args_map:
  "ht_ok t \<Longrightarrow> ABT_sched_config_var_end \<notin> fst ` set kvs \<Longrightarrow>
    \<exists>t'. config_args (arg_list kvs) t = Some (ABT_SUCCESS, t') \<and> ht_ok t' \<and>
      config_map t' = config_map t ++ map_of (rev kvs)"
proof (induction kvs arbitrary: t)
  case Nil
  then show ?case
    by (simp add: arg_list_def)
next
  case (Cons kv kvs)
  obtain k v where kv: "kv = (k, v)"
    by (cases kv)
  obtain t1 ow where t1: "ABTU_hashtable_set True t k v = Some (ABT_SUCCESS, ow, t1)" "ht_ok t1"
    "config_map t1 = (config_map t)(k \<mapsto> v)"
    using ht_set_ok [OF Cons.prems(1), of k v] by (auto simp: fun_eq_iff)
  obtain t' where t': "config_args (arg_list kvs) t1 = Some (ABT_SUCCESS, t')" "ht_ok t'"
    "config_map t' = config_map t1 ++ map_of (rev kvs)"
    using Cons.IH [OF t1(2)] Cons.prems(2) by auto
  have "config_map t' = config_map t ++ map_of (rev (kv # kvs))"
    unfolding t'(3) t1(3) kv by (auto simp: fun_eq_iff map_add_def split: option.split)
  moreover have "k \<noteq> ABT_sched_config_var_end"
    using Cons.prems(2) kv by auto
  ultimately show ?case
    using t' t1 kv by (simp add: arg_list_def)
qed

lemma table_create:
  assumes "n \<noteq> 0"
  shows "\<exists>t. ABTU_hashtable_create True n = (ABT_SUCCESS, Some t) \<and> ht_ok t \<and> (\<lambda>k. ht_look k t) = Map.empty"
  using assms ht_create_ok [of n] by (auto simp: ABTU_hashtable_create_def)

lemma sched_config_create_map:
  assumes "ABT_sched_config_var_end \<notin> fst ` set kvs"
  shows "\<exists>c. ABT_sched_config_create True True (arg_list kvs) = Some (ABT_SUCCESS, Some c) \<and> ht_ok c \<and>
    config_map c = map_of (rev kvs)"
proof -
  obtain t where t: "ABTU_hashtable_create True SCHED_CONFIG_HTABLE_SIZE = (ABT_SUCCESS, Some t)" "ht_ok t"
    "config_map t = Map.empty"
    using table_create [of SCHED_CONFIG_HTABLE_SIZE] by (auto simp: SCHED_CONFIG_HTABLE_SIZE_def)
  then show ?thesis
    using config_args_map [OF t(2) assms] by (auto simp: ABT_sched_config_create_def)
qed

text \<open>Without memory for the table or an element, nothing is returned.\<close>

lemma sched_config_create_error:
  assumes "ABT_sched_config_create m1 m2 args = Some (err, c)"
  shows "(c = None) = (err \<noteq> ABT_SUCCESS)"
proof (cases "m1 \<and> m2")
  case False
  then show ?thesis
    using assms by (auto simp: ABT_sched_config_create_def ABTU_hashtable_create_def split: if_splits)
next
  case True
  obtain t :: config where t: "ABTU_hashtable_create True SCHED_CONFIG_HTABLE_SIZE = (ABT_SUCCESS, Some t)"
    by (simp add: ABTU_hashtable_create_def)
  obtain err2 t2 where "err2 = err" "c = (if err2 = ABT_SUCCESS then Some t2 else None)"
    using assms True by (auto simp: ABT_sched_config_create_def t bind_eq_Some_conv)
  then show ?thesis
    by simp
qed

lemma read_vars_map:
  assumes "ht_ok c"
  shows "\<exists>qs. read_vars c idx ps = Some qs \<and> length qs = length ps \<and>
    (\<forall>i < length ps. qs ! i = map_option (\<lambda>old. case config_map c (idx + int i) of Some e \<Rightarrow> e | None \<Rightarrow> old) (ps ! i))"
proof (induction ps arbitrary: idx)
  case (Cons p ps)
  obtain qs where qs: "read_vars c (idx + 1) ps = Some qs" "length qs = length ps"
    "\<forall>i < length ps. qs ! i = map_option (\<lambda>old. case config_map c (idx + 1 + int i) of Some e \<Rightarrow> e | None \<Rightarrow> old) (ps ! i)"
    using Cons.IH by blast
  let ?q = "map_option (\<lambda>old. case config_map c idx of Some e \<Rightarrow> e | None \<Rightarrow> old) p"
  have "read_vars c idx (p # ps) = Some (?q # qs)"
    using qs(1) by (cases p) (simp_all add: get_look [OF assms])
  moreover have "(?q # qs) ! i
      = map_option (\<lambda>old. case config_map c (idx + int i) of Some e \<Rightarrow> e | None \<Rightarrow> old) ((p # ps) ! i)"
    if "i < length (p # ps)" for i
    using that qs(3) by (cases i) (simp_all add: algebra_simps)
  ultimately show ?case
    using qs(2) by (intro exI [of _ "?q # qs"]) simp
qed simp

lemma pool_config_create_map:
  "\<exists>c. ABT_pool_config_create True True = (ABT_SUCCESS, Some c) \<and> ht_ok c \<and> config_map c = Map.empty"
  using table_create [of POOL_CONFIG_HTABLE_SIZE]
  by (auto simp: ABT_pool_config_create_def POOL_CONFIG_HTABLE_SIZE_def)

lemma pool_element_typed: "pool_config_create_element_typed ty v = sched_config_create_element_typed ty v"
  by (cases ty; cases v) simp_all

lemma pool_config_set_get:
  assumes "ht_ok c"
  shows "\<exists>c'. ABT_pool_config_set True (Some c) key (element_type v) (Some v) = Some (ABT_SUCCESS, Some c') \<and>
    ht_ok c' \<and> config_map c' = (config_map c)(key \<mapsto> v)"
  using ht_set_ok [OF assms, of key v] by (auto simp: ABT_pool_config_set_def pool_element_typed fun_eq_iff)

end
