(* ===== verification/SchedLoops.thy ===== *)
theory SchedLoops
  imports PoolRandws Config
begin

text \<open>
  The four predefined schedulers (\<^verbatim>\<open>argobots_framework/src/sched/basic.c\<close>, \<^verbatim>\<open>prio.c\<close>,
  \<^verbatim>\<open>randws.c\<close>, \<^verbatim>\<open>basic_wait.c\<close>): their initialization, one iteration of each main loop and the
  loop itself. What a scheduler calls is in \<open>sched_env\<close>: popping from a pool dispatches through
  the pool's function table, which the user may supply; running a unit returns when the unit
  yields, blocks or ends. \<open>'s\<close> is everything these calls see and change. \<open>None\<close> is a call
  that does not return. The optional sleep of an idle scheduler is left out.

  Theory SchedProps states what pools promise to a scheduler and proves what the loops do with it.
\<close>

section \<open>Initialization\<close>

record sched_data =
  sd_event_freq :: "32 word"
  sd_num_pools :: nat
  sd_pools :: "nat list"

text \<open>The frequency of the configuration, if there is one, else the global default.\<close>

definition config_event_freq :: "32 word \<Rightarrow> config option \<Rightarrow> 32 word option" where
  "config_event_freq global_freq config =
     (case config of
        None \<Rightarrow> Some global_freq
      | Some c \<Rightarrow> do {
          (err, v) \<leftarrow> ABTI_sched_config_read c ABT_sched_basic_freq;
          (if err = ABT_SUCCESS then
             (case v of Some (V_int n) \<Rightarrow> Some (word_of_int n) | _ \<Rightarrow> None)
           else Some global_freq)
        })"

definition pool_get_access_num :: "ABT_pool_access \<Rightarrow> nat option" where
  "pool_get_access_num access =
     (case access of
        ABT_POOL_ACCESS_PRIV \<Rightarrow> Some 0
      | ABT_POOL_ACCESS_SPSC \<Rightarrow> Some 1
      | ABT_POOL_ACCESS_MPSC \<Rightarrow> Some 1
      | ABT_POOL_ACCESS_SPMC \<Rightarrow> Some 2
      | ABT_POOL_ACCESS_MPMC \<Rightarrow> Some 2
      | ABT_POOL_ACCESS_other _ \<Rightarrow> None)"

definition sched_cmp_pools :: "ABT_pool_access \<Rightarrow> ABT_pool_access \<Rightarrow> int option" where
  "sched_cmp_pools a1 a2 = do {
     p1_access \<leftarrow> pool_get_access_num a1;
     p2_access \<leftarrow> pool_get_access_num a2;
     Some (if p1_access > p2_access then 1 else if p1_access < p2_access then -1 else 0)
   }"

text \<open>\<open>qsort\<close> is the C library's; \<open>access\<close> gives the access mode of a pool.\<close>

definition sched_sort_pools ::
    "((nat \<Rightarrow> nat \<Rightarrow> int) \<Rightarrow> nat list \<Rightarrow> nat list) \<Rightarrow> (nat \<Rightarrow> ABT_pool_access) \<Rightarrow> nat list \<Rightarrow> nat list option" where
  "sched_sort_pools qsort access pools =
     (if list_all (\<lambda>p. pool_get_access_num (access p) \<noteq> None) pools
      then Some (qsort (\<lambda>p q. the (sched_cmp_pools (access p) (access q))) pools) else None)"

definition basic_sched_init ::
    "((nat \<Rightarrow> nat \<Rightarrow> int) \<Rightarrow> nat list \<Rightarrow> nat list) \<Rightarrow> (nat \<Rightarrow> ABT_pool_access) \<Rightarrow> bool \<Rightarrow> bool \<Rightarrow> 32 word
     \<Rightarrow> config option \<Rightarrow> nat list \<Rightarrow> (abt_errno \<times> sched_data option) option" where
  "basic_sched_init qsort access malloc1 malloc2 global_freq config pools =
     (if \<not> malloc1 then Some (ABT_ERR_MEM, None)
      else do {
        freq \<leftarrow> config_event_freq global_freq config;
        (if \<not> malloc2 then Some (ABT_ERR_MEM, None)
         else do {
           sorted \<leftarrow> (if length pools > 1 then sched_sort_pools qsort access pools else Some pools);
           Some (ABT_SUCCESS, Some \<lparr>sd_event_freq = freq, sd_num_pools = length pools, sd_pools = sorted\<rparr>)
         })
      })"

definition basic_wait_sched_init ::
    "((nat \<Rightarrow> nat \<Rightarrow> int) \<Rightarrow> nat list \<Rightarrow> nat list) \<Rightarrow> (nat \<Rightarrow> ABT_pool_access) \<Rightarrow> bool \<Rightarrow> bool \<Rightarrow> 32 word
     \<Rightarrow> config option \<Rightarrow> nat list \<Rightarrow> (abt_errno \<times> sched_data option) option" where
  "basic_wait_sched_init qsort access malloc1 malloc2 global_freq config pools =
     (if \<not> malloc1 then Some (ABT_ERR_MEM, None)
      else do {
        freq \<leftarrow> config_event_freq global_freq config;
        (if \<not> malloc2 then Some (ABT_ERR_MEM, None)
         else do {
           sorted \<leftarrow> (if length pools > 1 then sched_sort_pools qsort access pools else Some pools);
           Some (ABT_SUCCESS, Some \<lparr>sd_event_freq = freq, sd_num_pools = length pools, sd_pools = sorted\<rparr>)
         })
      })"

text \<open>The priority and the work-stealing scheduler keep the order of the pools.\<close>

definition prio_sched_init ::
    "bool \<Rightarrow> bool \<Rightarrow> 32 word \<Rightarrow> config option \<Rightarrow> nat list \<Rightarrow> (abt_errno \<times> sched_data option) option" where
  "prio_sched_init malloc1 malloc2 global_freq config pools =
     (if \<not> malloc1 then Some (ABT_ERR_MEM, None)
      else do {
        freq \<leftarrow> config_event_freq global_freq config;
        Some (if \<not> malloc2 then (ABT_ERR_MEM, None)
              else (ABT_SUCCESS,
                Some \<lparr>sd_event_freq = freq, sd_num_pools = length pools, sd_pools = pools\<rparr>))
      })"

definition randws_sched_init ::
    "bool \<Rightarrow> bool \<Rightarrow> 32 word \<Rightarrow> config option \<Rightarrow> nat list \<Rightarrow> (abt_errno \<times> sched_data option) option" where
  "randws_sched_init malloc1 malloc2 global_freq config pools =
     (if \<not> malloc1 then Some (ABT_ERR_MEM, None)
      else do {
        freq \<leftarrow> config_event_freq global_freq config;
        Some (if \<not> malloc2 then (ABT_ERR_MEM, None)
              else (ABT_SUCCESS,
                Some \<lparr>sd_event_freq = freq, sd_num_pools = length pools, sd_pools = pools\<rparr>))
      })"

section \<open>The loops\<close>

record 's sched_env =
  se_pop :: "nat \<Rightarrow> ABT_pool_context \<Rightarrow> 's \<Rightarrow> (thread_ptr option \<times> 's) option"
  se_schedule :: "thread_ptr \<Rightarrow> 's \<Rightarrow> 's option"
  se_check_events :: "'s \<Rightarrow> 's"
  se_has_to_stop :: "'s \<Rightarrow> bool"

text \<open>How an iteration ends: the loop is left, or goes on with a new counter.\<close>

datatype 's round = Stop 's | Go "32 word" 's

definition check_stop :: "('s, 'e) sched_env_scheme \<Rightarrow> 's \<Rightarrow> 's round" where
  "check_stop E s = (let s1 = se_check_events E s in if se_has_to_stop E s1 then Stop s1 else Go 0 s1)"

partial_function (option) sched_loop ::
    "(32 word \<Rightarrow> 's \<Rightarrow> 's round option) \<Rightarrow> 32 word \<Rightarrow> 's \<Rightarrow> 's option" where
  "sched_loop iter c s = do {
     r \<leftarrow> iter c s;
     (case r of Stop s' \<Rightarrow> Some s' | Go c' s' \<Rightarrow> sched_loop iter c' s')
   }"

text \<open>The scan of the basic scheduler counts its attempts.\<close>

fun basic_scan ::
    "('s, 'e) sched_env_scheme \<Rightarrow> nat list \<Rightarrow> 32 word \<Rightarrow> 's \<Rightarrow> (32 word \<times> 's) option" where
  "basic_scan E [] pop_count s = Some (pop_count, s)"
| "basic_scan E (p # ps) pop_count s = do {
     (t, s1) \<leftarrow> se_pop E p ABT_POOL_CONTEXT_OP_POOL_OTHER s;
     (case t of
        Some t \<Rightarrow> map_option (\<lambda>s2. (pop_count + 1, s2)) (se_schedule E t s1)
      | None \<Rightarrow> basic_scan E ps (pop_count + 1) s1)
   }"

definition basic_iter ::
    "('s, 'e) sched_env_scheme \<Rightarrow> 32 word \<Rightarrow> nat list \<Rightarrow> 32 word \<Rightarrow> 's \<Rightarrow> 's round option" where
  "basic_iter E event_freq pools pop_count s = do {
     (c, s1) \<leftarrow> basic_scan E pools pop_count s;
     Some (if event_freq \<le> c then check_stop E s1 else Go c s1)
   }"

definition basic_sched_run :: "('s, 'e) sched_env_scheme \<Rightarrow> sched_data \<Rightarrow> 's \<Rightarrow> 's option" where
  "basic_sched_run E d s =
     (if sd_num_pools d = 0 then Some s
      else sched_loop (basic_iter E (sd_event_freq d) (sd_pools d)) 0 s)"

text \<open>The scan of the priority scheduler, also the first half of the waiting one: was a unit run?\<close>

fun pool_scan :: "('s, 'e) sched_env_scheme \<Rightarrow> nat list \<Rightarrow> 's \<Rightarrow> (bool \<times> 's) option" where
  "pool_scan E [] s = Some (False, s)"
| "pool_scan E (p # ps) s = do {
     (t, s1) \<leftarrow> se_pop E p ABT_POOL_CONTEXT_OP_POOL_OTHER s;
     (case t of
        Some t \<Rightarrow> map_option (\<lambda>s2. (True, s2)) (se_schedule E t s1)
      | None \<Rightarrow> pool_scan E ps s1)
   }"

definition prio_iter ::
    "('s, 'e) sched_env_scheme \<Rightarrow> 32 word \<Rightarrow> nat list \<Rightarrow> 32 word \<Rightarrow> 's \<Rightarrow> 's round option" where
  "prio_iter E event_freq pools work_count s = do {
     (_, s1) \<leftarrow> pool_scan E pools s;
     Some (if event_freq \<le> work_count + 1 then check_stop E s1 else Go (work_count + 1) s1)
   }"

definition prio_sched_run :: "('s, 'e) sched_env_scheme \<Rightarrow> sched_data \<Rightarrow> 's \<Rightarrow> 's option" where
  "prio_sched_run E d s =
     (if sd_num_pools d = 0 then Some s
      else sched_loop (prio_iter E (sd_event_freq d) (sd_pools d)) 0 s)"

text \<open>The victim of the work-stealing scheduler, from the value \<^verbatim>\<open>rand_r\<close> returned.\<close>

definition steal_target :: "nat \<Rightarrow> nat \<Rightarrow> nat" where
  "steal_target num_pools r = (if num_pools = 2 then 1 else r mod (num_pools - 1) + 1)"

record 's randws_env = "'s sched_env" +
  se_rand :: "'s \<Rightarrow> nat \<times> 's"

definition randws_iter ::
    "('s, 'e) randws_env_scheme \<Rightarrow> 32 word \<Rightarrow> nat list \<Rightarrow> 32 word \<Rightarrow> 's \<Rightarrow> 's round option" where
  "randws_iter E event_freq pools work_count s = do {
     (t, s1) \<leftarrow> se_pop E (pools ! 0) ABT_POOL_CONTEXT_OWNER_PRIMARY s;
     s3 \<leftarrow> (case t of
        Some t \<Rightarrow> se_schedule E t s1
      | None \<Rightarrow>
          if length pools > 1 then do {
            let (r, s2) = (if length pools = 2 then (0, s1) else se_rand E s1);
            (t, s3) \<leftarrow> se_pop E (pools ! steal_target (length pools) r) ABT_POOL_CONTEXT_OWNER_SECONDARY s2;
            (case t of Some t \<Rightarrow> se_schedule E t s3 | None \<Rightarrow> Some s3)
          } else Some s1);
     Some (if event_freq \<le> work_count + 1 then check_stop E s3 else Go (work_count + 1) s3)
   }"

definition randws_sched_run :: "('s, 'e) randws_env_scheme \<Rightarrow> sched_data \<Rightarrow> 's \<Rightarrow> 's option" where
  "randws_sched_run E d s =
     (if sd_num_pools d = 0 then Some s
      else sched_loop (randws_iter E (sd_event_freq d) (sd_pools d)) 0 s)"

text \<open>The waiting scheduler blocks on its first pool, in the way that pool's table allows.\<close>

record 's wait_env = "'s sched_env" +
  se_pop_wait :: "nat \<Rightarrow> (real \<Rightarrow> ABT_pool_context \<Rightarrow> 's \<Rightarrow> (thread_ptr option \<times> 's) option) option"
  se_pop_timedwait :: "nat \<Rightarrow> (real \<Rightarrow> 's \<Rightarrow> (thread_ptr option \<times> 's) option) option"
  se_wtime :: "'s \<Rightarrow> real"

definition wait_pop :: "('s, 'e) wait_env_scheme \<Rightarrow> nat \<Rightarrow> 's \<Rightarrow> (thread_ptr option \<times> 's) option" where
  "wait_pop E p s =
     (case se_pop_wait E p of
        Some f \<Rightarrow> f (1 / 10) ABT_POOL_CONTEXT_OP_POOL_OTHER s
      | None \<Rightarrow>
          (case se_pop_timedwait E p of
             Some f \<Rightarrow> f (se_wtime E s + 1 / 10) s
           | None \<Rightarrow> se_pop E p ABT_POOL_CONTEXT_OP_POOL_OTHER s))"

definition basic_wait_iter ::
    "('s, 'e) wait_env_scheme \<Rightarrow> 32 word \<Rightarrow> nat list \<Rightarrow> 32 word \<Rightarrow> 's \<Rightarrow> 's round option" where
  "basic_wait_iter E event_freq pools work_count s = do {
     (found, s1) \<leftarrow> pool_scan E pools s;
     (if \<not> found then do {
        (t, s2) \<leftarrow> wait_pop E (pools ! 0) s1;
        (case t of
           Some t \<Rightarrow> map_option Stop (se_schedule E t s2)
         | None \<Rightarrow> Some (check_stop E s2))
      }
      else Some (if event_freq \<le> work_count + 1 then check_stop E s1 else Go (work_count + 1) s1))
   }"

definition basic_wait_sched_run :: "('s, 'e) wait_env_scheme \<Rightarrow> sched_data \<Rightarrow> 's \<Rightarrow> 's option" where
  "basic_wait_sched_run E d s =
     (if sd_num_pools d = 0 then Some s
      else sched_loop (basic_wait_iter E (sd_event_freq d) (sd_pools d)) 0 s)"

end
