(* ===== verification/SchedCore.thy ===== *)
theory SchedCore
  imports SchedLoops
begin

text \<open>
  The scheduler object (\<^verbatim>\<open>argobots_framework/src/sched/sched.c\<close>): creation with its error paths,
  freeing, the stop condition and the accessors. Pools are shared by schedulers and counted;
  \<open>pool_table\<close> maps the pools that are allocated to what a scheduler sees of them. Touching a
  pool that is not allocated, or releasing one whose count is 0, is \<open>None\<close>.

  Creation is shown to be all or nothing, and freeing to undo it.
\<close>

section \<open>Pools and their reference counts\<close>

record pool_info =
  pi_access :: ABT_pool_access
  pi_automatic :: bool
  pi_num_scheds :: int
  pi_num_blocked :: int
  pi_empty :: bool
  pi_size :: "nat option"

type_synonym pool_table = "nat \<Rightarrow> pool_info option"

definition new_pool :: "ABT_pool_access \<Rightarrow> pool_info" where
  "new_pool access = \<lparr>pi_access = access, pi_automatic = True, pi_num_scheds = 0, pi_num_blocked = 0,
     pi_empty = True, pi_size = Some 0\<rparr>"

definition ABTI_pool_retain :: "nat \<Rightarrow> pool_table \<Rightarrow> pool_table option" where
  "ABTI_pool_retain p T = do {
     i \<leftarrow> T p;
     Some (T(p \<mapsto> i\<lparr>pi_num_scheds := pi_num_scheds i + 1\<rparr>))
   }"

definition ABTI_pool_release :: "nat \<Rightarrow> pool_table \<Rightarrow> (int \<times> pool_table) option" where
  "ABTI_pool_release p T = do {
     i \<leftarrow> T p;
     (if pi_num_scheds i > 0
      then Some (pi_num_scheds i - 1, T(p \<mapsto> i\<lparr>pi_num_scheds := pi_num_scheds i - 1\<rparr>)) else None)
   }"

definition ABTI_pool_free :: "nat \<Rightarrow> pool_table \<Rightarrow> pool_table option" where
  "ABTI_pool_free p T = (if T p = None then None else Some (T(p := None)))"

fun retain_all :: "nat list \<Rightarrow> pool_table \<Rightarrow> pool_table option" where
  "retain_all [] T = Some T"
| "retain_all (p # ps) T = Option.bind (ABTI_pool_retain p T) (retain_all ps)"

section \<open>The scheduler\<close>

datatype sched_used = ABTI_SCHED_NOT_USED | ABTI_SCHED_MAIN | ABTI_SCHED_IN_POOL

record 'd sched_def =
  def_kind :: nat
  def_init :: "(nat list \<Rightarrow> (abt_errno \<times> 'd option) option) option"
  def_get_migr_pool :: "(unit \<Rightarrow> nat option) option"

record 'd sched =
  sc_used :: sched_used
  sc_automatic :: bool
  sc_kind :: nat
  sc_request :: "32 word"
  sc_pools :: "nat option list"
  sc_ythread :: "thread_ptr option"
  sc_data :: "'d option"
  sc_get_migr_pool :: "(unit \<Rightarrow> nat option) option"

definition ABTI_SCHED_REQ_FINISH :: "32 word" where "ABTI_SCHED_REQ_FINISH = 1"
definition ABTI_SCHED_REQ_EXIT :: "32 word" where "ABTI_SCHED_REQ_EXIT = 2"
definition ABTI_SCHED_REQ_REPLACE :: "32 word" where "ABTI_SCHED_REQ_REPLACE = 4"

text \<open>
  The loop that copies the pools and creates one for every \<^verbatim>\<open>ABT_POOL_NULL\<close>. \<open>alloc i\<close> is the
  address of the pool created for position \<open>i\<close>, if there is memory. The result tells whether the
  loop came to its end, the pools given and used so far, and the pool table.
\<close>

fun make_pools ::
    "ABT_pool_access \<Rightarrow> (nat \<Rightarrow> nat option) \<Rightarrow> (nat option \<times> nat) list \<Rightarrow> nat option list \<Rightarrow> pool_table
     \<Rightarrow> bool \<times> (nat option \<times> nat) list \<times> pool_table" where
  "make_pools access alloc acc [] T = (True, acc, T)"
| "make_pools access alloc acc (Some p # ps) T = make_pools access alloc (acc @ [(Some p, p)]) ps T"
| "make_pools access alloc acc (None # ps) T =
     (case alloc (length acc) of
        None \<Rightarrow> (False, acc, T)
      | Some p \<Rightarrow> make_pools access alloc (acc @ [(None, p)]) ps (T(p \<mapsto> new_pool access)))"

text \<open>The loops of the error paths: free what was created; the second also releases the rest.\<close>

fun free_created :: "(nat option \<times> nat) list \<Rightarrow> pool_table \<Rightarrow> pool_table option" where
  "free_created [] T = Some T"
| "free_created ((given, p) # ps) T =
     (if given = None then Option.bind (ABTI_pool_free p T) (free_created ps) else free_created ps T)"

fun undo_retain :: "(nat option \<times> nat) list \<Rightarrow> pool_table \<Rightarrow> pool_table option" where
  "undo_retain [] T = Some T"
| "undo_retain ((given, p) # ps) T =
     (if given = None then Option.bind (ABTI_pool_free p T) (undo_retain ps)
      else Option.bind (ABTI_pool_release p T) (\<lambda>(_, T'). undo_retain ps T'))"

text \<open>The \<^verbatim>\<open>automatic\<close> setting of a configuration overrides the default.\<close>

definition config_automatic :: "bool \<Rightarrow> config option \<Rightarrow> bool option" where
  "config_automatic def_automatic config =
     (case config of
        None \<Rightarrow> Some def_automatic
      | Some c \<Rightarrow> do {
          (err, v) \<leftarrow> ABTI_sched_config_read c ABT_sched_config_automatic;
          (if err = ABT_SUCCESS then (case v of Some (V_int n) \<Rightarrow> Some (n \<noteq> 0) | _ \<Rightarrow> None)
           else Some def_automatic)
        })"

definition sched_create ::
    "bool \<Rightarrow> bool \<Rightarrow> (nat \<Rightarrow> nat option) \<Rightarrow> 'd sched_def \<Rightarrow> nat option list \<Rightarrow> config option \<Rightarrow> bool \<Rightarrow> pool_table
     \<Rightarrow> (abt_errno \<times> 'd sched option \<times> pool_table) option" where
  "sched_create malloc1 malloc2 alloc sd pools config def_automatic T =
     (if \<not> malloc1 then Some (ABT_ERR_MEM, None, T)
      else do {
        automatic \<leftarrow> config_automatic def_automatic config;
        (if \<not> malloc2 then Some (ABT_ERR_MEM, None, T)
         else case make_pools ABT_POOL_ACCESS_MPSC alloc [] pools T of
           (done_all, list, T1) \<Rightarrow>
             if \<not> done_all then map_option (\<lambda>T2. (ABT_ERR_MEM, None, T2)) (free_created list T1)
             else do {
               T2 \<leftarrow> retain_all (map snd list) T1;
               (err, data) \<leftarrow> (case def_init sd of None \<Rightarrow> Some (ABT_SUCCESS, None) | Some f \<Rightarrow> f (map snd list));
               (if err \<noteq> ABT_SUCCESS then map_option (\<lambda>T3. (err, None, T3)) (undo_retain list T2)
                else Some (ABT_SUCCESS,
                  Some \<lparr>sc_used = ABTI_SCHED_NOT_USED, sc_automatic = automatic, sc_kind = def_kind sd,
                    sc_request = 0, sc_pools = map (\<lambda>x. Some (snd x)) list, sc_ythread = None,
                    sc_data = data, sc_get_migr_pool = def_get_migr_pool sd\<rparr>, T2))
             })
      })"

text \<open>The API functions above it; a negative number of pools is an error.\<close>

definition ABT_sched_create ::
    "bool \<Rightarrow> bool \<Rightarrow> (nat \<Rightarrow> nat option) \<Rightarrow> 'd sched_def \<Rightarrow> int \<Rightarrow> nat option list \<Rightarrow> config option \<Rightarrow> pool_table
     \<Rightarrow> (abt_errno \<times> 'd sched option \<times> pool_table) option" where
  "ABT_sched_create malloc1 malloc2 alloc sd num_pools pools config T =
     (if num_pools < 0 then Some (ABT_ERR_INV_ARG, None, T)
      else sched_create malloc1 malloc2 alloc sd (take (nat num_pools) pools) config False T)"

text \<open>The loop of \<^verbatim>\<open>ABTI_sched_free\<close>; a pool set to NULL is kept.\<close>

fun release_pools :: "bool \<Rightarrow> nat option list \<Rightarrow> pool_table \<Rightarrow> pool_table option" where
  "release_pools force_free [] T = Some T"
| "release_pools force_free (None # ps) T = release_pools force_free ps T"
| "release_pools force_free (Some p # ps) T = do {
     i \<leftarrow> T p;
     (num_scheds, T1) \<leftarrow> ABTI_pool_release p T;
     T2 \<leftarrow> (if pi_automatic i \<and> num_scheds = 0 \<or> force_free then ABTI_pool_free p T1 else Some T1);
     release_pools force_free ps T2
   }"

definition ABTI_sched_free :: "'d sched \<Rightarrow> bool \<Rightarrow> pool_table \<Rightarrow> pool_table option" where
  "ABTI_sched_free s force_free T =
     (if sc_used s = ABTI_SCHED_NOT_USED then release_pools force_free (sc_pools s) T else None)"

definition ABT_sched_free ::
    "'d sched option \<Rightarrow> pool_table \<Rightarrow> (abt_errno \<times> 'd sched option \<times> pool_table) option" where
  "ABT_sched_free sched T =
     (case sched of
        None \<Rightarrow> Some (ABT_ERR_INV_SCHED, None, T)
      | Some s \<Rightarrow>
          if sc_used s \<noteq> ABTI_SCHED_NOT_USED then Some (ABT_ERR_SCHED, Some s, T)
          else map_option (\<lambda>T'. (ABT_SUCCESS, None, T')) (ABTI_sched_free s False T))"

text \<open>Predefined schedulers. \<open>get_def\<close> gives the definition of a kind; without pools the kind decides.\<close>

datatype ABT_sched_predef =
  ABT_SCHED_DEFAULT | ABT_SCHED_BASIC | ABT_SCHED_PRIO | ABT_SCHED_RANDWS | ABT_SCHED_BASIC_WAIT
| ABT_SCHED_predef_other nat

fun predef_num_pools :: "ABT_sched_predef \<Rightarrow> nat option" where
  "predef_num_pools ABT_SCHED_DEFAULT = Some 1"
| "predef_num_pools ABT_SCHED_BASIC = Some 1"
| "predef_num_pools ABT_SCHED_BASIC_WAIT = Some 1"
| "predef_num_pools ABT_SCHED_PRIO = Some 3"
| "predef_num_pools ABT_SCHED_RANDWS = Some 1"
| "predef_num_pools (ABT_SCHED_predef_other n) = None"

definition ABTI_sched_create_basic ::
    "bool \<Rightarrow> bool \<Rightarrow> bool \<Rightarrow> (nat \<Rightarrow> nat option) \<Rightarrow> (ABT_sched_predef \<Rightarrow> 'd sched_def) \<Rightarrow> ABT_sched_predef
     \<Rightarrow> nat option list option \<Rightarrow> config option \<Rightarrow> pool_table
     \<Rightarrow> (abt_errno \<times> 'd sched option \<times> pool_table) option" where
  "ABTI_sched_create_basic malloc0 malloc1 malloc2 alloc get_def predef pools config T =
     (case pools of
        Some ps \<Rightarrow>
          if ps \<noteq> [] \<and> \<not> malloc0 then Some (ABT_ERR_MEM, None, T)
          else (case make_pools ABT_POOL_ACCESS_MPMC alloc [] ps T of
            (done_all, list, T1) \<Rightarrow>
              if \<not> done_all then map_option (\<lambda>T2. (ABT_ERR_MEM, None, T2)) (free_created list T1)
              else do {
                (err, s, T2) \<leftarrow> (case predef of
                    ABT_SCHED_predef_other n \<Rightarrow> Some (ABT_ERR_INV_SCHED_PREDEF, None, T1)
                  | _ \<Rightarrow> sched_create malloc1 malloc2 (\<lambda>_. None) (get_def predef)
                           (map (\<lambda>x. Some (snd x)) list) config True T1);
                (if err \<noteq> ABT_SUCCESS then map_option (\<lambda>T3. (err, None, T3)) (free_created list T2)
                 else Some (ABT_SUCCESS, s, T2))
              })
      | None \<Rightarrow>
          (case predef_num_pools predef of
             None \<Rightarrow> Some (ABT_ERR_INV_SCHED_PREDEF, None, T)
           | Some n \<Rightarrow>
               (case make_pools ABT_POOL_ACCESS_MPMC alloc [] (replicate n None) T of
                 (done_all, list, T1) \<Rightarrow>
                   if \<not> done_all then map_option (\<lambda>T2. (ABT_ERR_MEM, None, T2)) (free_created list T1)
                   else do {
                     (err, s, T2) \<leftarrow> sched_create malloc1 malloc2 (\<lambda>_. None) (get_def predef)
                       (map (\<lambda>x. Some (snd x)) list) config True T1;
                     (if err \<noteq> ABT_SUCCESS then map_option (\<lambda>T3. (err, None, T3)) (free_created list T2)
                      else Some (ABT_SUCCESS, s, T2))
                   })))"

definition ABT_sched_create_basic ::
    "bool \<Rightarrow> bool \<Rightarrow> bool \<Rightarrow> (nat \<Rightarrow> nat option) \<Rightarrow> (ABT_sched_predef \<Rightarrow> 'd sched_def) \<Rightarrow> ABT_sched_predef \<Rightarrow> int
     \<Rightarrow> nat option list option \<Rightarrow> config option \<Rightarrow> pool_table
     \<Rightarrow> (abt_errno \<times> 'd sched option \<times> pool_table) option" where
  "ABT_sched_create_basic malloc0 malloc1 malloc2 alloc get_def predef num_pools pools config T =
     (if num_pools < 0 then Some (ABT_ERR_INV_ARG, None, T)
      else ABTI_sched_create_basic malloc0 malloc1 malloc2 alloc get_def predef
             (map_option (take (nat num_pools)) pools) config T)"

section \<open>Stopping\<close>

definition ABTI_sched_finish :: "'d sched \<Rightarrow> 'd sched" where
  "ABTI_sched_finish s = s\<lparr>sc_request := sc_request s OR ABTI_SCHED_REQ_FINISH\<rparr>"

definition ABTI_sched_exit :: "'d sched \<Rightarrow> 'd sched" where
  "ABTI_sched_exit s = s\<lparr>sc_request := sc_request s OR ABTI_SCHED_REQ_EXIT\<rparr>"

definition ABT_sched_finish :: "'d sched option \<Rightarrow> abt_errno \<times> 'd sched option" where
  "ABT_sched_finish sched =
     (case sched of None \<Rightarrow> (ABT_ERR_INV_SCHED, None) | Some s \<Rightarrow> (ABT_SUCCESS, Some (ABTI_sched_finish s)))"

definition ABT_sched_exit :: "'d sched option \<Rightarrow> abt_errno \<times> 'd sched option" where
  "ABT_sched_exit sched =
     (case sched of None \<Rightarrow> (ABT_ERR_INV_SCHED, None) | Some s \<Rightarrow> (ABT_SUCCESS, Some (ABTI_sched_exit s)))"

fun pool_busy :: "pool_info \<Rightarrow> bool" where
  "pool_busy i = (\<not> pi_empty i \<or>
     (case pi_access i of
        ABT_POOL_ACCESS_PRIV \<Rightarrow> pi_num_blocked i \<noteq> 0
      | ABT_POOL_ACCESS_other _ \<Rightarrow> False
      | _ \<Rightarrow> pi_num_scheds i = 1 \<and> pi_num_blocked i \<noteq> 0))"

text \<open>The loop reads the pools in order, each at its own time; the argument lists what it saw.\<close>

fun ABTI_sched_has_unit :: "pool_info list \<Rightarrow> bool" where
  "ABTI_sched_has_unit [] = False"
| "ABTI_sched_has_unit (i # is) = (pool_busy i \<or> ABTI_sched_has_unit is)"

text \<open>
  Other streams run meanwhile, so both reads of the request word and both scans of the pools are
  arguments, in the order in which they happen.
\<close>

definition ABTI_sched_has_to_stop ::
    "sched_used \<Rightarrow> 32 word \<Rightarrow> pool_info list \<Rightarrow> 32 word \<Rightarrow> pool_info list \<Rightarrow> bool" where
  "ABTI_sched_has_to_stop used request1 pools1 request2 pools2 =
     (if request1 AND ABTI_SCHED_REQ_EXIT \<noteq> 0 then True
      else if \<not> ABTI_sched_has_unit pools1 then
        (if request2 AND (ABTI_SCHED_REQ_FINISH OR ABTI_SCHED_REQ_REPLACE) \<noteq> 0
         then \<not> ABTI_sched_has_unit pools2
         else used = ABTI_SCHED_IN_POOL)
      else False)"

definition ABT_sched_has_to_stop ::
    "bool \<Rightarrow> 'd sched option \<Rightarrow> pool_info list \<Rightarrow> 32 word \<Rightarrow> pool_info list \<Rightarrow> abt_errno \<times> bool" where
  "ABT_sched_has_to_stop on_xstream sched pools1 request2 pools2 =
     (case sched of
        None \<Rightarrow> (ABT_ERR_INV_SCHED, False)
      | Some s \<Rightarrow>
          if \<not> on_xstream then (ABT_ERR_INV_XSTREAM, False)
          else (ABT_SUCCESS, ABTI_sched_has_to_stop (sc_used s) (sc_request s) pools1 request2 pools2))"

section \<open>Accessors\<close>

definition ABT_sched_get_num_pools :: "'d sched option \<Rightarrow> abt_errno + nat" where
  "ABT_sched_get_num_pools sched =
     (case sched of None \<Rightarrow> Inl ABT_ERR_INV_SCHED | Some s \<Rightarrow> Inr (length (sc_pools s)))"

definition ABT_sched_get_pools :: "'d sched option \<Rightarrow> int \<Rightarrow> int \<Rightarrow> abt_errno + nat option list" where
  "ABT_sched_get_pools sched max_pools idx =
     (case sched of
        None \<Rightarrow> Inl ABT_ERR_INV_SCHED
      | Some s \<Rightarrow>
          if max_pools < 0 then Inl ABT_ERR_INV_ARG
          else if idx < 0 then Inl ABT_ERR_INV_ARG
          else if idx + max_pools > int (length (sc_pools s)) then Inl ABT_ERR_SCHED
          else Inr (take (nat max_pools) (drop (nat idx) (sc_pools s))))"

definition ABT_sched_set_data :: "'d sched option \<Rightarrow> 'd option \<Rightarrow> abt_errno \<times> 'd sched option" where
  "ABT_sched_set_data sched data =
     (case sched of None \<Rightarrow> (ABT_ERR_INV_SCHED, None) | Some s \<Rightarrow> (ABT_SUCCESS, Some (s\<lparr>sc_data := data\<rparr>)))"

definition ABT_sched_get_data :: "'d sched option \<Rightarrow> abt_errno + 'd option" where
  "ABT_sched_get_data sched = (case sched of None \<Rightarrow> Inl ABT_ERR_INV_SCHED | Some s \<Rightarrow> Inr (sc_data s))"

text \<open>The sizes of the pools, added up at the width of \<^verbatim>\<open>size_t\<close>.\<close>

fun sum_sizes :: "(pool_info \<Rightarrow> 64 word) \<Rightarrow> pool_info list \<Rightarrow> 64 word" where
  "sum_sizes f [] = 0"
| "sum_sizes f (i # is) = f i + sum_sizes f is"

definition ABT_sched_get_size :: "pool_info list option \<Rightarrow> abt_errno \<times> 64 word" where
  "ABT_sched_get_size sched =
     (case sched of
        None \<Rightarrow> (ABT_ERR_INV_SCHED, 0)
      | Some is \<Rightarrow>
          if \<not> list_all (\<lambda>i. pi_size i \<noteq> None) is then (ABT_ERR_POOL, 0)
          else (ABT_SUCCESS, sum_sizes (\<lambda>i. of_nat (the (pi_size i))) is))"

definition ABT_sched_get_total_size :: "pool_info list option \<Rightarrow> abt_errno \<times> 64 word" where
  "ABT_sched_get_total_size sched =
     (case sched of
        None \<Rightarrow> (ABT_ERR_INV_SCHED, 0)
      | Some is \<Rightarrow>
          if \<not> list_all (\<lambda>i. pi_size i \<noteq> None) is then (ABT_ERR_POOL, 0)
          else (ABT_SUCCESS,
            sum_sizes (\<lambda>i. of_nat (the (pi_size i)) + of_int (pi_num_blocked i)) is))"

text \<open>The pool a migrating thread goes to; the user's function may return none.\<close>

definition ABTI_sched_get_migration_pool :: "'d sched \<Rightarrow> abt_errno + nat option" where
  "ABTI_sched_get_migration_pool s =
     (case sc_get_migr_pool s of
        None \<Rightarrow> (case sc_pools s of p # _ \<Rightarrow> Inr p | [] \<Rightarrow> Inl ABT_ERR_MIGRATION_TARGET)
      | Some f \<Rightarrow> (case f () of Some p \<Rightarrow> Inr (Some p) | None \<Rightarrow> Inl ABT_ERR_MIGRATION_TARGET))"

definition ABTI_sched_discard_and_free :: "'d sched \<Rightarrow> bool \<Rightarrow> pool_table \<Rightarrow> ('d sched option \<times> pool_table) option" where
  "ABTI_sched_discard_and_free s force_free T =
     (let s1 = s\<lparr>sc_used := ABTI_SCHED_NOT_USED\<rparr>
      in if sc_automatic s \<or> force_free
         then map_option (\<lambda>T'. (None, T')) (ABTI_sched_free s1 force_free T)
         else Some (Some (s1\<lparr>sc_ythread := None\<rparr>), T))"

end
