(* ===== verification/SchedRefs.thy ===== *)
theory SchedRefs
  imports SchedCore
begin

text \<open>
  Reference counts of pools across the life of a scheduler (theory SchedCore): a failed creation
  leaves the pool table as it was, a successful one adds one reference per use, and freeing the
  scheduler takes them back and frees exactly the automatic pools nobody else uses.
\<close>

section \<open>Counting references\<close>

definition add_refs :: "(nat \<Rightarrow> int) \<Rightarrow> pool_table \<Rightarrow> pool_table" where
  "add_refs k T = (\<lambda>p. map_option (\<lambda>i. i\<lparr>pi_num_scheds := pi_num_scheds i + k p\<rparr>) (T p))"

definition uses :: "nat list \<Rightarrow> nat \<Rightarrow> int" where
  "uses ps p = int (count_list ps p)"

lemma uses_simps [simp]:
  "uses [] = (\<lambda>_. 0)" "uses (q # ps) p = (if q = p then 1 else 0) + uses ps p"
  by (auto simp: uses_def fun_eq_iff)

lemma uses_nonneg [simp]: "0 \<le> uses ps p"
  by (simp add: uses_def)

lemma uses_zero: "uses ps p = 0 \<longleftrightarrow> p \<notin> set ps"
  by (simp add: uses_def count_list_0_iff)

lemma add_refs_0 [simp]: "add_refs (\<lambda>_. 0) T = T"
proof
  fix p
  show "add_refs (\<lambda>_. 0) T p = T p"
    by (cases "T p") (simp_all add: add_refs_def)
qed

lemma add_refs_add: "add_refs k (add_refs l T) = add_refs (\<lambda>p. l p + k p) T"
proof
  fix p
  show "add_refs k (add_refs l T) p = add_refs (\<lambda>p. l p + k p) T p"
    by (cases "T p") (simp_all add: add_refs_def algebra_simps)
qed

lemma add_refs_dom [simp]: "dom (add_refs k T) = dom T"
  by (auto simp: add_refs_def dom_def)

lemma retain_one: "p \<in> dom T \<Longrightarrow> ABTI_pool_retain p T = Some (add_refs (\<lambda>q. if p = q then 1 else 0) T)"
proof -
  assume "p \<in> dom T"
  then obtain i where i: "T p = Some i" by blast
  have "T(p \<mapsto> i\<lparr>pi_num_scheds := pi_num_scheds i + 1\<rparr>) = add_refs (\<lambda>q. if p = q then 1 else 0) T"
  proof
    fix q
    show "(T(p \<mapsto> i\<lparr>pi_num_scheds := pi_num_scheds i + 1\<rparr>)) q = add_refs (\<lambda>q. if p = q then 1 else 0) T q"
      using i by (cases "T q") (auto simp: add_refs_def)
  qed
  then show ?thesis
    using i by (simp add: ABTI_pool_retain_def)
qed

lemma release_one:
  "T p = Some i \<Longrightarrow> 0 < pi_num_scheds i \<Longrightarrow>
    ABTI_pool_release p T = Some (pi_num_scheds i - 1, add_refs (\<lambda>q. if p = q then -1 else 0) T)"
proof -
  assume i: "T p = Some i" "0 < pi_num_scheds i"
  have "T(p \<mapsto> i\<lparr>pi_num_scheds := pi_num_scheds i - 1\<rparr>) = add_refs (\<lambda>q. if p = q then -1 else 0) T"
  proof
    fix q
    show "(T(p \<mapsto> i\<lparr>pi_num_scheds := pi_num_scheds i - 1\<rparr>)) q = add_refs (\<lambda>q. if p = q then -1 else 0) T q"
      using i by (cases "T q") (auto simp: add_refs_def)
  qed
  then show ?thesis
    using i by (simp add: ABTI_pool_release_def)
qed

lemma retain_all_refs: "set ps \<subseteq> dom T \<Longrightarrow> retain_all ps T = Some (add_refs (uses ps) T)"
proof (induction ps arbitrary: T)
  case (Cons p ps)
  have "retain_all (p # ps) T = retain_all ps (add_refs (\<lambda>q. if p = q then 1 else 0) T)"
    using Cons.prems by (simp add: retain_one)
  also have "\<dots> = Some (add_refs (uses ps) (add_refs (\<lambda>q. if p = q then 1 else 0) T))"
    using Cons.prems by (intro Cons.IH) simp
  finally show ?case
    by (simp add: add_refs_add)
qed simp

section \<open>Creating pools\<close>

definition created :: "(nat option \<times> nat) list \<Rightarrow> nat list" where
  "created l = map snd (filter (\<lambda>x. fst x = None) l)"

definition given :: "(nat option \<times> nat) list \<Rightarrow> nat list" where
  "given l = map snd (filter (\<lambda>x. fst x \<noteq> None) l)"

lemma created_simps [simp]:
  "created [] = []" "created ((None, p) # l) = p # created l" "created ((Some q, p) # l) = created l"
  "given [] = []" "given ((None, p) # l) = given l" "given ((Some q, p) # l) = p # given l"
  "created (l @ l') = created l @ created l'" "given (l @ l') = given l @ given l'"
  by (simp_all add: created_def given_def)

definition with_new :: "ABT_pool_access \<Rightarrow> nat list \<Rightarrow> pool_table \<Rightarrow> pool_table" where
  "with_new access ps T = (\<lambda>p. if p \<in> set ps then Some (new_pool access) else T p)"

text \<open>New pools are distinct and come from nowhere.\<close>

definition fresh_alloc :: "(nat \<Rightarrow> nat option) \<Rightarrow> pool_table \<Rightarrow> bool" where
  "fresh_alloc alloc T \<longleftrightarrow> (\<forall>i p. alloc i = Some p \<longrightarrow> T p = None) \<and>
     (\<forall>i j p. alloc i = Some p \<longrightarrow> alloc j = Some p \<longrightarrow> i = j)"

lemma make_pools_spec:
  "make_pools access alloc acc ps T = (b, l, T1) \<Longrightarrow>
    \<exists>new. l = acc @ new \<and> T1 = with_new access (created new) T \<and> map fst new = take (length new) ps \<and>
      (b \<longrightarrow> length new = length ps) \<and> (\<forall>(g, p) \<in> set new. g = None \<or> g = Some p) \<and>
      (\<forall>i < length new. fst (new ! i) = None \<longrightarrow> alloc (length acc + i) = Some (snd (new ! i)))"
proof (induction access alloc acc ps T rule: make_pools.induct)
  case (1 access alloc acc T)
  then show ?case
    by (simp add: with_new_def)
next
  case (2 access alloc acc p ps T)
  from 2(1) 2(2) obtain new where n: "l = (acc @ [(Some p, p)]) @ new" "T1 = with_new access (created new) T"
    "map fst new = take (length new) ps" "b \<longrightarrow> length new = length ps" "\<forall>(g, p) \<in> set new. g = None \<or> g = Some p"
    "\<forall>i < length new. fst (new ! i) = None \<longrightarrow> alloc (length (acc @ [(Some p, p)]) + i) = Some (snd (new ! i))"
    by auto
  have "\<forall>i < length ((Some p, p) # new). fst (((Some p, p) # new) ! i) = None \<longrightarrow>
      alloc (length acc + i) = Some (snd (((Some p, p) # new) ! i))"
    using n(6) by (auto simp: nth_Cons split: nat.split)
  then show ?case
    using n(1-5) by (intro exI [of _ "(Some p, p) # new"]) simp
next
  case (3 access alloc acc ps T)
  show ?case
  proof (cases "alloc (length acc)")
    case None
    then show ?thesis
      using 3(2) by (auto simp: with_new_def)
  next
    case (Some p)
    have "make_pools access alloc (acc @ [(None, p)]) ps (T(p \<mapsto> new_pool access)) = (b, l, T1)"
      using 3(2) Some by simp
    from 3(1) [OF Some this] obtain new where n: "l = (acc @ [(None, p)]) @ new"
      "T1 = with_new access (created new) (T(p \<mapsto> new_pool access))"
      "map fst new = take (length new) ps" "b \<longrightarrow> length new = length ps" "\<forall>(g, p) \<in> set new. g = None \<or> g = Some p"
      "\<forall>i < length new. fst (new ! i) = None \<longrightarrow> alloc (length (acc @ [(None, p)]) + i) = Some (snd (new ! i))"
      by blast
    have "T1 = with_new access (created ((None, p) # new)) T"
      unfolding n(2) by (auto simp: with_new_def fun_eq_iff)
    moreover have "\<forall>i < length ((None, p) # new). fst (((None, p) # new) ! i) = None \<longrightarrow>
        alloc (length acc + i) = Some (snd (((None, p) # new) ! i))"
      using n(6) Some by (auto simp: nth_Cons split: nat.split)
    ultimately show ?thesis
      using n by (intro exI [of _ "(None, p) # new"]) simp
  qed
qed

text \<open>The pools created are distinct and were not in the table.\<close>

lemma created_distinct:
  assumes "\<forall>i j p. alloc i = Some p \<longrightarrow> alloc j = Some p \<longrightarrow> i = j"
  shows "\<forall>i < length new. fst (new ! i) = None \<longrightarrow> alloc (k + i) = Some (snd (new ! i)) \<Longrightarrow>
    distinct (created new) \<and> (\<forall>p \<in> set (created new). \<exists>i. alloc (k + i) = Some p)"
proof (induction new arbitrary: k)
  case (Cons x new)
  have IH: "distinct (created new)" "\<forall>p \<in> set (created new). \<exists>i. alloc (Suc k + i) = Some p"
    using Cons.IH [of "Suc k"] Cons.prems by force+
  show ?case
  proof (cases "fst x = None")
    case True
    then obtain p where x: "x = (None, p)"
      by (cases x) simp
    have p: "alloc k = Some p"
      using Cons.prems x by (metis Nat.add_0_right True length_greater_0_conv list.discI nth_Cons_0 snd_conv)
    have "p \<notin> set (created new)"
    proof
      assume "p \<in> set (created new)"
      then obtain i where "alloc (Suc k + i) = Some p"
        using IH(2) by blast
      then have "Suc k + i = k"
        using assms p by blast
      then show False by simp
    qed
    moreover have "\<forall>q \<in> set (created new). \<exists>i. alloc (k + i) = Some q"
      using IH(2) by (metis add_Suc_shift)
    ultimately show ?thesis
      using IH(1) x p by (auto intro: exI [of _ 0])
  next
    case False
    then obtain q p where x: "x = (Some q, p)"
      by (cases x) auto
    have "\<forall>q \<in> set (created new). \<exists>i. alloc (k + i) = Some q"
      using IH(2) by (metis add_Suc_shift)
    then show ?thesis
      using IH(1) x by simp
  qed
qed simp

definition without :: "nat list \<Rightarrow> pool_table \<Rightarrow> pool_table" where
  "without ps T = (\<lambda>p. if p \<in> set ps then None else T p)"

lemma without_Nil [simp]: "without [] T = T"
  by (simp add: without_def)

lemma without_new: "\<forall>p \<in> set ps. T p = None \<Longrightarrow> without ps (with_new access ps T) = T"
  by (auto simp: without_def with_new_def fun_eq_iff)

lemma free_created_spec:
  "distinct (created l) \<Longrightarrow> set (created l) \<subseteq> dom T \<Longrightarrow> free_created l T = Some (without (created l) T)"
proof (induction l arbitrary: T)
  case (Cons x l)
  obtain g p where x: "x = (g, p)"
    by (cases x)
  show ?case
  proof (cases g)
    case None
    have "free_created l (T(p := None)) = Some (without (created l) (T(p := None)))"
      using Cons.prems None x by (intro Cons.IH) auto
    moreover have "without (created l) (T(p := None)) = without (p # created l) T"
      by (auto simp: without_def fun_eq_iff)
    ultimately show ?thesis
      using Cons.prems None x by (auto simp: ABTI_pool_free_def)
  next
    case (Some q)
    then show ?thesis
      using Cons x by simp
  qed
qed simp

section \<open>Taking references back\<close>

lemma undo_retain_spec:
  assumes "distinct (created l)" "set (created l) \<subseteq> dom T" "set (created l) \<inter> set (given l) = {}"
    and "\<forall>p \<in> set (given l). \<exists>i. T p = Some i \<and> uses (given l) p \<le> pi_num_scheds i"
  shows "undo_retain l T = Some (without (created l) (add_refs (\<lambda>p. - uses (given l) p) T))"
  using assms
proof (induction l arbitrary: T)
  case (Cons x l)
  obtain g p where x: "x = (g, p)"
    by (cases x)
  show ?case
  proof (cases g)
    case None
    have "\<forall>q \<in> set (given l). \<exists>i. (T(p := None)) q = Some i \<and> uses (given l) q \<le> pi_num_scheds i"
      using Cons.prems(3,4) None x by auto
    then have "undo_retain l (T(p := None)) = Some (without (created l) (add_refs (\<lambda>q. - uses (given l) q) (T(p := None))))"
      using Cons.prems None x by (intro Cons.IH) auto
    moreover have "without (created l) (add_refs (\<lambda>q. - uses (given l) q) (T(p := None)))
        = without (p # created l) (add_refs (\<lambda>q. - uses (given l) q) T)"
      by (auto simp: without_def add_refs_def fun_eq_iff)
    ultimately show ?thesis
      using Cons.prems None x by (auto simp: ABTI_pool_free_def)
  next
    case (Some q)
    obtain i where i: "T p = Some i" "1 + uses (given l) p \<le> pi_num_scheds i"
      using Cons.prems(4) Some x by auto
    then have pos: "0 < pi_num_scheds i"
      using uses_nonneg [of "given l" p] by linarith
    let ?T = "add_refs (\<lambda>q. if p = q then -1 else 0) T"
    have "\<forall>r \<in> set (given l). \<exists>j. ?T r = Some j \<and> uses (given l) r \<le> pi_num_scheds j"
    proof
      fix r
      assume "r \<in> set (given l)"
      then obtain j where j: "T r = Some j" "(if p = r then 1 else 0) + uses (given l) r \<le> pi_num_scheds j"
        using Cons.prems(4) Some x by auto
      then show "\<exists>j. ?T r = Some j \<and> uses (given l) r \<le> pi_num_scheds j"
        by (auto simp: add_refs_def split: if_splits)
    qed
    then have "undo_retain l ?T = Some (without (created l) (add_refs (\<lambda>q. - uses (given l) q) ?T))"
      using Cons.prems Some x by (intro Cons.IH) auto
    moreover have "add_refs (\<lambda>q. - uses (given l) q) ?T = add_refs (\<lambda>q. - uses (p # given l) q) T"
      unfolding add_refs_add by (rule arg_cong [of _ _ "\<lambda>k. add_refs k T"]) auto
    ultimately show ?thesis
      using release_one [of T p i] i pos Some x by simp
  qed
qed simp

text \<open>What freeing a scheduler does to the pools it used.\<close>

definition released :: "nat list \<Rightarrow> pool_table \<Rightarrow> pool_table" where
  "released ps T = (\<lambda>p. case T p of None \<Rightarrow> None | Some i \<Rightarrow>
     if p \<in> set ps \<and> pi_automatic i \<and> pi_num_scheds i = uses ps p then None
     else Some (i\<lparr>pi_num_scheds := pi_num_scheds i - uses ps p\<rparr>))"

lemma release_pools_spec:
  assumes "\<forall>p \<in> set ps. \<exists>i. T p = Some i \<and> uses ps p \<le> pi_num_scheds i"
  shows "release_pools False (map Some ps) T = Some (released ps T)"
  using assms
proof (induction ps arbitrary: T)
  case Nil
  have "released [] T p = T p" for p
    by (cases "T p") (simp_all add: released_def)
  then show ?case
    by (simp add: fun_eq_iff)
next
  case (Cons p ps)
  obtain i where i: "T p = Some i" "1 + uses ps p \<le> pi_num_scheds i"
    using Cons.prems by auto
  then have pos: "0 < pi_num_scheds i"
    using uses_nonneg [of ps p] by linarith
  let ?T1 = "add_refs (\<lambda>q. if p = q then -1 else 0) T"
  have T1p: "?T1 p = Some (i\<lparr>pi_num_scheds := pi_num_scheds i - 1\<rparr>)"
    using i by (simp add: add_refs_def)
  have rest: "\<exists>j. ?T1 r = Some j \<and> uses ps r \<le> pi_num_scheds j" if "r \<in> set ps" for r
  proof -
    have "\<exists>j. T r = Some j \<and> (if p = r then 1 else 0) + uses ps r \<le> pi_num_scheds j"
      using Cons.prems that by simp
    then obtain j where "T r = Some j" "(if p = r then 1 else 0) + uses ps r \<le> pi_num_scheds j"
      by blast
    then show ?thesis
      by (auto simp: add_refs_def split: if_splits)
  qed
  show ?case
  proof (cases "pi_automatic i \<and> pi_num_scheds i = 1")
    case True
    then have np: "p \<notin> set ps"
      using i(2) uses_nonneg [of ps p] uses_zero [of ps p] by linarith
    have "release_pools False (map Some ps) (?T1(p := None)) = Some (released ps (?T1(p := None)))"
      using rest np by (intro Cons.IH) auto
    moreover have "released ps (?T1(p := None)) = released (p # ps) T"
    proof
      fix q
      show "released ps (?T1(p := None)) q = released (p # ps) T q"
        using True i np uses_zero [of ps p] by (cases "T q") (auto simp: released_def add_refs_def)
    qed
    ultimately show ?thesis
      using release_one [of T p i, OF i(1) pos] T1p True i by (simp add: ABTI_pool_free_def)
  next
    case False
    have "release_pools False (map Some ps) ?T1 = Some (released ps ?T1)"
      using rest by (intro Cons.IH) auto
    moreover have "released ps ?T1 = released (p # ps) T"
    proof
      fix q
      show "released ps ?T1 q = released (p # ps) T q"
        using False i uses_zero [of ps p] by (cases "T q") (auto simp: released_def add_refs_def)
    qed
    ultimately show ?thesis
      using release_one [of T p i, OF i(1) pos] False i by auto
  qed
qed

section \<open>Creation and freeing\<close>

definition table_ok :: "pool_table \<Rightarrow> bool" where
  "table_ok T \<longleftrightarrow> (\<forall>p i. T p = Some i \<longrightarrow> 0 \<le> pi_num_scheds i)"

definition given_pools :: "nat option list \<Rightarrow> nat list" where
  "given_pools pools = map the (filter (\<lambda>x. x \<noteq> None) pools)"

lemma given_fst:
  "\<forall>(g, p) \<in> set l. g = None \<or> g = Some p \<Longrightarrow> given l = given_pools (map fst l)"
  by (induction l) (auto simp: given_def given_pools_def)

lemma snd_created_given: "set (map snd l) = set (created l) \<union> set (given l)"
proof (induction l)
  case (Cons x l)
  then show ?case
    by (cases x; cases "fst x") simp_all
qed simp

lemma uses_split: "uses (map snd l) p = uses (created l) p + uses (given l) p"
  by (induction l) (auto simp: created_def given_def)

text \<open>The pools that exist after the first loop, and the result of the second error path.\<close>

lemma make_pools_ok:
  assumes "fresh_alloc alloc T" "set (given_pools pools) \<subseteq> dom T" "make_pools access alloc [] pools T = (b, l, T1)"
  shows "T1 = with_new access (created l) T" "distinct (created l)" "\<forall>p \<in> set (created l). T p = None"
    "set (given l) \<subseteq> dom T" "b \<Longrightarrow> map fst l = pools" "\<forall>(g, p) \<in> set l. g = None \<or> g = Some p"
proof -
  have l: "T1 = with_new access (created l) T" "map fst l = take (length l) pools" "b \<longrightarrow> length l = length pools"
    "\<forall>(g, p) \<in> set l. g = None \<or> g = Some p"
    "\<forall>i < length l. fst (l ! i) = None \<longrightarrow> alloc (0 + i) = Some (snd (l ! i))"
    using make_pools_spec [OF assms(3)] by auto
  show "T1 = with_new access (created l) T" "\<forall>(g, p) \<in> set l. g = None \<or> g = Some p"
    using l by blast+
  show "map fst l = pools" if b
    using l(2,3) that by simp
  have "\<forall>i j p. alloc i = Some p \<longrightarrow> alloc j = Some p \<longrightarrow> i = j"
    using assms(1) unfolding fresh_alloc_def by blast
  from created_distinct [OF this l(5)]
  have c: "distinct (created l)" "\<forall>p \<in> set (created l). \<exists>i. alloc (0 + i) = Some p"
    by blast+
  show "distinct (created l)" "\<forall>p \<in> set (created l). T p = None"
    using c assms(1) unfolding fresh_alloc_def by blast+
  have "set (given l) \<subseteq> set (given_pools pools)"
    unfolding given_fst [OF l(4)] l(2) given_pools_def using set_take_subset [of "length l" pools] by auto
  then show "set (given l) \<subseteq> dom T"
    using assms(2) by blast
qed

lemma new_table_facts:
  assumes "T1 = with_new access (created l) T" "\<forall>p \<in> set (created l). T p = None" "set (given l) \<subseteq> dom T"
  shows "set (created l) \<subseteq> dom T1" "set (map snd l) \<subseteq> dom T1" "set (created l) \<inter> set (given l) = {}"
    "without (created l) T1 = T"
proof -
  show "set (created l) \<subseteq> dom T1" "set (map snd l) \<subseteq> dom T1" "set (created l) \<inter> set (given l) = {}"
    using assms unfolding snd_created_given by (auto simp: with_new_def split: if_splits)
  show "without (created l) T1 = T"
    using without_new [OF assms(2)] assms(1) by simp
qed

lemma undo_after_retain:
  assumes "table_ok T" "T1 = with_new access (created l) T" "distinct (created l)"
    "\<forall>p \<in> set (created l). T p = None" "set (given l) \<subseteq> dom T"
  shows "undo_retain l (add_refs (uses (map snd l)) T1) = Some T"
proof -
  let ?T2 = "add_refs (uses (map snd l)) T1"
  note f = new_table_facts [OF assms(2,4,5)]
  have "\<forall>p \<in> set (given l). \<exists>i. ?T2 p = Some i \<and> uses (given l) p \<le> pi_num_scheds i"
  proof
    fix p
    assume p: "p \<in> set (given l)"
    then obtain i where i: "T p = Some i" "0 \<le> pi_num_scheds i"
      using assms(1,5) unfolding table_ok_def by blast
    have np: "p \<notin> set (created l)"
      using p f(3) by blast
    then have "?T2 p = Some (i\<lparr>pi_num_scheds := pi_num_scheds i + uses (given l) p\<rparr>)"
      using i assms(2) uses_zero [of "created l" p] by (simp add: add_refs_def with_new_def uses_split)
    then show "\<exists>i. ?T2 p = Some i \<and> uses (given l) p \<le> pi_num_scheds i"
      using i(2) by simp
  qed
  then have "undo_retain l ?T2 = Some (without (created l) (add_refs (\<lambda>p. - uses (given l) p) ?T2))"
    using undo_retain_spec [of l ?T2] assms(3) f by simp
  moreover have "without (created l) (add_refs (\<lambda>p. - uses (given l) p) ?T2) = T"
  proof
    fix p
    show "without (created l) (add_refs (\<lambda>p. - uses (given l) p) ?T2) p = T p"
    proof (cases "p \<in> set (created l)")
      case True
      then show ?thesis
        using assms(4) by (simp add: without_def)
    next
      case False
      then have "uses (created l) p = 0"
        by (simp add: uses_zero)
      then show ?thesis
        using False assms(2) by (cases "T p") (simp_all add: without_def add_refs_def with_new_def uses_split)
    qed
  qed
  ultimately show ?thesis
    by simp
qed

text \<open>
  \<open>l\<close> are the pools of the new scheduler \<open>s\<close>, each with the argument it came from: the table has
  the pools created for NULL arguments and one reference more for every use of a pool.
\<close>

definition created_with ::
    "nat option list \<Rightarrow> (nat option \<times> nat) list \<Rightarrow> pool_table \<Rightarrow> 'd sched \<Rightarrow> pool_table \<Rightarrow> bool" where
  "created_with pools l T s T' \<longleftrightarrow> sc_used s = ABTI_SCHED_NOT_USED \<and> sc_pools s = map Some (map snd l) \<and>
     map fst l = pools \<and> (\<forall>(g, p) \<in> set l. g = None \<or> g = Some p) \<and> distinct (created l) \<and>
     (\<forall>p \<in> set (created l). T p = None) \<and> set (given l) \<subseteq> dom T \<and>
     T' = add_refs (uses (map snd l)) (with_new ABT_POOL_ACCESS_MPSC (created l) T)"

text \<open>
  All or nothing: an error leaves every count and every pool as before; success adds one
  reference for every use of a pool.
\<close>

lemma sched_create_spec:
  assumes "table_ok T" "fresh_alloc alloc T" "set (given_pools pools) \<subseteq> dom T"
    and init: "\<And>ps f. def_init sd = Some f \<Longrightarrow> f ps \<noteq> None"
    and conf: "config_automatic def_automatic config \<noteq> None"
  shows "\<exists>err s T'. sched_create m1 m2 alloc sd pools config def_automatic T = Some (err, s, T') \<and>
    (if err = ABT_SUCCESS then \<exists>s0 l. s = Some s0 \<and> created_with pools l T s0 T'
     else s = None \<and> T' = T)"
proof (cases "m1 \<and> m2")
  case False
  then show ?thesis
    using conf by (auto simp: sched_create_def)
next
  case True
  obtain auto where auto: "config_automatic def_automatic config = Some auto"
    using conf by blast
  obtain b l T1 where mp: "make_pools ABT_POOL_ACCESS_MPSC alloc [] pools T = (b, l, T1)"
    by (cases "make_pools ABT_POOL_ACCESS_MPSC alloc [] pools T") auto
  note mk = make_pools_ok [OF assms(2,3) mp]
  note f = new_table_facts [OF mk(1,3,4)]
  show ?thesis
  proof (cases b)
    case False
    have "free_created l T1 = Some T"
      using free_created_spec [OF mk(2) f(1)] f(4) by simp
    then show ?thesis
      using True False auto mp by (simp add: sched_create_def)
  next
    case b: True
    have r: "retain_all (map snd l) T1 = Some (add_refs (uses (map snd l)) T1)"
      by (rule retain_all_refs [OF f(2)])
    obtain err data where d: "(case def_init sd of None \<Rightarrow> Some (ABT_SUCCESS, None) | Some f \<Rightarrow> f (map snd l))
        = Some (err, data)"
    proof (cases "def_init sd")
      case (Some g)
      then show ?thesis
        using that init [OF Some, of "map snd l"] by (cases "g (map snd l)") auto
    qed (use that in simp)
    show ?thesis
    proof (cases "err = ABT_SUCCESS")
      case True
      let ?s = "\<lparr>sc_used = ABTI_SCHED_NOT_USED, sc_automatic = auto, sc_kind = def_kind sd, sc_request = 0,
        sc_pools = map (\<lambda>x. Some (snd x)) l, sc_ythread = None, sc_data = data,
        sc_get_migr_pool = def_get_migr_pool sd\<rparr>"
      have "sched_create m1 m2 alloc sd pools config def_automatic T
          = Some (ABT_SUCCESS, Some ?s, add_refs (uses (map snd l)) T1)"
        using \<open>m1 \<and> m2\<close> b auto mp r d True by (simp add: sched_create_def)
      moreover have "sc_pools ?s = map Some (map snd l)"
        by simp
      moreover have "sc_used ?s = ABTI_SCHED_NOT_USED"
        by simp
      ultimately have "created_with pools l T ?s (add_refs (uses (map snd l)) T1)"
        using mk(1-4,6) mk(5) [OF b] unfolding created_with_def by blast
      then show ?thesis
        using \<open>sched_create m1 m2 alloc sd pools config def_automatic T = _\<close> by auto
    next
      case False
      have "undo_retain l (add_refs (uses (map snd l)) T1) = Some T"
        by (rule undo_after_retain [OF assms(1) mk(1,2,3,4)])
      then show ?thesis
        using \<open>m1 \<and> m2\<close> b auto mp r d False by (simp add: sched_create_def)
    qed
  qed
qed

text \<open>Freeing a scheduler right after its creation.\<close>

lemma create_free:
  assumes "table_ok T" "created_with pools l T s T'"
  shows "ABTI_sched_free s False T' = Some (\<lambda>p. case T p of None \<Rightarrow> None | Some i \<Rightarrow>
    if p \<in> set (given l) \<and> pi_automatic i \<and> pi_num_scheds i = 0 then None else Some i)"
proof -
  let ?T1 = "with_new ABT_POOL_ACCESS_MPSC (created l) T"
  have c: "\<forall>p \<in> set (created l). T p = None" "set (given l) \<subseteq> dom T" "T' = add_refs (uses (map snd l)) ?T1"
    "sc_used s = ABTI_SCHED_NOT_USED" "sc_pools s = map Some (map snd l)"
    using assms(2) unfolding created_with_def by blast+
  note f = new_table_facts [OF refl [of ?T1] c(1,2)]
  have *: "\<exists>i. T' p = Some i \<and> uses (map snd l) p \<le> pi_num_scheds i" if p: "p \<in> set (map snd l)" for p
  proof -
    obtain i where i: "?T1 p = Some i"
      using p f(2) by blast
    have "0 \<le> pi_num_scheds i"
      using i assms(1) by (auto simp: with_new_def new_pool_def table_ok_def split: if_splits)
    then show ?thesis
      using i c(3) by (simp add: add_refs_def)
  qed
  have "released (map snd l) T' p = (case T p of None \<Rightarrow> None | Some i \<Rightarrow>
      if p \<in> set (given l) \<and> pi_automatic i \<and> pi_num_scheds i = 0 then None else Some i)" for p
  proof (cases "p \<in> set (created l)")
    case True
    then have "p \<in> set (map snd l)"
      unfolding snd_created_given by simp
    then show ?thesis
      using True c(1,3) by (simp add: released_def add_refs_def with_new_def new_pool_def)
  next
    case False
    then have "p \<in> set (map snd l) \<longleftrightarrow> p \<in> set (given l)"
      unfolding snd_created_given by simp
    then show ?thesis
      using False c(3) by (cases "T p") (simp_all add: released_def add_refs_def with_new_def)
  qed
  then show ?thesis
    using release_pools_spec [of "map snd l" T'] * c(4,5) by (simp add: ABTI_sched_free_def fun_eq_iff)
qed

section \<open>Stopping\<close>

lemma has_unit_iff: "ABTI_sched_has_unit is \<longleftrightarrow> (\<exists>i \<in> set is. pool_busy i)"
  by (induction "is") auto

text \<open>A scheduler that stops without an exit request saw all its pools without work.\<close>

lemma stops_only_when_idle:
  assumes "ABTI_sched_has_to_stop used r1 is1 r2 is2" "r1 AND ABTI_SCHED_REQ_EXIT = 0"
  shows "(\<forall>i \<in> set is1. \<not> pool_busy i) \<and>
    (r2 AND (ABTI_SCHED_REQ_FINISH OR ABTI_SCHED_REQ_REPLACE) \<noteq> 0 \<and> (\<forall>i \<in> set is2. \<not> pool_busy i) \<or>
     r2 AND (ABTI_SCHED_REQ_FINISH OR ABTI_SCHED_REQ_REPLACE) = 0 \<and> used = ABTI_SCHED_IN_POOL)"
  using assms by (auto simp: ABTI_sched_has_to_stop_def has_unit_iff split: if_splits)

end
