(* ===== verification/CostMeta.thy ===== *)
theory CostMeta
  imports Complex_Main Prelude
begin

text \<open>
  The estimates of the cost-aware work-stealing scheduler
  (\<^verbatim>\<open>examples/workstealing_scheduler/abt_workstealing_scheduler_cost_aware.c\<close>): for every pool a
  growing ring buffer with the estimated costs of the units in its queue, and their sum. Every
  operation holds the mutex of the buffer from its start to its end, so it is one step. A
  \<^verbatim>\<open>double\<close> is a real number here, the rounding of the sums is not modelled; \<open>None\<close> in a buffer
  is memory \<^verbatim>\<open>malloc\<close> left uninitialized.

  The buffer implements a FIFO queue of estimates, and the sum is the sum of the queue.
\<close>

section \<open>The ring buffer\<close>

record pool_meta =
  pm_sum :: real
  pm_count :: int
  pm_buffer :: "real option list"
  pm_head :: nat
  pm_tail :: nat
  pm_capacity :: nat

text \<open>The results of the allocations are arguments; \<^verbatim>\<open>calloc\<close> has zeroed the structure.\<close>

definition pool_meta_init_one :: "bool \<Rightarrow> bool \<Rightarrow> int \<Rightarrow> int \<times> pool_meta" where
  "pool_meta_init_one malloc_ok mutex_ok initial_capacity =
     (let cap = (if initial_capacity > 0 then nat initial_capacity else 1024);
          pm = \<lparr>pm_sum = 0, pm_count = 0, pm_buffer = [], pm_head = 0, pm_tail = 0, pm_capacity = cap\<rparr>
      in if \<not> malloc_ok \<or> \<not> mutex_ok then (-1, pm)
         else (0, pm\<lparr>pm_buffer := replicate cap None\<rparr>))"

text \<open>The loop that copies the queue to a larger buffer; it ends when it meets the tail.\<close>

partial_function (option) copy_estimates ::
    "pool_meta \<Rightarrow> nat \<Rightarrow> nat \<Rightarrow> real option list \<Rightarrow> (nat \<times> real option list) option" where
  "copy_estimates pm idx i nb =
     (if idx = pm_tail pm then Some (i, nb)
      else if idx < length (pm_buffer pm) \<and> i < length nb
      then copy_estimates pm ((idx + 1) mod pm_capacity pm) (i + 1) (nb[i := pm_buffer pm ! idx])
      else None)"

definition grow_buffer :: "bool \<Rightarrow> pool_meta \<Rightarrow> pool_meta option" where
  "grow_buffer malloc_ok pm =
     (let newcap = pm_capacity pm * 2 in do {
        (i, nb) \<leftarrow> copy_estimates pm (pm_head pm) 0 (if malloc_ok then replicate newcap None else []);
        Some (pm\<lparr>pm_buffer := nb, pm_capacity := newcap, pm_head := 0, pm_tail := i\<rparr>)
      })"

definition push_estimate :: "bool \<Rightarrow> real \<Rightarrow> pool_meta \<Rightarrow> pool_meta option" where
  "push_estimate malloc_ok est pm = do {
     let next_tail = (pm_tail pm + 1) mod pm_capacity pm;
     pm1 \<leftarrow> (if next_tail = pm_head pm then grow_buffer malloc_ok pm else Some pm);
     (if pm_tail pm1 < length (pm_buffer pm1)
      then Some (pm1\<lparr>pm_buffer := (pm_buffer pm1)[pm_tail pm1 := Some est],
                     pm_tail := (pm_tail pm1 + 1) mod pm_capacity pm1,
                     pm_sum := pm_sum pm1 + est, pm_count := pm_count pm1 + 1\<rparr>)
      else None)
   }"

definition pop_estimate :: "pool_meta \<Rightarrow> (real \<times> pool_meta) option" where
  "pop_estimate pm =
     (if pm_head pm \<noteq> pm_tail pm then do {
        est \<leftarrow> (if pm_head pm < length (pm_buffer pm) then pm_buffer pm ! pm_head pm else None);
        let count = pm_count pm - 1;
        let sum = pm_sum pm - est;
        Some (est, pm\<lparr>pm_head := (pm_head pm + 1) mod pm_capacity pm,
                      pm_count := (if count < 0 then 0 else count),
                      pm_sum := (if sum < 0 then 0 else sum)\<rparr>)
      }
      else Some (-1, pm))"

section \<open>The global statistics\<close>

record global_load =
  gl_total_time :: real
  gl_task_count :: int

record ws_globals =
  g_loads :: "global_load list"
  g_num_xstreams :: int
  g_pool_meta :: "pool_meta list option"

definition on_rank :: "ws_globals \<Rightarrow> int \<Rightarrow> pool_meta list option" where
  "on_rank g rank = (if rank < 0 \<or> rank \<ge> g_num_xstreams g then None else g_pool_meta g)"

definition ws_push_task_estimate :: "bool \<Rightarrow> int \<Rightarrow> real \<Rightarrow> ws_globals \<Rightarrow> ws_globals option" where
  "ws_push_task_estimate malloc_ok rank est g =
     (case on_rank g rank of
        None \<Rightarrow> Some g
      | Some pms \<Rightarrow>
          if nat rank < length pms then do {
            pm \<leftarrow> push_estimate malloc_ok est (pms ! nat rank);
            Some (g\<lparr>g_pool_meta := Some (pms[nat rank := pm])\<rparr>)
          } else None)"

definition ws_pop_task_estimate :: "int \<Rightarrow> ws_globals \<Rightarrow> (real \<times> ws_globals) option" where
  "ws_pop_task_estimate rank g =
     (case on_rank g rank of
        None \<Rightarrow> Some (-1, g)
      | Some pms \<Rightarrow>
          if nat rank < length pms then do {
            (est, pm) \<leftarrow> pop_estimate (pms ! nat rank);
            Some (est, g\<lparr>g_pool_meta := Some (pms[nat rank := pm])\<rparr>)
          } else None)"

definition ws_get_pool_estimated_load :: "int \<Rightarrow> ws_globals \<Rightarrow> real option" where
  "ws_get_pool_estimated_load rank g =
     (case on_rank g rank of
        None \<Rightarrow> Some 0
      | Some pms \<Rightarrow> if nat rank < length pms then Some (pm_sum (pms ! nat rank)) else None)"

text \<open>The two loops of the search; the argument lists the indices still to visit.\<close>

fun heaviest_meta :: "int \<Rightarrow> ws_globals \<Rightarrow> real \<Rightarrow> int \<Rightarrow> int list \<Rightarrow> int option" where
  "heaviest_meta self g max_load victim [] = Some victim"
| "heaviest_meta self g max_load victim (i # is) =
     (if i = self then heaviest_meta self g max_load victim is
      else do {
        cur \<leftarrow> ws_get_pool_estimated_load i g;
        (if cur > max_load \<and> cur > 0 then heaviest_meta self g cur i is
         else heaviest_meta self g max_load victim is)
      })"

fun heaviest_history :: "int \<Rightarrow> ws_globals \<Rightarrow> real \<Rightarrow> int \<Rightarrow> int list \<Rightarrow> int option" where
  "heaviest_history self g max_load victim [] = Some victim"
| "heaviest_history self g max_load victim (i # is) =
     (if i = self then heaviest_history self g max_load victim is
      else if nat i < length (g_loads g)
      then (let l = g_loads g ! nat i in
            if gl_total_time l > max_load \<and> gl_task_count l > 0
            then heaviest_history self g (gl_total_time l) i is
            else heaviest_history self g max_load victim is)
      else None)"

definition ws_find_heaviest_pool :: "int \<Rightarrow> nat \<Rightarrow> ws_globals \<Rightarrow> int option" where
  "ws_find_heaviest_pool self num g =
     (if g_pool_meta g \<noteq> None then heaviest_meta self g 0 (-1) (map int [0..<num])
      else heaviest_history self g 0 (-1) (map int [0..<num]))"

definition ws_update_task_time :: "real \<Rightarrow> int \<Rightarrow> ws_globals \<Rightarrow> ws_globals option" where
  "ws_update_task_time elapsed rank g =
     (if rank \<ge> 0 \<and> rank < g_num_xstreams g then
        (if nat rank < length (g_loads g) then
           (let l = g_loads g ! nat rank in
            Some (g\<lparr>g_loads := (g_loads g)[nat rank := l\<lparr>gl_total_time := gl_total_time l + elapsed,
                gl_task_count := gl_task_count l + 1\<rparr>]\<rparr>))
         else None)
      else Some g)"

section \<open>The ring buffer is a queue\<close>

text \<open>\<open>meta_rep pm q\<close>: the buffer holds the estimates \<open>q\<close>, oldest first.\<close>

definition meta_rep :: "pool_meta \<Rightarrow> real list \<Rightarrow> bool" where
  "meta_rep pm q \<longleftrightarrow> length (pm_buffer pm) = pm_capacity pm \<and> length q < pm_capacity pm \<and>
     pm_head pm < pm_capacity pm \<and> pm_tail pm = (pm_head pm + length q) mod pm_capacity pm \<and>
     (\<forall>i < length q. pm_buffer pm ! ((pm_head pm + i) mod pm_capacity pm) = Some (q ! i)) \<and>
     pm_count pm = int (length q) \<and> pm_sum pm = sum_list q \<and> (\<forall>e \<in> set q. 0 \<le> e)"

lemma meta_init:
  "\<exists>pm. pool_meta_init_one True True cap = (0, pm) \<and> meta_rep pm [] \<and>
    pm_capacity pm = (if cap > 0 then nat cap else 1024)"
  by (auto simp: pool_meta_init_one_def meta_rep_def Let_def)

text \<open>Positions of a ring of \<open>c\<close> cells.\<close>

lemma ring_le:
  assumes "i \<le> j" "j < c" "(h + i) mod c = (h + j) mod (c :: nat)"
  shows "i = j"
proof -
  have "c dvd (h + j) - (h + i)"
    using assms(1,3) mod_eq_dvd_iff_nat [of "h + i" "h + j" c] by simp
  then show ?thesis
    using assms(1,2) by (auto dest: dvd_imp_le)
qed

lemma ring_eq: "i < c \<Longrightarrow> j < c \<Longrightarrow> (h + i) mod c = (h + j) mod (c :: nat) \<longleftrightarrow> i = j"
  using ring_le [of i j c h] ring_le [of j i c h] by (cases "i \<le> j") auto

text \<open>Growing: the loop copies the queue to the front of the new buffer.\<close>

lemma copy_queue:
  assumes rep: "meta_rep pm q"
  shows "i \<le> length q \<Longrightarrow> length q < length nb \<Longrightarrow>
    copy_estimates pm ((pm_head pm + i) mod pm_capacity pm) i nb
    = Some (length q, take i nb @ map Some (drop i q) @ drop (length q) nb)"
proof (induction "length q - i" arbitrary: i nb)
  case 0
  then show ?case
    using rep by (simp add: copy_estimates.simps meta_rep_def)
next
  case (Suc n)
  let ?c = "pm_capacity pm" and ?x = "(pm_head pm + i) mod pm_capacity pm"
  have i: "i < length q" "length q < ?c"
    using Suc.hyps(2) rep by (simp_all add: meta_rep_def)
  have x: "?x \<noteq> pm_tail pm" "?x < length (pm_buffer pm)" "pm_buffer pm ! ?x = Some (q ! i)"
    using rep i ring_eq [of i ?c "length q" "pm_head pm"] by (simp_all add: meta_rep_def)
  have next_x: "(?x + 1) mod ?c = (pm_head pm + (i + 1)) mod ?c"
    by (simp add: mod_Suc_eq)
  have "copy_estimates pm ?x i nb = copy_estimates pm ((pm_head pm + (i + 1)) mod ?c) (i + 1) (nb[i := Some (q ! i)])"
    using x i Suc.prems(2) next_x by (subst copy_estimates.simps) simp
  also have "\<dots> = Some (length q, take (i + 1) (nb[i := Some (q ! i)]) @ map Some (drop (i + 1) q)
      @ drop (length q) (nb[i := Some (q ! i)]))"
    by (rule Suc.hyps(1)) (use Suc.hyps(2) i Suc.prems in auto)
  also have "take (i + 1) (nb[i := Some (q ! i)]) @ map Some (drop (i + 1) q) @ drop (length q) (nb[i := Some (q ! i)])
      = take i nb @ map Some (drop i q) @ drop (length q) nb"
    using i Suc.prems(2) by (simp add: take_Suc_conv_app_nth flip: Cons_nth_drop_Suc)
  finally show ?case .
qed

lemma grow_rep:
  assumes rep: "meta_rep pm q"
  shows "\<exists>pm'. grow_buffer True pm = Some pm' \<and> meta_rep pm' q \<and> pm_capacity pm' = 2 * pm_capacity pm"
proof -
  let ?n = "2 * pm_capacity pm"
  have l: "length q < pm_capacity pm" "pm_head pm mod pm_capacity pm = pm_head pm"
    using rep by (simp_all add: meta_rep_def)
  have "copy_estimates pm (pm_head pm) 0 (replicate ?n None)
      = Some (length q, map Some q @ replicate (?n - length q) None)"
    using copy_queue [OF rep, of 0 "replicate ?n None"] l by simp
  then show ?thesis
    using rep by (auto simp: grow_buffer_def meta_rep_def nth_append mult.commute Let_def)
qed

text \<open>One cell stays free, so a full ring is told from an empty one.\<close>

lemma push_rep:
  assumes rep: "meta_rep pm q" and est: "0 \<le> est"
  shows "\<exists>pm'. push_estimate True est pm = Some pm' \<and> meta_rep pm' (q @ [est]) \<and>
    pm_capacity pm' = (if length q + 1 < pm_capacity pm then pm_capacity pm else 2 * pm_capacity pm)"
proof -
  have full: "(pm_tail pm + 1) mod pm_capacity pm = pm_head pm \<longleftrightarrow> \<not> length q + 1 < pm_capacity pm"
  proof -
    have t: "(pm_tail pm + 1) mod pm_capacity pm = (pm_head pm + (length q + 1)) mod pm_capacity pm"
      "pm_head pm = (pm_head pm + 0) mod pm_capacity pm"
      using rep by (simp_all add: meta_rep_def mod_Suc_eq)
    show ?thesis
    proof (cases "length q + 1 < pm_capacity pm")
      case True
      then show ?thesis
        using t ring_eq [of "length q + 1" "pm_capacity pm" 0 "pm_head pm"] by simp
    next
      case False
      then have "length q + 1 = pm_capacity pm"
        using rep by (simp add: meta_rep_def)
      then show ?thesis
        using t(1) rep by (simp add: meta_rep_def)
    qed
  qed
  define room where "room = (if (pm_tail pm + 1) mod pm_capacity pm = pm_head pm then grow_buffer True pm else Some pm)"
  obtain pm1 where pm1: "room = Some pm1" "meta_rep pm1 q" "length q + 1 < pm_capacity pm1"
    "pm_capacity pm1 = (if length q + 1 < pm_capacity pm then pm_capacity pm else 2 * pm_capacity pm)"
  proof (cases "length q + 1 < pm_capacity pm")
    case True
    then show ?thesis
      using that [of pm] full rep by (simp add: room_def)
  next
    case False
    obtain pm' where "grow_buffer True pm = Some pm'" "meta_rep pm' q" "pm_capacity pm' = 2 * pm_capacity pm"
      using grow_rep [OF rep] by blast
    moreover have "length q < pm_capacity pm" "0 < pm_capacity pm"
      using rep by (simp_all add: meta_rep_def)
    ultimately show ?thesis
      using that [of pm'] full False rep by (simp add: room_def meta_rep_def)
  qed
  let ?c = "pm_capacity pm1" and ?h = "pm_head pm1" and ?t = "pm_tail pm1"
  let ?pm = "pm1\<lparr>pm_buffer := (pm_buffer pm1)[?t := Some est], pm_tail := (?t + 1) mod ?c,
    pm_sum := pm_sum pm1 + est, pm_count := pm_count pm1 + 1\<rparr>"
  have t: "?t = (?h + length q) mod ?c" "?t < ?c" "length (pm_buffer pm1) = ?c"
    using pm1(2) by (simp_all add: meta_rep_def)
  have "(pm_buffer pm1)[?t := Some est] ! ((?h + i) mod ?c) = Some ((q @ [est]) ! i)" if "i < length q + 1" for i
  proof (cases "i = length q")
    case True
    then show ?thesis
      using t by simp
  next
    case False
    then have "(?h + i) mod ?c \<noteq> ?t" "i < length q"
      using that t(1) pm1(3) ring_eq [of i ?c "length q" ?h] by auto
    then show ?thesis
      using pm1(2) by (simp add: meta_rep_def nth_append)
  qed
  then have "meta_rep ?pm (q @ [est])"
    using pm1(2,3) t est by (auto simp: meta_rep_def mod_Suc_eq)
  moreover have "push_estimate True est pm = Some ?pm"
    using pm1(1) t by (simp add: push_estimate_def room_def)
  ultimately show ?thesis
    using pm1(4) by auto
qed

lemma pop_rep:
  assumes rep: "meta_rep pm (e # q)"
  shows "\<exists>pm'. pop_estimate pm = Some (e, pm') \<and> meta_rep pm' q"
proof -
  let ?c = "pm_capacity pm" and ?h = "pm_head pm"
  have ne: "?h \<noteq> pm_tail pm"
    using rep ring_eq [of 0 ?c "length (e # q)" ?h] by (auto simp: meta_rep_def)
  have e: "pm_buffer pm ! ?h = Some e" "?h < length (pm_buffer pm)"
    using rep by (auto simp: meta_rep_def dest!: spec [of _ 0])
  have "pm_buffer pm ! (((?h + 1) mod ?c + i) mod ?c) = Some (q ! i)" if "i < length q" for i
    using rep that by (auto simp: meta_rep_def mod_add_left_eq dest!: spec [of _ "Suc i"])
  moreover have "((?h + 1) mod ?c + length q) mod ?c = pm_tail pm"
    using rep by (simp add: meta_rep_def mod_add_left_eq)
  moreover have "0 \<le> sum_list q"
    using rep by (auto simp: meta_rep_def intro!: sum_list_nonneg)
  ultimately show ?thesis
    using rep ne e by (auto simp: pop_estimate_def meta_rep_def Let_def)
qed

lemma pop_empty_rep: "meta_rep pm [] \<Longrightarrow> pop_estimate pm = Some (-1, pm)"
  by (auto simp: pop_estimate_def meta_rep_def)

text \<open>Sequences of operations give the results of a list used as a queue.\<close>

datatype est_op = EPush real | EPop

fun run_estimates :: "est_op list \<Rightarrow> pool_meta \<Rightarrow> (real list \<times> pool_meta) option" where
  "run_estimates [] pm = Some ([], pm)"
| "run_estimates (EPush e # ops) pm = Option.bind (push_estimate True e pm) (run_estimates ops)"
| "run_estimates (EPop # ops) pm = do {
     (e, pm1) \<leftarrow> pop_estimate pm;
     (es, pm2) \<leftarrow> run_estimates ops pm1;
     Some (e # es, pm2)
   }"

fun queue_estimates :: "est_op list \<Rightarrow> real list \<Rightarrow> real list \<times> real list" where
  "queue_estimates [] q = ([], q)"
| "queue_estimates (EPush e # ops) q = queue_estimates ops (q @ [e])"
| "queue_estimates (EPop # ops) q =
     (case queue_estimates ops (tl q) of (es, q') \<Rightarrow> ((case q of [] \<Rightarrow> -1 | e # _ \<Rightarrow> e) # es, q'))"

lemma run_queue:
  "meta_rep pm q \<Longrightarrow> \<forall>e. EPush e \<in> set ops \<longrightarrow> 0 \<le> e \<Longrightarrow>
    \<exists>pm'. run_estimates ops pm = Some (fst (queue_estimates ops q), pm') \<and> meta_rep pm' (snd (queue_estimates ops q))"
proof (induction ops arbitrary: pm q)
  case (Cons x ops)
  show ?case
  proof (cases x)
    case (EPush e)
    then obtain pm1 where "push_estimate True e pm = Some pm1" "meta_rep pm1 (q @ [e])"
      using push_rep [OF Cons.prems(1), of e] Cons.prems(2) by auto
    then show ?thesis
      using Cons.IH [of pm1 "q @ [e]"] Cons.prems(2) EPush by auto
  next
    case EPop
    obtain pm1 where "pop_estimate pm = Some (case q of [] \<Rightarrow> -1 | e # _ \<Rightarrow> e, pm1)" "meta_rep pm1 (tl q)"
      using pop_rep [of pm] pop_empty_rep [of pm] Cons.prems(1) by (cases q) auto
    then show ?thesis
      using Cons.IH [of pm1 "tl q"] Cons.prems(2) EPop by (cases "queue_estimates ops (tl q)") auto
  qed
qed simp

section \<open>The estimates of all pools\<close>

text \<open>\<open>globals_rep g qs\<close>: the queue of estimates of pool \<open>r\<close> is \<open>qs ! r\<close>.\<close>

definition globals_rep :: "ws_globals \<Rightarrow> real list list \<Rightarrow> bool" where
  "globals_rep g qs \<longleftrightarrow> g_num_xstreams g = int (length qs) \<and>
     (\<exists>pms. g_pool_meta g = Some pms \<and> list_all2 meta_rep pms qs)"

lemma on_rank_rep:
  assumes "globals_rep g qs"
  shows "\<exists>pms. g_pool_meta g = Some pms \<and> length pms = length qs \<and> (\<forall>r < length qs. meta_rep (pms ! r) (qs ! r)) \<and>
    (\<forall>rank. on_rank g rank = (if 0 \<le> rank \<and> rank < int (length qs) then Some pms else None))"
  using assms by (auto simp: globals_rep_def on_rank_def list_all2_conv_all_nth)

lemma globals_update:
  assumes "globals_rep g qs" "g_pool_meta g = Some pms" "r < length qs" "meta_rep pm q"
  shows "globals_rep (g\<lparr>g_pool_meta := Some (pms[r := pm])\<rparr>) (qs[r := q])"
  using assms by (auto simp: globals_rep_def intro: list_all2_update_cong)

lemma push_estimate_rep:
  assumes rep: "globals_rep g qs" and est: "0 \<le> est"
  shows "\<exists>g'. ws_push_task_estimate True rank est g = Some g' \<and>
    globals_rep g' (if 0 \<le> rank \<and> rank < int (length qs) then qs[nat rank := qs ! nat rank @ [est]] else qs)"
proof -
  obtain pms where p: "g_pool_meta g = Some pms" "length pms = length qs"
    "\<forall>r < length qs. meta_rep (pms ! r) (qs ! r)"
    "\<forall>rank. on_rank g rank = (if 0 \<le> rank \<and> rank < int (length qs) then Some pms else None)"
    using on_rank_rep [OF rep] by blast
  show ?thesis
  proof (cases "0 \<le> rank \<and> rank < int (length qs)")
    case True
    then have r: "nat rank < length qs"
      by linarith
    obtain pm where pm: "push_estimate True est (pms ! nat rank) = Some pm" "meta_rep pm (qs ! nat rank @ [est])"
      using push_rep [OF _ est] p(3) r by blast
    then show ?thesis
      using p(2,4) r True globals_update [OF rep p(1) r pm(2)] by (simp add: ws_push_task_estimate_def)
  next
    case False
    then have "on_rank g rank = None"
      using p(4) by simp
    then show ?thesis
      using rep False by (simp add: ws_push_task_estimate_def) auto
  qed
qed

lemma pop_estimate_rep:
  assumes rep: "globals_rep g qs" and r: "r < length qs"
  shows "\<exists>g'. ws_pop_task_estimate (int r) g = Some (case qs ! r of [] \<Rightarrow> -1 | e # _ \<Rightarrow> e, g') \<and>
    globals_rep g' (qs[r := tl (qs ! r)])"
proof -
  obtain pms where p: "g_pool_meta g = Some pms" "length pms = length qs" "meta_rep (pms ! r) (qs ! r)"
    "on_rank g (int r) = Some pms"
    using on_rank_rep [OF rep] r by fastforce
  obtain pm where pm: "pop_estimate (pms ! r) = Some (case qs ! r of [] \<Rightarrow> -1 | e # _ \<Rightarrow> e, pm)"
    "meta_rep pm (tl (qs ! r))"
  proof (cases "qs ! r")
    case Nil
    then show ?thesis
      using that [of "pms ! r"] p(3) pop_empty_rep [of "pms ! r"] by simp
  next
    case (Cons e q)
    then show ?thesis
      using that pop_rep [of "pms ! r" e q] p(3) by auto
  qed
  then show ?thesis
    using p r globals_update [OF rep p(1) r pm(2)] by (simp add: ws_pop_task_estimate_def)
qed

lemma load_rep:
  "globals_rep g qs \<Longrightarrow> ws_get_pool_estimated_load rank g
    = Some (if 0 \<le> rank \<and> rank < int (length qs) then sum_list (qs ! nat rank) else 0)"
  using on_rank_rep [of g qs] by (auto simp: ws_get_pool_estimated_load_def meta_rep_def)

section \<open>The victim has the largest load\<close>

definition heaviest :: "(int \<Rightarrow> real) \<Rightarrow> int \<Rightarrow> real \<Rightarrow> int \<Rightarrow> int list \<Rightarrow> int \<Rightarrow> bool" where
  "heaviest load self m v0 is v \<longleftrightarrow>
     (if \<exists>i \<in> set is. i \<noteq> self \<and> load i > m
      then v \<in> set is \<and> v \<noteq> self \<and> load v > m \<and> (\<forall>i \<in> set is. i \<noteq> self \<longrightarrow> load i \<le> load v)
      else v = v0)"

lemma heaviest_meta_spec:
  assumes "0 \<le> m" "\<forall>i \<in> set is. ws_get_pool_estimated_load i g = Some (load i)"
  shows "\<exists>v. heaviest_meta self g m v0 is = Some v \<and> heaviest load self m v0 is v"
  using assms
proof (induction "is" arbitrary: m v0)
  case Nil
  then show ?case
    by (simp add: heaviest_def)
next
  case (Cons i "is")
  have rest: "\<forall>i \<in> set is. ws_get_pool_estimated_load i g = Some (load i)"
    and i: "ws_get_pool_estimated_load i g = Some (load i)"
    using Cons.prems(2) by simp_all
  show ?case
  proof (cases "i \<noteq> self \<and> load i > m")
    case True
    then obtain v where v: "heaviest_meta self g (load i) i is = Some v" "heaviest load self (load i) i is v"
      using Cons.IH [OF _ rest, of "load i" i] Cons.prems(1) by auto
    then have "heaviest load self m v0 (i # is) v"
      using True by (auto simp: heaviest_def split: if_splits)
    then show ?thesis
      using v(1) True Cons.prems(1) i by auto
  next
    case False
    then obtain v where v: "heaviest_meta self g m v0 is = Some v" "heaviest load self m v0 is v"
      using Cons.IH [OF Cons.prems(1) rest] by blast
    then have "heaviest load self m v0 (i # is) v"
      using False by (auto simp: heaviest_def split: if_splits)
    then show ?thesis
      using v(1) False i by auto
  qed
qed

lemma find_heaviest_rep:
  assumes "globals_rep g qs"
  shows "\<exists>v. ws_find_heaviest_pool self (length qs) g = Some v \<and>
    heaviest (\<lambda>i. sum_list (qs ! nat i)) self 0 (-1) (map int [0..<length qs]) v"
proof -
  have "\<forall>i \<in> set (map int [0..<length qs]). ws_get_pool_estimated_load i g = Some (sum_list (qs ! nat i))"
    using load_rep [OF assms] by auto
  moreover have "g_pool_meta g \<noteq> None"
    using assms by (auto simp: globals_rep_def)
  ultimately show ?thesis
    using heaviest_meta_spec [of 0 "map int [0..<length qs]" g "\<lambda>i. sum_list (qs ! nat i)" self "-1"]
    by (simp add: ws_find_heaviest_pool_def)
qed

text \<open>No victim exactly if no other pool has a positive estimate; a victim is another pool.\<close>

lemma victim_cases:
  assumes "globals_rep g qs"
  shows "\<exists>v. ws_find_heaviest_pool (int self) (length qs) g = Some v \<and>
    (v = -1 \<and> (\<forall>r < length qs. r \<noteq> self \<longrightarrow> sum_list (qs ! r) \<le> 0) \<or>
     (\<exists>r < length qs. v = int r \<and> r \<noteq> self \<and> 0 < sum_list (qs ! r) \<and>
        (\<forall>s < length qs. s \<noteq> self \<longrightarrow> sum_list (qs ! s) \<le> sum_list (qs ! r))))"
proof -
  obtain v where v: "ws_find_heaviest_pool (int self) (length qs) g = Some v"
    "heaviest (\<lambda>i. sum_list (qs ! nat i)) (int self) 0 (-1) (map int [0..<length qs]) v"
    using find_heaviest_rep [OF assms] by blast
  show ?thesis
  proof (cases "\<exists>r < length qs. r \<noteq> self \<and> 0 < sum_list (qs ! r)")
    case True
    then have *: "\<exists>i \<in> set (map int [0..<length qs]). i \<noteq> int self \<and> 0 < sum_list (qs ! nat i)"
      by (auto intro!: bexI)
    from v(2) obtain r where "r < length qs" "v = int r" "r \<noteq> self" "0 < sum_list (qs ! r)"
      "\<forall>s < length qs. s \<noteq> self \<longrightarrow> sum_list (qs ! s) \<le> sum_list (qs ! r)"
      unfolding heaviest_def if_P [OF *] by auto
    then show ?thesis
      using v(1) by blast
  next
    case False
    then have *: "\<not> (\<exists>i \<in> set (map int [0..<length qs]). i \<noteq> int self \<and> 0 < sum_list (qs ! nat i))"
      by auto
    have "v = -1"
      using v(2) unfolding heaviest_def if_not_P [OF *] by simp
    moreover have "\<forall>r < length qs. r \<noteq> self \<longrightarrow> sum_list (qs ! r) \<le> 0"
      using False by (meson not_less)
    ultimately show ?thesis
      using v(1) by blast
  qed
qed

text \<open>The history counts one execution per call.\<close>

lemma update_task_time:
  assumes "length (g_loads g) = nat (g_num_xstreams g)"
  shows "\<exists>g'. ws_update_task_time elapsed rank g = Some g' \<and> g_pool_meta g' = g_pool_meta g \<and>
    length (g_loads g') = length (g_loads g) \<and>
    (\<forall>r < length (g_loads g). gl_task_count (g_loads g' ! r)
      = gl_task_count (g_loads g ! r) + (if int r = rank then 1 else 0))"
  using assms by (auto simp: ws_update_task_time_def Let_def nth_list_update)

end
