(* ===== verification/SchedProps.thy ===== *)
theory SchedProps
  imports SchedLoops
begin

text \<open>
  What the loops of theory SchedLoops do over pools that keep their promise. The interface
  \<open>work_pools\<close> is that promise: popping from an empty pool changes nothing, popping from another
  one takes one of its units. It is interpreted on a world of linked FIFO and work-stealing
  pools that share one heap, with the pool functions of the theories PoolFifo and PoolRandws.
\<close>

section \<open>Pools\<close>

locale work_pools =
  fixes E :: "('s, 'e) sched_env_scheme"
    and units :: "nat \<Rightarrow> 's \<Rightarrow> thread_ptr list"
    and ok :: "'s \<Rightarrow> bool"
  assumes pop_empty: "ok s \<Longrightarrow> units p s = [] \<Longrightarrow> se_pop E p ctx s = Some (None, s)"
    and pop_unit: "ok s \<Longrightarrow> units p s \<noteq> [] \<Longrightarrow> \<exists>t s'. se_pop E p ctx s = Some (Some t, s') \<and> ok s' \<and>
      mset (units p s) = add_mset t (mset (units p s')) \<and> (\<forall>q. q \<noteq> p \<longrightarrow> units q s' = units q s)"

context work_pools
begin

lemma scan_none: "ok s \<Longrightarrow> \<forall>p \<in> set ps. units p s = [] \<Longrightarrow> pool_scan E ps s = Some (False, s)"
  by (induction ps) (simp_all add: pop_empty)

lemma scan_skip:
  "ok s \<Longrightarrow> \<forall>p \<in> set as. units p s = [] \<Longrightarrow> pool_scan E (as @ ps) s = pool_scan E ps s"
  by (induction as) (simp_all add: pop_empty)

lemma basic_scan_none:
  "ok s \<Longrightarrow> \<forall>p \<in> set ps. units p s = [] \<Longrightarrow> basic_scan E ps c s = Some (c + of_nat (length ps), s)"
  by (induction ps arbitrary: c) (simp_all add: pop_empty algebra_simps)

lemma basic_scan_skip:
  "ok s \<Longrightarrow> \<forall>p \<in> set as. units p s = [] \<Longrightarrow>
    basic_scan E (as @ ps) c s = basic_scan E ps (c + of_nat (length as)) s"
  by (induction as arbitrary: c) (simp_all add: pop_empty algebra_simps)

text \<open>Some pool has a unit: the first such pool.\<close>

lemma first_busy:
  assumes "\<exists>p \<in> set ps. units p s \<noteq> []"
  obtains as p bs where "ps = as @ p # bs" "\<forall>q \<in> set as. units q s = []" "units p s \<noteq> []"
  using split_list_first_prop [of ps "\<lambda>p. units p s \<noteq> []"] assms by auto

text \<open>The unit that is run comes from the first pool that has one.\<close>

lemma scan_first:
  assumes "ok s" "\<forall>q \<in> set as. units q s = []" "units p s \<noteq> []"
  shows "\<exists>t s1. t \<in> set (units p s) \<and> ok s1 \<and> mset (units p s) = add_mset t (mset (units p s1)) \<and>
    (\<forall>q. q \<noteq> p \<longrightarrow> units q s1 = units q s) \<and>
    pool_scan E (as @ p # bs) s = map_option (\<lambda>s2. (True, s2)) (se_schedule E t s1) \<and>
    basic_scan E (as @ p # bs) c s = map_option (\<lambda>s2. (c + of_nat (length as) + 1, s2)) (se_schedule E t s1)"
proof -
  obtain t s1 where t: "se_pop E p ABT_POOL_CONTEXT_OP_POOL_OTHER s = Some (Some t, s1)" "ok s1"
    "mset (units p s) = add_mset t (mset (units p s1))" "\<forall>q. q \<noteq> p \<longrightarrow> units q s1 = units q s"
    using pop_unit [OF assms(1,3)] by blast
  moreover have "t \<in> set (units p s)"
    using t(3) by (metis set_mset_mset union_single_eq_member)
  ultimately show ?thesis
    using assms by (intro exI [of _ t] exI [of _ s1]) (simp add: scan_skip basic_scan_skip)
qed

end

section \<open>Units that run to completion\<close>

text \<open>
  The units do not create work, and the scheduler has been asked to finish, so it is to stop
  when its pools are empty. \<open>log\<close> records the units run.
\<close>

locale draining_pools = work_pools E units ok
  for E :: "('s, 'e) sched_env_scheme" and units :: "nat \<Rightarrow> 's \<Rightarrow> thread_ptr list" and ok :: "'s \<Rightarrow> bool" +
  fixes log :: "'s \<Rightarrow> thread_ptr list" and ps :: "nat list"
  assumes run_unit: "ok s \<Longrightarrow> \<exists>s'. se_schedule E t s = Some s' \<and> ok s' \<and> log s' = log s @ [t] \<and>
      (\<forall>q. units q s' = units q s)"
    and pop_log: "ok s \<Longrightarrow> se_pop E p ctx s = Some (r, s') \<Longrightarrow> log s' = log s"
    and check_same: "ok s \<Longrightarrow> ok (se_check_events E s) \<and> log (se_check_events E s) = log s \<and>
      units q (se_check_events E s) = units q s"
    and stop_iff: "ok s \<Longrightarrow> se_has_to_stop E s \<longleftrightarrow> (\<forall>p \<in> set ps. units p s = [])"

context draining_pools
begin

definition busy :: "'s \<Rightarrow> bool" where
  "busy s \<longleftrightarrow> (\<exists>p \<in> set ps. units p s \<noteq> [])"

definition work :: "'s \<Rightarrow> nat" where
  "work s = (\<Sum>p \<in> set ps. length (units p s))"

text \<open>Every unit there is: run or still queued.\<close>

definition total :: "'s \<Rightarrow> thread_ptr multiset" where
  "total s = mset (log s) + (\<Sum>p \<in> set ps. mset (units p s))"

lemma work_idle: "\<not> busy s \<Longrightarrow> work s = 0"
  by (simp add: busy_def work_def)

lemma total_idle: "\<not> busy s \<Longrightarrow> total s = mset (log s)"
  by (simp add: busy_def total_def)

lemma move_unit:
  assumes "p \<in> set ps" "mset (units p s) = add_mset t (mset (units p s1))" "\<forall>q. q \<noteq> p \<longrightarrow> units q s1 = units q s"
    and "\<forall>q. units q s2 = units q s1" "log s2 = log s @ [t]"
  shows "work s = Suc (work s2)" "total s2 = total s"
proof -
  have l: "length (units p s) = Suc (length (units p s1))"
    using assms(2) by (metis size_add_mset size_mset)
  have "work s = length (units p s) + (\<Sum>q \<in> set ps - {p}. length (units q s))"
    unfolding work_def using assms(1) by (simp add: sum.remove)
  moreover have "work s2 = length (units p s1) + (\<Sum>q \<in> set ps - {p}. length (units q s))"
    unfolding work_def using assms(1,3,4) by (simp add: sum.remove)
  ultimately show "work s = Suc (work s2)"
    using l by simp
  have "(\<Sum>q \<in> set ps. mset (units q s)) = mset (units p s) + (\<Sum>q \<in> set ps - {p}. mset (units q s))"
    using assms(1) by (simp add: sum.remove)
  moreover have "(\<Sum>q \<in> set ps. mset (units q s2)) = mset (units p s1) + (\<Sum>q \<in> set ps - {p}. mset (units q s))"
    using assms(1,3,4) by (simp add: sum.remove)
  ultimately show "total s2 = total s"
    using assms(2,5) by (simp add: total_def)
qed

lemma check_total: "ok s \<Longrightarrow> total (se_check_events E s) = total s \<and> work (se_check_events E s) = work s"
  using check_same [of s] by (simp add: total_def work_def)

lemma scan_busy:
  assumes "ok s" "busy s"
  shows "\<exists>k s2. k < length ps \<and> pool_scan E ps s = Some (True, s2) \<and> basic_scan E ps c s = Some (c + of_nat k + 1, s2) \<and>
    ok s2 \<and> work s = Suc (work s2) \<and> total s2 = total s"
proof -
  obtain as p bs where p: "ps = as @ p # bs" "\<forall>q \<in> set as. units q s = []" "units p s \<noteq> []"
    using first_busy [of ps s] assms(2) unfolding busy_def by blast
  obtain t s1 where t: "se_pop E p ABT_POOL_CONTEXT_OP_POOL_OTHER s = Some (Some t, s1)" "ok s1"
    "mset (units p s) = add_mset t (mset (units p s1))" "\<forall>q. q \<noteq> p \<longrightarrow> units q s1 = units q s"
    using pop_unit [OF assms(1) p(3)] by blast
  obtain s2 where s2: "se_schedule E t s1 = Some s2" "ok s2" "log s2 = log s1 @ [t]" "\<forall>q. units q s2 = units q s1"
    using run_unit [OF t(2)] by blast
  have "log s2 = log s @ [t]"
    using s2(3) pop_log [OF assms(1) t(1)] by simp
  then have "work s = Suc (work s2)" "total s2 = total s"
    using move_unit [OF _ t(3,4) s2(4)] p(1) by auto
  moreover have "pool_scan E ps s = Some (True, s2)" "basic_scan E ps c s = Some (c + of_nat (length as) + 1, s2)"
    using t(1) s2(1) p assms(1) by (simp_all add: scan_skip basic_scan_skip)
  ultimately show ?thesis
    using s2(2) p(1) by (intro exI [of _ "length as"] exI [of _ s2]) simp
qed

lemma scan_idle:
  assumes "ok s" "\<not> busy s"
  shows "pool_scan E ps s = Some (False, s)" "basic_scan E ps c s = Some (c + of_nat (length ps), s)"
  using scan_none [of s ps] basic_scan_none [of s ps] assms by (simp_all add: busy_def)

text \<open>What the end of an iteration does with a state, and a loop whose iterations make progress.\<close>

definition finished :: "'s \<Rightarrow> 's \<Rightarrow> bool" where
  "finished s s' \<longleftrightarrow> ok s' \<and> (\<forall>p \<in> set ps. units p s' = []) \<and> mset (log s') = total s"

lemma check_stop_cases:
  assumes "ok s"
  shows "\<not> busy s \<Longrightarrow> \<exists>s'. check_stop E s = Stop s' \<and> finished s s'"
    and "busy s \<Longrightarrow> \<exists>s'. check_stop E s = Go 0 s' \<and> ok s' \<and> work s' = work s \<and> total s' = total s"
proof -
  let ?s = "se_check_events E s"
  have c: "ok ?s" "log ?s = log s" "\<forall>q. units q ?s = units q s"
    using check_same [OF assms] by blast+
  show "\<exists>s'. check_stop E s = Stop s' \<and> finished s s'" if "\<not> busy s"
  proof -
    have "se_has_to_stop E ?s"
      using stop_iff [OF c(1)] c(3) that by (simp add: busy_def)
    then show ?thesis
      using c that total_idle [OF that] by (simp add: check_stop_def Let_def finished_def busy_def)
  qed
  show "\<exists>s'. check_stop E s = Go 0 s' \<and> ok s' \<and> work s' = work s \<and> total s' = total s" if "busy s"
  proof -
    have "\<not> se_has_to_stop E ?s"
      using stop_iff [OF c(1)] c(3) that by (simp add: busy_def)
    then show ?thesis
      using c check_total [OF assms] by (simp add: check_stop_def Let_def)
  qed
qed

text \<open>The measure of the loops: units left, then attempts until the next check.\<close>

definition loop_rel :: "32 word \<Rightarrow> ((32 word \<times> 's) \<times> (32 word \<times> 's)) set" where
  "loop_rel freq = measures [\<lambda>(c, s). work s, \<lambda>(c, s). unat freq - unat c]"

lemma loop_finishes:
  assumes iter: "\<And>c s. ok s \<Longrightarrow> c = 0 \<or> c < freq \<Longrightarrow> \<exists>r. iter c s = Some r \<and>
      (case r of Stop s' \<Rightarrow> finished s s'
       | Go c' s' \<Rightarrow> ok s' \<and> (c' = 0 \<or> c' < freq) \<and> total s' = total s \<and> ((c', s'), (c, s)) \<in> loop_rel freq)"
    and "ok s" "c = 0 \<or> c < freq"
  shows "\<exists>s'. sched_loop iter c s = Some s' \<and> finished s s'"
proof -
  have "wf (loop_rel freq)"
    by (simp add: loop_rel_def)
  then show ?thesis
    using assms(2,3)
proof (induction "(c, s)" arbitrary: c s rule: wf_induct_rule)
  case (less c s)
  obtain r where r: "iter c s = Some r" "case r of Stop s' \<Rightarrow> finished s s'
      | Go c' s' \<Rightarrow> ok s' \<and> (c' = 0 \<or> c' < freq) \<and> total s' = total s \<and> ((c', s'), (c, s)) \<in> loop_rel freq"
    using iter [OF less.prems] by blast
  show ?case
  proof (cases r)
    case (Stop s')
    then show ?thesis
      using r by (simp add: sched_loop.simps [of iter c s])
  next
    case (Go c' s')
    then obtain s'' where "sched_loop iter c' s' = Some s''" "finished s' s''"
      using less.hyps [of c' s'] r(2) by auto
    then show ?thesis
      using r Go by (auto simp: sched_loop.simps [of iter c s] finished_def)
  qed
qed
qed

lemma check_stop_progress:
  assumes "ok s" "ok s1" "total s1 = total s" "busy s \<and> work s = Suc (work s1) \<or> \<not> busy s1"
  shows "case check_stop E s1 of Stop s' \<Rightarrow> finished s s'
    | Go c' s' \<Rightarrow> ok s' \<and> (c' = 0 \<or> c' < freq) \<and> total s' = total s \<and> ((c', s'), (c, s)) \<in> loop_rel freq"
proof (cases "busy s1")
  case True
  then show ?thesis
    using check_stop_cases(2) [OF assms(2)] assms by (auto simp: loop_rel_def)
next
  case False
  then show ?thesis
    using check_stop_cases(1) [OF assms(2)] assms(3) by (auto simp: finished_def)
qed

lemma unat_lt: "unat (f :: 32 word) < 2 ^ 32"
  using unsigned_less [of f, where ?'a = nat] by simp

lemma word_suc_less:
  fixes c f :: "32 word"
  assumes "\<not> f \<le> c + 1" "c = 0 \<or> c < f"
  shows "unat f - unat (c + 1) < unat f - unat c"
proof -
  have "unat c + 1 < 2 ^ 32"
    using assms(2) unat_lt [of f] by (auto simp: word_less_nat_alt)
  then have "unat (c + 1) = unat c + 1"
    by (simp add: unat_word_ariths)
  moreover have "unat (c + 1) < unat f"
    using assms(1) by (simp add: word_le_nat_alt)
  ultimately show ?thesis
    by simp
qed

lemma prio_iter_progress:
  assumes "ok s" "c = 0 \<or> c < freq"
  shows "\<exists>r. prio_iter E freq ps c s = Some r \<and>
      (case r of Stop s' \<Rightarrow> finished s s'
       | Go c' s' \<Rightarrow> ok s' \<and> (c' = 0 \<or> c' < freq) \<and> total s' = total s \<and> ((c', s'), (c, s)) \<in> loop_rel freq)"
proof -
  obtain b s1 where s1: "pool_scan E ps s = Some (b, s1)" "ok s1" "total s1 = total s"
    "busy s \<and> work s = Suc (work s1) \<or> \<not> busy s1 \<and> s1 = s"
    using scan_busy [OF assms(1), of 0] scan_idle(1) [OF assms(1)] assms(1) by (cases "busy s") blast+
  show ?thesis
  proof (cases "freq \<le> c + 1")
    case True
    then show ?thesis
      using s1 check_stop_progress [OF assms(1) s1(2,3), of freq c] by (auto simp: prio_iter_def)
  next
    case False
    then have "((c + 1, s1), (c, s)) \<in> loop_rel freq"
      using s1(4) word_suc_less [OF False assms(2)] by (auto simp: loop_rel_def)
    moreover have "prio_iter E freq ps c s = Some (Go (c + 1) s1)" "c + 1 < freq"
      using s1(1) False by (simp add: prio_iter_def) (use False in simp)
    ultimately show ?thesis
      using s1 by simp
  qed
qed

lemma prio_drains:
  assumes "ok s" "sd_pools d = ps" "sd_num_pools d = length ps" "ps \<noteq> []"
  shows "\<exists>s'. prio_sched_run E d s = Some s' \<and> finished s s'"
  using loop_finishes [of "sd_event_freq d" "prio_iter E (sd_event_freq d) ps" s 0] prio_iter_progress assms
  by (simp add: prio_sched_run_def)

text \<open>The counter of the basic scheduler grows by up to the number of pools; it must not wrap.\<close>

lemma basic_iter_progress:
  assumes "ok s" "c = 0 \<or> c < freq" "unat freq + length ps < 2 ^ 32" "ps \<noteq> []"
  shows "\<exists>r. basic_iter E freq ps c s = Some r \<and>
      (case r of Stop s' \<Rightarrow> finished s s'
       | Go c' s' \<Rightarrow> ok s' \<and> (c' = 0 \<or> c' < freq) \<and> total s' = total s \<and> ((c', s'), (c, s)) \<in> loop_rel freq)"
proof -
  obtain k s1 where s1: "basic_scan E ps c s = Some (c + of_nat k, s1)" "0 < k" "k \<le> length ps" "ok s1"
    "total s1 = total s" "busy s \<and> work s = Suc (work s1) \<or> \<not> busy s1 \<and> s1 = s"
  proof (cases "busy s")
    case True
    then obtain k s2 where "k < length ps" "basic_scan E ps c s = Some (c + of_nat k + 1, s2)" "ok s2"
      "work s = Suc (work s2)" "total s2 = total s"
      using scan_busy [OF assms(1)] by blast
    then show ?thesis
      using that [of "Suc k" s2] True by (simp add: algebra_simps)
  next
    case False
    then show ?thesis
      using that [of "length ps" s] scan_idle(2) [OF assms(1) False] assms(1,4) by simp
  qed
  show ?thesis
  proof (cases "freq \<le> c + of_nat k")
    case True
    then show ?thesis
      using s1 check_stop_progress [OF assms(1) s1(4,5), of freq c] by (auto simp: basic_iter_def)
  next
    case False
    have "unat c + k < 2 ^ 32"
      using assms(2,3) s1(3) by (auto simp: word_less_nat_alt)
    then have u: "unat (c + of_nat k) = unat c + k"
      by (simp add: unat_word_ariths unat_of_nat)
    have "unat (c + of_nat k) < unat freq"
      using False by (simp add: word_le_nat_alt)
    then have "((c + of_nat k, s1), (c, s)) \<in> loop_rel freq"
      using s1(2,6) u by (auto simp: loop_rel_def)
    moreover have "basic_iter E freq ps c s = Some (Go (c + of_nat k) s1)" "c + of_nat k < freq"
      using s1(1) False by (simp add: basic_iter_def) (use False in simp)
    ultimately show ?thesis
      using s1 by simp
  qed
qed

lemma basic_drains:
  assumes "ok s" "sd_pools d = ps" "sd_num_pools d = length ps" "ps \<noteq> []"
    and "unat (sd_event_freq d) + length ps < 2 ^ 32"
  shows "\<exists>s'. basic_sched_run E d s = Some s' \<and> finished s s'"
  using loop_finishes [of "sd_event_freq d" "basic_iter E (sd_event_freq d) ps" s 0]
    basic_iter_progress [OF _ _ assms(5,4)] assms
  by (simp add: basic_sched_run_def)

end

section \<open>Linked pools\<close>

text \<open>
  A world of built-in pools over one heap; the flag of a pool tells whether it is a
  work-stealing pool. Popping dispatches to the pool functions of the code.
\<close>

record sched_world =
  sw_heap :: thread_heap
  sw_pools :: "nat \<Rightarrow> bool \<times> pool_data"
  sw_log :: "thread_ptr list"
  sw_pool_of :: "thread_ptr \<Rightarrow> nat option"

definition ABTI_pool_pop ::
    "nat \<Rightarrow> ABT_pool_context \<Rightarrow> sched_world \<Rightarrow> (thread_ptr option \<times> sched_world) option" where
  "ABTI_pool_pop p ctx w =
     (case sw_pools w p of
        (is_ws, d) \<Rightarrow> do {
          (t, h', d') \<leftarrow> (if is_ws then randws_pool_pop_shared ctx d (sw_heap w)
                          else fifo_pool_pop_shared d (sw_heap w));
          Some (t, w\<lparr>sw_heap := h', sw_pools := (sw_pools w)(p := (is_ws, d'))\<rparr>)
        })"

definition pool_units :: "nat \<Rightarrow> sched_world \<Rightarrow> thread_ptr list" where
  "pool_units p w = (case thread_queue_print_all (pd_queue (snd (sw_pools w p))) (sw_heap w) of
     Some xs \<Rightarrow> xs | None \<Rightarrow> [])"

definition world_ok :: "sched_world \<Rightarrow> bool" where
  "world_ok w \<longleftrightarrow> (\<forall>p. pool_rep (sw_heap w) (snd (sw_pools w p)) (pool_units p w)) \<and>
     (\<forall>p q. p \<noteq> q \<longrightarrow> set (pool_units p w) \<inter> set (pool_units q w) = {})"

text \<open>Units that just run, and a scheduler that was told to finish.\<close>

definition builtin_env :: "nat list \<Rightarrow> sched_world sched_env" where
  "builtin_env ps = \<lparr>se_pop = ABTI_pool_pop, se_schedule = (\<lambda>t w. Some (w\<lparr>sw_log := sw_log w @ [t]\<rparr>)),
     se_check_events = (\<lambda>w. w),
     se_has_to_stop = (\<lambda>w. list_all (\<lambda>p. thread_queue_is_empty (pd_queue (snd (sw_pools w p)))) ps)\<rparr>"

lemma rep_units: "pool_rep (sw_heap w) (snd (sw_pools w p)) xs \<Longrightarrow> pool_units p w = xs"
  using print_all_rep [of "sw_heap w" "pd_queue (snd (sw_pools w p))" xs]
  by (simp add: pool_units_def pool_rep_def)

lemma pool_rep_frame:
  "pool_rep h d ys \<Longrightarrow> heap_eq_outside A h h' \<Longrightarrow> A \<inter> set ys = {} \<Longrightarrow> pool_rep h' d ys"
  using tq_rep_frame [of h "pd_queue d" ys A h'] by (simp add: pool_rep_def)

lemma pool_units_log [simp]: "pool_units p (w\<lparr>sw_log := l\<rparr>) = pool_units p w"
  by (simp add: pool_units_def)

lemma world_ok_log [simp]: "world_ok (w\<lparr>sw_log := l\<rparr>) = world_ok w"
  by (simp add: world_ok_def)

lemma pop_dispatch:
  assumes "pool_rep (sw_heap w) (snd (sw_pools w p)) xs"
  shows "xs = [] \<Longrightarrow> ABTI_pool_pop p ctx w = Some (None, w)"
    and "xs \<noteq> [] \<Longrightarrow> \<exists>t ys h' d'. ABTI_pool_pop p ctx w
        = Some (Some t, w\<lparr>sw_heap := h', sw_pools := (sw_pools w)(p := (fst (sw_pools w p), d'))\<rparr>) \<and>
      pool_rep h' d' ys \<and> mset xs = add_mset t (mset ys) \<and> heap_eq_outside (set xs) (sw_heap w) h'"
proof -
  obtain is_ws d where d: "sw_pools w p = (is_ws, d)"
    by (cases "sw_pools w p")
  have rep: "pool_rep (sw_heap w) d xs"
    using assms d by simp
  show "ABTI_pool_pop p ctx w = Some (None, w)" if "xs = []"
  proof -
    have "(sw_pools w)(p := (is_ws, d)) = sw_pools w"
      using d by (auto simp: fun_eq_iff)
    then have "w\<lparr>sw_pools := (sw_pools w)(p := (is_ws, d))\<rparr> = w"
      by (cases w) simp
    then show ?thesis
      using rep that d
      by (cases is_ws)
         (simp_all add: ABTI_pool_pop_def randws_pool_pop_shared_def fifo_pool_pop_shared_def acquire_if_not_empty_rep)
  qed
  show "\<exists>t ys h' d'. ABTI_pool_pop p ctx w
        = Some (Some t, w\<lparr>sw_heap := h', sw_pools := (sw_pools w)(p := (fst (sw_pools w p), d'))\<rparr>) \<and>
      pool_rep h' d' ys \<and> mset xs = add_mset t (mset ys) \<and> heap_eq_outside (set xs) (sw_heap w) h'" if ne: "xs \<noteq> []"
  proof (cases is_ws)
    case True
    obtain t ys where t: "rws_take ctx xs = Some (t, ys)"
      using ne rws_take_none [of ctx xs] by (cases "rws_take ctx xs") auto
    have "mset xs = add_mset t (mset ys)"
      using rws.take1_perm [OF t] .
    moreover obtain h' d' where "randws_pool_pop_shared ctx d (sw_heap w) = Some (Some t, h', d')"
      "pool_rep h' d' ys" "heap_eq_outside (set xs) (sw_heap w) h'"
      using randws_pop_shared_rep [OF rep, of ctx] t by auto
    ultimately show ?thesis
      using d True by (intro exI [of _ t] exI [of _ ys] exI [of _ h'] exI [of _ d']) (simp add: ABTI_pool_pop_def)
  next
    case False
    obtain t ys where "xs = t # ys"
      using ne by (cases xs) simp_all
    moreover obtain h' d' where "fifo_pool_pop_shared d (sw_heap w) = Some (map_option fst (take_front xs), h', d')"
      "pool_rep h' d' (tl xs)" "heap_eq_outside (set xs) (sw_heap w) h'"
      using fifo_pop_shared_rep [OF rep] by blast
    ultimately show ?thesis
      using d False
      by (intro exI [of _ t] exI [of _ ys] exI [of _ h'] exI [of _ d']) (simp add: ABTI_pool_pop_def take_front_def)
  qed
qed

lemma world_pop_empty:
  assumes "world_ok w" "pool_units p w = []"
  shows "ABTI_pool_pop p ctx w = Some (None, w)"
proof -
  have "pool_rep (sw_heap w) (snd (sw_pools w p)) []"
    using assms unfolding world_ok_def by metis
  then show ?thesis
    by (rule pop_dispatch(1)) (rule refl)
qed

lemma world_pop:
  assumes ok: "world_ok w" and ne: "pool_units p w \<noteq> []"
  shows "\<exists>t w'. ABTI_pool_pop p ctx w = Some (Some t, w') \<and> world_ok w' \<and>
    mset (pool_units p w) = add_mset t (mset (pool_units p w')) \<and> (\<forall>q. q \<noteq> p \<longrightarrow> pool_units q w' = pool_units q w)"
proof -
  have rep: "\<And>q. pool_rep (sw_heap w) (snd (sw_pools w q)) (pool_units q w)"
    and disj: "\<And>q r. q \<noteq> r \<Longrightarrow> set (pool_units q w) \<inter> set (pool_units r w) = {}"
    using ok by (simp_all add: world_ok_def)
  obtain t ys h' d' where t: "ABTI_pool_pop p ctx w
      = Some (Some t, w\<lparr>sw_heap := h', sw_pools := (sw_pools w)(p := (fst (sw_pools w p), d'))\<rparr>)"
    "pool_rep h' d' ys" "mset (pool_units p w) = add_mset t (mset ys)"
    "heap_eq_outside (set (pool_units p w)) (sw_heap w) h'"
    using pop_dispatch(2) [OF rep ne] by blast
  let ?w = "w\<lparr>sw_heap := h', sw_pools := (sw_pools w)(p := (fst (sw_pools w p), d'))\<rparr>"
  have p: "pool_units p ?w = ys"
    by (rule rep_units) (simp add: t(2))
  have q: "pool_rep h' (snd (sw_pools w q)) (pool_units q w)" if "q \<noteq> p" for q
    using pool_rep_frame [OF rep t(4)] disj [of p q] that by blast
  then have q': "pool_units q ?w = pool_units q w" if "q \<noteq> p" for q
    using that by (intro rep_units) simp
  have sub: "set ys \<subseteq> set (pool_units p w)"
    using t(3) by (metis set_mset_add_mset_insert set_mset_mset subset_insertI)
  have "world_ok ?w"
    unfolding world_ok_def
  proof (intro conjI allI impI)
    fix q
    show "pool_rep (sw_heap ?w) (snd (sw_pools ?w q)) (pool_units q ?w)"
      using p q q' t(2) by (cases "q = p") simp_all
  next
    fix q r :: nat
    assume "q \<noteq> r"
    then show "set (pool_units q ?w) \<inter> set (pool_units r ?w) = {}"
      using disj [of q r] p q' sub by (cases "q = p"; cases "r = p") auto
  qed
  then show ?thesis
    using t(1,3) p q' by blast
qed

interpretation world: draining_pools "builtin_env ps" pool_units world_ok sw_log ps for ps
proof unfold_locales
  fix s p ctx
  show "world_ok s \<Longrightarrow> pool_units p s = [] \<Longrightarrow> se_pop (builtin_env ps) p ctx s = Some (None, s)"
    using world_pop_empty by (simp add: builtin_env_def)
  show "world_ok s \<Longrightarrow> pool_units p s \<noteq> [] \<Longrightarrow> \<exists>t s'. se_pop (builtin_env ps) p ctx s = Some (Some t, s') \<and>
      world_ok s' \<and> mset (pool_units p s) = add_mset t (mset (pool_units p s')) \<and>
      (\<forall>q. q \<noteq> p \<longrightarrow> pool_units q s' = pool_units q s)"
    using world_pop [of s p ctx] by (simp add: builtin_env_def)
  show "world_ok s \<Longrightarrow> \<exists>s'. se_schedule (builtin_env ps) t s = Some s' \<and> world_ok s' \<and>
      sw_log s' = sw_log s @ [t] \<and> (\<forall>q. pool_units q s' = pool_units q s)" for t
    by (simp add: builtin_env_def)
  show "se_pop (builtin_env ps) p ctx s = Some (r, s') \<Longrightarrow> sw_log s' = sw_log s" for r s'
    by (auto simp: builtin_env_def ABTI_pool_pop_def bind_eq_Some_conv split: prod.splits)
  show "world_ok s \<Longrightarrow> world_ok (se_check_events (builtin_env ps) s) \<and>
      sw_log (se_check_events (builtin_env ps) s) = sw_log s \<and>
      pool_units q (se_check_events (builtin_env ps) s) = pool_units q s" for q
    by (simp add: builtin_env_def)
  show "world_ok s \<Longrightarrow> se_has_to_stop (builtin_env ps) s = (\<forall>p \<in> set ps. pool_units p s = [])"
    by (simp add: builtin_env_def list_all_iff world_ok_def pool_rep_def tq_rep_def thread_queue_is_empty_def)
qed

section \<open>The other two schedulers\<close>

text \<open>A thief never picks its own pool and stays within the array.\<close>

lemma steal_target_bounds:
  assumes "1 < n"
  shows "1 \<le> steal_target n r \<and> steal_target n r < n"
proof -
  have "r mod (n - 1) < n - 1"
    using assms by simp
  then have "r mod (n - 1) + 1 < n"
    by linarith
  then show ?thesis
    using assms by (simp add: steal_target_def)
qed

lemma steal_target_covers:
  "1 < n \<Longrightarrow> 1 \<le> k \<Longrightarrow> k < n \<Longrightarrow> \<exists>r. steal_target n r = k"
  by (rule exI [of _ "k - 1"]) (auto simp: steal_target_def)

text \<open>The work-stealing scheduler looks elsewhere only if its own pool is empty.\<close>

context work_pools
begin

lemma randws_own:
  assumes "ok s" "units (pools ! 0) s \<noteq> []"
  shows "\<exists>t s1. se_pop E (pools ! 0) ABT_POOL_CONTEXT_OWNER_PRIMARY s = Some (Some t, s1) \<and>
    t \<in> set (units (pools ! 0) s)"
  using pop_unit [OF assms, of ABT_POOL_CONTEXT_OWNER_PRIMARY]
  by (metis set_mset_mset union_single_eq_member)

end

section \<open>Checking for events\<close>

text \<open>
  Every iteration either asks for events and starts to count again or counts one up and stays
  below the frequency.
\<close>

lemma prio_counts:
  assumes "prio_iter E freq ps c s = Some (Go c' s')"
  shows "c' = 0 \<or> c' = c + 1 \<and> c' < freq"
  using assms by (auto simp: prio_iter_def check_stop_def Let_def bind_eq_Some_conv not_le split: if_splits)

lemma randws_counts:
  assumes "randws_iter E freq ps c s = Some (Go c' s')"
  shows "c' = 0 \<or> c' = c + 1 \<and> c' < freq"
  using assms by (auto simp: randws_iter_def check_stop_def Let_def bind_eq_Some_conv not_le split: if_splits)

inductive quiet_rounds :: "(32 word \<Rightarrow> 's \<Rightarrow> 's round option) \<Rightarrow> nat \<Rightarrow> 32 word \<Rightarrow> 's \<Rightarrow> 32 word \<Rightarrow> 's \<Rightarrow> bool"
  for iter where
  start: "quiet_rounds iter 0 c s c s"
| step: "quiet_rounds iter k c s c1 s1 \<Longrightarrow> iter c1 s1 = Some (Go c2 s2) \<Longrightarrow> c2 \<noteq> 0 \<Longrightarrow>
    quiet_rounds iter (Suc k) c s c2 s2"

lemma quiet_bound:
  assumes iter: "\<And>c s c' s'. iter c s = Some (Go c' s') \<Longrightarrow> c' = 0 \<or> c' = c + 1 \<and> c' < freq"
    and "quiet_rounds iter k c s c' s'"
  shows "unat c' = unat c + k \<and> (k \<noteq> 0 \<longrightarrow> c' < freq)"
  using assms(2)
proof induction
  case (step k c s c1 s1 c2 s2)
  have c2: "c2 = c1 + 1" "c2 < freq"
    using iter [OF step.hyps(2)] step.hyps(3) by auto
  then have "unat c2 = unat c1 + 1"
    using step.hyps(3) by (simp add: unatSuc add.commute)
  then show ?case
    using step.IH c2(2) by simp
qed simp

section \<open>Ordering the pools\<close>

text \<open>What the C standard says of \<^verbatim>\<open>qsort\<close>: the order of equal elements is unspecified.\<close>

definition qsort_spec :: "((nat \<Rightarrow> nat \<Rightarrow> int) \<Rightarrow> nat list \<Rightarrow> nat list) \<Rightarrow> bool" where
  "qsort_spec qsort \<longleftrightarrow> (\<forall>cmp xs. mset (qsort cmp xs) = mset xs \<and>
     ((\<forall>a \<in> set xs. \<forall>b \<in> set xs. cmp a b \<le> 0 \<or> cmp b a \<le> 0) \<longrightarrow>
      (\<forall>a \<in> set xs. \<forall>b \<in> set xs. \<forall>c \<in> set xs. cmp a b \<le> 0 \<longrightarrow> cmp b c \<le> 0 \<longrightarrow> cmp a c \<le> 0) \<longrightarrow>
      sorted_wrt (\<lambda>a b. cmp a b \<le> 0) (qsort cmp xs)))"

lemma cmp_pools_le:
  assumes "pool_get_access_num a \<noteq> None" "pool_get_access_num b \<noteq> None"
  shows "the (sched_cmp_pools a b) \<le> 0 \<longleftrightarrow> the (pool_get_access_num a) \<le> the (pool_get_access_num b)"
  using assms by (auto simp: sched_cmp_pools_def split: if_splits)

lemma sort_pools_sorted:
  assumes "qsort_spec qsort" "sched_sort_pools qsort access pools = Some ps"
  shows "mset ps = mset pools \<and>
    sorted_wrt (\<lambda>p q. the (pool_get_access_num (access p)) \<le> the (pool_get_access_num (access q))) ps"
proof -
  define f where "f p = the (pool_get_access_num (access p))" for p
  define cmp where "cmp = (\<lambda>p q. the (sched_cmp_pools (access p) (access q)))"
  have known: "\<forall>p \<in> set pools. pool_get_access_num (access p) \<noteq> None" and s: "ps = qsort cmp pools"
    using assms(2) by (auto simp: sched_sort_pools_def list_all_iff cmp_def split: if_splits)
  have le: "cmp p q \<le> 0 \<longleftrightarrow> f p \<le> f q" if "p \<in> set pools" "q \<in> set pools" for p q
    unfolding cmp_def f_def using cmp_pools_le [of "access p" "access q"] known that by simp
  note spec = assms(1) [unfolded qsort_spec_def, THEN spec, THEN spec, of cmp pools]
  have perm: "mset ps = mset pools"
    unfolding s by (rule conjunct1 [OF spec])
  then have set: "set ps = set pools"
    by (rule mset_eq_setD)
  have "sorted_wrt (\<lambda>p q. cmp p q \<le> 0) ps"
    unfolding s
  proof (rule conjunct2 [OF spec, THEN mp, THEN mp])
    show "\<forall>a \<in> set pools. \<forall>b \<in> set pools. cmp a b \<le> 0 \<or> cmp b a \<le> 0"
      using le by (intro ballI) (simp add: linear)
    show "\<forall>a \<in> set pools. \<forall>b \<in> set pools. \<forall>c \<in> set pools. cmp a b \<le> 0 \<longrightarrow> cmp b c \<le> 0 \<longrightarrow> cmp a c \<le> 0"
      using le by (intro ballI impI) (simp add: order_trans)
  qed
  then have "sorted_wrt (\<lambda>p q. f p \<le> f q) ps"
    by (rule sorted_wrt_mono_rel [rotated]) (simp add: le set)
  then show ?thesis
    using perm unfolding f_def by simp
qed

text \<open>Insertion sort is such a \<^verbatim>\<open>qsort\<close>.\<close>

fun insert_by :: "(nat \<Rightarrow> nat \<Rightarrow> int) \<Rightarrow> nat \<Rightarrow> nat list \<Rightarrow> nat list" where
  "insert_by cmp x [] = [x]"
| "insert_by cmp x (y # ys) = (if cmp x y \<le> 0 then x # y # ys else y # insert_by cmp x ys)"

definition insertion_sort :: "(nat \<Rightarrow> nat \<Rightarrow> int) \<Rightarrow> nat list \<Rightarrow> nat list" where
  "insertion_sort cmp xs = foldr (insert_by cmp) xs []"

lemma insert_by_mset [simp]: "mset (insert_by cmp x ys) = add_mset x (mset ys)"
  by (induction ys) auto

lemma insert_by_set [simp]: "set (insert_by cmp x ys) = insert x (set ys)"
  using mset_eq_setD [of "insert_by cmp x ys" "x # ys"] by simp

lemma insert_by_sorted:
  assumes "sorted_wrt (\<lambda>a b. cmp a b \<le> 0) ys" "\<forall>a \<in> A. \<forall>b \<in> A. cmp a b \<le> 0 \<or> cmp b a \<le> 0"
    "\<forall>a \<in> A. \<forall>b \<in> A. \<forall>c \<in> A. cmp a b \<le> 0 \<longrightarrow> cmp b c \<le> 0 \<longrightarrow> cmp a c \<le> 0" "insert x (set ys) \<subseteq> A"
  shows "sorted_wrt (\<lambda>a b. cmp a b \<le> 0) (insert_by cmp x ys)"
  using assms(1,4)
proof (induction ys)
  case (Cons y ys)
  have y: "\<forall>z \<in> set ys. cmp y z \<le> 0" "x \<in> A" "y \<in> A" "set ys \<subseteq> A"
    using Cons.prems by auto
  show ?case
  proof (cases "cmp x y \<le> 0")
    case True
    then have "\<forall>z \<in> set ys. cmp x z \<le> 0"
      using y assms(3) by blast
    then show ?thesis
      using True Cons.prems by simp
  next
    case False
    then have "cmp y x \<le> 0"
      using assms(2) y by blast
    then show ?thesis
      using False Cons y by simp
  qed
qed simp

lemma foldr_insert_by:
  assumes "\<forall>a \<in> A. \<forall>b \<in> A. cmp a b \<le> 0 \<or> cmp b a \<le> 0"
    "\<forall>a \<in> A. \<forall>b \<in> A. \<forall>c \<in> A. cmp a b \<le> 0 \<longrightarrow> cmp b c \<le> 0 \<longrightarrow> cmp a c \<le> 0"
  shows "set xs \<subseteq> A \<Longrightarrow> sorted_wrt (\<lambda>a b. cmp a b \<le> 0) (foldr (insert_by cmp) xs []) \<and>
    set (foldr (insert_by cmp) xs []) = set xs"
  by (induction xs) (use insert_by_sorted [OF _ assms] in auto)

lemma insertion_sort_spec: "qsort_spec insertion_sort"
  unfolding qsort_spec_def
proof (intro allI conjI impI)
  fix cmp :: "nat \<Rightarrow> nat \<Rightarrow> int" and xs
  show "mset (insertion_sort cmp xs) = mset xs"
    unfolding insertion_sort_def by (induction xs) auto
next
  fix cmp :: "nat \<Rightarrow> nat \<Rightarrow> int" and xs
  assume "\<forall>a \<in> set xs. \<forall>b \<in> set xs. cmp a b \<le> 0 \<or> cmp b a \<le> 0"
    "\<forall>a \<in> set xs. \<forall>b \<in> set xs. \<forall>c \<in> set xs. cmp a b \<le> 0 \<longrightarrow> cmp b c \<le> 0 \<longrightarrow> cmp a c \<le> 0"
  then show "sorted_wrt (\<lambda>a b. cmp a b \<le> 0) (insertion_sort cmp xs)"
    using foldr_insert_by [of "set xs" cmp xs] unfolding insertion_sort_def by blast
qed

end
