(* ===== verification/WorkSteal.thy ===== *)
theory WorkSteal
  imports SchedRefs SchedProps
begin

text \<open>
  The work-stealing scheduler of the examples
  (\<^verbatim>\<open>argobots_framework/examples/workstealing_scheduler/abt_workstealing_scheduler.c\<close>): a
  user-defined scheduler that takes from its own pool first and steals from the others in order
  when that is empty. It is written against the public API, so the environment also has
  \<^verbatim>\<open>ABTI_thread_set_associated_pool\<close>, and its result: a unit whose pool cannot be changed is not run.
\<close>

section \<open>The scheduler\<close>

record 's ws_env = "'s sched_env" +
  se_set_pool :: "thread_ptr \<Rightarrow> nat \<Rightarrow> 's \<Rightarrow> (abt_errno \<times> 's) option"

text \<open>\<^verbatim>\<open>ABT_pool_pop_thread\<close> and \<^verbatim>\<open>ABT_self_schedule\<close>, called by a scheduler, so on a ULT.\<close>

definition ABT_pool_pop_thread ::
    "('s, 'e) sched_env_scheme \<Rightarrow> nat option \<Rightarrow> 's \<Rightarrow> (abt_errno \<times> thread_ptr option \<times> 's) option" where
  "ABT_pool_pop_thread E pool s =
     (case pool of
        None \<Rightarrow> Some (ABT_ERR_INV_POOL, None, s)
      | Some p \<Rightarrow> map_option (\<lambda>(t, s'). (ABT_SUCCESS, t, s')) (se_pop E p ABT_POOL_CONTEXT_OP_POOL_OTHER s))"

definition self_schedule_unit ::
    "('s, 'e) ws_env_scheme \<Rightarrow> thread_ptr option \<Rightarrow> nat option \<Rightarrow> 's \<Rightarrow> (abt_errno \<times> 's) option" where
  "self_schedule_unit E thread pool s =
     (case thread of
        None \<Rightarrow> Some (ABT_ERR_INV_THREAD, s)
      | Some t \<Rightarrow> do {
          (err, s1) \<leftarrow> (case pool of None \<Rightarrow> Some (ABT_SUCCESS, s) | Some p \<Rightarrow> se_set_pool E t p s);
          (if err \<noteq> ABT_SUCCESS then Some (err, s1)
           else map_option (\<lambda>s2. (ABT_SUCCESS, s2)) (se_schedule E t s1))
        })"

text \<open>The data of the scheduler: \<^verbatim>\<open>calloc\<close> leaves 0, the configuration overrides it.\<close>

definition ws_sched_init :: "config option \<Rightarrow> (abt_errno \<times> 32 word option) option" where
  "ws_sched_init config = do {
     (err, vs) \<leftarrow> ABT_sched_config_read config [Some (V_int 0)];
     (case vs of [Some (V_int n)] \<Rightarrow> Some (ABT_SUCCESS, Some (word_of_int n)) | _ \<Rightarrow> None)
   }"

fun ws_steal :: "('s, 'e) ws_env_scheme \<Rightarrow> nat list \<Rightarrow> 's \<Rightarrow> 's option" where
  "ws_steal E [] s = Some s"
| "ws_steal E (p # ps) s = do {
     (_, t, s1) \<leftarrow> ABT_pool_pop_thread E (Some p) s;
     (case t of
        Some t \<Rightarrow> map_option snd (self_schedule_unit E (Some t) (Some p) s1)
      | None \<Rightarrow> ws_steal E ps s1)
   }"

text \<open>The stop condition is asked before the events are checked, unlike in the other schedulers.\<close>

definition ws_iter ::
    "('s, 'e) ws_env_scheme \<Rightarrow> 32 word \<Rightarrow> nat list \<Rightarrow> 32 word \<Rightarrow> 's \<Rightarrow> 's round option" where
  "ws_iter E event_freq pools work_count s =
     (case pools of
        [] \<Rightarrow> None
      | own # others \<Rightarrow> do {
          (_, t, s1) \<leftarrow> ABT_pool_pop_thread E (Some own) s;
          s2 \<leftarrow> (case t of
             None \<Rightarrow> ws_steal E others s1
           | Some t \<Rightarrow> map_option snd (self_schedule_unit E (Some t) None s1));
          Some (if event_freq \<le> work_count + 1
                then (if se_has_to_stop E s2 then Stop s2 else Go 0 (se_check_events E s2))
                else Go (work_count + 1) s2)
        })"

definition ws_sched_run :: "('s, 'e) ws_env_scheme \<Rightarrow> 32 word \<Rightarrow> nat list \<Rightarrow> 's \<Rightarrow> 's option" where
  "ws_sched_run E event_freq pools s = sched_loop (ws_iter E event_freq pools) 0 s"

section \<open>Creating the schedulers\<close>

definition ws_sched_pools :: "nat \<Rightarrow> nat option list \<Rightarrow> nat \<Rightarrow> nat option list" where
  "ws_sched_pools num pools i = map (\<lambda>k. pools ! ((i + k) mod num)) [0..<num]"

definition ws_sched_def :: "config option \<Rightarrow> (32 word) sched_def" where
  "ws_sched_def config = \<lparr>def_kind = 0, def_init = Some (\<lambda>_. ws_sched_init config), def_get_migr_pool = None\<rparr>"

text \<open>
  \<open>m i\<close> tells whether the two allocations of the \<open>i\<close>-th creation succeed. The result codes are
  ignored; a scheduler that was not created is NULL.
\<close>

fun ws_create_loop ::
    "(nat \<Rightarrow> bool \<times> bool) \<Rightarrow> (nat \<Rightarrow> nat \<Rightarrow> nat option) \<Rightarrow> 'd sched_def \<Rightarrow> config option \<Rightarrow> nat \<Rightarrow> nat option list
     \<Rightarrow> nat list \<Rightarrow> pool_table \<Rightarrow> ('d sched option list \<times> pool_table) option" where
  "ws_create_loop m alloc sd config num pools [] T = Some ([], T)"
| "ws_create_loop m alloc sd config num pools (i # is) T = do {
     (_, s, T1) \<leftarrow> ABT_sched_create (fst (m i)) (snd (m i)) (alloc i) sd (int num)
       (ws_sched_pools num pools i) config T;
     (ss, T2) \<leftarrow> ws_create_loop m alloc sd config num pools is T1;
     Some (s # ss, T2)
   }"

definition ABT_create_ws_scheds ::
    "bool \<Rightarrow> bool \<Rightarrow> bool \<Rightarrow> (nat \<Rightarrow> bool \<times> bool) \<Rightarrow> (nat \<Rightarrow> nat \<Rightarrow> nat option) \<Rightarrow> nat \<Rightarrow> nat option list \<Rightarrow> pool_table
     \<Rightarrow> ((32 word) sched option list \<times> pool_table) option" where
  "ABT_create_ws_scheds calloc_ok table_mem set_ok m alloc num pools T = do {
     (_, config) \<leftarrow> ABT_sched_config_create calloc_ok table_mem
       [(set_ok, 0, CONFIG_INT, V_int 10), (True, ABT_sched_config_var_end, CONFIG_INT, V_int 0)];
     ws_create_loop m alloc (ws_sched_def config) config num pools [0..<num] T
   }"

section \<open>Every scheduler sees all the pools, its own first\<close>

lemma mset_rotate: "mset (rotate n xs) = mset xs"
  by (metis append_take_drop_id mset_append rotate_drop_take union_commute)

lemma ws_pools_rotate:
  assumes "length pools = num" "i < num"
  shows "ws_sched_pools num pools i = rotate i pools"
  unfolding ws_sched_pools_def
proof (rule nth_equalityI)
  fix k
  assume "k < length (map (\<lambda>k. pools ! ((i + k) mod num)) [0..<num])"
  then have "k < num"
    by simp
  then show "map (\<lambda>k. pools ! ((i + k) mod num)) [0..<num] ! k = rotate i pools ! k"
    using assms by (simp add: nth_rotate add.commute)
qed (use assms in simp)

lemma ws_pools_own:
  assumes "length pools = num" "i < num"
  shows "hd (ws_sched_pools num pools i) = pools ! i" "mset (ws_sched_pools num pools i) = mset pools"
proof -
  have *: "[0..<num] = 0 # [1..<num]"
    using assms by (simp add: upt_conv_Cons)
  show "hd (ws_sched_pools num pools i) = pools ! i"
    unfolding ws_sched_pools_def * using assms by simp
  show "mset (ws_sched_pools num pools i) = mset pools"
    using assms by (simp add: ws_pools_rotate mset_rotate)
qed

text \<open>
  With enough memory every scheduler is created, on the pools rotated by its index; a pool is
  referenced once by each.
\<close>

lemma make_pools_given:
  "make_pools access alloc acc (map Some ps) T = (True, acc @ map (\<lambda>p. (Some p, p)) ps, T)"
  by (induction ps arbitrary: acc) simp_all

definition ws_made :: "'d \<Rightarrow> nat list \<Rightarrow> 'd sched option \<Rightarrow> bool" where
  "ws_made d qs s \<longleftrightarrow> (\<exists>s0. s = Some s0 \<and> sc_pools s0 = map Some qs \<and> sc_used s0 = ABTI_SCHED_NOT_USED \<and>
     \<not> sc_automatic s0 \<and> sc_data s0 = Some d)"

lemma sched_create_given:
  assumes "set qs \<subseteq> dom T" "config_automatic False config = Some False"
    and "\<forall>ps. \<exists>f. def_init sd = Some f \<and> f ps = Some (ABT_SUCCESS, Some d)"
  shows "\<exists>s. ABT_sched_create True True alloc sd (int (length qs)) (map Some qs) config T
    = Some (ABT_SUCCESS, s, add_refs (uses qs) T) \<and> ws_made d qs s"
proof -
  obtain f where f: "def_init sd = Some f" "f qs = Some (ABT_SUCCESS, Some d)"
    using assms(3) by blast
  then show ?thesis
    using retain_all_refs [OF assms(1)] assms(2)
    by (simp add: ABT_sched_create_def sched_create_def make_pools_given ws_made_def comp_def)
qed

lemma ws_create_all:
  assumes "length ps = num" "\<forall>i. m i = (True, True)" "config_automatic False config = Some False"
    "\<forall>ps. \<exists>f. def_init sd = Some f \<and> f ps = Some (ABT_SUCCESS, Some d)"
  shows "set ps \<subseteq> dom T \<Longrightarrow> set is \<subseteq> {0..<num} \<Longrightarrow>
    \<exists>ss. ws_create_loop m alloc sd config num (map Some ps) is T
      = Some (ss, add_refs (\<lambda>p. int (length is) * uses ps p) T) \<and>
    list_all2 (\<lambda>i s. ws_made d (rotate i ps) s) is ss"
proof (induction "is" arbitrary: T)
  case Nil
  then show ?case
    by simp
next
  case (Cons i "is")
  have rot: "ws_sched_pools num (map Some ps) i = map Some (rotate i ps)"
    using ws_pools_rotate [of "map Some ps" num i] assms(1) Cons.prems(2) by (simp add: rotate_map)
  have u: "uses (rotate i ps) = uses ps"
    using mset_rotate [of i ps] unfolding uses_def fun_eq_iff by (metis count_mset)
  obtain s where s: "ABT_sched_create True True (alloc i) sd (int num)
      (map Some (rotate i ps)) config T = Some (ABT_SUCCESS, s, add_refs (uses ps) T)" "ws_made d (rotate i ps) s"
    using sched_create_given [of "rotate i ps" T config sd d "alloc i"] assms Cons.prems(1) u by auto
  obtain ss where ss: "ws_create_loop m alloc sd config num (map Some ps) is (add_refs (uses ps) T)
      = Some (ss, add_refs (\<lambda>p. int (length is) * uses ps p) (add_refs (uses ps) T))"
    "list_all2 (\<lambda>i s. ws_made d (rotate i ps) s) is ss"
    using Cons.IH [of "add_refs (uses ps) T"] Cons.prems by auto
  have mi: "m i = (True, True)"
    using assms(2) by blast
  show ?case
    using s ss rot mi by (simp add: add_refs_add distrib_right)
qed

text \<open>The configuration both kinds of schedulers are created with.\<close>

lemma ws_config:
  "\<exists>c. ABT_sched_config_create True True
      [(True, 0, CONFIG_INT, V_int 10), (True, ABT_sched_config_var_end, CONFIG_INT, V_int 0)]
    = Some (ABT_SUCCESS, Some c) \<and> ws_sched_init (Some c) = Some (ABT_SUCCESS, Some 10) \<and>
    ABT_sched_config_read (Some c) [Some (V_int 0)] = Some (ABT_SUCCESS, [Some (V_int 10)]) \<and>
    config_automatic False (Some c) = Some False"
proof -
  obtain c where c: "ABT_sched_config_create True True (arg_list [(0, V_int 10)]) = Some (ABT_SUCCESS, Some c)"
    "ht_ok c" "config_map c = [0 \<mapsto> V_int 10]"
    using sched_config_create_map [of "[(0, V_int 10)]"] by (auto simp: ABT_sched_config_var_end_def)
  have r: "read_vars c 0 [Some (V_int 0)] = Some [Some (V_int 10)]"
    using get_look [OF c(2), of 0] c(3) by (simp add: fun_eq_iff)
  have "config_automatic False (Some c) = Some False"
    using sched_config_read_map [OF c(2), of ABT_sched_config_automatic]
      fun_cong [OF c(3), of ABT_sched_config_automatic]
    by (simp add: config_automatic_def ABT_sched_config_automatic_def)
  then show ?thesis
    using c(1) r by (simp add: arg_list_def ws_sched_init_def ABT_sched_config_read_def)
qed

lemma create_ws_scheds:
  assumes "length ps = num" "\<forall>i. m i = (True, True)" "set ps \<subseteq> dom T"
  shows "\<exists>ss. ABT_create_ws_scheds True True True m alloc num (map Some ps) T
      = Some (ss, add_refs (\<lambda>p. int num * uses ps p) T) \<and> length ss = num \<and>
    (\<forall>i < num. ws_made 10 (rotate i ps) (ss ! i))"
proof -
  obtain c where c: "ABT_sched_config_create True True
      [(True, 0, CONFIG_INT, V_int 10), (True, ABT_sched_config_var_end, CONFIG_INT, V_int 0)]
    = Some (ABT_SUCCESS, Some c)" "ws_sched_init (Some c) = Some (ABT_SUCCESS, Some 10)"
    "config_automatic False (Some c) = Some False"
    using ws_config by blast
  have "\<forall>ps. \<exists>f. def_init (ws_sched_def (Some c)) = Some f \<and> f ps = Some (ABT_SUCCESS, Some 10)"
    using c(2) by (simp add: ws_sched_def_def)
  then obtain ss where "ws_create_loop m alloc (ws_sched_def (Some c)) (Some c) num (map Some ps) [0..<num] T
      = Some (ss, add_refs (\<lambda>p. int num * uses ps p) T)" "list_all2 (\<lambda>i s. ws_made 10 (rotate i ps) s) [0..<num] ss"
    using ws_create_all [OF assms(1,2) c(3) _ assms(3), of _ 10 "[0..<num]" alloc] by auto
  then show ?thesis
    using c(1) by (auto simp: ABT_create_ws_scheds_def list_all2_conv_all_nth)
qed

section \<open>The scheduler drains its pools\<close>

locale stealing_pools = draining_pools E units ok log ps
  for E :: "('s, 'e) ws_env_scheme" and units :: "nat \<Rightarrow> 's \<Rightarrow> thread_ptr list" and ok :: "'s \<Rightarrow> bool"
    and log :: "'s \<Rightarrow> thread_ptr list" and ps :: "nat list" +
  assumes set_pool: "ok s \<Longrightarrow> \<exists>s'. se_set_pool E t p s = Some (ABT_SUCCESS, s') \<and> ok s' \<and> log s' = log s \<and>
      (\<forall>q. units q s' = units q s)"

context stealing_pools
begin

lemma self_schedule:
  assumes "ok s"
  shows "\<exists>s'. self_schedule_unit E (Some t) pool s = Some (ABT_SUCCESS, s') \<and> ok s' \<and> log s' = log s @ [t] \<and>
    (\<forall>q. units q s' = units q s)"
proof (cases pool)
  case None
  then show ?thesis
    using run_unit [OF assms, of t] by (auto simp: self_schedule_unit_def)
next
  case (Some p)
  obtain s1 where s1: "se_set_pool E t p s = Some (ABT_SUCCESS, s1)" "ok s1" "log s1 = log s"
    "\<forall>q. units q s1 = units q s"
    using set_pool [OF assms] by blast
  then show ?thesis
    using run_unit [OF s1(2), of t] Some by (auto simp: self_schedule_unit_def)
qed

text \<open>The first pool with a unit gives it, whether it is the own one or another.\<close>

definition found :: "'s \<Rightarrow> 's \<Rightarrow> bool" where
  "found s s2 \<longleftrightarrow> ok s2 \<and> work s = Suc (work s2) \<and> total s2 = total s"

lemma take_from:
  assumes "ok s" "p \<in> set ps" "units p s \<noteq> []"
  shows "\<exists>t s1 s2. se_pop E p ctx s = Some (Some t, s1) \<and>
    self_schedule_unit E (Some t) pool s1 = Some (ABT_SUCCESS, s2) \<and> found s s2"
proof -
  obtain t s1 where t: "se_pop E p ctx s = Some (Some t, s1)" "ok s1"
    "mset (units p s) = add_mset t (mset (units p s1))" "\<forall>q. q \<noteq> p \<longrightarrow> units q s1 = units q s"
    using pop_unit [OF assms(1,3)] by blast
  obtain s2 where s2: "self_schedule_unit E (Some t) pool s1 = Some (ABT_SUCCESS, s2)" "ok s2"
    "log s2 = log s1 @ [t]" "\<forall>q. units q s2 = units q s1"
    using self_schedule [OF t(2)] by blast
  have "log s2 = log s @ [t]"
    using s2(3) pop_log [OF assms(1) t(1)] by simp
  then have "work s = Suc (work s2)" "total s2 = total s"
    using move_unit [OF assms(2) t(3,4) s2(4)] by auto
  then show ?thesis
    using t(1) s2(1,2) by (auto simp: found_def)
qed

lemma steal_progress:
  assumes "ok s" "set others \<subseteq> set ps"
  shows "\<exists>s2. ws_steal E others s = Some s2 \<and>
    (if \<forall>p \<in> set others. units p s = [] then s2 = s else found s s2)"
  using assms(2)
proof (induction others)
  case (Cons p others)
  show ?case
  proof (cases "units p s = []")
    case True
    then show ?thesis
      using Cons pop_empty [OF assms(1) True] by (simp add: ABT_pool_pop_thread_def)
  next
    case False
    then show ?thesis
      using take_from [OF assms(1) _ False, of ABT_POOL_CONTEXT_OP_POOL_OTHER "Some p"] Cons.prems
      by (force simp: ABT_pool_pop_thread_def)
  qed
qed simp

lemma ws_check_progress:
  assumes "ok s" "ok s2" "total s2 = total s" "busy s \<and> work s = Suc (work s2) \<or> \<not> busy s2"
  shows "case (if se_has_to_stop E s2 then Stop s2 else Go 0 (se_check_events E s2)) of Stop s' \<Rightarrow> finished s s'
    | Go c' s' \<Rightarrow> ok s' \<and> (c' = 0 \<or> c' < freq) \<and> total s' = total s \<and> ((c', s'), (c, s)) \<in> loop_rel freq"
proof (cases "busy s2")
  case True
  then have "\<not> se_has_to_stop E s2"
    using stop_iff [OF assms(2)] by (simp add: busy_def)
  then show ?thesis
    using True check_total [OF assms(2)] check_same [OF assms(2)] assms by (simp add: loop_rel_def)
next
  case False
  then have "se_has_to_stop E s2"
    using stop_iff [OF assms(2)] by (simp add: busy_def)
  then show ?thesis
    using False total_idle [OF False] assms by (simp add: finished_def busy_def)
qed

lemma ws_iter_progress:
  assumes "ok s" "c = 0 \<or> c < freq" "set pools = set ps" "pools \<noteq> []"
  shows "\<exists>r. ws_iter E freq pools c s = Some r \<and>
      (case r of Stop s' \<Rightarrow> finished s s'
       | Go c' s' \<Rightarrow> ok s' \<and> (c' = 0 \<or> c' < freq) \<and> total s' = total s \<and> ((c', s'), (c, s)) \<in> loop_rel freq)"
proof -
  obtain own others where p: "pools = own # others"
    using assms(4) by (cases pools) auto
  have sub: "own \<in> set ps" "set others \<subseteq> set ps"
    using assms(3) p by auto
  define step where "step = do {
      (_, t, s1) \<leftarrow> ABT_pool_pop_thread E (Some own) s;
      (case t of None \<Rightarrow> ws_steal E others s1 | Some t \<Rightarrow> map_option snd (self_schedule_unit E (Some t) None s1)) }"
  obtain s2 where s2: "step = Some s2" "found s s2 \<or> \<not> busy s \<and> s2 = s"
  proof (cases "units own s = []")
    case True
    then have "step = ws_steal E others s"
      using pop_empty [OF assms(1) True] by (simp add: step_def ABT_pool_pop_thread_def)
    moreover have "busy s \<longleftrightarrow> \<not> (\<forall>p \<in> set others. units p s = [])"
      using True assms(3) [symmetric] p by (simp add: busy_def)
    moreover obtain s2 where "ws_steal E others s = Some s2"
      "if \<forall>p \<in> set others. units p s = [] then s2 = s else found s s2"
      using steal_progress [OF assms(1) sub(2)] by blast
    ultimately show ?thesis
      using that [of s2] by (simp split: if_splits)
  next
    case False
    obtain t s1 s2 where "se_pop E own ABT_POOL_CONTEXT_OP_POOL_OTHER s = Some (Some t, s1)"
      "self_schedule_unit E (Some t) None s1 = Some (ABT_SUCCESS, s2)" "found s s2"
      using take_from [OF assms(1) sub(1) False] by blast
    then show ?thesis
      using that [of s2] by (simp add: step_def ABT_pool_pop_thread_def)
  qed
  have iter: "ws_iter E freq pools c s = Some (if freq \<le> c + 1
      then (if se_has_to_stop E s2 then Stop s2 else Go 0 (se_check_events E s2)) else Go (c + 1) s2)"
    using s2(1) unfolding p ws_iter_def step_def by (auto simp: bind_eq_Some_conv split: prod.splits)
  have facts: "ok s2" "total s2 = total s" "busy s \<and> work s = Suc (work s2) \<or> \<not> busy s2 \<and> s2 = s"
    using s2(2) assms(1) work_idle [of s] by (cases "busy s"; simp add: found_def)+
  show ?thesis
  proof (cases "freq \<le> c + 1")
    case True
    then show ?thesis
      using ws_check_progress [OF assms(1) facts(1,2), of freq c] facts(3) iter by auto
  next
    case False
    then have "((c + 1, s2), (c, s)) \<in> loop_rel freq"
      using facts(3) word_suc_less [OF False assms(2)] by (auto simp: loop_rel_def)
    moreover have "c + 1 < freq"
      using False by (rule not_le_imp_less)
    ultimately show ?thesis
      using facts iter False by simp
  qed
qed

lemma ws_drains:
  assumes "ok s" "set pools = set ps" "pools \<noteq> []"
  shows "\<exists>s'. ws_sched_run E freq pools s = Some s' \<and> finished s s'"
  using loop_finishes [of freq "ws_iter E freq pools" s 0] ws_iter_progress [OF _ _ assms(2,3)] assms(1)
  by (simp add: ws_sched_run_def)

end

text \<open>The linked pools: a built-in pool shares its units' handles with the others.\<close>

definition ws_builtin_env :: "nat list \<Rightarrow> sched_world ws_env" where
  "ws_builtin_env ps = \<lparr>se_pop = ABTI_pool_pop, se_schedule = (\<lambda>t w. Some (w\<lparr>sw_log := sw_log w @ [t]\<rparr>)),
     se_check_events = (\<lambda>w. w),
     se_has_to_stop = (\<lambda>w. list_all (\<lambda>p. thread_queue_is_empty (pd_queue (snd (sw_pools w p)))) ps),
     se_set_pool = (\<lambda>t p w. Some (ABT_SUCCESS, w\<lparr>sw_pool_of := (sw_pool_of w)(t := Some p)\<rparr>))\<rparr>"

lemma world_ok_pool_of [simp]: "world_ok (w\<lparr>sw_pool_of := f\<rparr>) = world_ok w"
  "pool_units p (w\<lparr>sw_pool_of := f\<rparr>) = pool_units p w"
  by (simp_all add: world_ok_def pool_units_def)

interpretation ws_world: stealing_pools "ws_builtin_env ps" pool_units world_ok sw_log ps for ps
proof unfold_locales
  fix s p ctx
  show "world_ok s \<Longrightarrow> pool_units p s = [] \<Longrightarrow> se_pop (ws_builtin_env ps) p ctx s = Some (None, s)"
    using world.pop_empty [of s p ps] by (simp add: builtin_env_def ws_builtin_env_def)
  show "world_ok s \<Longrightarrow> pool_units p s \<noteq> [] \<Longrightarrow> \<exists>t s'. se_pop (ws_builtin_env ps) p ctx s = Some (Some t, s') \<and>
      world_ok s' \<and> mset (pool_units p s) = add_mset t (mset (pool_units p s')) \<and>
      (\<forall>q. q \<noteq> p \<longrightarrow> pool_units q s' = pool_units q s)"
    using world_pop [of s p ctx] by (simp add: ws_builtin_env_def)
  show "world_ok s \<Longrightarrow> \<exists>s'. se_schedule (ws_builtin_env ps) t s = Some s' \<and> world_ok s' \<and>
      sw_log s' = sw_log s @ [t] \<and> (\<forall>q. pool_units q s' = pool_units q s)" for t
    by (simp add: ws_builtin_env_def)
  show "world_ok s \<Longrightarrow> se_pop (ws_builtin_env ps) p ctx s = Some (r, s') \<Longrightarrow> sw_log s' = sw_log s" for r s'
    using world.pop_log [of s ps p ctx r s'] by (simp add: builtin_env_def ws_builtin_env_def)
  show "world_ok s \<Longrightarrow> world_ok (se_check_events (ws_builtin_env ps) s) \<and>
      sw_log (se_check_events (ws_builtin_env ps) s) = sw_log s \<and>
      pool_units q (se_check_events (ws_builtin_env ps) s) = pool_units q s" for q
    by (simp add: ws_builtin_env_def)
  show "world_ok s \<Longrightarrow> se_has_to_stop (ws_builtin_env ps) s = (\<forall>p \<in> set ps. pool_units p s = [])"
    using world.stop_iff [of s ps] by (simp add: builtin_env_def ws_builtin_env_def)
  show "world_ok s \<Longrightarrow> \<exists>s'. se_set_pool (ws_builtin_env ps) t p s = Some (ABT_SUCCESS, s') \<and> world_ok s' \<and>
      sw_log s' = sw_log s \<and> (\<forall>q. pool_units q s' = pool_units q s)" for t
    by (simp add: ws_builtin_env_def)
qed

end
