(* ===== verification/CostAware.thy ===== *)
theory CostAware
  imports CostMeta WorkSteal
begin

text \<open>
  The cost-aware work-stealing scheduler
  (\<^verbatim>\<open>examples/workstealing_scheduler/abt_workstealing_scheduler_cost_aware.c\<close>) over the estimates of
  theory CostMeta: it steals from the pool with the largest estimated load. The estimates are
  global; the environment tells where they are in the state, as units that run may push some.

  The rank of a scheduler is that of the execution stream that creates it, and the pools of a
  scheduler are rotated while the estimates are not. Both disagree with the use of the rank as an
  index: see the last section.
\<close>

section \<open>The scheduler\<close>

record 's cost_env = "'s ws_env" +
  ce_globals :: "'s \<Rightarrow> ws_globals"
  ce_set_globals :: "ws_globals \<Rightarrow> 's \<Rightarrow> 's"

record cost_data =
  cd_event_freq :: "32 word"
  cd_rank :: int
  cd_local_total_time :: real
  cd_local_task_count :: int

text \<open>\<open>rank\<close> is the rank of the execution stream that calls.\<close>

definition cost_sched_init :: "int \<Rightarrow> config option \<Rightarrow> (abt_errno \<times> cost_data option) option" where
  "cost_sched_init rank config = do {
     (err, vs) \<leftarrow> ABT_sched_config_read config [Some (V_int 0)];
     (case vs of
        [Some (V_int n)] \<Rightarrow> Some (ABT_SUCCESS, Some \<lparr>cd_event_freq = word_of_int n, cd_rank = rank,
          cd_local_total_time = 0, cd_local_task_count = 0\<rparr>)
      | _ \<Rightarrow> None)
   }"

definition pool_at :: "nat list \<Rightarrow> int \<Rightarrow> nat option" where
  "pool_at pools i = (if 0 \<le> i \<and> nat i < length pools then Some (pools ! nat i) else None)"

text \<open>Taking the oldest estimate of \<open>rank\<close> and running the unit.\<close>

definition run_estimated ::
    "('s, 'e) cost_env_scheme \<Rightarrow> int \<Rightarrow> thread_ptr \<Rightarrow> 's \<Rightarrow> 's option" where
  "run_estimated E rank t s = do {
     (_, g) \<leftarrow> ws_pop_task_estimate rank (ce_globals E s);
     map_option snd (self_schedule_unit E (Some t) None (ce_set_globals E g s))
   }"

definition cost_steal :: "('s, 'e) cost_env_scheme \<Rightarrow> int \<Rightarrow> nat list \<Rightarrow> 's \<Rightarrow> 's option" where
  "cost_steal E rank pools s = do {
     victim \<leftarrow> ws_find_heaviest_pool rank (length pools) (ce_globals E s);
     (if victim \<ge> 0 then do {
        p \<leftarrow> pool_at pools victim;
        (_, t, s1) \<leftarrow> ABT_pool_pop_thread E (Some p) s;
        (case t of None \<Rightarrow> Some s1 | Some t \<Rightarrow> run_estimated E victim t s1)
      } else Some s)
   }"

definition cost_iter ::
    "('s, 'e) cost_env_scheme \<Rightarrow> cost_data \<Rightarrow> nat list \<Rightarrow> 32 word \<Rightarrow> 's \<Rightarrow> 's round option" where
  "cost_iter E d pools work_count s = do {
     own \<leftarrow> pool_at pools (cd_rank d);
     (_, t, s1) \<leftarrow> ABT_pool_pop_thread E (Some own) s;
     s2 \<leftarrow> (case t of
        None \<Rightarrow> cost_steal E (cd_rank d) pools s1
      | Some t \<Rightarrow> run_estimated E (cd_rank d) t s1);
     Some (if cd_event_freq d \<le> work_count + 1
           then (if se_has_to_stop E s2 then Stop s2 else Go 0 (se_check_events E s2))
           else Go (work_count + 1) s2)
   }"

definition cost_sched_run :: "('s, 'e) cost_env_scheme \<Rightarrow> cost_data \<Rightarrow> nat list \<Rightarrow> 's \<Rightarrow> 's option" where
  "cost_sched_run E d pools s = sched_loop (cost_iter E d pools) 0 s"

section \<open>Creation\<close>

text \<open>The two allocations of the statistics are not checked; \<open>ok i\<close> is the result of the \<open>i\<close>-th ring buffer's.\<close>

definition cost_globals :: "bool \<Rightarrow> bool \<Rightarrow> (nat \<Rightarrow> bool \<times> bool) \<Rightarrow> nat \<Rightarrow> ws_globals option" where
  "cost_globals loads_mem meta_mem ok num =
     (if num > 0 \<and> \<not> (loads_mem \<and> meta_mem) then None
      else Some \<lparr>g_loads = replicate num \<lparr>gl_total_time = 0, gl_task_count = 0\<rparr>, g_num_xstreams = int num,
        g_pool_meta = Some (map (\<lambda>i. snd (pool_meta_init_one (fst (ok i)) (snd (ok i)) 1024)) [0..<num])\<rparr>)"

definition cost_sched_def :: "int \<Rightarrow> config option \<Rightarrow> cost_data sched_def" where
  "cost_sched_def rank config =
     \<lparr>def_kind = 1, def_init = Some (\<lambda>_. cost_sched_init rank config), def_get_migr_pool = None\<rparr>"

definition ABT_create_ws_scheds_cost_aware ::
    "bool \<Rightarrow> bool \<Rightarrow> (nat \<Rightarrow> bool \<times> bool) \<Rightarrow> bool \<Rightarrow> bool \<Rightarrow> bool \<Rightarrow> (nat \<Rightarrow> bool \<times> bool) \<Rightarrow> (nat \<Rightarrow> nat \<Rightarrow> nat option) \<Rightarrow> int
     \<Rightarrow> nat \<Rightarrow> nat option list \<Rightarrow> pool_table \<Rightarrow> (ws_globals \<times> cost_data sched option list \<times> pool_table) option" where
  "ABT_create_ws_scheds_cost_aware loads_mem meta_mem ok calloc_ok table_mem set_ok m alloc rank num pools T = do {
     g \<leftarrow> cost_globals loads_mem meta_mem ok num;
     (_, config) \<leftarrow> ABT_sched_config_create calloc_ok table_mem
       [(set_ok, 0, CONFIG_INT, V_int 10), (True, ABT_sched_config_var_end, CONFIG_INT, V_int 0)];
     (ss, T') \<leftarrow> ws_create_loop m alloc (cost_sched_def rank config) config num pools [0..<num] T;
     Some (g, ss, T')
   }"

section \<open>What creation gives\<close>

definition rank_data :: "int \<Rightarrow> cost_data" where
  "rank_data rank = \<lparr>cd_event_freq = 10, cd_rank = rank, cd_local_total_time = 0, cd_local_task_count = 0\<rparr>"

lemma cost_globals_rep:
  assumes "\<forall>i. ok i = (True, True)"
  shows "\<exists>g. cost_globals True True ok num = Some g \<and> globals_rep g (replicate num [])"
proof -
  have "meta_rep (snd (pool_meta_init_one True True 1024)) []"
    using meta_init [of 1024] by auto
  then show ?thesis
    using assms by (auto simp: cost_globals_def globals_rep_def list_all2_conv_all_nth)
qed

text \<open>All schedulers get the rank of the creator.\<close>

lemma create_cost_aware:
  assumes "length ps = num" "\<forall>i. ok i = (True, True)" "\<forall>i. m i = (True, True)" "set ps \<subseteq> dom T"
  shows "\<exists>g ss. ABT_create_ws_scheds_cost_aware True True ok True True True m alloc rank num (map Some ps) T
      = Some (g, ss, add_refs (\<lambda>p. int num * uses ps p) T) \<and>
    globals_rep g (replicate num []) \<and> length ss = num \<and>
    (\<forall>i < num. ws_made (rank_data rank) (rotate i ps) (ss ! i))"
proof -
  obtain g where g: "cost_globals True True ok num = Some g" "globals_rep g (replicate num [])"
    using cost_globals_rep [OF assms(2)] by blast
  obtain c where c: "ABT_sched_config_create True True
      [(True, 0, CONFIG_INT, V_int 10), (True, ABT_sched_config_var_end, CONFIG_INT, V_int 0)]
    = Some (ABT_SUCCESS, Some c)" "ABT_sched_config_read (Some c) [Some (V_int 0)] = Some (ABT_SUCCESS, [Some (V_int 10)])"
    "config_automatic False (Some c) = Some False"
    using ws_config by blast
  have "\<forall>ps. \<exists>f. def_init (cost_sched_def rank (Some c)) = Some f \<and> f ps = Some (ABT_SUCCESS, Some (rank_data rank))"
    using c(2) by (simp add: cost_sched_def_def cost_sched_init_def rank_data_def)
  then obtain ss where "ws_create_loop m alloc (cost_sched_def rank (Some c)) (Some c) num (map Some ps) [0..<num] T
      = Some (ss, add_refs (\<lambda>p. int num * uses ps p) T)"
    "list_all2 (\<lambda>i s. ws_made (rank_data rank) (rotate i ps) s) [0..<num] ss"
    using ws_create_all [OF assms(1,3) c(3) _ assms(4), of _ "rank_data rank" "[0..<num]" alloc] by auto
  then show ?thesis
    using c(1) g by (auto simp: ABT_create_ws_scheds_cost_aware_def list_all2_conv_all_nth)
qed

section \<open>Stealing\<close>

lemma steal_nothing:
  assumes "globals_rep (ce_globals E s) qs" "length qs = length pools"
    and "\<forall>r < length qs. r \<noteq> self \<longrightarrow> sum_list (qs ! r) \<le> 0"
  shows "cost_steal E (int self) pools s = Some s"
proof -
  obtain v where v: "ws_find_heaviest_pool (int self) (length pools) (ce_globals E s) = Some v"
    "v = -1 \<or> (\<exists>r < length qs. r \<noteq> self \<and> 0 < sum_list (qs ! r))"
    using victim_cases [OF assms(1), of self] unfolding assms(2) by blast
  then have "v = -1"
    using assms(3) by (meson not_less)
  then show ?thesis
    using v(1) by (simp add: cost_steal_def)
qed

text \<open>
  A thief takes a unit from the position of the largest load in its own array of pools, and the
  oldest estimate at that index.
\<close>

lemma steal_heaviest:
  assumes rep: "globals_rep (ce_globals E s) qs" "length qs = length pools"
    and load: "r0 < length qs" "r0 \<noteq> self" "0 < sum_list (qs ! r0)"
  shows "\<exists>r < length qs. r \<noteq> self \<and> 0 < sum_list (qs ! r) \<and>
    (\<forall>j < length qs. j \<noteq> self \<longrightarrow> sum_list (qs ! j) \<le> sum_list (qs ! r)) \<and>
    cost_steal E (int self) pools s = do {
      (t, s1) \<leftarrow> se_pop E (pools ! r) ABT_POOL_CONTEXT_OP_POOL_OTHER s;
      (case t of None \<Rightarrow> Some s1 | Some t \<Rightarrow> run_estimated E (int r) t s1)
    }"
proof -
  obtain v where v: "ws_find_heaviest_pool (int self) (length pools) (ce_globals E s) = Some v"
    "v = -1 \<and> (\<forall>r < length qs. r \<noteq> self \<longrightarrow> sum_list (qs ! r) \<le> 0) \<or>
     (\<exists>r < length qs. v = int r \<and> r \<noteq> self \<and> 0 < sum_list (qs ! r) \<and>
        (\<forall>j < length qs. j \<noteq> self \<longrightarrow> sum_list (qs ! j) \<le> sum_list (qs ! r)))"
    using victim_cases [OF rep(1), of self] unfolding rep(2) by blast
  moreover have "\<not> (\<forall>r < length qs. r \<noteq> self \<longrightarrow> sum_list (qs ! r) \<le> 0)"
    using load not_less by blast
  ultimately obtain r where r: "r < length qs" "v = int r" "r \<noteq> self" "0 < sum_list (qs ! r)"
    "\<forall>j < length qs. j \<noteq> self \<longrightarrow> sum_list (qs ! j) \<le> sum_list (qs ! r)"
    by blast
  have "cost_steal E (int self) pools s = do {
      (t, s1) \<leftarrow> se_pop E (pools ! r) ABT_POOL_CONTEXT_OP_POOL_OTHER s;
      (case t of None \<Rightarrow> Some s1 | Some t \<Rightarrow> run_estimated E (int r) t s1) }"
    using v(1) r(1,2) rep(2)
    by (cases "se_pop E (pools ! r) ABT_POOL_CONTEXT_OP_POOL_OTHER s")
       (auto simp: cost_steal_def pool_at_def ABT_pool_pop_thread_def)
  then show ?thesis
    using r by blast
qed

section \<open>Where the indices disagree\<close>

text \<open>
  A scheduler with the rank of the creator, 0: an idle one never looks at the load of the first
  pool, however many units are there, whatever its own pool.
\<close>

lemma idle_ignores_first_pool:
  assumes "cd_rank d = 0" "pools \<noteq> []" "se_pop E (hd pools) ABT_POOL_CONTEXT_OP_POOL_OTHER s = Some (None, s)"
    and "globals_rep (ce_globals E s) qs" "length qs = length pools" "\<forall>r < length qs. r \<noteq> 0 \<longrightarrow> sum_list (qs ! r) \<le> 0"
    and "\<not> cd_event_freq d \<le> c + 1"
  shows "cost_iter E d pools c s = Some (Go (c + 1) s)"
proof -
  have "pool_at pools 0 = Some (hd pools)"
    using assms(2) by (simp add: pool_at_def hd_conv_nth)
  moreover have "cost_steal E 0 pools s = Some s"
    using steal_nothing [OF assms(4,5,6)] by simp
  ultimately show ?thesis
    using assms(1,3,7) by (simp add: cost_iter_def ABT_pool_pop_thread_def)
qed

text \<open>The estimate of a unit from its own pool is taken from those of the first pool.\<close>

lemma own_unit_pops_first_estimate:
  assumes "cd_rank d = 0" "pools \<noteq> []" "se_pop E (hd pools) ABT_POOL_CONTEXT_OP_POOL_OTHER s = Some (Some t, s1)"
    and "globals_rep (ce_globals E s1) qs" "qs \<noteq> []" "\<not> cd_event_freq d \<le> c + 1"
  shows "\<exists>g. globals_rep g (tl (hd qs) # tl qs) \<and>
    cost_iter E d pools c s = map_option (Go (c + 1)) (se_schedule E t (ce_set_globals E g s1))"
proof -
  have "pool_at pools 0 = Some (hd pools)"
    using assms(2) by (simp add: pool_at_def hd_conv_nth)
  moreover obtain e g where "ws_pop_task_estimate 0 (ce_globals E s1) = Some (e, g)"
    "globals_rep g (qs[0 := tl (qs ! 0)])"
    using pop_estimate_rep [OF assms(4), of 0] assms(5) by auto
  moreover have "qs[0 := tl (qs ! 0)] = tl (hd qs) # tl qs"
    using assms(5) by (cases qs) simp_all
  ultimately show ?thesis
    using assms(1,3,6)
    by (intro exI [of _ g]) (cases "se_schedule E t (ce_set_globals E g s1)";
      simp add: cost_iter_def ABT_pool_pop_thread_def run_estimated_def self_schedule_unit_def)
qed

end
