(* ===== verification/UnitMap.thy ===== *)
theory UnitMap
  imports PoolBase
begin

text \<open>
  Units of user-defined pools (\<^verbatim>\<open>argobots_framework/src/unit.c\<close>, \<^verbatim>\<open>include/abti_unit.h\<close>): a hash
  table from unit handles to work units, and the functions that associate a work unit with a
  pool, which keep the table and the pools' own units in step. A row of the table is the list
  from the head; \<open>0\<close> is \<^verbatim>\<open>ABT_UNIT_NULL\<close>. Changes of a row hold its lock and are one step. \<open>None\<close> is
  a failed assertion.

  The table implements a finite map, and after every association the unit of each work unit
  leads back to it.
\<close>

section \<open>The table\<close>

type_synonym unit_row = "(nat \<times> thread_ptr) list"
type_synonym unit_table = "unit_row list"

definition ABTI_UNIT_HASH_TABLE_SIZE_EXP :: nat where "ABTI_UNIT_HASH_TABLE_SIZE_EXP = 8"

definition ABTI_UNIT_HASH_TABLE_SIZE :: nat where
  "ABTI_UNIT_HASH_TABLE_SIZE = push_bit ABTI_UNIT_HASH_TABLE_SIZE_EXP 1"

definition unit_get_hash_index :: "nat \<Rightarrow> nat" where
  "unit_get_hash_index val =
     (let base_val = drop_bit 3 val + drop_bit (ABTI_UNIT_HASH_TABLE_SIZE_EXP + 3) val
        + drop_bit (ABTI_UNIT_HASH_TABLE_SIZE_EXP * 2 + 3) val
      in and base_val (ABTI_UNIT_HASH_TABLE_SIZE - 1))"

definition unit_init_hash_table :: unit_table where
  "unit_init_hash_table = replicate ABTI_UNIT_HASH_TABLE_SIZE []"

text \<open>Every element is freed; none may be in use.\<close>

definition unit_finalize_hash_table :: "unit_table \<Rightarrow> unit option" where
  "unit_finalize_hash_table T = (if list_all (list_all (\<lambda>(u, _). u = 0)) T then Some () else None)"

text \<open>The first free element of a row is used, a new one goes to its head.\<close>

fun reuse_entry :: "nat \<Rightarrow> thread_ptr \<Rightarrow> unit_row \<Rightarrow> unit_row option" where
  "reuse_entry unit t [] = None"
| "reuse_entry unit t ((u, t') # row) =
     (if u = 0 then Some ((unit, t) # row) else map_option (Cons (u, t')) (reuse_entry unit t row))"

definition unit_map_thread ::
    "bool \<Rightarrow> nat \<Rightarrow> thread_ptr \<Rightarrow> unit_table \<Rightarrow> (abt_errno \<times> unit_table) option" where
  "unit_map_thread malloc_ok unit t T =
     (if ABTI_unit_is_builtin unit then None
      else
        let i = unit_get_hash_index unit in
        case reuse_entry unit t (T ! i) of
          Some row \<Rightarrow> Some (ABT_SUCCESS, T[i := row])
        | None \<Rightarrow>
            if \<not> malloc_ok then Some (ABT_ERR_MEM, T)
            else Some (ABT_SUCCESS, T[i := (unit, t) # T ! i]))"

fun clear_entry :: "nat \<Rightarrow> unit_row \<Rightarrow> unit_row option" where
  "clear_entry unit [] = None"
| "clear_entry unit ((u, t) # row) =
     (if u = unit then Some ((0, t) # row) else map_option (Cons (u, t)) (clear_entry unit row))"

definition unit_unmap_thread :: "nat \<Rightarrow> unit_table \<Rightarrow> unit_table option" where
  "unit_unmap_thread unit T =
     (if ABTI_unit_is_builtin unit then None
      else let i = unit_get_hash_index unit in map_option (\<lambda>row. T[i := row]) (clear_entry unit (T ! i)))"

fun find_entry :: "nat \<Rightarrow> unit_row \<Rightarrow> thread_ptr option" where
  "find_entry unit [] = None"
| "find_entry unit ((u, t) # row) = (if u = unit then Some t else find_entry unit row)"

definition unit_get_thread_from_user_defined_unit :: "nat \<Rightarrow> unit_table \<Rightarrow> thread_ptr option" where
  "unit_get_thread_from_user_defined_unit unit T =
     (if ABTI_unit_is_builtin unit then None else find_entry unit (T ! unit_get_hash_index unit))"

definition ABTI_unit_get_thread :: "nat \<Rightarrow> unit_table \<Rightarrow> thread_ptr option" where
  "ABTI_unit_get_thread unit T =
     (if ABTI_unit_is_builtin unit then ABTI_unit_get_thread_from_builtin_unit unit
      else unit_get_thread_from_user_defined_unit unit T)"

definition ABT_unit_get_thread :: "nat \<Rightarrow> unit_table \<Rightarrow> (abt_errno + thread_ptr) option" where
  "ABT_unit_get_thread unit T =
     (if unit = 0 then Some (Inl ABT_ERR_INV_UNIT) else map_option Inr (ABTI_unit_get_thread unit T))"

section \<open>Associating work units with pools\<close>

text \<open>
  The pools' own functions are called in the order of \<open>as_calls\<close>; what \<^verbatim>\<open>p_create_unit\<close> returned
  in a call is the argument \<open>new_unit\<close>.
\<close>

datatype unit_call = CreateUnit nat thread_ptr nat | FreeUnit nat nat

record associations =
  as_table :: unit_table
  as_unit :: "thread_ptr \<Rightarrow> nat"
  as_pool :: "thread_ptr \<Rightarrow> nat option"
  as_calls :: "unit_call list"

definition pool_call :: "unit_call \<Rightarrow> associations \<Rightarrow> associations" where
  "pool_call c a = a\<lparr>as_calls := as_calls a @ [c]\<rparr>"

definition set_unit :: "thread_ptr \<Rightarrow> nat \<Rightarrow> nat option \<Rightarrow> associations \<Rightarrow> associations" where
  "set_unit t u p a = a\<lparr>as_unit := (as_unit a)(t := u), as_pool := (as_pool a)(t := p)\<rparr>"

text \<open>\<^verbatim>\<open>ABTI_unit_init_builtin\<close>; the link fields it clears are those of theory ThreadQueue.\<close>

definition ABTI_unit_init_builtin :: "thread_ptr \<Rightarrow> nat \<Rightarrow> associations \<Rightarrow> associations option" where
  "ABTI_unit_init_builtin t p a = map_option (\<lambda>u. set_unit t u (Some p) a) (ABTI_unit_get_builtin_unit t)"

text \<open>A new unit of a user-defined pool, mapped to the work unit.\<close>

definition new_user_unit ::
    "bool \<Rightarrow> nat \<Rightarrow> nat \<Rightarrow> thread_ptr \<Rightarrow> associations \<Rightarrow> (abt_errno \<times> associations) option" where
  "new_user_unit malloc_ok new_unit p t a =
     (let a1 = pool_call (CreateUnit p t new_unit) a in
      if new_unit = 0 then Some (ABT_ERR_OTHER, a1)
      else do {
        (ret, T) \<leftarrow> unit_map_thread malloc_ok new_unit t (as_table a1);
        (if ret \<noteq> ABT_SUCCESS then Some (ret, pool_call (FreeUnit p new_unit) a1)
         else Some (ABT_SUCCESS, a1\<lparr>as_table := T\<rparr>))
      })"

definition drop_user_unit :: "nat \<Rightarrow> thread_ptr \<Rightarrow> associations \<Rightarrow> associations option" where
  "drop_user_unit unit t a = do {
     T \<leftarrow> unit_unmap_thread unit (as_table a);
     old_pool \<leftarrow> as_pool a t;
     Some (pool_call (FreeUnit old_pool unit) (a\<lparr>as_table := T\<rparr>))
   }"

definition ABTI_thread_init_pool ::
    "(nat \<Rightarrow> bool) \<Rightarrow> bool \<Rightarrow> nat \<Rightarrow> thread_ptr \<Rightarrow> nat \<Rightarrow> associations \<Rightarrow> (abt_errno \<times> associations) option" where
  "ABTI_thread_init_pool is_builtin malloc_ok new_unit t p a =
     (if is_builtin p then map_option (Pair ABT_SUCCESS) (ABTI_unit_init_builtin t p a)
      else do {
        (ret, a1) \<leftarrow> new_user_unit malloc_ok new_unit p t a;
        Some (if ret \<noteq> ABT_SUCCESS then (ret, a1) else (ABT_SUCCESS, set_unit t new_unit (Some p) a1))
      })"

definition ABTI_thread_set_associated_pool ::
    "(nat \<Rightarrow> bool) \<Rightarrow> bool \<Rightarrow> nat \<Rightarrow> thread_ptr \<Rightarrow> nat \<Rightarrow> associations \<Rightarrow> (abt_errno \<times> associations) option" where
  "ABTI_thread_set_associated_pool is_builtin malloc_ok new_unit t p a =
     (let unit = as_unit a t in
      if ABTI_unit_is_builtin unit \<and> is_builtin p then Some (ABT_SUCCESS, set_unit t unit (Some p) a)
      else if ABTI_unit_is_builtin unit then do {
        (ret, a1) \<leftarrow> new_user_unit malloc_ok new_unit p t a;
        Some (if ret \<noteq> ABT_SUCCESS then (ret, a1) else (ABT_SUCCESS, set_unit t new_unit (Some p) a1))
      }
      else if is_builtin p then do {
        a1 \<leftarrow> drop_user_unit unit t a;
        map_option (Pair ABT_SUCCESS) (ABTI_unit_init_builtin t p a1)
      }
      else if as_pool a t = Some p then Some (ABT_SUCCESS, a)
      else do {
        (ret, a1) \<leftarrow> new_user_unit malloc_ok new_unit p t a;
        (if ret \<noteq> ABT_SUCCESS then Some (ret, a1)
         else map_option (\<lambda>a2. (ABT_SUCCESS, set_unit t new_unit (Some p) a2)) (drop_user_unit unit t a1))
      })"

text \<open>The same from the side of a unit; it also gives the work unit.\<close>

definition ABTI_unit_set_associated_pool ::
    "(nat \<Rightarrow> bool) \<Rightarrow> bool \<Rightarrow> nat \<Rightarrow> nat \<Rightarrow> nat \<Rightarrow> associations
     \<Rightarrow> (abt_errno \<times> thread_ptr option \<times> associations) option" where
  "ABTI_unit_set_associated_pool is_builtin malloc_ok new_unit unit p a =
     (if ABTI_unit_is_builtin unit then do {
        t \<leftarrow> ABTI_unit_get_thread_from_builtin_unit unit;
        (if is_builtin p then Some (ABT_SUCCESS, Some t, a\<lparr>as_pool := (as_pool a)(t := Some p)\<rparr>)
         else do {
           (ret, a1) \<leftarrow> new_user_unit malloc_ok new_unit p t a;
           Some (if ret \<noteq> ABT_SUCCESS then (ret, None, a1)
                 else (ABT_SUCCESS, Some t, set_unit t new_unit (Some p) a1))
         })
      }
      else do {
        t \<leftarrow> unit_get_thread_from_user_defined_unit unit (as_table a);
        (if is_builtin p then do {
           a1 \<leftarrow> drop_user_unit unit t a;
           map_option (\<lambda>a2. (ABT_SUCCESS, Some t, a2)) (ABTI_unit_init_builtin t p a1)
         }
         else if as_pool a t = Some p then Some (ABT_SUCCESS, Some t, a)
         else do {
           (ret, a1) \<leftarrow> new_user_unit malloc_ok new_unit p t a;
           (if ret \<noteq> ABT_SUCCESS then Some (ret, None, a1)
            else map_option (\<lambda>a2. (ABT_SUCCESS, Some t, set_unit t new_unit (Some p) a2)) (drop_user_unit unit t a1))
         })
      })"

definition ABTI_thread_unset_associated_pool :: "thread_ptr \<Rightarrow> associations \<Rightarrow> associations option" where
  "ABTI_thread_unset_associated_pool t a =
     (let unit = as_unit a t in
      map_option (set_unit t 0 None) (if \<not> ABTI_unit_is_builtin unit then drop_user_unit unit t a else Some a))"

section \<open>The table is a map\<close>

text \<open>
  A handle in use occurs once and in its own row. \<open>table_map\<close> is the map from handles in use
  to work units.
\<close>

definition row_ok :: "nat \<Rightarrow> unit_row \<Rightarrow> bool" where
  "row_ok i row \<longleftrightarrow> distinct (filter (\<lambda>u. u \<noteq> 0) (map fst row)) \<and>
     (\<forall>u \<in> fst ` set row. u \<noteq> 0 \<longrightarrow> even u \<and> unit_get_hash_index u = i)"

definition units_ok :: "unit_table \<Rightarrow> bool" where
  "units_ok T \<longleftrightarrow> length T = ABTI_UNIT_HASH_TABLE_SIZE \<and> (\<forall>i < length T. row_ok i (T ! i))"

definition table_map :: "unit_table \<Rightarrow> nat \<Rightarrow> thread_ptr option" where
  "table_map T u = (if u = 0 \<or> odd u then None else find_entry u (T ! unit_get_hash_index u))"

lemma hash_bound: "unit_get_hash_index u < ABTI_UNIT_HASH_TABLE_SIZE"
proof -
  have "ABTI_UNIT_HASH_TABLE_SIZE - 1 = mask 8"
    by (simp add: ABTI_UNIT_HASH_TABLE_SIZE_def ABTI_UNIT_HASH_TABLE_SIZE_EXP_def mask_eq_exp_minus_1 push_bit_eq_mult)
  then have "unit_get_hash_index u = take_bit 8 (drop_bit 3 u + drop_bit (ABTI_UNIT_HASH_TABLE_SIZE_EXP + 3) u
        + drop_bit (ABTI_UNIT_HASH_TABLE_SIZE_EXP * 2 + 3) u)"
    by (simp add: unit_get_hash_index_def Let_def take_bit_eq_mask)
  then show ?thesis
    by (simp add: take_bit_eq_mod ABTI_UNIT_HASH_TABLE_SIZE_def ABTI_UNIT_HASH_TABLE_SIZE_EXP_def push_bit_eq_mult)
qed

lemma find_entry_dom: "find_entry u row \<noteq> None \<longleftrightarrow> u \<in> fst ` set row"
  by (induction row) auto

lemma find_entry_None: "find_entry u row = None \<longleftrightarrow> u \<notin> fst ` set row"
  using find_entry_dom by blast

lemma reuse_find:
  "reuse_entry unit t row = Some row' \<Longrightarrow> unit \<noteq> 0 \<Longrightarrow> unit \<notin> fst ` set row \<Longrightarrow>
    (\<forall>u. u \<noteq> 0 \<longrightarrow> find_entry u row' = (if u = unit then Some t else find_entry u row)) \<and>
    (\<forall>u. u \<noteq> 0 \<longrightarrow> (u \<in> fst ` set row' \<longleftrightarrow> u = unit \<or> u \<in> fst ` set row)) \<and>
    (distinct (filter (\<lambda>u. u \<noteq> 0) (map fst row)) \<longrightarrow> distinct (filter (\<lambda>u. u \<noteq> 0) (map fst row'))) \<and>
    length row' = length row"
proof (induction row arbitrary: row')
  case (Cons e row)
  obtain u0 t0 where e: "e = (u0, t0)" by (cases e)
  show ?case
  proof (cases "u0 = 0")
    case True
    then show ?thesis
      using Cons.prems e by (auto simp: image_iff)
  next
    case False
    then obtain row1 where r: "reuse_entry unit t row = Some row1" "row' = e # row1"
      using Cons.prems(1) e by auto
    have "unit \<notin> fst ` set row" "u0 \<noteq> unit"
      using Cons.prems(3) e by auto
    then show ?thesis
      using Cons.IH [OF r(1) Cons.prems(2)] r(2) e False by (auto simp: image_iff)
  qed
qed simp

lemma clear_find:
  "unit \<in> fst ` set row \<Longrightarrow> unit \<noteq> 0 \<Longrightarrow> distinct (filter (\<lambda>u. u \<noteq> 0) (map fst row)) \<Longrightarrow>
    \<exists>row'. clear_entry unit row = Some row' \<and>
    (\<forall>u. u \<noteq> 0 \<longrightarrow> find_entry u row' = (if u = unit then None else find_entry u row)) \<and>
    (\<forall>u. u \<noteq> 0 \<longrightarrow> (u \<in> fst ` set row' \<longleftrightarrow> u \<noteq> unit \<and> u \<in> fst ` set row)) \<and>
    distinct (filter (\<lambda>u. u \<noteq> 0) (map fst row')) \<and> length row' = length row"
proof (induction row)
  case (Cons e row)
  obtain u0 t0 where e: "e = (u0, t0)" by (cases e)
  show ?case
  proof (cases "u0 = unit")
    case True
    then have "unit \<notin> fst ` set row"
      using Cons.prems(2,3) e by auto
    then show ?thesis
      using True Cons.prems e find_entry_None [of unit row] by auto
  next
    case False
    then have "unit \<in> fst ` set row" "distinct (filter (\<lambda>u. u \<noteq> 0) (map fst row))"
      using Cons.prems e by (auto split: if_splits)
    then obtain row' where r: "clear_entry unit row = Some row'"
      "\<forall>u. u \<noteq> 0 \<longrightarrow> find_entry u row' = (if u = unit then None else find_entry u row)"
      "\<forall>u. u \<noteq> 0 \<longrightarrow> (u \<in> fst ` set row' \<longleftrightarrow> u \<noteq> unit \<and> u \<in> fst ` set row)"
      "distinct (filter (\<lambda>u. u \<noteq> 0) (map fst row'))" "length row' = length row"
      using Cons.IH Cons.prems(2) by blast
    have "distinct (filter (\<lambda>u. u \<noteq> 0) (map fst (e # row')))"
    proof (cases "u0 = 0")
      case ne: False
      then have "u0 \<notin> fst ` set row"
        using Cons.prems(3) e by auto
      then have "u0 \<notin> fst ` set row'"
        using r(3) ne by blast
      then show ?thesis
        using r(4) e by auto
    qed (use r(4) e in simp)
    then show ?thesis
      using r e False by (intro exI [of _ "e # row'"]) auto
  qed
qed simp

lemma units_okD:
  "units_ok T \<Longrightarrow> row_ok (unit_get_hash_index u) (T ! unit_get_hash_index u)"
  "units_ok T \<Longrightarrow> unit_get_hash_index u < length T"
  using hash_bound [of u] by (simp_all add: units_ok_def)

lemma table_map_dom: "table_map T u \<noteq> None \<longleftrightarrow> u \<noteq> 0 \<and> even u \<and> u \<in> fst ` set (T ! unit_get_hash_index u)"
  by (auto simp: table_map_def find_entry_dom [symmetric])

lemma init_ok: "units_ok unit_init_hash_table" "table_map unit_init_hash_table = Map.empty"
  using hash_bound by (auto simp: units_ok_def row_ok_def unit_init_hash_table_def table_map_def fun_eq_iff)

text \<open>Replacing one row.\<close>

lemma row_update:
  assumes "units_ok T" "row_ok i row'" "i < length T"
    and "\<forall>u. u \<noteq> 0 \<and> even u \<and> unit_get_hash_index u = i \<longrightarrow> find_entry u row' = m u"
    and "\<forall>u. unit_get_hash_index u \<noteq> i \<longrightarrow> m u = table_map T u" "\<forall>u. u = 0 \<or> odd u \<longrightarrow> m u = None"
  shows "units_ok (T[i := row'])" "table_map (T[i := row']) = m"
proof -
  show "units_ok (T[i := row'])"
    using assms(1-3) by (simp add: units_ok_def nth_list_update)
  show "table_map (T[i := row']) = m"
  proof
    fix u
    show "table_map (T[i := row']) u = m u"
      using assms(3-6) by (cases "unit_get_hash_index u = i") (auto simp: table_map_def)
  qed
qed

lemma map_thread_ok:
  assumes ok: "units_ok T" and u: "u \<noteq> 0" "even u" "table_map T u = None"
  shows "\<exists>ret T'. unit_map_thread malloc_ok u t T = Some (ret, T') \<and> units_ok T' \<and>
    (ret = ABT_SUCCESS \<and> table_map T' = (table_map T)(u \<mapsto> t) \<or> \<not> malloc_ok \<and> ret = ABT_ERR_MEM \<and> T' = T)"
proof -
  let ?i = "unit_get_hash_index u" and ?m = "(table_map T)(u \<mapsto> t)"
  let ?row = "T ! ?i"
  note row = units_okD [OF ok, of u]
  have new: "u \<notin> fst ` set ?row"
    using u table_map_dom [of T u] by blast
  have m: "\<forall>v. unit_get_hash_index v \<noteq> ?i \<longrightarrow> ?m v = table_map T v" "\<forall>v. v = 0 \<or> odd v \<longrightarrow> ?m v = None"
    using u by (auto simp: table_map_def)
  have nb: "\<not> ABTI_unit_is_builtin u"
    using u(2) by (simp add: ABTI_unit_is_builtin_def)
  have entry: "\<forall>v. v \<noteq> 0 \<and> even v \<and> unit_get_hash_index v = ?i \<longrightarrow> (if v = u then Some t else find_entry v ?row) = ?m v"
    by (auto simp: table_map_def)
  show ?thesis
  proof (cases "reuse_entry u t ?row")
    case (Some row')
    note r = reuse_find [OF Some u(1) new]
    have "row_ok ?i row'"
      using row(1) r u(2) unfolding row_ok_def by blast
    moreover have "\<forall>v. v \<noteq> 0 \<and> even v \<and> unit_get_hash_index v = ?i \<longrightarrow> find_entry v row' = ?m v"
      using entry conjunct1 [OF r] by metis
    ultimately have "units_ok (T[?i := row'])" "table_map (T[?i := row']) = ?m"
      using row_update [OF ok _ row(2) _ m, of row'] by blast+
    then show ?thesis
      using Some nb by (simp add: unit_map_thread_def Let_def)
  next
    case None
    have "row_ok ?i ((u, t) # ?row)"
      using row(1) new u by (auto simp: row_ok_def)
    moreover have "\<forall>v. v \<noteq> 0 \<and> even v \<and> unit_get_hash_index v = ?i \<longrightarrow> find_entry v ((u, t) # ?row) = ?m v"
      using entry by auto
    ultimately have "units_ok (T[?i := (u, t) # ?row])" "table_map (T[?i := (u, t) # ?row]) = ?m"
      using row_update [OF ok _ row(2) _ m, of "(u, t) # ?row"] by blast+
    then show ?thesis
      using None nb ok by (cases malloc_ok) (simp_all add: unit_map_thread_def Let_def)
  qed
qed

lemma unmap_thread_ok:
  assumes ok: "units_ok T" and u: "table_map T u \<noteq> None"
  shows "\<exists>T'. unit_unmap_thread u T = Some T' \<and> units_ok T' \<and> table_map T' = (table_map T)(u := None)"
proof -
  let ?i = "unit_get_hash_index u" and ?m = "(table_map T)(u := None)"
  let ?row = "T ! ?i"
  note row = units_okD [OF ok, of u]
  have u': "u \<noteq> 0" "even u" "u \<in> fst ` set ?row"
    using u table_map_dom [of T u] by blast+
  have d: "distinct (filter (\<lambda>u. u \<noteq> 0) (map fst ?row))"
    using row(1) by (simp add: row_ok_def)
  obtain row' where r: "clear_entry u ?row = Some row'"
    "\<forall>v. v \<noteq> 0 \<longrightarrow> find_entry v row' = (if v = u then None else find_entry v ?row)"
    "\<forall>v. v \<noteq> 0 \<longrightarrow> (v \<in> fst ` set row' \<longleftrightarrow> v \<noteq> u \<and> v \<in> fst ` set ?row)"
    "distinct (filter (\<lambda>u. u \<noteq> 0) (map fst row'))"
    using clear_find [OF u'(3,1) d] by blast
  have row': "row_ok ?i row'"
    unfolding row_ok_def
  proof (intro conjI ballI impI)
    show "distinct (filter (\<lambda>u. u \<noteq> 0) (map fst row'))"
      by (rule r(4))
    show "even v" "unit_get_hash_index v = ?i" if "v \<in> fst ` set row'" "v \<noteq> 0" for v
      using r(3) [rule_format, OF that(2)] that row(1) unfolding row_ok_def by blast+
  qed
  have entry: "\<forall>v. v \<noteq> 0 \<and> even v \<and> unit_get_hash_index v = ?i \<longrightarrow> find_entry v row' = ?m v"
  proof (intro allI impI)
    fix v
    assume v: "v \<noteq> 0 \<and> even v \<and> unit_get_hash_index v = ?i"
    then show "find_entry v row' = ?m v"
      using r(2) [rule_format, of v] by (simp add: table_map_def)
  qed
  have m: "\<forall>v. unit_get_hash_index v \<noteq> ?i \<longrightarrow> ?m v = table_map T v" "\<forall>v. v = 0 \<or> odd v \<longrightarrow> ?m v = None"
    by (auto simp: table_map_def)
  have "units_ok (T[?i := row'])" "table_map (T[?i := row']) = ?m"
    using row_update [OF ok row' row(2) entry m] .
  then show ?thesis
    using r(1) u'(2) by (simp add: unit_unmap_thread_def Let_def ABTI_unit_is_builtin_def)
qed

lemma get_thread_ok:
  "u \<noteq> 0 \<Longrightarrow> even u \<Longrightarrow> unit_get_thread_from_user_defined_unit u T = table_map T u"
  by (simp add: unit_get_thread_from_user_defined_unit_def ABTI_unit_is_builtin_def table_map_def)

text \<open>Releasing everything at the end needs every handle to be unmapped.\<close>

lemma finalize_ok:
  assumes ok: "units_ok T"
  shows "unit_finalize_hash_table T = Some () \<longleftrightarrow> table_map T = Map.empty"
proof
  assume "unit_finalize_hash_table T = Some ()"
  then have z: "\<forall>row \<in> set T. \<forall>e \<in> set row. fst e = 0"
    by (simp add: unit_finalize_hash_table_def list_all_iff case_prod_beta split: if_splits)
  show "table_map T = Map.empty"
  proof (rule ext, rule ccontr)
    fix u
    assume "table_map T u \<noteq> None"
    then have u: "u \<noteq> 0" "u \<in> fst ` set (T ! unit_get_hash_index u)"
      unfolding table_map_dom by blast+
    have "T ! unit_get_hash_index u \<in> set T"
      using units_okD(2) [OF ok] by (rule nth_mem)
    then have "\<forall>e \<in> set (T ! unit_get_hash_index u). fst e = 0"
      using z by blast
    then show False
      using u by auto
  qed
next
  assume e: "table_map T = Map.empty"
  have "fst x = 0" if row: "row \<in> set T" "x \<in> set row" for row x
  proof (rule ccontr)
    assume ne: "fst x \<noteq> 0"
    obtain i where i: "i < length T" "T ! i = row"
      using row(1) by (auto simp: in_set_conv_nth)
    have x: "fst x \<in> fst ` set row"
      using row(2) by (rule imageI)
    have "row_ok i row"
      using ok i unfolding units_ok_def by blast
    then have "even (fst x)" "unit_get_hash_index (fst x) = i"
      using x ne unfolding row_ok_def by blast+
    then have "table_map T (fst x) \<noteq> None"
      unfolding table_map_dom using i x ne by simp
    then show False
      using e by simp
  qed
  then show "unit_finalize_hash_table T = Some ()"
    by (simp add: unit_finalize_hash_table_def list_all_iff case_prod_beta)
qed

section \<open>Associations stay consistent\<close>

text \<open>
  A work unit in a built-in pool has its built-in unit. One in a user-defined pool has a unit of
  that pool, which the table maps back to it, and the table maps nothing else.
\<close>

definition assoc_ok :: "(nat \<Rightarrow> bool) \<Rightarrow> associations \<Rightarrow> bool" where
  "assoc_ok is_builtin a \<longleftrightarrow> units_ok (as_table a) \<and>
     (\<forall>t p. as_pool a t = Some p \<longrightarrow> even t \<and>
        (if is_builtin p then as_unit a t = t + 1 else table_map (as_table a) (as_unit a t) = Some t)) \<and>
     (\<forall>u t. table_map (as_table a) u = Some t \<longrightarrow>
        as_unit a t = u \<and> (\<exists>p. as_pool a t = Some p \<and> \<not> is_builtin p))"

lemma assoc_okD:
  assumes "assoc_ok is_builtin a"
  shows "units_ok (as_table a)"
    and "as_pool a t = Some p \<Longrightarrow> even t"
    and "as_pool a t = Some p \<Longrightarrow> is_builtin p \<Longrightarrow> as_unit a t = t + 1"
    and "as_pool a t = Some p \<Longrightarrow> \<not> is_builtin p \<Longrightarrow> table_map (as_table a) (as_unit a t) = Some t"
    and "table_map (as_table a) u = Some t \<Longrightarrow> as_unit a t = u"
    and "table_map (as_table a) u = Some t \<Longrightarrow> \<exists>p. as_pool a t = Some p \<and> \<not> is_builtin p"
  using assms unfolding assoc_ok_def by metis+

text \<open>The two building blocks, and the state with the unit set.\<close>

lemma new_user_unit_ok:
  assumes ok: "units_ok (as_table a)" and u: "even new_unit" "table_map (as_table a) new_unit = None"
  shows "\<exists>ret a'. new_user_unit malloc_ok new_unit p t a = Some (ret, a') \<and> units_ok (as_table a') \<and>
    as_unit a' = as_unit a \<and> as_pool a' = as_pool a \<and>
    (if ret = ABT_SUCCESS then new_unit \<noteq> 0 \<and> table_map (as_table a') = (table_map (as_table a))(new_unit \<mapsto> t) \<and>
       as_calls a' = as_calls a @ [CreateUnit p t new_unit]
     else as_table a' = as_table a \<and> as_calls a' = as_calls a @ [CreateUnit p t new_unit] @
       (if new_unit = 0 then [] else [FreeUnit p new_unit]))"
proof (cases "new_unit = 0")
  case True
  then show ?thesis
    using ok by (simp add: new_user_unit_def Let_def pool_call_def)
next
  case False
  obtain ret T where T: "unit_map_thread malloc_ok new_unit t (as_table a) = Some (ret, T)" "units_ok T"
    "ret = ABT_SUCCESS \<and> table_map T = (table_map (as_table a))(new_unit \<mapsto> t) \<or>
      \<not> malloc_ok \<and> ret = ABT_ERR_MEM \<and> T = as_table a"
    using map_thread_ok [OF ok False u, of malloc_ok t] by blast
  show ?thesis
    using T(3)
  proof
    assume "ret = ABT_SUCCESS \<and> table_map T = (table_map (as_table a))(new_unit \<mapsto> t)"
    then show ?thesis
      using T(1,2) False by (simp add: new_user_unit_def Let_def pool_call_def)
  next
    assume "\<not> malloc_ok \<and> ret = ABT_ERR_MEM \<and> T = as_table a"
    then show ?thesis
      using T(1) False ok by (simp add: new_user_unit_def Let_def pool_call_def)
  qed
qed

lemma drop_user_unit_ok:
  assumes ok: "units_ok (as_table a)" and u: "table_map (as_table a) u \<noteq> None" and p: "as_pool a t = Some q"
  shows "\<exists>a'. drop_user_unit u t a = Some a' \<and> units_ok (as_table a') \<and> as_unit a' = as_unit a \<and>
    as_pool a' = as_pool a \<and> table_map (as_table a') = (table_map (as_table a))(u := None) \<and>
    as_calls a' = as_calls a @ [FreeUnit q u]"
  using unmap_thread_ok [OF ok u] p by (auto simp: drop_user_unit_def pool_call_def)

lemma set_unit_ok:
  assumes ok: "units_ok (as_table b)" and a: "assoc_ok is_builtin a" and t: "even t"
    and same: "as_unit b = as_unit a" "as_pool b = as_pool a"
    and new: "if is_builtin p then v = t + 1 \<and> table_map (as_table b) = m
      else table_map (as_table b) = m(v \<mapsto> t) \<and> m v = None"
    and m: "\<forall>u. m u = (if table_map (as_table a) u = Some t then None else table_map (as_table a) u)"
  shows "assoc_ok is_builtin (set_unit t v (Some p) b)"
proof -
  note A = assoc_okD [OF a]
  let ?b = "set_unit t v (Some p) b"
  have b: "as_unit ?b = (as_unit a)(t := v)" "as_pool ?b = (as_pool a)(t := Some p)" "as_table ?b = as_table b"
    using same by (simp_all add: set_unit_def)
  have "even s \<and> (if is_builtin q then as_unit ?b s = s + 1 else table_map (as_table b) (as_unit ?b s) = Some s)"
    if s: "as_pool ?b s = Some q" for s q
  proof (cases "s = t")
    case True
    then show ?thesis
      using s t new unfolding b by (auto split: if_splits)
  next
    case False
    then have sq: "as_pool a s = Some q"
      using s b(2) by simp
    show ?thesis
    proof (cases "is_builtin q")
      case True
      then show ?thesis
        using A(2,3) [OF sq] False b(1) by simp
    next
      case nb: False
      have "table_map (as_table a) (as_unit a s) = Some s"
        using A(4) [OF sq nb] .
      then have "m (as_unit a s) = Some s"
        using m False by simp
      moreover have "is_builtin p \<or> as_unit a s \<noteq> v"
        using new calculation by (auto split: if_splits)
      ultimately show ?thesis
        using A(2) [OF sq] nb False b(1) new by (auto split: if_splits)
    qed
  qed
  moreover have "as_unit ?b s = u \<and> (\<exists>q. as_pool ?b s = Some q \<and> \<not> is_builtin q)"
    if u: "table_map (as_table b) u = Some s" for u s
  proof (cases "\<not> is_builtin p \<and> u = v")
    case True
    then show ?thesis
      using u new unfolding b by auto
  next
    case False
    then have "m u = Some s"
      using u new by (auto split: if_splits)
    then have "table_map (as_table a) u = Some s" "s \<noteq> t"
      using m by (metis option.distinct(1))+
    then show ?thesis
      using A(5,6) unfolding b by (metis fun_upd_other)
  qed
  ultimately show ?thesis
    using ok unfolding assoc_ok_def b(3) by blast
qed

lemma assoc_unit_kind:
  assumes "assoc_ok is_builtin a" "as_pool a t = Some p"
  shows "ABTI_unit_is_builtin (as_unit a t) = is_builtin p"
proof (cases "is_builtin p")
  case True
  then show ?thesis
    using assoc_okD(2,3) [OF assms] by (simp add: ABTI_unit_is_builtin_def)
next
  case False
  then show ?thesis
    using assoc_okD(4) [OF assms] table_map_dom [of "as_table a" "as_unit a t"]
    by (simp add: ABTI_unit_is_builtin_def)
qed

text \<open>Work units of a user-defined pool are exactly those in the range of the table.\<close>

lemma assoc_map_of:
  assumes "assoc_ok is_builtin a" "as_pool a t = Some p"
  shows "table_map (as_table a) u = Some t \<longleftrightarrow> \<not> is_builtin p \<and> u = as_unit a t"
  using assoc_okD [OF assms(1)] assms(2) by (metis option.inject)

lemma keep_map:
  assumes "assoc_ok is_builtin a" "as_pool a t = Some p"
  shows "((table_map (as_table a))(as_unit a t := None)) u
    = (if table_map (as_table a) u = Some t then None else table_map (as_table a) u)"
proof (cases "is_builtin p")
  case True
  then have "odd (as_unit a t)"
    using assoc_okD(2,3) [OF assms] by simp
  then show ?thesis
    using assoc_map_of [OF assms] True by (auto simp: table_map_def)
next
  case False
  then show ?thesis
    using assoc_map_of [OF assms] by auto
qed

text \<open>Changing the pool of a work unit: done, or nothing but a unit created and freed again.\<close>

definition changed :: "abt_errno \<Rightarrow> thread_ptr \<Rightarrow> nat \<Rightarrow> associations \<Rightarrow> associations \<Rightarrow> bool" where
  "changed ret t p a a' \<longleftrightarrow>
     (if ret = ABT_SUCCESS then as_pool a' = (as_pool a)(t := Some p) \<and>
        (\<forall>s. s \<noteq> t \<longrightarrow> as_unit a' s = as_unit a s)
      else as_pool a' = as_pool a \<and> as_unit a' = as_unit a \<and> as_table a' = as_table a)"

lemma assoc_ok_same:
  "assoc_ok is_builtin a \<Longrightarrow> as_table a' = as_table a \<Longrightarrow> as_unit a' = as_unit a \<Longrightarrow> as_pool a' = as_pool a \<Longrightarrow>
    assoc_ok is_builtin a'"
  by (simp add: assoc_ok_def)

lemma set_associated_pool_ok:
  assumes ok: "assoc_ok is_builtin a" and t: "as_pool a t = Some q"
    and new: "even new_unit" "table_map (as_table a) new_unit = None"
  shows "\<exists>ret a'. ABTI_thread_set_associated_pool is_builtin malloc_ok new_unit t p a = Some (ret, a') \<and>
    assoc_ok is_builtin a' \<and> changed ret t p a a'"
proof -
  let ?u = "as_unit a t" and ?f = "ABTI_thread_set_associated_pool is_builtin malloc_ok new_unit t p a"
  let ?m = "(table_map (as_table a))(?u := None)"
  note A = assoc_okD [OF ok]
  have kind: "ABTI_unit_is_builtin ?u = is_builtin q"
    by (rule assoc_unit_kind [OF ok t])
  have even: "even t"
    using A(2) [OF t] .
  have m: "\<forall>u. ?m u = (if table_map (as_table a) u = Some t then None else table_map (as_table a) u)"
    using keep_map [OF ok t] by blast
  have kept: "table_map (as_table a) = ?m" if "is_builtin q"
    using assoc_map_of [OF ok t] that m by (simp add: fun_eq_iff)
  have mnew: "?m new_unit = None"
    using new(2) by simp
  obtain ret a1 where a1: "new_user_unit malloc_ok new_unit p t a = Some (ret, a1)" "units_ok (as_table a1)"
    "as_unit a1 = as_unit a" "as_pool a1 = as_pool a"
    "if ret = ABT_SUCCESS then new_unit \<noteq> 0 \<and> table_map (as_table a1) = (table_map (as_table a))(new_unit \<mapsto> t) \<and>
       as_calls a1 = as_calls a @ [CreateUnit p t new_unit]
     else as_table a1 = as_table a \<and> as_calls a1 = as_calls a @ [CreateUnit p t new_unit] @
       (if new_unit = 0 then [] else [FreeUnit p new_unit])"
    using new_user_unit_ok [OF A(1) new, of malloc_ok p t] by blast
  have failed: "assoc_ok is_builtin a1 \<and> changed ret t p a a1" if "ret \<noteq> ABT_SUCCESS"
    using assoc_ok_same [OF ok, of a1] a1(3-5) that by (simp add: changed_def)
  consider (bb) "is_builtin q" "is_builtin p" | (bu) "is_builtin q" "\<not> is_builtin p"
    | (ub) "\<not> is_builtin q" "is_builtin p" | (same) "\<not> is_builtin q" "\<not> is_builtin p" "q = p"
    | (uu) "\<not> is_builtin q" "\<not> is_builtin p" "q \<noteq> p"
    by blast
  then show ?thesis
  proof cases
    case bb
    have "assoc_ok is_builtin (set_unit t ?u (Some p) a)"
      by (rule set_unit_ok [OF A(1) ok even refl refl _ m]) (use bb A(3) [OF t] kept in simp)
    then show ?thesis
      using bb kind by (simp add: ABTI_thread_set_associated_pool_def Let_def changed_def set_unit_def)
  next
    case bu
    show ?thesis
    proof (cases "ret = ABT_SUCCESS")
      case True
      have "assoc_ok is_builtin (set_unit t new_unit (Some p) a1)"
        by (rule set_unit_ok [OF a1(2) ok even a1(3,4) _ m]) (use bu a1(5) True kept [OF bu(1)] mnew in simp)
      then show ?thesis
        using bu kind a1(1,3,4) True
        by (simp add: ABTI_thread_set_associated_pool_def Let_def changed_def set_unit_def)
    next
      case False
      then show ?thesis
        using failed bu kind a1(1) by (simp add: ABTI_thread_set_associated_pool_def Let_def)
    qed
  next
    case ub
    have "table_map (as_table a) ?u \<noteq> None"
      using A(4) [OF t ub(1)] by simp
    then obtain a2 where a2: "drop_user_unit ?u t a = Some a2" "units_ok (as_table a2)" "as_unit a2 = as_unit a"
      "as_pool a2 = as_pool a" "table_map (as_table a2) = ?m"
      using drop_user_unit_ok [OF A(1) _ t] by blast
    have "assoc_ok is_builtin (set_unit t (t + 1) (Some p) a2)"
      by (rule set_unit_ok [OF a2(2) ok even a2(3,4) _ m]) (use ub a2(5) in simp)
    then show ?thesis
      using ub kind a2(1,3,4) even
      by (simp add: ABTI_thread_set_associated_pool_def Let_def changed_def set_unit_def
          ABTI_unit_init_builtin_def ABTI_unit_get_builtin_unit_def)
  next
    case same
    then show ?thesis
      using kind t ok by (auto simp: ABTI_thread_set_associated_pool_def Let_def changed_def)
  next
    case uu
    show ?thesis
    proof (cases "ret = ABT_SUCCESS")
      case True
      have u: "table_map (as_table a) ?u = Some t"
        using A(4) [OF t uu(1)] .
      then have ne: "new_unit \<noteq> ?u"
        using new(2) by auto
      have m1: "table_map (as_table a1) = (table_map (as_table a))(new_unit \<mapsto> t)"
        using a1(5) True by simp
      then have "table_map (as_table a1) ?u \<noteq> None" "as_pool a1 t = Some q"
        using u ne t a1(4) by simp_all
      then obtain a2 where a2: "drop_user_unit ?u t a1 = Some a2" "units_ok (as_table a2)" "as_unit a2 = as_unit a1"
        "as_pool a2 = as_pool a1" "table_map (as_table a2) = (table_map (as_table a1))(?u := None)"
        using drop_user_unit_ok [OF a1(2)] by blast
      have "table_map (as_table a2) = ?m(new_unit \<mapsto> t)"
        unfolding a2(5) m1 using ne by (simp add: fun_upd_twist)
      then have "assoc_ok is_builtin (set_unit t new_unit (Some p) a2)"
        by (intro set_unit_ok [OF a2(2) ok even _ _ _ m]) (use uu a1(3,4) a2(3,4) mnew in simp_all)
      then show ?thesis
        using uu kind a1(1,3,4) a2(1,3,4) True t
        by (simp add: ABTI_thread_set_associated_pool_def Let_def changed_def set_unit_def)
    next
      case False
      then show ?thesis
        using failed uu kind a1(1) t by (simp add: ABTI_thread_set_associated_pool_def Let_def)
    qed
  qed
qed

text \<open>The function that starts from the unit does the same.\<close>

lemma unit_set_eq_thread_set:
  assumes ok: "assoc_ok is_builtin a" and t: "as_pool a t = Some q"
  shows "ABTI_unit_set_associated_pool is_builtin malloc_ok new_unit (as_unit a t) p a =
    map_option (\<lambda>(ret, a'). (ret, if ret = ABT_SUCCESS then Some t else None, a'))
      (ABTI_thread_set_associated_pool is_builtin malloc_ok new_unit t p a)"
proof (cases "is_builtin q")
  case True
  have u: "as_unit a t = t + 1" "even t"
    using assoc_okD(2,3) [OF ok t] True by simp_all
  have "a\<lparr>as_pool := (as_pool a)(t := Some p)\<rparr> = set_unit t (t + 1) (Some p) a"
    using u(1) by (cases a) (auto simp: set_unit_def fun_eq_iff)
  then show ?thesis
    using u by (cases "new_user_unit malloc_ok new_unit p t a")
      (auto simp: ABTI_unit_set_associated_pool_def ABTI_thread_set_associated_pool_def Let_def ABTI_unit_is_builtin_def)
next
  case False
  have u: "table_map (as_table a) (as_unit a t) = Some t"
    using assoc_okD(4) [OF ok t False] .
  then have e: "as_unit a t \<noteq> 0" "even (as_unit a t)"
    using table_map_dom [of "as_table a" "as_unit a t"] by simp_all
  show ?thesis
    using u e get_thread_ok [OF e, of "as_table a"]
    by (cases "new_user_unit malloc_ok new_unit p t a"; cases "drop_user_unit (as_unit a t) t a")
      (auto simp: ABTI_unit_set_associated_pool_def ABTI_thread_set_associated_pool_def Let_def ABTI_unit_is_builtin_def
        option.map_comp comp_def split: option.split)
qed

lemma init_pool_ok:
  assumes ok: "assoc_ok is_builtin a" and t: "as_pool a t = None" "even t"
    and new: "even new_unit" "table_map (as_table a) new_unit = None"
  shows "\<exists>ret a'. ABTI_thread_init_pool is_builtin malloc_ok new_unit t p a = Some (ret, a') \<and>
    assoc_ok is_builtin a' \<and> changed ret t p a a'"
proof -
  note A = assoc_okD [OF ok]
  have m: "\<forall>u. table_map (as_table a) u = (if table_map (as_table a) u = Some t then None else table_map (as_table a) u)"
    using A(6) t(1) by (metis option.distinct(1))
  show ?thesis
  proof (cases "is_builtin p")
    case True
    have "assoc_ok is_builtin (set_unit t (t + 1) (Some p) a)"
      by (rule set_unit_ok [OF A(1) ok t(2) refl refl _ m]) (use True in simp)
    then show ?thesis
      using True t by (simp add: ABTI_thread_init_pool_def ABTI_unit_init_builtin_def ABTI_unit_get_builtin_unit_def
        changed_def set_unit_def)
  next
    case False
    obtain ret a1 where a1: "new_user_unit malloc_ok new_unit p t a = Some (ret, a1)" "units_ok (as_table a1)"
      "as_unit a1 = as_unit a" "as_pool a1 = as_pool a"
      "if ret = ABT_SUCCESS then new_unit \<noteq> 0 \<and> table_map (as_table a1) = (table_map (as_table a))(new_unit \<mapsto> t) \<and>
         as_calls a1 = as_calls a @ [CreateUnit p t new_unit]
       else as_table a1 = as_table a \<and> as_calls a1 = as_calls a @ [CreateUnit p t new_unit] @
         (if new_unit = 0 then [] else [FreeUnit p new_unit])"
      using new_user_unit_ok [OF A(1) new, of malloc_ok p t] by blast
    show ?thesis
    proof (cases "ret = ABT_SUCCESS")
      case True
      have "assoc_ok is_builtin (set_unit t new_unit (Some p) a1)"
        by (rule set_unit_ok [OF a1(2) ok t(2) a1(3,4) _ m]) (use False a1(5) True new in simp)
      then show ?thesis
        using False True a1 by (simp add: ABTI_thread_init_pool_def changed_def set_unit_def)
    next
      case err: False
      then show ?thesis
        using False a1 assoc_ok_same [OF ok, of a1] by (simp add: ABTI_thread_init_pool_def changed_def)
    qed
  qed
qed

lemma unset_ok:
  assumes ok: "assoc_ok is_builtin a" and t: "as_pool a t = Some q"
  shows "\<exists>a'. ABTI_thread_unset_associated_pool t a = Some a' \<and> assoc_ok is_builtin a' \<and> as_pool a' t = None \<and>
    (\<forall>u. table_map (as_table a') u \<noteq> Some t)"
proof -
  let ?u = "as_unit a t"
  let ?m = "(table_map (as_table a))(?u := None)"
  note A = assoc_okD [OF ok]
  have kind: "ABTI_unit_is_builtin ?u = is_builtin q"
    by (rule assoc_unit_kind [OF ok t])
  have m: "?m u = (if table_map (as_table a) u = Some t then None else table_map (as_table a) u)" for u
    by (rule keep_map [OF ok t])
  obtain a1 where a1: "(if \<not> ABTI_unit_is_builtin ?u then drop_user_unit ?u t a else Some a) = Some a1"
    "units_ok (as_table a1)" "as_unit a1 = as_unit a" "as_pool a1 = as_pool a" "table_map (as_table a1) = ?m"
  proof (cases "is_builtin q")
    case True
    then have "table_map (as_table a) = ?m"
      using assoc_map_of [OF ok t] m by (auto simp: fun_eq_iff split: if_splits)
    then show ?thesis
      using that [of a] True kind A(1) by simp
  next
    case False
    have "table_map (as_table a) ?u \<noteq> None"
      using A(4) [OF t False] by simp
    then show ?thesis
      using that drop_user_unit_ok [OF A(1) _ t, of ?u] False kind by auto
  qed
  let ?a = "set_unit t 0 None a1"
  have none: "?m u \<noteq> Some t" for u
    unfolding m by simp
  have "assoc_ok is_builtin ?a"
    unfolding assoc_ok_def
  proof (intro conjI allI impI)
    show "units_ok (as_table ?a)"
      using a1(2) by (simp add: set_unit_def)
  next
    fix s p
    assume "as_pool ?a s = Some p"
    then have s: "s \<noteq> t" "as_pool a s = Some p"
      using a1(4) by (auto simp: set_unit_def split: if_splits)
    show "even s"
      using A(2) [OF s(2)] .
    show "if is_builtin p then as_unit ?a s = s + 1 else table_map (as_table ?a) (as_unit ?a s) = Some s"
      using A(3,4) [OF s(2)] s(1) a1(3,5) m [of "as_unit a s"] by (auto simp: set_unit_def)
  next
    fix u s
    assume "table_map (as_table ?a) u = Some s"
    then have "?m u = Some s"
      using a1(5) by (simp add: set_unit_def)
    then have s: "table_map (as_table a) u = Some s" "s \<noteq> t"
      using none [of u] by (auto split: if_splits)
    show "as_unit ?a s = u" "\<exists>p. as_pool ?a s = Some p \<and> \<not> is_builtin p"
      using A(5,6) [OF s(1)] s(2) a1(3,4) by (auto simp: set_unit_def)
  qed
  then show ?thesis
    using a1(1) none a1(5) by (simp add: ABTI_thread_unset_associated_pool_def Let_def set_unit_def)
qed

text \<open>From a unit to its work unit.\<close>

lemma assoc_get_thread:
  assumes ok: "assoc_ok is_builtin a" and t: "as_pool a t = Some p"
  shows "ABTI_unit_get_thread (as_unit a t) (as_table a) = Some t"
proof (cases "is_builtin p")
  case True
  then show ?thesis
    using assoc_okD(2,3) [OF ok t]
    by (simp add: ABTI_unit_get_thread_def ABTI_unit_is_builtin_def ABTI_unit_get_thread_from_builtin_unit_def)
next
  case False
  have m: "table_map (as_table a) (as_unit a t) = Some t"
    by (rule assoc_okD(4) [OF ok t False])
  then have e: "as_unit a t \<noteq> 0" "even (as_unit a t)"
    using table_map_dom [of "as_table a" "as_unit a t"] by simp_all
  show ?thesis
    using get_thread_ok [OF e, of "as_table a"] m e(2)
    by (simp add: ABTI_unit_get_thread_def ABTI_unit_is_builtin_def)
qed

end
