(* ===== verification/Ythread.thy ===== *)
theory Ythread
  imports UnitMap
begin

text \<open>
  The life of a work unit (\<^verbatim>\<open>argobots_framework/src/include/abti_ythread.h\<close>, \<^verbatim>\<open>abti_thread.h\<close>,
  \<^verbatim>\<open>ythread.c\<close>, and the internal functions of \<^verbatim>\<open>thread.c\<close>): what yielding, suspending, resuming,
  joining, cancelling, migrating and exiting do to the descriptors, to the pools they are pushed
  to and to the counters of blocked ULTs.

  The state holds a map of descriptors, so an access to a freed one has no result; \<open>None\<close> also is
  a failed assertion. A context switch is the store of \<^verbatim>\<open>p_thread\<close> of the execution stream; the
  callback it passes runs right after it, on the stack of the new context. Contexts, stacks and
  tool events are left out. What the C library, the key table and the user's pool functions
  return is the argument \<open>E\<close>.
\<close>

section \<open>State\<close>

datatype thread_type =
  ABTI_THREAD_TYPE_THREAD | ABTI_THREAD_TYPE_ROOT | ABTI_THREAD_TYPE_PRIMARY
| ABTI_THREAD_TYPE_MAIN_SCHED | ABTI_THREAD_TYPE_YIELDABLE | ABTI_THREAD_TYPE_NAMED
| ABTI_THREAD_TYPE_MIGRATABLE

datatype thread_state =
  ABT_THREAD_STATE_READY | ABT_THREAD_STATE_RUNNING | ABT_THREAD_STATE_BLOCKED
| ABT_THREAD_STATE_TERMINATED

datatype thread_req = ABTI_THREAD_REQ_JOIN | ABTI_THREAD_REQ_CANCEL | ABTI_THREAD_REQ_MIGRATE

text \<open>
  Who waits for the end of a ULT: another ULT, or a thread that sleeps on a futex, for which
  \<^verbatim>\<open>p_link\<close> points to a dummy of type \<^verbatim>\<open>ABTI_THREAD_TYPE_EXT\<close> with the futex as its argument.
\<close>

datatype joiner = Joiner thread_ptr | Joiner_ext nat

record mig_data =
  md_pool :: "nat option"
  md_cb :: "nat option"

text \<open>
  \<open>wu_mig\<close> is the value of \<^verbatim>\<open>g_thread_mig_data_key\<close> in the work unit's key table, \<open>wu_link\<close> the
  \<^verbatim>\<open>p_link\<close> of its context. Bit masks are sets of their bits.
\<close>

record work_unit =
  wu_type :: "thread_type set"
  wu_state :: thread_state
  wu_request :: "thread_req set"
  wu_parent :: "thread_ptr option"
  wu_last_xstream :: "nat option"
  wu_link :: "joiner option"
  wu_mig :: "mig_data option"
  wu_func :: nat
  wu_arg :: nat

record runtime =
  rt_unit :: "thread_ptr \<Rightarrow> work_unit option"
  rt_assoc :: associations
  rt_queue :: "nat \<Rightarrow> nat list"
  rt_blocked :: "nat \<Rightarrow> int"
  rt_thread :: "nat \<Rightarrow> thread_ptr"
  rt_locks :: "nat set"
  rt_replace :: "nat set"
  rt_woken :: "nat list"
  rt_callbacks :: "(thread_ptr \<times> nat) list"

record env =
  en_builtin :: "nat \<Rightarrow> bool"
  en_malloc_ok :: bool
  en_new_unit :: nat
  en_mig_data :: abt_errno

definition upd :: "thread_ptr \<Rightarrow> (work_unit \<Rightarrow> work_unit) \<Rightarrow> runtime \<Rightarrow> runtime option" where
  "upd t f w = map_option (\<lambda>u. w\<lparr>rt_unit := (rt_unit w)(t \<mapsto> f u)\<rparr>) (rt_unit w t)"

abbreviation pool_of :: "runtime \<Rightarrow> thread_ptr \<Rightarrow> nat option" where
  "pool_of w \<equiv> as_pool (rt_assoc w)"

abbreviation unit_of :: "runtime \<Rightarrow> thread_ptr \<Rightarrow> nat" where
  "unit_of w \<equiv> as_unit (rt_assoc w)"

definition set_state :: "thread_state \<Rightarrow> thread_ptr \<Rightarrow> runtime \<Rightarrow> runtime option" where
  "set_state st t = upd t (wu_state_update (\<lambda>_. st))"

text \<open>\<^verbatim>\<open>p_local_xstream->p_thread = p_new\<close>\<close>

definition set_thread :: "nat \<Rightarrow> thread_ptr \<Rightarrow> runtime \<Rightarrow> runtime" where
  "set_thread x t w = w\<lparr>rt_thread := (rt_thread w)(x := t)\<rparr>"

section \<open>Pools\<close>

definition ABTI_pool_inc_num_blocked :: "nat \<Rightarrow> runtime \<Rightarrow> runtime" where
  "ABTI_pool_inc_num_blocked p w = w\<lparr>rt_blocked := (rt_blocked w)(p := rt_blocked w p + 1)\<rparr>"

definition ABTI_pool_dec_num_blocked :: "nat \<Rightarrow> runtime \<Rightarrow> runtime" where
  "ABTI_pool_dec_num_blocked p w = w\<lparr>rt_blocked := (rt_blocked w)(p := rt_blocked w p - 1)\<rparr>"

definition ABTI_pool_push :: "nat \<Rightarrow> nat \<Rightarrow> runtime \<Rightarrow> runtime" where
  "ABTI_pool_push p unit w = w\<lparr>rt_queue := (rt_queue w)(p := rt_queue w p @ [unit])\<rparr>"

definition ABTI_pool_remove :: "nat \<Rightarrow> nat \<Rightarrow> runtime \<Rightarrow> runtime" where
  "ABTI_pool_remove p unit w = w\<lparr>rt_queue := (rt_queue w)(p := removeAll unit (rt_queue w p))\<rparr>"

definition ABTI_pool_add_thread :: "thread_ptr \<Rightarrow> runtime \<Rightarrow> runtime option" where
  "ABTI_pool_add_thread t w = do {
     w1 \<leftarrow> set_state ABT_THREAD_STATE_READY t w;
     p \<leftarrow> pool_of w1 t;
     Some (ABTI_pool_push p (unit_of w1 t) w1)
   }"

section \<open>Requests\<close>

definition ABTI_thread_set_request :: "thread_req \<Rightarrow> thread_ptr \<Rightarrow> runtime \<Rightarrow> runtime option" where
  "ABTI_thread_set_request req t = upd t (\<lambda>u. u\<lparr>wu_request := insert req (wu_request u)\<rparr>)"

definition ABTI_thread_unset_request :: "thread_req \<Rightarrow> thread_ptr \<Rightarrow> runtime \<Rightarrow> runtime option" where
  "ABTI_thread_unset_request req t = upd t (\<lambda>u. u\<lparr>wu_request := wu_request u - {req}\<rparr>)"

text \<open>Freeing the key table frees the migration data.\<close>

definition thread_free :: "bool \<Rightarrow> thread_ptr \<Rightarrow> runtime \<Rightarrow> runtime option" where
  "thread_free free_unit t w = do {
     _ \<leftarrow> rt_unit w t;
     a \<leftarrow> (if free_unit then ABTI_thread_unset_associated_pool t (rt_assoc w) else Some (rt_assoc w));
     Some (w\<lparr>rt_assoc := a, rt_unit := (rt_unit w)(t := None)\<rparr>)
   }"

definition ABTI_thread_terminate :: "thread_ptr \<Rightarrow> runtime \<Rightarrow> runtime option" where
  "ABTI_thread_terminate t w = do {
     u \<leftarrow> rt_unit w t;
     w1 \<leftarrow> set_state ABT_THREAD_STATE_TERMINATED t w;
     (if ABTI_THREAD_TYPE_NAMED \<notin> wu_type u then thread_free True t w1 else Some w1)
   }"

definition ABTI_ythread_resume_and_push :: "thread_ptr \<Rightarrow> runtime \<Rightarrow> runtime option" where
  "ABTI_ythread_resume_and_push t w = do {
     u \<leftarrow> rt_unit w t;
     (if wu_state u \<noteq> ABT_THREAD_STATE_BLOCKED then None
      else do {
        p \<leftarrow> pool_of w t;
        w1 \<leftarrow> ABTI_pool_add_thread t w;
        Some (ABTI_pool_dec_num_blocked p w1)
      })
   }"

text \<open>
  A joiner that has set its request but not its link yet is waited for; between two steps of
  this model there is none, so the waiting loop is the result \<open>None\<close>.
\<close>

definition ABTI_ythread_atomic_get_joiner :: "thread_ptr \<Rightarrow> runtime \<Rightarrow> (joiner option \<times> runtime) option" where
  "ABTI_ythread_atomic_get_joiner t w = do {
     u \<leftarrow> rt_unit w t;
     (case wu_link u of
        Some j \<Rightarrow> Some (Some j, w)
      | None \<Rightarrow> do {
          w1 \<leftarrow> ABTI_thread_set_request ABTI_THREAD_REQ_JOIN t w;
          (if ABTI_THREAD_REQ_JOIN \<notin> wu_request u then Some (None, w1) else None)
        })
   }"

definition ABTD_futex_resume :: "nat \<Rightarrow> runtime \<Rightarrow> runtime" where
  "ABTD_futex_resume f w = w\<lparr>rt_woken := rt_woken w @ [f]\<rparr>"

definition ABTI_ythread_resume_joiner :: "thread_ptr \<Rightarrow> runtime \<Rightarrow> runtime option" where
  "ABTI_ythread_resume_joiner t w = do {
     (j, w1) \<leftarrow> ABTI_ythread_atomic_get_joiner t w;
     (case j of
        None \<Rightarrow> Some w1
      | Some (Joiner_ext f) \<Rightarrow> Some (ABTD_futex_resume f w1)
      | Some (Joiner jt) \<Rightarrow> ABTI_ythread_resume_and_push jt w1)
   }"

definition ABTI_thread_handle_request_cancel :: "thread_ptr \<Rightarrow> runtime \<Rightarrow> runtime option" where
  "ABTI_thread_handle_request_cancel t w = do {
     u \<leftarrow> rt_unit w t;
     w1 \<leftarrow> (if ABTI_THREAD_TYPE_YIELDABLE \<in> wu_type u then ABTI_ythread_resume_joiner t w else Some w);
     ABTI_thread_terminate t w1
   }"

text \<open>The migration data, allocated if there are none; \<open>en_mig_data\<close> is what allocating returns.\<close>

definition ABTI_thread_get_mig_data ::
    "env \<Rightarrow> thread_ptr \<Rightarrow> runtime \<Rightarrow> ((abt_errno + mig_data) \<times> runtime) option" where
  "ABTI_thread_get_mig_data E t w = do {
     u \<leftarrow> rt_unit w t;
     (case wu_mig u of
        Some m \<Rightarrow> Some (Inr m, w)
      | None \<Rightarrow>
          if en_mig_data E \<noteq> ABT_SUCCESS then Some (Inl (en_mig_data E), w)
          else map_option (Pair (Inr \<lparr>md_pool = None, md_cb = None\<rparr>))
                 (upd t (\<lambda>u. u\<lparr>wu_mig := Some \<lparr>md_pool = None, md_cb = None\<rparr>\<rparr>) w))
   }"

definition set_associated_pool ::
    "env \<Rightarrow> thread_ptr \<Rightarrow> nat \<Rightarrow> runtime \<Rightarrow> (abt_errno \<times> runtime) option" where
  "set_associated_pool E t p w =
     map_option (\<lambda>(ret, a). (ret, w\<lparr>rt_assoc := a\<rparr>))
       (ABTI_thread_set_associated_pool (en_builtin E) (en_malloc_ok E) (en_new_unit E) t p (rt_assoc w))"

definition ABTI_thread_handle_request_migrate ::
    "env \<Rightarrow> thread_ptr \<Rightarrow> runtime \<Rightarrow> (abt_errno \<times> runtime) option" where
  "ABTI_thread_handle_request_migrate E t w = do {
     (r, w1) \<leftarrow> ABTI_thread_get_mig_data E t w;
     (case r of
        Inl err \<Rightarrow> Some (err, w1)
      | Inr m \<Rightarrow> do {
          p \<leftarrow> md_pool m;
          (ret, w2) \<leftarrow> set_associated_pool E t p w1;
          (if ret \<noteq> ABT_SUCCESS then Some (ret, w2)
           else
             let w3 = (case md_cb m of None \<Rightarrow> w2 | Some f \<Rightarrow> w2\<lparr>rt_callbacks := rt_callbacks w2 @ [(t, f)]\<rparr>) in
             map_option (Pair ABT_SUCCESS) (ABTI_thread_unset_request ABTI_THREAD_REQ_MIGRATE t w3))
        })
   }"

datatype handled =
  ABTI_THREAD_HANDLE_REQUEST_NONE | ABTI_THREAD_HANDLE_REQUEST_CANCELLED
| ABTI_THREAD_HANDLE_REQUEST_MIGRATED

definition ABTI_thread_handle_request ::
    "env \<Rightarrow> thread_ptr \<Rightarrow> bool \<Rightarrow> runtime \<Rightarrow> (handled \<times> runtime) option" where
  "ABTI_thread_handle_request E t allow_termination w = do {
     u \<leftarrow> rt_unit w t;
     (if allow_termination \<and> ABTI_THREAD_REQ_CANCEL \<in> wu_request u then
        map_option (Pair ABTI_THREAD_HANDLE_REQUEST_CANCELLED) (ABTI_thread_handle_request_cancel t w)
      else if ABTI_THREAD_REQ_MIGRATE \<in> wu_request u then do {
        (abt_errno, w1) \<leftarrow> ABTI_thread_handle_request_migrate E t w;
        Some (if abt_errno = ABT_SUCCESS then ABTI_THREAD_HANDLE_REQUEST_MIGRATED
              else ABTI_THREAD_HANDLE_REQUEST_NONE, w1)
      }
      else Some (ABTI_THREAD_HANDLE_REQUEST_NONE, w))
   }"

section \<open>Callbacks of a context switch\<close>

definition ythread_callback_yield_impl :: "env \<Rightarrow> thread_ptr \<Rightarrow> runtime \<Rightarrow> runtime option" where
  "ythread_callback_yield_impl E t w = do {
     (h, w1) \<leftarrow> ABTI_thread_handle_request E t True w;
     (if h = ABTI_THREAD_HANDLE_REQUEST_CANCELLED then Some w1 else ABTI_pool_add_thread t w1)
   }"

definition ABTI_ythread_callback_thread_yield_to :: "env \<Rightarrow> thread_ptr \<Rightarrow> runtime \<Rightarrow> runtime option" where
  "ABTI_ythread_callback_thread_yield_to E t w = do {
     _ \<leftarrow> rt_unit w t;
     p \<leftarrow> pool_of w t;
     (h, w1) \<leftarrow> ABTI_thread_handle_request E t True w;
     w2 \<leftarrow> (if h = ABTI_THREAD_HANDLE_REQUEST_CANCELLED then Some w1 else ABTI_pool_add_thread t w1);
     Some (ABTI_pool_dec_num_blocked p w2)
   }"

definition ABTI_ythread_callback_resume_yield_to ::
    "env \<Rightarrow> thread_ptr \<Rightarrow> thread_ptr \<Rightarrow> runtime \<Rightarrow> runtime option" where
  "ABTI_ythread_callback_resume_yield_to E prev next_t w = do {
     (h, w1) \<leftarrow> ABTI_thread_handle_request E prev True w;
     w2 \<leftarrow> (if h = ABTI_THREAD_HANDLE_REQUEST_CANCELLED then Some w1 else ABTI_pool_add_thread prev w1);
     _ \<leftarrow> rt_unit w2 next_t;
     p \<leftarrow> pool_of w2 next_t;
     Some (ABTI_pool_dec_num_blocked p w2)
   }"

definition ABTI_ythread_callback_suspend :: "env \<Rightarrow> thread_ptr \<Rightarrow> runtime \<Rightarrow> runtime option" where
  "ABTI_ythread_callback_suspend E t w = do {
     _ \<leftarrow> rt_unit w t;
     p \<leftarrow> pool_of w t;
     (_, w1) \<leftarrow> ABTI_thread_handle_request E t False (ABTI_pool_inc_num_blocked p w);
     set_state ABT_THREAD_STATE_BLOCKED t w1
   }"

definition ABTI_ythread_callback_resume_suspend_to ::
    "env \<Rightarrow> thread_ptr \<Rightarrow> thread_ptr \<Rightarrow> runtime \<Rightarrow> runtime option" where
  "ABTI_ythread_callback_resume_suspend_to E prev next_t w = do {
     _ \<leftarrow> rt_unit w prev;
     _ \<leftarrow> rt_unit w next_t;
     prev_pool \<leftarrow> pool_of w prev;
     next_pool \<leftarrow> pool_of w next_t;
     let w1 = (if prev_pool \<noteq> next_pool
               then ABTI_pool_dec_num_blocked next_pool (ABTI_pool_inc_num_blocked prev_pool w) else w);
     (_, w2) \<leftarrow> ABTI_thread_handle_request E prev False w1;
     set_state ABT_THREAD_STATE_BLOCKED prev w2
   }"

definition ABTI_ythread_callback_exit :: "thread_ptr \<Rightarrow> runtime \<Rightarrow> runtime option" where
  "ABTI_ythread_callback_exit t w = ABTI_thread_terminate t w"

definition ABTI_ythread_callback_resume_exit_to :: "thread_ptr \<Rightarrow> thread_ptr \<Rightarrow> runtime \<Rightarrow> runtime option" where
  "ABTI_ythread_callback_resume_exit_to prev next_t w = do {
     w1 \<leftarrow> ABTI_thread_terminate prev w;
     _ \<leftarrow> rt_unit w1 next_t;
     p \<leftarrow> pool_of w1 next_t;
     Some (ABTI_pool_dec_num_blocked p w1)
   }"

definition ABTI_ythread_callback_suspend_unlock :: "env \<Rightarrow> thread_ptr \<Rightarrow> nat \<Rightarrow> runtime \<Rightarrow> runtime option" where
  "ABTI_ythread_callback_suspend_unlock E t l w = do {
     _ \<leftarrow> rt_unit w t;
     p \<leftarrow> pool_of w t;
     (_, w1) \<leftarrow> ABTI_thread_handle_request E t False (ABTI_pool_inc_num_blocked p w);
     w2 \<leftarrow> set_state ABT_THREAD_STATE_BLOCKED t w1;
     Some (w2\<lparr>rt_locks := rt_locks w2 - {l}\<rparr>)
   }"

definition ABTI_ythread_callback_suspend_join :: "env \<Rightarrow> thread_ptr \<Rightarrow> thread_ptr \<Rightarrow> runtime \<Rightarrow> runtime option" where
  "ABTI_ythread_callback_suspend_join E t target w = do {
     _ \<leftarrow> rt_unit w t;
     p \<leftarrow> pool_of w t;
     (_, w1) \<leftarrow> ABTI_thread_handle_request E t False (ABTI_pool_inc_num_blocked p w);
     w2 \<leftarrow> set_state ABT_THREAD_STATE_BLOCKED t w1;
     upd target (wu_link_update (\<lambda>_. Some (Joiner t))) w2
   }"

definition ABTI_ythread_callback_suspend_replace_sched ::
    "env \<Rightarrow> thread_ptr \<Rightarrow> nat \<Rightarrow> runtime \<Rightarrow> runtime option" where
  "ABTI_ythread_callback_suspend_replace_sched E t main_sched w = do {
     _ \<leftarrow> rt_unit w t;
     p \<leftarrow> pool_of w t;
     (_, w1) \<leftarrow> ABTI_thread_handle_request E t False (ABTI_pool_inc_num_blocked p w);
     w2 \<leftarrow> set_state ABT_THREAD_STATE_BLOCKED t w1;
     Some (w2\<lparr>rt_replace := insert main_sched (rt_replace w2)\<rparr>)
   }"

definition ABTI_ythread_callback_orphan :: "thread_ptr \<Rightarrow> runtime \<Rightarrow> runtime option" where
  "ABTI_ythread_callback_orphan t w = do {
     _ \<leftarrow> rt_unit w t;
     map_option (\<lambda>a. w\<lparr>rt_assoc := a\<rparr>) (ABTI_thread_unset_associated_pool t (rt_assoc w))
   }"

section \<open>Context switches\<close>

definition ABTI_ythread_switch_to_child_internal :: "nat \<Rightarrow> thread_ptr \<Rightarrow> thread_ptr \<Rightarrow> runtime \<Rightarrow> runtime option" where
  "ABTI_ythread_switch_to_child_internal x old new w = do {
     w1 \<leftarrow> upd new (wu_parent_update (\<lambda>_. Some old)) w;
     upd new (wu_last_xstream_update (\<lambda>_. Some x)) (set_thread x new w1)
   }"

definition ABTI_ythread_switch_to_sibling_internal ::
    "nat \<Rightarrow> thread_ptr \<Rightarrow> thread_ptr \<Rightarrow> (runtime \<Rightarrow> runtime option) \<Rightarrow> runtime \<Rightarrow> runtime option" where
  "ABTI_ythread_switch_to_sibling_internal x old new cb w = do {
     u \<leftarrow> rt_unit w old;
     w1 \<leftarrow> upd new (wu_parent_update (\<lambda>_. wu_parent u)) w;
     w2 \<leftarrow> upd new (wu_last_xstream_update (\<lambda>_. Some x)) (set_thread x new w1);
     cb w2
   }"

definition ABTI_ythread_jump_to_sibling_internal ::
    "nat \<Rightarrow> thread_ptr \<Rightarrow> thread_ptr \<Rightarrow> (runtime \<Rightarrow> runtime option) \<Rightarrow> runtime \<Rightarrow> runtime option" where
  "ABTI_ythread_jump_to_sibling_internal x old new cb w = do {
     u \<leftarrow> rt_unit w old;
     w1 \<leftarrow> upd new (wu_parent_update (\<lambda>_. wu_parent u)) w;
     w2 \<leftarrow> upd new (wu_last_xstream_update (\<lambda>_. Some x)) (set_thread x new w1);
     cb w2
   }"

definition ABTI_ythread_switch_to_parent_internal ::
    "nat \<Rightarrow> thread_ptr \<Rightarrow> (runtime \<Rightarrow> runtime option) \<Rightarrow> runtime \<Rightarrow> runtime option" where
  "ABTI_ythread_switch_to_parent_internal x old cb w = do {
     u \<leftarrow> rt_unit w old;
     new \<leftarrow> wu_parent u;
     let w1 = set_thread x new w;
     v \<leftarrow> rt_unit w1 new;
     (if wu_last_xstream v \<noteq> Some x then None else cb w1)
   }"

definition ABTI_ythread_jump_to_parent_internal ::
    "nat \<Rightarrow> thread_ptr \<Rightarrow> (runtime \<Rightarrow> runtime option) \<Rightarrow> runtime \<Rightarrow> runtime option" where
  "ABTI_ythread_jump_to_parent_internal x old cb w = do {
     u \<leftarrow> rt_unit w old;
     new \<leftarrow> wu_parent u;
     let w1 = set_thread x new w;
     v \<leftarrow> rt_unit w1 new;
     (if wu_last_xstream v \<noteq> Some x then None else cb w1)
   }"

definition ABTI_ythread_run_child :: "nat \<Rightarrow> thread_ptr \<Rightarrow> thread_ptr \<Rightarrow> runtime \<Rightarrow> runtime option" where
  "ABTI_ythread_run_child x self child w = do {
     w1 \<leftarrow> set_state ABT_THREAD_STATE_RUNNING child w;
     ABTI_ythread_switch_to_child_internal x self child w1
   }"

section \<open>What a running ULT does\<close>

text \<open>The kinds of yields differ only in the context they give to the pool's push function.\<close>

definition ABTI_ythread_yield :: "env \<Rightarrow> nat \<Rightarrow> thread_ptr \<Rightarrow> runtime \<Rightarrow> runtime option" where
  "ABTI_ythread_yield E x self w =
     ABTI_ythread_switch_to_parent_internal x self (ythread_callback_yield_impl E self) w"

definition ABTI_ythread_yield_to :: "env \<Rightarrow> nat \<Rightarrow> thread_ptr \<Rightarrow> thread_ptr \<Rightarrow> runtime \<Rightarrow> runtime option" where
  "ABTI_ythread_yield_to E x self target w = do {
     w1 \<leftarrow> set_state ABT_THREAD_STATE_RUNNING target w;
     ABTI_ythread_switch_to_sibling_internal x self target (ythread_callback_yield_impl E self) w1
   }"

definition ABTI_ythread_thread_yield_to :: "env \<Rightarrow> nat \<Rightarrow> thread_ptr \<Rightarrow> thread_ptr \<Rightarrow> runtime \<Rightarrow> runtime option" where
  "ABTI_ythread_thread_yield_to E x self target w = do {
     w1 \<leftarrow> set_state ABT_THREAD_STATE_RUNNING target w;
     ABTI_ythread_switch_to_sibling_internal x self target (ABTI_ythread_callback_thread_yield_to E self) w1
   }"

definition ABTI_ythread_resume_yield_to :: "env \<Rightarrow> nat \<Rightarrow> thread_ptr \<Rightarrow> thread_ptr \<Rightarrow> runtime \<Rightarrow> runtime option" where
  "ABTI_ythread_resume_yield_to E x self target w = do {
     u \<leftarrow> rt_unit w target;
     (if wu_state u \<noteq> ABT_THREAD_STATE_BLOCKED then None
      else do {
        w1 \<leftarrow> set_state ABT_THREAD_STATE_RUNNING target w;
        ABTI_ythread_switch_to_sibling_internal x self target
          (ABTI_ythread_callback_resume_yield_to E self target) w1
      })
   }"

definition ABTI_ythread_suspend :: "env \<Rightarrow> nat \<Rightarrow> thread_ptr \<Rightarrow> runtime \<Rightarrow> runtime option" where
  "ABTI_ythread_suspend E x self w =
     ABTI_ythread_switch_to_parent_internal x self (ABTI_ythread_callback_suspend E self) w"

definition ABTI_ythread_suspend_to :: "env \<Rightarrow> nat \<Rightarrow> thread_ptr \<Rightarrow> thread_ptr \<Rightarrow> runtime \<Rightarrow> runtime option" where
  "ABTI_ythread_suspend_to E x self target w =
     ABTI_ythread_switch_to_sibling_internal x self target (ABTI_ythread_callback_suspend E self) w"

definition ABTI_ythread_resume_suspend_to :: "env \<Rightarrow> nat \<Rightarrow> thread_ptr \<Rightarrow> thread_ptr \<Rightarrow> runtime \<Rightarrow> runtime option" where
  "ABTI_ythread_resume_suspend_to E x self target w = do {
     u \<leftarrow> rt_unit w target;
     (if wu_state u \<noteq> ABT_THREAD_STATE_BLOCKED then None
      else do {
        w1 \<leftarrow> set_state ABT_THREAD_STATE_RUNNING target w;
        ABTI_ythread_switch_to_sibling_internal x self target
          (ABTI_ythread_callback_resume_suspend_to E self target) w1
      })
   }"

definition ABTI_ythread_suspend_unlock :: "env \<Rightarrow> nat \<Rightarrow> thread_ptr \<Rightarrow> nat \<Rightarrow> runtime \<Rightarrow> runtime option" where
  "ABTI_ythread_suspend_unlock E x self l w =
     ABTI_ythread_switch_to_parent_internal x self (ABTI_ythread_callback_suspend_unlock E self l) w"

definition ABTI_ythread_suspend_join :: "env \<Rightarrow> nat \<Rightarrow> thread_ptr \<Rightarrow> thread_ptr \<Rightarrow> runtime \<Rightarrow> runtime option" where
  "ABTI_ythread_suspend_join E x self target w =
     ABTI_ythread_switch_to_parent_internal x self (ABTI_ythread_callback_suspend_join E self target) w"

definition ABTI_ythread_suspend_replace_sched :: "env \<Rightarrow> nat \<Rightarrow> thread_ptr \<Rightarrow> nat \<Rightarrow> runtime \<Rightarrow> runtime option" where
  "ABTI_ythread_suspend_replace_sched E x self main_sched w =
     ABTI_ythread_switch_to_parent_internal x self
       (ABTI_ythread_callback_suspend_replace_sched E self main_sched) w"

definition ABTI_ythread_yield_orphan :: "nat \<Rightarrow> thread_ptr \<Rightarrow> runtime \<Rightarrow> runtime option" where
  "ABTI_ythread_yield_orphan x self w =
     ABTI_ythread_switch_to_parent_internal x self (ABTI_ythread_callback_orphan self) w"

text \<open>
  An ending ULT that is joined by a ULT last run on the same execution stream jumps to it,
  unless it is a main scheduler.
\<close>

definition ABTI_ythread_exit :: "nat \<Rightarrow> thread_ptr \<Rightarrow> runtime \<Rightarrow> runtime option" where
  "ABTI_ythread_exit x self w = do {
     (j, w1) \<leftarrow> ABTI_ythread_atomic_get_joiner self w;
     (case j of
        None \<Rightarrow> ABTI_ythread_jump_to_parent_internal x self (ABTI_ythread_callback_exit self) w1
      | Some (Joiner_ext f) \<Rightarrow>
          ABTI_ythread_jump_to_parent_internal x self (ABTI_ythread_callback_exit self) (ABTD_futex_resume f w1)
      | Some (Joiner jt) \<Rightarrow> do {
          u \<leftarrow> rt_unit w1 self;
          v \<leftarrow> rt_unit w1 jt;
          (if wu_last_xstream u = wu_last_xstream v \<and> ABTI_THREAD_TYPE_MAIN_SCHED \<notin> wu_type u then do {
             p \<leftarrow> pool_of w1 jt;
             w2 \<leftarrow> set_state ABT_THREAD_STATE_RUNNING jt (ABTI_pool_dec_num_blocked p w1);
             ABTI_ythread_jump_to_sibling_internal x self jt (ABTI_ythread_callback_exit self) w2
           }
           else do {
             w2 \<leftarrow> ABTI_ythread_resume_and_push jt w1;
             ABTI_ythread_jump_to_parent_internal x self (ABTI_ythread_callback_exit self) w2
           })
        })
   }"

definition ABTI_ythread_exit_to :: "nat \<Rightarrow> thread_ptr \<Rightarrow> thread_ptr \<Rightarrow> runtime \<Rightarrow> runtime option" where
  "ABTI_ythread_exit_to x self target w = do {
     w1 \<leftarrow> ABTI_ythread_resume_joiner self w;
     w2 \<leftarrow> set_state ABT_THREAD_STATE_RUNNING target w1;
     ABTI_ythread_jump_to_sibling_internal x self target (ABTI_ythread_callback_exit self) w2
   }"

definition ABTI_ythread_resume_exit_to :: "nat \<Rightarrow> thread_ptr \<Rightarrow> thread_ptr \<Rightarrow> runtime \<Rightarrow> runtime option" where
  "ABTI_ythread_resume_exit_to x self target w = do {
     u \<leftarrow> rt_unit w target;
     (if wu_state u \<noteq> ABT_THREAD_STATE_BLOCKED then None
      else do {
        w1 \<leftarrow> ABTI_ythread_resume_joiner self w;
        w2 \<leftarrow> set_state ABT_THREAD_STATE_RUNNING target w1;
        ABTI_ythread_jump_to_sibling_internal x self target
          (ABTI_ythread_callback_resume_exit_to self target) w2
      })
   }"

definition ABTI_ythread_exit_to_primary :: "thread_ptr \<Rightarrow> nat \<Rightarrow> thread_ptr \<Rightarrow> runtime \<Rightarrow> runtime option" where
  "ABTI_ythread_exit_to_primary primary x self w = do {
     w1 \<leftarrow> upd primary (wu_last_xstream_update (\<lambda>_. Some x)) (set_thread x primary w);
     w2 \<leftarrow> set_state ABT_THREAD_STATE_RUNNING primary w1;
     ABTI_ythread_callback_exit self w2
   }"

section \<open>Running a work unit\<close>

text \<open>
  A tasklet runs on the stack of its caller: it begins, its function runs, it ends. The function
  is the argument \<open>run\<close>; it may do whatever a work unit on this execution stream can do.
\<close>

definition schedule_task_begin :: "nat \<Rightarrow> thread_ptr \<Rightarrow> runtime \<Rightarrow> runtime option" where
  "schedule_task_begin x t w = do {
     w1 \<leftarrow> set_state ABT_THREAD_STATE_RUNNING t w;
     w2 \<leftarrow> upd t (wu_last_xstream_update (\<lambda>_. Some x)) w1;
     upd t (wu_parent_update (\<lambda>_. Some (rt_thread w x))) (set_thread x t w2)
   }"

definition schedule_task_end :: "nat \<Rightarrow> thread_ptr \<Rightarrow> thread_ptr \<Rightarrow> runtime \<Rightarrow> runtime option" where
  "schedule_task_end x sched t w = ABTI_thread_terminate t (set_thread x sched w)"

definition ABTI_ythread_schedule ::
    "(thread_ptr \<Rightarrow> runtime \<Rightarrow> runtime option) \<Rightarrow> env \<Rightarrow> nat \<Rightarrow> thread_ptr \<Rightarrow> runtime \<Rightarrow> runtime option" where
  "ABTI_ythread_schedule run E x t w = do {
     (h, w1) \<leftarrow> ABTI_thread_handle_request E t True w;
     (case h of
        ABTI_THREAD_HANDLE_REQUEST_NONE \<Rightarrow> do {
          u \<leftarrow> rt_unit w1 t;
          (if ABTI_THREAD_TYPE_YIELDABLE \<in> wu_type u then ABTI_ythread_run_child x (rt_thread w1 x) t w1
           else do {
             w2 \<leftarrow> schedule_task_begin x t w1;
             w3 \<leftarrow> run t w2;
             schedule_task_end x (rt_thread w1 x) t w3
           })
        }
      | ABTI_THREAD_HANDLE_REQUEST_CANCELLED \<Rightarrow> Some w1
      | ABTI_THREAD_HANDLE_REQUEST_MIGRATED \<Rightarrow> ABTI_pool_add_thread t w1)
   }"

end
