(* ===== verification/YthreadInv.thy ===== *)
theory YthreadInv
  imports Ythread
begin

text \<open>
  The invariant of the runtime and what the building blocks of theory Ythread do to it.
  \<open>rt_ok B H K S L w\<close>: the running work units of execution stream \<open>x\<close> are those of the stack
  \<open>S x\<close>, from the current one through its parents to the root, and there is no stream \<open>x\<close> if it is empty; a queued unit belongs to a READY
  work unit of the pool; a pool's counter is the number of its BLOCKED work units plus \<open>L\<close>;
  a joiner is BLOCKED as long as its target lives. \<open>H\<close> are the work units an operation has in
  hand, \<open>K\<close> those whose joiner it has taken; between operations both are empty.
\<close>

section \<open>Views of a work unit\<close>

definition st :: "runtime \<Rightarrow> thread_ptr \<Rightarrow> thread_state option" where
  "st w t = map_option wu_state (rt_unit w t)"

definition par :: "runtime \<Rightarrow> thread_ptr \<Rightarrow> thread_ptr option" where
  "par w t = Option.bind (rt_unit w t) wu_parent"

definition lst :: "runtime \<Rightarrow> thread_ptr \<Rightarrow> nat option" where
  "lst w t = Option.bind (rt_unit w t) wu_last_xstream"

definition lnk :: "runtime \<Rightarrow> thread_ptr \<Rightarrow> joiner option" where
  "lnk w t = Option.bind (rt_unit w t) wu_link"

definition req :: "runtime \<Rightarrow> thread_ptr \<Rightarrow> thread_req set" where
  "req w t = (case rt_unit w t of None \<Rightarrow> {} | Some u \<Rightarrow> wu_request u)"

definition mig :: "runtime \<Rightarrow> thread_ptr \<Rightarrow> nat option" where
  "mig w t = Option.bind (Option.bind (rt_unit w t) wu_mig) md_pool"

lemmas views = st_def par_def lst_def lnk_def req_def mig_def

lemma st_None [simp]: "st w t = None \<longleftrightarrow> rt_unit w t = None"
  by (simp add: st_def)

lemma live: "st w t = Some c \<Longrightarrow> \<exists>u. rt_unit w t = Some u \<and> wu_state u = c"
  by (auto simp: st_def)

text \<open>A store to a work unit, and the views it leaves alone.\<close>

definition put :: "thread_ptr \<Rightarrow> (work_unit \<Rightarrow> work_unit) \<Rightarrow> runtime \<Rightarrow> runtime" where
  "put t f w = w\<lparr>rt_unit := (rt_unit w)(t := map_option f (rt_unit w t))\<rparr>"

lemma upd_put: "upd t f w = (if rt_unit w t = None then None else Some (put t f w))"
  by (auto simp: upd_def put_def fun_eq_iff split: option.splits)

lemma put_simps [simp]:
  "rt_assoc (put t f w) = rt_assoc w" "rt_queue (put t f w) = rt_queue w" "rt_blocked (put t f w) = rt_blocked w"
  "rt_thread (put t f w) = rt_thread w" "rt_unit (put t f w) t' = None \<longleftrightarrow> rt_unit w t' = None"
  "dom (rt_unit (put t f w)) = dom (rt_unit w)"
  by (auto simp: put_def split: if_splits)

lemma put_unit: "rt_unit (put t f w) s = (if s = t then map_option f (rt_unit w t) else rt_unit w s)"
  by (simp add: put_def)

lemma put_views:
  "(\<And>u. wu_state (f u) = wu_state u) \<Longrightarrow> st (put t f w) = st w"
  "(\<And>u. wu_parent (f u) = wu_parent u) \<Longrightarrow> par (put t f w) = par w"
  "(\<And>u. wu_last_xstream (f u) = wu_last_xstream u) \<Longrightarrow> lst (put t f w) = lst w"
  "(\<And>u. wu_link (f u) = wu_link u) \<Longrightarrow> lnk (put t f w) = lnk w"
  "(\<And>u. wu_request (f u) = wu_request u) \<Longrightarrow> req (put t f w) = req w"
  "(\<And>u. wu_mig (f u) = wu_mig u) \<Longrightarrow> mig (put t f w) = mig w"
  by (cases "rt_unit w t"; simp add: put_def views fun_eq_iff)+

lemma put_state [simp]:
  "st (put t (wu_state_update (\<lambda>_. c)) w) s = (if s = t \<and> rt_unit w t \<noteq> None then Some c else st w s)"
  by (auto simp: put_def st_def)

lemma put_parent [simp]:
  "par (put t (wu_parent_update (\<lambda>_. q)) w) s = (if s = t \<and> rt_unit w t \<noteq> None then q else par w s)"
  by (auto simp: put_def par_def)

lemma put_last [simp]:
  "lst (put t (wu_last_xstream_update (\<lambda>_. q)) w) s = (if s = t \<and> rt_unit w t \<noteq> None then q else lst w s)"
  by (auto simp: put_def lst_def)

lemma put_link [simp]:
  "lnk (put t (wu_link_update (\<lambda>_. q)) w) s = (if s = t \<and> rt_unit w t \<noteq> None then q else lnk w s)"
  by (auto simp: put_def lnk_def)

lemma set_thread_simps [simp]:
  "rt_unit (set_thread x t w) = rt_unit w" "rt_assoc (set_thread x t w) = rt_assoc w"
  "rt_queue (set_thread x t w) = rt_queue w" "rt_blocked (set_thread x t w) = rt_blocked w"
  "rt_thread (set_thread x t w) = (rt_thread w)(x := t)"
  by (simp_all add: set_thread_def)

text \<open>States that agree on the descriptors have the same views.\<close>

lemma views_cong:
  assumes "rt_unit w' = rt_unit w"
  shows "st w' = st w" "par w' = par w" "lst w' = lst w" "lnk w' = lnk w" "req w' = req w" "mig w' = mig w"
  using assms by (simp_all add: views fun_eq_iff)

section \<open>The invariant\<close>

definition units_sound :: "(nat \<Rightarrow> bool) \<Rightarrow> runtime \<Rightarrow> bool" where
  "units_sound B w \<longleftrightarrow> finite (dom (rt_unit w)) \<and> assoc_ok B (rt_assoc w) \<and>
     (\<forall>t. rt_unit w t = None \<longrightarrow> pool_of w t = None) \<and>
     (\<forall>t. ABTI_THREAD_REQ_MIGRATE \<in> req w t \<longrightarrow> mig w t \<noteq> None)"

definition stacks_ok :: "thread_ptr set \<Rightarrow> (nat \<Rightarrow> thread_ptr list) \<Rightarrow> runtime \<Rightarrow> bool" where
  "stacks_ok H S w \<longleftrightarrow>
     (\<forall>x. distinct (S x) \<and> successively (\<lambda>a b. par w a = Some b) (S x) \<and>
        (S x \<noteq> [] \<longrightarrow> rt_thread w x = hd (S x) \<and> par w (last (S x)) = None)) \<and>
     (\<forall>x. \<forall>t \<in> set (S x). t \<notin> H \<and> st w t = Some ABT_THREAD_STATE_RUNNING \<and> lst w t = Some x) \<and>
     (\<forall>x. \<forall>t \<in> set (butlast (S x)). pool_of w t \<noteq> None) \<and>
     (\<forall>t. st w t = Some ABT_THREAD_STATE_RUNNING \<longrightarrow> t \<notin> H \<longrightarrow> (\<exists>x. t \<in> set (S x)))"

definition queues_ok :: "thread_ptr set \<Rightarrow> runtime \<Rightarrow> bool" where
  "queues_ok H w \<longleftrightarrow> (\<forall>p. distinct (rt_queue w p) \<and>
     (\<forall>u \<in> set (rt_queue w p). \<exists>t. unit_of w t = u \<and> pool_of w t = Some p \<and>
        st w t = Some ABT_THREAD_STATE_READY \<and> t \<notin> H))"

definition blocked_in :: "thread_ptr set \<Rightarrow> runtime \<Rightarrow> nat \<Rightarrow> thread_ptr set" where
  "blocked_in H w p = {t. t \<notin> H \<and> st w t = Some ABT_THREAD_STATE_BLOCKED \<and> pool_of w t = Some p}"

definition counts_ok :: "thread_ptr set \<Rightarrow> (nat \<Rightarrow> int) \<Rightarrow> runtime \<Rightarrow> bool" where
  "counts_ok H L w \<longleftrightarrow>
     (\<forall>p. rt_blocked w p = int (card (blocked_in H w p)) + L p) \<and>
     (\<forall>t. st w t = Some ABT_THREAD_STATE_BLOCKED \<longrightarrow> t \<notin> H \<longrightarrow> pool_of w t \<noteq> None)"

text \<open>The work units whose link still counts, and the joiner they have.\<close>

definition joins :: "thread_ptr set \<Rightarrow> runtime \<Rightarrow> thread_ptr \<Rightarrow> thread_ptr \<Rightarrow> bool" where
  "joins K w j t \<longleftrightarrow> t \<notin> K \<and> st w t \<noteq> Some ABT_THREAD_STATE_TERMINATED \<and> lnk w t = Some (Joiner j)"

definition links_ok :: "thread_ptr set \<Rightarrow> thread_ptr set \<Rightarrow> runtime \<Rightarrow> bool" where
  "links_ok H K w \<longleftrightarrow>
     (\<forall>t j. joins K w j t \<longrightarrow> st w j = Some ABT_THREAD_STATE_BLOCKED \<and> j \<notin> H) \<and>
     (\<forall>t t' j. joins K w j t \<longrightarrow> joins K w j t' \<longrightarrow> t = t') \<and>
     (\<forall>t. t \<notin> K \<longrightarrow> st w t \<noteq> Some ABT_THREAD_STATE_TERMINATED \<longrightarrow> ABTI_THREAD_REQ_JOIN \<in> req w t \<longrightarrow> lnk w t \<noteq> None)"

definition hands_ok :: "thread_ptr set \<Rightarrow> runtime \<Rightarrow> bool" where
  "hands_ok H w \<longleftrightarrow> (\<forall>t \<in> H. rt_unit w t \<noteq> None \<and> st w t \<noteq> Some ABT_THREAD_STATE_TERMINATED \<and> pool_of w t \<noteq> None)"

definition rt_ok :: "(nat \<Rightarrow> bool) \<Rightarrow> thread_ptr set \<Rightarrow> thread_ptr set \<Rightarrow> (nat \<Rightarrow> thread_ptr list) \<Rightarrow> (nat \<Rightarrow> int)
    \<Rightarrow> runtime \<Rightarrow> bool" where
  "rt_ok B H K S L w \<longleftrightarrow> units_sound B w \<and> stacks_ok H S w \<and> queues_ok H w \<and> counts_ok H L w \<and> links_ok H K w \<and> hands_ok H w"

lemma rt_okI:
  "units_sound B w \<Longrightarrow> stacks_ok H S w \<Longrightarrow> queues_ok H w \<Longrightarrow> counts_ok H L w \<Longrightarrow> links_ok H K w \<Longrightarrow>
    hands_ok H w \<Longrightarrow> rt_ok B H K S L w"
  by (simp add: rt_ok_def)

lemma rt_okD:
  assumes "rt_ok B H K S L w"
  shows "units_sound B w" "stacks_ok H S w" "queues_ok H w" "counts_ok H L w" "links_ok H K w" "hands_ok H w"
  using assms by (simp_all add: rt_ok_def)

lemma stacks_okD:
  assumes "stacks_ok H S w"
  shows "t \<in> set (S x) \<Longrightarrow> t \<in> set (S y) \<Longrightarrow> x = y" "S x \<noteq> [] \<Longrightarrow> rt_thread w x = hd (S x)" "distinct (S x)"
    "successively (\<lambda>a b. par w a = Some b) (S x)" "S x \<noteq> [] \<Longrightarrow> par w (last (S x)) = None" "t \<in> set (S x) \<Longrightarrow> t \<notin> H" "t \<in> set (S x) \<Longrightarrow> st w t = Some ABT_THREAD_STATE_RUNNING"
    "t \<in> set (S x) \<Longrightarrow> lst w t = Some x" "t \<in> set (butlast (S x)) \<Longrightarrow> pool_of w t \<noteq> None"
    "st w t = Some ABT_THREAD_STATE_RUNNING \<Longrightarrow> t \<notin> H \<Longrightarrow> \<exists>x. t \<in> set (S x)"
proof -
  note A = assms [unfolded stacks_ok_def]
  note top = A [THEN conjunct1, THEN spec, of x]
    and on = A [THEN conjunct2, THEN conjunct1, THEN spec, of x, THEN bspec, of t]
    and on' = A [THEN conjunct2, THEN conjunct1, THEN spec, of y, THEN bspec, of t]
    and pools = A [THEN conjunct2, THEN conjunct2, THEN conjunct1, THEN spec, of x, THEN bspec, of t]
    and all = A [THEN conjunct2, THEN conjunct2, THEN conjunct2, THEN spec, of t]
  show "S x \<noteq> [] \<Longrightarrow> rt_thread w x = hd (S x)" "distinct (S x)" "successively (\<lambda>a b. par w a = Some b) (S x)"
    "S x \<noteq> [] \<Longrightarrow> par w (last (S x)) = None"
    using top by simp_all
  show "t \<in> set (S x) \<Longrightarrow> t \<in> set (S y) \<Longrightarrow> x = y"
    using on on' by simp
  show "t \<in> set (S x) \<Longrightarrow> t \<notin> H" "t \<in> set (S x) \<Longrightarrow> st w t = Some ABT_THREAD_STATE_RUNNING"
    "t \<in> set (S x) \<Longrightarrow> lst w t = Some x"
    using on by simp_all
  show "t \<in> set (butlast (S x)) \<Longrightarrow> pool_of w t \<noteq> None"
    by (rule pools)
  show "st w t = Some ABT_THREAD_STATE_RUNNING \<Longrightarrow> t \<notin> H \<Longrightarrow> \<exists>x. t \<in> set (S x)"
    using all by simp
qed

lemma hands_okD:
  assumes "hands_ok H w" "t \<in> H"
  shows "rt_unit w t \<noteq> None" "st w t \<noteq> Some ABT_THREAD_STATE_TERMINATED" "pool_of w t \<noteq> None"
  using assms by (simp_all add: hands_ok_def)

lemma blocked_finite: "units_sound B w \<Longrightarrow> finite (blocked_in H w p)"
  by (rule finite_subset [of _ "dom (rt_unit w)"]) (auto simp: blocked_in_def units_sound_def dest: live)

text \<open>Only one work unit has a given unit.\<close>

lemma unit_inj:
  assumes "units_sound B w" "pool_of w s = Some p" "pool_of w t = Some q" "unit_of w s = unit_of w t"
  shows "s = t"
proof -
  have ok: "assoc_ok B (rt_assoc w)"
    using assms(1) by (simp add: units_sound_def)
  show ?thesis
    using assoc_get_thread [OF ok assms(2)] assoc_get_thread [OF ok assms(3)] unfolding assms(4) by simp
qed

lemma hand_not_queued:
  assumes "rt_ok B H K S L w" "t \<in> H"
  shows "unit_of w t \<notin> set (rt_queue w p)"
proof
  assume "unit_of w t \<in> set (rt_queue w p)"
  then obtain s where "unit_of w s = unit_of w t" "pool_of w s = Some p" "s \<notin> H"
    using rt_okD(3) [OF assms(1)] unfolding queues_ok_def by blast
  moreover obtain q where "pool_of w t = Some q"
    using hands_okD(3) [OF rt_okD(6) [OF assms(1)] assms(2)] by auto
  ultimately show False
    using unit_inj [OF rt_okD(1) [OF assms(1)]] assms(2) by blast
qed

end
