(* ===== verification/YthreadMoves.thy ===== *)
theory YthreadMoves
  imports YthreadInv
begin

text \<open>
  The moves an operation is made of, each with its effect on the invariant: a work unit is taken
  in hand from a stack, from the BLOCKED ones or from the READY ones; one in hand is pushed to its
  pool, blocked, migrated, ended or run.
\<close>

section \<open>Counters\<close>

abbreviation one :: "nat option \<Rightarrow> nat \<Rightarrow> int" where
  "one p q \<equiv> of_bool (p = Some q)"

lemma count_cong:
  assumes "counts_ok H L w" "\<And>p. blocked_in H' w' p = blocked_in H w p"
    "\<And>t. st w' t = Some ABT_THREAD_STATE_BLOCKED \<Longrightarrow> t \<notin> H' \<Longrightarrow> pool_of w' t \<noteq> None"
    "\<And>p. rt_blocked w' p = rt_blocked w p + L' p - L p"
  shows "counts_ok H' L' w'"
proof -
  have c: "rt_blocked w p = int (card (blocked_in H w p)) + L p" for p
    using assms(1) by (simp add: counts_ok_def)
  have "rt_blocked w' p = int (card (blocked_in H' w' p)) + L' p" for p
    unfolding assms(2,4) c by simp
  then show ?thesis
    using assms(3) by (simp add: counts_ok_def)
qed

lemma keep_other:
  assumes "rt_ok B H K S L w" "rt_unit w' = rt_unit w" "rt_assoc w' = rt_assoc w" "rt_queue w' = rt_queue w"
    "rt_thread w' = rt_thread w" "\<And>p. rt_blocked w' p = rt_blocked w p + L' p - L p"
  shows "rt_ok B H K S L' w'"
proof -
  note v = views_cong [OF assms(2)] and A = rt_okD [OF assms(1)]
  have b: "blocked_in H w' p = blocked_in H w p" for p
    by (simp only: blocked_in_def v assms(3))
  show ?thesis
  proof (rule rt_okI)
    show "units_sound B w'" "stacks_ok H S w'" "queues_ok H w'" "links_ok H K w'" "hands_ok H w'"
      using A unfolding units_sound_def stacks_ok_def queues_ok_def links_ok_def joins_def hands_ok_def v assms(2-5) by blast+
    show "counts_ok H L' w'"
      by (rule count_cong [OF A(4) b _ assms(6)]) (use A(4) in \<open>simp add: counts_ok_def v assms(3)\<close>)
  qed
qed

lemma inc_ok:
  "rt_ok B H K S L w \<Longrightarrow> rt_ok B H K S (\<lambda>q. L q + one (Some p) q) (ABTI_pool_inc_num_blocked p w)"
  by (erule keep_other) (simp_all add: ABTI_pool_inc_num_blocked_def)

lemma dec_ok:
  "rt_ok B H K S L w \<Longrightarrow> rt_ok B H K S (\<lambda>q. L q - one (Some p) q) (ABTI_pool_dec_num_blocked p w)"
  by (erule keep_other) (simp_all add: ABTI_pool_dec_num_blocked_def)

lemma inc_dec_simps [simp]:
  "rt_unit (ABTI_pool_inc_num_blocked p w) = rt_unit w" "rt_assoc (ABTI_pool_inc_num_blocked p w) = rt_assoc w"
  "rt_unit (ABTI_pool_dec_num_blocked p w) = rt_unit w" "rt_assoc (ABTI_pool_dec_num_blocked p w) = rt_assoc w"
  by (simp_all add: ABTI_pool_inc_num_blocked_def ABTI_pool_dec_num_blocked_def)

section \<open>Taking in hand\<close>

text \<open>A READY work unit that is in no pool.\<close>

lemma take_ready:
  assumes ok: "rt_ok B H K S L w" and t: "st w t = Some ABT_THREAD_STATE_READY" "pool_of w t = Some p"
    "unit_of w t \<notin> set (rt_queue w p)"
  shows "rt_ok B (insert t H) K S L w"
proof (rule rt_okI)
  note A = rt_okD [OF ok]
  show "units_sound B w"
    by (rule A(1))
  show "stacks_ok (insert t H) S w"
    using A(2) t(1) by (auto simp: stacks_ok_def)
  show "queues_ok (insert t H) w"
    using A(3) t(2,3) unfolding queues_ok_def by (metis insertE option.inject)
  show "counts_ok (insert t H) L w"
    by (rule count_cong [OF A(4)]) (use A(4) t(1) in \<open>auto simp: blocked_in_def counts_ok_def\<close>)
  show "links_ok (insert t H) K w"
    using A(5) t(1) unfolding links_ok_def by (metis insertE option.inject thread_state.distinct(3))
  show "hands_ok (insert t H) w"
    using A(6) t live [OF t(1)] by (auto simp: hands_ok_def)
qed

lemma put_back:
  assumes ok: "rt_ok B H K S L w" and t: "st w t = Some ABT_THREAD_STATE_READY"
  shows "rt_ok B (H - {t}) K S L w"
proof (rule rt_okI)
  note A = rt_okD [OF ok]
  show "units_sound B w"
    by (rule A(1))
  show "stacks_ok (H - {t}) S w"
    using A(2) t(1) by (auto simp: stacks_ok_def)
  show "queues_ok (H - {t}) w"
    using A(3) unfolding queues_ok_def by (metis DiffD1)
  show "counts_ok (H - {t}) L w"
    by (rule count_cong [OF A(4)]) (use A(4) t(1) in \<open>auto simp: blocked_in_def counts_ok_def\<close>)
  show "links_ok (H - {t}) K w"
    using A(5) unfolding links_ok_def by (metis DiffD1)
  show "hands_ok (H - {t}) w"
    using A(6) by (auto simp: hands_ok_def)
qed

text \<open>A BLOCKED one; nobody else may be about to resume it.\<close>

lemma take_blocked:
  assumes ok: "rt_ok B H K S L w" and t: "st w t = Some ABT_THREAD_STATE_BLOCKED" "t \<notin> H" "pool_of w t = Some p"
    and K: "K \<subseteq> K'" "\<And>s. \<not> joins K' w t s"
  shows "rt_ok B (insert t H) K' S (\<lambda>q. L q + one (Some p) q) w"
proof (rule rt_okI)
  note A = rt_okD [OF ok]
  show "units_sound B w"
    by (rule A(1))
  show "stacks_ok (insert t H) S w"
    using A(2) t(1) by (auto simp: stacks_ok_def)
  show "queues_ok (insert t H) w"
    unfolding queues_ok_def
  proof (intro allI conjI ballI)
    fix q u
    show "distinct (rt_queue w q)"
      using A(3) by (simp add: queues_ok_def)
    assume "u \<in> set (rt_queue w q)"
    then obtain s where s: "unit_of w s = u" "pool_of w s = Some q" "st w s = Some ABT_THREAD_STATE_READY" "s \<notin> H"
      using A(3) unfolding queues_ok_def by blast
    then have "s \<noteq> t"
      using t(1) by auto
    then show "\<exists>s. unit_of w s = u \<and> pool_of w s = Some q \<and> st w s = Some ABT_THREAD_STATE_READY \<and> s \<notin> insert t H"
      using s by blast
  qed
  show "counts_ok (insert t H) (\<lambda>q. L q + one (Some p) q) w"
    unfolding counts_ok_def
  proof (intro conjI allI impI)
    fix q
    have "blocked_in H w q = (if q = p then insert t (blocked_in (insert t H) w q) else blocked_in (insert t H) w q)"
      using t by (auto simp: blocked_in_def)
    moreover have "t \<notin> blocked_in (insert t H) w q" "finite (blocked_in (insert t H) w q)"
      using blocked_finite [OF A(1)] by (auto simp: blocked_in_def)
    ultimately have "card (blocked_in H w q) = card (blocked_in (insert t H) w q) + of_bool (q = p)"
      by (cases "q = p") (simp_all add: card_insert_disjoint)
    then show "rt_blocked w q = int (card (blocked_in (insert t H) w q)) + (L q + one (Some p) q)"
      using A(4) by (auto simp: counts_ok_def)
  qed (use A(4) in \<open>auto simp: counts_ok_def\<close>)
  have sub: "joins K w j s" if "joins K' w j s" for j s
    using that K(1) by (auto simp: joins_def)
  show "links_ok (insert t H) K' w"
    unfolding links_ok_def
  proof (intro conjI allI impI)
    fix s j
    assume j: "joins K' w j s"
    show "st w j = Some ABT_THREAD_STATE_BLOCKED"
      using A(5) sub [OF j] unfolding links_ok_def by blast
    have "j \<notin> H"
      using A(5) sub [OF j] unfolding links_ok_def by blast
    then show "j \<notin> insert t H"
      using K(2) j by auto
  next
    fix s s' j
    assume "joins K' w j s" "joins K' w j s'"
    then show "s = s'"
      using A(5) sub unfolding links_ok_def by blast
  next
    fix s
    assume "s \<notin> K'" "st w s \<noteq> Some ABT_THREAD_STATE_TERMINATED" "ABTI_THREAD_REQ_JOIN \<in> req w s"
    then show "lnk w s \<noteq> None"
      using A(5) K(1) unfolding links_ok_def by blast
  qed
  show "hands_ok (insert t H) w"
    using A(6) t live [OF t(1)] by (auto simp: hands_ok_def)
qed

section \<open>States of a work unit in hand\<close>

lemma stacks_cong:
  assumes "stacks_ok H S w" "\<And>s. s \<notin> X \<Longrightarrow> st w' s = st w s" "\<And>s. s \<notin> X \<Longrightarrow> par w' s = par w s"
    "\<And>s. s \<notin> X \<Longrightarrow> lst w' s = lst w s" "\<And>s. s \<notin> X \<Longrightarrow> pool_of w' s = pool_of w s" "rt_thread w' = rt_thread w"
    "X \<inter> (\<Union>x. set (S x)) = {}" "H' - X = H - X"
    "\<And>s. s \<in> X \<Longrightarrow> st w' s = Some ABT_THREAD_STATE_RUNNING \<Longrightarrow> s \<in> H'"
  shows "stacks_ok H' S w'"
proof -
  have out: "s \<notin> X" if "s \<in> set (S x)" for s x
    using assms(7) that by auto
  have H: "s \<in> H' \<longleftrightarrow> s \<in> H" if "s \<notin> X" for s
    using assms(8) that by blast
  note A = stacks_okD [OF assms(1)]
  show ?thesis
    unfolding stacks_ok_def
  proof (intro conjI allI ballI impI)
    fix x
    show "distinct (S x)"
      by (rule A(3))
    show "rt_thread w' x = hd (S x)" if "S x \<noteq> []"
      using A(2) that assms(6) by simp
    show "successively (\<lambda>a b. par w' a = Some b) (S x)"
      by (rule successively_mono_on [OF A(4)]) (use assms(3) out in auto)
    show "par w' (last (S x)) = None" if "S x \<noteq> []"
      using A(5) assms(3) out [of "last (S x)" x] that by simp
  next
    fix x t
    assume t: "t \<in> set (S x)"
    show "t \<notin> H'" "st w' t = Some ABT_THREAD_STATE_RUNNING" "lst w' t = Some x"
      using A(6,7,8) [OF t] H assms(2,4) out [OF t] by auto
  next
    fix x t
    assume t: "t \<in> set (butlast (S x))"
    show "pool_of w' t \<noteq> None"
      using A(9) [OF t] assms(5) out [of t x] t in_set_butlastD by metis
  next
    fix t
    assume "st w' t = Some ABT_THREAD_STATE_RUNNING" "t \<notin> H'"
    then show "\<exists>x. t \<in> set (S x)"
      using A(10) [of t] H assms(2,9) by metis
  qed
qed

lemma links_cong:
  assumes "links_ok H K w" "\<And>j s. joins K' w' j s \<Longrightarrow> joins K w j s"
    "\<And>j s. joins K w j s \<Longrightarrow> st w j = Some ABT_THREAD_STATE_BLOCKED \<Longrightarrow> j \<notin> H \<Longrightarrow>
      joins K' w' j s \<Longrightarrow> st w' j = Some ABT_THREAD_STATE_BLOCKED \<and> j \<notin> H'"
    "\<And>s. s \<notin> K' \<Longrightarrow> st w' s \<noteq> Some ABT_THREAD_STATE_TERMINATED \<Longrightarrow> ABTI_THREAD_REQ_JOIN \<in> req w' s \<Longrightarrow> lnk w' s \<noteq> None"
  shows "links_ok H' K' w'"
proof -
  note A = assms(1) [unfolded links_ok_def]
  show ?thesis
    unfolding links_ok_def
  proof (intro conjI allI impI)
    fix s s' j
    assume j: "joins K' w' j s"
    show "st w' j = Some ABT_THREAD_STATE_BLOCKED" "j \<notin> H'"
      using assms(3) [OF assms(2) [OF j] _ _ j] A assms(2) [OF j] by blast+
    assume "joins K' w' j s'"
    then show "s = s'"
      using assms(2) j A by blast
  qed (use assms(4) in blast)
qed

lemma links_okD:
  assumes "links_ok H K w"
  shows "joins K w j t \<Longrightarrow> st w j = Some ABT_THREAD_STATE_BLOCKED" "joins K w j t \<Longrightarrow> j \<notin> H"
    "joins K w j t \<Longrightarrow> joins K w j t' \<Longrightarrow> t = t'"
    "t \<notin> K \<Longrightarrow> st w t \<noteq> Some ABT_THREAD_STATE_TERMINATED \<Longrightarrow> ABTI_THREAD_REQ_JOIN \<in> req w t \<Longrightarrow> lnk w t \<noteq> None"
  using assms unfolding links_ok_def by blast+

lemma hand_off_stack:
  assumes "rt_ok B H K S L w" "t \<in> H"
  shows "{t} \<inter> (\<Union>x. set (S x)) = {}"
  using stacks_okD(6) [OF rt_okD(2) [OF assms(1)]] assms(2) by blast

lemma set_state_hand:
  assumes ok: "rt_ok B H K S L w" and t: "t \<in> H" and c: "c \<noteq> ABT_THREAD_STATE_TERMINATED"
  shows "\<exists>w'. set_state c t w = Some w' \<and> rt_ok B H K S L w' \<and> st w' t = Some c \<and> rt_assoc w' = rt_assoc w \<and>
    (\<forall>s. rt_unit w' s = (if s = t then map_option (wu_state_update (\<lambda>_. c)) (rt_unit w t) else rt_unit w s))"
proof -
  let ?w = "put t (wu_state_update (\<lambda>_. c)) w"
  note A = rt_okD [OF ok]
  note h = hands_okD [OF A(6) t]
  have other: "par ?w = par w" "lst ?w = lst w" "lnk ?w = lnk w" "req ?w = req w" "mig ?w = mig w"
    by (rule put_views; simp)+
  have "rt_ok B H K S L ?w"
  proof (rule rt_okI)
    show "units_sound B ?w"
      using A(1) by (simp add: units_sound_def other)
    show "stacks_ok H S ?w"
      by (rule stacks_cong [OF A(2), of "{t}"]) (use hand_off_stack [OF ok t] t in \<open>auto simp: other\<close>)
    show "queues_ok H ?w"
      using A(3) t unfolding queues_ok_def by (metis put_simps(1,2) put_state)
    show "counts_ok H L ?w"
      by (rule count_cong [OF A(4)]) (use A(4) t in \<open>auto simp: blocked_in_def counts_ok_def split: if_splits\<close>)
    have st: "st ?w s = Some ABT_THREAD_STATE_TERMINATED \<longleftrightarrow> st w s = Some ABT_THREAD_STATE_TERMINATED" for s
      using c h by auto
    have js: "joins K ?w = joins K w"
      unfolding joins_def st other ..
    have "t \<noteq> j" if "joins K w j s" for j s
      using A(5) t that unfolding links_ok_def by blast
    then show "links_ok H K ?w"
      using A(5) unfolding links_ok_def js st other by (metis put_state)
    show "hands_ok H ?w"
      using A(6) c by (simp add: hands_ok_def)
  qed
  then show ?thesis
    using h by (auto simp: set_state_def upd_put put_unit)
qed

section \<open>Letting go\<close>

lemma add_thread_ok:
  assumes ok: "rt_ok B H K S L w" and t: "t \<in> H"
  shows "\<exists>w'. ABTI_pool_add_thread t w = Some w' \<and> rt_ok B (H - {t}) K S L w' \<and> rt_assoc w' = rt_assoc w \<and>
    (\<forall>s. rt_unit w' s = None \<longleftrightarrow> rt_unit w s = None) \<and> st w' t = Some ABT_THREAD_STATE_READY \<and> (\<forall>s. s \<noteq> t \<longrightarrow> st w' s = st w s)"
proof -
  obtain w1 where w1: "set_state ABT_THREAD_STATE_READY t w = Some w1" "rt_ok B H K S L w1"
    "st w1 t = Some ABT_THREAD_STATE_READY" "rt_assoc w1 = rt_assoc w"
    "\<forall>s. rt_unit w1 s = (if s = t then map_option (wu_state_update (\<lambda>_. ABT_THREAD_STATE_READY)) (rt_unit w t) else rt_unit w s)"
    using set_state_hand [OF ok t, of ABT_THREAD_STATE_READY] by auto
  obtain p where p: "pool_of w1 t = Some p"
    using hands_okD(3) [OF rt_okD(6) [OF w1(2)] t] by auto
  let ?w = "ABTI_pool_push p (unit_of w1 t) w1"
  have eq: "rt_unit ?w = rt_unit w1" "rt_assoc ?w = rt_assoc w1" "rt_blocked ?w = rt_blocked w1" "rt_thread ?w = rt_thread w1"
    "rt_queue ?w = (rt_queue w1)(p := rt_queue w1 p @ [unit_of w1 t])"
    by (simp_all add: ABTI_pool_push_def)
  note v = views_cong [OF eq(1)]
  note B = rt_okD [OF put_back [OF w1(2,3)]]
  have "rt_ok B (H - {t}) K S L ?w"
  proof (rule rt_okI)
    show "units_sound B ?w" "stacks_ok (H - {t}) S ?w" "links_ok (H - {t}) K ?w" "hands_ok (H - {t}) ?w"
      using B unfolding units_sound_def stacks_ok_def links_ok_def joins_def hands_ok_def v eq(1,2,4) by blast+
    show "counts_ok (H - {t}) L ?w"
      using B(4) unfolding counts_ok_def blocked_in_def v eq(2,3) by blast
    have "unit_of w1 t \<notin> set (rt_queue w1 q)" for q
      by (rule hand_not_queued [OF w1(2) t])
    then show "queues_ok (H - {t}) ?w"
      using B(3) p w1(3) unfolding queues_ok_def v eq(2,5) by auto
  qed
  moreover have "st ?w s = st w s" if "s \<noteq> t" for s
    using w1(5) that by (simp add: v st_def)
  moreover have "rt_unit ?w s = None \<longleftrightarrow> rt_unit w s = None" for s
    using w1(5) by (simp add: eq)
  moreover have "ABTI_pool_add_thread t w = Some ?w"
    using w1(1) p by (simp add: ABTI_pool_add_thread_def)
  moreover have "rt_assoc ?w = rt_assoc w" "st ?w t = Some ABT_THREAD_STATE_READY"
    unfolding eq v by (rule w1(4), rule w1(3))
  ultimately show ?thesis
    by blast
qed

lemma set_blocked_ok:
  assumes ok: "rt_ok B H K S L w" and t: "t \<in> H"
  shows "\<exists>w'. set_state ABT_THREAD_STATE_BLOCKED t w = Some w' \<and>
    rt_ok B (H - {t}) K S (\<lambda>q. L q - one (pool_of w t) q) w' \<and> rt_assoc w' = rt_assoc w \<and>
    st w' t = Some ABT_THREAD_STATE_BLOCKED \<and> (\<forall>s. s \<noteq> t \<longrightarrow> rt_unit w' s = rt_unit w s)"
proof -
  obtain w1 where w1: "set_state ABT_THREAD_STATE_BLOCKED t w = Some w1" "rt_ok B H K S L w1"
    "st w1 t = Some ABT_THREAD_STATE_BLOCKED" "rt_assoc w1 = rt_assoc w"
    "\<forall>s. rt_unit w1 s = (if s = t then map_option (wu_state_update (\<lambda>_. ABT_THREAD_STATE_BLOCKED)) (rt_unit w t) else rt_unit w s)"
    using set_state_hand [OF ok t, of ABT_THREAD_STATE_BLOCKED] by auto
  note A = rt_okD [OF w1(2)]
  obtain p where p: "pool_of w1 t = Some p"
    using hands_okD(3) [OF A(6) t] by auto
  have "rt_ok B (H - {t}) K S (\<lambda>q. L q - one (pool_of w t) q) w1"
  proof (rule rt_okI)
    show "units_sound B w1"
      by (rule A(1))
    show "stacks_ok (H - {t}) S w1"
      using A(2) w1(3) by (auto simp: stacks_ok_def)
    show "queues_ok (H - {t}) w1"
      using A(3) unfolding queues_ok_def by (metis DiffD1)
    show "links_ok (H - {t}) K w1"
      using A(5) unfolding links_ok_def by (metis DiffD1)
    show "hands_ok (H - {t}) w1"
      using A(6) by (auto simp: hands_ok_def)
    show "counts_ok (H - {t}) (\<lambda>q. L q - one (pool_of w t) q) w1"
      unfolding counts_ok_def
    proof (intro conjI allI impI)
      fix q
      have "blocked_in (H - {t}) w1 q = (if q = p then insert t (blocked_in H w1 q) else blocked_in H w1 q)"
        using t w1(3) p by (auto simp: blocked_in_def)
      moreover have "t \<notin> blocked_in H w1 q" "finite (blocked_in H w1 q)"
        using blocked_finite [OF A(1)] t by (auto simp: blocked_in_def)
      ultimately have "card (blocked_in (H - {t}) w1 q) = card (blocked_in H w1 q) + of_bool (q = p)"
        by (cases "q = p") (simp_all add: card_insert_disjoint)
      moreover have "rt_blocked w1 q = int (card (blocked_in H w1 q)) + L q"
        using A(4) by (simp add: counts_ok_def)
      ultimately show "rt_blocked w1 q = int (card (blocked_in (H - {t}) w1 q)) + (L q - one (pool_of w t) q)"
        using p w1(4) by (auto simp: of_bool_def)
    qed (use A(4) p in \<open>auto simp: counts_ok_def\<close>)
  qed
  then show ?thesis
    using w1 by auto
qed

lemma unset_frame:
  assumes "ABTI_thread_unset_associated_pool t a = Some a'"
  shows "as_pool a' = (as_pool a)(t := None)" "as_unit a' = (as_unit a)(t := 0)"
  using assms
  by (auto simp: ABTI_thread_unset_associated_pool_def Let_def set_unit_def drop_user_unit_def pool_call_def
      split: if_splits bind_splits)

lemma terminate_named:
  assumes ok: "rt_ok B H K S L w" and t: "t \<in> H"
  shows "rt_ok B (H - {t}) (K - {t}) S L (put t (wu_state_update (\<lambda>_. ABT_THREAD_STATE_TERMINATED)) w)"
    (is "rt_ok _ _ _ _ _ ?w")
proof (rule rt_okI)
  note A = rt_okD [OF ok]
  note h = hands_okD [OF A(6) t]
  have other: "par ?w = par w" "lst ?w = lst w" "lnk ?w = lnk w" "req ?w = req w" "mig ?w = mig w"
    by (rule put_views; simp)+
  have st: "st ?w s = (if s = t then Some ABT_THREAD_STATE_TERMINATED else st w s)" for s
    using h by simp
  show "units_sound B ?w"
    using A(1) by (simp add: units_sound_def other)
  show "stacks_ok (H - {t}) S ?w"
    by (rule stacks_cong [OF A(2), of "{t}"]) (use hand_off_stack [OF ok t] h(1) in \<open>auto simp: other\<close>)
  show "queues_ok (H - {t}) ?w"
    using A(3) t unfolding queues_ok_def st put_simps(1,2) by (metis DiffD1)
  have b: "blocked_in (H - {t}) ?w p = blocked_in H w p" for p
    using t unfolding blocked_in_def st by auto
  show "counts_ok (H - {t}) L ?w"
  proof (rule count_cong [OF A(4) b])
    fix s
    assume "st ?w s = Some ABT_THREAD_STATE_BLOCKED" "s \<notin> H - {t}"
    then have "st w s = Some ABT_THREAD_STATE_BLOCKED" "s \<notin> H"
      unfolding st by (auto split: if_splits)
    then show "pool_of ?w s \<noteq> None"
      using A(4) by (simp add: counts_ok_def)
  qed simp
  have js: "joins K w j s" "s \<noteq> t" if "joins (K - {t}) ?w j s" for j s
    using that unfolding joins_def st other by (auto split: if_splits)
  show "links_ok (H - {t}) (K - {t}) ?w"
  proof (rule links_cong [OF A(5) js(1)])
    fix j s
    assume "joins K w j s"
    then have "j \<noteq> t" "st w j = Some ABT_THREAD_STATE_BLOCKED"
      using links_okD(1,2) [OF A(5)] t by blast+
    then show "st ?w j = Some ABT_THREAD_STATE_BLOCKED \<and> j \<notin> H - {t}"
      unfolding st using links_okD(2) [OF A(5) \<open>joins K w j s\<close>] by simp
  next
    fix s
    assume "s \<notin> K - {t}" "st ?w s \<noteq> Some ABT_THREAD_STATE_TERMINATED" "ABTI_THREAD_REQ_JOIN \<in> req ?w s"
    then show "lnk ?w s \<noteq> None"
      unfolding st other using links_okD(4) [OF A(5), of s] by (auto split: if_splits)
  qed
  show "hands_ok (H - {t}) ?w"
    using A(6) by (auto simp: hands_ok_def)
qed

text \<open>An ended work unit that is not named is freed at once.\<close>

lemma free_ended:
  assumes ok: "rt_ok B H K S L w" and t: "st w t = Some ABT_THREAD_STATE_TERMINATED" "pool_of w t \<noteq> None"
  shows "\<exists>w'. thread_free True t w = Some w' \<and> rt_ok B H K S L w' \<and> rt_unit w' t = None \<and>
    (\<forall>s. s \<noteq> t \<longrightarrow> rt_unit w' s = rt_unit w s \<and> pool_of w' s = pool_of w s \<and> unit_of w' s = unit_of w s)"
proof -
  note A = rt_okD [OF ok]
  obtain q where q: "pool_of w t = Some q"
    using t(2) by auto
  have "assoc_ok B (rt_assoc w)"
    using A(1) by (simp add: units_sound_def)
  then obtain a where a: "ABTI_thread_unset_associated_pool t (rt_assoc w) = Some a" "assoc_ok B a"
    using unset_ok q by blast
  note f = unset_frame [OF a(1)]
  define w' where "w' = w\<lparr>rt_assoc := a, rt_unit := (rt_unit w)(t := None)\<rparr>"
  have eq: "rt_unit w' = (rt_unit w)(t := None)" "rt_queue w' = rt_queue w" "rt_blocked w' = rt_blocked w"
    "rt_thread w' = rt_thread w" "rt_assoc w' = a"
    by (simp_all add: w'_def)
  have v: "st w' s = (if s = t then None else st w s)" "par w' s = (if s = t then None else par w s)"
    "lst w' s = (if s = t then None else lst w s)" "lnk w' s = (if s = t then None else lnk w s)"
    "req w' s = (if s = t then {} else req w s)" "mig w' s = (if s = t then None else mig w s)" for s
    by (simp_all add: views eq)
  have "t \<notin> set (S x)" for x
    using stacks_okD(7) [OF A(2), of t x] t(1) by auto
  then have out: "{t} \<inter> (\<Union>x. set (S x)) = {}" "t \<notin> H"
    using hands_okD(2) [OF A(6), of t] t(1) by auto
  have "rt_ok B H K S L w'"
  proof (rule rt_okI)
    show "units_sound B w'"
      using A(1) a(2) by (auto simp: units_sound_def v f eq)
    show "stacks_ok H S w'"
      by (rule stacks_cong [OF A(2), of "{t}"]) (use out(1) in \<open>simp_all add: v f eq split: if_splits\<close>)
    show "queues_ok H w'"
      unfolding queues_ok_def
    proof (intro allI conjI ballI)
      fix p u
      show "distinct (rt_queue w' p)"
        using A(3) by (simp add: queues_ok_def eq)
      assume "u \<in> set (rt_queue w' p)"
      then obtain s where s: "unit_of w s = u" "pool_of w s = Some p" "st w s = Some ABT_THREAD_STATE_READY" "s \<notin> H"
        using A(3) unfolding queues_ok_def eq by blast
      then have "s \<noteq> t"
        using t(1) by auto
      then show "\<exists>s. unit_of w' s = u \<and> pool_of w' s = Some p \<and> st w' s = Some ABT_THREAD_STATE_READY \<and> s \<notin> H"
        using s by (intro exI [of _ s]) (simp add: v f eq)
    qed
    have b: "blocked_in H w' p = blocked_in H w p" for p
      using t(1) by (auto simp: blocked_in_def v f eq)
    show "counts_ok H L w'"
      by (rule count_cong [OF A(4) b]) (use A(4) in \<open>auto simp: counts_ok_def v f eq split: if_splits\<close>)
    have js: "joins K w j s" if "joins K w' j s" for j s
      using that by (auto simp: joins_def v split: if_splits)
    show "links_ok H K w'"
    proof (rule links_cong [OF A(5) js])
      fix j s
      assume "st w j = Some ABT_THREAD_STATE_BLOCKED" "j \<notin> H"
      then show "st w' j = Some ABT_THREAD_STATE_BLOCKED \<and> j \<notin> H"
        using t(1) by (auto simp: v)
    next
      fix s
      assume "s \<notin> K" "st w' s \<noteq> Some ABT_THREAD_STATE_TERMINATED" "ABTI_THREAD_REQ_JOIN \<in> req w' s"
      then show "lnk w' s \<noteq> None"
        using links_okD(4) [OF A(5), of s] by (auto simp: v split: if_splits)
    qed
    show "hands_ok H w'"
      using A(6) out(2) by (auto simp: hands_ok_def v f eq)
  qed
  moreover have "thread_free True t w = Some w'"
    using a(1) live [OF t(1)] by (auto simp: thread_free_def w'_def)
  ultimately show ?thesis
    by (simp add: eq f)
qed

lemma terminate_ok:
  assumes ok: "rt_ok B H K S L w" and t: "t \<in> H"
  shows "\<exists>w'. ABTI_thread_terminate t w = Some w' \<and> rt_ok B (H - {t}) (K - {t}) S L w' \<and>
    (st w' t = Some ABT_THREAD_STATE_TERMINATED \<or> rt_unit w' t = None) \<and>
    (\<forall>s. s \<noteq> t \<longrightarrow> rt_unit w' s = rt_unit w s \<and> pool_of w' s = pool_of w s \<and> unit_of w' s = unit_of w s)"
proof -
  let ?w = "put t (wu_state_update (\<lambda>_. ABT_THREAD_STATE_TERMINATED)) w"
  note h = hands_okD [OF rt_okD(6) [OF ok] t]
  obtain u where u: "rt_unit w t = Some u"
    using h(1) by auto
  have w1: "set_state ABT_THREAD_STATE_TERMINATED t w = Some ?w" "rt_ok B (H - {t}) (K - {t}) S L ?w"
    using u terminate_named [OF ok t] by (simp_all add: set_state_def upd_put)
  have ended: "st ?w t = Some ABT_THREAD_STATE_TERMINATED" "pool_of ?w t \<noteq> None"
    using h by simp_all
  show ?thesis
  proof (cases "ABTI_THREAD_TYPE_NAMED \<in> wu_type u")
    case True
    then show ?thesis
      using w1 u ended by (auto simp: ABTI_thread_terminate_def put_unit)
  next
    case False
    then show ?thesis
      using w1 u free_ended [OF w1(2) ended] by (auto simp: ABTI_thread_terminate_def put_unit)
  qed
qed

end
