(* ===== verification/YthreadRequests.thy ===== *)
theory YthreadRequests
  imports YthreadMoves
begin

text \<open>
  The effect of resuming, of handling requests and of context switches on the invariant of theory
  YthreadInv.
\<close>

section \<open>Resuming\<close>

lemma resume_and_push_hand:
  assumes ok: "rt_ok B (insert j H) K S (\<lambda>q. L q + one (pool_of w j) q) w" and j: "j \<notin> H"
    and b: "st w j = Some ABT_THREAD_STATE_BLOCKED"
  shows "\<exists>w'. ABTI_ythread_resume_and_push j w = Some w' \<and> rt_ok B H K S L w' \<and> rt_assoc w' = rt_assoc w \<and>
    (\<forall>s. rt_unit w' s = None \<longleftrightarrow> rt_unit w s = None) \<and> (\<forall>s. s \<noteq> j \<longrightarrow> st w' s = st w s)"
proof -
  obtain u where u: "rt_unit w j = Some u" "wu_state u = ABT_THREAD_STATE_BLOCKED"
    using live [OF b] by auto
  obtain p where p: "pool_of w j = Some p"
    using hands_okD(3) [OF rt_okD(6) [OF ok] insertI1] by blast
  obtain w1 where w1: "ABTI_pool_add_thread j w = Some w1" "rt_ok B (insert j H - {j}) K S (\<lambda>q. L q + one (pool_of w j) q) w1"
    "rt_assoc w1 = rt_assoc w" "\<forall>s. rt_unit w1 s = None \<longleftrightarrow> rt_unit w s = None" "\<forall>s. s \<noteq> j \<longrightarrow> st w1 s = st w s"
    using add_thread_ok [OF ok insertI1] by blast
  have H: "insert j H - {j} = H"
    using j by simp
  have "rt_ok B H K S L (ABTI_pool_dec_num_blocked p w1)"
    using dec_ok [OF w1(2) [unfolded H p], of p] by simp
  moreover have "ABTI_ythread_resume_and_push j w = Some (ABTI_pool_dec_num_blocked p w1)"
    by (simp add: ABTI_ythread_resume_and_push_def u p w1(1))
  moreover have "st (ABTI_pool_dec_num_blocked p w1) = st w1"
    by (rule views_cong) simp
  ultimately show ?thesis
    by (intro exI [of _ "ABTI_pool_dec_num_blocked p w1"]) (use w1(3-5) in simp)
qed

lemma resume_and_push_ok:
  assumes ok: "rt_ok B H K S L w" and j: "st w j = Some ABT_THREAD_STATE_BLOCKED" "j \<notin> H"
    and K: "K \<subseteq> K'" "\<And>s. \<not> joins K' w j s"
  shows "\<exists>w'. ABTI_ythread_resume_and_push j w = Some w' \<and> rt_ok B H K' S L w' \<and> rt_assoc w' = rt_assoc w \<and>
    (\<forall>s. rt_unit w' s = None \<longleftrightarrow> rt_unit w s = None) \<and> (\<forall>s. s \<noteq> j \<longrightarrow> st w' s = st w s)"
proof -
  obtain p where p: "pool_of w j = Some p"
    using rt_okD(4) [OF ok] j by (auto simp: counts_ok_def)
  show ?thesis
    using resume_and_push_hand [of B j H K' S L w] take_blocked [OF ok j p K] j p by simp
qed

text \<open>A store that only changes what the invariant does not read, or makes it easier.\<close>

lemma request_ok:
  assumes ok: "rt_ok B H K S L w" and K: "r = ABTI_THREAD_REQ_JOIN \<Longrightarrow> t \<in> K"
    and M: "r = ABTI_THREAD_REQ_MIGRATE \<Longrightarrow> mig w t \<noteq> None"
  shows "rt_ok B H K S L (put t (\<lambda>u. u\<lparr>wu_request := insert r (wu_request u)\<rparr>) w)" (is "rt_ok _ _ _ _ _ ?w")
proof (rule rt_okI)
  note A = rt_okD [OF ok]
  have v: "st ?w = st w" "par ?w = par w" "lst ?w = lst w" "lnk ?w = lnk w" "mig ?w = mig w"
    by (rule put_views; simp)+
  have req: "req ?w s = (if s = t \<and> rt_unit w t \<noteq> None then insert r (req w s) else req w s)" for s
    by (auto simp: req_def put_unit)
  show "units_sound B ?w"
    using A(1) M by (auto simp: units_sound_def v req split: if_splits)
  show "stacks_ok H S ?w" "queues_ok H ?w" "counts_ok H L ?w" "hands_ok H ?w"
    using A(2-4,6) unfolding stacks_ok_def queues_ok_def counts_ok_def blocked_in_def hands_ok_def v put_simps by blast+
  have js: "joins K ?w = joins K w"
    unfolding joins_def v ..
  show "links_ok H K ?w"
  proof (rule links_cong [OF A(5)])
    fix s
    assume s: "s \<notin> K" "st ?w s \<noteq> Some ABT_THREAD_STATE_TERMINATED" "ABTI_THREAD_REQ_JOIN \<in> req ?w s"
    then have "ABTI_THREAD_REQ_JOIN \<in> req w s"
      using K by (auto simp: req split: if_splits)
    then show "lnk ?w s \<noteq> None"
      using links_okD(4) [OF A(5) s(1)] s(2) by (simp add: v)
  qed (simp_all add: js v)
qed

lemma unset_request_ok:
  assumes ok: "rt_ok B H K S L w"
  shows "rt_ok B H K S L (put t (\<lambda>u. u\<lparr>wu_request := wu_request u - {r}\<rparr>) w)" (is "rt_ok _ _ _ _ _ ?w")
proof (rule rt_okI)
  note A = rt_okD [OF ok]
  have v: "st ?w = st w" "par ?w = par w" "lst ?w = lst w" "lnk ?w = lnk w" "mig ?w = mig w"
    by (rule put_views; simp)+
  have req: "q \<in> req ?w s \<Longrightarrow> q \<in> req w s" for q s
    by (auto simp: req_def put_unit split: if_splits option.splits)
  show "units_sound B ?w"
    using A(1) req unfolding units_sound_def v put_simps by blast
  show "stacks_ok H S ?w" "queues_ok H ?w" "counts_ok H L ?w" "hands_ok H ?w"
    using A(2-4,6) unfolding stacks_ok_def queues_ok_def counts_ok_def blocked_in_def hands_ok_def v put_simps by blast+
  have js: "joins K ?w = joins K w"
    unfolding joins_def v ..
  show "links_ok H K ?w"
    by (rule links_cong [OF A(5)]) (use req links_okD(4) [OF A(5)] in \<open>auto simp: js v\<close>)
qed

section \<open>The joiner of an ending work unit\<close>

lemma get_joiner_ok:
  assumes ok: "rt_ok B H K S L w" and t: "rt_unit w t \<noteq> None" "st w t \<noteq> Some ABT_THREAD_STATE_TERMINATED" "t \<notin> K"
  shows "\<exists>j w'. ABTI_ythread_atomic_get_joiner t w = Some (j, w') \<and> rt_ok B H (insert t K) S L w' \<and>
    st w' = st w \<and> par w' = par w \<and> lst w' = lst w \<and> rt_assoc w' = rt_assoc w \<and> rt_thread w' = rt_thread w \<and>
    (\<forall>s. map_option wu_type (rt_unit w' s) = map_option wu_type (rt_unit w s)) \<and>
    (\<forall>jt. j = Some (Joiner jt) \<longrightarrow> st w jt = Some ABT_THREAD_STATE_BLOCKED \<and> jt \<notin> H \<and> joins K w jt t \<and>
      (\<forall>s. \<not> joins (insert t K) w' jt s))"
proof -
  obtain u where u: "rt_unit w t = Some u"
    using t(1) by auto
  have grow: "rt_ok B H (insert t K) S L w"
  proof (rule rt_okI)
    note A = rt_okD [OF ok]
    show "links_ok H (insert t K) w"
      by (rule links_cong [OF A(5)]) (use links_okD(4) [OF A(5)] in \<open>auto simp: joins_def\<close>)
  qed (use rt_okD [OF ok] in blast)+
  show ?thesis
  proof (cases "wu_link u")
    case None
    have "ABTI_THREAD_REQ_JOIN \<notin> req w t"
      using links_okD(4) [OF rt_okD(5) [OF ok] t(3,2)] None u by (auto simp: lnk_def)
    then have "ABTI_THREAD_REQ_JOIN \<notin> wu_request u"
      using u by (simp add: req_def)
    moreover let ?w = "put t (\<lambda>u. u\<lparr>wu_request := insert ABTI_THREAD_REQ_JOIN (wu_request u)\<rparr>) w"
    have "rt_ok B H (insert t K) S L ?w"
      by (rule request_ok [OF grow]) simp_all
    moreover have "st ?w = st w" "par ?w = par w" "lst ?w = lst w"
      by (rule put_views; simp)+
    moreover have "\<forall>s. map_option wu_type (rt_unit ?w s) = map_option wu_type (rt_unit w s)"
      by (auto simp: put_unit option.map_comp comp_def)
    ultimately show ?thesis
      using u None by (simp add: ABTI_ythread_atomic_get_joiner_def ABTI_thread_set_request_def upd_put)
  next
    case (Some j)
    have "st w jt = Some ABT_THREAD_STATE_BLOCKED \<and> jt \<notin> H \<and> joins K w jt t \<and> (\<forall>s. \<not> joins (insert t K) w jt s)" if "j = Joiner jt" for jt
    proof -
      have j: "joins K w jt t"
        using Some u t that by (simp add: joins_def lnk_def)
      then have "\<not> joins (insert t K) w jt s" for s
        using links_okD(3) [OF rt_okD(5) [OF ok] j, of s] by (auto simp: joins_def)
      then show ?thesis
        using links_okD(1,2) [OF rt_okD(5) [OF ok] j] j by blast
    qed
    then show ?thesis
      using u Some grow by (simp add: ABTI_ythread_atomic_get_joiner_def)
  qed
qed

lemma resume_joiner_ok:
  assumes ok: "rt_ok B H K S L w" and t: "rt_unit w t \<noteq> None" "st w t \<noteq> Some ABT_THREAD_STATE_TERMINATED" "t \<notin> K"
  shows "\<exists>w'. ABTI_ythread_resume_joiner t w = Some w' \<and> rt_ok B H (insert t K) S L w' \<and> rt_assoc w' = rt_assoc w \<and>
    (\<forall>s. rt_unit w' s = None \<longleftrightarrow> rt_unit w s = None) \<and>
    (\<forall>s. st w s \<noteq> Some ABT_THREAD_STATE_BLOCKED \<or> s \<in> H \<longrightarrow> st w' s = st w s) \<and>
    (\<forall>s. st w s = Some ABT_THREAD_STATE_BLOCKED \<longrightarrow> (\<forall>r. \<not> joins K w s r) \<longrightarrow> st w' s = st w s)"
proof -
  obtain j w1 where w1: "ABTI_ythread_atomic_get_joiner t w = Some (j, w1)" "rt_ok B H (insert t K) S L w1"
    "st w1 = st w" "rt_assoc w1 = rt_assoc w"
    and j: "\<And>jt. j = Some (Joiner jt) \<Longrightarrow> st w jt = Some ABT_THREAD_STATE_BLOCKED \<and> jt \<notin> H \<and> joins K w jt t \<and>
      (\<forall>s. \<not> joins (insert t K) w1 jt s)"
    using get_joiner_ok [OF ok t] by blast
  have live: "rt_unit w1 s = None \<longleftrightarrow> rt_unit w s = None" for s
    using w1(3) st_None by metis
  have quiet: ?thesis if "ABTI_ythread_resume_joiner t w = Some w2" "rt_ok B H (insert t K) S L w2"
    "rt_unit w2 = rt_unit w1" "rt_assoc w2 = rt_assoc w1" for w2
    using that w1(3,4) live views_cong(1) [OF that(3)] by metis
  consider "j = None" | f where "j = Some (Joiner_ext f)" | jt where "j = Some (Joiner jt)"
    by (metis joiner.exhaust option.exhaust)
  then show ?thesis
  proof cases
    case 1
    then show ?thesis
      using quiet [of w1] w1(1,2) by (simp add: ABTI_ythread_resume_joiner_def)
  next
    case (2 f)
    have "rt_ok B H (insert t K) S L (ABTD_futex_resume f w1)"
      by (rule keep_other [OF w1(2)]) (simp_all add: ABTD_futex_resume_def)
    then show ?thesis
      using 2 quiet [of "ABTD_futex_resume f w1"] w1(1)
      by (simp add: ABTI_ythread_resume_joiner_def ABTD_futex_resume_def)
  next
    case (3 jt)
    note jt = j [OF 3]
    obtain w2 where w2: "ABTI_ythread_resume_and_push jt w1 = Some w2" "rt_ok B H (insert t K) S L w2"
      "rt_assoc w2 = rt_assoc w1" "\<forall>s. rt_unit w2 s = None \<longleftrightarrow> rt_unit w1 s = None" "\<forall>s. s \<noteq> jt \<longrightarrow> st w2 s = st w1 s"
      using resume_and_push_ok [OF w1(2), of jt "insert t K"] jt w1(3) by auto
    have "ABTI_ythread_resume_joiner t w = Some w2"
      by (simp add: ABTI_ythread_resume_joiner_def w1(1) 3 w2(1))
    moreover have "s \<noteq> jt" if "st w s \<noteq> Some ABT_THREAD_STATE_BLOCKED \<or> s \<in> H" for s
      using jt that by blast
    moreover have "s \<noteq> jt" if "\<forall>r. \<not> joins K w s r" for s
      using jt that by blast
    ultimately show ?thesis
      using w2(2-5) w1(3,4) live by metis
  qed
qed

section \<open>Handling requests\<close>

text \<open>What a user's pool gives as a new unit is an address that is in no use.\<close>

definition fresh_env :: "(nat \<Rightarrow> bool) \<Rightarrow> env \<Rightarrow> runtime \<Rightarrow> bool" where
  "fresh_env B E w \<longleftrightarrow> en_builtin E = B \<and> even (en_new_unit E) \<and>
     table_map (as_table (rt_assoc w)) (en_new_unit E) = None"

lemma set_pool_ok:
  assumes ok: "rt_ok B H K S L w" and t: "t \<in> H" and E: "fresh_env B E w"
  shows "\<exists>ret w'. set_associated_pool E t p w = Some (ret, w') \<and> rt_ok B H K S L w' \<and> rt_unit w' = rt_unit w \<and>
    rt_thread w' = rt_thread w \<and> pool_of w' = (if ret = ABT_SUCCESS then (pool_of w)(t := Some p) else pool_of w)"
proof -
  note A = rt_okD [OF ok]
  obtain q where q: "pool_of w t = Some q"
    using hands_okD(3) [OF A(6) t] by blast
  have "assoc_ok B (rt_assoc w)"
    using A(1) by (simp add: units_sound_def)
  then obtain ret a where a: "ABTI_thread_set_associated_pool B (en_malloc_ok E) (en_new_unit E) t p (rt_assoc w) = Some (ret, a)"
    "assoc_ok B a" "changed ret t p (rt_assoc w) a"
    using set_associated_pool_ok [OF _ q] E unfolding fresh_env_def by blast
  define w' where "w' = w\<lparr>rt_assoc := a\<rparr>"
  have eq: "rt_unit w' = rt_unit w" "rt_queue w' = rt_queue w" "rt_blocked w' = rt_blocked w"
    "rt_thread w' = rt_thread w" "rt_assoc w' = a"
    by (simp_all add: w'_def)
  note v = views_cong [OF eq(1)]
  have pool: "as_pool a = (if ret = ABT_SUCCESS then (pool_of w)(t := Some p) else pool_of w)"
    using a(3) by (simp add: changed_def split: if_splits)
  have unit: "as_unit a s = unit_of w s" if "s \<noteq> t" for s
    using a(3) that by (simp add: changed_def split: if_splits)
  have other: "pool_of w' s = pool_of w s" "unit_of w' s = unit_of w s" if "s \<noteq> t" for s
    using that by (simp_all add: eq pool unit)
  have none: "pool_of w' s = None \<longleftrightarrow> pool_of w s = None" for s
    using q by (simp add: eq pool)
  have "rt_ok B H K S L w'"
  proof (rule rt_okI)
    show "units_sound B w'"
      using A(1) a(2) none unfolding units_sound_def v eq(1) by (simp add: eq(5))
    show "stacks_ok H S w'"
      using A(2) unfolding stacks_ok_def v eq(4) none .
    show "queues_ok H w'"
      unfolding queues_ok_def v eq(2)
    proof (intro allI conjI ballI)
      fix r u
      show "distinct (rt_queue w r)"
        using A(3) by (simp add: queues_ok_def)
      assume "u \<in> set (rt_queue w r)"
      then obtain s where s: "unit_of w s = u" "pool_of w s = Some r" "st w s = Some ABT_THREAD_STATE_READY" "s \<notin> H"
        using A(3) unfolding queues_ok_def by blast
      then have "s \<noteq> t"
        using t by blast
      then show "\<exists>s. unit_of w' s = u \<and> pool_of w' s = Some r \<and> st w s = Some ABT_THREAD_STATE_READY \<and> s \<notin> H"
        using s other by metis
    qed
    have b: "blocked_in H w' r = blocked_in H w r" for r
      unfolding blocked_in_def v using other t by (metis (mono_tags, lifting))
    show "counts_ok H L w'"
      using A(4) unfolding counts_ok_def b v eq(3) none .
    show "links_ok H K w'"
      using A(5) unfolding links_ok_def joins_def v .
    show "hands_ok H w'"
      using A(6) unfolding hands_ok_def v eq(1) none .
  qed
  moreover have "set_associated_pool E t p w = Some (ret, w')"
    using a(1) E by (simp add: set_associated_pool_def w'_def fresh_env_def)
  ultimately show ?thesis
    by (intro exI [of _ ret] exI [of _ w']) (simp add: eq pool)
qed

text \<open>What handling the requests of \<open>t\<close> leaves alone.\<close>

definition same_but :: "thread_ptr \<Rightarrow> runtime \<Rightarrow> runtime \<Rightarrow> bool" where
  "same_but t w w' \<longleftrightarrow> (\<forall>s. s \<noteq> t \<longrightarrow> pool_of w' s = pool_of w s \<and>
     (rt_unit w' s = None \<longleftrightarrow> rt_unit w s = None) \<and>
     (st w s \<noteq> Some ABT_THREAD_STATE_BLOCKED \<longrightarrow> st w' s = st w s))"

lemma migrate_ok:
  assumes ok: "rt_ok B H K S L w" and t: "t \<in> H" "ABTI_THREAD_REQ_MIGRATE \<in> req w t" and E: "fresh_env B E w"
  shows "\<exists>ret w'. ABTI_thread_handle_request_migrate E t w = Some (ret, w') \<and> rt_ok B H K S L w' \<and>
    st w' = st w \<and> par w' = par w \<and> lnk w' = lnk w \<and> same_but t w w' \<and>
    pool_of w' t = (if ret = ABT_SUCCESS then mig w t else pool_of w t)"
proof -
  obtain p where p: "mig w t = Some p"
    using rt_okD(1) [OF ok] t(2) unfolding units_sound_def by blast
  then obtain u m where u: "rt_unit w t = Some u" "wu_mig u = Some m" "md_pool m = Some p"
    by (auto simp: mig_def split: bind_splits)
  obtain ret w1 where w1: "set_associated_pool E t p w = Some (ret, w1)" "rt_ok B H K S L w1" "rt_unit w1 = rt_unit w"
    "rt_thread w1 = rt_thread w" "pool_of w1 = (if ret = ABT_SUCCESS then (pool_of w)(t := Some p) else pool_of w)"
    using set_pool_ok [OF ok t(1) E] by blast
  note v = views_cong [OF w1(3)]
  have get: "ABTI_thread_get_mig_data E t w = Some (Inr m, w)"
    by (simp add: ABTI_thread_get_mig_data_def u)
  show ?thesis
  proof (cases "ret = ABT_SUCCESS")
    case False
    have "ABTI_thread_handle_request_migrate E t w = Some (ret, w1)"
      using False by (simp add: ABTI_thread_handle_request_migrate_def get u(3) w1(1))
    then show ?thesis
      using w1 v False by (simp add: same_but_def)
  next
    case True
    define w2 where "w2 = (case md_cb m of None \<Rightarrow> w1 | Some f \<Rightarrow> w1\<lparr>rt_callbacks := rt_callbacks w1 @ [(t, f)]\<rparr>)"
    have eq: "rt_unit w2 = rt_unit w1" "rt_assoc w2 = rt_assoc w1" "rt_queue w2 = rt_queue w1"
      "rt_thread w2 = rt_thread w1" "rt_blocked w2 = rt_blocked w1"
      by (simp_all add: w2_def split: option.split)
    have ok2: "rt_ok B H K S L w2"
      by (rule keep_other [OF w1(2) eq(1-4)]) (simp add: eq(5))
    let ?w = "put t (\<lambda>u. u\<lparr>wu_request := wu_request u - {ABTI_THREAD_REQ_MIGRATE}\<rparr>) w2"
    have "st ?w = st w2" "par ?w = par w2" "lnk ?w = lnk w2"
      by (rule put_views; simp)+
    then have same: "st ?w = st w" "par ?w = par w" "lnk ?w = lnk w"
      using views_cong [OF eq(1)] v by simp_all
    have "ABTI_thread_handle_request_migrate E t w = Some (ABT_SUCCESS, ?w)"
      using True by (simp add: ABTI_thread_handle_request_migrate_def get u w1(1,3) w2_def [symmetric] Let_def
        ABTI_thread_unset_request_def upd_put eq(1))
    moreover have "rt_ok B H K S L ?w"
      by (rule unset_request_ok [OF ok2])
    moreover have "same_but t w ?w"
      using w1 True by (simp add: same_but_def eq same)
    ultimately show ?thesis
      using w1(5) True p by (intro exI [of _ ret] exI [of _ ?w]) (simp add: eq same)
  qed
qed

lemma same_but_trans: "same_but t w w1 \<Longrightarrow> same_but t w1 w2 \<Longrightarrow>
    (\<And>s. st w s \<noteq> Some ABT_THREAD_STATE_BLOCKED \<Longrightarrow> s \<noteq> t \<Longrightarrow> st w1 s \<noteq> Some ABT_THREAD_STATE_BLOCKED) \<Longrightarrow> same_but t w w2"
  by (simp add: same_but_def)

definition ended :: "thread_ptr \<Rightarrow> runtime \<Rightarrow> bool" where
  "ended t w \<longleftrightarrow> st w t = Some ABT_THREAD_STATE_TERMINATED \<or> rt_unit w t = None"

lemma terminate_same:
  assumes "\<forall>s. s \<noteq> t \<longrightarrow> rt_unit w' s = rt_unit w s \<and> pool_of w' s = pool_of w s \<and> unit_of w' s = unit_of w s"
  shows "same_but t w w'" "s \<noteq> t \<Longrightarrow> st w' s = st w s"
  using assms by (simp_all add: same_but_def st_def)

lemma cancel_ok:
  assumes ok: "rt_ok B H K S L w" and t: "t \<in> H" "t \<notin> K"
  shows "\<exists>w'. ABTI_thread_handle_request_cancel t w = Some w' \<and> rt_ok B (H - {t}) K S L w' \<and> same_but t w w' \<and> ended t w'"
proof -
  note h = hands_okD [OF rt_okD(6) [OF ok] t(1)]
  obtain u where u: "rt_unit w t = Some u"
    using h(1) by blast
  obtain w1 K1 where w1: "(if ABTI_THREAD_TYPE_YIELDABLE \<in> wu_type u then ABTI_ythread_resume_joiner t w else Some w) = Some w1"
    "rt_ok B H K1 S L w1" "K1 - {t} = K" "same_but t w w1" "\<And>s. st w s \<noteq> Some ABT_THREAD_STATE_BLOCKED \<Longrightarrow> st w1 s = st w s"
  proof (cases "ABTI_THREAD_TYPE_YIELDABLE \<in> wu_type u")
    case True
    obtain w1 where w1: "ABTI_ythread_resume_joiner t w = Some w1" "rt_ok B H (insert t K) S L w1" "rt_assoc w1 = rt_assoc w"
      "\<forall>s. rt_unit w1 s = None \<longleftrightarrow> rt_unit w s = None"
      "\<forall>s. st w s \<noteq> Some ABT_THREAD_STATE_BLOCKED \<or> s \<in> H \<longrightarrow> st w1 s = st w s"
      using resume_joiner_ok [OF ok h(1,2) t(2)] by blast
    show ?thesis
      by (rule that [of w1 "insert t K"]) (use True w1 t in \<open>simp_all add: same_but_def\<close>)
  next
    case False
    show ?thesis
      by (rule that [of w K]) (use False ok t in \<open>simp_all add: same_but_def\<close>)
  qed
  obtain w2 where w2: "ABTI_thread_terminate t w1 = Some w2" "rt_ok B (H - {t}) (K1 - {t}) S L w2"
    "st w2 t = Some ABT_THREAD_STATE_TERMINATED \<or> rt_unit w2 t = None"
    "\<forall>s. s \<noteq> t \<longrightarrow> rt_unit w2 s = rt_unit w1 s \<and> pool_of w2 s = pool_of w1 s \<and> unit_of w2 s = unit_of w1 s"
    using terminate_ok [OF w1(2) t(1)] by blast
  have "same_but t w w2"
    by (rule same_but_trans [OF w1(4) terminate_same(1) [OF w2(4)]]) (simp add: w1(5))
  moreover have "ABTI_thread_handle_request_cancel t w = Some w2"
    by (simp add: ABTI_thread_handle_request_cancel_def u w1(1) w2(1))
  ultimately show ?thesis
    using w2(2,3) w1(3) by (simp add: ended_def)
qed

lemma handle_request_ok:
  assumes ok: "rt_ok B H K S L w" and t: "t \<in> H" "t \<notin> K" and E: "fresh_env B E w"
  shows "\<exists>h w'. ABTI_thread_handle_request E t allow w = Some (h, w') \<and> same_but t w w' \<and>
    (if h = ABTI_THREAD_HANDLE_REQUEST_CANCELLED then allow \<and> rt_ok B (H - {t}) K S L w' \<and> ended t w'
     else rt_ok B H K S L w' \<and> st w' = st w \<and> par w' = par w \<and> lnk w' = lnk w)"
proof -
  note h = hands_okD [OF rt_okD(6) [OF ok] t(1)]
  obtain u where u: "rt_unit w t = Some u"
    using h(1) by blast
  then have r: "req w t = wu_request u"
    by (simp add: req_def)
  consider (cancel) "allow" "ABTI_THREAD_REQ_CANCEL \<in> wu_request u"
    | (migrate) "\<not> (allow \<and> ABTI_THREAD_REQ_CANCEL \<in> wu_request u)" "ABTI_THREAD_REQ_MIGRATE \<in> wu_request u"
    | (none) "\<not> (allow \<and> ABTI_THREAD_REQ_CANCEL \<in> wu_request u)" "ABTI_THREAD_REQ_MIGRATE \<notin> wu_request u"
    by blast
  then show ?thesis
  proof cases
    case cancel
    obtain w' where w': "ABTI_thread_handle_request_cancel t w = Some w'" "rt_ok B (H - {t}) K S L w'" "same_but t w w'" "ended t w'"
      using cancel_ok [OF ok t] by blast
    then show ?thesis
      using cancel by (intro exI [of _ ABTI_THREAD_HANDLE_REQUEST_CANCELLED] exI [of _ w'])
        (simp add: ABTI_thread_handle_request_def u)
  next
    case migrate
    obtain ret w' where w': "ABTI_thread_handle_request_migrate E t w = Some (ret, w')" "rt_ok B H K S L w'"
      "st w' = st w" "par w' = par w" "lnk w' = lnk w" "same_but t w w'"
      using migrate_ok [OF ok t(1) _ E] migrate(2) r by blast
    have "ABTI_thread_handle_request E t allow w = Some (if ret = ABT_SUCCESS then ABTI_THREAD_HANDLE_REQUEST_MIGRATED
        else ABTI_THREAD_HANDLE_REQUEST_NONE, w')"
      using migrate by (simp add: ABTI_thread_handle_request_def u w'(1))
    then show ?thesis
      using w' by (intro exI conjI) (assumption | simp)+
  next
    case none
    have "ABTI_thread_handle_request E t allow w = Some (ABTI_THREAD_HANDLE_REQUEST_NONE, w)"
      using none by (simp add: ABTI_thread_handle_request_def u)
    then show ?thesis
      using ok by (intro exI [of _ ABTI_THREAD_HANDLE_REQUEST_NONE] exI [of _ w]) (simp add: same_but_def)
  qed
qed

section \<open>Context switches\<close>

text \<open>The current work unit leaves; its parent, the next of the stack, runs again.\<close>

lemma leave_ok:
  assumes ok: "rt_ok B H K S L w" and S: "S x = t # q # r"
  shows "rt_ok B (insert t H) K (S(x := q # r)) L (set_thread x q w)" "par w t = Some q" "lst w q = Some x"
proof -
  note A = rt_okD [OF ok]
  note St = stacks_okD [OF A(2)]
  have eq: "rt_unit (set_thread x q w) = rt_unit w" "rt_assoc (set_thread x q w) = rt_assoc w"
    "rt_queue (set_thread x q w) = rt_queue w" "rt_blocked (set_thread x q w) = rt_blocked w"
    "rt_thread (set_thread x q w) = (rt_thread w)(x := q)"
    by simp_all
  note v = views_cong [OF eq(1)]
  have t: "t \<notin> H" "st w t = Some ABT_THREAD_STATE_RUNNING" "pool_of w t \<noteq> None"
    using St(6,7,9) [of t x] S by simp_all
  have out: "t \<notin> set (S y)" if "y \<noteq> x" for y
    using St(8) [of t x] St(8) [of t y] S that by auto
  have t': "t \<notin> set (q # r)"
    using St(3) [of x] S by simp
  show "par w t = Some q" "lst w q = Some x"
    using St(4) [of x] St(8) [of q x] S by simp_all
  show "rt_ok B (insert t H) K (S(x := q # r)) L (set_thread x q w)"
  proof (rule rt_okI)
    show "units_sound B (set_thread x q w)"
      using A(1) unfolding units_sound_def v eq .
    show "stacks_ok (insert t H) (S(x := q # r)) (set_thread x q w)"
      unfolding stacks_ok_def v eq
    proof (intro conjI allI ballI impI)
      fix y
      let ?S = "S(x := q # r)"
      show "distinct (?S y)" "successively (\<lambda>a b. par w a = Some b) (?S y)"
        using St(3,4) [of y] S by (auto split: if_splits)
      show "?S y \<noteq> [] \<Longrightarrow> ((rt_thread w)(x := q)) y = hd (?S y)" "?S y \<noteq> [] \<Longrightarrow> par w (last (?S y)) = None"
        using St(2,5) [of y] S by (auto split: if_splits)
      fix s
      assume s: "s \<in> set (?S y)"
      then have "s \<in> set (S y)" "s \<noteq> t"
        using S t' out by (auto split: if_splits)
      then show "s \<notin> insert t H" "st w s = Some ABT_THREAD_STATE_RUNNING" "lst w s = Some y"
        using St(6-8) [of s y] by simp_all
    next
      fix y s
      assume "s \<in> set (butlast ((S(x := q # r)) y))"
      then have "s \<in> set (butlast (S y))"
        using S by (auto split: if_splits)
      then show "pool_of w s \<noteq> None"
        by (rule St(9))
    next
      fix s
      assume "st w s = Some ABT_THREAD_STATE_RUNNING" "s \<notin> insert t H"
      then obtain y where "s \<in> set (S y)" "s \<noteq> t"
        using St(10) [of s] by blast
      then have "s \<in> set ((S(x := q # r)) y)"
        using S by auto
      then show "\<exists>y. s \<in> set ((S(x := q # r)) y)" ..
    qed
    show "queues_ok (insert t H) (set_thread x q w)"
      using A(3) t(2) unfolding queues_ok_def v eq by (metis insertE option.inject thread_state.distinct(1))
    have b: "blocked_in (insert t H) (set_thread x q w) p = blocked_in H w p" for p
      using t(2) unfolding blocked_in_def v eq by auto
    show "counts_ok (insert t H) L (set_thread x q w)"
      by (rule count_cong [OF A(4) b]) (use A(4) in \<open>auto simp: counts_ok_def v\<close>)
    show "links_ok (insert t H) K (set_thread x q w)"
      by (rule links_cong [OF A(5)]) (use t(2) links_okD(4) [OF A(5)] in \<open>auto simp: joins_def v\<close>)
    show "hands_ok (insert t H) (set_thread x q w)"
      using A(6) t live [OF t(2)] unfolding hands_ok_def v eq by auto
  qed
qed

text \<open>The state in which \<open>n\<close> is the current work unit of \<open>x\<close> with parent \<open>q\<close>.\<close>

definition entered :: "nat \<Rightarrow> thread_ptr \<Rightarrow> thread_ptr option \<Rightarrow> runtime \<Rightarrow> runtime" where
  "entered x n q w = put n (wu_last_xstream_update (\<lambda>_. Some x)) (set_thread x n (put n (wu_parent_update (\<lambda>_. q)) w))"

lemma entered_views:
  "st (entered x n q w) = st w" "lnk (entered x n q w) = lnk w" "req (entered x n q w) = req w"
  "mig (entered x n q w) = mig w"
  "par (entered x n q w) s = (if s = n \<and> rt_unit w n \<noteq> None then q else par w s)"
  "lst (entered x n q w) s = (if s = n \<and> rt_unit w n \<noteq> None then Some x else lst w s)"
  "rt_assoc (entered x n q w) = rt_assoc w" "rt_queue (entered x n q w) = rt_queue w"
  "rt_blocked (entered x n q w) = rt_blocked w" "rt_thread (entered x n q w) = (rt_thread w)(x := n)"
  "rt_unit (entered x n q w) s = None \<longleftrightarrow> rt_unit w s = None" "dom (rt_unit (entered x n q w)) = dom (rt_unit w)"
proof -
  let ?f = "wu_last_xstream_update (\<lambda>_. Some x)" and ?g = "wu_parent_update (\<lambda>_. q)"
  have f: "st (put n ?f w) = st w" "lnk (put n ?f w) = lnk w" "req (put n ?f w) = req w" "mig (put n ?f w) = mig w"
    "par (put n ?f w) = par w" for w
    by (rule put_views; simp)+
  have g: "st (put n ?g w) = st w" "lnk (put n ?g w) = lnk w" "req (put n ?g w) = req w" "mig (put n ?g w) = mig w"
    "lst (put n ?g w) = lst w" for w
    by (rule put_views; simp)+
  have v: "st (set_thread x n w) = st w" "lnk (set_thread x n w) = lnk w" "req (set_thread x n w) = req w"
    "mig (set_thread x n w) = mig w" "par (set_thread x n w) = par w" "lst (set_thread x n w) = lst w" for w
    by (rule views_cong; simp)+
  show "st (entered x n q w) = st w" "lnk (entered x n q w) = lnk w" "req (entered x n q w) = req w"
    "mig (entered x n q w) = mig w"
    by (simp_all only: entered_def f g v)
  show "par (entered x n q w) s = (if s = n \<and> rt_unit w n \<noteq> None then q else par w s)"
    by (simp only: entered_def f v put_parent)
  show "lst (entered x n q w) s = (if s = n \<and> rt_unit w n \<noteq> None then Some x else lst w s)"
    by (simp only: entered_def g v put_last set_thread_simps put_simps)
  show "rt_assoc (entered x n q w) = rt_assoc w" "rt_queue (entered x n q w) = rt_queue w"
    "rt_blocked (entered x n q w) = rt_blocked w" "rt_thread (entered x n q w) = (rt_thread w)(x := n)"
    "rt_unit (entered x n q w) s = None \<longleftrightarrow> rt_unit w s = None" "dom (rt_unit (entered x n q w)) = dom (rt_unit w)"
    by (simp_all add: entered_def)
qed

lemma enter_ok:
  assumes ok: "rt_ok B H K S L w" and S: "S x = t # r" and n: "n \<in> H" "st w n = Some ABT_THREAD_STATE_RUNNING"
  shows "rt_ok B (H - {n}) K (S(x := n # t # r)) L (entered x n (Some t) w)"
proof -
  note A = rt_okD [OF ok]
  note St = stacks_okD [OF A(2)]
  note v = entered_views [of x n "Some t" w]
  note h = hands_okD [OF A(6) n(1)]
  have out: "n \<notin> set (S y)" for y
    using St(6) n(1) by blast
  show ?thesis
  proof (rule rt_okI)
    show "units_sound B (entered x n (Some t) w)"
      using A(1) unfolding units_sound_def v .
    show "stacks_ok (H - {n}) (S(x := n # t # r)) (entered x n (Some t) w)"
      unfolding stacks_ok_def
    proof (intro conjI allI ballI impI)
      fix y
      let ?S = "S(x := n # t # r)"
      have chain: "successively (\<lambda>a b. par (entered x n (Some t) w) a = Some b) (S y)"
        by (rule successively_mono_on [OF St(4)]) (use out in \<open>auto simp: v(5)\<close>)
      have last: "par (entered x n (Some t) w) (last (S y)) = None" if "S y \<noteq> []"
        using St(5) [of y] out [of y] that last_in_set [of "S y"] by (auto simp: v(5))
      show "?S y \<noteq> [] \<Longrightarrow> rt_thread (entered x n (Some t) w) y = hd (?S y)" "distinct (?S y)"
        using St(2,3) [of y] out [of y] S by (auto simp: v(10) split: if_splits)
      show "successively (\<lambda>a b. par (entered x n (Some t) w) a = Some b) (?S y)"
        using chain S h(1) by (auto simp: v(5))
      show "?S y \<noteq> [] \<Longrightarrow> par (entered x n (Some t) w) (last (?S y)) = None"
        using last S by (auto split: if_splits)
      fix s
      assume "s \<in> set (?S y)"
      then consider "s = n" "y = x" | "s \<in> set (S y)" "s \<noteq> n"
        using S out by (auto split: if_splits)
      then show "s \<notin> H - {n}" "st (entered x n (Some t) w) s = Some ABT_THREAD_STATE_RUNNING"
        "lst (entered x n (Some t) w) s = Some y"
        using St(6-8) [of s y] n h(1) by (cases; simp add: v)+
    next
      fix y s
      assume "s \<in> set (butlast ((S(x := n # t # r)) y))"
      then have "s = n \<or> s \<in> set (butlast (S y))"
        using S by (auto split: if_splits)
      then show "pool_of (entered x n (Some t) w) s \<noteq> None"
        using St(9) h(3) unfolding v by blast
    next
      fix s
      assume "st (entered x n (Some t) w) s = Some ABT_THREAD_STATE_RUNNING" "s \<notin> H - {n}"
      then consider "s = n" | y where "s \<in> set (S y)"
        using St(10) [of s] unfolding v by blast
      then show "\<exists>y. s \<in> set ((S(x := n # t # r)) y)"
      proof cases
        case (2 y)
        then have "s \<in> set ((S(x := n # t # r)) y)"
          using S by auto
        then show ?thesis ..
      qed (auto intro!: exI [of _ x])
    qed
    show "queues_ok (H - {n}) (entered x n (Some t) w)"
      using A(3) unfolding queues_ok_def v by (metis DiffD1)
    have b: "blocked_in (H - {n}) (entered x n (Some t) w) p = blocked_in H w p" for p
      using n(2) unfolding blocked_in_def v by auto
    show "counts_ok (H - {n}) L (entered x n (Some t) w)"
      by (rule count_cong [OF A(4) b]) (use A(4) n(2) in \<open>auto simp: counts_ok_def v\<close>)
    show "links_ok (H - {n}) K (entered x n (Some t) w)"
      by (rule links_cong [OF A(5)]) (use links_okD(4) [OF A(5)] in \<open>auto simp: joins_def v\<close>)
    show "hands_ok (H - {n}) (entered x n (Some t) w)"
      using A(6) unfolding hands_ok_def v by blast
  qed
qed

lemma entered_overwrites: "entered x n q (set_thread x t w) = entered x n q w"
  by (simp add: entered_def set_thread_def put_def)

text \<open>A switch to a sibling: the current work unit is taken in hand, the other one replaces it.\<close>

lemma replace_ok:
  assumes ok: "rt_ok B H K S L w" and S: "S x = t # q # r" and n: "n \<in> H" "st w n = Some ABT_THREAD_STATE_RUNNING"
  shows "rt_ok B (insert t (H - {n})) K (S(x := n # q # r)) L (entered x n (par w t) w)"
proof -
  note l = leave_ok [OF ok S]
  have v: "st (set_thread x q w) = st w"
    by (rule views_cong) simp
  have "t \<noteq> n"
    using stacks_okD(6) [OF rt_okD(2) [OF ok], of t x] S n(1) by auto
  then have "insert t H - {n} = insert t (H - {n})"
    by blast
  then show ?thesis
    using enter_ok [OF l(1), of x q r n] n l(2) v by (simp add: entered_overwrites)
qed

end
