(* ===== verification/YthreadSteps.thy ===== *)
theory YthreadSteps
  imports YthreadRequests
begin

text \<open>
  The operations of a running ULT, composed of the moves of theories YthreadMoves and
  YthreadRequests. Each is shown to have a result, hence to fail no assertion and to access no
  freed work unit, and to preserve the invariant. Only an operation that blocks a work unit while
  migrating it changes the difference \<open>L\<close> between a pool's counter and its BLOCKED work units.
\<close>

section \<open>Switches as moves\<close>

lemma fresh_cong: "fresh_env B E w \<Longrightarrow> rt_assoc w' = rt_assoc w \<Longrightarrow> fresh_env B E w'"
  by (simp add: fresh_env_def)

lemma to_sibling:
  assumes "rt_unit w old \<noteq> None" "rt_unit w new \<noteq> None"
  shows "ABTI_ythread_switch_to_sibling_internal x old new cb w = cb (entered x new (par w old) w)"
    "ABTI_ythread_jump_to_sibling_internal x old new cb w = cb (entered x new (par w old) w)"
  using assms
  by (auto simp: ABTI_ythread_switch_to_sibling_internal_def ABTI_ythread_jump_to_sibling_internal_def
      entered_def upd_put par_def)

lemma to_child:
  "rt_unit w new \<noteq> None \<Longrightarrow> ABTI_ythread_switch_to_child_internal x old new w = Some (entered x new (Some old) w)"
  by (auto simp: ABTI_ythread_switch_to_child_internal_def entered_def upd_put)

lemma to_parent:
  assumes ok: "rt_ok B H K S L w" and S: "S x = t # q # r"
  shows "ABTI_ythread_switch_to_parent_internal x t cb w = cb (set_thread x q w)"
    "ABTI_ythread_jump_to_parent_internal x t cb w = cb (set_thread x q w)"
  using leave_ok(2,3) [OF ok S]
  by (auto simp: ABTI_ythread_switch_to_parent_internal_def ABTI_ythread_jump_to_parent_internal_def
      par_def lst_def Let_def split: bind_splits)

lemma top_facts:
  assumes ok: "rt_ok B H K S L w" and S: "S x = t # r"
  shows "rt_thread w x = t" "t \<notin> H" "st w t = Some ABT_THREAD_STATE_RUNNING" "rt_unit w t \<noteq> None" "lst w t = Some x"
  using stacks_okD(6,7,8) [OF rt_okD(2) [OF ok], of t x] stacks_okD(2) [OF rt_okD(2) [OF ok], of x] S
    live [of w t ABT_THREAD_STATE_RUNNING] by auto

section \<open>Callbacks\<close>

lemma yield_callback:
  assumes ok: "rt_ok B (insert t H) K S L w" and t: "t \<notin> H" "t \<notin> K" and E: "fresh_env B E w"
  shows "\<exists>w'. ythread_callback_yield_impl E t w = Some w' \<and> rt_ok B H K S L w' \<and> same_but t w w'"
proof -
  have H: "insert t H - {t} = H"
    using t(1) by simp
  obtain h w1 where w1: "ABTI_thread_handle_request E t True w = Some (h, w1)" "same_but t w w1"
    and c: "if h = ABTI_THREAD_HANDLE_REQUEST_CANCELLED then True \<and> rt_ok B (insert t H - {t}) K S L w1 \<and> ended t w1
     else rt_ok B (insert t H) K S L w1 \<and> st w1 = st w \<and> par w1 = par w \<and> lnk w1 = lnk w"
    using handle_request_ok [OF ok insertI1 t(2) E, of True] by blast
  show ?thesis
  proof (cases "h = ABTI_THREAD_HANDLE_REQUEST_CANCELLED")
    case True
    then show ?thesis
      using w1 c H by (simp add: ythread_callback_yield_impl_def)
  next
    case False
    then have ok1: "rt_ok B (insert t H) K S L w1" and s1: "st w1 = st w"
      using c by simp_all
    obtain w2 where w2: "ABTI_pool_add_thread t w1 = Some w2" "rt_ok B (insert t H - {t}) K S L w2" "rt_assoc w2 = rt_assoc w1"
      "\<forall>s. rt_unit w2 s = None \<longleftrightarrow> rt_unit w1 s = None" "\<forall>s. s \<noteq> t \<longrightarrow> st w2 s = st w1 s"
      using add_thread_ok [OF ok1 insertI1] by blast
    have "same_but t w w2"
      using w1(2) w2(3-5) s1 by (simp add: same_but_def)
    then show ?thesis
      using False w1(1) w2(1,2) H by (simp add: ythread_callback_yield_impl_def)
  qed
qed

lemma block_core:
  assumes ok: "rt_ok B (insert t H) K S L w" and t: "t \<notin> H" "t \<notin> K" and E: "fresh_env B E w"
  shows "\<exists>c w1 w'. ABTI_thread_handle_request E t False w = Some (c, w1) \<and>
    set_state ABT_THREAD_STATE_BLOCKED t w1 = Some w' \<and> rt_ok B H K S (\<lambda>q. L q - one (pool_of w' t) q) w' \<and>
    same_but t w w' \<and> st w' t = Some ABT_THREAD_STATE_BLOCKED \<and> (\<forall>s. s \<noteq> t \<longrightarrow> st w' s = st w s) \<and> lnk w' = lnk w"
proof -
  have H: "insert t H - {t} = H"
    using t(1) by simp
  obtain c w1 where w1: "ABTI_thread_handle_request E t False w = Some (c, w1)" "same_but t w w1"
    and c: "if c = ABTI_THREAD_HANDLE_REQUEST_CANCELLED then False \<and> rt_ok B (insert t H - {t}) K S L w1 \<and> ended t w1
     else rt_ok B (insert t H) K S L w1 \<and> st w1 = st w \<and> par w1 = par w \<and> lnk w1 = lnk w"
    using handle_request_ok [OF ok insertI1 t(2) E] by blast
  have ok1: "rt_ok B (insert t H) K S L w1" and s1: "st w1 = st w" "lnk w1 = lnk w"
    using c by (simp_all split: if_splits)
  obtain w2 where w2: "set_state ABT_THREAD_STATE_BLOCKED t w1 = Some w2"
    "rt_ok B (insert t H - {t}) K S (\<lambda>q. L q - one (pool_of w1 t) q) w2" "rt_assoc w2 = rt_assoc w1"
    "st w2 t = Some ABT_THREAD_STATE_BLOCKED" "\<forall>s. s \<noteq> t \<longrightarrow> rt_unit w2 s = rt_unit w1 s"
    using set_blocked_ok [OF ok1 insertI1] by blast
  have st2: "st w2 s = st w s" if "s \<noteq> t" for s
    using w2(5) that s1(1) by (metis st_def)
  have "lnk w2 s = lnk w1 s" for s
    using w2(1) by (auto simp: set_state_def upd_put lnk_def put_unit split: if_splits option.splits)
  then have "lnk w2 = lnk w"
    using s1(2) by (simp add: fun_eq_iff)
  moreover have "same_but t w w2"
    using w1(2) w2(3,5) st2 by (simp add: same_but_def)
  ultimately show ?thesis
    using w1(1) w2(1-4) st2 H by simp
qed

lemma suspend_callback:
  assumes ok: "rt_ok B (insert t H) K S L w" and t: "t \<notin> H" "t \<notin> K" and E: "fresh_env B E w"
  shows "\<exists>w'. ABTI_ythread_callback_suspend E t w = Some w' \<and>
    rt_ok B H K S (\<lambda>q. L q + one (pool_of w t) q - one (pool_of w' t) q) w' \<and> same_but t w w' \<and>
    st w' t = Some ABT_THREAD_STATE_BLOCKED \<and> (\<forall>s. s \<noteq> t \<longrightarrow> st w' s = st w s) \<and> lnk w' = lnk w"
proof -
  note h = hands_okD [OF rt_okD(6) [OF ok] insertI1]
  obtain p where p: "pool_of w t = Some p"
    using h(3) by blast
  let ?w = "ABTI_pool_inc_num_blocked p w"
  have ok0: "rt_ok B (insert t H) K S (\<lambda>q. L q + one (pool_of w t) q) ?w"
    using inc_ok [OF ok, of p] p by simp
  have v: "st ?w = st w" "lnk ?w = lnk w"
    by (rule views_cong; simp)+
  have "fresh_env B E ?w"
    using E by (rule fresh_cong) simp
  then obtain c w1 w2 where w2: "ABTI_thread_handle_request E t False ?w = Some (c, w1)"
    "set_state ABT_THREAD_STATE_BLOCKED t w1 = Some w2"
    "rt_ok B H K S (\<lambda>q. L q + one (pool_of w t) q - one (pool_of w2 t) q) w2" "same_but t ?w w2"
    "st w2 t = Some ABT_THREAD_STATE_BLOCKED" "\<forall>s. s \<noteq> t \<longrightarrow> st w2 s = st ?w s" "lnk w2 = lnk ?w"
    using block_core [OF ok0 t] by blast
  have "ABTI_ythread_callback_suspend E t w = Some w2"
    using h(1) p w2(1,2) by (auto simp: ABTI_ythread_callback_suspend_def)
  moreover have "same_but t w w2"
    using w2(4) by (simp add: same_but_def v)
  ultimately show ?thesis
    using w2(3,5-7) v by simp
qed

lemma suspend_variants:
  "ABTI_ythread_callback_suspend_unlock E t l w =
    map_option (\<lambda>w'. w'\<lparr>rt_locks := rt_locks w' - {l}\<rparr>) (ABTI_ythread_callback_suspend E t w)"
  "ABTI_ythread_callback_suspend_replace_sched E t m w =
    map_option (\<lambda>w'. w'\<lparr>rt_replace := insert m (rt_replace w')\<rparr>) (ABTI_ythread_callback_suspend E t w)"
  "ABTI_ythread_callback_suspend_join E t target w =
    Option.bind (ABTI_ythread_callback_suspend E t w) (upd target (wu_link_update (\<lambda>_. Some (Joiner t))))"
  by (auto simp: ABTI_ythread_callback_suspend_unlock_def ABTI_ythread_callback_suspend_replace_sched_def
      ABTI_ythread_callback_suspend_join_def ABTI_ythread_callback_suspend_def map_conv_bind_option
      split: option.split bind_split)

section \<open>Yielding\<close>

text \<open>What a target must be: READY and in no pool, or BLOCKED and not waiting for a work unit to end.\<close>

definition idle_ready :: "runtime \<Rightarrow> thread_ptr \<Rightarrow> bool" where
  "idle_ready w n \<longleftrightarrow> st w n = Some ABT_THREAD_STATE_READY \<and>
     (\<exists>p. pool_of w n = Some p \<and> unit_of w n \<notin> set (rt_queue w p))"

definition resumable :: "runtime \<Rightarrow> thread_ptr \<Rightarrow> bool" where
  "resumable w n \<longleftrightarrow> st w n = Some ABT_THREAD_STATE_BLOCKED \<and> (\<forall>s. \<not> joins {} w n s)"

lemma take_idle:
  assumes "rt_ok B {} K S L w" "idle_ready w n"
  shows "rt_ok B {n} K S L w"
  using assms take_ready [of B "{}" K S L w n] unfolding idle_ready_def by blast

lemma take_resumable:
  assumes ok: "rt_ok B {} K S L w" and n: "resumable w n"
  shows "rt_ok B {n} K S (\<lambda>q. L q + one (pool_of w n) q) w" "pool_of w n \<noteq> None"
proof -
  obtain p where p: "pool_of w n = Some p"
    using rt_okD(4) [OF ok] n unfolding counts_ok_def resumable_def by blast
  have "\<not> joins K w n s" for s
    using n by (auto simp: resumable_def joins_def)
  then show "rt_ok B {n} K S (\<lambda>q. L q + one (pool_of w n) q) w"
    using take_blocked [OF ok _ _ p, of K] n p by (simp add: resumable_def)
  show "pool_of w n \<noteq> None"
    using p by simp
qed

text \<open>Setting a work unit in hand RUNNING and switching to it in the place of the current one.\<close>

lemma run_in_place:
  assumes ok: "rt_ok B {n} K S L w" and S: "S x = t # q # r"
  shows "\<exists>w1. set_state ABT_THREAD_STATE_RUNNING n w = Some w1 \<and>
    rt_unit w1 t \<noteq> None \<and> rt_unit w1 n \<noteq> None \<and>
    rt_ok B {t} K (S(x := n # q # r)) L (entered x n (par w1 t) w1) \<and> rt_assoc (entered x n (par w1 t) w1) = rt_assoc w \<and>
    t \<noteq> n \<and> st (entered x n (par w1 t) w1) n = Some ABT_THREAD_STATE_RUNNING"
proof -
  obtain w1 where w1: "set_state ABT_THREAD_STATE_RUNNING n w = Some w1" "rt_ok B {n} K S L w1"
    "st w1 n = Some ABT_THREAD_STATE_RUNNING" "rt_assoc w1 = rt_assoc w"
    using set_state_hand [OF ok, of n ABT_THREAD_STATE_RUNNING] by blast
  have t: "t \<notin> {n}" "rt_unit w1 t \<noteq> None"
    using top_facts [OF w1(2) S] by simp_all
  have "insert t ({n} - {n}) = {t}"
    by simp
  then have "rt_ok B {t} K (S(x := n # q # r)) L (entered x n (par w1 t) w1)"
    using replace_ok [OF w1(2) S _ w1(3)] by simp
  then show ?thesis
    using w1 t live [OF w1(3)] by (auto simp: entered_views)
qed

lemma yield_ok:
  assumes ok: "rt_ok B {} {} S L w" and S: "S x = t # q # r" and E: "fresh_env B E w"
  shows "\<exists>w'. ABTI_ythread_yield E x t w = Some w' \<and> rt_ok B {} {} (S(x := q # r)) L w'"
proof -
  have "fresh_env B E (set_thread x q w)"
    using E by (rule fresh_cong) simp
  then show ?thesis
    using yield_callback [OF leave_ok(1) [OF ok S]] unfolding ABTI_ythread_yield_def to_parent(1) [OF ok S] by blast
qed

lemma yield_to_ok:
  assumes ok: "rt_ok B {} {} S L w" and S: "S x = t # q # r" and n: "idle_ready w n" and E: "fresh_env B E w"
  shows "\<exists>w'. ABTI_ythread_yield_to E x t n w = Some w' \<and> rt_ok B {} {} (S(x := n # q # r)) L w'"
proof -
  obtain w1 where w1: "set_state ABT_THREAD_STATE_RUNNING n w = Some w1" "rt_unit w1 t \<noteq> None" "rt_unit w1 n \<noteq> None"
    "rt_ok B {t} {} (S(x := n # q # r)) L (entered x n (par w1 t) w1)" "rt_assoc (entered x n (par w1 t) w1) = rt_assoc w"
    using run_in_place [OF take_idle [OF ok n] S] by blast
  obtain w' where "ythread_callback_yield_impl E t (entered x n (par w1 t) w1) = Some w'"
    "rt_ok B {} {} (S(x := n # q # r)) L w'"
    using yield_callback [OF w1(4) _ _ fresh_cong [OF E w1(5)]] by blast
  then show ?thesis
    by (simp add: ABTI_ythread_yield_to_def w1(1) to_sibling [OF w1(2,3)])
qed

lemma same_but_pool: "same_but t w w' \<Longrightarrow> s \<noteq> t \<Longrightarrow> pool_of w' s = pool_of w s \<and> (rt_unit w' s = None \<longleftrightarrow> rt_unit w s = None)"
  by (simp add: same_but_def)

text \<open>The counter of the caller's pool was raised before its target was removed from its pool.\<close>

lemma callback_thread_yield_to:
  assumes "rt_unit w t \<noteq> None" "pool_of w t = Some p"
  shows "ABTI_ythread_callback_thread_yield_to E t w
    = map_option (ABTI_pool_dec_num_blocked p) (ythread_callback_yield_impl E t w)"
  using assms by (auto simp: ABTI_ythread_callback_thread_yield_to_def ythread_callback_yield_impl_def
      map_conv_bind_option split: bind_split)

lemma callback_resume_yield_to:
  "ABTI_ythread_callback_resume_yield_to E t n w
    = Option.bind (ythread_callback_yield_impl E t w)
        (\<lambda>w2. Option.bind (rt_unit w2 n) (\<lambda>_. map_option (\<lambda>p. ABTI_pool_dec_num_blocked p w2) (pool_of w2 n)))"
  by (auto simp: ABTI_ythread_callback_resume_yield_to_def ythread_callback_yield_impl_def
      map_conv_bind_option split: bind_split)

lemma thread_yield_to_ok:
  assumes ok: "rt_ok B {} {} S (\<lambda>q. L q + one (pool_of w t) q) w" and S: "S x = t # q # r" and n: "idle_ready w n"
    and E: "fresh_env B E w"
  shows "\<exists>w'. ABTI_ythread_thread_yield_to E x t n w = Some w' \<and> rt_ok B {} {} (S(x := n # q # r)) L w'"
proof -
  let ?L = "\<lambda>q. L q + one (pool_of w t) q"
  obtain w1 where w1: "set_state ABT_THREAD_STATE_RUNNING n w = Some w1" "rt_unit w1 t \<noteq> None" "rt_unit w1 n \<noteq> None"
    "rt_ok B {t} {} (S(x := n # q # r)) ?L (entered x n (par w1 t) w1)" "rt_assoc (entered x n (par w1 t) w1) = rt_assoc w"
    using run_in_place [OF take_idle [OF ok n] S] by blast
  let ?w = "entered x n (par w1 t) w1"
  obtain p where p: "pool_of w t = Some p" "pool_of ?w t = Some p"
    using hands_okD(3) [OF rt_okD(6) [OF w1(4)], of t] w1(5) by auto
  obtain w' where w': "ythread_callback_yield_impl E t ?w = Some w'" "rt_ok B {} {} (S(x := n # q # r)) ?L w'"
    using yield_callback [OF w1(4) _ _ fresh_cong [OF E w1(5)]] by blast
  have "rt_ok B {} {} (S(x := n # q # r)) L (ABTI_pool_dec_num_blocked p w')"
    using dec_ok [OF w'(2), of p] p(1) by simp
  moreover have "rt_unit ?w t \<noteq> None"
    using w1(2) by (simp add: entered_views)
  ultimately show ?thesis
    by (simp add: ABTI_ythread_thread_yield_to_def w1(1) to_sibling [OF w1(2,3)]
        callback_thread_yield_to [OF _ p(2)] w'(1))
qed

lemma resume_yield_to_ok:
  assumes ok: "rt_ok B {} {} S L w" and S: "S x = t # q # r" and n: "resumable w n" and E: "fresh_env B E w"
  shows "\<exists>w'. ABTI_ythread_resume_yield_to E x t n w = Some w' \<and> rt_ok B {} {} (S(x := n # q # r)) L w'"
proof -
  let ?L = "\<lambda>q. L q + one (pool_of w n) q"
  note tn = take_resumable [OF ok n]
  obtain w1 where w1: "set_state ABT_THREAD_STATE_RUNNING n w = Some w1" "rt_unit w1 t \<noteq> None" "rt_unit w1 n \<noteq> None"
    "rt_ok B {t} {} (S(x := n # q # r)) ?L (entered x n (par w1 t) w1)" "rt_assoc (entered x n (par w1 t) w1) = rt_assoc w"
    "t \<noteq> n"
    using run_in_place [OF tn(1) S] by blast
  let ?w = "entered x n (par w1 t) w1"
  obtain p where p: "pool_of w n = Some p"
    using tn(2) by blast
  obtain w' where w': "ythread_callback_yield_impl E t ?w = Some w'" "rt_ok B {} {} (S(x := n # q # r)) ?L w'" "same_but t ?w w'"
    using yield_callback [OF w1(4) _ _ fresh_cong [OF E w1(5)]] by blast
  have n': "pool_of w' n = Some p" "rt_unit w' n \<noteq> None"
    using same_but_pool [OF w'(3), of n] w1(3,5,6) p by (simp_all add: entered_views)
  have "rt_ok B {} {} (S(x := n # q # r)) L (ABTI_pool_dec_num_blocked p w')"
    using dec_ok [OF w'(2), of p] p by simp
  moreover obtain u where "rt_unit w n = Some u" "wu_state u = ABT_THREAD_STATE_BLOCKED"
    using n live unfolding resumable_def by blast
  moreover have "ABTI_ythread_callback_resume_yield_to E t n ?w = Some (ABTI_pool_dec_num_blocked p w')"
    using n' by (auto simp: callback_resume_yield_to w'(1))
  ultimately show ?thesis
    by (simp add: ABTI_ythread_resume_yield_to_def w1(1) to_sibling [OF w1(2,3)])
qed

section \<open>Suspending\<close>

text \<open>How much the counters gain on the BLOCKED work units when \<open>t\<close> blocks while it changes its pool.\<close>

definition leak :: "thread_ptr \<Rightarrow> runtime \<Rightarrow> runtime \<Rightarrow> nat \<Rightarrow> int" where
  "leak t w w' q = one (pool_of w t) q - one (pool_of w' t) q"

lemma leak_none: "pool_of w' t = pool_of w t \<Longrightarrow> leak t w w' q = 0"
  by (simp add: leak_def)

lemma suspend_callback_top:
  assumes ok: "rt_ok B {} K S L w" and S: "S x = t # q # r" and E: "fresh_env B E w" and K: "t \<notin> K"
  shows "\<exists>w'. ABTI_ythread_callback_suspend E t (set_thread x q w) = Some w' \<and>
    rt_ok B {} K (S(x := q # r)) (\<lambda>q. L q + leak t w w' q) w' \<and> same_but t w w' \<and>
    st w' t = Some ABT_THREAD_STATE_BLOCKED \<and> (\<forall>s. s \<noteq> t \<longrightarrow> st w' s = st w s) \<and> lnk w' = lnk w"
proof -
  have v: "st (set_thread x q w) = st w" "lnk (set_thread x q w) = lnk w"
    by (rule views_cong; simp)+
  have "fresh_env B E (set_thread x q w)"
    using E by (rule fresh_cong) simp
  then show ?thesis
    using suspend_callback [OF leave_ok(1) [OF ok S] _ K] unfolding v leak_def same_but_def set_thread_simps
    by (simp add: algebra_simps)
qed

lemma suspend_ok:
  assumes ok: "rt_ok B {} {} S L w" and S: "S x = t # q # r" and E: "fresh_env B E w"
  shows "\<exists>w'. ABTI_ythread_suspend E x t w = Some w' \<and>
      rt_ok B {} {} (S(x := q # r)) (\<lambda>q. L q + leak t w w' q) w'"
    "\<exists>w'. ABTI_ythread_suspend_unlock E x t l w = Some w' \<and>
      rt_ok B {} {} (S(x := q # r)) (\<lambda>q. L q + leak t w w' q) w' \<and> l \<notin> rt_locks w'"
    "\<exists>w'. ABTI_ythread_suspend_replace_sched E x t m w = Some w' \<and>
      rt_ok B {} {} (S(x := q # r)) (\<lambda>q. L q + leak t w w' q) w' \<and> m \<in> rt_replace w'"
proof -
  obtain w' where w': "ABTI_ythread_callback_suspend E t (set_thread x q w) = Some w'"
    "rt_ok B {} {} (S(x := q # r)) (\<lambda>q. L q + leak t w w' q) w'"
    using suspend_callback_top [OF ok S E] by blast
  have k: "rt_ok B {} {} (S(x := q # r)) (\<lambda>q. L q + leak t w w'' q) w''"
    if "rt_unit w'' = rt_unit w'" "rt_assoc w'' = rt_assoc w'" "rt_queue w'' = rt_queue w'" "rt_thread w'' = rt_thread w'"
      "rt_blocked w'' = rt_blocked w'" for w''
    by (rule keep_other [OF w'(2) that(1-4)]) (simp add: that(2,5) leak_def)
  show "\<exists>w'. ABTI_ythread_suspend E x t w = Some w' \<and> rt_ok B {} {} (S(x := q # r)) (\<lambda>q. L q + leak t w w' q) w'"
    using w' unfolding ABTI_ythread_suspend_def to_parent(1) [OF ok S] by blast
  show "\<exists>w'. ABTI_ythread_suspend_unlock E x t l w = Some w' \<and>
      rt_ok B {} {} (S(x := q # r)) (\<lambda>q. L q + leak t w w' q) w' \<and> l \<notin> rt_locks w'"
    unfolding ABTI_ythread_suspend_unlock_def to_parent(1) [OF ok S] suspend_variants w'(1) option.map(2)
    by (intro exI conjI, rule refl, rule k) simp_all
  show "\<exists>w'. ABTI_ythread_suspend_replace_sched E x t m w = Some w' \<and>
      rt_ok B {} {} (S(x := q # r)) (\<lambda>q. L q + leak t w w' q) w' \<and> m \<in> rt_replace w'"
    unfolding ABTI_ythread_suspend_replace_sched_def to_parent(1) [OF ok S] suspend_variants w'(1) option.map(2)
    by (intro exI conjI, rule refl, rule k) simp_all
qed

lemma resume_suspend_to_ok:
  assumes ok: "rt_ok B {} {} S L w" and S: "S x = t # q # r" and n: "resumable w n" and E: "fresh_env B E w"
  shows "\<exists>w'. ABTI_ythread_resume_suspend_to E x t n w = Some w' \<and>
    rt_ok B {} {} (S(x := n # q # r)) (\<lambda>q. L q + leak t w w' q) w'"
proof -
  let ?L = "\<lambda>q. L q + one (pool_of w n) q" and ?S = "S(x := n # q # r)"
  note tn = take_resumable [OF ok n]
  obtain w1 where w1: "set_state ABT_THREAD_STATE_RUNNING n w = Some w1" "rt_unit w1 t \<noteq> None" "rt_unit w1 n \<noteq> None"
    "rt_ok B {t} {} ?S ?L (entered x n (par w1 t) w1)" "rt_assoc (entered x n (par w1 t) w1) = rt_assoc w"
    "t \<noteq> n"
    using run_in_place [OF tn(1) S] by blast
  let ?w = "entered x n (par w1 t) w1"
  obtain p where p: "pool_of w n = Some p" "pool_of ?w n = Some p"
    using tn(2) w1(5) by auto
  obtain p' where p': "pool_of w t = Some p'" "pool_of ?w t = Some p'"
    using hands_okD(3) [OF rt_okD(6) [OF w1(4)], of t] w1(5) by auto
  let ?w2 = "if p' \<noteq> p then ABTI_pool_dec_num_blocked p (ABTI_pool_inc_num_blocked p' ?w) else ?w"
  have "rt_ok B {t} {} ?S (\<lambda>q. L q + one (pool_of w t) q) ?w2"
  proof (cases "p' = p")
    case False
    have "rt_ok B {t} {} ?S (\<lambda>q. ?L q + one (Some p') q - one (Some p) q)
        (ABTI_pool_dec_num_blocked p (ABTI_pool_inc_num_blocked p' ?w))"
      by (rule dec_ok [OF inc_ok [OF w1(4)]])
    then show ?thesis
      using False p p' by (simp add: algebra_simps)
  qed (use w1(4) p p' in simp)
  moreover have "fresh_env B E ?w2"
    using E by (rule fresh_cong) (simp add: w1(5))
  ultimately obtain c w3 w' where w': "ABTI_thread_handle_request E t False ?w2 = Some (c, w3)"
    "set_state ABT_THREAD_STATE_BLOCKED t w3 = Some w'"
    "rt_ok B {} {} ?S (\<lambda>q. L q + one (pool_of w t) q - one (pool_of w' t) q) w'"
    using block_core [of B t "{}" "{}" ?S _ ?w2 E] by blast
  obtain u1 u2 where "rt_unit ?w t = Some u1" "rt_unit ?w n = Some u2"
    using entered_views(11) w1(2,3) by (metis not_None_eq)
  then have "ABTI_ythread_callback_resume_suspend_to E t n ?w = Some w'"
    using p(2) p'(2) w'(1,2) by (simp add: ABTI_ythread_callback_resume_suspend_to_def Let_def)
  moreover obtain u where "rt_unit w n = Some u" "wu_state u = ABT_THREAD_STATE_BLOCKED"
    using n live unfolding resumable_def by blast
  ultimately have "ABTI_ythread_resume_suspend_to E x t n w = Some w'"
    by (simp add: ABTI_ythread_resume_suspend_to_def w1(1) to_sibling [OF w1(2,3)])
  then show ?thesis
    using w'(3) by (simp add: leak_def algebra_simps)
qed

section \<open>Joining\<close>

lemma link_ok:
  assumes ok: "rt_ok B H K S L w" and j: "st w j = Some ABT_THREAD_STATE_BLOCKED" "j \<notin> H" "\<And>s. \<not> joins K w j s"
  shows "rt_ok B H (K - {t}) S L (put t (wu_link_update (\<lambda>_. Some (Joiner j))) w)" (is "rt_ok _ _ _ _ _ ?w")
proof (rule rt_okI)
  note A = rt_okD [OF ok]
  have v: "st ?w = st w" "par ?w = par w" "lst ?w = lst w" "req ?w = req w" "mig ?w = mig w"
    by (rule put_views; simp)+
  show "units_sound B ?w"
    using A(1) unfolding units_sound_def v put_simps .
  show "stacks_ok H S ?w" "queues_ok H ?w" "counts_ok H L ?w" "hands_ok H ?w"
    using A(2-4,6) unfolding stacks_ok_def queues_ok_def counts_ok_def blocked_in_def hands_ok_def v put_simps by blast+
  have js: "joins K w i s \<or> i = j \<and> s = t" if "joins (K - {t}) ?w i s" for i s
    using that unfolding joins_def v put_link by (auto simp: lnk_def split: if_splits)
  show "links_ok H (K - {t}) ?w"
    unfolding links_ok_def
  proof (intro conjI allI impI)
    fix s s' i
    assume i: "joins (K - {t}) ?w i s"
    show "st ?w i = Some ABT_THREAD_STATE_BLOCKED" "i \<notin> H"
      using js [OF i] links_okD(1,2) [OF A(5)] j v by auto
    assume "joins (K - {t}) ?w i s'"
    from js [OF i] js [OF this] show "s = s'"
      using links_okD(3) [OF A(5)] j(3) by blast
  next
    fix s
    assume "s \<notin> K - {t}" "st ?w s \<noteq> Some ABT_THREAD_STATE_TERMINATED" "ABTI_THREAD_REQ_JOIN \<in> req ?w s"
    moreover have "lnk ?w t \<noteq> None" if "rt_unit w t \<noteq> None"
      using that by simp
    moreover have "req w t = {}" if "rt_unit w t = None"
      using that by (simp add: req_def)
    ultimately show "lnk ?w s \<noteq> None"
      using links_okD(4) [OF A(5), of s] v by (cases "s = t") auto
  qed
qed

lemma claim_ok: "rt_ok B H K S L w \<Longrightarrow> K \<subseteq> K' \<Longrightarrow> rt_ok B H K' S L w"
  unfolding rt_ok_def by (auto intro!: links_cong [of H K w K' w H] dest: links_okD(4) simp: joins_def)

text \<open>The request and the link of a join, as \<^verbatim>\<open>thread_join\<close> makes them.\<close>

lemma suspend_join_ok:
  assumes ok: "rt_ok B {} {} S L w" and S: "S x = t # q # r" and E: "fresh_env B E w"
    and n: "rt_unit w n \<noteq> None" "n \<noteq> t"
  shows "\<exists>w1 w'. ABTI_thread_set_request ABTI_THREAD_REQ_JOIN n w = Some w1 \<and>
    ABTI_ythread_suspend_join E x t n w1 = Some w' \<and>
    rt_ok B {} {} (S(x := q # r)) (\<lambda>q. L q + leak t w w' q) w'"
proof -
  let ?w = "put n (\<lambda>u. u\<lparr>wu_request := insert ABTI_THREAD_REQ_JOIN (wu_request u)\<rparr>) w"
  have ok1: "rt_ok B {} {n} S L ?w"
    by (rule request_ok [OF claim_ok [OF ok]]) simp_all
  have E1: "fresh_env B E ?w"
    using E by (rule fresh_cong) simp
  have st: "st ?w = st w" and lnk: "lnk ?w = lnk w"
    by (rule put_views; simp)+
  obtain w2 where w2: "ABTI_ythread_callback_suspend E t (set_thread x q ?w) = Some w2"
    "rt_ok B {} {n} (S(x := q # r)) (\<lambda>q. L q + leak t ?w w2 q) w2" "same_but t ?w w2"
    "st w2 t = Some ABT_THREAD_STATE_BLOCKED" "\<forall>s. s \<noteq> t \<longrightarrow> st w2 s = st ?w s" "lnk w2 = lnk ?w"
    using suspend_callback_top [OF ok1 S E1] n(2) by blast
  have nobody: "\<not> joins {n} w2 t s" for s
  proof
    assume "joins {n} w2 t s"
    then have "joins {n} ?w t s"
      using w2(4-6) top_facts(3) [OF ok1 S] by (cases "s = t") (auto simp: joins_def)
    then show False
      using links_okD(1) [OF rt_okD(5) [OF ok1]] top_facts(3) [OF ok1 S] by fastforce
  qed
  have "rt_ok B {} ({n} - {n}) (S(x := q # r)) (\<lambda>q. L q + leak t ?w w2 q) (put n (wu_link_update (\<lambda>_. Some (Joiner t))) w2)"
    using link_ok [OF w2(2,4) _ nobody] by blast
  moreover have "leak t ?w w2 = leak t w (put n (wu_link_update (\<lambda>_. Some (Joiner t))) w2)"
    by (simp add: leak_def fun_eq_iff)
  moreover have "rt_unit w2 n \<noteq> None"
    using same_but_pool [OF w2(3) n(2)] n(1) by simp
  then have "ABTI_ythread_suspend_join E x t n ?w = Some (put n (wu_link_update (\<lambda>_. Some (Joiner t))) w2)"
    by (simp add: ABTI_ythread_suspend_join_def to_parent(1) [OF ok1 S] suspend_variants w2(1) upd_put)
  moreover have "ABTI_thread_set_request ABTI_THREAD_REQ_JOIN n w = Some ?w"
    using n(1) by (simp add: ABTI_thread_set_request_def upd_put)
  ultimately show ?thesis
    by auto
qed

section \<open>Ending\<close>

lemma exit_callback:
  assumes ok: "rt_ok B {t} {t} S L w"
  shows "\<exists>w'. ABTI_ythread_callback_exit t w = Some w' \<and> rt_ok B {} {} S L w' \<and> ended t w' \<and>
    (\<forall>s. s \<noteq> t \<longrightarrow> rt_unit w' s = rt_unit w s \<and> pool_of w' s = pool_of w s)"
  using terminate_ok [OF ok, of t] unfolding ABTI_ythread_callback_exit_def ended_def by auto

lemma exit_to_parent:
  assumes ok: "rt_ok B {} {t} S L w" and S: "S x = t # q # r"
  shows "\<exists>w'. ABTI_ythread_jump_to_parent_internal x t (ABTI_ythread_callback_exit t) w = Some w' \<and>
    rt_ok B {} {} (S(x := q # r)) L w' \<and> ended t w'"
  using exit_callback [OF leave_ok(1) [OF ok S]] unfolding to_parent(2) [OF ok S] by blast

lemma exit_in_place:
  assumes ok: "rt_ok B {n} {t} S L w" and S: "S x = t # q # r"
  shows "\<exists>w1 w'. set_state ABT_THREAD_STATE_RUNNING n w = Some w1 \<and>
    ABTI_ythread_jump_to_sibling_internal x t n (ABTI_ythread_callback_exit t) w1 = Some w' \<and>
    rt_ok B {} {} (S(x := n # q # r)) L w' \<and> ended t w' \<and> rt_unit w' n \<noteq> None \<and> pool_of w' n = pool_of w n \<and> t \<noteq> n"
proof -
  obtain w1 where w1: "set_state ABT_THREAD_STATE_RUNNING n w = Some w1" "rt_unit w1 t \<noteq> None" "rt_unit w1 n \<noteq> None"
    "rt_ok B {t} {t} (S(x := n # q # r)) L (entered x n (par w1 t) w1)" "rt_assoc (entered x n (par w1 t) w1) = rt_assoc w"
    "t \<noteq> n"
    using run_in_place [OF ok S] by blast
  obtain w' where w': "ABTI_ythread_callback_exit t (entered x n (par w1 t) w1) = Some w'"
    "rt_ok B {} {} (S(x := n # q # r)) L w'" "ended t w'"
    "\<forall>s. s \<noteq> t \<longrightarrow> rt_unit w' s = rt_unit (entered x n (par w1 t) w1) s \<and> pool_of w' s = pool_of (entered x n (par w1 t) w1) s"
    using exit_callback [OF w1(4)] by blast
  have "rt_unit w' n \<noteq> None" "pool_of w' n = pool_of w n"
    using w'(4) w1(3,5,6) entered_views(11) by (metis, metis)
  then show ?thesis
    using w1(1,6) w'(1-3) unfolding to_sibling(2) [OF w1(2,3), symmetric] by blast
qed

lemma exit_ok:
  assumes ok: "rt_ok B {} {} S L w" and S: "S x = t # q # r"
  shows "\<exists>w' S'. ABTI_ythread_exit x t w = Some w' \<and> rt_ok B {} {} S' L w' \<and> ended t w' \<and>
    (S' = S(x := q # r) \<or> (\<exists>n. S' = S(x := n # q # r)))"
proof -
  note top = top_facts [OF ok S]
  obtain j w1 where w1: "ABTI_ythread_atomic_get_joiner t w = Some (j, w1)" "rt_ok B {} {t} S L w1" "st w1 = st w"
    "rt_assoc w1 = rt_assoc w"
    and j: "\<And>jt. j = Some (Joiner jt) \<Longrightarrow> st w jt = Some ABT_THREAD_STATE_BLOCKED \<and> (\<forall>s. \<not> joins {t} w1 jt s)"
    using get_joiner_ok [OF ok top(4)] top(3) by auto
  consider "j = None" | f where "j = Some (Joiner_ext f)" | jt where "j = Some (Joiner jt)"
    by (metis joiner.exhaust option.exhaust)
  then show ?thesis
  proof cases
    case 1
    then show ?thesis
      using exit_to_parent [OF w1(2) S] by (auto simp: ABTI_ythread_exit_def w1(1))
  next
    case (2 f)
    have "rt_ok B {} {t} S L (ABTD_futex_resume f w1)"
      by (rule keep_other [OF w1(2)]) (simp_all add: ABTD_futex_resume_def)
    from exit_to_parent [OF this S] show ?thesis
      using 2 by (auto simp: ABTI_ythread_exit_def w1(1))
  next
    case (3 jt)
    note jt = j [OF 3]
    have b: "st w1 jt = Some ABT_THREAD_STATE_BLOCKED"
      using jt w1(3) by simp
    obtain p where p: "pool_of w1 jt = Some p"
      using rt_okD(4) [OF w1(2)] b unfolding counts_ok_def by blast
    obtain u v where u: "rt_unit w1 t = Some u" and v: "rt_unit w1 jt = Some v"
      using live [OF b] top_facts(4) [OF w1(2) S] by blast
    show ?thesis
    proof (cases "wu_last_xstream u = wu_last_xstream v \<and> ABTI_THREAD_TYPE_MAIN_SCHED \<notin> wu_type u")
      case True
      have "rt_ok B {jt} {t} S (\<lambda>q. L q + one (Some p) q) w1"
        using take_blocked [OF w1(2) b _ p subset_refl] jt by simp
      then have "rt_ok B {jt} {t} S L (ABTI_pool_dec_num_blocked p w1)"
        using dec_ok [of B "{jt}" "{t}" S "\<lambda>q. L q + one (Some p) q" w1 p] by simp
      from exit_in_place [OF this S] obtain w2 w' where w': "set_state ABT_THREAD_STATE_RUNNING jt (ABTI_pool_dec_num_blocked p w1) = Some w2"
        "ABTI_ythread_jump_to_sibling_internal x t jt (ABTI_ythread_callback_exit t) w2 = Some w'"
        "rt_ok B {} {} (S(x := jt # q # r)) L w'" "ended t w'"
        by blast
      have "ABTI_ythread_exit x t w = Some w'"
        by (simp add: ABTI_ythread_exit_def w1(1) 3 u v True p w'(1,2))
      then show ?thesis
        using w'(3,4) by blast
    next
      case False
      obtain w2 where w2: "ABTI_ythread_resume_and_push jt w1 = Some w2" "rt_ok B {} {t} S L w2"
        using resume_and_push_ok [OF w1(2) b _ subset_refl] jt by blast
      obtain w' where w': "ABTI_ythread_jump_to_parent_internal x t (ABTI_ythread_callback_exit t) w2 = Some w'"
        "rt_ok B {} {} (S(x := q # r)) L w'" "ended t w'"
        using exit_to_parent [OF w2(2) S] by blast
      have "ABTI_ythread_exit x t w = Some w'"
        using False by (auto simp: ABTI_ythread_exit_def w1(1) 3 u v w2(1) w'(1))
      then show ?thesis
        using w'(2,3) by blast
    qed
  qed
qed

lemma exit_to_ok:
  assumes ok: "rt_ok B {} {} S L w" and S: "S x = t # q # r" and n: "idle_ready w n"
  shows "\<exists>w'. ABTI_ythread_exit_to x t n w = Some w' \<and> rt_ok B {} {} (S(x := n # q # r)) L w' \<and> ended t w'"
proof -
  note top = top_facts [OF ok S]
  obtain w1 where w1: "ABTI_ythread_resume_joiner t w = Some w1" "rt_ok B {n} {t} S L w1"
    using resume_joiner_ok [OF take_idle [OF ok n] top(4)] top(3) by auto
  show ?thesis
    using exit_in_place [OF w1(2) S] by (auto simp: ABTI_ythread_exit_to_def w1(1))
qed

lemma resume_exit_to_ok:
  assumes ok: "rt_ok B {} {} S L w" and S: "S x = t # q # r" and n: "resumable w n"
  shows "\<exists>w'. ABTI_ythread_resume_exit_to x t n w = Some w' \<and> rt_ok B {} {} (S(x := n # q # r)) L w'"
proof -
  note top = top_facts [OF ok S] and tn = take_resumable [OF ok n]
  obtain p where p: "pool_of w n = Some p"
    using tn(2) by blast
  obtain w1 where w1: "ABTI_ythread_resume_joiner t w = Some w1"
    "rt_ok B {n} {t} S (\<lambda>q. L q + one (pool_of w n) q) w1" "rt_assoc w1 = rt_assoc w"
    using resume_joiner_ok [OF tn(1) top(4)] top(3) by auto
  obtain w2 w' where w': "set_state ABT_THREAD_STATE_RUNNING n w1 = Some w2"
    "ABTI_ythread_jump_to_sibling_internal x t n (ABTI_ythread_callback_exit t) w2 = Some w'"
    "rt_ok B {} {} (S(x := n # q # r)) (\<lambda>q. L q + one (pool_of w n) q) w'" "rt_unit w' n \<noteq> None"
    "pool_of w' n = pool_of w1 n" "t \<noteq> n"
    using exit_in_place [OF w1(2) S] by blast
  have "rt_unit w2 t \<noteq> None" "rt_unit w2 n \<noteq> None"
    using w'(1,2) by (auto simp: ABTI_ythread_jump_to_sibling_internal_def upd_put split: bind_splits if_splits)
  note sib = to_sibling(2) [OF this, of x]
  have "ABTI_ythread_jump_to_sibling_internal x t n (ABTI_ythread_callback_resume_exit_to t n) w2
      = Some (ABTI_pool_dec_num_blocked p w')"
    using w'(2,4,5) w1(3) p unfolding sib
    by (auto simp: ABTI_ythread_callback_resume_exit_to_def ABTI_ythread_callback_exit_def)
  moreover have "rt_ok B {} {} (S(x := n # q # r)) L (ABTI_pool_dec_num_blocked p w')"
    using dec_ok [OF w'(3), of p] p by simp
  moreover obtain u where "rt_unit w n = Some u" "wu_state u = ABT_THREAD_STATE_BLOCKED"
    using n live unfolding resumable_def by blast
  ultimately show ?thesis
    by (simp add: ABTI_ythread_resume_exit_to_def w1(1) w'(1))
qed

section \<open>Running a work unit\<close>

lemma parent_last: "u\<lparr>wu_last_xstream := a, wu_parent := b\<rparr> = u\<lparr>wu_parent := b, wu_last_xstream := a\<rparr>"
  by (cases u) simp

lemma begin_entered:
  assumes "rt_unit w t \<noteq> None"
  shows "schedule_task_begin x t w = Option.bind (set_state ABT_THREAD_STATE_RUNNING t w)
    (\<lambda>w1. Some (entered x t (Some (rt_thread w x)) w1))"
  using assms by (auto simp: schedule_task_begin_def set_state_def entered_def upd_put put_def set_thread_def parent_last)

lemma begin_ok:
  assumes ok: "rt_ok B {t} {} S L w" and S: "S x = c # r"
  shows "\<exists>w'. schedule_task_begin x t w = Some w' \<and> rt_ok B {} {} (S(x := t # c # r)) L w'"
    "\<exists>w'. ABTI_ythread_run_child x (rt_thread w x) t w = Some w' \<and> rt_ok B {} {} (S(x := t # c # r)) L w'"
proof -
  obtain w1 where w1: "set_state ABT_THREAD_STATE_RUNNING t w = Some w1" "rt_ok B {t} {} S L w1"
    "st w1 t = Some ABT_THREAD_STATE_RUNNING"
    using set_state_hand [OF ok, of t ABT_THREAD_STATE_RUNNING] by blast
  have c: "rt_thread w x = c"
    by (rule top_facts(1) [OF ok S])
  have e: "rt_ok B {} {} (S(x := t # c # r)) L (entered x t (Some c) w1)"
    using enter_ok [OF w1(2) S _ w1(3)] by simp
  have t: "rt_unit w t \<noteq> None" "rt_unit w1 t \<noteq> None"
    using hands_okD(1) [OF rt_okD(6) [OF ok], of t] hands_okD(1) [OF rt_okD(6) [OF w1(2)], of t] by simp_all
  show "\<exists>w'. schedule_task_begin x t w = Some w' \<and> rt_ok B {} {} (S(x := t # c # r)) L w'"
    using e by (simp add: begin_entered [OF t(1)] w1(1) c)
  show "\<exists>w'. ABTI_ythread_run_child x (rt_thread w x) t w = Some w' \<and> rt_ok B {} {} (S(x := t # c # r)) L w'"
    using e by (simp add: ABTI_ythread_run_child_def w1(1) c to_child [OF t(2)])
qed

lemma task_end_ok:
  assumes ok: "rt_ok B {} {} S L w" and S: "S x = t # c # r"
  shows "\<exists>w'. schedule_task_end x c t w = Some w' \<and> rt_ok B {} {} (S(x := c # r)) L w' \<and> ended t w'"
  using terminate_ok [OF leave_ok(1) [OF ok S], of t] unfolding schedule_task_end_def ended_def by auto

text \<open>
  A work unit that is scheduled runs, is cancelled, or goes to the pool it migrates to. The
  function of a tasklet may do anything that leaves the tasklet on top of its stack.
\<close>

definition task_returns ::
    "(nat \<Rightarrow> bool) \<Rightarrow> (thread_ptr \<Rightarrow> runtime \<Rightarrow> runtime option) \<Rightarrow> nat \<Rightarrow> thread_ptr \<Rightarrow> thread_ptr list \<Rightarrow> bool" where
  "task_returns B run x t cs \<longleftrightarrow> (\<forall>S L w. rt_ok B {} {} S L w \<longrightarrow> S x = t # cs \<longrightarrow>
     (\<exists>w' S' L'. run t w = Some w' \<and> rt_ok B {} {} S' L' w' \<and> S' x = t # cs))"

lemma handle_type:
  assumes "ABTI_thread_handle_request E t allow w = Some (h, w1)" "rt_unit w1 t = Some u"
    "h = ABTI_THREAD_HANDLE_REQUEST_NONE"
  shows "\<exists>v. rt_unit w t = Some v \<and> wu_type v = wu_type u"
  using assms
  by (auto simp: ABTI_thread_handle_request_def ABTI_thread_handle_request_migrate_def ABTI_thread_get_mig_data_def
      set_associated_pool_def ABTI_thread_unset_request_def upd_put put_unit Let_def
      split: if_splits bind_splits option.splits sum.splits)

lemma schedule_ok:
  assumes ok: "rt_ok B {} {} S L w" and S: "S x = c # r" and t: "idle_ready w t" and E: "fresh_env B E w"
    and run: "\<And>u. rt_unit w t = Some u \<Longrightarrow> ABTI_THREAD_TYPE_YIELDABLE \<notin> wu_type u \<Longrightarrow> task_returns B run x t (c # r)"
  shows "\<exists>w' S' L'. ABTI_ythread_schedule run E x t w = Some w' \<and> rt_ok B {} {} S' L' w' \<and> (S' x = t # c # r \<or> S' x = c # r)"
proof -
  note tt = take_idle [OF ok t]
  obtain h w1 where w1: "ABTI_thread_handle_request E t True w = Some (h, w1)"
    and k: "if h = ABTI_THREAD_HANDLE_REQUEST_CANCELLED then True \<and> rt_ok B ({t} - {t}) {} S L w1 \<and> ended t w1
      else rt_ok B {t} {} S L w1 \<and> st w1 = st w \<and> par w1 = par w \<and> lnk w1 = lnk w"
    using handle_request_ok [OF tt _ _ E, of t True] by blast
  show ?thesis
  proof (cases h)
    case ABTI_THREAD_HANDLE_REQUEST_NONE
    then have ok1: "rt_ok B {t} {} S L w1"
      using k by simp
    obtain u where u: "rt_unit w1 t = Some u"
      using hands_okD(1) [OF rt_okD(6) [OF ok1], of t] by blast
    have same: "\<exists>v. rt_unit w t = Some v \<and> wu_type v = wu_type u"
      using w1 u ABTI_THREAD_HANDLE_REQUEST_NONE by (rule handle_type)
    have c: "rt_thread w1 x = c"
      by (rule top_facts(1) [OF ok1 S])
    show ?thesis
    proof (cases "ABTI_THREAD_TYPE_YIELDABLE \<in> wu_type u")
      case True
      obtain w2 where "ABTI_ythread_run_child x (rt_thread w1 x) t w1 = Some w2" "rt_ok B {} {} (S(x := t # c # r)) L w2"
        using begin_ok(2) [OF ok1 S] by blast
      moreover have "(S(x := t # c # r)) x = t # c # r"
        by simp
      ultimately show ?thesis
        using True ABTI_THREAD_HANDLE_REQUEST_NONE
        by (intro exI [of _ w2] exI [of _ "S(x := t # c # r)"] exI [of _ L]) (simp add: ABTI_ythread_schedule_def w1 u)
    next
      case False
      obtain w2 where w2: "schedule_task_begin x t w1 = Some w2" "rt_ok B {} {} (S(x := t # c # r)) L w2"
        using begin_ok(1) [OF ok1 S] by blast
      obtain w3 S' L' where w3: "run t w2 = Some w3" "rt_ok B {} {} S' L' w3" "S' x = t # c # r"
        using run False same w2(2) unfolding task_returns_def by fastforce
      obtain w4 where w4: "schedule_task_end x c t w3 = Some w4" "rt_ok B {} {} (S'(x := c # r)) L' w4"
        using task_end_ok [OF w3(2,3)] by blast
      have "ABTI_ythread_schedule run E x t w = Some w4"
        using False ABTI_THREAD_HANDLE_REQUEST_NONE by (simp add: ABTI_ythread_schedule_def w1 u w2(1) w3(1) c w4(1))
      then show ?thesis
        using w4(2) by (intro exI [of _ w4] exI [of _ "S'(x := c # r)"] exI [of _ L']) simp
    qed
  next
    case ABTI_THREAD_HANDLE_REQUEST_CANCELLED
    then show ?thesis
      using k S by (intro exI [of _ w1] exI [of _ S] exI [of _ L]) (simp add: ABTI_ythread_schedule_def w1)
  next
    case ABTI_THREAD_HANDLE_REQUEST_MIGRATED
    then have "rt_ok B {t} {} S L w1"
      using k by simp
    then obtain w2 where "ABTI_pool_add_thread t w1 = Some w2" "rt_ok B ({t} - {t}) {} S L w2"
      using add_thread_ok [of B "{t}" "{}" S L w1 t] by blast
    then show ?thesis
      using ABTI_THREAD_HANDLE_REQUEST_MIGRATED S
      by (intro exI [of _ w2] exI [of _ S] exI [of _ L]) (simp add: ABTI_ythread_schedule_def w1)
  qed
qed

end
