(* ===== verification/YthreadCalm.thy ===== *)
theory YthreadCalm
  imports YthreadSteps
begin

text \<open>
  Blocking does not change the pool of a work unit that no migration is pending for: then
  \<open>leak\<close> (theory YthreadSteps) is zero and the counters of blocked work units stay exact.
\<close>

section \<open>Blocking without a pending migration\<close>

text \<open>
  A work unit that blocks while a migration of it is pending changes its pool between two updates
  of the counters of blocked work units. Without one, its pool stays.
\<close>

definition mig_pending :: "runtime \<Rightarrow> thread_ptr \<Rightarrow> bool" where
  "mig_pending w t \<longleftrightarrow> ABTI_THREAD_REQ_MIGRATE \<in> req w t"

lemma mig_pending_cong: "rt_unit w' = rt_unit w \<Longrightarrow> mig_pending w' t = mig_pending w t"
  by (simp add: mig_pending_def req_def)

lemma mig_pending_simps:
  "mig_pending (ABTI_pool_inc_num_blocked p w) t = mig_pending w t" "mig_pending (set_thread x q w) t = mig_pending w t"
  by (rule mig_pending_cong, simp)+

lemma handle_calm:
  "\<not> mig_pending w t \<Longrightarrow> ABTI_thread_handle_request E t False w = Some (h, w') \<Longrightarrow> w' = w"
  by (auto simp: mig_pending_def ABTI_thread_handle_request_def req_def split: bind_splits if_splits)

lemma handle_then_state:
  assumes "Option.bind a (\<lambda>(_, w1). f w1) = Some w'"
  shows "\<exists>h w1. a = Some (h, w1) \<and> f w1 = Some w'"
  using assms by (cases a) auto

lemma set_state_assoc: "set_state c t w = Some w' \<Longrightarrow> rt_assoc w' = rt_assoc w"
  by (auto simp: set_state_def upd_put split: if_splits)

lemma callback_suspend_calm:
  assumes "ABTI_ythread_callback_suspend E t w = Some w'" "\<not> mig_pending w t"
  shows "rt_assoc w' = rt_assoc w"
proof -
  obtain p where "pool_of w t = Some p" "rt_unit w t \<noteq> None"
    using assms(1) by (cases "rt_unit w t"; cases "pool_of w t") (simp_all add: ABTI_ythread_callback_suspend_def)
  then have "Option.bind (ABTI_thread_handle_request E t False (ABTI_pool_inc_num_blocked p w))
    (\<lambda>(_, w1). set_state ABT_THREAD_STATE_BLOCKED t w1) = Some w'"
    using assms(1) by (auto simp: ABTI_ythread_callback_suspend_def)
  from handle_then_state [OF this] obtain h w1 where
    w1: "ABTI_thread_handle_request E t False (ABTI_pool_inc_num_blocked p w) = Some (h, w1)"
      "set_state ABT_THREAD_STATE_BLOCKED t w1 = Some w'"
    by blast
  have "\<not> mig_pending (ABTI_pool_inc_num_blocked p w) t"
    using assms(2) by (simp add: mig_pending_simps)
  from handle_calm [OF this w1(1)] show ?thesis
    using set_state_assoc [OF w1(2)] by simp
qed

lemma switch_parent_callback:
  "ABTI_ythread_switch_to_parent_internal x t cb w = Some w' \<Longrightarrow> \<exists>q. cb (set_thread x q w) = Some w'"
  by (auto simp: ABTI_ythread_switch_to_parent_internal_def Let_def split: bind_splits if_splits)

lemma join_callback:
  assumes "ABTI_ythread_suspend_join E x t n w = Some w'"
  shows "\<exists>q w1. ABTI_ythread_callback_suspend E t (set_thread x q w) = Some w1 \<and>
    upd n (wu_link_update (\<lambda>_. Some (Joiner t))) w1 = Some w'"
proof -
  obtain q where "ABTI_ythread_callback_suspend_join E t n (set_thread x q w) = Some w'"
    using switch_parent_callback [OF assms [unfolded ABTI_ythread_suspend_join_def]] by blast
  then show ?thesis
    unfolding suspend_variants by (cases "ABTI_ythread_callback_suspend E t (set_thread x q w)") auto
qed

lemma suspend_calm:
  assumes "\<not> mig_pending w t"
  shows "ABTI_ythread_suspend E x t w = Some w' \<Longrightarrow> rt_assoc w' = rt_assoc w"
    "ABTI_ythread_suspend_join E x t n w = Some w' \<Longrightarrow> rt_assoc w' = rt_assoc w"
proof -
  have p: "\<not> mig_pending (set_thread x q w) t" for q
    using assms by (simp add: mig_pending_simps)
  show "rt_assoc w' = rt_assoc w" if s: "ABTI_ythread_suspend E x t w = Some w'"
  proof -
    obtain q where q: "ABTI_ythread_callback_suspend E t (set_thread x q w) = Some w'"
      using switch_parent_callback [OF s [unfolded ABTI_ythread_suspend_def]] by blast
    show ?thesis
      using callback_suspend_calm [OF q p] by simp
  qed
  assume "ABTI_ythread_suspend_join E x t n w = Some w'"
  then obtain q w1 where w1: "ABTI_ythread_callback_suspend E t (set_thread x q w) = Some w1"
    "upd n (wu_link_update (\<lambda>_. Some (Joiner t))) w1 = Some w'"
    using join_callback by blast
  have "rt_assoc w' = rt_assoc w1"
    using w1(2) by (auto simp: upd_put split: if_splits)
  then show "rt_assoc w' = rt_assoc w"
    using callback_suspend_calm [OF w1(1) p] by simp
qed

lemma resume_suspend_to_calm:
  assumes "ABTI_ythread_resume_suspend_to E x t n w = Some w'" "\<not> mig_pending w t"
  shows "rt_assoc w' = rt_assoc w"
proof -
  obtain w1 where w1: "set_state ABT_THREAD_STATE_RUNNING n w = Some w1"
    "ABTI_ythread_switch_to_sibling_internal x t n (ABTI_ythread_callback_resume_suspend_to E t n) w1 = Some w'"
    using assms(1) by (auto simp: ABTI_ythread_resume_suspend_to_def split: bind_splits if_splits)
  have "rt_unit w1 t \<noteq> None" "rt_unit w1 n \<noteq> None"
    using w1 by (auto simp: set_state_def upd_put ABTI_ythread_switch_to_sibling_internal_def split: bind_splits if_splits)
  then have cb: "ABTI_ythread_callback_resume_suspend_to E t n (entered x n (par w1 t) w1) = Some w'"
    using w1(2) by (simp add: to_sibling)
  have "req w1 = req w" "rt_assoc w1 = rt_assoc w"
    using w1(1) by (auto simp: set_state_def upd_put put_views split: if_splits)
  then have p: "\<not> mig_pending (entered x n (par w1 t) w1) t" "rt_assoc (entered x n (par w1 t) w1) = rt_assoc w"
    using assms(2) by (simp_all add: mig_pending_def entered_views)
  define v where "v = entered x n (par w1 t) w1"
  note cb = cb [folded v_def, unfolded ABTI_ythread_callback_resume_suspend_to_def Let_def]
  obtain a b where ab: "pool_of v t = Some a" "pool_of v n = Some b" "rt_unit v t \<noteq> None" "rt_unit v n \<noteq> None"
    using cb by (cases "rt_unit v t"; cases "rt_unit v n"; cases "pool_of v t"; cases "pool_of v n") simp_all
  define w2 where "w2 = (if a \<noteq> b then ABTI_pool_dec_num_blocked b (ABTI_pool_inc_num_blocked a v) else v)"
  have w2: "rt_assoc w2 = rt_assoc w" "rt_unit w2 = rt_unit v"
    using p(2) by (simp_all add: w2_def v_def)
  have "Option.bind (ABTI_thread_handle_request E t False w2) (\<lambda>(_, w1). set_state ABT_THREAD_STATE_BLOCKED t w1) = Some w'"
    using cb ab by (auto simp: w2_def)
  from handle_then_state [OF this] obtain h w3 where
    w3: "ABTI_thread_handle_request E t False w2 = Some (h, w3)" "set_state ABT_THREAD_STATE_BLOCKED t w3 = Some w'"
    by blast
  have "\<not> mig_pending w2 t"
    using p(1) mig_pending_cong [OF w2(2)] by (simp add: v_def)
  from handle_calm [OF this w3(1)] show ?thesis
    using set_state_assoc [OF w3(2)] w2(1) by simp
qed

end
