(* ===== verification/ThreadApi.thy ===== *)
theory ThreadApi
  imports Ythread SchedCore
begin

text \<open>
  Creating, reviving, migrating, joining and freeing work units, and the API functions of ULTs,
  tasklets and the caller itself (\<^verbatim>\<open>argobots_framework/src/thread.c\<close>, \<^verbatim>\<open>task.c\<close>, \<^verbatim>\<open>self.c\<close>,
  \<^verbatim>\<open>thread_attr.c\<close>), with their argument checks.

  \<open>l\<close> is the execution stream of the caller, \<open>None\<close> on an external thread. The result of a
  function that switches to another context is the state right after the switch; its return
  value is what the caller sees when it runs again. A function that asks for a unit twice, for a
  work unit it makes and for the caller that yields, takes two environments \<open>E\<close> and \<open>Ey\<close>.
\<close>

section \<open>Attributes\<close>

record thread_attr =
  at_stack :: "nat option"
  at_stacksize :: nat
  at_migratable :: bool
  at_cb :: "nat option"
  at_cb_arg :: nat

definition ABTI_thread_attr_init :: "nat option \<Rightarrow> nat \<Rightarrow> bool \<Rightarrow> thread_attr" where
  "ABTI_thread_attr_init stack stacksize migratable =
     \<lparr>at_stack = stack, at_stacksize = stacksize, at_migratable = migratable, at_cb = None, at_cb_arg = 0\<rparr>"

definition ABT_thread_attr_create :: "bool \<Rightarrow> nat \<Rightarrow> abt_errno \<times> thread_attr option" where
  "ABT_thread_attr_create malloc_ok thread_stacksize =
     (if \<not> malloc_ok then (ABT_ERR_MEM, None)
      else (ABT_SUCCESS, Some (ABTI_thread_attr_init None thread_stacksize True)))"

definition ABT_thread_attr_free :: "thread_attr option \<Rightarrow> abt_errno \<times> thread_attr option" where
  "ABT_thread_attr_free a = (case a of None \<Rightarrow> (ABT_ERR_INV_THREAD_ATTR, None) | Some _ \<Rightarrow> (ABT_SUCCESS, None))"

text \<open>The alignment of the stack has been checked by the caller, or is asserted.\<close>

definition thread_attr_set_stack :: "nat option \<Rightarrow> nat \<Rightarrow> thread_attr \<Rightarrow> thread_attr option" where
  "thread_attr_set_stack stackaddr stacksize a =
     (if (\<exists>s. stackaddr = Some s \<and> and s 7 \<noteq> 0) then None
      else Some (a\<lparr>at_stack := stackaddr, at_stacksize := stacksize\<rparr>))"

definition ABT_thread_attr_set_stack ::
    "thread_attr option \<Rightarrow> nat option \<Rightarrow> nat \<Rightarrow> (abt_errno \<times> thread_attr option) option" where
  "ABT_thread_attr_set_stack attr stackaddr stacksize =
     (case attr of
        None \<Rightarrow> Some (ABT_ERR_INV_THREAD_ATTR, None)
      | Some a \<Rightarrow>
          if \<not> (case stackaddr of None \<Rightarrow> True | Some s \<Rightarrow> and s 7 = 0) then Some (ABT_ERR_INV_ARG, Some a)
          else map_option (\<lambda>a'. (ABT_SUCCESS, Some a')) (thread_attr_set_stack stackaddr stacksize a))"

definition ABT_thread_attr_get_stack :: "thread_attr option \<Rightarrow> abt_errno + nat option \<times> nat" where
  "ABT_thread_attr_get_stack attr =
     (case attr of None \<Rightarrow> Inl ABT_ERR_INV_THREAD_ATTR | Some a \<Rightarrow> Inr (at_stack a, at_stacksize a))"

definition ABT_thread_attr_set_stacksize ::
    "thread_attr option \<Rightarrow> nat \<Rightarrow> (abt_errno \<times> thread_attr option) option" where
  "ABT_thread_attr_set_stacksize attr stacksize =
     (case attr of
        None \<Rightarrow> Some (ABT_ERR_INV_THREAD_ATTR, None)
      | Some a \<Rightarrow> map_option (\<lambda>a'. (ABT_SUCCESS, Some a')) (thread_attr_set_stack (at_stack a) stacksize a))"

definition ABT_thread_attr_get_stacksize :: "thread_attr option \<Rightarrow> abt_errno + nat" where
  "ABT_thread_attr_get_stacksize attr =
     (case attr of None \<Rightarrow> Inl ABT_ERR_INV_THREAD_ATTR | Some a \<Rightarrow> Inr (at_stacksize a))"

definition ABT_thread_attr_set_callback ::
    "thread_attr option \<Rightarrow> nat option \<Rightarrow> nat \<Rightarrow> abt_errno \<times> thread_attr option" where
  "ABT_thread_attr_set_callback attr cb_func cb_arg =
     (case attr of
        None \<Rightarrow> (ABT_ERR_INV_THREAD_ATTR, None)
      | Some a \<Rightarrow> (ABT_SUCCESS, Some (a\<lparr>at_cb := cb_func, at_cb_arg := cb_arg\<rparr>)))"

definition ABT_thread_attr_set_migratable :: "thread_attr option \<Rightarrow> bool \<Rightarrow> abt_errno \<times> thread_attr option" where
  "ABT_thread_attr_set_migratable attr is_migratable =
     (case attr of
        None \<Rightarrow> (ABT_ERR_INV_THREAD_ATTR, None)
      | Some a \<Rightarrow> (ABT_SUCCESS, Some (a\<lparr>at_migratable := is_migratable\<rparr>)))"

definition ABTI_thread_attr_dup :: "bool \<Rightarrow> thread_attr \<Rightarrow> abt_errno + thread_attr" where
  "ABTI_thread_attr_dup malloc_ok a = (if \<not> malloc_ok then Inl ABT_ERR_MEM else Inr a)"

section \<open>Creation\<close>

datatype create_op = THREAD_POOL_OP_NONE | THREAD_POOL_OP_PUSH | THREAD_POOL_OP_INIT

text \<open>The ways a descriptor and a stack are allocated.\<close>

datatype stack_kind =
  Mempool_desc_default | Mempool_desc_stack | Malloc_desc_stack | Mempool_desc | Mempool_desc_user

text \<open>
  What the allocators return in one call of \<^verbatim>\<open>ythread_create\<close>, and the address of the new
  descriptor.
\<close>

record alloc =
  al_new :: thread_ptr
  al_thread :: "stack_kind \<Rightarrow> abt_errno"
  al_mig_data :: abt_errno
  al_mig_key :: abt_errno
  al_sched_key :: abt_errno
  al_default_stacksize :: nat

definition stack_kind_of :: "nat \<Rightarrow> thread_attr option \<Rightarrow> stack_kind" where
  "stack_kind_of default_stacksize attr =
     (case attr of
        None \<Rightarrow> Mempool_desc_default
      | Some a \<Rightarrow>
          (case at_stack a of
             None \<Rightarrow>
               if at_stacksize a = default_stacksize then Mempool_desc_stack
               else if at_stacksize a \<noteq> 0 then Malloc_desc_stack
               else Mempool_desc
           | Some _ \<Rightarrow> Mempool_desc_user))"

definition new_work_unit :: "thread_type set \<Rightarrow> mig_data option \<Rightarrow> nat \<Rightarrow> nat \<Rightarrow> work_unit" where
  "new_work_unit ty m f arg =
     \<lparr>wu_type = ty, wu_state = ABT_THREAD_STATE_READY, wu_request = {}, wu_parent = None, wu_last_xstream = None,
      wu_link = None, wu_mig = m, wu_func = f, wu_arg = arg\<rparr>"

definition init_pool :: "env \<Rightarrow> thread_ptr \<Rightarrow> nat \<Rightarrow> runtime \<Rightarrow> (abt_errno \<times> runtime) option" where
  "init_pool E t p w =
     map_option (\<lambda>(ret, a). (ret, w\<lparr>rt_assoc := a\<rparr>))
       (ABTI_thread_init_pool (en_builtin E) (en_malloc_ok E) (en_new_unit E) t p (rt_assoc w))"

text \<open>
  On every error the new descriptor is freed. Without a pool operation the pool is stored as it
  is, with no unit.
\<close>

definition ythread_create ::
    "alloc \<Rightarrow> env \<Rightarrow> nat option \<Rightarrow> nat \<Rightarrow> nat \<Rightarrow> thread_attr option \<Rightarrow> thread_type set \<Rightarrow> bool \<Rightarrow> create_op
     \<Rightarrow> runtime \<Rightarrow> ((abt_errno + thread_ptr) \<times> runtime) option" where
  "ythread_create A E pool f arg attr ty has_sched op w =
     (let t = al_new A; ret = al_thread A (stack_kind_of (al_default_stacksize A) attr);
        (ty1, cb) = (case attr of
            None \<Rightarrow> (insert ABTI_THREAD_TYPE_MIGRATABLE ty, None)
          | Some a \<Rightarrow> (if at_migratable a then insert ABTI_THREAD_TYPE_MIGRATABLE ty else ty, at_cb a))
      in if ret \<noteq> ABT_SUCCESS then Some (Inl ret, w)
      else if cb \<noteq> None \<and> al_mig_data A \<noteq> ABT_SUCCESS then Some (Inl (al_mig_data A), w)
      else if cb \<noteq> None \<and> al_mig_key A \<noteq> ABT_SUCCESS then Some (Inl (al_mig_key A), w)
      else if has_sched \<and> ABTI_THREAD_TYPE_PRIMARY \<notin> ty1 \<and> ABTI_THREAD_TYPE_MAIN_SCHED \<notin> ty1
        \<and> al_sched_key A \<noteq> ABT_SUCCESS then Some (Inl (al_sched_key A), w)
      else
        let m = (case cb of None \<Rightarrow> None | Some c \<Rightarrow> Some \<lparr>md_pool = None, md_cb = Some c\<rparr>);
          w1 = w\<lparr>rt_unit := (rt_unit w)(t \<mapsto> new_work_unit ty1 m f arg)\<rparr>
        in case op of
             THREAD_POOL_OP_NONE \<Rightarrow>
               Some (Inr t, w1\<lparr>rt_assoc := set_unit t 0 pool (rt_assoc w1)\<rparr>)
           | _ \<Rightarrow> do {
               p \<leftarrow> pool;
               (ret, w2) \<leftarrow> init_pool E t p w1;
               Some (if ret \<noteq> ABT_SUCCESS then (Inl ret, w2\<lparr>rt_unit := (rt_unit w2)(t := None)\<rparr>)
                     else if op = THREAD_POOL_OP_PUSH then (Inr t, ABTI_pool_push p (unit_of w2 t) w2)
                     else (Inr t, w2))
             })"

definition ABTI_ythread_create_primary ::
    "alloc \<Rightarrow> env \<Rightarrow> nat \<Rightarrow> runtime \<Rightarrow> ((abt_errno + thread_ptr) \<times> runtime) option" where
  "ABTI_ythread_create_primary A E pool w =
     ythread_create A E (Some pool) 0 0 (Some (ABTI_thread_attr_init None 0 False))
       {ABTI_THREAD_TYPE_YIELDABLE, ABTI_THREAD_TYPE_PRIMARY} False THREAD_POOL_OP_PUSH w"

definition ABTI_ythread_create_root ::
    "alloc \<Rightarrow> env \<Rightarrow> bool \<Rightarrow> nat \<Rightarrow> nat \<Rightarrow> runtime \<Rightarrow> ((abt_errno + thread_ptr) \<times> runtime) option" where
  "ABTI_ythread_create_root A E primary_xstream sched_stacksize root_func w =
     ythread_create A E None root_func 0
       (Some (ABTI_thread_attr_init None (if primary_xstream then sched_stacksize else 0) False))
       {ABTI_THREAD_TYPE_YIELDABLE, ABTI_THREAD_TYPE_ROOT, ABTI_THREAD_TYPE_NAMED} False THREAD_POOL_OP_NONE w"

definition ABTI_ythread_create_main_sched ::
    "alloc \<Rightarrow> env \<Rightarrow> nat \<Rightarrow> nat \<Rightarrow> nat \<Rightarrow> runtime \<Rightarrow> ((abt_errno + thread_ptr) \<times> runtime) option" where
  "ABTI_ythread_create_main_sched A E root_pool sched_stacksize main_sched_func w =
     ythread_create A E (Some root_pool) main_sched_func 0
       (Some (ABTI_thread_attr_init None sched_stacksize False))
       {ABTI_THREAD_TYPE_YIELDABLE, ABTI_THREAD_TYPE_MAIN_SCHED, ABTI_THREAD_TYPE_NAMED} True THREAD_POOL_OP_PUSH w"

definition ABTI_ythread_create_sched ::
    "alloc \<Rightarrow> env \<Rightarrow> nat \<Rightarrow> nat \<Rightarrow> nat \<Rightarrow> nat \<Rightarrow> runtime \<Rightarrow> ((abt_errno + thread_ptr) \<times> runtime) option" where
  "ABTI_ythread_create_sched A E pool sched_stacksize run sched w =
     ythread_create A E (Some pool) run sched (Some (ABTI_thread_attr_init None sched_stacksize False))
       {ABTI_THREAD_TYPE_YIELDABLE} True THREAD_POOL_OP_PUSH w"

text \<open>A ULT gets a new context, whose link is NULL; a tasklet has no context, so no link either.\<close>

definition thread_revive ::
    "env \<Rightarrow> nat \<Rightarrow> nat \<Rightarrow> nat \<Rightarrow> create_op \<Rightarrow> thread_ptr \<Rightarrow> runtime \<Rightarrow> (abt_errno \<times> runtime) option" where
  "thread_revive E p f arg op t w = do {
     u \<leftarrow> rt_unit w t;
     (if wu_state u \<noteq> ABT_THREAD_STATE_TERMINATED then None
      else do {
        (ret, w1) \<leftarrow> set_associated_pool E t p w;
        (if ret \<noteq> ABT_SUCCESS then Some (ret, w1)
         else do {
           w2 \<leftarrow> upd t (\<lambda>u. u\<lparr>wu_func := f, wu_arg := arg, wu_state := ABT_THREAD_STATE_READY, wu_request := {},
             wu_last_xstream := None, wu_parent := None, wu_link := None\<rparr>) w1;
           Some (ABT_SUCCESS, if op = THREAD_POOL_OP_PUSH then ABTI_pool_push p (unit_of w2 t) w2 else w2)
         })
      })
   }"

text \<open>A tasklet; its descriptor comes from the memory pool, its request and state are set last.\<close>

definition task_create ::
    "alloc \<Rightarrow> env \<Rightarrow> nat \<Rightarrow> nat \<Rightarrow> nat \<Rightarrow> bool \<Rightarrow> runtime \<Rightarrow> ((abt_errno + thread_ptr) \<times> runtime) option" where
  "task_create A E p f arg refcount w =
     (if al_thread A Mempool_desc \<noteq> ABT_SUCCESS then Some (Inl (al_thread A Mempool_desc), w)
      else
        let t = al_new A;
          ty = {ABTI_THREAD_TYPE_THREAD, ABTI_THREAD_TYPE_MIGRATABLE} \<union> (if refcount then {ABTI_THREAD_TYPE_NAMED} else {})
        in do {
          (ret, w1) \<leftarrow> init_pool E t p w;
          Some (if ret \<noteq> ABT_SUCCESS then (Inl ret, w1)
            else
              let w2 = w1\<lparr>rt_unit := (rt_unit w1)(t \<mapsto> new_work_unit ty None f arg)\<rparr>
              in (Inr t, ABTI_pool_push p (unit_of w2 t) w2))
        })"

section \<open>Checks of the API\<close>

type_synonym api = "runtime \<Rightarrow> (abt_errno \<times> runtime) option"

definition fails :: "abt_errno \<Rightarrow> api" where
  "fails e w = Some (e, w)"

definition success :: "runtime option \<Rightarrow> (abt_errno \<times> runtime) option" where
  "success r = map_option (Pair ABT_SUCCESS) r"

text \<open>\<^verbatim>\<open>ABTI_SETUP_LOCAL_YTHREAD\<close>: the caller must be a yieldable ULT.\<close>

definition with_self :: "nat option \<Rightarrow> (nat \<Rightarrow> thread_ptr \<Rightarrow> work_unit \<Rightarrow> api) \<Rightarrow> api" where
  "with_self l k w =
     (case l of
        None \<Rightarrow> fails ABT_ERR_INV_XSTREAM w
      | Some x \<Rightarrow> do {
          u \<leftarrow> rt_unit w (rt_thread w x);
          (if ABTI_THREAD_TYPE_YIELDABLE \<notin> wu_type u then fails ABT_ERR_INV_THREAD w
           else k x (rt_thread w x) u w)
        })"

text \<open>\<^verbatim>\<open>ABTI_CHECK_NULL_THREAD_PTR\<close>, and the check that a work unit is yieldable.\<close>

definition with_thread :: "thread_ptr option \<Rightarrow> (thread_ptr \<Rightarrow> work_unit \<Rightarrow> api) \<Rightarrow> api" where
  "with_thread thread k w =
     (case thread of
        None \<Rightarrow> fails ABT_ERR_INV_THREAD w
      | Some t \<Rightarrow> Option.bind (rt_unit w t) (\<lambda>u. k t u w))"

definition with_ythread :: "thread_ptr option \<Rightarrow> (thread_ptr \<Rightarrow> work_unit \<Rightarrow> api) \<Rightarrow> api" where
  "with_ythread thread k = with_thread thread
     (\<lambda>t u. if ABTI_THREAD_TYPE_YIELDABLE \<notin> wu_type u then fails ABT_ERR_INV_THREAD else k t u)"

definition with_pool :: "nat option \<Rightarrow> (nat \<Rightarrow> api) \<Rightarrow> api" where
  "with_pool pool k = (case pool of None \<Rightarrow> fails ABT_ERR_INV_POOL | Some p \<Rightarrow> k p)"

definition main_sched :: "work_unit \<Rightarrow> bool" where
  "main_sched u \<longleftrightarrow> ABTI_THREAD_TYPE_MAIN_SCHED \<in> wu_type u"

definition primary :: "work_unit \<Rightarrow> bool" where
  "primary u \<longleftrightarrow> ABTI_THREAD_TYPE_PRIMARY \<in> wu_type u"

lemmas api_defs = fails_def success_def with_self_def with_thread_def with_ythread_def with_pool_def main_sched_def primary_def

section \<open>The caller\<close>

definition ABT_self_yield :: "env \<Rightarrow> nat option \<Rightarrow> api" where
  "ABT_self_yield E l = with_self l (\<lambda>x self _ w. success (ABTI_ythread_yield E x self w))"

definition ABT_self_yield_to :: "env \<Rightarrow> nat option \<Rightarrow> thread_ptr option \<Rightarrow> api" where
  "ABT_self_yield_to E l thread = with_self l (\<lambda>x self u. with_ythread thread (\<lambda>t v w.
     if self = t \<or> main_sched u \<or> main_sched v then fails ABT_ERR_INV_THREAD w
     else success (ABTI_ythread_yield_to E x self t w)))"

definition ABT_self_resume_yield_to :: "env \<Rightarrow> nat option \<Rightarrow> thread_ptr option \<Rightarrow> api" where
  "ABT_self_resume_yield_to E l thread = with_self l (\<lambda>x self u. with_ythread thread (\<lambda>t v w.
     if main_sched u \<or> main_sched v then fails ABT_ERR_INV_THREAD w
     else success (ABTI_ythread_resume_yield_to E x self t w)))"

definition ABT_self_suspend :: "env \<Rightarrow> nat option \<Rightarrow> api" where
  "ABT_self_suspend E l = with_self l (\<lambda>x self _ w. success (ABTI_ythread_suspend E x self w))"

definition ABT_self_suspend_to :: "env \<Rightarrow> nat option \<Rightarrow> thread_ptr option \<Rightarrow> api" where
  "ABT_self_suspend_to E l thread = with_self l (\<lambda>x self u. with_ythread thread (\<lambda>t v w.
     if self = t \<or> main_sched u \<or> main_sched v then fails ABT_ERR_INV_THREAD w
     else success (ABTI_ythread_suspend_to E x self t w)))"

definition ABT_self_resume_suspend_to :: "env \<Rightarrow> nat option \<Rightarrow> thread_ptr option \<Rightarrow> api" where
  "ABT_self_resume_suspend_to E l thread = with_self l (\<lambda>x self u. with_ythread thread (\<lambda>t v w.
     if main_sched u \<or> main_sched v then fails ABT_ERR_INV_THREAD w
     else success (ABTI_ythread_resume_suspend_to E x self t w)))"

definition ABT_self_exit :: "nat option \<Rightarrow> api" where
  "ABT_self_exit l = with_self l (\<lambda>x self u w.
     if primary u then fails ABT_ERR_INV_THREAD w else success (ABTI_ythread_exit x self w))"

definition ABT_self_exit_to :: "nat option \<Rightarrow> thread_ptr option \<Rightarrow> api" where
  "ABT_self_exit_to l thread = with_self l (\<lambda>x self u. with_ythread thread (\<lambda>t v w.
     if self = t \<or> main_sched u \<or> main_sched v \<or> primary v then fails ABT_ERR_INV_THREAD w
     else success (ABTI_ythread_exit_to x self t w)))"

definition ABT_self_resume_exit_to :: "nat option \<Rightarrow> thread_ptr option \<Rightarrow> api" where
  "ABT_self_resume_exit_to l thread = with_self l (\<lambda>x self u. with_ythread thread (\<lambda>t v w.
     if primary u \<or> main_sched u \<or> main_sched v then fails ABT_ERR_INV_THREAD w
     else success (ABTI_ythread_resume_exit_to x self t w)))"

definition ABT_self_schedule ::
    "(thread_ptr \<Rightarrow> runtime \<Rightarrow> runtime option) \<Rightarrow> env \<Rightarrow> env \<Rightarrow> nat option \<Rightarrow> thread_ptr option \<Rightarrow> nat option \<Rightarrow> api" where
  "ABT_self_schedule run E Es l thread pool = with_thread thread (\<lambda>t _. with_self l (\<lambda>x _ _ w. do {
     (ret, w1) \<leftarrow> (case pool of None \<Rightarrow> Some (ABT_SUCCESS, w) | Some p \<Rightarrow> set_associated_pool E t p w);
     (if ret \<noteq> ABT_SUCCESS then Some (ret, w1) else success (ABTI_ythread_schedule run Es x t w1))
   }))"

definition ABT_self_set_associated_pool :: "env \<Rightarrow> nat option \<Rightarrow> nat option \<Rightarrow> api" where
  "ABT_self_set_associated_pool E l pool w =
     (case l of
        None \<Rightarrow> fails ABT_ERR_INV_XSTREAM w
      | Some x \<Rightarrow> with_pool pool (\<lambda>p. set_associated_pool E (rt_thread w x) p) w)"

definition ABT_self_set_arg :: "nat option \<Rightarrow> nat \<Rightarrow> api" where
  "ABT_self_set_arg l arg w =
     (case l of
        None \<Rightarrow> fails ABT_ERR_INV_XSTREAM w
      | Some x \<Rightarrow> success (upd (rt_thread w x) (wu_arg_update (\<lambda>_. arg)) w))"

definition ABT_self_get_arg :: "nat option \<Rightarrow> runtime \<Rightarrow> (abt_errno + nat) option" where
  "ABT_self_get_arg l w =
     (case l of
        None \<Rightarrow> Some (Inl ABT_ERR_INV_XSTREAM)
      | Some x \<Rightarrow> map_option (\<lambda>u. Inr (wu_arg u)) (rt_unit w (rt_thread w x)))"

section \<open>ULTs\<close>

text \<open>A thread that the caller wants a handle of is named, others are freed when they end.\<close>

definition named_type :: "bool \<Rightarrow> thread_type set" where
  "named_type newthread = (if newthread then {ABTI_THREAD_TYPE_YIELDABLE, ABTI_THREAD_TYPE_NAMED}
     else {ABTI_THREAD_TYPE_YIELDABLE})"

definition ABT_thread_create ::
    "alloc \<Rightarrow> env \<Rightarrow> nat option \<Rightarrow> nat \<Rightarrow> nat \<Rightarrow> thread_attr option \<Rightarrow> bool \<Rightarrow> runtime
     \<Rightarrow> ((abt_errno + thread_ptr) \<times> runtime) option" where
  "ABT_thread_create A E pool f arg attr newthread w =
     (case pool of
        None \<Rightarrow> Some (Inl ABT_ERR_INV_POOL, w)
      | Some p \<Rightarrow> ythread_create A E (Some p) f arg attr (named_type newthread) False THREAD_POOL_OP_PUSH w)"

definition ABT_thread_create_to ::
    "alloc \<Rightarrow> env \<Rightarrow> env \<Rightarrow> nat option \<Rightarrow> nat option \<Rightarrow> nat \<Rightarrow> nat \<Rightarrow> thread_attr option \<Rightarrow> bool \<Rightarrow> api" where
  "ABT_thread_create_to A E Ey l pool f arg attr newthread = with_self l (\<lambda>x self u.
     if main_sched u then fails ABT_ERR_INV_THREAD
     else with_pool pool (\<lambda>p w. do {
       (r, w1) \<leftarrow> ythread_create A E (Some p) f arg attr (named_type newthread) False THREAD_POOL_OP_INIT w;
       (case r of
          Inl err \<Rightarrow> Some (err, w1)
        | Inr t \<Rightarrow> success (ABTI_ythread_yield_to Ey x self t w1))
     }))"

definition ABT_thread_create_on_xstream ::
    "alloc \<Rightarrow> env \<Rightarrow> 'd sched option \<Rightarrow> nat \<Rightarrow> nat \<Rightarrow> thread_attr option \<Rightarrow> bool \<Rightarrow> runtime
     \<Rightarrow> ((abt_errno + thread_ptr) \<times> runtime) option" where
  "ABT_thread_create_on_xstream A E xstream_main_sched f arg attr newthread w =
     (case xstream_main_sched of
        None \<Rightarrow> Some (Inl ABT_ERR_INV_XSTREAM, w)
      | Some s \<Rightarrow>
          (case sc_pools s of
             [] \<Rightarrow> None
           | p # _ \<Rightarrow> ythread_create A E p f arg attr (named_type newthread) False THREAD_POOL_OP_PUSH w))"

text \<open>
  Many at once: it stops at the first error, and those created stay. With a list of handles, the
  code stores the handle of a creation before it looks at its error; the handle is then whatever
  the uninitialized variable held, here \<open>junk\<close>.
\<close>

fun create_many ::
    "alloc list \<Rightarrow> env list \<Rightarrow> nat option list \<Rightarrow> nat list \<Rightarrow> nat list \<Rightarrow> thread_attr option \<Rightarrow> bool \<Rightarrow> thread_ptr
     \<Rightarrow> runtime \<Rightarrow> (abt_errno \<times> thread_ptr list \<times> runtime) option" where
  "create_many As Es [] fs args attr handles junk w = Some (ABT_SUCCESS, [], w)"
| "create_many (A # As) (E # Es) (None # ps) fs args attr handles junk w = Some (ABT_ERR_INV_POOL, [], w)"
| "create_many (A # As) (E # Es) (Some p # ps) (f # fs) (arg # args) attr handles junk w = do {
     (r, w1) \<leftarrow> ythread_create A E (Some p) f arg attr (named_type handles) False THREAD_POOL_OP_PUSH w;
     (case r of
        Inl err \<Rightarrow> Some (err, if handles then [junk] else [], w1)
      | Inr t \<Rightarrow> do {
          (err, ts, w2) \<leftarrow> create_many As Es ps fs args attr handles junk w1;
          Some (err, if handles then t # ts else [], w2)
        })
   }"
| "create_many _ _ _ _ _ _ _ _ _ = None"

definition ABT_thread_create_many ::
    "alloc list \<Rightarrow> env list \<Rightarrow> nat option list \<Rightarrow> nat list \<Rightarrow> nat list \<Rightarrow> thread_attr option \<Rightarrow> bool \<Rightarrow> thread_ptr
     \<Rightarrow> runtime \<Rightarrow> (abt_errno \<times> thread_ptr list \<times> runtime) option" where
  "ABT_thread_create_many As Es pools fs args attr handles junk w =
     (if (\<exists>a. attr = Some a \<and> at_stack a \<noteq> None) then Some (ABT_ERR_INV_THREAD_ATTR, [], w)
      else create_many As Es pools fs args attr handles junk w)"

definition ABT_thread_revive :: "env \<Rightarrow> nat option \<Rightarrow> nat \<Rightarrow> nat \<Rightarrow> thread_ptr option \<Rightarrow> api" where
  "ABT_thread_revive E pool f arg thread = with_thread thread (\<lambda>t u.
     if wu_state u \<noteq> ABT_THREAD_STATE_TERMINATED then fails ABT_ERR_INV_THREAD
     else with_pool pool (\<lambda>p. thread_revive E p f arg THREAD_POOL_OP_PUSH t))"

definition ABT_thread_revive_to :: "env \<Rightarrow> env \<Rightarrow> nat option \<Rightarrow> nat option \<Rightarrow> nat \<Rightarrow> nat \<Rightarrow> thread_ptr option \<Rightarrow> api" where
  "ABT_thread_revive_to E Ey l pool f arg thread = with_self l (\<lambda>x self u.
     if main_sched u then fails ABT_ERR_INV_THREAD
     else with_thread thread (\<lambda>t v.
       if wu_state v \<noteq> ABT_THREAD_STATE_TERMINATED \<or> ABTI_THREAD_TYPE_YIELDABLE \<notin> wu_type v
       then fails ABT_ERR_INV_THREAD
       else with_pool pool (\<lambda>p w. do {
         (ret, w1) \<leftarrow> thread_revive E p f arg THREAD_POOL_OP_INIT t w;
         (if ret \<noteq> ABT_SUCCESS then Some (ret, w1) else success (ABTI_ythread_yield_to Ey x self t w1))
       })))"

definition ABT_thread_cancel :: "thread_ptr option \<Rightarrow> api" where
  "ABT_thread_cancel thread = with_thread thread (\<lambda>t u w.
     if primary u then fails ABT_ERR_INV_THREAD w
     else success (ABTI_thread_set_request ABTI_THREAD_REQ_CANCEL t w))"

definition ABT_thread_exit :: "nat option \<Rightarrow> api" where
  "ABT_thread_exit l = with_self l (\<lambda>x self u w.
     if primary u then fails ABT_ERR_INV_THREAD w else success (ABTI_ythread_exit x self w))"

definition ABT_thread_yield :: "env \<Rightarrow> nat option \<Rightarrow> api" where
  "ABT_thread_yield E l w =
     (case l of
        None \<Rightarrow> Some (ABT_SUCCESS, w)
      | Some x \<Rightarrow> do {
          u \<leftarrow> rt_unit w (rt_thread w x);
          (if ABTI_THREAD_TYPE_YIELDABLE \<notin> wu_type u then Some (ABT_SUCCESS, w)
           else success (ABTI_ythread_yield E x (rt_thread w x) w))
        })"

text \<open>
  The deprecated directed yield, which takes its target out of the target's pool. \<open>has_fns p\<close>: the
  pool has the two functions it needs; \<open>remove_ret\<close> is what removing returns.
\<close>

definition ABT_thread_yield_to ::
    "env \<Rightarrow> (nat \<Rightarrow> bool) \<Rightarrow> (nat \<Rightarrow> bool) \<Rightarrow> abt_errno \<Rightarrow> nat option \<Rightarrow> thread_ptr option \<Rightarrow> api" where
  "ABT_thread_yield_to E has_is_in_pool has_remove remove_ret l thread w =
     (case l of
        None \<Rightarrow> Some (ABT_SUCCESS, w)
      | Some x \<Rightarrow> do {
          let self = rt_thread w x;
          u \<leftarrow> rt_unit w self;
          (if ABTI_THREAD_TYPE_YIELDABLE \<notin> wu_type u then Some (ABT_SUCCESS, w)
           else with_ythread thread (\<lambda>t v w. do {
             (if self = t \<or> main_sched u then fails ABT_ERR_INV_THREAD w
              else do {
                p \<leftarrow> pool_of w t;
                (if \<not> has_is_in_pool p \<or> \<not> has_remove p then fails ABT_ERR_POOL w
                 else if \<not> (unit_of w t \<in> set (rt_queue w p) \<and> wu_state v = ABT_THREAD_STATE_READY)
                 then Some (ABT_SUCCESS, w)
                 else do {
                   own \<leftarrow> pool_of w self;
                   let w1 = ABTI_pool_inc_num_blocked own w;
                   (if remove_ret \<noteq> ABT_SUCCESS then Some (remove_ret, ABTI_pool_dec_num_blocked own w1)
                    else do {
                      w2 \<leftarrow> upd t (wu_last_xstream_update (\<lambda>_. Some x)) (ABTI_pool_remove p (unit_of w1 t) w1);
                      success (ABTI_ythread_thread_yield_to E x self t w2)
                    })
                 })
              })
           }) w)
        })"

definition ABT_thread_resume :: "thread_ptr option \<Rightarrow> api" where
  "ABT_thread_resume thread = with_ythread thread (\<lambda>t u w.
     if wu_state u \<noteq> ABT_THREAD_STATE_BLOCKED then fails ABT_ERR_THREAD w
     else success (ABTI_ythread_resume_and_push t w))"

definition ABT_thread_set_associated_pool :: "env \<Rightarrow> thread_ptr option \<Rightarrow> nat option \<Rightarrow> api" where
  "ABT_thread_set_associated_pool E thread pool =
     with_thread thread (\<lambda>t _. with_pool pool (\<lambda>p. set_associated_pool E t p))"

section \<open>Migration\<close>

definition thread_migrate_to_pool :: "env \<Rightarrow> thread_ptr \<Rightarrow> nat option \<Rightarrow> api" where
  "thread_migrate_to_pool E t p w = do {
     (r, w1) \<leftarrow> ABTI_thread_get_mig_data E t w;
     (case r of
        Inl err \<Rightarrow> Some (err, w1)
      | Inr _ \<Rightarrow> do {
          w2 \<leftarrow> upd t (\<lambda>u. u\<lparr>wu_mig := map_option (md_pool_update (\<lambda>_. p)) (wu_mig u)\<rparr>) w1;
          success (ABTI_thread_set_request ABTI_THREAD_REQ_MIGRATE t w2)
        })
   }"

definition not_migratable :: "work_unit \<Rightarrow> bool" where
  "not_migratable u \<longleftrightarrow> ABTI_THREAD_TYPE_MIGRATABLE \<notin> wu_type u \<or> ABTI_THREAD_TYPE_MAIN_SCHED \<in> wu_type u"

definition migrate_to_sched :: "env \<Rightarrow> thread_ptr \<Rightarrow> 'd sched \<Rightarrow> api" where
  "migrate_to_sched E t s w =
     (case ABTI_sched_get_migration_pool s of
        Inl err \<Rightarrow> fails err w
      | Inr p \<Rightarrow> thread_migrate_to_pool E t p w)"

definition ABT_thread_migrate_to_xstream :: "env \<Rightarrow> thread_ptr option \<Rightarrow> 'd sched option \<Rightarrow> api" where
  "ABT_thread_migrate_to_xstream E thread xstream_main_sched = with_thread thread (\<lambda>t u w.
     case xstream_main_sched of
       None \<Rightarrow> fails ABT_ERR_INV_XSTREAM w
     | Some s \<Rightarrow>
         if not_migratable u then fails ABT_ERR_INV_THREAD w
         else if pool_of w t \<in> set (sc_pools s) then fails ABT_ERR_MIGRATION_TARGET w
         else migrate_to_sched E t s w)"

definition ABT_thread_migrate_to_sched :: "env \<Rightarrow> thread_ptr option \<Rightarrow> 'd sched option \<Rightarrow> api" where
  "ABT_thread_migrate_to_sched E thread sched = with_thread thread (\<lambda>t u w.
     case sched of
       None \<Rightarrow> fails ABT_ERR_INV_SCHED w
     | Some s \<Rightarrow>
         if not_migratable u then fails ABT_ERR_INV_THREAD w
         else if pool_of w t \<in> set (sc_pools s) then fails ABT_ERR_MIGRATION_TARGET w
         else migrate_to_sched E t s w)"

definition ABT_thread_migrate_to_pool :: "env \<Rightarrow> thread_ptr option \<Rightarrow> nat option \<Rightarrow> api" where
  "ABT_thread_migrate_to_pool E thread pool = with_thread thread (\<lambda>t u. with_pool pool (\<lambda>p w.
     if not_migratable u then fails ABT_ERR_INV_THREAD w
     else if pool_of w t = Some p then fails ABT_ERR_MIGRATION_TARGET w
     else thread_migrate_to_pool E t (Some p) w))"

text \<open>
  The loop over all execution streams: rank, whether it is running, main scheduler. A stream
  is taken if \<^emph>\<open>every\<close> pool of its scheduler is the thread's own pool.
\<close>

fun migrate_loop :: "env \<Rightarrow> thread_ptr \<Rightarrow> work_unit \<Rightarrow> (nat \<times> bool \<times> 'd sched) list \<Rightarrow> api" where
  "migrate_loop E t u [] w = Some (ABT_ERR_MIGRATION_NA, w)"
| "migrate_loop E t u ((x, running, s) # xs) w =
     (if Some x = wu_last_xstream u \<or> \<not> running then migrate_loop E t u xs w
      else if \<not> list_all (\<lambda>p. p = pool_of w t) (sc_pools s) then migrate_loop E t u xs w
      else do {
        (ret, w1) \<leftarrow> migrate_to_sched E t s w;
        (if ret \<noteq> ABT_SUCCESS then migrate_loop E t u xs w1 else Some (ABT_SUCCESS, w1))
      })"

definition ABT_thread_migrate :: "env \<Rightarrow> bool \<Rightarrow> (nat \<times> bool \<times> 'd sched) list \<Rightarrow> thread_ptr option \<Rightarrow> api" where
  "ABT_thread_migrate E malloc_ok xstreams thread = with_thread thread (\<lambda>t u w.
     if not_migratable u then fails ABT_ERR_INV_THREAD w
     else if \<not> malloc_ok then fails ABT_ERR_MEM w
     else migrate_loop E t u xstreams w)"

definition ABT_thread_set_callback :: "env \<Rightarrow> thread_ptr option \<Rightarrow> nat option \<Rightarrow> api" where
  "ABT_thread_set_callback E thread cb = with_thread thread (\<lambda>t _ w. do {
     (r, w1) \<leftarrow> ABTI_thread_get_mig_data E t w;
     (case r of
        Inl err \<Rightarrow> Some (err, w1)
      | Inr _ \<Rightarrow> success (upd t (\<lambda>u. u\<lparr>wu_mig := map_option (md_cb_update (\<lambda>_. cb)) (wu_mig u)\<rparr>) w1))
   })"

definition ABT_thread_set_migratable :: "thread_ptr option \<Rightarrow> bool \<Rightarrow> api" where
  "ABT_thread_set_migratable thread migratable = with_thread thread (\<lambda>t u w.
     if primary u \<or> main_sched u then Some (ABT_SUCCESS, w)
     else success (upd t (\<lambda>u. u\<lparr>wu_type := (if migratable then insert ABTI_THREAD_TYPE_MIGRATABLE (wu_type u)
       else wu_type u - {ABTI_THREAD_TYPE_MIGRATABLE})\<rparr>) w))"

section \<open>Joining and freeing\<close>

text \<open>
  One round of \<^verbatim>\<open>thread_join\<close>: the target has ended, or the caller yields and looks again, or it
  suspends until it is resumed, or, not being a ULT, it spins or sleeps on a futex.
\<close>

datatype join_round = Join_done | Join_yields | Join_suspends | Join_spins | Join_sleeps

definition join_futexwait :: "nat \<Rightarrow> thread_ptr \<Rightarrow> work_unit \<Rightarrow> runtime \<Rightarrow> (join_round \<times> runtime) option" where
  "join_futexwait futex t u w =
     (if ABTI_THREAD_TYPE_YIELDABLE \<in> wu_type u then
        if ABTI_THREAD_REQ_JOIN \<notin> wu_request u then do {
          w1 \<leftarrow> ABTI_thread_set_request ABTI_THREAD_REQ_JOIN t w;
          w2 \<leftarrow> upd t (wu_link_update (\<lambda>_. Some (Joiner_ext futex))) w1;
          Some (Join_sleeps, w2)
        }
        else Some (Join_spins, w)
      else Some (Join_spins, w))"

definition thread_join_yield_thread ::
    "env \<Rightarrow> nat \<Rightarrow> thread_ptr \<Rightarrow> thread_ptr \<Rightarrow> runtime \<Rightarrow> (join_round \<times> runtime) option" where
  "thread_join_yield_thread E x self t w = do {
     u \<leftarrow> rt_unit w t;
     (if wu_state u = ABT_THREAD_STATE_TERMINATED then Some (Join_done, w)
      else map_option (Pair Join_yields) (ABTI_ythread_yield E x self w))
   }"

definition thread_join ::
    "env \<Rightarrow> nat \<Rightarrow> nat option \<Rightarrow> thread_ptr \<Rightarrow> runtime \<Rightarrow> (join_round \<times> runtime) option" where
  "thread_join E futex l t w = do {
     u \<leftarrow> rt_unit w t;
     (if wu_state u = ABT_THREAD_STATE_TERMINATED then Some (Join_done, w)
      else if primary u then None
      else case l of
        None \<Rightarrow> join_futexwait futex t u w
      | Some x \<Rightarrow> do {
          let self = rt_thread w x;
          v \<leftarrow> rt_unit w self;
          (if ABTI_THREAD_TYPE_YIELDABLE \<notin> wu_type v then join_futexwait futex t u w
           else if t = self then None
           else if ABTI_THREAD_TYPE_YIELDABLE \<notin> wu_type u then thread_join_yield_thread E x self t w
           else if ABTI_THREAD_REQ_JOIN \<in> wu_request u then thread_join_yield_thread E x self t w
           else do {
             w1 \<leftarrow> ABTI_thread_set_request ABTI_THREAD_REQ_JOIN t w;
             w2 \<leftarrow> ABTI_ythread_suspend_join E x self t w1;
             Some (Join_suspends, w2)
           })
        })
   }"

definition is_self :: "nat option \<Rightarrow> thread_ptr \<Rightarrow> runtime \<Rightarrow> bool" where
  "is_self l t w = (case l of None \<Rightarrow> False | Some x \<Rightarrow> t = rt_thread w x)"

text \<open>The result of a call that has not returned yet carries the round it is in.\<close>

definition ABT_thread_join ::
    "env \<Rightarrow> nat \<Rightarrow> nat option \<Rightarrow> thread_ptr option \<Rightarrow> runtime \<Rightarrow> ((abt_errno + join_round) \<times> runtime) option" where
  "ABT_thread_join E futex l thread w =
     (case thread of
        None \<Rightarrow> Some (Inl ABT_ERR_INV_THREAD, w)
      | Some t \<Rightarrow> do {
          u \<leftarrow> rt_unit w t;
          (if is_self l t w \<or> primary u \<or> main_sched u then Some (Inl ABT_ERR_INV_THREAD, w)
           else map_option (\<lambda>(r, w'). (Inr r, w')) (thread_join E futex l t w))
        })"

definition ABTI_thread_free :: "thread_ptr \<Rightarrow> runtime \<Rightarrow> runtime option" where
  "ABTI_thread_free t w = thread_free True t w"

definition ABT_thread_free ::
    "env \<Rightarrow> nat \<Rightarrow> nat option \<Rightarrow> thread_ptr option \<Rightarrow> runtime
     \<Rightarrow> ((abt_errno + join_round) \<times> thread_ptr option \<times> runtime) option" where
  "ABT_thread_free E futex l thread w =
     (case thread of
        None \<Rightarrow> Some (Inl ABT_ERR_INV_THREAD, None, w)
      | Some t \<Rightarrow> do {
          u \<leftarrow> rt_unit w t;
          (if is_self l t w \<or> primary u \<or> main_sched u then Some (Inl ABT_ERR_INV_THREAD, Some t, w)
           else do {
             (r, w1) \<leftarrow> thread_join E futex l t w;
             (if r = Join_done then map_option (\<lambda>w2. (Inr Join_done, None, w2)) (ABTI_thread_free t w1)
              else Some (Inr r, Some t, w1))
           })
        })"

section \<open>Queries\<close>

definition query :: "thread_ptr option \<Rightarrow> (work_unit \<Rightarrow> 'a) \<Rightarrow> runtime \<Rightarrow> (abt_errno + 'a) option" where
  "query thread f w =
     (case thread of
        None \<Rightarrow> Some (Inl ABT_ERR_INV_THREAD)
      | Some t \<Rightarrow> map_option (\<lambda>u. Inr (f u)) (rt_unit w t))"

definition ABT_thread_get_state :: "thread_ptr option \<Rightarrow> runtime \<Rightarrow> (abt_errno + thread_state) option" where
  "ABT_thread_get_state thread = query thread wu_state"

definition ABT_thread_get_last_xstream :: "thread_ptr option \<Rightarrow> runtime \<Rightarrow> (abt_errno + nat option) option" where
  "ABT_thread_get_last_xstream thread = query thread wu_last_xstream"

definition ABT_thread_get_last_pool :: "thread_ptr option \<Rightarrow> runtime \<Rightarrow> (abt_errno + nat option) option" where
  "ABT_thread_get_last_pool thread w = query thread (\<lambda>_. pool_of w (the thread)) w"

definition ABT_thread_get_unit :: "thread_ptr option \<Rightarrow> runtime \<Rightarrow> (abt_errno + nat) option" where
  "ABT_thread_get_unit thread w = query thread (\<lambda>_. unit_of w (the thread)) w"

definition ABT_thread_is_migratable :: "thread_ptr option \<Rightarrow> runtime \<Rightarrow> (abt_errno + bool) option" where
  "ABT_thread_is_migratable thread = query thread (\<lambda>u. ABTI_THREAD_TYPE_MIGRATABLE \<in> wu_type u)"

definition ABT_thread_is_primary :: "thread_ptr option \<Rightarrow> runtime \<Rightarrow> (abt_errno + bool) option" where
  "ABT_thread_is_primary thread = query thread primary"

definition ABT_thread_is_unnamed :: "thread_ptr option \<Rightarrow> runtime \<Rightarrow> (abt_errno + bool) option" where
  "ABT_thread_is_unnamed thread = query thread (\<lambda>u. ABTI_THREAD_TYPE_NAMED \<notin> wu_type u)"

definition ABT_thread_equal :: "thread_ptr option \<Rightarrow> thread_ptr option \<Rightarrow> bool" where
  "ABT_thread_equal thread1 thread2 = (thread1 = thread2)"

definition ABT_thread_set_arg :: "thread_ptr option \<Rightarrow> nat \<Rightarrow> api" where
  "ABT_thread_set_arg thread arg = with_thread thread (\<lambda>t _ w. success (upd t (wu_arg_update (\<lambda>_. arg)) w))"

definition ABT_thread_get_arg :: "thread_ptr option \<Rightarrow> runtime \<Rightarrow> (abt_errno + nat) option" where
  "ABT_thread_get_arg thread = query thread wu_arg"

definition ABT_thread_get_thread_func :: "thread_ptr option \<Rightarrow> runtime \<Rightarrow> (abt_errno + nat) option" where
  "ABT_thread_get_thread_func thread = query thread wu_func"

section \<open>Tasklets\<close>

definition ABT_task_create ::
    "alloc \<Rightarrow> env \<Rightarrow> nat option \<Rightarrow> nat \<Rightarrow> nat \<Rightarrow> bool \<Rightarrow> runtime \<Rightarrow> ((abt_errno + thread_ptr) \<times> runtime) option" where
  "ABT_task_create A E pool f arg newtask w =
     (case pool of
        None \<Rightarrow> Some (Inl ABT_ERR_INV_POOL, w)
      | Some p \<Rightarrow> task_create A E p f arg newtask w)"

datatype task_state = ABT_TASK_STATE_READY | ABT_TASK_STATE_RUNNING | ABT_TASK_STATE_TERMINATED

text \<open>The functions on tasklets are those of ULTs, with another code for a wrong handle.\<close>

definition task_errno :: "abt_errno \<Rightarrow> abt_errno" where
  "task_errno e = (if e = ABT_ERR_INV_THREAD then ABT_ERR_INV_TASK else e)"

definition ABT_task_revive :: "env \<Rightarrow> nat option \<Rightarrow> nat \<Rightarrow> nat \<Rightarrow> thread_ptr option \<Rightarrow> api" where
  "ABT_task_revive E pool f arg task w =
     map_option (\<lambda>(e, w'). (task_errno e, w')) (ABT_thread_revive E pool f arg task w)"

definition ABT_task_free ::
    "env \<Rightarrow> nat \<Rightarrow> nat option \<Rightarrow> thread_ptr option \<Rightarrow> runtime
     \<Rightarrow> ((abt_errno + join_round) \<times> thread_ptr option \<times> runtime) option" where
  "ABT_task_free E futex l task w =
     map_option (\<lambda>(r, t, w'). (map_sum task_errno (\<lambda>r. r) r, t, w')) (ABT_thread_free E futex l task w)"

definition ABT_task_join ::
    "env \<Rightarrow> nat \<Rightarrow> nat option \<Rightarrow> thread_ptr option \<Rightarrow> runtime \<Rightarrow> ((abt_errno + join_round) \<times> runtime) option" where
  "ABT_task_join E futex l task w =
     map_option (\<lambda>(r, w'). (map_sum task_errno (\<lambda>r. r) r, w')) (ABT_thread_join E futex l task w)"

definition ABT_task_cancel :: "thread_ptr option \<Rightarrow> api" where
  "ABT_task_cancel task w = map_option (\<lambda>(e, w'). (task_errno e, w')) (ABT_thread_cancel task w)"

definition ABT_task_set_migratable :: "thread_ptr option \<Rightarrow> bool \<Rightarrow> api" where
  "ABT_task_set_migratable task flag w =
     map_option (\<lambda>(e, w'). (task_errno e, w')) (ABT_thread_set_migratable task flag w)"

definition task_query :: "(abt_errno + 'a) option \<Rightarrow> (abt_errno + 'a) option" where
  "task_query r = map_option (map_sum task_errno (\<lambda>x. x)) r"

definition ABT_task_get_xstream :: "thread_ptr option \<Rightarrow> runtime \<Rightarrow> (abt_errno + nat option) option" where
  "ABT_task_get_xstream task w = task_query (ABT_thread_get_last_xstream task w)"

definition ABT_task_get_last_pool :: "thread_ptr option \<Rightarrow> runtime \<Rightarrow> (abt_errno + nat option) option" where
  "ABT_task_get_last_pool task w = task_query (ABT_thread_get_last_pool task w)"

definition ABT_task_is_migratable :: "thread_ptr option \<Rightarrow> runtime \<Rightarrow> (abt_errno + bool) option" where
  "ABT_task_is_migratable task w = task_query (ABT_thread_is_migratable task w)"

definition ABT_task_get_arg :: "thread_ptr option \<Rightarrow> runtime \<Rightarrow> (abt_errno + nat) option" where
  "ABT_task_get_arg task w = task_query (ABT_thread_get_arg task w)"

definition ABT_task_get_state :: "thread_ptr option \<Rightarrow> runtime \<Rightarrow> (abt_errno + task_state) option" where
  "ABT_task_get_state task w =
     map_option (map_sum task_errno (\<lambda>s.
       if s = ABT_THREAD_STATE_READY then ABT_TASK_STATE_READY
       else if s = ABT_THREAD_STATE_TERMINATED then ABT_TASK_STATE_TERMINATED
       else ABT_TASK_STATE_RUNNING)) (ABT_thread_get_state task w)"

end
