(* ===== verification/ThreadLife.thy ===== *)
theory ThreadLife
  imports YthreadCalm ThreadApi
begin

text \<open>
  The API of theory ThreadApi keeps the invariant of theory YthreadInv: creation, reviving,
  requests, joins and the remaining state changes first, then all calls as the steps of a run.
\<close>

section \<open>New work units\<close>

text \<open>A descriptor that is not alive yet, or one that has ended, is made READY in a pool.\<close>

lemma birth_ok:
  assumes ok: "rt_ok B {} {} S L w" and t: "rt_unit w t = None \<or> st w t = Some ABT_THREAD_STATE_TERMINATED"
    and a: "assoc_ok B a" "as_pool a = (pool_of w)(t := Some p)" "\<forall>s. s \<noteq> t \<longrightarrow> as_unit a s = unit_of w s"
    and u: "wu_state u = ABT_THREAD_STATE_READY" "wu_request u = {}" "wu_link u = None"
  shows "rt_ok B {} {} S L (w\<lparr>rt_assoc := a, rt_unit := (rt_unit w)(t \<mapsto> u)\<rparr>)"
    and "idle_ready (w\<lparr>rt_assoc := a, rt_unit := (rt_unit w)(t \<mapsto> u)\<rparr>) t"
proof -
  define w' where "w' = w\<lparr>rt_assoc := a, rt_unit := (rt_unit w)(t \<mapsto> u)\<rparr>"
  note A = rt_okD [OF ok]
  have eq: "rt_unit w' = (rt_unit w)(t \<mapsto> u)" "rt_queue w' = rt_queue w" "rt_blocked w' = rt_blocked w"
    "rt_thread w' = rt_thread w" "rt_assoc w' = a"
    by (simp_all add: w'_def)
  have v: "st w' s = (if s = t then Some ABT_THREAD_STATE_READY else st w s)"
    "lnk w' s = (if s = t then None else lnk w s)" "req w' s = (if s = t then {} else req w s)" for s
    using u by (simp_all add: views eq)
  have other: "par w' s = par w s" "lst w' s = lst w s" "mig w' s = mig w s" "pool_of w' s = pool_of w s"
    "unit_of w' s = unit_of w s" if "s \<noteq> t" for s
    using that a(2,3) by (simp_all add: views eq)
  have dead: "st w t \<noteq> Some c" if "c \<noteq> ABT_THREAD_STATE_TERMINATED" for c
    using t that by (auto simp: st_def)
  have "t \<notin> set (S x)" for x
    using stacks_okD(7) [OF A(2), of t x] dead [of ABT_THREAD_STATE_RUNNING] by auto
  then have out: "{t} \<inter> (\<Union>x. set (S x)) = {}"
    by auto
  have nobody: "j \<noteq> t" if "joins {} w j s" for j s
    using links_okD(1) [OF A(5) that] dead by auto
  have queued: "\<exists>s. s \<noteq> t \<and> unit_of w s = i \<and> pool_of w s = Some q \<and> st w s = Some ABT_THREAD_STATE_READY"
    if "i \<in> set (rt_queue w q)" for i q
    using A(3) that dead unfolding queues_ok_def by (metis thread_state.distinct(5))
  have "rt_ok B {} {} S L w'"
  proof (rule rt_okI)
    show us: "units_sound B w'"
      using A(1) a(1) unfolding units_sound_def by (auto simp: eq v(3) a(2) other)
    show "stacks_ok {} S w'"
      by (rule stacks_cong [OF A(2), of "{t}"]) (use out in \<open>simp_all add: v other eq(4)\<close>)
    show "queues_ok {} w'"
      unfolding queues_ok_def eq(2)
    proof (intro allI conjI ballI)
      show "distinct (rt_queue w q)" for q
        using A(3) by (simp add: queues_ok_def)
      fix q i
      assume "i \<in> set (rt_queue w q)"
      then obtain s where "s \<noteq> t" "unit_of w s = i" "pool_of w s = Some q" "st w s = Some ABT_THREAD_STATE_READY"
        using queued by blast
      then show "\<exists>s. unit_of w' s = i \<and> pool_of w' s = Some q \<and> st w' s = Some ABT_THREAD_STATE_READY \<and> s \<notin> {}"
        using other by (intro exI [of _ s]) (simp add: v)
    qed
    have b: "blocked_in {} w' q = blocked_in {} w q" for q
      using dead [of ABT_THREAD_STATE_BLOCKED] unfolding blocked_in_def v using other(4) by auto
    show "counts_ok {} L w'"
      by (rule count_cong [OF A(4) b]) (use A(4) in \<open>auto simp: counts_ok_def v other eq(3) split: if_splits\<close>)
    have js: "joins {} w j s" if "joins {} w' j s" for j s
      using that by (auto simp: joins_def v split: if_splits)
    show "links_ok {} {} w'"
      by (rule links_cong [OF A(5) js])
        (use nobody links_okD(4) [OF A(5)] in \<open>auto simp: v split: if_splits\<close>)
    show "hands_ok {} w'"
      by (simp add: hands_ok_def)
  qed
  moreover have "idle_ready w' t"
  proof -
    have "unit_of w' t \<notin> set (rt_queue w p)"
    proof
      assume "unit_of w' t \<in> set (rt_queue w p)"
      then obtain s where s: "s \<noteq> t" "unit_of w s = unit_of w' t" "pool_of w s = Some p"
        using queued by blast
      have "units_sound B w'"
        by (rule rt_okD(1) [OF calculation])
      from unit_inj [OF this, of s p t p] show False
        using s other [OF s(1)] a(2) by (simp add: eq(5))
    qed
    then show ?thesis
      using a(2) by (simp add: idle_ready_def v eq)
  qed
  ultimately show "rt_ok B {} {} S L (w\<lparr>rt_assoc := a, rt_unit := (rt_unit w)(t \<mapsto> u)\<rparr>)"
    "idle_ready (w\<lparr>rt_assoc := a, rt_unit := (rt_unit w)(t \<mapsto> u)\<rparr>) t"
    by (simp_all add: w'_def)
qed

lemma put_ready: "st w t = Some ABT_THREAD_STATE_READY \<Longrightarrow> put t (wu_state_update (\<lambda>_. ABT_THREAD_STATE_READY)) w = w"
  by (auto simp: put_def st_def fun_upd_idem)

lemma push_idle:
  assumes ok: "rt_ok B {} {} S L w" and t: "idle_ready w t" and p: "pool_of w t = Some p"
  shows "rt_ok B {} {} S L (ABTI_pool_push p (unit_of w t) w)"
proof -
  obtain w' where w': "ABTI_pool_add_thread t w = Some w'" "rt_ok B ({t} - {t}) {} S L w'"
    using add_thread_ok [OF take_idle [OF ok t], of t] by blast
  moreover have "rt_unit w t \<noteq> None" "st w t = Some ABT_THREAD_STATE_READY"
    using t by (auto simp: idle_ready_def st_def)
  ultimately show ?thesis
    using p by (simp add: ABTI_pool_add_thread_def set_state_def upd_put put_ready)
qed

text \<open>What creation needs: an unused, aligned address, and nothing of that address in the tables.\<close>

definition new_ptr :: "alloc \<Rightarrow> runtime \<Rightarrow> bool" where
  "new_ptr A w \<longleftrightarrow> rt_unit w (al_new A) = None \<and> even (al_new A)"

lemma runtime_eq: "w\<lparr>rt_assoc := rt_assoc w, rt_unit := rt_unit w\<rparr> = w"
  by simp

text \<open>A failed creation may have created and freed a unit of the user's pool, nothing else.\<close>

lemma same_assoc_ok:
  assumes ok: "rt_ok B {} {} S L w" and a: "assoc_ok B a" "as_pool a = pool_of w" "as_unit a = unit_of w"
  shows "rt_ok B {} {} S L (w\<lparr>rt_assoc := a\<rparr>)"
proof -
  define w' where "w' = w\<lparr>rt_assoc := a\<rparr>"
  have eq: "rt_unit w' = rt_unit w" "rt_queue w' = rt_queue w" "rt_blocked w' = rt_blocked w"
    "rt_thread w' = rt_thread w" "pool_of w' = pool_of w" "unit_of w' = unit_of w" "rt_assoc w' = a"
    using a by (simp_all add: w'_def)
  note v = views_cong [OF eq(1)] and A = rt_okD [OF ok]
  have "rt_ok B {} {} S L w'"
  proof (rule rt_okI)
    show "units_sound B w'"
      using A(1) a(1) unfolding units_sound_def v eq(1) eq(7) a(2) by blast
    show "stacks_ok {} S w'" "queues_ok {} w'" "counts_ok {} L w'" "links_ok {} {} w'" "hands_ok {} w'"
      using A(2-6) unfolding stacks_ok_def queues_ok_def counts_ok_def blocked_in_def links_ok_def joins_def hands_ok_def
        v eq(1-6) by blast+
  qed
  then show ?thesis
    by (simp add: w'_def)
qed

text \<open>Making the descriptor and initializing its pool, as all creations do.\<close>

lemma descriptor_ok:
  assumes ok: "rt_ok B {} {} S L w" and A: "rt_unit w t = None" "even t" and E: "fresh_env B E w"
    and u: "wu_state u = ABT_THREAD_STATE_READY" "wu_request u = {}" "wu_link u = None"
  shows "\<exists>ret a. init_pool E t p w = Some (ret, w\<lparr>rt_assoc := a\<rparr>) \<and>
    init_pool E t p (w\<lparr>rt_unit := (rt_unit w)(t \<mapsto> u)\<rparr>) = Some (ret, w\<lparr>rt_assoc := a, rt_unit := (rt_unit w)(t \<mapsto> u)\<rparr>) \<and>
    (if ret = ABT_SUCCESS then rt_ok B {} {} S L (w\<lparr>rt_assoc := a, rt_unit := (rt_unit w)(t \<mapsto> u)\<rparr>) \<and>
        idle_ready (w\<lparr>rt_assoc := a, rt_unit := (rt_unit w)(t \<mapsto> u)\<rparr>) t \<and> as_pool a t = Some p
     else rt_ok B {} {} S L (w\<lparr>rt_assoc := a\<rparr>))"
proof -
  have none: "pool_of w t = None"
    using rt_okD(1) [OF ok] A(1) by (simp add: units_sound_def)
  have "assoc_ok B (rt_assoc w)" "even (en_new_unit E)" "table_map (as_table (rt_assoc w)) (en_new_unit E) = None"
    using rt_okD(1) [OF ok] E by (simp_all add: units_sound_def fresh_env_def)
  from init_pool_ok [OF this(1) none A(2) this(2,3)]
  obtain ret a where a: "ABTI_thread_init_pool B (en_malloc_ok E) (en_new_unit E) t p (rt_assoc w) = Some (ret, a)"
    "assoc_ok B a" "changed ret t p (rt_assoc w) a"
    by blast
  have b: "en_builtin E = B"
    using E by (simp add: fresh_env_def)
  show ?thesis
  proof (cases "ret = ABT_SUCCESS")
    case True
    then have "as_pool a = (pool_of w)(t := Some p)" "\<forall>s. s \<noteq> t \<longrightarrow> as_unit a s = unit_of w s"
      using a(3) by (simp_all add: changed_def)
    note birth_ok [OF ok disjI1 [OF A(1)] a(2) this u]
    then show ?thesis
      using True a(1) b \<open>as_pool a = (pool_of w)(t := Some p)\<close>
      by (intro exI [of _ ret] exI [of _ a]) (simp add: init_pool_def)
  next
    case False
    then have "rt_ok B {} {} S L (w\<lparr>rt_assoc := a\<rparr>)"
      using same_assoc_ok [OF ok a(2)] a(3) by (simp add: changed_def)
    then show ?thesis
      using False a(1) b by (intro exI [of _ ret] exI [of _ a]) (simp add: init_pool_def)
  qed
qed

text \<open>Every creation that gives the thread a pool.\<close>

lemma ythread_create_ok:
  assumes ok: "rt_ok B {} {} S L w" and A: "new_ptr A w" and E: "fresh_env B E w" and op: "op \<noteq> THREAD_POOL_OP_NONE"
  shows "\<exists>r w'. ythread_create A E (Some p) f arg attr ty has_sched op w = Some (r, w') \<and> rt_ok B {} {} S L w' \<and>
    (\<forall>t. r = Inr t \<longrightarrow> t = al_new A \<and> (op = THREAD_POOL_OP_INIT \<longrightarrow> idle_ready w' t))"
proof -
  obtain ty1 cb where c: "(case attr of None \<Rightarrow> (insert ABTI_THREAD_TYPE_MIGRATABLE ty, None)
      | Some a \<Rightarrow> (if at_migratable a then insert ABTI_THREAD_TYPE_MIGRATABLE ty else ty, at_cb a)) = (ty1, cb)"
    by fastforce
  define t where "t = al_new A"
  define u where "u = new_work_unit ty1 (case cb of None \<Rightarrow> None | Some c \<Rightarrow> Some \<lparr>md_pool = None, md_cb = Some c\<rparr>) f arg"
  have t: "rt_unit w t = None" "even t" and u: "wu_state u = ABT_THREAD_STATE_READY" "wu_request u = {}" "wu_link u = None"
    using A by (simp_all add: new_ptr_def t_def u_def new_work_unit_def)
  obtain ret a where a: "init_pool E t p (w\<lparr>rt_unit := (rt_unit w)(t \<mapsto> u)\<rparr>) = Some (ret, w\<lparr>rt_assoc := a, rt_unit := (rt_unit w)(t \<mapsto> u)\<rparr>)"
    and b: "if ret = ABT_SUCCESS then rt_ok B {} {} S L (w\<lparr>rt_assoc := a, rt_unit := (rt_unit w)(t \<mapsto> u)\<rparr>) \<and>
        idle_ready (w\<lparr>rt_assoc := a, rt_unit := (rt_unit w)(t \<mapsto> u)\<rparr>) t \<and> as_pool a t = Some p
     else rt_ok B {} {} S L (w\<lparr>rt_assoc := a\<rparr>)"
    using descriptor_ok [OF ok t E u] by metis
  note def = ythread_create_def [of A E "Some p" f arg attr ty has_sched op w, unfolded Let_def, folded t_def, unfolded c prod.case,
      folded u_def]
  have gone: "w\<lparr>rt_assoc := a, rt_unit := (rt_unit w)(t := None)\<rparr> = w\<lparr>rt_assoc := a\<rparr>"
    using t(1) by (simp add: fun_upd_idem)
  show ?thesis
  proof (cases "ret = ABT_SUCCESS")
    case True
    then have "rt_ok B {} {} S L (ABTI_pool_push p (as_unit a t) (w\<lparr>rt_assoc := a, rt_unit := (rt_unit w)(t \<mapsto> u)\<rparr>))"
      using b push_idle [of B S L "w\<lparr>rt_assoc := a, rt_unit := (rt_unit w)(t \<mapsto> u)\<rparr>" t p] by simp
    then show ?thesis
      unfolding def using True ok op b a by (cases op) (simp_all add: t_def)
  next
    case False
    then show ?thesis
      unfolding def using ok op b a gone by (cases op) simp_all
  qed
qed

section \<open>Small changes of a descriptor\<close>

lemma put_frame:
  assumes ok: "rt_ok B {} {} S L w" and f: "\<And>u. wu_state (f u) = wu_state u" "\<And>u. wu_parent (f u) = wu_parent u"
    "\<And>u. wu_last_xstream (f u) = wu_last_xstream u" "\<And>u. wu_link (f u) = wu_link u" "\<And>u. wu_request (f u) = wu_request u"
    and m: "mig w t \<noteq> None \<Longrightarrow> mig (put t f w) t \<noteq> None"
  shows "rt_ok B {} {} S L (put t f w)" (is "rt_ok _ _ _ _ _ ?w")
proof (rule rt_okI)
  note A = rt_okD [OF ok]
  have v: "st ?w = st w" "par ?w = par w" "lst ?w = lst w" "lnk ?w = lnk w" "req ?w = req w"
    by (rule put_views; simp add: f)+
  have "mig w s \<noteq> None \<Longrightarrow> mig ?w s \<noteq> None" for s
    using m by (cases "s = t") (auto simp: mig_def put_unit)
  then show "units_sound B ?w"
    using A(1) unfolding units_sound_def v put_simps by blast
  show "stacks_ok {} S ?w" "queues_ok {} ?w" "counts_ok {} L ?w" "links_ok {} {} ?w" "hands_ok {} ?w"
    using A(2-6) unfolding stacks_ok_def queues_ok_def counts_ok_def blocked_in_def links_ok_def joins_def hands_ok_def
      v put_simps by blast+
qed

text \<open>The last execution stream of a work unit that is not running, and a futex as its joiner.\<close>

lemma last_ok:
  assumes ok: "rt_ok B {} {} S L w" and t: "st w t \<noteq> Some ABT_THREAD_STATE_RUNNING"
  shows "rt_ok B {} {} S L (put t (wu_last_xstream_update (\<lambda>_. y)) w)" (is "rt_ok _ _ _ _ _ ?w")
proof (rule rt_okI)
  note A = rt_okD [OF ok]
  have v: "st ?w = st w" "par ?w = par w" "lnk ?w = lnk w" "req ?w = req w" "mig ?w = mig w"
    by (rule put_views; simp)+
  have "t \<notin> set (S x)" for x
    using stacks_okD(7) [OF A(2), of t x] t by auto
  then have out: "{t} \<inter> (\<Union>x. set (S x)) = {}"
    by auto
  show "stacks_ok {} S ?w"
    by (rule stacks_cong [OF A(2), of "{t}"]) (use t out in \<open>simp_all add: v\<close>)
  show "units_sound B ?w" "queues_ok {} ?w" "counts_ok {} L ?w" "links_ok {} {} ?w" "hands_ok {} ?w"
    using A unfolding units_sound_def queues_ok_def counts_ok_def blocked_in_def links_ok_def joins_def hands_ok_def
      v put_simps by blast+
qed

lemma req_alive: "r \<in> req w s \<Longrightarrow> rt_unit w s \<noteq> None"
  by (auto simp: req_def split: option.splits)

lemma ext_ok:
  assumes ok: "rt_ok B {} {} S L w"
  shows "rt_ok B {} {} S L (put t (wu_link_update (\<lambda>_. Some (Joiner_ext f)))
    (put t (\<lambda>u. u\<lparr>wu_request := insert ABTI_THREAD_REQ_JOIN (wu_request u)\<rparr>) w))" (is "rt_ok _ _ _ _ _ (put t ?l ?v)")
proof (rule rt_okI)
  have okv: "rt_ok B {} {t} S L ?v"
    by (rule request_ok [OF claim_ok [OF ok]]) simp_all
  note A = rt_okD [OF okv]
  let ?w = "put t ?l ?v"
  have v: "st ?w = st ?v" "par ?w = par ?v" "lst ?w = lst ?v" "req ?w = req ?v" "mig ?w = mig ?v"
    by (rule put_views; simp)+
  show "units_sound B ?w" "stacks_ok {} S ?w" "queues_ok {} ?w" "counts_ok {} L ?w" "hands_ok {} ?w"
    using A unfolding units_sound_def stacks_ok_def queues_ok_def counts_ok_def blocked_in_def hands_ok_def v put_simps
    by blast+
  have l: "lnk ?w s = (if s = t \<and> rt_unit ?v t \<noteq> None then Some (Joiner_ext f) else lnk ?v s)" for s
    by (rule put_link)
  have n: "lnk ?v t = None" if "rt_unit ?v t = None"
    using that by (simp add: lnk_def put_unit)
  have js: "joins {t} ?v j s" if "joins {} ?w j s" for j s
  proof -
    have "s \<noteq> t"
      using that l n unfolding joins_def by (cases "rt_unit ?v t = None") auto
    then show ?thesis
      using that unfolding joins_def v l by simp
  qed
  show "links_ok {} {} ?w"
  proof (rule links_cong [OF A(5) js])
    fix s
    assume "s \<notin> {}" "st ?w s \<noteq> Some ABT_THREAD_STATE_TERMINATED" "ABTI_THREAD_REQ_JOIN \<in> req ?w s"
    then have s: "st ?v s \<noteq> Some ABT_THREAD_STATE_TERMINATED" "ABTI_THREAD_REQ_JOIN \<in> req ?v s"
      unfolding v by auto
    then show "lnk ?w s \<noteq> None"
      using links_okD(4) [OF A(5), of s] req_alive [OF s(2)] unfolding l by (cases "s = t") simp_all
  qed (simp_all add: v)
qed

section \<open>Taking a work unit out of its pool\<close>

lemma pop_ok:
  assumes ok: "rt_ok B {} {} S L w" and t: "unit_of w t \<in> set (rt_queue w p)" "pool_of w t = Some p"
  shows "rt_ok B {} {} S L (ABTI_pool_remove p (unit_of w t) w)" "idle_ready (ABTI_pool_remove p (unit_of w t) w) t"
proof -
  note A = rt_okD [OF ok]
  define w' where "w' = ABTI_pool_remove p (unit_of w t) w"
  have eq: "rt_unit w' = rt_unit w" "rt_assoc w' = rt_assoc w" "rt_blocked w' = rt_blocked w" "rt_thread w' = rt_thread w"
    "rt_queue w' = (rt_queue w)(p := removeAll (unit_of w t) (rt_queue w p))"
    by (simp_all add: w'_def ABTI_pool_remove_def)
  note v = views_cong [OF eq(1)]
  have "rt_ok B {} {} S L w'"
  proof (rule rt_okI)
    show "units_sound B w'" "stacks_ok {} S w'" "counts_ok {} L w'" "links_ok {} {} w'" "hands_ok {} w'"
      using A unfolding units_sound_def stacks_ok_def counts_ok_def blocked_in_def links_ok_def joins_def hands_ok_def
        v eq(1-4) by blast+
    have "distinct (rt_queue w' q)" "set (rt_queue w' q) \<subseteq> set (rt_queue w q)" for q
      using A(3) by (auto simp: queues_ok_def eq distinct_removeAll)
    then show "queues_ok {} w'"
      using A(3) unfolding queues_ok_def v eq(2) by blast
  qed
  moreover obtain s where "unit_of w s = unit_of w t" "pool_of w s = Some p" "st w s = Some ABT_THREAD_STATE_READY"
    using A(3) t(1) unfolding queues_ok_def by blast
  then have "st w t = Some ABT_THREAD_STATE_READY"
    using unit_inj [OF A(1), of s p t p] t(2) by simp
  then have "idle_ready w' t"
    using t(2) by (simp add: idle_ready_def v eq)
  ultimately show "rt_ok B {} {} S L (ABTI_pool_remove p (unit_of w t) w)" "idle_ready (ABTI_pool_remove p (unit_of w t) w) t"
    by (simp_all add: w'_def)
qed

text \<open>
  A caller is the work unit that runs on its execution stream. One that may switch away has a
  parent: it is not the root.
\<close>

definition on_stream :: "nat \<Rightarrow> runtime \<Rightarrow> bool" where
  "on_stream x w \<longleftrightarrow> st w (rt_thread w x) = Some ABT_THREAD_STATE_RUNNING \<and> lst w (rt_thread w x) = Some x"

definition may_switch :: "nat option \<Rightarrow> runtime \<Rightarrow> bool" where
  "may_switch l w \<longleftrightarrow> (\<forall>x. l = Some x \<longrightarrow> on_stream x w \<and> par w (rt_thread w x) \<noteq> None)"

lemma caller_unit: "on_stream x w \<Longrightarrow> rt_unit w (rt_thread w x) \<noteq> None"
  by (auto simp: on_stream_def dest: live)

lemma on_stream_stack:
  assumes ok: "rt_ok B {} K S L w" and x: "on_stream x w"
  shows "\<exists>r. S x = rt_thread w x # r"
proof -
  note St = stacks_okD [OF rt_okD(2) [OF ok]]
  obtain y where y: "rt_thread w x \<in> set (S y)"
    using St(10) x by (auto simp: on_stream_def)
  then have "y = x"
    using St(8) [OF y] x by (simp add: on_stream_def)
  then have "S x \<noteq> []"
    using y by auto
  then show ?thesis
    using St(2) [of x] by (cases "S x") auto
qed

lemma stack_form:
  assumes ok: "rt_ok B {} K S L w" and l: "may_switch (Some x) w"
  shows "\<exists>q r. S x = rt_thread w x # q # r"
proof -
  obtain r where r: "S x = rt_thread w x # r"
    using on_stream_stack [OF ok] l by (auto simp: may_switch_def)
  then have "r \<noteq> []"
    using stacks_okD(5) [OF rt_okD(2) [OF ok], of x] l by (auto simp: may_switch_def)
  then show ?thesis
    using r by (cases r) auto
qed

section \<open>Changing the pool\<close>

text \<open>Of a work unit that is neither BLOCKED nor in a pool.\<close>

definition loose :: "runtime \<Rightarrow> thread_ptr \<Rightarrow> bool" where
  "loose w t \<longleftrightarrow> pool_of w t \<noteq> None \<and> st w t \<noteq> Some ABT_THREAD_STATE_BLOCKED \<and>
     (st w t = Some ABT_THREAD_STATE_READY \<longrightarrow> idle_ready w t)"

lemma loose_running: "rt_ok B H K S L w \<Longrightarrow> S x = t # q # r \<Longrightarrow> loose w t"
  using stacks_okD(7,9) [OF rt_okD(2), of B H K S L w t x] by (auto simp: loose_def)

lemma set_pool_loose:
  assumes ok: "rt_ok B {} {} S L w" and t: "loose w t" and E: "fresh_env B E w"
  shows "\<exists>ret w'. set_associated_pool E t p w = Some (ret, w') \<and> rt_ok B {} {} S L w' \<and> rt_unit w' = rt_unit w \<and>
    rt_queue w' = rt_queue w \<and> rt_thread w' = rt_thread w \<and>
    pool_of w' = (if ret = ABT_SUCCESS then (pool_of w)(t := Some p) else pool_of w)"
proof -
  note A = rt_okD [OF ok]
  obtain q where q: "pool_of w t = Some q"
    using t by (auto simp: loose_def)
  have "assoc_ok B (rt_assoc w)"
    using A(1) by (simp add: units_sound_def)
  then obtain ret a where a: "ABTI_thread_set_associated_pool B (en_malloc_ok E) (en_new_unit E) t p (rt_assoc w) = Some (ret, a)"
    "assoc_ok B a" "changed ret t p (rt_assoc w) a"
    using set_associated_pool_ok [OF _ q] E unfolding fresh_env_def by blast
  define w' where "w' = w\<lparr>rt_assoc := a\<rparr>"
  have eq: "rt_unit w' = rt_unit w" "rt_queue w' = rt_queue w" "rt_blocked w' = rt_blocked w"
    "rt_thread w' = rt_thread w" "rt_assoc w' = a"
    by (simp_all add: w'_def)
  note v = views_cong [OF eq(1)]
  have pool: "as_pool a = (if ret = ABT_SUCCESS then (pool_of w)(t := Some p) else pool_of w)"
    using a(3) by (simp add: changed_def split: if_splits)
  have unit: "as_unit a s = unit_of w s" if "s \<noteq> t" for s
    using a(3) that by (simp add: changed_def split: if_splits)
  have other: "pool_of w' s = pool_of w s" "unit_of w' s = unit_of w s" if "s \<noteq> t" for s
    using that by (simp_all add: eq pool unit)
  have none: "pool_of w' s = None \<longleftrightarrow> pool_of w s = None" for s
    using q by (simp add: eq pool)
  have "rt_ok B {} {} S L w'"
  proof (rule rt_okI)
    show "units_sound B w'"
      using A(1) a(2) none unfolding units_sound_def v eq(1) by (simp add: eq(5))
    show "stacks_ok {} S w'"
      using A(2) unfolding stacks_ok_def v eq(4) none .
    show "queues_ok {} w'"
      unfolding queues_ok_def v eq(2)
    proof (intro allI conjI ballI)
      fix r u
      show "distinct (rt_queue w r)"
        using A(3) by (simp add: queues_ok_def)
      assume u: "u \<in> set (rt_queue w r)"
      then obtain s where s: "unit_of w s = u" "pool_of w s = Some r" "st w s = Some ABT_THREAD_STATE_READY"
        using A(3) unfolding queues_ok_def by blast
      then have "s \<noteq> t"
        using t u by (auto simp: loose_def idle_ready_def)
      then show "\<exists>s. unit_of w' s = u \<and> pool_of w' s = Some r \<and> st w s = Some ABT_THREAD_STATE_READY \<and> s \<notin> {}"
        using s other by (intro exI [of _ s]) simp
    qed
    have b: "blocked_in {} w' r = blocked_in {} w r" for r
      unfolding blocked_in_def v using other t by (metis loose_def)
    show "counts_ok {} L w'"
      using A(4) unfolding counts_ok_def b v eq(3) none .
    show "links_ok {} {} w'" "hands_ok {} w'"
      using A(5,6) unfolding links_ok_def joins_def hands_ok_def v by blast+
  qed
  moreover have "set_associated_pool E t p w = Some (ret, w')"
    using a(1) E by (simp add: set_associated_pool_def w'_def fresh_env_def)
  ultimately show ?thesis
    by (intro exI [of _ ret] exI [of _ w']) (simp add: eq pool)
qed

lemma revive_ok:
  assumes ok: "rt_ok B {} {} S L w" and t: "st w t = Some ABT_THREAD_STATE_TERMINATED" "pool_of w t \<noteq> None"
    and E: "fresh_env B E w"
  shows "\<exists>ret w'. thread_revive E p f arg op t w = Some (ret, w') \<and> rt_ok B {} {} S L w' \<and>
    (ret = ABT_SUCCESS \<longrightarrow> op = THREAD_POOL_OP_INIT \<longrightarrow> idle_ready w' t)"
proof -
  have "loose w t"
    using t by (simp add: loose_def)
  from set_pool_loose [OF ok this E, of p]
  obtain ret w1 where w1: "set_associated_pool E t p w = Some (ret, w1)" "rt_ok B {} {} S L w1" "rt_unit w1 = rt_unit w"
    "pool_of w1 = (if ret = ABT_SUCCESS then (pool_of w)(t := Some p) else pool_of w)"
    by blast
  obtain u where u: "rt_unit w t = Some u" "wu_state u = ABT_THREAD_STATE_TERMINATED"
    using live [OF t(1)] by blast
  define v where "v = u\<lparr>wu_func := f, wu_arg := arg, wu_state := ABT_THREAD_STATE_READY, wu_request := {},
    wu_last_xstream := None, wu_parent := None, wu_link := None\<rparr>"
  define w2 where "w2 = w1\<lparr>rt_assoc := rt_assoc w1, rt_unit := (rt_unit w1)(t \<mapsto> v)\<rparr>"
  show ?thesis
  proof (cases "ret = ABT_SUCCESS")
    case True
    then have p: "pool_of w1 = (pool_of w1)(t := Some p)" "pool_of w1 t = Some p"
      using w1(4) by simp_all
    have "assoc_ok B (rt_assoc w1)"
      using rt_okD(1) [OF w1(2)] by (simp add: units_sound_def)
    moreover have "st w1 t = Some ABT_THREAD_STATE_TERMINATED"
      using t(1) by (simp add: st_def w1(3))
    ultimately have w2: "rt_ok B {} {} S L w2" "idle_ready w2 t"
      unfolding w2_def using birth_ok [OF w1(2) disjI2 _ p(1), of v] by (simp_all add: v_def)
    have "upd t (\<lambda>u. u\<lparr>wu_func := f, wu_arg := arg, wu_state := ABT_THREAD_STATE_READY, wu_request := {},
      wu_last_xstream := None, wu_parent := None, wu_link := None\<rparr>) w1 = Some w2"
      using u by (simp add: upd_def w1(3) w2_def v_def)
    moreover have "rt_ok B {} {} S L (ABTI_pool_push p (unit_of w2 t) w2)"
      by (rule push_idle [OF w2]) (simp add: w2_def p(2))
    ultimately show ?thesis
      using True u w1(1) w2 by (simp add: thread_revive_def)
  next
    case False
    then show ?thesis
      using u w1(1,2) by (simp add: thread_revive_def)
  qed
qed

lemma task_create_ok:
  assumes ok: "rt_ok B {} {} S L w" and A: "new_ptr A w" and E: "fresh_env B E w"
  shows "\<exists>r w'. task_create A E p f arg refcount w = Some (r, w') \<and> rt_ok B {} {} S L w' \<and> (\<forall>t. r = Inr t \<longrightarrow> t = al_new A)"
proof -
  define t where "t = al_new A"
  define u where "u = new_work_unit ({ABTI_THREAD_TYPE_THREAD, ABTI_THREAD_TYPE_MIGRATABLE} \<union>
    (if refcount then {ABTI_THREAD_TYPE_NAMED} else {})) None f arg"
  have t: "rt_unit w t = None" "even t" and u: "wu_state u = ABT_THREAD_STATE_READY" "wu_request u = {}" "wu_link u = None"
    using A by (simp_all add: new_ptr_def t_def u_def new_work_unit_def)
  obtain ret a where a: "init_pool E t p w = Some (ret, w\<lparr>rt_assoc := a\<rparr>)"
    and b: "if ret = ABT_SUCCESS then rt_ok B {} {} S L (w\<lparr>rt_assoc := a, rt_unit := (rt_unit w)(t \<mapsto> u)\<rparr>) \<and>
        idle_ready (w\<lparr>rt_assoc := a, rt_unit := (rt_unit w)(t \<mapsto> u)\<rparr>) t \<and> as_pool a t = Some p
     else rt_ok B {} {} S L (w\<lparr>rt_assoc := a\<rparr>)"
    using descriptor_ok [OF ok t E u] by metis
  note def = task_create_def [of A E p f arg refcount w, unfolded Let_def, folded t_def u_def]
  show ?thesis
  proof (cases "ret = ABT_SUCCESS")
    case True
    then have "rt_ok B {} {} S L (ABTI_pool_push p (as_unit a t) (w\<lparr>rt_assoc := a, rt_unit := (rt_unit w)(t \<mapsto> u)\<rparr>))"
      using b push_idle [of B S L "w\<lparr>rt_assoc := a, rt_unit := (rt_unit w)(t \<mapsto> u)\<rparr>" t p] by simp
    then show ?thesis
      unfolding def using True ok a by (simp add: t_def)
  next
    case False
    then show ?thesis
      unfolding def using ok b a by simp
  qed
qed

section \<open>Migration requests\<close>

lemma get_mig_data_ok:
  assumes ok: "rt_ok B {} {} S L w" and t: "rt_unit w t \<noteq> None"
  shows "\<exists>r w'. ABTI_thread_get_mig_data E t w = Some (r, w') \<and> rt_ok B {} {} S L w' \<and> rt_unit w' t \<noteq> None \<and>
    (\<forall>m. r = Inr m \<longrightarrow> Option.bind (rt_unit w' t) wu_mig = Some m)"
proof -
  obtain u where u: "rt_unit w t = Some u"
    using t by auto
  let ?f = "\<lambda>u. u\<lparr>wu_mig := Some \<lparr>md_pool = None, md_cb = None\<rparr>\<rparr>"
  show ?thesis
  proof (cases "wu_mig u")
    case (Some m)
    then show ?thesis
      using u ok by (simp add: ABTI_thread_get_mig_data_def)
  next
    case None
    then have "mig w t = None"
      using u by (simp add: mig_def)
    then have "rt_ok B {} {} S L (put t ?f w)"
      by (intro put_frame [OF ok]) simp_all
    then show ?thesis
      using None u ok by (simp add: ABTI_thread_get_mig_data_def upd_put put_unit)
  qed
qed

lemma migrate_to_pool_ok:
  assumes ok: "rt_ok B {} {} S L w" and t: "rt_unit w t \<noteq> None"
  shows "\<exists>r w'. thread_migrate_to_pool E t (Some p) w = Some (r, w') \<and> rt_ok B {} {} S L w' \<and>
    (r = ABT_SUCCESS \<longrightarrow> mig w' t = Some p \<and> ABTI_THREAD_REQ_MIGRATE \<in> req w' t)"
proof -
  obtain r w1 where w1: "ABTI_thread_get_mig_data E t w = Some (r, w1)" "rt_ok B {} {} S L w1" "rt_unit w1 t \<noteq> None"
    and m: "\<And>m. r = Inr m \<Longrightarrow> Option.bind (rt_unit w1 t) wu_mig = Some m"
    using get_mig_data_ok [OF ok t] by blast
  show ?thesis
  proof (cases r)
    case (Inl e)
    have "e \<noteq> ABT_SUCCESS"
      using w1(1) Inl t by (auto simp: ABTI_thread_get_mig_data_def upd_put split: bind_splits option.splits if_splits)
    then show ?thesis
      using Inl w1 by (simp add: thread_migrate_to_pool_def)
  next
    case (Inr m)
    obtain u where u: "rt_unit w1 t = Some u" "wu_mig u = Some m"
      using m [OF Inr] w1(3) by auto
    let ?f = "\<lambda>u. u\<lparr>wu_mig := map_option (md_pool_update (\<lambda>_. Some p)) (wu_mig u)\<rparr>"
    let ?g = "\<lambda>u. u\<lparr>wu_request := insert ABTI_THREAD_REQ_MIGRATE (wu_request u)\<rparr>"
    have mig: "mig (put t ?f w1) t = Some p"
      using u by (simp add: mig_def put_unit)
    have "rt_ok B {} {} S L (put t ?f w1)"
      by (rule put_frame [OF w1(2)]) (use mig in simp_all)
    then have "rt_ok B {} {} S L (put t ?g (put t ?f w1))"
      by (rule request_ok) (use mig in simp_all)
    moreover have "mig (put t ?g (put t ?f w1)) t = Some p" "ABTI_THREAD_REQ_MIGRATE \<in> req (put t ?g (put t ?f w1)) t"
      using u by (simp_all add: mig_def req_def put_unit)
    moreover have "thread_migrate_to_pool E t (Some p) w = Some (ABT_SUCCESS, put t ?g (put t ?f w1))"
      using Inr w1(1) u by (simp add: thread_migrate_to_pool_def success_def ABTI_thread_set_request_def upd_put)
    ultimately show ?thesis
      by blast
  qed
qed

lemma set_callback_ok:
  assumes ok: "rt_ok B {} {} S L w" and t: "rt_unit w t \<noteq> None"
  shows "\<exists>r w'. ABT_thread_set_callback E (Some t) cb w = Some (r, w') \<and> rt_ok B {} {} S L w'"
proof -
  obtain r w1 where w1: "ABTI_thread_get_mig_data E t w = Some (r, w1)" "rt_ok B {} {} S L w1" "rt_unit w1 t \<noteq> None"
    using get_mig_data_ok [OF ok t] by blast
  let ?f = "\<lambda>u. u\<lparr>wu_mig := map_option (md_cb_update (\<lambda>_. cb)) (wu_mig u)\<rparr>"
  have "rt_ok B {} {} S L (put t ?f w1)"
    by (rule put_frame [OF w1(2)]) (use w1(3) in \<open>auto simp: mig_def put_unit Option.bind_eq_Some_conv\<close>)
  then show ?thesis
    using w1 t by (cases r) (auto simp: ABT_thread_set_callback_def api_defs upd_put split: bind_splits)
qed

section \<open>Joining\<close>

text \<open>
  One round of a join by a caller that is not its target. A caller that suspends may have been
  migrated; what its counter is off by then is \<open>leak\<close> (theory YthreadSteps).
\<close>

definition calm :: "nat option \<Rightarrow> runtime \<Rightarrow> runtime \<Rightarrow> bool" where
  "calm l w w' \<longleftrightarrow> (\<forall>x. l = Some x \<longrightarrow> \<not> mig_pending w (rt_thread w x) \<longrightarrow> rt_assoc w' = rt_assoc w)"

definition drift :: "nat option \<Rightarrow> runtime \<Rightarrow> runtime \<Rightarrow> nat \<Rightarrow> int" where
  "drift l w w' q = (case l of None \<Rightarrow> 0 | Some x \<Rightarrow> leak (rt_thread w x) w w' q)"

lemma futexwait_ok:
  assumes ok: "rt_ok B {} {} S L w" and u: "rt_unit w t = Some u"
  shows "\<exists>r w'. join_futexwait futex t u w = Some (r, w') \<and> rt_ok B {} {} S L w'"
  using ext_ok [OF ok, of t futex] u ok
  by (auto simp: join_futexwait_def ABTI_thread_set_request_def upd_put)

lemma thread_join_ok:
  assumes ok: "rt_ok B {} {} S L w" and E: "fresh_env B E w" and l: "may_switch l w"
    and t: "rt_unit w t = Some u" "\<not> is_self l t w" "\<not> primary u"
  shows "\<exists>r w' S' L'. thread_join E futex l t w = Some (r, w') \<and> rt_ok B {} {} S' L' w' \<and>
    (L' = L \<or> r = Join_suspends \<and> calm l w w' \<and> L' = (\<lambda>q. L q + drift l w w' q)) \<and>
    (r = Join_done \<longrightarrow> w' = w \<and> S' = S \<and> wu_state u = ABT_THREAD_STATE_TERMINATED)"
proof (cases "wu_state u = ABT_THREAD_STATE_TERMINATED")
  case True
  then show ?thesis
    using ok t by (auto simp: thread_join_def)
next
  case live: False
  obtain r0 w0 where fw: "join_futexwait futex t u w = Some (r0, w0)" "rt_ok B {} {} S L w0" "r0 \<noteq> Join_done"
    using futexwait_ok [OF ok t(1), of futex]
    by (auto simp: join_futexwait_def split: if_splits bind_splits)
  show ?thesis
  proof (cases l)
    case None
    then have "thread_join E futex l t w = Some (r0, w0)"
      using fw(1) t live by (simp add: thread_join_def)
    then show ?thesis
      using fw(2,3) by blast
  next
    case (Some x)
    define self where "self = rt_thread w x"
    obtain v where v: "rt_unit w self = Some v"
      using caller_unit [of x w] l Some by (auto simp: self_def may_switch_def)
    from stack_form [OF ok l [unfolded Some]] obtain q r where S: "S x = self # q # r"
      unfolding self_def by blast
    have ne: "t \<noteq> self"
      using t(2) Some by (simp add: is_self_def self_def)
    have d: "thread_join E futex l t w =
      (if ABTI_THREAD_TYPE_YIELDABLE \<notin> wu_type v then join_futexwait futex t u w
       else if ABTI_THREAD_TYPE_YIELDABLE \<notin> wu_type u \<or> ABTI_THREAD_REQ_JOIN \<in> wu_request u
       then thread_join_yield_thread E x self t w
       else Option.bind (ABTI_thread_set_request ABTI_THREAD_REQ_JOIN t w)
         (\<lambda>w1. Option.bind (ABTI_ythread_suspend_join E x self t w1) (\<lambda>w2. Some (Join_suspends, w2))))"
      using t(1,3) live v ne unfolding Some self_def by (simp add: thread_join_def Let_def)
    obtain w1 where y: "ABTI_ythread_yield E x self w = Some w1" "rt_ok B {} {} (S(x := q # r)) L w1"
      using yield_ok [OF ok S E] by blast
    obtain w2 w3 where j: "ABTI_thread_set_request ABTI_THREAD_REQ_JOIN t w = Some w2"
      "ABTI_ythread_suspend_join E x self t w2 = Some w3" "rt_ok B {} {} (S(x := q # r)) (\<lambda>q. L q + leak self w w3 q) w3"
      using suspend_join_ok [OF ok S E _ ne] t(1) by blast
    consider "ABTI_THREAD_TYPE_YIELDABLE \<notin> wu_type v"
      | "ABTI_THREAD_TYPE_YIELDABLE \<in> wu_type v" "ABTI_THREAD_TYPE_YIELDABLE \<notin> wu_type u \<or> ABTI_THREAD_REQ_JOIN \<in> wu_request u"
      | "ABTI_THREAD_TYPE_YIELDABLE \<in> wu_type v" "ABTI_THREAD_TYPE_YIELDABLE \<in> wu_type u" "ABTI_THREAD_REQ_JOIN \<notin> wu_request u"
      by blast
    then show ?thesis
    proof cases
      case 1
      then have "thread_join E futex l t w = Some (r0, w0)"
        using fw(1) by (simp add: d)
      then show ?thesis
        using fw(2,3) by blast
    next
      case 2
      then have "thread_join E futex l t w = Some (Join_yields, w1)"
        using t(1) live y(1) by (simp add: d thread_join_yield_thread_def)
      then show ?thesis
        using y(2) by blast
    next
      case 3
      then have "thread_join E futex l t w = Some (Join_suspends, w3)"
        using j(1,2) by (simp add: d)
      moreover have "rt_ok B {} {} (S(x := q # r)) (\<lambda>q. L q + drift l w w3 q) w3"
        using j(3) by (simp add: drift_def Some self_def)
      moreover have w2: "rt_assoc w2 = rt_assoc w" "req w2 self = req w self"
        using j(1) ne by (auto simp: ABTI_thread_set_request_def upd_put req_def put_unit split: if_splits)
      have "rt_assoc w3 = rt_assoc w" if "\<not> mig_pending w self"
        using suspend_calm(2) [OF _ j(2)] w2 that by (simp add: mig_pending_def)
      then have "calm l w w3"
        by (simp add: calm_def Some self_def)
      ultimately show ?thesis
        by blast
    qed
  qed
qed

end
