(* ===== verification/ThreadRun.thy ===== *)
theory ThreadRun
  imports ThreadLife
begin

text \<open>
  Programs as sequences of calls. A \<open>call\<close> is a call of the API by a work unit on an execution
  stream or by an external thread, or what a scheduler does to a work unit of a pool. \<open>exec_call\<close> runs
  it, \<open>allowed\<close> is what the documentation asks of the caller. Every allowed call returns and
  keeps the invariant of theory YthreadInv (\<open>call_ok\<close>), whichever sequence of them runs.
\<close>

section \<open>Calls\<close>

datatype (plugins only: size) call =
  Thread_create alloc env "nat option" nat nat "thread_attr option" bool
| Thread_create_to alloc env env "nat option" "nat option" nat nat "thread_attr option" bool
| Task_create alloc env "nat option" nat nat bool
| Thread_revive env "nat option" nat nat "thread_ptr option"
| Thread_revive_to env env "nat option" "nat option" nat nat "thread_ptr option"
| Thread_yield env "nat option"
| Self_yield env "nat option"
| Self_yield_to env "nat option" "thread_ptr option"
| Thread_yield_to env "nat \<Rightarrow> bool" "nat \<Rightarrow> bool" abt_errno "nat option" "thread_ptr option"
| Self_resume_yield_to env "nat option" "thread_ptr option"
| Self_suspend env "nat option"
| Self_resume_suspend_to env "nat option" "thread_ptr option"
| Self_exit "nat option"
| Self_exit_to "nat option" "thread_ptr option"
| Self_resume_exit_to "nat option" "thread_ptr option"
| Thread_resume "thread_ptr option"
| Thread_cancel "thread_ptr option"
| Thread_migrate_to_pool env "thread_ptr option" "nat option"
| Thread_set_callback env "thread_ptr option" "nat option"
| Thread_set_migratable "thread_ptr option" bool
| Thread_set_associated_pool env "thread_ptr option" "nat option"
| Self_set_associated_pool env "nat option" "nat option"
| Thread_join env nat "nat option" "thread_ptr option"
| Thread_free env nat "nat option" "thread_ptr option"
| Pool_take nat thread_ptr
| Sched_run env nat thread_ptr
| Task_return nat

text \<open>
  What \<^verbatim>\<open>ABTI_ythread_schedule\<close> does before the function of a tasklet runs; \<open>Task_return\<close> is
  what it does after it.
\<close>

definition schedule_enter :: "env \<Rightarrow> nat \<Rightarrow> thread_ptr \<Rightarrow> runtime \<Rightarrow> runtime option" where
  "schedule_enter E x t w = do {
     (h, w1) \<leftarrow> ABTI_thread_handle_request E t True w;
     (case h of
        ABTI_THREAD_HANDLE_REQUEST_NONE \<Rightarrow> do {
          u \<leftarrow> rt_unit w1 t;
          (if ABTI_THREAD_TYPE_YIELDABLE \<in> wu_type u then ABTI_ythread_run_child x (rt_thread w1 x) t w1
           else schedule_task_begin x t w1)
        }
      | ABTI_THREAD_HANDLE_REQUEST_CANCELLED \<Rightarrow> Some w1
      | ABTI_THREAD_HANDLE_REQUEST_MIGRATED \<Rightarrow> ABTI_pool_add_thread t w1)
   }"

definition errno_of :: "((abt_errno + 'a) \<times> runtime) option \<Rightarrow> (abt_errno \<times> runtime) option" where
  "errno_of r = map_option (\<lambda>(v, w'). (case v of Inl e \<Rightarrow> e | Inr _ \<Rightarrow> ABT_SUCCESS, w')) r"

primrec exec_call :: "call \<Rightarrow> api" where
  "exec_call (Thread_create A E pool f arg attr named) w = errno_of (ABT_thread_create A E pool f arg attr named w)"
| "exec_call (Thread_create_to A E Ey l pool f arg attr named) w = ABT_thread_create_to A E Ey l pool f arg attr named w"
| "exec_call (Task_create A E pool f arg named) w = errno_of (ABT_task_create A E pool f arg named w)"
| "exec_call (Thread_revive E pool f arg thread) w = ABT_thread_revive E pool f arg thread w"
| "exec_call (Thread_revive_to E Ey l pool f arg thread) w = ABT_thread_revive_to E Ey l pool f arg thread w"
| "exec_call (Thread_yield E l) w = ABT_thread_yield E l w"
| "exec_call (Self_yield E l) w = ABT_self_yield E l w"
| "exec_call (Self_yield_to E l thread) w = ABT_self_yield_to E l thread w"
| "exec_call (Thread_yield_to E has_in has_remove ret l thread) w = ABT_thread_yield_to E has_in has_remove ret l thread w"
| "exec_call (Self_resume_yield_to E l thread) w = ABT_self_resume_yield_to E l thread w"
| "exec_call (Self_suspend E l) w = ABT_self_suspend E l w"
| "exec_call (Self_resume_suspend_to E l thread) w = ABT_self_resume_suspend_to E l thread w"
| "exec_call (Self_exit l) w = ABT_self_exit l w"
| "exec_call (Self_exit_to l thread) w = ABT_self_exit_to l thread w"
| "exec_call (Self_resume_exit_to l thread) w = ABT_self_resume_exit_to l thread w"
| "exec_call (Thread_resume thread) w = ABT_thread_resume thread w"
| "exec_call (Thread_cancel thread) w = ABT_thread_cancel thread w"
| "exec_call (Thread_migrate_to_pool E thread pool) w = ABT_thread_migrate_to_pool E thread pool w"
| "exec_call (Thread_set_callback E thread cb) w = ABT_thread_set_callback E thread cb w"
| "exec_call (Thread_set_migratable thread flag) w = ABT_thread_set_migratable thread flag w"
| "exec_call (Thread_set_associated_pool E thread pool) w = ABT_thread_set_associated_pool E thread pool w"
| "exec_call (Self_set_associated_pool E l pool) w = ABT_self_set_associated_pool E l pool w"
| "exec_call (Thread_join E futex l thread) w = errno_of (ABT_thread_join E futex l thread w)"
| "exec_call (Thread_free E futex l thread) w = errno_of (map_option (\<lambda>(r, t, w'). (r, w')) (ABT_thread_free E futex l thread w))"
| "exec_call (Pool_take p t) w = success (Some (ABTI_pool_remove p (unit_of w t) w))"
| "exec_call (Sched_run E x t) w = success (schedule_enter E x t w)"
| "exec_call (Task_return x) w = success (do {
     u \<leftarrow> rt_unit w (rt_thread w x);
     sched \<leftarrow> wu_parent u;
     schedule_task_end x sched (rt_thread w x) w
   })"

section \<open>What a caller must see to\<close>

text \<open>
  Handles are those of live descriptors, and only the root of an execution stream, which has no
  parent, never switches away. A ULT is switched to when it is READY and in no pool, or BLOCKED
  but not in a join; \<^verbatim>\<open>ABT_self_suspend_to\<close>, which leaves its target READY, is not among the calls.
\<close>

definition handle_ok :: "thread_ptr option \<Rightarrow> runtime \<Rightarrow> bool" where
  "handle_ok thread w \<longleftrightarrow> (case thread of None \<Rightarrow> True | Some t \<Rightarrow> rt_unit w t \<noteq> None)"

definition each :: "thread_ptr option \<Rightarrow> (thread_ptr \<Rightarrow> bool) \<Rightarrow> bool" where
  "each thread P \<longleftrightarrow> (case thread of None \<Rightarrow> True | Some t \<Rightarrow> P t)"

definition then_fresh :: "(nat \<Rightarrow> bool) \<Rightarrow> env \<Rightarrow> ('a \<times> runtime) option \<Rightarrow> bool" where
  "then_fresh B E r \<longleftrightarrow> (case r of None \<Rightarrow> True | Some (_, w) \<Rightarrow> fresh_env B E w)"

primrec allowed :: "(nat \<Rightarrow> bool) \<Rightarrow> call \<Rightarrow> runtime \<Rightarrow> bool" where
  "allowed B (Thread_create A E pool f arg attr named) w \<longleftrightarrow> new_ptr A w \<and> fresh_env B E w"
| "allowed B (Thread_create_to A E Ey l pool f arg attr named) w \<longleftrightarrow> new_ptr A w \<and> fresh_env B E w \<and> may_switch l w \<and>
     then_fresh B Ey (ythread_create A E pool f arg attr (named_type named) False THREAD_POOL_OP_INIT w)"
| "allowed B (Task_create A E pool f arg named) w \<longleftrightarrow> new_ptr A w \<and> fresh_env B E w"
| "allowed B (Thread_revive E pool f arg thread) w \<longleftrightarrow> each thread (\<lambda>t. rt_unit w t \<noteq> None \<and> pool_of w t \<noteq> None) \<and> fresh_env B E w"
| "allowed B (Thread_revive_to E Ey l pool f arg thread) w \<longleftrightarrow> each thread (\<lambda>t. rt_unit w t \<noteq> None \<and> pool_of w t \<noteq> None \<and>
       (\<forall>p. pool = Some p \<longrightarrow> then_fresh B Ey (thread_revive E p f arg THREAD_POOL_OP_INIT t w))) \<and>
     fresh_env B E w \<and> may_switch l w"
| "allowed B (Thread_yield E l) w \<longleftrightarrow> fresh_env B E w \<and> may_switch l w"
| "allowed B (Self_yield E l) w \<longleftrightarrow> fresh_env B E w \<and> may_switch l w"
| "allowed B (Self_yield_to E l thread) w \<longleftrightarrow> fresh_env B E w \<and> may_switch l w \<and> each thread (idle_ready w)"
| "allowed B (Thread_yield_to E has_in has_remove ret l thread) w \<longleftrightarrow> fresh_env B E w \<and> may_switch l w \<and>
     each thread (\<lambda>t. rt_unit w t \<noteq> None \<and> pool_of w t \<noteq> None)"
| "allowed B (Self_resume_yield_to E l thread) w \<longleftrightarrow> fresh_env B E w \<and> may_switch l w \<and> each thread (resumable w)"
| "allowed B (Self_suspend E l) w \<longleftrightarrow> fresh_env B E w \<and> may_switch l w"
| "allowed B (Self_resume_suspend_to E l thread) w \<longleftrightarrow> fresh_env B E w \<and> may_switch l w \<and> each thread (resumable w)"
| "allowed B (Self_exit l) w \<longleftrightarrow> may_switch l w"
| "allowed B (Self_exit_to l thread) w \<longleftrightarrow> may_switch l w \<and> each thread (idle_ready w)"
| "allowed B (Self_resume_exit_to l thread) w \<longleftrightarrow> may_switch l w \<and> each thread (resumable w)"
| "allowed B (Thread_resume thread) w \<longleftrightarrow> each thread (\<lambda>t. rt_unit w t \<noteq> None \<and> (\<forall>s. \<not> joins {} w t s))"
| "allowed B (Thread_cancel thread) w \<longleftrightarrow> handle_ok thread w"
| "allowed B (Thread_migrate_to_pool E thread pool) w \<longleftrightarrow> handle_ok thread w"
| "allowed B (Thread_set_callback E thread cb) w \<longleftrightarrow> handle_ok thread w"
| "allowed B (Thread_set_migratable thread flag) w \<longleftrightarrow> handle_ok thread w"
| "allowed B (Thread_set_associated_pool E thread pool) w \<longleftrightarrow> each thread (\<lambda>t. rt_unit w t \<noteq> None \<and> loose w t) \<and> fresh_env B E w"
| "allowed B (Self_set_associated_pool E l pool) w \<longleftrightarrow> may_switch l w \<and> fresh_env B E w"
| "allowed B (Thread_join E futex l thread) w \<longleftrightarrow> fresh_env B E w \<and> may_switch l w \<and> handle_ok thread w"
| "allowed B (Thread_free E futex l thread) w \<longleftrightarrow> fresh_env B E w \<and> may_switch l w \<and>
     each thread (\<lambda>t. rt_unit w t \<noteq> None \<and> pool_of w t \<noteq> None)"
| "allowed B (Pool_take p t) w \<longleftrightarrow> pool_of w t = Some p \<and> unit_of w t \<in> set (rt_queue w p)"
| "allowed B (Sched_run E x t) w \<longleftrightarrow> fresh_env B E w \<and> on_stream x w \<and> idle_ready w t"
| "allowed B (Task_return x) w \<longleftrightarrow> may_switch (Some x) w"

text \<open>The calls that may block their caller.\<close>

definition suspends :: "call \<Rightarrow> nat option" where
  "suspends c = (case c of
     Self_suspend E l \<Rightarrow> l | Self_resume_suspend_to E l thread \<Rightarrow> l | Thread_join E futex l thread \<Rightarrow> l
   | Thread_free E futex l thread \<Rightarrow> l | _ \<Rightarrow> None)"

section \<open>Every allowed call returns and keeps the invariant\<close>

definition fine :: "(nat \<Rightarrow> bool) \<Rightarrow> (nat \<Rightarrow> int) \<Rightarrow> nat option \<Rightarrow> runtime \<Rightarrow> (abt_errno \<times> runtime) option \<Rightarrow> bool" where
  "fine B L l w r \<longleftrightarrow> (\<exists>ret w' S' L'. r = Some (ret, w') \<and> rt_ok B {} {} S' L' w' \<and>
     (L' = L \<or> calm l w w' \<and> L' = (\<lambda>q. L q + drift l w w' q)))"

lemma fineI: "r = Some (ret, w') \<Longrightarrow> rt_ok B {} {} S' L w' \<Longrightarrow> fine B L l w r"
  by (auto simp: fine_def)

lemma fine_same: "rt_ok B {} {} S L w \<Longrightarrow> fine B L l w (Some (ret, w))"
  by (rule fineI) simp_all

lemma fine_fails: "rt_ok B {} {} S L w \<Longrightarrow> fine B L l w (fails e w)"
  by (simp add: fails_def fine_same)

lemma fine_success: "\<exists>w'. r = Some w' \<and> rt_ok B {} {} S' L w' \<Longrightarrow> fine B L l w (success r)"
  by (auto simp: success_def intro: fineI)

lemma fine_drift:
  assumes "\<exists>w'. r = Some w' \<and> rt_ok B {} {} S' (\<lambda>q. L q + leak (rt_thread w x) w w' q) w'"
    "\<And>w'. r = Some w' \<Longrightarrow> \<not> mig_pending w (rt_thread w x) \<Longrightarrow> rt_assoc w' = rt_assoc w"
  shows "fine B L (Some x) w (success r)"
proof -
  obtain w' where w': "r = Some w'" "rt_ok B {} {} S' (\<lambda>q. L q + drift (Some x) w w' q) w'"
    using assms(1) by (auto simp: drift_def)
  moreover have "calm (Some x) w w'"
    using assms(2) [OF w'(1)] by (simp add: calm_def)
  ultimately show ?thesis
    unfolding fine_def success_def by auto
qed

lemma fine_with_self:
  assumes ok: "rt_ok B {} {} S L w" and l: "may_switch l w"
    and k: "\<And>x q r u. l = Some x \<Longrightarrow> S x = rt_thread w x # q # r \<Longrightarrow> fine B L m w (k x (rt_thread w x) u w)"
  shows "fine B L m w (with_self l k w)"
proof (cases l)
  case None
  then show ?thesis
    using fine_fails [OF ok] by (simp add: with_self_def)
next
  case (Some x)
  obtain u where u: "rt_unit w (rt_thread w x) = Some u"
    using caller_unit [of x w] l Some by (auto simp: may_switch_def)
  from stack_form [OF ok l [unfolded Some]] obtain q r where "S x = rt_thread w x # q # r"
    by blast
  then show ?thesis
    using k [OF Some] u Some fine_fails [OF ok] by (simp add: with_self_def)
qed

lemma fine_with_thread:
  assumes ok: "rt_ok B {} {} S L w" and h: "handle_ok thread w"
    and k: "\<And>t u. thread = Some t \<Longrightarrow> rt_unit w t = Some u \<Longrightarrow> fine B L m w (k t u w)"
  shows "fine B L m w (with_thread thread k w)" "fine B L m w (with_ythread thread k w)"
  using assms fine_fails [OF ok]
  by (cases thread; auto simp: with_thread_def with_ythread_def handle_ok_def)+

lemma fine_with_pool:
  assumes "rt_ok B {} {} S L w" "\<And>p. pool = Some p \<Longrightarrow> fine B L m w (k p w)"
  shows "fine B L m w (with_pool pool k w)"
  using assms fine_fails [OF assms(1)] by (cases pool) (simp_all add: with_pool_def)

lemmas fine_intros = fine_with_self fine_with_thread fine_with_pool

lemma fine_each: "each thread P \<Longrightarrow> (\<And>t. P t \<Longrightarrow> rt_unit w t \<noteq> None) \<Longrightarrow> handle_ok thread w"
  by (cases thread) (auto simp: each_def handle_ok_def)

lemma each_some: "each (Some t) P = P t"
  by (simp add: each_def)

lemma idle_alive: "idle_ready w t \<Longrightarrow> rt_unit w t \<noteq> None"
  by (auto simp: idle_ready_def dest: live)

lemma resumable_alive: "resumable w t \<Longrightarrow> rt_unit w t \<noteq> None"
  by (auto simp: resumable_def dest: live)

lemma fine_unless: "rt_ok B {} {} S L w \<Longrightarrow> (\<not> b \<Longrightarrow> fine B L m w r) \<Longrightarrow> fine B L m w (if b then fails e w else r)"
  by (simp add: fine_fails)

lemma fine_cond: "rt_ok B {} {} S L w \<Longrightarrow> (\<not> b \<Longrightarrow> fine B L m w (k w)) \<Longrightarrow> fine B L m w ((if b then fails e else k) w)"
  by (simp add: fine_fails)

text \<open>A call by a ULT with a ULT as its target.\<close>

lemma fine_self_to:
  assumes ok: "rt_ok B {} {} S L w" and l: "may_switch l w" and e: "each thread P" "\<And>t. P t \<Longrightarrow> rt_unit w t \<noteq> None"
    and k: "\<And>x q r u t v. l = Some x \<Longrightarrow> S x = rt_thread w x # q # r \<Longrightarrow> P t \<Longrightarrow> \<not> guard (rt_thread w x) t u v \<Longrightarrow>
      fine B L m w (k x (rt_thread w x) t w)"
  shows "fine B L m w (with_self l (\<lambda>x self u. with_ythread thread (\<lambda>t v w.
    if guard self t u v then fails err w else k x self t w)) w)"
proof (rule fine_with_self [OF ok l])
  fix x q r u
  assume l: "l = Some x" "S x = rt_thread w x # q # r"
  show "fine B L m w (with_ythread thread
    (\<lambda>t v w'. if guard (rt_thread w x) t u v then fails err w' else k x (rt_thread w x) t w') w)"
  proof (rule fine_with_thread(2) [OF ok fine_each [OF e]])
    fix t v
    assume "thread = Some t" "rt_unit w t = Some v"
    then have "P t"
      using e(1) by (simp add: each_def)
    then show "fine B L m w (if guard (rt_thread w x) t u v then fails err w else k x (rt_thread w x) t w)"
      using k [OF l] by (intro fine_unless [OF ok])
  qed
qed

text \<open>The callers that switch away.\<close>

lemma yield_calls:
  assumes ok: "rt_ok B {} {} S L w"
  shows "allowed B (Thread_yield E l) w \<Longrightarrow> fine B L None w (exec_call (Thread_yield E l) w)"
    "allowed B (Self_yield E l) w \<Longrightarrow> fine B L None w (exec_call (Self_yield E l) w)"
    "allowed B (Self_yield_to E l thread) w \<Longrightarrow> fine B L None w (exec_call (Self_yield_to E l thread) w)"
    "allowed B (Self_resume_yield_to E l thread) w \<Longrightarrow> fine B L None w (exec_call (Self_resume_yield_to E l thread) w)"
proof -
  assume "allowed B (Self_yield E l) w"
  then show "fine B L None w (exec_call (Self_yield E l) w)"
    unfolding exec_call.simps allowed.simps ABT_self_yield_def
    by (auto intro!: fine_with_self [OF ok] fine_success [OF yield_ok [OF ok]])
next
  assume a: "allowed B (Thread_yield E l) w"
  show "fine B L None w (exec_call (Thread_yield E l) w)"
  proof (cases l)
    case None
    then show ?thesis
      using fine_same [OF ok] by (simp add: ABT_thread_yield_def)
  next
    case (Some x)
    have l: "may_switch (Some x) w"
      using a Some by simp
    then obtain u where u: "rt_unit w (rt_thread w x) = Some u"
      using caller_unit [of x w] by (auto simp: may_switch_def)
    from stack_form [OF ok l] obtain q r where "S x = rt_thread w x # q # r"
      by blast
    then have "fine B L None w (success (ABTI_ythread_yield E x (rt_thread w x) w))"
      using a by (intro fine_success [OF yield_ok [OF ok]]) auto
    then show ?thesis
      using fine_same [OF ok] u Some by (simp add: ABT_thread_yield_def)
  qed
next
  assume a: "allowed B (Self_yield_to E l thread) w"
  show "fine B L None w (exec_call (Self_yield_to E l thread) w)"
    unfolding exec_call.simps ABT_self_yield_to_def
    by (rule fine_self_to [where P = "idle_ready w", OF ok _ _ idle_alive]) (use a in \<open>auto intro: fine_success [OF yield_to_ok [OF ok]]\<close>)
next
  assume a: "allowed B (Self_resume_yield_to E l thread) w"
  show "fine B L None w (exec_call (Self_resume_yield_to E l thread) w)"
    unfolding exec_call.simps ABT_self_resume_yield_to_def
    by (rule fine_self_to [where P = "resumable w", OF ok _ _ resumable_alive]) (use a in \<open>auto intro: fine_success [OF resume_yield_to_ok [OF ok]]\<close>)
qed

lemma suspend_calls:
  assumes ok: "rt_ok B {} {} S L w"
  shows "allowed B (Self_suspend E l) w \<Longrightarrow> fine B L l w (exec_call (Self_suspend E l) w)"
    "allowed B (Self_resume_suspend_to E l thread) w \<Longrightarrow> fine B L l w (exec_call (Self_resume_suspend_to E l thread) w)"
proof -
  assume "allowed B (Self_suspend E l) w"
  then show "fine B L l w (exec_call (Self_suspend E l) w)"
    unfolding exec_call.simps allowed.simps ABT_self_suspend_def
    by (auto intro!: fine_with_self [OF ok] fine_drift [OF suspend_ok(1) [OF ok] suspend_calm(1)])
next
  assume a: "allowed B (Self_resume_suspend_to E l thread) w"
  show "fine B L l w (exec_call (Self_resume_suspend_to E l thread) w)"
    unfolding exec_call.simps ABT_self_resume_suspend_to_def
    by (rule fine_self_to [where P = "resumable w", OF ok _ _ resumable_alive]) (use a in \<open>auto intro: fine_drift [OF resume_suspend_to_ok [OF ok] resume_suspend_to_calm]\<close>)
qed

lemma fine_exit: "\<exists>w' S'. r = Some w' \<and> rt_ok B {} {} S' L w' \<and> P w' S' \<Longrightarrow> fine B L l w (success r)"
  by (auto simp: success_def intro: fineI)

lemma exit_calls:
  assumes ok: "rt_ok B {} {} S L w"
  shows "allowed B (Self_exit l) w \<Longrightarrow> fine B L None w (exec_call (Self_exit l) w)"
    "allowed B (Self_exit_to l thread) w \<Longrightarrow> fine B L None w (exec_call (Self_exit_to l thread) w)"
    "allowed B (Self_resume_exit_to l thread) w \<Longrightarrow> fine B L None w (exec_call (Self_resume_exit_to l thread) w)"
proof -
  assume "allowed B (Self_exit l) w"
  then show "fine B L None w (exec_call (Self_exit l) w)"
    unfolding exec_call.simps allowed.simps ABT_self_exit_def
    by (auto intro!: fine_with_self [OF ok] fine_fails [OF ok] fine_exit [OF exit_ok [OF ok]])
next
  assume a: "allowed B (Self_exit_to l thread) w"
  have "fine B L None w (success (ABTI_ythread_exit_to x t n w))" if "S x = t # q # r" "idle_ready w n" for x t n q r
    using exit_to_ok [OF ok that] by (auto intro: fine_success)
  then show "fine B L None w (exec_call (Self_exit_to l thread) w)"
    unfolding exec_call.simps ABT_self_exit_to_def
    by (intro fine_self_to [where P = "idle_ready w", OF ok _ _ idle_alive]) (use a in auto)
next
  assume a: "allowed B (Self_resume_exit_to l thread) w"
  show "fine B L None w (exec_call (Self_resume_exit_to l thread) w)"
    unfolding exec_call.simps ABT_self_resume_exit_to_def
    by (rule fine_self_to [where P = "resumable w", OF ok _ _ resumable_alive]) (use a in \<open>auto intro: fine_success [OF resume_exit_to_ok [OF ok]]\<close>)
qed

text \<open>Creating and reviving.\<close>

lemma fine_errno: "\<exists>r w'. X = Some (r, w') \<and> rt_ok B {} {} S L w' \<and> P r w' \<Longrightarrow> fine B L l w (errno_of X)"
  by (auto simp: errno_of_def intro: fineI)

lemma create_calls:
  assumes ok: "rt_ok B {} {} S L w"
  shows "allowed B (Thread_create A E pool f arg attr named) w \<Longrightarrow>
      fine B L None w (exec_call (Thread_create A E pool f arg attr named) w)"
    "allowed B (Task_create A E pool f arg named) w \<Longrightarrow> fine B L None w (exec_call (Task_create A E pool f arg named) w)"
    "allowed B (Thread_create_to A E Ey l pool f arg attr named) w \<Longrightarrow>
      fine B L None w (exec_call (Thread_create_to A E Ey l pool f arg attr named) w)"
proof -
  assume "allowed B (Thread_create A E pool f arg attr named) w"
  then show "fine B L None w (exec_call (Thread_create A E pool f arg attr named) w)"
    using ok by (cases pool) (auto simp: ABT_thread_create_def errno_of_def fine_same intro!: fine_errno [unfolded errno_of_def] ythread_create_ok)
next
  assume a: "allowed B (Task_create A E pool f arg named) w"
  show "fine B L None w (exec_call (Task_create A E pool f arg named) w)"
  proof (cases pool)
    case None
    then show ?thesis
      using fine_same [OF ok] by (simp add: ABT_task_create_def errno_of_def)
  next
    case (Some p)
    then show ?thesis
      using fine_errno [OF task_create_ok [OF ok, of A E]] a by (simp add: ABT_task_create_def)
  qed
next
  assume a: "allowed B (Thread_create_to A E Ey l pool f arg attr named) w"
  show "fine B L None w (exec_call (Thread_create_to A E Ey l pool f arg attr named) w)"
    unfolding exec_call.simps ABT_thread_create_to_def
  proof (rule fine_with_self [OF ok])
    fix x q r u
    assume S: "S x = rt_thread w x # q # r"
    show "fine B L None w ((if main_sched u then fails ABT_ERR_INV_THREAD else with_pool pool (\<lambda>p w'. do {
       (r, w1) \<leftarrow> ythread_create A E (Some p) f arg attr (named_type named) False THREAD_POOL_OP_INIT w';
       (case r of Inl err \<Rightarrow> Some (err, w1) | Inr t \<Rightarrow> success (ABTI_ythread_yield_to Ey x (rt_thread w x) t w1))
     })) w)"
    proof (rule fine_cond [OF ok], rule fine_with_pool [OF ok])
      fix p
      assume p: "pool = Some p"
      obtain v w1 where w1: "ythread_create A E (Some p) f arg attr (named_type named) False THREAD_POOL_OP_INIT w = Some (v, w1)"
        "rt_ok B {} {} S L w1" "\<And>t. v = Inr t \<Longrightarrow> idle_ready w1 t"
        using ythread_create_ok [OF ok, of A E THREAD_POOL_OP_INIT p f arg attr "named_type named" False] a by auto
      have E: "fresh_env B Ey w1"
        using a p w1(1) by (simp add: then_fresh_def)
      show "fine B L None w (do {
        (r, w1) \<leftarrow> ythread_create A E (Some p) f arg attr (named_type named) False THREAD_POOL_OP_INIT w;
        (case r of Inl err \<Rightarrow> Some (err, w1) | Inr t \<Rightarrow> success (ABTI_ythread_yield_to Ey x (rt_thread w x) t w1)) })"
      proof (cases v)
        case (Inl e)
        then show ?thesis
          using w1 by (simp add: fineI)
      next
        case (Inr t)
        then have "fine B L None w (success (ABTI_ythread_yield_to Ey x (rt_thread w x) t w1))"
          by (intro fine_success [OF yield_to_ok [OF w1(2) S w1(3) E]])
        then show ?thesis
          using Inr w1(1) by simp
      qed
    qed
  qed (use a in simp)
qed

lemma revive_calls:
  assumes ok: "rt_ok B {} {} S L w"
  shows "allowed B (Thread_revive E pool f arg thread) w \<Longrightarrow> fine B L None w (exec_call (Thread_revive E pool f arg thread) w)"
    "allowed B (Thread_revive_to E Ey l pool f arg thread) w \<Longrightarrow>
      fine B L None w (exec_call (Thread_revive_to E Ey l pool f arg thread) w)"
proof -
  have fine: "fine B L None w (thread_revive E p f arg op t w)"
    if "rt_unit w t = Some u" "wu_state u = ABT_THREAD_STATE_TERMINATED" "pool_of w t \<noteq> None" "fresh_env B E w" for t u p op
    using revive_ok [OF ok _ that(3,4), of p f arg op] that(1,2) by (auto simp: st_def intro: fineI)
  assume a: "allowed B (Thread_revive E pool f arg thread) w"
  show "fine B L None w (exec_call (Thread_revive E pool f arg thread) w)"
    unfolding exec_call.simps ABT_thread_revive_def
  proof (rule fine_with_thread(1) [OF ok], goal_cases)
    case (2 t u)
    then show ?case
      using a by (intro fine_cond [OF ok] fine_with_pool [OF ok] fine) (auto simp: each_def)
  qed (use a in \<open>auto simp: each_def handle_ok_def split: option.splits\<close>)
next
  assume a: "allowed B (Thread_revive_to E Ey l pool f arg thread) w"
  show "fine B L None w (exec_call (Thread_revive_to E Ey l pool f arg thread) w)"
    unfolding exec_call.simps ABT_thread_revive_to_def
  proof (rule fine_with_self [OF ok], goal_cases)
    case S: (2 x q r u)
    show ?case
    proof (rule fine_cond [OF ok], rule fine_with_thread(1) [OF ok], goal_cases)
      case (2 t v)
      then show ?case
      proof (intro fine_cond [OF ok] fine_with_pool [OF ok])
        fix p
        assume v: "\<not> (wu_state v \<noteq> ABT_THREAD_STATE_TERMINATED \<or> ABTI_THREAD_TYPE_YIELDABLE \<notin> wu_type v)"
          and p: "pool = Some p"
        have t: "st w t = Some ABT_THREAD_STATE_TERMINATED" "pool_of w t \<noteq> None"
          using 2 v a by (auto simp: st_def each_def)
        obtain ret w1 where w1: "thread_revive E p f arg THREAD_POOL_OP_INIT t w = Some (ret, w1)" "rt_ok B {} {} S L w1"
          "ret = ABT_SUCCESS \<Longrightarrow> idle_ready w1 t"
          using revive_ok [OF ok t, of E p f arg THREAD_POOL_OP_INIT] a by auto
        have E: "fresh_env B Ey w1"
          using a p w1(1) 2 by (simp add: then_fresh_def each_def)
        show "fine B L None w (do {
           (ret, w1) \<leftarrow> thread_revive E p f arg THREAD_POOL_OP_INIT t w;
           (if ret \<noteq> ABT_SUCCESS then Some (ret, w1) else success (ABTI_ythread_yield_to Ey x (rt_thread w x) t w1)) })"
        proof (cases "ret = ABT_SUCCESS")
          case True
          then have "fine B L None w (success (ABTI_ythread_yield_to Ey x (rt_thread w x) t w1))"
            by (intro fine_success [OF yield_to_ok [OF w1(2) S(2) w1(3) E]])
          then show ?thesis
            using True w1(1) by simp
        next
          case False
          then show ?thesis
            using w1 by (simp add: fineI)
        qed
      qed
    qed (use a in \<open>auto simp: each_def handle_ok_def split: option.splits\<close>)
  qed (use a in simp)
qed

text \<open>Requests and attributes.\<close>

lemma request_calls:
  assumes ok: "rt_ok B {} {} S L w"
  shows "allowed B (Thread_cancel thread) w \<Longrightarrow> fine B L None w (exec_call (Thread_cancel thread) w)"
    "allowed B (Thread_resume thread) w \<Longrightarrow> fine B L None w (exec_call (Thread_resume thread) w)"
    "allowed B (Thread_migrate_to_pool E thread pool) w \<Longrightarrow> fine B L None w (exec_call (Thread_migrate_to_pool E thread pool) w)"
    "allowed B (Thread_set_callback E thread cb) w \<Longrightarrow> fine B L None w (exec_call (Thread_set_callback E thread cb) w)"
    "allowed B (Thread_set_migratable thread flag) w \<Longrightarrow> fine B L None w (exec_call (Thread_set_migratable thread flag) w)"
proof -
  assume a: "allowed B (Thread_cancel thread) w"
  show "fine B L None w (exec_call (Thread_cancel thread) w)"
    unfolding exec_call.simps ABT_thread_cancel_def
  proof (rule fine_with_thread(1) [OF ok], goal_cases)
    case (2 t u)
    then show ?case
      using request_ok [OF ok, of ABTI_THREAD_REQ_CANCEL t]
      by (intro fine_unless [OF ok] fine_success) (simp add: ABTI_thread_set_request_def upd_put)
  qed (use a in simp)
next
  assume a: "allowed B (Thread_resume thread) w"
  show "fine B L None w (exec_call (Thread_resume thread) w)"
    unfolding exec_call.simps ABT_thread_resume_def
  proof (rule fine_with_thread(2) [OF ok], goal_cases)
    case (2 t u)
    have "fine B L None w (success (ABTI_ythread_resume_and_push t w))" if "wu_state u = ABT_THREAD_STATE_BLOCKED"
      using resume_and_push_ok [OF ok, of t "{}"] that 2 a by (intro fine_success) (auto simp: st_def each_def)
    then show ?case
      by (intro fine_unless [OF ok]) simp
  qed (use a in \<open>auto simp: each_def handle_ok_def split: option.splits\<close>)
next
  assume a: "allowed B (Thread_migrate_to_pool E thread pool) w"
  show "fine B L None w (exec_call (Thread_migrate_to_pool E thread pool) w)"
    unfolding exec_call.simps ABT_thread_migrate_to_pool_def
  proof (rule fine_with_thread(1) [OF ok], goal_cases)
    case (2 t u)
    then have "fine B L None w (thread_migrate_to_pool E t (Some p) w)" for p
      using migrate_to_pool_ok [OF ok, of t E p] by (auto intro: fineI)
    then show ?case
      by (intro fine_with_pool [OF ok] fine_unless [OF ok])
  qed (use a in simp)
next
  assume a: "allowed B (Thread_set_callback E thread cb) w"
  show "fine B L None w (exec_call (Thread_set_callback E thread cb) w)"
  proof (cases thread)
    case None
    then show ?thesis
      using fine_fails [OF ok] by (simp add: ABT_thread_set_callback_def with_thread_def)
  next
    case (Some t)
    then have "rt_unit w t \<noteq> None"
      using a by (simp add: handle_ok_def)
    from set_callback_ok [OF ok this] show ?thesis
      unfolding exec_call.simps Some by (blast intro: fineI)
  qed
next
  assume a: "allowed B (Thread_set_migratable thread flag) w"
  show "fine B L None w (exec_call (Thread_set_migratable thread flag) w)"
    unfolding exec_call.simps ABT_thread_set_migratable_def
  proof (rule fine_with_thread(1) [OF ok], goal_cases)
    case (2 t u)
    let ?f = "\<lambda>u. u\<lparr>wu_type := (if flag then insert ABTI_THREAD_TYPE_MIGRATABLE (wu_type u)
      else wu_type u - {ABTI_THREAD_TYPE_MIGRATABLE})\<rparr>"
    have "rt_ok B {} {} S L (put t ?f w)"
      by (rule put_frame [OF ok]) (simp_all add: put_views(6))
    then have "fine B L None w (success (upd t ?f w))"
      using 2 by (intro fine_success) (simp add: upd_put)
    then show ?case
      using fine_same [OF ok] by simp
  qed (use a in simp)
qed

text \<open>Pools.\<close>

lemma fine_set_pool:
  "rt_ok B {} {} S L w \<Longrightarrow> loose w t \<Longrightarrow> fresh_env B E w \<Longrightarrow> fine B L None w (set_associated_pool E t p w)"
  using set_pool_loose [of B S L w t E p] by (auto intro: fineI)

lemma pool_calls:
  assumes ok: "rt_ok B {} {} S L w"
  shows "allowed B (Thread_set_associated_pool E thread pool) w \<Longrightarrow>
      fine B L None w (exec_call (Thread_set_associated_pool E thread pool) w)"
    "allowed B (Self_set_associated_pool E l pool) w \<Longrightarrow> fine B L None w (exec_call (Self_set_associated_pool E l pool) w)"
    "allowed B (Pool_take p t) w \<Longrightarrow> fine B L None w (exec_call (Pool_take p t) w)"
proof -
  assume a: "allowed B (Thread_set_associated_pool E thread pool) w"
  show "fine B L None w (exec_call (Thread_set_associated_pool E thread pool) w)"
    unfolding exec_call.simps ABT_thread_set_associated_pool_def
    by (rule fine_with_thread(1) [OF ok], use a in \<open>auto simp: each_def handle_ok_def split: option.splits\<close>)
      (intro fine_with_pool [OF ok] fine_set_pool [OF ok]; use a in \<open>simp add: each_def\<close>)
next
  assume a: "allowed B (Self_set_associated_pool E l pool) w"
  show "fine B L None w (exec_call (Self_set_associated_pool E l pool) w)"
  proof (cases l)
    case None
    then show ?thesis
      using fine_fails [OF ok] by (simp add: ABT_self_set_associated_pool_def)
  next
    case (Some x)
    then have "may_switch (Some x) w"
      using a by simp
    from stack_form [OF ok this] obtain q r where "S x = rt_thread w x # q # r"
      by blast
    from loose_running [OF ok this] show ?thesis
      using a by (simp add: ABT_self_set_associated_pool_def Some fine_with_pool [OF ok] fine_set_pool [OF ok])
  qed
next
  assume "allowed B (Pool_take p t) w"
  then show "fine B L None w (exec_call (Pool_take p t) w)"
    using pop_ok(1) [OF ok, of t p] by (simp add: success_def fineI)
qed

text \<open>Joining and freeing.\<close>

lemma join_round_fine:
  assumes "rt_ok B {} {} S L w" "fresh_env B E w" "may_switch l w" "rt_unit w t = Some u" "\<not> is_self l t w" "\<not> primary u"
  shows "\<exists>r w' S' L'. thread_join E futex l t w = Some (r, w') \<and> rt_ok B {} {} S' L' w' \<and>
    (L' = L \<or> calm l w w' \<and> L' = (\<lambda>q. L q + drift l w w' q)) \<and>
    (r = Join_done \<longrightarrow> w' = w \<and> S' = S \<and> L' = L \<and> wu_state u = ABT_THREAD_STATE_TERMINATED)"
  using thread_join_ok [OF assms, of futex] by auto

lemma join_calls:
  assumes ok: "rt_ok B {} {} S L w"
  shows "allowed B (Thread_join E futex l thread) w \<Longrightarrow> fine B L l w (exec_call (Thread_join E futex l thread) w)"
    "allowed B (Thread_free E futex l thread) w \<Longrightarrow> fine B L l w (exec_call (Thread_free E futex l thread) w)"
proof -
  assume a: "allowed B (Thread_join E futex l thread) w"
  show "fine B L l w (exec_call (Thread_join E futex l thread) w)"
  proof (cases thread)
    case None
    then show ?thesis
      using fine_same [OF ok] by (simp add: ABT_thread_join_def errno_of_def)
  next
    case (Some t)
    then obtain u where u: "rt_unit w t = Some u"
      using a by (auto simp: handle_ok_def)
    show ?thesis
    proof (cases "is_self l t w \<or> primary u \<or> main_sched u")
      case True
      then show ?thesis
        using fine_same [OF ok] u Some by (simp add: ABT_thread_join_def errno_of_def)
    next
      case False
      then show ?thesis
        using join_round_fine [OF ok _ _ u, of E l futex] a u Some
        by (auto simp: ABT_thread_join_def errno_of_def fine_def)
    qed
  qed
next
  assume a: "allowed B (Thread_free E futex l thread) w"
  show "fine B L l w (exec_call (Thread_free E futex l thread) w)"
  proof (cases thread)
    case None
    then show ?thesis
      using fine_same [OF ok] by (simp add: ABT_thread_free_def errno_of_def)
  next
    case (Some t)
    then obtain u where u: "rt_unit w t = Some u" and p: "pool_of w t \<noteq> None"
      using a by (auto simp: each_def)
    show ?thesis
    proof (cases "is_self l t w \<or> primary u \<or> main_sched u")
      case True
      then show ?thesis
        using fine_same [OF ok] u Some by (simp add: ABT_thread_free_def errno_of_def)
    next
      case False
      then obtain r w' S' L' where j: "thread_join E futex l t w = Some (r, w')" "rt_ok B {} {} S' L' w'"
        "L' = L \<or> calm l w w' \<and> L' = (\<lambda>q. L q + drift l w w' q)"
        "r = Join_done \<Longrightarrow> w' = w \<and> S' = S \<and> L' = L \<and> wu_state u = ABT_THREAD_STATE_TERMINATED"
        using join_round_fine [OF ok _ _ u, of E l futex] a by auto
      show ?thesis
      proof (cases "r = Join_done")
        case True
        then have "w' = w" "st w t = Some ABT_THREAD_STATE_TERMINATED"
          using j(4) u by (simp_all add: st_def)
        moreover obtain w2 where "ABTI_thread_free t w = Some w2" "rt_ok B {} {} S L w2"
          using free_ended [OF ok calculation(2) p] by (auto simp: ABTI_thread_free_def)
        ultimately show ?thesis
          using True False j(1) u Some by (auto simp: ABT_thread_free_def errno_of_def intro: fineI)
      next
        case nd: False
        then show ?thesis
          using False j(1-3) u Some by (auto simp: ABT_thread_free_def errno_of_def fine_def)
      qed
    qed
  qed
qed

text \<open>The deprecated directed yield.\<close>

lemma inc_dec: "ABTI_pool_dec_num_blocked p (ABTI_pool_inc_num_blocked p w) = w"
  by (simp add: ABTI_pool_dec_num_blocked_def ABTI_pool_inc_num_blocked_def)

lemma taken_out_ok:
  assumes ok: "rt_ok B {} {} S L w" and S: "S x = self # q # r" and E: "fresh_env B E w"
    and t: "unit_of w t \<in> set (rt_queue w p)" "pool_of w t = Some p" "rt_unit w t \<noteq> None" and own: "pool_of w self = Some own"
  shows "\<exists>w2 w'. upd t (wu_last_xstream_update (\<lambda>_. Some x)) (ABTI_pool_remove p (unit_of w t) (ABTI_pool_inc_num_blocked own w)) = Some w2 \<and>
    ABTI_ythread_thread_yield_to E x self t w2 = Some w' \<and> rt_ok B {} {} (S(x := t # q # r)) L w'"
proof -
  let ?v = "ABTI_pool_inc_num_blocked own w" and ?L = "\<lambda>p. L p + one (Some own) p"
  define w1 where "w1 = ABTI_pool_remove p (unit_of w t) ?v"
  define w2 where "w2 = put t (wu_last_xstream_update (\<lambda>_. Some x)) w1"
  have okv: "rt_ok B {} {} S ?L ?v"
    by (rule inc_ok [OF ok])
  have "unit_of ?v t \<in> set (rt_queue ?v p)" "pool_of ?v t = Some p"
    using t by (simp_all add: ABTI_pool_inc_num_blocked_def)
  from pop_ok [OF okv this] have w1: "rt_ok B {} {} S ?L w1" "idle_ready w1 t"
    by (simp_all add: w1_def)
  have eq: "rt_unit w1 = rt_unit w" "rt_assoc w1 = rt_assoc w"
    by (simp_all add: w1_def ABTI_pool_remove_def)
  have st: "st w2 = st w1"
    unfolding w2_def by (rule put_views) simp
  have "st w1 t \<noteq> Some ABT_THREAD_STATE_RUNNING"
    using w1(2) by (simp add: idle_ready_def)
  from last_ok [OF w1(1) this] have "rt_ok B {} {} S ?L w2"
    by (simp add: w2_def)
  moreover have "idle_ready w2 t"
    using w1(2) unfolding idle_ready_def st by (simp add: w2_def)
  moreover have "pool_of w2 self = Some own" "rt_assoc w2 = rt_assoc w"
    using own by (simp_all add: w2_def eq)
  ultimately obtain w' where "ABTI_ythread_thread_yield_to E x self t w2 = Some w'" "rt_ok B {} {} (S(x := t # q # r)) L w'"
    using thread_yield_to_ok [of B S L w2 self x q r t E] S fresh_cong [OF E, of w2] by auto
  then show ?thesis
    using t(3) unfolding w1_def [symmetric] by (auto simp: upd_put w2_def eq)
qed

lemma yield_to_call:
  assumes ok: "rt_ok B {} {} S L w" and a: "allowed B (Thread_yield_to E has_in has_remove ret l thread) w"
  shows "fine B L None w (exec_call (Thread_yield_to E has_in has_remove ret l thread) w)"
proof (cases l)
  case None
  then show ?thesis
    using fine_same [OF ok] by (simp add: ABT_thread_yield_to_def)
next
  case (Some x)
  let ?self = "rt_thread w x"
  have l: "may_switch (Some x) w"
    using a Some by simp
  then obtain u where u: "rt_unit w ?self = Some u"
    using caller_unit [of x w] by (auto simp: may_switch_def)
  from stack_form [OF ok l] obtain q r where S: "S x = ?self # q # r"
    by blast
  obtain own where own: "pool_of w ?self = Some own"
    using stacks_okD(9) [OF rt_okD(2) [OF ok], of ?self x] S by auto
  have "fine B L None w (with_ythread thread (\<lambda>t v w'. 
      (if ?self = t \<or> main_sched u then fails ABT_ERR_INV_THREAD w'
       else do {
         p \<leftarrow> pool_of w' t;
         (if \<not> has_in p \<or> \<not> has_remove p then fails ABT_ERR_POOL w'
          else if \<not> (unit_of w' t \<in> set (rt_queue w' p) \<and> wu_state v = ABT_THREAD_STATE_READY)
          then Some (ABT_SUCCESS, w')
          else do {
            own \<leftarrow> pool_of w' ?self;
            let w1 = ABTI_pool_inc_num_blocked own w';
            (if ret \<noteq> ABT_SUCCESS then Some (ret, ABTI_pool_dec_num_blocked own w1)
             else do {
               w2 \<leftarrow> upd t (wu_last_xstream_update (\<lambda>_. Some x)) (ABTI_pool_remove p (unit_of w1 t) w1);
               success (ABTI_ythread_thread_yield_to E x ?self t w2)
             })
          })
       })) w)"
  proof (rule fine_with_thread(2) [OF ok], goal_cases)
    case (2 t v)
    then obtain p where p: "pool_of w t = Some p"
      using a by (auto simp: each_def)
    have "fine B L None w (do {
        w2 \<leftarrow> upd t (wu_last_xstream_update (\<lambda>_. Some x)) (ABTI_pool_remove p (unit_of w t) (ABTI_pool_inc_num_blocked own w));
        success (ABTI_ythread_thread_yield_to E x ?self t w2) })"
      if "unit_of w t \<in> set (rt_queue w p)"
      using taken_out_ok [OF ok S _ that p _ own, of E] a 2 by (auto simp: success_def intro: fineI)
    then show ?case
      by (intro fine_unless [OF ok]) (auto simp: p own inc_dec Let_def intro: fine_fails [OF ok] fine_same [OF ok])
  qed (use a in \<open>auto simp: each_def handle_ok_def split: option.splits\<close>)
  then show ?thesis
    using fine_same [OF ok] u by (simp add: ABT_thread_yield_to_def Some Let_def cong: if_cong)
qed

text \<open>What a scheduler does.\<close>

lemma schedule_enter_ok:
  assumes ok: "rt_ok B {} {} S L w" and t: "idle_ready w t" and E: "fresh_env B E w" and x: "on_stream x w"
  shows "\<exists>w' S'. schedule_enter E x t w = Some w' \<and> rt_ok B {} {} S' L w' \<and> (S' = S(x := t # S x) \<or> S' = S)"
proof -
  note tt = take_idle [OF ok t]
  obtain c r where S: "S x = c # r"
    using on_stream_stack [OF ok x] by blast
  obtain h w1 where w1: "ABTI_thread_handle_request E t True w = Some (h, w1)"
    and k: "if h = ABTI_THREAD_HANDLE_REQUEST_CANCELLED then True \<and> rt_ok B ({t} - {t}) {} S L w1 \<and> ended t w1
      else rt_ok B {t} {} S L w1 \<and> st w1 = st w \<and> par w1 = par w \<and> lnk w1 = lnk w"
    using handle_request_ok [OF tt _ _ E, of t True] by blast
  show ?thesis
  proof (cases h)
    case ABTI_THREAD_HANDLE_REQUEST_NONE
    then have ok1: "rt_ok B {t} {} S L w1"
      using k by simp
    obtain u where u: "rt_unit w1 t = Some u"
      using hands_okD(1) [OF rt_okD(6) [OF ok1], of t] by blast
    show ?thesis
      using begin_ok [OF ok1 S] ABTI_THREAD_HANDLE_REQUEST_NONE w1 u S by (auto simp: schedule_enter_def)
  next
    case ABTI_THREAD_HANDLE_REQUEST_CANCELLED
    then show ?thesis
      using k by (simp add: schedule_enter_def w1) blast
  next
    case ABTI_THREAD_HANDLE_REQUEST_MIGRATED
    then have "rt_ok B {t} {} S L w1"
      using k by simp
    then obtain w2 where "ABTI_pool_add_thread t w1 = Some w2" "rt_ok B ({t} - {t}) {} S L w2"
      using add_thread_ok [of B "{t}" "{}" S L w1 t] by blast
    then show ?thesis
      using ABTI_THREAD_HANDLE_REQUEST_MIGRATED by (simp add: schedule_enter_def w1) blast
  qed
qed

lemma sched_calls:
  assumes ok: "rt_ok B {} {} S L w"
  shows "allowed B (Sched_run E x t) w \<Longrightarrow> fine B L None w (exec_call (Sched_run E x t) w)"
    "allowed B (Task_return x) w \<Longrightarrow> fine B L None w (exec_call (Task_return x) w)"
proof -
  assume "allowed B (Sched_run E x t) w"
  then show "fine B L None w (exec_call (Sched_run E x t) w)"
    using schedule_enter_ok [OF ok, of t E x] by (auto simp: success_def intro: fineI)
next
  assume a: "allowed B (Task_return x) w"
  then have l: "may_switch (Some x) w"
    by simp
  from stack_form [OF ok l] obtain q r where S: "S x = rt_thread w x # q # r"
    by blast
  obtain u where u: "rt_unit w (rt_thread w x) = Some u"
    using caller_unit [of x w] l by (auto simp: may_switch_def)
  have "par w (rt_thread w x) = Some q"
    using leave_ok(2) [OF ok S] .
  then have q: "wu_parent u = Some q"
    using u by (simp add: par_def)
  show "fine B L None w (exec_call (Task_return x) w)"
    using task_end_ok [OF ok S] u q by (auto simp: success_def intro: fineI)
qed

section \<open>Runs\<close>

lemmas fine_calls = yield_calls suspend_calls exit_calls create_calls revive_calls request_calls pool_calls join_calls
  sched_calls yield_to_call

lemma call_fine:
  assumes ok: "rt_ok B {} {} S L w"
  shows "allowed B c w \<Longrightarrow> fine B L (suspends c) w (exec_call c w)"
  by (induction c; unfold suspends_def call.case; erule fine_calls [OF ok])

text \<open>A run: the calls in their order, each with the return values so far. It has no result if one has none.\<close>

fun run_calls :: "call list \<Rightarrow> runtime \<Rightarrow> runtime option" where
  "run_calls [] w = Some w"
| "run_calls (c # cs) w = do { (_, w1) \<leftarrow> exec_call c w; run_calls cs w1 }"

fun allowed_run :: "(nat \<Rightarrow> bool) \<Rightarrow> call list \<Rightarrow> runtime \<Rightarrow> bool" where
  "allowed_run B [] w = True"
| "allowed_run B (c # cs) w \<longleftrightarrow> allowed B c w \<and> (case exec_call c w of None \<Rightarrow> True | Some (_, w1) \<Rightarrow> allowed_run B cs w1)"

text \<open>No call of the run blocks its caller while a migration of it is pending.\<close>

fun calm_run :: "call list \<Rightarrow> runtime \<Rightarrow> bool" where
  "calm_run [] w = True"
| "calm_run (c # cs) w \<longleftrightarrow>
     (case suspends c of None \<Rightarrow> True | Some x \<Rightarrow> \<not> mig_pending w (rt_thread w x)) \<and>
     (case exec_call c w of None \<Rightarrow> True | Some (_, w1) \<Rightarrow> calm_run cs w1)"

lemma drift_calm: "calm l w w' \<Longrightarrow> (\<forall>x. l = Some x \<longrightarrow> \<not> mig_pending w (rt_thread w x)) \<Longrightarrow> drift l w w' q = 0"
  by (cases l) (simp_all add: calm_def drift_def leak_def)

lemma run_ok:
  assumes "rt_ok B {} {} S L w" "allowed_run B cs w"
  shows "\<exists>w' S' L'. run_calls cs w = Some w' \<and> rt_ok B {} {} S' L' w' \<and> (calm_run cs w \<longrightarrow> L' = L)"
  using assms
proof (induction cs arbitrary: S L w)
  case Nil
  then show ?case
    by auto
next
  case (Cons c cs)
  have "fine B L (suspends c) w (exec_call c w)"
    by (rule call_fine [OF Cons.prems(1)]) (use Cons.prems(2) in simp)
  then obtain ret w1 S1 L1 where w1: "exec_call c w = Some (ret, w1)" "rt_ok B {} {} S1 L1 w1"
    "L1 = L \<or> calm (suspends c) w w1 \<and> L1 = (\<lambda>q. L q + drift (suspends c) w w1 q)"
    by (auto simp: fine_def)
  obtain w' S' L' where w': "run_calls cs w1 = Some w'" "rt_ok B {} {} S' L' w'" "calm_run cs w1 \<longrightarrow> L' = L1"
    using Cons.IH [OF w1(2)] Cons.prems(2) w1(1) by auto
  have "L1 = L" if "calm_run (c # cs) w"
  proof -
    have "\<forall>x. suspends c = Some x \<longrightarrow> \<not> mig_pending w (rt_thread w x)"
      using that by auto
    then show ?thesis
      using w1(3) drift_calm by fastforce
  qed
  then show ?case
    using w1(1) w' by (intro exI [of _ w'] exI [of _ S'] exI [of _ L']) auto
qed

end
