(* ===== verification/ThreadFacts.thy ===== *)
theory ThreadFacts
  imports ThreadRun
begin

text \<open>
  What single operations on work units promise beyond the invariant: the joiner of an ending ULT
  runs or is in its pool, a suspended and resumed ULT is counted right unless it changed its pool,
  cancelled work units do not run; and two places where the code does not do what it should.
\<close>

section \<open>The joiner of an ending ULT\<close>

lemma terminate_queue:
  assumes "ABTI_thread_terminate t w = Some w'"
  shows "rt_queue w' = rt_queue w"
proof -
  obtain u where u: "rt_unit w t = Some u"
    using assms by (cases "rt_unit w t") (simp_all add: ABTI_thread_terminate_def)
  let ?w = "put t (wu_state_update (\<lambda>_. ABT_THREAD_STATE_TERMINATED)) w"
  have "thread_free True t ?w = Some w' \<or> ?w = w'"
    using assms u by (auto simp: ABTI_thread_terminate_def set_state_def upd_put split: if_splits)
  moreover have "rt_queue w' = rt_queue ?w" if "thread_free True t ?w = Some w'"
    using that by (cases "rt_unit ?w t"; cases "ABTI_thread_unset_associated_pool t (rt_assoc ?w)") (auto simp: thread_free_def)
  ultimately show ?thesis
    by auto
qed

lemma exit_joined:
  assumes ok: "rt_ok B {} {} S L w" and S: "S x = t # q # r" and j: "joins {} w j t"
  shows "\<exists>w'. ABTI_ythread_exit x t w = Some w' \<and>
    (rt_thread w' x = j \<and> st w' j = Some ABT_THREAD_STATE_RUNNING \<or>
     rt_thread w' x = q \<and> st w' j = Some ABT_THREAD_STATE_READY \<and>
       (\<exists>p. pool_of w' j = Some p \<and> unit_of w' j \<in> set (rt_queue w' p)))"
proof -
  note top = top_facts [OF ok S]
  obtain u where u: "rt_unit w t = Some u" "wu_link u = Some (Joiner j)"
    using j by (auto simp: joins_def lnk_def Option.bind_eq_Some_conv)
  have get: "ABTI_ythread_atomic_get_joiner t w = Some (Some (Joiner j), w)"
    using u by (simp add: ABTI_ythread_atomic_get_joiner_def)
  have ok1: "rt_ok B {} {t} S L w" and b: "st w j = Some ABT_THREAD_STATE_BLOCKED" and nj: "\<not> joins {t} w j s" for s
    using get_joiner_ok [OF ok top(4)] top(3) get by auto
  obtain v where v: "rt_unit w j = Some v" "wu_state v = ABT_THREAD_STATE_BLOCKED"
    using live [OF b] by blast
  obtain p where p: "pool_of w j = Some p"
    using rt_okD(4) [OF ok] b unfolding counts_ok_def by blast
  show ?thesis
  proof (cases "wu_last_xstream u = wu_last_xstream v \<and> ABTI_THREAD_TYPE_MAIN_SCHED \<notin> wu_type u")
    case True
    have "rt_ok B {j} {t} S (\<lambda>q. L q + one (Some p) q) w"
      using take_blocked [OF ok1 b _ p subset_refl] nj by simp
    then have "rt_ok B {j} {t} S L (ABTI_pool_dec_num_blocked p w)"
      using dec_ok [of B "{j}" "{t}" S "\<lambda>q. L q + one (Some p) q" w p] by simp
    from exit_in_place [OF this S] obtain w2 w' where w': "set_state ABT_THREAD_STATE_RUNNING j (ABTI_pool_dec_num_blocked p w) = Some w2"
      "ABTI_ythread_jump_to_sibling_internal x t j (ABTI_ythread_callback_exit t) w2 = Some w'"
      "rt_ok B {} {} (S(x := j # q # r)) L w'"
      by blast
    have "ABTI_ythread_exit x t w = Some w'"
      by (simp add: ABTI_ythread_exit_def get u(1) v(1) True p w'(1,2))
    moreover have "rt_thread w' x = j" "st w' j = Some ABT_THREAD_STATE_RUNNING"
      using top_facts(1,3) [OF w'(3), of x j "q # r"] by simp_all
    ultimately show ?thesis
      by blast
  next
    case False
    obtain w2 where w2: "ABTI_ythread_resume_and_push j w = Some w2" "rt_ok B {} {t} S L w2"
      using resume_and_push_ok [OF ok1 b _ subset_refl] nj by blast
    have d: "w2 = ABTI_pool_dec_num_blocked p (ABTI_pool_push p (unit_of w j) (put j (wu_state_update (\<lambda>_. ABT_THREAD_STATE_READY)) w))"
      using w2(1) v p by (simp add: ABTI_ythread_resume_and_push_def ABTI_pool_add_thread_def set_state_def upd_put)
    have j2: "st w2 j = Some ABT_THREAD_STATE_READY" "pool_of w2 j = Some p" "unit_of w2 j \<in> set (rt_queue w2 p)"
      using v(1) p by (simp_all add: d ABTI_pool_dec_num_blocked_def ABTI_pool_push_def st_def put_unit)
    note l = leave_ok(1) [OF w2(2) S]
    obtain w' where w': "ABTI_thread_terminate t (set_thread x q w2) = Some w'" "rt_ok B {} {} (S(x := q # r)) L w'"
      "\<forall>s. s \<noteq> t \<longrightarrow> rt_unit w' s = rt_unit (set_thread x q w2) s \<and> pool_of w' s = pool_of (set_thread x q w2) s \<and>
         unit_of w' s = unit_of (set_thread x q w2) s"
      using terminate_ok [OF l insertI1] by auto
    have "j \<noteq> t"
      using b top(3) by auto
    then have "st w' j = Some ABT_THREAD_STATE_READY" "pool_of w' j = Some p" "unit_of w' j \<in> set (rt_queue w' p)"
      using w'(3) j2 terminate_queue [OF w'(1)] by (simp_all add: st_def)
    moreover have "ABTI_ythread_exit x t w = Some w'"
      using False by (auto simp: ABTI_ythread_exit_def get u(1) v(1) w2(1) to_parent(2) [OF w2(2) S] ABTI_ythread_callback_exit_def w'(1))
    moreover have "rt_thread w' x = q"
      using top_facts(1) [OF w'(2), of x q r] by simp
    ultimately show ?thesis
      by blast
  qed
qed

section \<open>Blocking and resuming\<close>

lemma suspend_resume_counts:
  assumes ok: "rt_ok B {} {} S L w" and S: "S x = t # q # r" and E: "fresh_env B E w"
  shows "\<exists>w1 w2. ABTI_ythread_suspend E x t w = Some w1 \<and> ABT_thread_get_state (Some t) w1 = Some (Inr ABT_THREAD_STATE_BLOCKED) \<and>
    ABTI_ythread_resume_and_push t w1 = Some w2 \<and> st w2 t = Some ABT_THREAD_STATE_READY \<and>
    (\<forall>p. rt_blocked w2 p = rt_blocked w p + one (pool_of w t) p - one (pool_of w1 t) p)"
proof -
  note top = top_facts [OF ok S]
  obtain w1 where w1: "ABTI_ythread_callback_suspend E t (set_thread x q w) = Some w1"
    "rt_ok B {} {} (S(x := q # r)) (\<lambda>p. L p + leak t w w1 p) w1" "same_but t w w1"
    "st w1 t = Some ABT_THREAD_STATE_BLOCKED" "\<forall>s. s \<noteq> t \<longrightarrow> st w1 s = st w s" "lnk w1 = lnk w"
    using suspend_callback_top [OF ok S E] by blast
  have nj: "\<not> joins {} w1 t s" for s
  proof
    assume a: "joins {} w1 t s"
    have "s \<noteq> t \<or> st w t \<noteq> Some ABT_THREAD_STATE_TERMINATED"
      using top(3) by simp
    then have "joins {} w t s"
      using a w1(5,6) top(3) by (cases "s = t") (auto simp: joins_def)
    then show False
      using links_okD(1) [OF rt_okD(5) [OF ok]] top(3) by auto
  qed
  obtain w2 where w2: "ABTI_ythread_resume_and_push t w1 = Some w2" "rt_ok B {} {} (S(x := q # r)) (\<lambda>p. L p + leak t w w1 p) w2"
    "rt_assoc w2 = rt_assoc w1" "\<forall>s. s \<noteq> t \<longrightarrow> st w2 s = st w1 s"
    using resume_and_push_ok [OF w1(2,4) _ subset_refl nj] by blast
  obtain u where u: "rt_unit w1 t = Some u" "wu_state u = ABT_THREAD_STATE_BLOCKED"
    using live [OF w1(4)] by blast
  have rs: "st w2 t = Some ABT_THREAD_STATE_READY"
    using w2(1) u by (cases "pool_of w1 t") (auto simp: ABTI_ythread_resume_and_push_def ABTI_pool_add_thread_def set_state_def
        upd_put ABTI_pool_dec_num_blocked_def ABTI_pool_push_def st_def put_unit)
  have "blocked_in {} w2 p = blocked_in {} w p" for p
  proof -
    have "(st w2 s = Some ABT_THREAD_STATE_BLOCKED \<and> pool_of w2 s = Some p) =
      (st w s = Some ABT_THREAD_STATE_BLOCKED \<and> pool_of w s = Some p)" for s
      using rs top(3) w1(3,5) w2(3,4) by (cases "s = t") (auto simp: same_but_def)
    then show ?thesis
      by (simp add: blocked_in_def)
  qed
  then have "rt_blocked w2 p = rt_blocked w p + one (pool_of w t) p - one (pool_of w1 t) p" for p
    using rt_okD(4) [OF ok] rt_okD(4) [OF w2(2)] by (simp add: counts_ok_def leak_def)
  moreover have "ABTI_ythread_suspend E x t w = Some w1"
    using w1(1) unfolding ABTI_ythread_suspend_def to_parent(1) [OF ok S] .
  ultimately show ?thesis
    using w2(1) rs u by (auto simp: ABT_thread_get_state_def query_def)
qed

section \<open>Cancelling\<close>

lemma cancelled_ends:
  assumes ok: "rt_ok B {} {} S L w" and t: "idle_ready w t" and E: "fresh_env B E w"
    and c: "ABTI_THREAD_REQ_CANCEL \<in> req w t"
  shows "\<exists>w'. ABTI_ythread_schedule body E x t w = Some w' \<and> schedule_enter E x t w = Some w' \<and>
    rt_ok B {} {} S L w' \<and> ended t w'"
proof -
  obtain h w1 where w1: "ABTI_thread_handle_request E t True w = Some (h, w1)"
    and k: "if h = ABTI_THREAD_HANDLE_REQUEST_CANCELLED then True \<and> rt_ok B ({t} - {t}) {} S L w1 \<and> ended t w1
      else rt_ok B {t} {} S L w1 \<and> st w1 = st w \<and> par w1 = par w \<and> lnk w1 = lnk w"
    using handle_request_ok [OF take_idle [OF ok t] _ _ E, of t True] by blast
  obtain u where "rt_unit w t = Some u" "ABTI_THREAD_REQ_CANCEL \<in> wu_request u"
    using c by (auto simp: req_def split: option.splits)
  then have "h = ABTI_THREAD_HANDLE_REQUEST_CANCELLED"
    using w1 by (cases "ABTI_thread_handle_request_cancel t w") (auto simp: ABTI_thread_handle_request_def)
  then show ?thesis
    using w1 k by (simp add: ABTI_ythread_schedule_def schedule_enter_def)
qed

section \<open>Two defects\<close>

text \<open>
  \<^verbatim>\<open>ABTI_ythread_suspend_to\<close> does not set its target running, unlike the other switches: the
  work unit that runs then says that it is READY.
\<close>

lemma suspend_to_ready:
  assumes "ABTI_ythread_suspend_to E x self n w = Some w'" "st w n = Some ABT_THREAD_STATE_READY" "n \<noteq> self" "rt_unit w self \<noteq> None"
    "\<not> mig_pending w self"
  shows "rt_thread w' x = n \<and> st w' n = Some ABT_THREAD_STATE_READY"
proof -
  have n: "rt_unit w n \<noteq> None"
    using live [OF assms(2)] by auto
  let ?w = "entered x n (par w self) w"
  have cb: "ABTI_ythread_callback_suspend E self ?w = Some w'"
    using assms(1) to_sibling(1) [OF assms(4) n] by (simp add: ABTI_ythread_suspend_to_def)
  then obtain p where p: "pool_of ?w self = Some p" "rt_unit ?w self \<noteq> None"
    by (cases "rt_unit ?w self"; cases "pool_of ?w self") (simp_all add: ABTI_ythread_callback_suspend_def)
  then have "Option.bind (ABTI_thread_handle_request E self False (ABTI_pool_inc_num_blocked p ?w))
    (\<lambda>(_, w1). set_state ABT_THREAD_STATE_BLOCKED self w1) = Some w'"
    using cb by (auto simp: ABTI_ythread_callback_suspend_def)
  from handle_then_state [OF this] obtain h w1 where
    w1: "ABTI_thread_handle_request E self False (ABTI_pool_inc_num_blocked p ?w) = Some (h, w1)"
      "set_state ABT_THREAD_STATE_BLOCKED self w1 = Some w'"
    by blast
  have "\<not> mig_pending ?w self"
    using assms(5) by (simp add: mig_pending_def entered_views)
  then have "\<not> mig_pending (ABTI_pool_inc_num_blocked p ?w) self"
    by (simp add: mig_pending_simps)
  from handle_calm [OF this w1(1)] have "set_state ABT_THREAD_STATE_BLOCKED self (ABTI_pool_inc_num_blocked p ?w) = Some w'"
    using w1(2) by simp
  then have "rt_thread w' = rt_thread ?w" "st w' n = st ?w n"
    using assms(3) by (auto simp: set_state_def upd_put ABTI_pool_inc_num_blocked_def st_def put_unit split: if_splits)
  then show ?thesis
    using assms(2) by (simp add: entered_views)
qed

text \<open>A stream is taken only if all its pools are the pool the work unit is in already.\<close>

lemma migrate_loop_na:
  assumes "\<forall>(x, running, s) \<in> set xs. \<exists>p \<in> set (sc_pools s). p \<noteq> pool_of w t"
  shows "migrate_loop E t u xs w = Some (ABT_ERR_MIGRATION_NA, w)"
  using assms by (induction xs) (auto simp: list_all_iff)

text \<open>A failed creation among many leaves in the array what the variable held before.\<close>

lemma create_many_junk:
  "create_many As Es ps fs args attr True junk w = Some (err, ts, w') \<Longrightarrow> err \<noteq> ABT_SUCCESS \<Longrightarrow> err \<noteq> ABT_ERR_INV_POOL \<Longrightarrow>
    ts \<noteq> [] \<and> last ts = junk"
proof (induction As Es ps fs args attr "True" junk w arbitrary: err ts w' rule: create_many.induct)
  case (3 A As E Es p ps f fs arg args attr junk w)
  obtain r w1 where c: "ythread_create A E (Some p) f arg attr (named_type True) False THREAD_POOL_OP_PUSH w = Some (r, w1)"
    using "3.prems"(1) by (cases "ythread_create A E (Some p) f arg attr (named_type True) False THREAD_POOL_OP_PUSH w") auto
  show ?case
  proof (cases r)
    case (Inl e)
    then show ?thesis
      using "3.prems"(1) c by auto
  next
    case (Inr t)
    then obtain ts1 where "create_many As Es ps fs args attr True junk w1 = Some (err, ts1, w')" "ts = t # ts1"
      using "3.prems"(1) c by (cases "create_many As Es ps fs args attr True junk w1") auto
    then show ?thesis
      using "3.hyps" [OF c refl Inr] "3.prems"(2,3) by simp
  qed
qed simp_all

end
