(* ===== verification/Atoi.thy ===== *)
theory Atoi
  imports Prelude "HOL-Library.Char_ord"
begin

unbundle bit_operations_syntax

text \<open>
  Reading integers from strings (\<^verbatim>\<open>argobots_framework/src/util/atoi.c\<close>), used for the environment
  variables. A C string is the list of the characters before its NUL; the machine integers keep
  their widths, and a size is 64 bits wide.

  The loop with its flags and overflow tests is shown equal to a reference definition: white
  space, signs, digits, and the value clamped to the range of the type.
\<close>

section \<open>The code\<close>

abbreviation UINT64_MAX :: "64 word" where "UINT64_MAX \<equiv> - 1"

abbreviation UINT32_MAX :: "32 word" where "UINT32_MAX \<equiv> - 1"

definition is_space :: "char \<Rightarrow> bool" where
  "is_space c \<longleftrightarrow> c = CHR 0x0A \<or> c = CHR 0x09 \<or> c = CHR 0x20 \<or> c = CHR 0x0D"

definition is_digit :: "char \<Rightarrow> bool" where
  "is_digit c \<longleftrightarrow> of_char CHR ''0'' \<le> (of_char c :: nat) \<and> (of_char c :: nat) \<le> of_char CHR ''9''"

definition digit :: "char \<Rightarrow> nat" where
  "digit c = of_char c - of_char CHR ''0''"

text \<open>Either an error, or whether there was a minus, the magnitude and whether it overflowed.\<close>

fun atoi_loop ::
    "string \<Rightarrow> bool \<Rightarrow> bool \<Rightarrow> bool \<Rightarrow> 64 word \<Rightarrow> abt_errno + bool \<times> 64 word \<times> bool" where
  "atoi_loop [] is_signed read_char read_digit val =
     (if \<not> read_digit then Inl ABT_ERR_INV_ARG else Inr (is_signed, val, False))"
| "atoi_loop (c # str) is_signed read_char read_digit val =
     (if is_space c \<and> \<not> read_char then atoi_loop str is_signed read_char read_digit val
      else if c = CHR ''+'' \<and> \<not> read_digit then atoi_loop str is_signed True read_digit val
      else if c = CHR ''-'' \<and> \<not> read_digit then atoi_loop str (\<not> is_signed) True read_digit val
      else if is_digit c then
        (if val > UINT64_MAX div 10 \<or> val * 10 > UINT64_MAX - of_nat (digit c)
         then Inr (is_signed, UINT64_MAX, True)
         else atoi_loop str is_signed True True (val * 10 + of_nat (digit c)))
      else if \<not> read_digit then Inl ABT_ERR_INV_ARG
      else Inr (is_signed, val, False))"

definition atoi_impl :: "string \<Rightarrow> abt_errno + bool \<times> 64 word \<times> bool" where
  "atoi_impl str = atoi_loop str False False False 0"

text \<open>The value and the overflow flag, unless there is no number.\<close>

definition ABTU_atoi :: "string \<Rightarrow> abt_errno + 32 word \<times> bool" where
  "ABTU_atoi str =
     (case atoi_impl str of
        Inl err \<Rightarrow> Inl err
      | Inr (is_signed, val, overflow) \<Rightarrow> Inr
          (if is_signed then
             (if val > 2147483648 then (- 2147483648, True) else (- ucast val, overflow))
           else
             (if val > 2147483647 then (2147483647, True) else (ucast val, overflow))))"

definition ABTU_atoui32 :: "string \<Rightarrow> abt_errno + 32 word \<times> bool" where
  "ABTU_atoui32 str =
     (case atoi_impl str of
        Inl err \<Rightarrow> Inl err
      | Inr (is_signed, val, overflow) \<Rightarrow> Inr
          (if is_signed then (0, if val \<noteq> 0 then True else overflow)
           else
             (if val > ucast UINT32_MAX then (UINT32_MAX, True) else (ucast val, overflow))))"

definition ABTU_atoui64 :: "string \<Rightarrow> abt_errno + 64 word \<times> bool" where
  "ABTU_atoui64 str =
     (case atoi_impl str of
        Inl err \<Rightarrow> Inl err
      | Inr (is_signed, val, overflow) \<Rightarrow> Inr
          (if is_signed then (0, if val \<noteq> 0 then True else overflow) else (val, overflow)))"

definition ABTU_atosz :: "string \<Rightarrow> abt_errno + 64 word \<times> bool" where
  "ABTU_atosz str =
     (case ABTU_atoui64 str of
        Inl err \<Rightarrow> Inl err
      | Inr (val, overflow) \<Rightarrow> Inr (val, overflow))"

section \<open>The reference\<close>

definition digits_value :: "nat \<Rightarrow> string \<Rightarrow> nat" where
  "digits_value = foldl (\<lambda>n c. n * 10 + digit c)"

definition is_sign :: "char \<Rightarrow> bool" where
  "is_sign c \<longleftrightarrow> c = CHR ''+'' \<or> c = CHR ''-''"

text \<open>Blanks, any number of signs, digits; an odd number of minus signs negates.\<close>

definition parse_int :: "string \<Rightarrow> int option" where
  "parse_int str =
     (let s1 = dropWhile is_space str;
          signs = takeWhile is_sign s1;
          ds = takeWhile is_digit (dropWhile is_sign s1);
          n = int (digits_value 0 ds)
      in if ds = [] then None else Some (if odd (count_list signs CHR ''-'') then - n else n))"

text \<open>The nearest value of a range, and whether it differs.\<close>

definition clamp :: "int \<Rightarrow> int \<Rightarrow> int \<Rightarrow> int \<times> bool" where
  "clamp lo hi v = (max lo (min hi v), v < lo \<or> hi < v)"

section \<open>The loop\<close>

lemma digit_bounds: "is_digit c \<Longrightarrow> digit c < 10"
  unfolding is_digit_def digit_def by (simp, linarith)

lemma char_classes:
  "is_digit c \<Longrightarrow> \<not> is_sign c" "is_digit c \<Longrightarrow> \<not> is_space c" "is_sign c \<Longrightarrow> \<not> is_space c"
  by (auto simp: is_digit_def is_sign_def is_space_def)

lemma digits_mono: "n \<le> digits_value n ds"
proof (induction ds arbitrary: n)
  case (Cons c ds)
  have "n \<le> n * 10 + digit c"
    by simp
  also have "\<dots> \<le> digits_value (n * 10 + digit c) ds"
    by (rule Cons.IH)
  finally show ?case
    by (simp add: digits_value_def)
qed (simp add: digits_value_def)

text \<open>The test before a digit is added is exact.\<close>

lemma overflow_test:
  assumes "n < 2 ^ 64" "d < 10"
  shows "(of_nat n :: 64 word) > UINT64_MAX div 10 \<or> of_nat n * 10 > UINT64_MAX - of_nat d \<longleftrightarrow> 2 ^ 64 \<le> n * 10 + d"
proof -
  have n: "unat (of_nat n :: 64 word) = n" "unat (of_nat d :: 64 word) = d"
    using assms by (simp_all add: unat_of_nat)
  have max: "unat UINT64_MAX = 2 ^ 64 - 1"
    by (simp add: unsigned_minus_1_eq_mask mask_eq_exp_minus_1)
  have q: "unat (UINT64_MAX div 10) = (2 ^ 64 - 1) div 10"
    by (simp add: unat_div_distrib max)
  have le: "of_nat d \<le> UINT64_MAX"
    by simp
  have r: "unat (UINT64_MAX - of_nat d) = 2 ^ 64 - 1 - d"
    unfolding unat_sub [OF le] n max ..
  show ?thesis
  proof (cases "n > (2 ^ 64 - 1) div 10")
    case True
    then show ?thesis
      using n q by (simp add: word_less_nat_alt)
  next
    case False
    then have "n * 10 < 2 ^ 64"
      by simp
    then have "unat (of_nat n * 10 :: 64 word) = n * 10"
      using n by (simp add: unat_word_ariths)
    then show ?thesis
      using False n q r assms(2) by (simp add: word_less_nat_alt) linarith
  qed
qed

lemma loop_digits:
  "n < 2 ^ 64 \<Longrightarrow> atoi_loop str neg True True (of_nat n) = Inr
    (if digits_value n (takeWhile is_digit str) < 2 ^ 64
     then (neg, of_nat (digits_value n (takeWhile is_digit str)), False) else (neg, UINT64_MAX, True))"
proof (induction str arbitrary: n)
  case Nil
  then show ?case
    by (simp add: digits_value_def)
next
  case (Cons c str)
  show ?case
  proof (cases "is_digit c")
    case True
    let ?m = "n * 10 + digit c"
    have step: "digits_value n (takeWhile is_digit (c # str)) = digits_value ?m (takeWhile is_digit str)"
      using True by (simp add: digits_value_def)
    have test: "(of_nat n :: 64 word) > UINT64_MAX div 10 \<or> of_nat n * 10 > UINT64_MAX - of_nat (digit c)
        \<longleftrightarrow> 2 ^ 64 \<le> ?m"
      by (rule overflow_test [OF Cons.prems digit_bounds [OF True]])
    show ?thesis
    proof (cases "2 ^ 64 \<le> ?m")
      case over: True
      then have "\<not> digits_value ?m (takeWhile is_digit str) < 2 ^ 64"
        using digits_mono [of ?m "takeWhile is_digit str"] by linarith
      then show ?thesis
        unfolding step using True test over by simp
    next
      case False
      have cast: "of_nat n * 10 + of_nat (digit c) = (of_nat ?m :: 64 word)"
        by simp
      have "atoi_loop (c # str) neg True True (of_nat n) = atoi_loop str neg True True (of_nat ?m)"
        using True test False unfolding cast [symmetric] by simp
      then show ?thesis
        unfolding step using Cons.IH [of ?m] False by simp
    qed
  next
    case False
    then show ?thesis
      using Cons.prems by (simp add: digits_value_def)
  qed
qed

text \<open>Before the first digit: a sign flips or keeps, anything else than a digit is an error.\<close>

definition number :: "bool \<Rightarrow> string \<Rightarrow> abt_errno + bool \<times> 64 word \<times> bool" where
  "number neg ds =
     (if ds = [] then Inl ABT_ERR_INV_ARG
      else Inr (if digits_value 0 ds < 2 ^ 64 then (neg, of_nat (digits_value 0 ds), False) else (neg, UINT64_MAX, True)))"

lemma loop_first_digit:
  assumes "\<And>c cs. str = c # cs \<Longrightarrow> \<not> is_sign c \<and> (is_space c \<longrightarrow> rc)"
  shows "atoi_loop str neg rc False 0 = number neg (takeWhile is_digit str)"
proof (cases str)
  case Nil
  then show ?thesis
    by (simp add: number_def)
next
  case (Cons c cs)
  then have c: "c \<noteq> CHR ''+''" "c \<noteq> CHR ''-''" "is_space c \<longrightarrow> rc"
    using assms by (auto simp: is_sign_def)
  show ?thesis
  proof (cases "is_digit c")
    case True
    let ?m = "digit c"
    have d: "?m < 2 ^ 64"
      using digit_bounds [OF True] by simp
    have "\<not> (0 > UINT64_MAX div 10 \<or> 0 * 10 > UINT64_MAX - of_nat ?m)"
      using overflow_test [of 0 ?m] digit_bounds [OF True] by simp
    then have "atoi_loop str neg rc False 0 = atoi_loop cs neg True True (of_nat ?m)"
      using Cons c(1,2) True char_classes(2) [OF True] by simp
    moreover have "digits_value 0 (takeWhile is_digit str) = digits_value ?m (takeWhile is_digit cs)"
      using Cons True by (simp add: digits_value_def)
    ultimately show ?thesis
      using loop_digits [OF d, of cs neg] Cons True by (simp add: number_def)
  next
    case False
    then show ?thesis
      using Cons c by (cases rc) (auto simp: number_def)
  qed
qed

lemma loop_signs:
  "rc \<or> (\<forall>c cs. str = c # cs \<longrightarrow> \<not> is_space c) \<Longrightarrow> atoi_loop str neg rc False 0 =
    number (neg \<noteq> odd (count_list (takeWhile is_sign str) CHR ''-'')) (takeWhile is_digit (dropWhile is_sign str))"
proof (induction str arbitrary: neg rc)
  case Nil
  then show ?case
    by (simp add: number_def)
next
  case (Cons c cs)
  show ?case
  proof (cases "is_sign c")
    case True
    then have "\<not> is_space c" "c = CHR ''+'' \<or> c = CHR ''-''"
      using char_classes by (auto simp: is_sign_def)
    then show ?thesis
      using True Cons.IH [of True] by (elim disjE) (cases neg; simp)+
  next
    case False
    then show ?thesis
      using loop_first_digit [of "c # cs" rc neg] Cons.prems by auto
  qed
qed

lemma loop_spaces:
  "atoi_loop str False False False 0 = atoi_loop (dropWhile is_space str) False False False 0"
  by (induction str) auto

lemma atoi_impl_eq:
  "atoi_impl str =
    (let s1 = dropWhile is_space str
     in number (odd (count_list (takeWhile is_sign s1) CHR ''-'')) (takeWhile is_digit (dropWhile is_sign s1)))"
proof -
  have "\<forall>c cs. dropWhile is_space str = c # cs \<longrightarrow> \<not> is_space c"
    by (metis hd_dropWhile list.discI list.sel(1))
  then show ?thesis
    unfolding atoi_impl_def Let_def loop_spaces [of str]
    using loop_signs [of False "dropWhile is_space str" False] by simp
qed

text \<open>With the magnitude of \<open>parse_int\<close>: exact, or the overflow value.\<close>

lemma atoi_impl_cases:
  "atoi_impl str = Inl ABT_ERR_INV_ARG \<and> parse_int str = None \<or>
   (\<exists>neg n. parse_int str = Some (if neg then - int n else int n) \<and>
      atoi_impl str = Inr (neg, if n < 2 ^ 64 then of_nat n else UINT64_MAX, 2 ^ 64 \<le> n))"
proof -
  define ds where "ds = takeWhile is_digit (dropWhile is_sign (dropWhile is_space str))"
  define neg where "neg = odd (count_list (takeWhile is_sign (dropWhile is_space str)) CHR ''-'')"
  have a: "atoi_impl str = number neg ds"
    by (simp add: atoi_impl_eq Let_def ds_def neg_def)
  have p: "parse_int str = (if ds = [] then None
      else Some (if neg then - int (digits_value 0 ds) else int (digits_value 0 ds)))"
    by (simp add: parse_int_def Let_def ds_def neg_def)
  show ?thesis
  proof (cases "ds = []")
    case False
    then show ?thesis
      using a p by (intro disjI2 exI [of _ neg] exI [of _ "digits_value 0 ds"]) (simp add: number_def)
  qed (use a p in \<open>simp add: number_def\<close>)
qed

section \<open>The conversions\<close>

lemma atoui64_parses:
  "map_sum id (\<lambda>(v, over). (uint v, over)) (ABTU_atoui64 str) =
    (case parse_int str of None \<Rightarrow> Inl ABT_ERR_INV_ARG | Some v \<Rightarrow> Inr (clamp 0 (2 ^ 64 - 1) v))"
  using atoi_impl_cases [of str]
proof (elim disjE exE conjE)
  fix neg n
  assume n: "parse_int str = Some (if neg then - int n else int n)"
    "atoi_impl str = Inr (neg, if n < 2 ^ 64 then of_nat n else UINT64_MAX, 2 ^ 64 \<le> n)"
  show ?thesis
  proof (cases "n < 2 ^ 64")
    case True
    then have "uint (of_nat n :: 64 word) = int n"
      by (simp add: uint_nat unat_of_nat)
    moreover have "(of_nat n :: 64 word) = 0 \<longleftrightarrow> n = 0"
      using calculation by (simp add: word_uint_eq_iff)
    ultimately show ?thesis
      using n True by (simp add: ABTU_atoui64_def clamp_def; linarith)
  next
    case False
    moreover have "uint UINT64_MAX = 2 ^ 64 - 1"
      by (simp add: unsigned_minus_1_eq_mask mask_eq_exp_minus_1)
    ultimately show ?thesis
      using n by (simp add: ABTU_atoui64_def clamp_def; linarith)
  qed
qed (simp add: ABTU_atoui64_def)

lemma atosz_parses:
  "map_sum id (\<lambda>(v, over). (uint v, over)) (ABTU_atosz str) =
    (case parse_int str of None \<Rightarrow> Inl ABT_ERR_INV_ARG | Some v \<Rightarrow> Inr (clamp 0 (2 ^ 64 - 1) v))"
proof -
  have "ABTU_atosz str = ABTU_atoui64 str"
    by (simp add: ABTU_atosz_def split: sum.split)
  then show ?thesis
    by (simp add: atoui64_parses)
qed

text \<open>The magnitude as a number: capped at the largest 64-bit value.\<close>

lemma magnitude:
  assumes "v = (if n < 2 ^ 64 then of_nat n else UINT64_MAX)"
  shows "uint v = min (int n) 18446744073709551615"
proof (cases "n < 2 ^ 64")
  case True
  then have "uint v = int n"
    using assms by (simp add: uint_nat unat_of_nat)
  moreover have "int n < 18446744073709551616"
    using True by simp
  ultimately show ?thesis
    by (simp add: min_def)
next
  case False
  moreover from this have "uint v = 18446744073709551615"
    using assms by (simp add: unsigned_minus_1_eq_mask mask_eq_exp_minus_1)
  moreover have "18446744073709551616 \<le> int n"
    using False by simp
  ultimately show ?thesis
    by (simp add: min_def)
qed

lemma magnitude_zero: "uint v = min (int n) 18446744073709551615 \<Longrightarrow> (v :: 64 word) = 0 \<longleftrightarrow> n = 0"
  unfolding word_uint_eq_iff by (simp add: min_def)

lemma magnitude_less:
  assumes "uint v = min (int n) 18446744073709551615" "uint w < 18446744073709551615"
  shows "(w :: 64 word) < v \<longleftrightarrow> uint w < int n"
  unfolding word_less_def assms(1) using assms(2) by linarith

lemma magnitude_cast:
  assumes "uint v = min (int n) 18446744073709551615" "int n < 4294967296"
  shows "uint (ucast (v :: 64 word) :: 32 word) = int n"
proof -
  have "uint v = int n"
    using assms by linarith
  then show ?thesis
    using assms(2) by (simp add: unsigned_ucast_eq take_bit_int_eq_self)
qed

lemma uint32_max: "uint (ucast UINT32_MAX :: 64 word) = 4294967295" "uint UINT32_MAX = 4294967295"
  by (simp_all add: unsigned_minus_1_eq_mask mask_eq_exp_minus_1 unsigned_ucast_eq)

lemma sint_of_int32:
  assumes "- 2147483648 \<le> k" "k < 2147483648"
  shows "sint (word_of_int k :: 32 word) = k"
proof -
  have "sint (word_of_int k :: 32 word) = signed_take_bit 31 k"
    by (simp add: sint_sbintrunc')
  also have "\<dots> = k"
    by (rule signed_take_bit_int_eq_self) (use assms in simp_all)
  finally show ?thesis .
qed

lemma atoui32_parses:
  "map_sum id (\<lambda>(v, over). (uint v, over)) (ABTU_atoui32 str) =
    (case parse_int str of None \<Rightarrow> Inl ABT_ERR_INV_ARG | Some v \<Rightarrow> Inr (clamp 0 4294967295 v))"
  using atoi_impl_cases [of str]
proof (elim disjE exE conjE)
  fix neg n
  assume n: "parse_int str = Some (if neg then - int n else int n)"
    "atoi_impl str = Inr (neg, if n < 2 ^ 64 then of_nat n else UINT64_MAX, 2 ^ 64 \<le> n)"
  define v :: "64 word" where "v = (if n < 2 ^ 64 then of_nat n else UINT64_MAX)"
  note u = magnitude [OF v_def]
  have big: "v > ucast UINT32_MAX \<longleftrightarrow> int n > 4294967295"
    using magnitude_less [OF u, of "ucast UINT32_MAX"] unfolding uint32_max by simp
  have code: "ABTU_atoui32 str = Inr (if neg then (0, if n \<noteq> 0 then True else 2 ^ 64 \<le> n)
      else if int n > 4294967295 then (UINT32_MAX, True) else (ucast v, 2 ^ 64 \<le> n))"
    unfolding ABTU_atoui32_def n(2) v_def [symmetric] by (simp only: sum.case prod.case magnitude_zero [OF u] big)
  have cast: "uint (ucast v :: 32 word) = int n" if "\<not> int n > 4294967295"
    using magnitude_cast [OF u] that by linarith
  consider "neg" | "\<not> neg" "int n > 4294967295" | "\<not> neg" "\<not> int n > 4294967295"
    by blast
  then show ?thesis
  proof cases
    case 3
    then show ?thesis
      unfolding code n(1) using cast by (simp add: clamp_def)
  qed (unfold code n(1), simp_all add: clamp_def uint32_max)
qed (simp add: ABTU_atoui32_def)

lemma atoi_parses:
  "map_sum id (\<lambda>(v, over). (sint v, over)) (ABTU_atoi str) =
    (case parse_int str of None \<Rightarrow> Inl ABT_ERR_INV_ARG | Some v \<Rightarrow> Inr (clamp (- 2147483648) 2147483647 v))"
  using atoi_impl_cases [of str]
proof (elim disjE exE conjE)
  fix neg n
  assume n: "parse_int str = Some (if neg then - int n else int n)"
    "atoi_impl str = Inr (neg, if n < 2 ^ 64 then of_nat n else UINT64_MAX, 2 ^ 64 \<le> n)"
  define v :: "64 word" where "v = (if n < 2 ^ 64 then of_nat n else UINT64_MAX)"
  note u = magnitude [OF v_def]
  have big: "v > 2147483648 \<longleftrightarrow> int n > 2147483648" "v > 2147483647 \<longleftrightarrow> int n > 2147483647"
    using magnitude_less [OF u, of 2147483648] magnitude_less [OF u, of 2147483647] by simp_all
  have code: "ABTU_atoi str = Inr
      (if neg then (if int n > 2147483648 then (- 2147483648, True) else (- ucast v, 2 ^ 64 \<le> n))
       else (if int n > 2147483647 then (2147483647, True) else (ucast v, 2 ^ 64 \<le> n)))"
    unfolding ABTU_atoi_def n(2) v_def [symmetric] by (simp only: sum.case prod.case big)
  have w: "(ucast v :: 32 word) = word_of_int (int n)" if "int n \<le> 2147483648"
  proof -
    have "uint (ucast v :: 32 word) = int n"
      using magnitude_cast [OF u] that by linarith
    then show ?thesis
      by (metis word_of_int_uint)
  qed
  have neg: "sint (- ucast v :: 32 word) = - int n" if "\<not> int n > 2147483648"
  proof -
    have *: "- (ucast v :: 32 word) = word_of_int (- int n)"
      using w that by simp
    show ?thesis
      unfolding * by (rule sint_of_int32) (use that in linarith)+
  qed
  have pos: "sint (ucast v :: 32 word) = int n" if "\<not> int n > 2147483647"
  proof -
    have *: "(ucast v :: 32 word) = word_of_int (int n)"
      using w that by simp
    show ?thesis
      unfolding * by (rule sint_of_int32) (use that in linarith)+
  qed
  have ends: "sint (- 2147483648 :: 32 word) = - 2147483648" "sint (2147483647 :: 32 word) = 2147483647"
    by simp_all
  consider "neg" "int n > 2147483648" | "neg" "\<not> int n > 2147483648"
    | "\<not> neg" "int n > 2147483647" | "\<not> neg" "\<not> int n > 2147483647"
    by blast
  then show ?thesis
  proof cases
    case 1
    then show ?thesis
      unfolding code n(1) using ends(1) by (simp add: clamp_def)
  next
    case 2
    then have "\<not> 2 ^ 64 \<le> n"
      by simp
    then show ?thesis
      unfolding code n(1) using 2 neg by (simp add: clamp_def)
  next
    case 3
    then show ?thesis
      unfolding code n(1) using ends(2) by (simp add: clamp_def)
  next
    case 4
    then have "\<not> 2 ^ 64 \<le> n"
      by simp
    then show ?thesis
      unfolding code n(1) using 4 pos by (simp add: clamp_def)
  qed
qed (simp add: ABTU_atoi_def)

end
