(* ===== verification/KeyTable.thy ===== *)
theory KeyTable
  imports Prelude
begin

unbundle bit_operations_syntax

text \<open>
  Work-unit-specific data (\<^verbatim>\<open>argobots_framework/src/key.c\<close>, \<^verbatim>\<open>include/abti_key.h\<close>). Every work unit
  has a table from keys to values, allocated by the first one that sets a key; several threads
  may do so at once. A row of the table is the list of its elements from the head; elements are
  only ever appended. Values are addresses, \<open>0\<close> is NULL. The memory of a table is a list of
  blocks, from the newest, each from a memory pool (\<open>True\<close>) or from \<^verbatim>\<open>malloc\<close>.

  \<open>kt_micro\<close> is one atomic access of \<^verbatim>\<open>ABTI_ktable_set\<close>; \<open>None\<close> is a NULL pointer that is
  dereferenced.
\<close>

section \<open>Tables\<close>

record key =
  key_id :: "32 word"
  key_destructor :: bool

record ktelem =
  ke_destructor :: bool
  ke_id :: "32 word"
  ke_value :: nat

record ktable =
  kt_size :: nat
  kt_lock :: bool
  kt_used_mem :: "bool list"
  kt_extra_mem_size :: nat
  kt_elems :: "ktelem list list"

text \<open>Sizes that depend on the platform: a descriptor, the header of a table, a pointer, an element, the alignment.\<close>

record kt_sizes =
  ks_desc :: nat
  ks_offset :: nat
  ks_ptr :: nat
  ks_elem :: nat
  ks_align :: nat

definition roundup :: "nat \<Rightarrow> nat \<Rightarrow> nat" where
  "roundup val multiple = (val + multiple - 1) div multiple * multiple"

definition ABTI_ktable_create :: "kt_sizes \<Rightarrow> bool \<Rightarrow> nat \<Rightarrow> abt_errno + ktable" where
  "ABTI_ktable_create S mem_ok key_table_size =
     (let ktable_size = roundup (ks_offset S + ks_ptr S * key_table_size) (ks_align S) in
      if \<not> mem_ok then Inl ABT_ERR_MEM
      else Inr \<lparr>kt_size = key_table_size, kt_lock = False, kt_used_mem = [ktable_size \<le> ks_desc S],
        kt_extra_mem_size = (if ktable_size \<le> ks_desc S then ks_desc S - ktable_size else 0),
        kt_elems = replicate key_table_size []\<rparr>)"

definition ABTI_ktable_alloc_elem :: "kt_sizes \<Rightarrow> bool \<Rightarrow> nat \<Rightarrow> ktable \<Rightarrow> abt_errno \<times> ktable" where
  "ABTI_ktable_alloc_elem S mem_ok sz T =
     (if sz \<le> kt_extra_mem_size T then (ABT_SUCCESS, T\<lparr>kt_extra_mem_size := kt_extra_mem_size T - sz\<rparr>)
      else if \<not> mem_ok then (ABT_ERR_MEM, T)
      else if sz \<le> ks_desc S then
        (ABT_SUCCESS, T\<lparr>kt_used_mem := True # kt_used_mem T, kt_extra_mem_size := ks_desc S - sz\<rparr>)
      else (ABT_SUCCESS, T\<lparr>kt_used_mem := False # kt_used_mem T\<rparr>))"

definition ABTI_ktable_get_idx :: "key \<Rightarrow> nat \<Rightarrow> nat" where
  "ABTI_ktable_get_idx k sz = unat (key_id k AND (word_of_nat sz - 1))"

text \<open>The search along a row; it overwrites the value of the key.\<close>

fun set_value :: "32 word \<Rightarrow> nat \<Rightarrow> ktelem list \<Rightarrow> ktelem list option" where
  "set_value kid v [] = None"
| "set_value kid v (e # row) =
     (if ke_id e = kid then Some (e\<lparr>ke_value := v\<rparr> # row) else map_option (Cons e) (set_value kid v row))"

fun get_value :: "32 word \<Rightarrow> ktelem list \<Rightarrow> nat option" where
  "get_value kid [] = None"
| "get_value kid (e # row) = (if ke_id e = kid then Some (ke_value e) else get_value kid row)"

definition set_row :: "nat \<Rightarrow> ktelem list \<Rightarrow> ktable \<Rightarrow> ktable" where
  "set_row i row T = T\<lparr>kt_elems := (kt_elems T)[i := row]\<rparr>"

text \<open>The second half of \<^verbatim>\<open>ABTI_ktable_set_impl\<close>, under the lock: the search goes on after the first \<open>n\<close> elements.\<close>

definition set_locked :: "kt_sizes \<Rightarrow> bool \<Rightarrow> key \<Rightarrow> nat \<Rightarrow> nat \<Rightarrow> ktable \<Rightarrow> abt_errno \<times> ktable" where
  "set_locked S mem_ok k v n T =
     (let i = ABTI_ktable_get_idx k (kt_size T); row = kt_elems T ! i in
      case set_value (key_id k) v (drop n row) of
        Some rest \<Rightarrow> (ABT_SUCCESS, set_row i (take n row @ rest) T)
      | None \<Rightarrow>
          (case ABTI_ktable_alloc_elem S mem_ok (roundup (ks_elem S) (ks_align S)) T of
             (err, T1) \<Rightarrow>
               if err \<noteq> ABT_SUCCESS then (err, T1)
               else (ABT_SUCCESS, set_row i
                 (row @ [\<lparr>ke_destructor = key_destructor k, ke_id = key_id k, ke_value = v\<rparr>]) T1)))"

text \<open>The whole function when nobody else uses the table.\<close>

definition ABTI_ktable_set_impl :: "kt_sizes \<Rightarrow> bool \<Rightarrow> key \<Rightarrow> nat \<Rightarrow> ktable \<Rightarrow> abt_errno \<times> ktable" where
  "ABTI_ktable_set_impl S mem_ok k v T =
     (let i = ABTI_ktable_get_idx k (kt_size T); row = kt_elems T ! i in
      case set_value (key_id k) v row of
        Some row' \<Rightarrow> (ABT_SUCCESS, set_row i row' T)
      | None \<Rightarrow> set_locked S mem_ok k v (length row) T)"

datatype ktable_ptr = KT_NULL | ABTI_KTABLE_LOCKED | KT ktable

definition ABTI_ktable_is_valid :: "ktable_ptr \<Rightarrow> bool" where
  "ABTI_ktable_is_valid p = (case p of KT T \<Rightarrow> True | _ \<Rightarrow> False)"

definition ABTI_ktable_set_unsafe ::
    "kt_sizes \<Rightarrow> bool \<Rightarrow> bool \<Rightarrow> nat \<Rightarrow> key \<Rightarrow> nat \<Rightarrow> ktable option \<Rightarrow> abt_errno \<times> ktable option" where
  "ABTI_ktable_set_unsafe S create_ok elem_ok key_table_size k v p =
     (case (case p of Some T \<Rightarrow> Inr T | None \<Rightarrow> ABTI_ktable_create S create_ok key_table_size) of
        Inl err \<Rightarrow> (err, p)
      | Inr T \<Rightarrow> (case ABTI_ktable_set_impl S elem_ok k v T of (err, T') \<Rightarrow> (err, Some T')))"

definition ABTI_ktable_get :: "ktable_ptr \<Rightarrow> key \<Rightarrow> nat" where
  "ABTI_ktable_get p k =
     (case p of
        KT T \<Rightarrow> (case get_value (key_id k) (kt_elems T ! ABTI_ktable_get_idx k (kt_size T)) of
                   Some v \<Rightarrow> v | None \<Rightarrow> 0)
      | _ \<Rightarrow> 0)"

text \<open>Freeing a table: the values the destructors are called on, in order; then all blocks go.\<close>

definition destructed :: "ktelem list \<Rightarrow> nat list" where
  "destructed row = map ke_value (filter (\<lambda>e. ke_destructor e \<and> ke_value e \<noteq> 0) row)"

definition ABTI_ktable_free :: "ktable \<Rightarrow> nat list" where
  "ABTI_ktable_free T = concat (map destructed (kt_elems T))"

section \<open>Keys\<close>

definition ABTI_KEY_ID_END :: "32 word" where "ABTI_KEY_ID_END = 2"

text \<open>The counter of identifiers is global; a key is its identifier and whether it has a destructor.\<close>

definition ABT_key_create :: "bool \<Rightarrow> bool \<Rightarrow> 32 word \<Rightarrow> (abt_errno + key) \<times> 32 word" where
  "ABT_key_create malloc_ok destructor g_key_id =
     (if \<not> malloc_ok then (Inl ABT_ERR_MEM, g_key_id)
      else (Inr \<lparr>key_id = g_key_id, key_destructor = destructor\<rparr>, g_key_id + 1))"

definition ABT_key_free :: "key option \<Rightarrow> abt_errno \<times> key option" where
  "ABT_key_free k = (case k of None \<Rightarrow> (ABT_ERR_INV_KEY, None) | Some k \<Rightarrow> (ABT_SUCCESS, None))"

definition ABT_key_get :: "bool \<Rightarrow> key option \<Rightarrow> ktable_ptr \<Rightarrow> abt_errno + nat" where
  "ABT_key_get on_xstream key p =
     (case key of
        None \<Rightarrow> Inl ABT_ERR_INV_KEY
      | Some k \<Rightarrow> if \<not> on_xstream then Inl ABT_ERR_INV_XSTREAM else Inr (ABTI_ktable_get p k))"

section \<open>Setting a key while others do\<close>

text \<open>
  Where a caller is: about to load the pointer, to try to take it, to load it again after a
  failed attempt, spinning on it, allocating the table, searching its row, acquiring the lock
  after \<open>n\<close> elements, under the lock, or done.
\<close>

datatype kt_pc =
  KLoad | KCas | KReload | KSpin | KCreate | KSearch ktable_ptr | KAcquire nat | KInsert nat | KDone abt_errno

text \<open>
  \<open>cas_ok\<close>: the weak compare-and-swap does not fail spuriously; \<open>mem_ok\<close>: an allocation of this
  step succeeds. A table has one address, so its state is read at every step.
\<close>

fun kt_micro ::
    "kt_sizes \<Rightarrow> nat \<Rightarrow> bool \<Rightarrow> bool \<Rightarrow> key \<Rightarrow> nat \<Rightarrow> kt_pc \<Rightarrow> ktable_ptr \<Rightarrow> (kt_pc \<times> ktable_ptr) option" where
  "kt_micro S n cas_ok mem_ok k v KLoad p = Some (if ABTI_ktable_is_valid p then KSearch p else KCas, p)"
| "kt_micro S n cas_ok mem_ok k v KCas p =
     (if p = KT_NULL \<and> cas_ok then Some (KCreate, ABTI_KTABLE_LOCKED) else Some (KReload, p))"
| "kt_micro S n cas_ok mem_ok k v KCreate p =
     (case ABTI_ktable_create S mem_ok n of
        Inl err \<Rightarrow> Some (KDone err, KT_NULL)
      | Inr T \<Rightarrow> Some (KSearch (KT T), KT T))"
| "kt_micro S n cas_ok mem_ok k v KReload p =
     Some (if p = KT_NULL then KCas else if p = ABTI_KTABLE_LOCKED then KSpin else KSearch p, p)"
| "kt_micro S n cas_ok mem_ok k v KSpin p = Some (if p = ABTI_KTABLE_LOCKED then KSpin else KSearch p, p)"
| "kt_micro S n cas_ok mem_ok k v (KSearch q) p =
     (case (q, p) of
        (KT _, KT T) \<Rightarrow>
          let i = ABTI_ktable_get_idx k (kt_size T); row = kt_elems T ! i in
          Some (case set_value (key_id k) v row of
                  Some row' \<Rightarrow> (KDone ABT_SUCCESS, KT (set_row i row' T))
                | None \<Rightarrow> (KAcquire (length row), p))
      | _ \<Rightarrow> None)"
| "kt_micro S n cas_ok mem_ok k v (KAcquire m) p =
     (case p of KT T \<Rightarrow> Some (if kt_lock T then (KAcquire m, p) else (KInsert m, KT (T\<lparr>kt_lock := True\<rparr>))) | _ \<Rightarrow> None)"
| "kt_micro S n cas_ok mem_ok k v (KInsert m) p =
     (case p of
        KT T \<Rightarrow> (case set_locked S mem_ok k v m T of (err, T1) \<Rightarrow> Some (KDone err, KT (T1\<lparr>kt_lock := False\<rparr>)))
      | _ \<Rightarrow> None)"
| "kt_micro S n cas_ok mem_ok k v (KDone err) p = Some (KDone err, p)"

text \<open>\<open>call t\<close>: the key and the value thread \<open>t\<close> sets.\<close>

inductive kt_reach ::
    "kt_sizes \<Rightarrow> nat \<Rightarrow> bool \<Rightarrow> (nat \<Rightarrow> key \<times> nat) \<Rightarrow> (nat \<Rightarrow> kt_pc) \<Rightarrow> ktable_ptr \<Rightarrow> bool"
  for S n mem call where
  start: "kt_reach S n mem call (\<lambda>_. KLoad) KT_NULL"
| step: "kt_reach S n mem call pcs p \<Longrightarrow> mem \<longrightarrow> mem_ok \<Longrightarrow>
    kt_micro S n cas_ok mem_ok (fst (call t)) (snd (call t)) (pcs t) p = Some (pc, p') \<Longrightarrow>
    kt_reach S n mem call (pcs(t := pc)) p'"

section \<open>Rows\<close>

lemma set_value_None: "set_value kid v row = None \<longleftrightarrow> kid \<notin> ke_id ` set row"
  by (induction row) auto

lemma get_value_None: "get_value kid row = None \<longleftrightarrow> kid \<notin> ke_id ` set row"
  by (induction row) auto

lemma set_value_Some:
  "set_value kid v row = Some row' \<Longrightarrow> map ke_id row' = map ke_id row \<and>
    (\<forall>j. get_value j row' = (if j = kid then Some v else get_value j row))"
  by (induction row arbitrary: row') (auto split: if_splits)

lemma get_value_append:
  "get_value kid (xs @ ys) = (case get_value kid xs of Some v \<Rightarrow> Some v | None \<Rightarrow> get_value kid ys)"
  by (induction xs) auto

definition row_index :: "nat \<Rightarrow> 32 word \<Rightarrow> nat" where
  "row_index n kid = unat (kid AND (word_of_nat n - 1))"

lemma get_idx_row: "ABTI_ktable_get_idx k n = row_index n (key_id k)"
  by (simp add: ABTI_ktable_get_idx_def row_index_def)

lemma row_index_bound:
  assumes "0 < n" "n < 2 ^ 32"
  shows "row_index n kid < n"
proof -
  have "kid AND (word_of_nat n - 1) \<le> word_of_nat n - (1 :: 32 word)"
    by (rule word_and_le1)
  then have "row_index n kid \<le> unat (word_of_nat n - (1 :: 32 word))"
    unfolding row_index_def by (simp add: word_le_nat_alt)
  also have "\<dots> = n - 1"
  proof -
    have "word_of_nat n - (1 :: 32 word) = word_of_nat (n - 1)"
      using assms(1) by (simp add: of_nat_diff)
    then show ?thesis
      using assms(2) by (simp add: unat_of_nat)
  qed
  finally show ?thesis
    using assms(1) by linarith
qed

section \<open>Tables are maps\<close>

definition look :: "ktable \<Rightarrow> 32 word \<Rightarrow> nat option" where
  "look T kid = get_value kid (kt_elems T ! row_index (kt_size T) kid)"

text \<open>What a successful set of \<open>kid\<close> does: elements are appended to their row or overwritten.\<close>

definition set_effect :: "32 word \<Rightarrow> nat \<Rightarrow> ktable \<Rightarrow> ktable \<Rightarrow> bool" where
  "set_effect kid v T T' \<longleftrightarrow> kt_size T' = kt_size T \<and> length (kt_elems T') = length (kt_elems T) \<and>
     kt_lock T' = kt_lock T \<and> look T' = (look T)(kid \<mapsto> v) \<and>
     (\<forall>i < kt_size T. \<exists>ext. map ke_id (kt_elems T' ! i) = map ke_id (kt_elems T ! i) @ ext)"

definition ktable_ok :: "nat \<Rightarrow> ktable \<Rightarrow> bool" where
  "ktable_ok n T \<longleftrightarrow> kt_size T = n \<and> length (kt_elems T) = n \<and> 0 < n \<and> n < 2 ^ 32"

lemma set_row_effect:
  assumes ok: "ktable_ok n T" and i: "i = row_index n kid"
    and ids: "map ke_id row' = map ke_id (kt_elems T ! i) @ ext"
    and look: "\<forall>j. get_value j row' = (if j = kid then Some v else get_value j (kt_elems T ! i))"
    and same: "kt_elems T1 = kt_elems T" "kt_size T1 = kt_size T" "kt_lock T1 = kt_lock T"
  shows "set_effect kid v T (set_row i row' T1)" "ktable_ok n (set_row i row' T1)"
proof -
  have n: "kt_size T = n" "length (kt_elems T) = n" "i < n"
    using ok row_index_bound i unfolding ktable_ok_def by auto
  have "look (set_row i row' T1) j = ((look T)(kid \<mapsto> v)) j" for j
    using n same i look by (cases "row_index n j = i") (auto simp: look_def set_row_def)
  moreover have "\<exists>e. map ke_id (kt_elems (set_row i row' T1) ! j) = map ke_id (kt_elems T ! j) @ e" if "j < n" for j
    using n same ids that by (cases "j = i") (auto simp: set_row_def)
  ultimately show "set_effect kid v T (set_row i row' T1)"
    using n same by (auto simp: set_effect_def set_row_def fun_eq_iff)
  show "ktable_ok n (set_row i row' T1)"
    using ok same by (simp add: ktable_ok_def set_row_def)
qed

lemma alloc_elem_ok:
  assumes "ABTI_ktable_alloc_elem S mem_ok sz T = (err, T1)"
  shows "kt_elems T1 = kt_elems T" "kt_size T1 = kt_size T" "kt_lock T1 = kt_lock T"
    "err = ABT_SUCCESS \<or> \<not> mem_ok \<and> err = ABT_ERR_MEM \<and> T1 = T"
  using assms by (auto simp: ABTI_ktable_alloc_elem_def split: if_splits)

lemma set_locked_ok:
  assumes ok: "ktable_ok n T" and m: "m \<le> length (kt_elems T ! row_index n (key_id k))"
    and new: "key_id k \<notin> ke_id ` set (take m (kt_elems T ! row_index n (key_id k)))"
    and r: "set_locked S mem_ok k v m T = (err, T1)"
  shows "err = ABT_SUCCESS \<and> set_effect (key_id k) v T T1 \<and> ktable_ok n T1 \<or> \<not> mem_ok \<and> err = ABT_ERR_MEM \<and> T1 = T"
proof -
  let ?i = "row_index n (key_id k)"
  let ?row = "kt_elems T ! ?i"
  have i: "ABTI_ktable_get_idx k (kt_size T) = ?i"
    using ok by (simp add: get_idx_row ktable_ok_def)
  have none: "get_value (key_id k) (take m ?row) = None"
    using new by (simp add: get_value_None)
  show ?thesis
  proof (cases "set_value (key_id k) v (drop m ?row)")
    case (Some rest)
    note s = set_value_Some [OF Some]
    have ids: "map ke_id (take m ?row @ rest) = map ke_id ?row @ []"
      unfolding map_append conjunct1 [OF s] by (simp flip: map_append)
    have look: "get_value j (take m ?row @ rest) = (if j = key_id k then Some v else get_value j ?row)" for j
    proof -
      have "get_value j ?row = (case get_value j (take m ?row) of Some v \<Rightarrow> Some v | None \<Rightarrow> get_value j (drop m ?row))"
        by (subst append_take_drop_id [of m ?row, symmetric]) (rule get_value_append)
      then show ?thesis
        using s none by (simp add: get_value_append split: option.split)
    qed
    have "set_locked S mem_ok k v m T = (ABT_SUCCESS, set_row ?i (take m ?row @ rest) T)"
      using Some i by (simp add: set_locked_def Let_def)
    then show ?thesis
      using r set_row_effect [OF ok refl ids _ refl refl refl] look by auto
  next
    case None
    obtain e T2 where e: "ABTI_ktable_alloc_elem S mem_ok (roundup (ks_elem S) (ks_align S)) T = (e, T2)"
      by (cases "ABTI_ktable_alloc_elem S mem_ok (roundup (ks_elem S) (ks_align S)) T") auto
    note a = alloc_elem_ok [OF e]
    let ?new = "\<lparr>ke_destructor = key_destructor k, ke_id = key_id k, ke_value = v\<rparr>"
    have "key_id k \<notin> ke_id ` set ?row"
      using None new unfolding set_value_None
      by (metis Un_iff append_take_drop_id image_Un set_append)
    then have "get_value (key_id k) ?row = None"
      by (simp add: get_value_None)
    then have look: "get_value j (?row @ [?new]) = (if j = key_id k then Some v else get_value j ?row)" for j
      by (simp add: get_value_append split: option.split)
    have "map ke_id (?row @ [?new]) = map ke_id ?row @ [key_id k]"
      by simp
    from set_row_effect [OF ok refl this _ a(1-3)] look
    have "set_effect (key_id k) v T (set_row ?i (?row @ [?new]) T2)" "ktable_ok n (set_row ?i (?row @ [?new]) T2)"
      by simp_all
    then show ?thesis
      using r None i e a(4) by (auto simp: set_locked_def Let_def split: if_splits)
  qed
qed

lemma create_ok:
  assumes "0 < n" "n < 2 ^ 32" "ABTI_ktable_create S mem_ok n = Inr T"
  shows "ktable_ok n T" "look T = Map.empty" "\<not> kt_lock T"
proof -
  have "row_index n kid < n" for kid
    using row_index_bound [OF assms(1,2)] .
  then show "ktable_ok n T" "look T = Map.empty" "\<not> kt_lock T"
    using assms by (auto simp: ABTI_ktable_create_def Let_def ktable_ok_def look_def fun_eq_iff split: if_splits)
qed

text \<open>Alone, a set is an update of the map, and a get reads it.\<close>

lemma set_impl_ok:
  assumes ok: "ktable_ok n T" and r: "ABTI_ktable_set_impl S mem_ok k v T = (err, T1)"
  shows "err = ABT_SUCCESS \<and> ktable_ok n T1 \<and> look T1 = (look T)(key_id k \<mapsto> v) \<or> \<not> mem_ok \<and> err = ABT_ERR_MEM \<and> T1 = T"
proof -
  let ?i = "row_index n (key_id k)"
  let ?row = "kt_elems T ! ?i"
  have i: "ABTI_ktable_get_idx k (kt_size T) = ?i"
    using ok by (simp add: get_idx_row ktable_ok_def)
  show ?thesis
  proof (cases "set_value (key_id k) v ?row")
    case (Some row')
    note s = set_value_Some [OF Some]
    then have "set_effect (key_id k) v T (set_row ?i row' T)" "ktable_ok n (set_row ?i row' T)"
      using set_row_effect [OF ok refl _ _ refl refl refl, of row' "key_id k" "[]"] by simp_all
    then show ?thesis
      using r Some i by (auto simp: ABTI_ktable_set_impl_def Let_def set_effect_def)
  next
    case None
    then have "set_locked S mem_ok k v (length ?row) T = (err, T1)"
      using r i by (simp add: ABTI_ktable_set_impl_def Let_def)
    then show ?thesis
      using set_locked_ok [OF ok _ _ , of "length ?row" k S mem_ok v err T1] None
      by (auto simp: set_value_None set_effect_def)
  qed
qed

lemma ktable_get_look: "ktable_ok n T \<Longrightarrow> ABTI_ktable_get (KT T) k = (case look T (key_id k) of Some v \<Rightarrow> v | None \<Rightarrow> 0)"
  by (simp add: ABTI_ktable_get_def look_def get_idx_row ktable_ok_def)

section \<open>Any interleaving\<close>

text \<open>What holds of a caller once there is a table.\<close>

fun caller_ok :: "nat \<Rightarrow> key \<Rightarrow> ktable \<Rightarrow> kt_pc \<Rightarrow> bool" where
  "caller_ok n k T KCreate = False"
| "caller_ok n k T (KSearch q) = ABTI_ktable_is_valid q"
| "caller_ok n k T (KAcquire m) = (m \<le> length (kt_elems T ! row_index n (key_id k)) \<and>
     key_id k \<notin> ke_id ` set (take m (kt_elems T ! row_index n (key_id k))))"
| "caller_ok n k T (KInsert m) = (m \<le> length (kt_elems T ! row_index n (key_id k)) \<and>
     key_id k \<notin> ke_id ` set (take m (kt_elems T ! row_index n (key_id k))))"
| "caller_ok n k T (KDone err) = (err = ABT_SUCCESS \<and> look T (key_id k) \<noteq> None)"
| "caller_ok n k T _ = True"

definition locked_by :: "(nat \<Rightarrow> kt_pc) \<Rightarrow> ktable \<Rightarrow> bool" where
  "locked_by pcs T \<longleftrightarrow> (kt_lock T \<longleftrightarrow> (\<exists>t m. pcs t = KInsert m)) \<and>
     (\<forall>t s m m'. pcs t = KInsert m \<longrightarrow> pcs s = KInsert m' \<longrightarrow> t = s)"

definition set_by :: "(nat \<Rightarrow> key \<times> nat) \<Rightarrow> (nat \<Rightarrow> kt_pc) \<Rightarrow> ktable \<Rightarrow> bool" where
  "set_by call pcs T \<longleftrightarrow> (\<forall>i v. look T i = Some v \<longrightarrow>
     (\<exists>s. pcs s = KDone ABT_SUCCESS \<and> key_id (fst (call s)) = i \<and> snd (call s) = v))"

fun kt_inv :: "nat \<Rightarrow> (nat \<Rightarrow> key \<times> nat) \<Rightarrow> (nat \<Rightarrow> kt_pc) \<Rightarrow> ktable_ptr \<Rightarrow> bool" where
  "kt_inv n call pcs KT_NULL = (\<forall>t. pcs t \<in> {KLoad, KCas, KReload})"
| "kt_inv n call pcs ABTI_KTABLE_LOCKED =
     (\<exists>c. pcs c = KCreate \<and> (\<forall>t. t \<noteq> c \<longrightarrow> pcs t \<in> {KLoad, KCas, KReload, KSpin}))"
| "kt_inv n call pcs (KT T) =
     (ktable_ok n T \<and> (\<forall>t. caller_ok n (fst (call t)) T (pcs t)) \<and> locked_by pcs T \<and> set_by call pcs T)"

lemma effect_take:
  assumes "set_effect i v T T'" "j < kt_size T" "m \<le> length (kt_elems T ! j)"
  shows "m \<le> length (kt_elems T' ! j)" "ke_id ` set (take m (kt_elems T' ! j)) = ke_id ` set (take m (kt_elems T ! j))"
proof -
  obtain ext where e: "map ke_id (kt_elems T' ! j) = map ke_id (kt_elems T ! j) @ ext"
    using assms(1,2) unfolding set_effect_def by blast
  have "length (kt_elems T' ! j) = length (kt_elems T ! j) + length ext"
    using arg_cong [OF e, of length] by simp
  then show "m \<le> length (kt_elems T' ! j)"
    using assms(3) by simp
  have "take m (map ke_id (kt_elems T' ! j)) = take m (map ke_id (kt_elems T ! j))"
    unfolding e using assms(3) by simp
  then show "ke_id ` set (take m (kt_elems T' ! j)) = ke_id ` set (take m (kt_elems T ! j))"
    by (metis set_map take_map)
qed

lemma effect_caller:
  assumes ok: "ktable_ok n T" and e: "set_effect i v T T'" and c: "caller_ok n k T pc"
  shows "caller_ok n k T' pc"
proof -
  have j: "row_index n (key_id k) < kt_size T"
    using ok row_index_bound unfolding ktable_ok_def by blast
  have l: "look T' = (look T)(i \<mapsto> v)"
    using e by (simp add: set_effect_def)
  show ?thesis
    using c effect_take [OF e j] l by (cases pc) simp_all
qed

lemma caller_same:
  "caller_ok n k T' pc \<Longrightarrow> kt_size T1 = kt_size T' \<Longrightarrow> kt_elems T1 = kt_elems T' \<Longrightarrow> caller_ok n k T1 pc"
  by (cases pc) (simp_all add: look_def)

text \<open>A thread that is done with its set.\<close>

lemma inv_done:
  assumes inv: "kt_inv n call pcs (KT T)" and e: "set_effect (key_id (fst (call t))) (snd (call t)) T T'"
    and ok: "ktable_ok n T'" and lock: "locked_by (pcs(t := KDone ABT_SUCCESS)) T1"
    and same: "kt_size T1 = kt_size T'" "kt_elems T1 = kt_elems T'" and nd: "\<forall>err. pcs t \<noteq> KDone err"
  shows "kt_inv n call (pcs(t := KDone ABT_SUCCESS)) (KT T1)"
proof -
  have l: "look T1 = (look T)(key_id (fst (call t)) \<mapsto> snd (call t))"
  proof -
    have "look T1 = look T'"
      using same by (simp add: look_def fun_eq_iff)
    then show ?thesis
      using e by (simp add: set_effect_def)
  qed
  have "caller_ok n (fst (call s)) T1 (pcs s)" for s
    using caller_same [OF effect_caller [OF _ e, of n] same] inv by simp
  moreover have "ktable_ok n T1"
    using ok same by (simp add: ktable_ok_def)
  moreover have "set_by call (pcs(t := KDone ABT_SUCCESS)) T1"
    unfolding set_by_def
  proof (intro allI impI)
    fix i v
    assume v: "look T1 i = Some v"
    show "\<exists>s. (pcs(t := KDone ABT_SUCCESS)) s = KDone ABT_SUCCESS \<and> key_id (fst (call s)) = i \<and> snd (call s) = v"
    proof (cases "i = key_id (fst (call t))")
      case True
      then show ?thesis
        using v l by (intro exI [of _ t]) simp
    next
      case False
      then have "look T i = Some v"
        using v l by simp
      moreover have "set_by call pcs T"
        using inv by simp
      ultimately obtain s where "pcs s = KDone ABT_SUCCESS" "key_id (fst (call s)) = i" "snd (call s) = v"
        unfolding set_by_def by blast
      then show ?thesis
        using nd by (intro exI [of _ s]) auto
    qed
  qed
  ultimately show ?thesis
    using lock l by auto
qed

lemma locked_other:
  assumes "locked_by pcs T" "\<forall>m. pcs t \<noteq> KInsert m" "\<forall>m. pc \<noteq> KInsert m" "kt_lock T' = kt_lock T"
  shows "locked_by (pcs(t := pc)) T'"
proof -
  have "(pcs(t := pc)) s = KInsert m \<longleftrightarrow> pcs s = KInsert m" for s m
    using assms(2,3) by (cases "s = t") simp_all
  then show ?thesis
    using assms(1,4) unfolding locked_by_def by simp
qed

text \<open>A step that only moves the caller.\<close>

lemma inv_move:
  assumes inv: "kt_inv n call pcs (KT T)" and "caller_ok n (fst (call t)) T pc"
    and "\<forall>m. pcs t \<noteq> KInsert m" "\<forall>m. pc \<noteq> KInsert m" "\<forall>err. pcs t \<noteq> KDone err"
  shows "kt_inv n call (pcs(t := pc)) (KT T)"
proof -
  have "set_by call (pcs(t := pc)) T"
    using inv assms(5) unfolding kt_inv.simps set_by_def by (metis fun_upd_apply)
  then show ?thesis
    using inv assms(2) locked_other [of pcs T t pc T] assms(3,4) by simp
qed

lemma kt_stay:
  assumes "kt_inv n call pcs p" "pcs t = pc" "step pc p = Some (pc, p)"
  shows "\<exists>pc' p'. step (pcs t) p = Some (pc', p') \<and> kt_inv n call (pcs(t := pc')) p'"
proof -
  have "pcs(t := pc) = pcs"
    using assms(2) by auto
  then have "kt_inv n call (pcs(t := pc)) p"
    using assms(1) by (simp only:)
  then show ?thesis
    using assms(2,3) by blast
qed

lemma kt_step_acquire:
  assumes inv: "kt_inv n call pcs (KT T)" and KAcquire: "pcs t = KAcquire m"
  shows "\<exists>pc p'. kt_micro S n cas_ok True (fst (call t)) (snd (call t)) (pcs t) (KT T) = Some (pc, p') \<and>
    kt_inv n call (pcs(t := pc)) p'"
proof (cases "kt_lock T")
  case True
  then show ?thesis
    by (intro kt_stay [OF inv KAcquire]) simp
next
  case False
  have ok: "ktable_ok n T" and c: "caller_ok n (fst (call s)) T (pcs s)" and lock: "locked_by pcs T"
    and set: "set_by call pcs T" for s
    using inv by auto
  have none: "pcs s \<noteq> KInsert m" for s m
    using lock False unfolding locked_by_def by blast
  let ?T = "T\<lparr>kt_lock := True\<rparr>"
  have look: "look ?T = look T"
    by (simp add: look_def fun_eq_iff)
  have "locked_by (pcs(t := KInsert m)) ?T"
    using none unfolding locked_by_def by auto
  moreover have "set_by call (pcs(t := KInsert m)) ?T"
    unfolding set_by_def look
  proof (intro allI impI)
    fix i v
    assume "look T i = Some v"
    then obtain s where "pcs s = KDone ABT_SUCCESS" "key_id (fst (call s)) = i" "snd (call s) = v"
      using set unfolding set_by_def by blast
    then show "\<exists>s. (pcs(t := KInsert m)) s = KDone ABT_SUCCESS \<and> key_id (fst (call s)) = i \<and> snd (call s) = v"
      using KAcquire by (intro exI [of _ s]) auto
  qed
  moreover have "caller_ok n (fst (call s)) ?T ((pcs(t := KInsert m)) s)" for s
    using caller_same [OF c [of s], of ?T] c [of t] KAcquire by simp
  moreover have "ktable_ok n ?T"
    using ok by (simp add: ktable_ok_def)
  ultimately have "kt_inv n call (pcs(t := KInsert m)) (KT ?T)"
    by simp
  then show ?thesis
    using False KAcquire by simp
qed

lemma kt_step_table:
  assumes inv: "kt_inv n call pcs (KT T)"
  shows "\<exists>pc p'. kt_micro S n cas_ok True (fst (call t)) (snd (call t)) (pcs t) (KT T) = Some (pc, p') \<and>
    kt_inv n call (pcs(t := pc)) p'"
proof -
  let ?k = "fst (call t)" and ?v = "snd (call t)"
  let ?i = "row_index n (key_id ?k)"
  let ?row = "kt_elems T ! ?i"
  have ok: "ktable_ok n T" and c: "caller_ok n ?k T (pcs t)" and lock: "locked_by pcs T"
    using inv by auto
  have i: "ABTI_ktable_get_idx ?k (kt_size T) = ?i"
    using ok by (simp add: get_idx_row ktable_ok_def)
  show ?thesis
  proof (cases "pcs t")
    case KLoad
    then show ?thesis
      using inv_move [OF inv, of t "KSearch (KT T)"] by (simp add: ABTI_ktable_is_valid_def)
  next
    case KCas
    then show ?thesis
      using inv_move [OF inv, of t KReload] by simp
  next
    case KReload
    then show ?thesis
      using inv_move [OF inv, of t "KSearch (KT T)"] by (simp add: ABTI_ktable_is_valid_def)
  next
    case KSpin
    then show ?thesis
      using inv_move [OF inv, of t "KSearch (KT T)"] by (simp add: ABTI_ktable_is_valid_def)
  next
    case KCreate
    then show ?thesis
      using c by simp
  next
    case (KSearch q)
    then obtain T' where q: "q = KT T'"
      using c by (cases q) (simp_all add: ABTI_ktable_is_valid_def)
    show ?thesis
    proof (cases "set_value (key_id ?k) ?v ?row")
      case None
      then have "caller_ok n ?k T (KAcquire (length ?row))"
        by (simp add: set_value_None)
      then show ?thesis
        using inv_move [OF inv, of t "KAcquire (length ?row)"] None KSearch q i by (simp add: Let_def)
    next
      case (Some row')
      note s = set_value_Some [OF Some]
      have "set_effect (key_id ?k) ?v T (set_row ?i row' T)" "ktable_ok n (set_row ?i row' T)"
        using set_row_effect [OF ok refl _ _ refl refl refl, of row' "key_id ?k" "[]" ?v] s by simp_all
      moreover from this have "locked_by (pcs(t := KDone ABT_SUCCESS)) (set_row ?i row' T)"
        using locked_other [OF lock, of t "KDone ABT_SUCCESS"] KSearch by (simp add: set_effect_def)
      ultimately have "kt_inv n call (pcs(t := KDone ABT_SUCCESS)) (KT (set_row ?i row' T))"
        using inv_done [OF inv] KSearch by simp
      then show ?thesis
        using Some KSearch q i by (simp add: Let_def)
    qed
  next
    case (KAcquire m)
    then show ?thesis
      by (rule kt_step_acquire [OF inv])
  next
    case (KInsert m)
    obtain err T1 where r: "set_locked S True ?k ?v m T = (err, T1)"
      by (cases "set_locked S True ?k ?v m T") auto
    have e: "err = ABT_SUCCESS" "set_effect (key_id ?k) ?v T T1" "ktable_ok n T1"
      using set_locked_ok [OF ok _ _ r] c KInsert by auto
    have "\<forall>s m. s \<noteq> t \<longrightarrow> pcs s \<noteq> KInsert m"
      using lock KInsert unfolding locked_by_def by blast
    then have "locked_by (pcs(t := KDone ABT_SUCCESS)) (T1\<lparr>kt_lock := False\<rparr>)"
      unfolding locked_by_def by auto
    then have "kt_inv n call (pcs(t := KDone ABT_SUCCESS)) (KT (T1\<lparr>kt_lock := False\<rparr>))"
      by (intro inv_done [OF inv e(2,3)]) (simp_all add: KInsert)
    then show ?thesis
      using KInsert r e(1) by simp
  next
    case (KDone err)
    then show ?thesis
      by (intro kt_stay [OF inv KDone]) simp
  qed
qed

lemma kt_step_ok:
  assumes n: "0 < n" "n < 2 ^ 32" and inv: "kt_inv n call pcs p"
  shows "\<exists>pc p'. kt_micro S n cas_ok True (fst (call t)) (snd (call t)) (pcs t) p = Some (pc, p') \<and>
    kt_inv n call (pcs(t := pc)) p'"
proof (cases p)
  case KT_NULL
  then have p: "\<forall>t. pcs t \<in> {KLoad, KCas, KReload}"
    using inv by simp
  then consider "pcs t = KLoad" | "pcs t = KCas" | "pcs t = KReload"
    by blast
  then show ?thesis
  proof cases
    case 2
    then show ?thesis
      using KT_NULL p by (cases cas_ok) (auto intro!: exI [of _ t])
  qed (use KT_NULL p in \<open>simp_all add: ABTI_ktable_is_valid_def\<close>)
next
  case ABTI_KTABLE_LOCKED
  then obtain c where c: "pcs c = KCreate" "\<forall>t. t \<noteq> c \<longrightarrow> pcs t \<in> {KLoad, KCas, KReload, KSpin}"
    using inv by auto
  show ?thesis
  proof (cases "t = c")
    case True
    obtain T where T: "ABTI_ktable_create S True n = Inr T"
      by (simp add: ABTI_ktable_create_def Let_def)
    note t = create_ok [OF n T]
    have o: "pcs s \<in> {KLoad, KCas, KReload, KSpin}" if "s \<noteq> t" for s
      using c(2) True that by blast
    have "caller_ok n (fst (call s)) T ((pcs(t := KSearch (KT T))) s)" for s
      using o [of s] by (cases "s = t") (auto simp: ABTI_ktable_is_valid_def)
    moreover have "(pcs(t := KSearch (KT T))) s \<noteq> KInsert m" for s m
      using o [of s] by (cases "s = t") auto
    ultimately have "kt_inv n call (pcs(t := KSearch (KT T))) (KT T)"
      using t by (simp add: locked_by_def set_by_def)
    then show ?thesis
      using ABTI_KTABLE_LOCKED True c(1) T by simp
  next
    case False
    then have "pcs t \<in> {KLoad, KCas, KReload, KSpin}"
      using c(2) by blast
    moreover have "kt_inv n call (pcs(t := pc)) ABTI_KTABLE_LOCKED" if "pc \<in> {KLoad, KCas, KReload, KSpin}" for pc
      using c False that by (auto intro!: exI [of _ c])
    ultimately show ?thesis
      using ABTI_KTABLE_LOCKED by (auto simp: ABTI_ktable_is_valid_def)
  qed
next
  case (KT T)
  then show ?thesis
    using kt_step_table inv by blast
qed

lemma kt_reach_inv:
  assumes "kt_reach S n True call pcs p" "0 < n" "n < 2 ^ 32"
  shows "kt_inv n call pcs p"
  using assms
proof induction
  case start
  then show ?case
    by simp
next
  case (step pcs p mem_ok cas_ok t pc p')
  have m: "mem_ok = True"
    using step.hyps(2) by simp
  obtain pc2 p2 where s: "kt_micro S n cas_ok True (fst (call t)) (snd (call t)) (pcs t) p = Some (pc2, p2)"
    "kt_inv n call (pcs(t := pc2)) p2"
    using kt_step_ok [OF step.prems step.IH [OF step.prems], of S cas_ok t] by blast
  have "pc2 = pc" "p2 = p'"
    using s(1) step.hyps(3) unfolding m by simp_all
  then show ?case
    using s(2) by (simp only:)
qed

text \<open>
  With memory no caller ever dereferences NULL or gives up; when a caller is done, its key has
  a value that some caller set for it.
\<close>

lemma kt_no_failure:
  assumes "kt_reach S n True call pcs p" "0 < n" "n < 2 ^ 32"
  shows "kt_micro S n cas_ok True (fst (call t)) (snd (call t)) (pcs t) p \<noteq> None"
  using kt_step_ok [OF assms(2,3) kt_reach_inv [OF assms], of S cas_ok t] by auto

lemma kt_done_value:
  assumes "kt_reach S n True call pcs p" "0 < n" "n < 2 ^ 32" "pcs t = KDone err"
  shows "err = ABT_SUCCESS \<and> (\<exists>s. pcs s = KDone ABT_SUCCESS \<and> key_id (fst (call s)) = key_id (fst (call t)) \<and>
    ABTI_ktable_get p (fst (call t)) = snd (call s))"
proof -
  note inv = kt_reach_inv [OF assms(1-3)]
  obtain T where p: "p = KT T"
  proof (cases p)
    case KT_NULL
    then have "pcs t \<in> {KLoad, KCas, KReload}"
      using inv by simp
    then show ?thesis
      using assms(4) by simp
  next
    case ABTI_KTABLE_LOCKED
    then obtain c where "pcs c = KCreate" "\<forall>t. t \<noteq> c \<longrightarrow> pcs t \<in> {KLoad, KCas, KReload, KSpin}"
      using inv by auto
    then have "pcs t \<in> {KCreate, KLoad, KCas, KReload, KSpin}"
      by (cases "t = c") auto
    then show ?thesis
      using assms(4) by simp
  qed
  have ok: "ktable_ok n T" and c: "caller_ok n (fst (call t)) T (pcs t)" and set: "set_by call pcs T"
    using inv p by auto
  obtain v where v: "look T (key_id (fst (call t))) = Some v" "err = ABT_SUCCESS"
    using c assms(4) by auto
  then obtain s where "pcs s = KDone ABT_SUCCESS" "key_id (fst (call s)) = key_id (fst (call t))" "snd (call s) = v"
    using set unfolding set_by_def by blast
  then show ?thesis
    using v p ktable_get_look [OF ok, of "fst (call t)"] by auto
qed

text \<open>Without memory a caller that waits for the table of another dereferences NULL.\<close>

definition race :: "nat \<Rightarrow> key \<times> nat" where
  "race t = (\<lparr>key_id = of_nat (t + 2), key_destructor = False\<rparr>, t + 1)"

lemma spin_reads_null:
  "\<exists>pcs. kt_reach S n False race pcs KT_NULL \<and> pcs 0 = KDone ABT_ERR_MEM \<and> pcs 1 = KSearch KT_NULL"
proof -
  note st = kt_reach.step [where mem = False and mem_ok = False and cas_ok = True]
  let ?s0 = "(\<lambda>_ :: nat. KLoad)"
  have "kt_reach S n False race (?s0(0 := KCas)) KT_NULL"
    by (rule st [where t = 0, OF kt_reach.start]) (simp_all add: ABTI_ktable_is_valid_def)
  then have "kt_reach S n False race (?s0(0 := KCas, 0 := KCreate)) ABTI_KTABLE_LOCKED"
    by (rule st [where t = 0]) simp_all
  then have "kt_reach S n False race (?s0(0 := KCas, 0 := KCreate, 1 := KCas)) ABTI_KTABLE_LOCKED"
    by (rule st [where t = 1]) (simp_all add: ABTI_ktable_is_valid_def)
  then have "kt_reach S n False race (?s0(0 := KCas, 0 := KCreate, 1 := KCas, 1 := KReload)) ABTI_KTABLE_LOCKED"
    by (rule st [where t = 1]) simp_all
  then have "kt_reach S n False race (?s0(0 := KCas, 0 := KCreate, 1 := KCas, 1 := KReload, 1 := KSpin)) ABTI_KTABLE_LOCKED"
    by (rule st [where t = 1]) simp_all
  then have "kt_reach S n False race (?s0(0 := KCas, 0 := KCreate, 1 := KCas, 1 := KReload, 1 := KSpin,
      0 := KDone ABT_ERR_MEM)) KT_NULL"
    by (rule st [where t = 0]) (simp_all add: ABTI_ktable_create_def Let_def)
  then have "kt_reach S n False race (?s0(0 := KCas, 0 := KCreate, 1 := KCas, 1 := KReload, 1 := KSpin,
      0 := KDone ABT_ERR_MEM, 1 := KSearch KT_NULL)) KT_NULL"
    by (rule st [where t = 1]) simp_all
  then show ?thesis
    by (rule_tac exI) (erule conjI, simp)
qed

section \<open>Freeing\<close>

text \<open>Every element with a destructor and a value gets one call.\<close>

lemma free_destructs:
  "mset (ABTI_ktable_free T) =
    {#ke_value e. e \<in># filter_mset (\<lambda>e. ke_destructor e \<and> ke_value e \<noteq> 0) (mset (concat (kt_elems T)))#}"
proof -
  have "concat (map destructed rows) = destructed (concat rows)" for rows
    by (induction rows) (simp_all add: destructed_def)
  then have "ABTI_ktable_free T = destructed (concat (kt_elems T))"
    by (simp add: ABTI_ktable_free_def)
  then show ?thesis
    by (simp add: destructed_def)
qed

end
