(* ===== verification/PoolFifoWait.thy ===== *)
theory PoolFifoWait
  imports PoolFifo
begin

text \<open>
  The FIFO pool with a blocking pop (\<^verbatim>\<open>argobots_framework/src/pool/fifo_wait.c\<close>). It is guarded
  by a pthread mutex and has a condition variable; \<open>wp_sleepers\<close> are the callers blocked in
  \<^verbatim>\<open>pthread_cond_timedwait\<close>, \<open>wp_woken\<close> those a signal or a timeout has released and that
  have yet to take the mutex again. A blocking pop is therefore two definitions, the part
  before the wait and the part after it. Which sleeper a signal releases is not specified by
  POSIX: it is the argument \<open>pick\<close>. The main result is that no wake-up is lost: a caller
  sleeps only while the callers already woken can take every unit in the queue.
\<close>

section \<open>State\<close>

record wait_pool =
  wp_mutex :: bool
  wp_queue :: thread_queue
  wp_sleepers :: "nat list"
  wp_woken :: "nat list"

definition pthread_cond_signal :: "nat \<Rightarrow> wait_pool \<Rightarrow> wait_pool" where
  "pthread_cond_signal pick w =
     (if wp_sleepers w = [] then w
      else (let s = wp_sleepers w ! (pick mod length (wp_sleepers w))
            in w\<lparr>wp_sleepers := remove1 s (wp_sleepers w), wp_woken := wp_woken w @ [s]\<rparr>))"

definition pthread_cond_broadcast :: "wait_pool \<Rightarrow> wait_pool" where
  "pthread_cond_broadcast w = w\<lparr>wp_sleepers := [], wp_woken := wp_woken w @ wp_sleepers w\<rparr>"

section \<open>Pool functions\<close>

definition fifo_wait_pool_init :: "bool \<Rightarrow> bool \<Rightarrow> bool \<Rightarrow> abt_errno \<times> wait_pool option" where
  "fifo_wait_pool_init mem_ok mutex_ok cond_ok =
     (if \<not> mem_ok then (ABT_ERR_MEM, None)
      else if \<not> mutex_ok then (ABT_ERR_SYS, None)
      else if \<not> cond_ok then (ABT_ERR_SYS, None)
      else (ABT_SUCCESS, Some \<lparr>wp_mutex = False, wp_queue = thread_queue_init,
                               wp_sleepers = [], wp_woken = []\<rparr>))"

definition fifo_wait_pool_is_empty :: "wait_pool \<Rightarrow> bool" where
  "fifo_wait_pool_is_empty w = thread_queue_is_empty (wp_queue w)"

definition fifo_wait_pool_get_size :: "wait_pool \<Rightarrow> nat" where
  "fifo_wait_pool_get_size w = thread_queue_get_size (wp_queue w)"

definition fifo_wait_pool_push ::
    "nat \<Rightarrow> nat \<Rightarrow> wait_pool \<Rightarrow> thread_heap \<Rightarrow> (thread_heap \<times> wait_pool) option" where
  "fifo_wait_pool_push pick u w h = do {
     t \<leftarrow> ABTI_unit_get_thread_from_builtin_unit u;
     m \<leftarrow> ABTD_spinlock_acquire (wp_mutex w);
     (h1, q1) \<leftarrow> thread_queue_push_tail (wp_queue w) t h;
     let w1 = pthread_cond_signal pick (w\<lparr>wp_queue := q1, wp_mutex := m\<rparr>);
     Some (h1, w1\<lparr>wp_mutex := False\<rparr>)
   }"

definition fifo_wait_pool_push_many ::
    "nat \<Rightarrow> nat list \<Rightarrow> wait_pool \<Rightarrow> thread_heap \<Rightarrow> (thread_heap \<times> wait_pool) option" where
  "fifo_wait_pool_push_many pick us w h =
     (if length us > 0 then do {
        m \<leftarrow> ABTD_spinlock_acquire (wp_mutex w);
        (h1, q1) \<leftarrow> push_units thread_queue_push_tail us (wp_queue w) h;
        let w1 = w\<lparr>wp_queue := q1, wp_mutex := m\<rparr>;
        let w2 = (if length us = 1 then pthread_cond_signal pick w1 else pthread_cond_broadcast w1);
        Some (h1, w2\<lparr>wp_mutex := False\<rparr>)
      } else Some (h, w))"

text \<open>
  \<open>Inl ()\<close>: the caller is blocked on the condition variable and the mutex is free.
  \<open>Inr p\<close>: the call returns \<open>p\<close>.
\<close>

definition fifo_wait_pool_pop_wait_begin ::
    "nat \<Rightarrow> wait_pool \<Rightarrow> thread_heap \<Rightarrow> ((unit + thread_ptr option) \<times> thread_heap \<times> wait_pool) option" where
  "fifo_wait_pool_pop_wait_begin tid w h = do {
     m \<leftarrow> ABTD_spinlock_acquire (wp_mutex w);
     if thread_queue_is_empty (wp_queue w) then
       Some (Inl (), h, w\<lparr>wp_sleepers := wp_sleepers w @ [tid], wp_mutex := False\<rparr>)
     else do {
       (p, h1, q1) \<leftarrow> thread_queue_pop_head (wp_queue w) h;
       Some (Inr p, h1, w\<lparr>wp_queue := q1, wp_mutex := False\<rparr>)
     }
   }"

text \<open>After the wait: the caller was woken, or its deadline passed while it was sleeping.\<close>

definition fifo_wait_pool_pop_wait_end ::
    "nat \<Rightarrow> wait_pool \<Rightarrow> thread_heap \<Rightarrow> (thread_ptr option \<times> thread_heap \<times> wait_pool) option" where
  "fifo_wait_pool_pop_wait_end tid w h = do {
     m \<leftarrow> ABTD_spinlock_acquire (wp_mutex w);
     let w1 = (if tid \<in> set (wp_woken w) then w\<lparr>wp_woken := remove1 tid (wp_woken w)\<rparr>
               else w\<lparr>wp_sleepers := remove1 tid (wp_sleepers w)\<rparr>);
     (p, h1, q1) \<leftarrow> thread_queue_pop_head (wp_queue w1) h;
     Some (p, h1, w1\<lparr>wp_queue := q1, wp_mutex := False\<rparr>)
   }"

text \<open>\<^verbatim>\<open>pool_pop_timedwait\<close> waits the same way and returns the unit handle.\<close>

definition fifo_wait_pool_pop_timedwait_end ::
    "nat \<Rightarrow> wait_pool \<Rightarrow> thread_heap \<Rightarrow> (nat option \<times> thread_heap \<times> wait_pool) option" where
  "fifo_wait_pool_pop_timedwait_end tid w h = do {
     (p, h1, w1) \<leftarrow> fifo_wait_pool_pop_wait_end tid w h;
     (case p of
        None \<Rightarrow> Some (None, h1, w1)
      | Some t \<Rightarrow> do { u \<leftarrow> ABTI_unit_get_builtin_unit t; Some (Some u, h1, w1) })
   }"

definition fifo_wait_pool_pop ::
    "wait_pool \<Rightarrow> thread_heap \<Rightarrow> (thread_ptr option \<times> thread_heap \<times> wait_pool) option" where
  "fifo_wait_pool_pop w h =
     (if \<not> thread_queue_is_empty (wp_queue w) then do {
        m \<leftarrow> ABTD_spinlock_acquire (wp_mutex w);
        (p, h1, q1) \<leftarrow> thread_queue_pop_head (wp_queue w) h;
        Some (p, h1, w\<lparr>wp_queue := q1, wp_mutex := False\<rparr>)
      } else Some (None, h, w))"

definition fifo_wait_pool_pop_many ::
    "nat \<Rightarrow> wait_pool \<Rightarrow> thread_heap \<Rightarrow> (thread_ptr list \<times> thread_heap \<times> wait_pool) option" where
  "fifo_wait_pool_pop_many max_threads w h =
     (if max_threads \<noteq> 0 \<and> \<not> thread_queue_is_empty (wp_queue w) then do {
        m \<leftarrow> ABTD_spinlock_acquire (wp_mutex w);
        (ts, h1, q1) \<leftarrow> pop_units thread_queue_pop_head max_threads (wp_queue w) h;
        Some (ts, h1, w\<lparr>wp_queue := q1, wp_mutex := False\<rparr>)
      } else Some ([], h, w))"

definition fifo_wait_pool_remove ::
    "nat \<Rightarrow> wait_pool \<Rightarrow> thread_heap \<Rightarrow> (abt_errno \<times> thread_heap \<times> wait_pool) option" where
  "fifo_wait_pool_remove u w h = do {
     t \<leftarrow> ABTI_unit_get_thread_from_builtin_unit u;
     if thread_queue_is_empty (wp_queue w) then Some (ABT_ERR_POOL, h, w)
     else if \<not> is_in_pool h t then Some (ABT_ERR_POOL, h, w)
     else do {
       m \<leftarrow> ABTD_spinlock_acquire (wp_mutex w);
       (rc, h1, q1) \<leftarrow> thread_queue_remove (wp_queue w) t h;
       Some (rc, h1, w\<lparr>wp_queue := q1, wp_mutex := False\<rparr>)
     }
   }"

definition fifo_wait_pool_print_all ::
    "wait_pool \<Rightarrow> thread_heap \<Rightarrow> (thread_ptr list \<times> wait_pool) option" where
  "fifo_wait_pool_print_all w h = do {
     m \<leftarrow> ABTD_spinlock_acquire (wp_mutex w);
     ts \<leftarrow> thread_queue_print_all (wp_queue w) h;
     Some (ts, w\<lparr>wp_mutex := False\<rparr>)
   }"

section \<open>The deadline of a timed wait\<close>

text \<open>C's conversion of a floating-point value to an integer drops the fraction.\<close>

definition c_trunc :: "real \<Rightarrow> int" where
  "c_trunc x = (if 0 \<le> x then \<lfloor>x\<rfloor> else \<lceil>x\<rceil>)"

text \<open>
  The \<^verbatim>\<open>timespec\<close> of the wait, from the current time and the duration; doubles are taken
  to be exact.
\<close>

definition pop_wait_deadline :: "int \<Rightarrow> int \<Rightarrow> real \<Rightarrow> int \<times> int" where
  "pop_wait_deadline sec nsec time_secs =
     (let sec1 = sec + c_trunc time_secs;
          nsec1 = nsec + c_trunc ((time_secs - of_int (c_trunc time_secs)) * 10 ^ 9)
      in if nsec1 > 10 ^ 9 then (sec1 + 1, nsec1 - 10 ^ 9) else (sec1, nsec1))"

definition convert_double_sec_to_timespec :: "real \<Rightarrow> int \<times> int" where
  "convert_double_sec_to_timespec seconds =
     (let s = c_trunc seconds in (s, c_trunc ((seconds - of_int s) * 1000000000)))"

lemma frac_nanos:
  assumes "0 \<le> x"
  shows "0 \<le> \<lfloor>(x - of_int \<lfloor>x\<rfloor>) * 10 ^ 9\<rfloor>" "\<lfloor>(x - of_int \<lfloor>x\<rfloor>) * 10 ^ 9\<rfloor> < 10 ^ 9"
proof -
  have "0 \<le> x - of_int \<lfloor>x\<rfloor>" "x - of_int \<lfloor>x\<rfloor> < 1"
    by (simp_all add: floor_less_iff) linarith+
  then show "0 \<le> \<lfloor>(x - of_int \<lfloor>x\<rfloor>) * 10 ^ 9\<rfloor>" "\<lfloor>(x - of_int \<lfloor>x\<rfloor>) * 10 ^ 9\<rfloor> < 10 ^ 9"
    by (simp_all add: floor_less_iff)
qed

lemma deadline_bounds:
  assumes "0 \<le> time_secs" "0 \<le> nsec" "nsec < 10 ^ 9" "pop_wait_deadline sec nsec time_secs = (s, n)"
  shows "0 \<le> n" "n \<le> 10 ^ 9"
    "s * 10 ^ 9 + n = sec * 10 ^ 9 + nsec + \<lfloor>time_secs\<rfloor> * 10 ^ 9
       + \<lfloor>(time_secs - of_int \<lfloor>time_secs\<rfloor>) * 10 ^ 9\<rfloor>"
proof -
  define k where "k = \<lfloor>(time_secs - of_int \<lfloor>time_secs\<rfloor>) * 10 ^ 9\<rfloor>"
  have k: "0 \<le> k" "k < 10 ^ 9"
    using frac_nanos [OF assms(1)] by (simp_all only: k_def)
  have "0 \<le> (time_secs - of_int \<lfloor>time_secs\<rfloor>) * 10 ^ 9"
    by (simp add: of_int_floor_le)
  then have "c_trunc ((time_secs - of_int \<lfloor>time_secs\<rfloor>) * 10 ^ 9) = k"
    unfolding c_trunc_def k_def by (rule if_P)
  moreover have "c_trunc time_secs = \<lfloor>time_secs\<rfloor>"
    using assms(1) by (simp add: c_trunc_def)
  ultimately have "pop_wait_deadline sec nsec time_secs
      = (if nsec + k > 10 ^ 9 then (sec + \<lfloor>time_secs\<rfloor> + 1, nsec + k - 10 ^ 9)
         else (sec + \<lfloor>time_secs\<rfloor>, nsec + k))"
    by (simp add: pop_wait_deadline_def Let_def)
  then show "0 \<le> n" "n \<le> 10 ^ 9"
    "s * 10 ^ 9 + n = sec * 10 ^ 9 + nsec + \<lfloor>time_secs\<rfloor> * 10 ^ 9
       + \<lfloor>(time_secs - of_int \<lfloor>time_secs\<rfloor>) * 10 ^ 9\<rfloor>"
    using assms k unfolding k_def [symmetric] by (auto simp: algebra_simps split: if_splits)
qed

text \<open>
  The bound of \<open>deadline_bounds\<close> is attained: because the code compares with \<^verbatim>\<open>>\<close> and not with
  \<^verbatim>\<open>>=\<close>, the nanoseconds can be a full second, which \<^verbatim>\<open>pthread_cond_timedwait\<close> rejects.
\<close>

lemma deadline_not_normal: "pop_wait_deadline 0 500000000 (1 / 2) = (0, 10 ^ 9)"
proof -
  have "\<lfloor>1 / 2 :: real\<rfloor> = 0"
    by simp
  then show ?thesis
    by (simp add: pop_wait_deadline_def c_trunc_def Let_def)
qed

section \<open>No lost wake-up\<close>

text \<open>
  One step of the pool: any caller runs one of the functions, or the deadline of a sleeping
  caller passes. Units pushed are not in the pool; handles are those of aligned work units.
\<close>

inductive fw_step :: "thread_heap \<times> wait_pool \<Rightarrow> thread_heap \<times> wait_pool \<Rightarrow> bool" where
  push: "even t \<Longrightarrow> \<not> is_in_pool h t \<Longrightarrow> fifo_wait_pool_push pick (t + 1) w h = Some (h', w')
    \<Longrightarrow> fw_step (h, w) (h', w')"
| push_many: "distinct ts \<Longrightarrow> \<forall>t \<in> set ts. even t \<and> \<not> is_in_pool h t
    \<Longrightarrow> fifo_wait_pool_push_many pick (map Suc ts) w h = Some (h', w') \<Longrightarrow> fw_step (h, w) (h', w')"
| wait_begin: "fifo_wait_pool_pop_wait_begin tid w h = Some (r, h', w') \<Longrightarrow> fw_step (h, w) (h', w')"
| wait_end: "tid \<in> set (wp_woken w) \<union> set (wp_sleepers w)
    \<Longrightarrow> fifo_wait_pool_pop_wait_end tid w h = Some (r, h', w') \<Longrightarrow> fw_step (h, w) (h', w')"
| pop: "fifo_wait_pool_pop w h = Some (p, h', w') \<Longrightarrow> fw_step (h, w) (h', w')"
| pop_many: "fifo_wait_pool_pop_many n w h = Some (ts, h', w') \<Longrightarrow> fw_step (h, w) (h', w')"
| remove: "t \<in> set xs \<Longrightarrow> tq_rep h (wp_queue w) xs \<Longrightarrow> even t
    \<Longrightarrow> fifo_wait_pool_remove (t + 1) w h = Some (rc, h', w') \<Longrightarrow> fw_step (h, w) (h', w')"

inductive fw_reachable :: "thread_heap \<times> wait_pool \<Rightarrow> bool" where
  init: "fifo_wait_pool_init True True True = (rc, Some w) \<Longrightarrow> fw_reachable (h, w)"
| step: "fw_reachable s \<Longrightarrow> fw_step s s' \<Longrightarrow> fw_reachable s'"

definition fw_inv :: "thread_heap \<Rightarrow> wait_pool \<Rightarrow> thread_ptr list \<Rightarrow> bool" where
  "fw_inv h w xs \<longleftrightarrow> tq_rep h (wp_queue w) xs \<and> \<not> wp_mutex w \<and>
     (wp_sleepers w \<noteq> [] \<longrightarrow> length xs \<le> length (wp_woken w))"

lemma is_empty_rep: "tq_rep h q xs \<Longrightarrow> thread_queue_is_empty q \<longleftrightarrow> xs = []"
  by (simp add: tq_rep_def thread_queue_is_empty_def)

lemma signal_simps [simp]:
  "wp_queue (pthread_cond_signal k w) = wp_queue w"
  "wp_queue (pthread_cond_broadcast w) = wp_queue w"
  "wp_sleepers (pthread_cond_broadcast w) = []"
  by (simp_all add: pthread_cond_signal_def pthread_cond_broadcast_def Let_def)

lemma signal_wakes:
  "wp_sleepers w \<noteq> [] \<Longrightarrow> length (wp_woken (pthread_cond_signal k w)) = Suc (length (wp_woken w))"
  "wp_sleepers w = [] \<Longrightarrow> pthread_cond_signal k w = w"
  by (simp_all add: pthread_cond_signal_def Let_def)

lemma push_inv:
  assumes "fw_inv h w xs" "even t" "t \<notin> set xs" "fifo_wait_pool_push pick (t + 1) w h = Some (h', w')"
  shows "fw_inv h' w' (xs @ [t])"
  using assms push_tail_rep [of h "wp_queue w" xs t] signal_wakes [of "w\<lparr>wp_queue := q, wp_mutex := m\<rparr>" pick for q m]
  by (cases "wp_sleepers w = []") (auto simp: fifo_wait_pool_push_def fw_inv_def Let_def)

lemma push_many_inv:
  assumes "fw_inv h w xs" "distinct ts" "set ts \<inter> set xs = {}" "\<forall>t \<in> set ts. even t"
    "fifo_wait_pool_push_many pick (map Suc ts) w h = Some (h', w')"
  shows "fw_inv h' w' (xs @ ts)"
  using assms fifo.push_units_rep [of h "wp_queue w" xs ts]
    signal_wakes [of "w\<lparr>wp_queue := q, wp_mutex := m\<rparr>" pick for q m]
  by (cases "wp_sleepers w = []")
     (auto simp: fifo_wait_pool_push_many_def fw_inv_def Let_def split: if_splits)

lemma wait_begin_inv:
  assumes "fw_inv h w xs" "fifo_wait_pool_pop_wait_begin tid w h = Some (r, h', w')"
  shows "fw_inv h' w' (tl xs)" "r = (if xs = [] then Inl () else Inr (Some (hd xs)))"
  using assms pop_head_rep [of h "wp_queue w" "hd xs" "tl xs"]
  by (cases xs; auto simp: fifo_wait_pool_pop_wait_begin_def fw_inv_def is_empty_rep)+

lemma pop_front_ex:
  "tq_rep h q xs \<Longrightarrow> \<exists>h' q'. thread_queue_pop_head q h = Some (map_option fst (take_front xs), h', q')
    \<and> tq_rep h' q' (tl xs)"
  using pop_head_rep [of h q "hd xs" "tl xs"] pop_head_empty [of h q]
  by (cases xs) (auto simp: take_front_def)

lemma length_remove1_mem: "x \<in> set xs \<Longrightarrow> length (remove1 x xs) = length xs - 1"
  by (simp add: length_remove1)

lemma wait_end_inv:
  assumes "fw_inv h w xs" "tid \<in> set (wp_woken w) \<union> set (wp_sleepers w)"
    "fifo_wait_pool_pop_wait_end tid w h = Some (r, h', w')"
  shows "fw_inv h' w' (tl xs)" "r = map_option fst (take_front xs)"
proof -
  obtain h1 q1 where 1: "thread_queue_pop_head (wp_queue w) h
      = Some (map_option fst (take_front xs), h1, q1)" "tq_rep h1 q1 (tl xs)"
    using pop_front_ex [of h "wp_queue w" xs] assms(1) unfolding fw_inv_def by blast
  then show "fw_inv h' w' (tl xs)" "r = map_option fst (take_front xs)"
    using assms by (auto simp: fifo_wait_pool_pop_wait_end_def fw_inv_def Let_def
        length_remove1_mem diff_le_mono split: if_splits)
qed

lemma pop_inv:
  assumes "fw_inv h w xs" "fifo_wait_pool_pop w h = Some (p, h', w')"
  shows "fw_inv h' w' (tl xs)" "p = map_option fst (take_front xs)"
  using assms pop_front_ex [of h "wp_queue w" xs]
  by (auto simp: fifo_wait_pool_pop_def fw_inv_def is_empty_rep take_front_def split: if_splits)

lemma pop_many_inv:
  assumes "fw_inv h w xs" "fifo_wait_pool_pop_many n w h = Some (ts, h', w')"
  shows "fw_inv h' w' (drop n xs)" "ts = take n xs"
  using assms fifo.pop_units_rep [of h "wp_queue w" xs n]
  by (auto simp: fifo_wait_pool_pop_many_def fw_inv_def is_empty_rep takes_front split: if_splits)

lemma remove_inv:
  assumes "fw_inv h w (as @ t # bs)" "even t" "fifo_wait_pool_remove (t + 1) w h = Some (rc, h', w')"
  shows "fw_inv h' w' (as @ bs)" "rc = ABT_SUCCESS"
  using assms remove_rep [of h "wp_queue w" as t bs] tq_repD(6) [of h "wp_queue w" "as @ t # bs" t]
  by (auto simp: fifo_wait_pool_remove_def fw_inv_def is_empty_rep split: if_splits)

lemma tq_rep_unique: "tq_rep h q xs \<Longrightarrow> tq_rep h q ys \<Longrightarrow> xs = ys"
  by (metis option.inject print_all_rep)

lemma fw_step_inv:
  assumes "fw_step s s'" "fw_inv (fst s) (snd s) xs"
  shows "\<exists>ys. fw_inv (fst s') (snd s') ys"
  using assms
proof (induction rule: fw_step.induct)
  case (push t h pick w h' w')
  then have "t \<notin> set xs"
    using tq_repD(6) [of h "wp_queue w" xs t] by (auto simp: fw_inv_def)
  then show ?case
    using push push_inv [of h w xs t pick h' w'] by auto
next
  case (push_many ts h pick w h' w')
  then have "set ts \<inter> set xs = {}"
    using tq_repD(6) [of h "wp_queue w" xs] by (auto simp: fw_inv_def)
  then show ?case
    using push_many push_many_inv [of h w xs ts pick h' w'] by auto
next
  case (remove t zs h w rc h' w')
  then have "xs = zs"
    using tq_rep_unique by (auto simp: fw_inv_def)
  then obtain as bs where "xs = as @ t # bs"
    using remove by (meson split_list)
  then show ?case
    using remove_inv [of h w as t bs rc h' w'] remove by auto
qed (auto dest: wait_begin_inv wait_end_inv pop_inv pop_many_inv)

lemma fw_reachable_inv: "fw_reachable s \<Longrightarrow> \<exists>xs. fw_inv (fst s) (snd s) xs"
proof (induction rule: fw_reachable.induct)
  case (init rc w h)
  then show ?case
    by (auto simp: fifo_wait_pool_init_def fw_inv_def intro!: exI [of _ "[]"])
next
  case (step s s')
  then show ?case
    using fw_step_inv by blast
qed

end
