(* ===== verification/Phases.thy ===== *)
theory Phases
  imports Prelude
begin

text \<open>
  The parallel phases of the applications: a loop creates one ULT per thread, each with its part of
  an index range, and a second loop joins them all before the main thread goes on
  (\<^verbatim>\<open>cg_argobots_fixed/CG/cg.c\<close> and \<^verbatim>\<open>jac3d_argobots_fixed/jac3d.c\<close>).

  A ULT is the list of the steps it takes, each a partial function of the shared state. \<open>interleave\<close>
  runs several such lists against each other; a stream of numbers picks the one to take the next
  step, so every stream is a schedule. \<open>workers\<close> says what runs against what: with the default
  schedulers an execution stream takes the ULTs of its pool one after the other, in the order they
  were created, since these ULTs never give up control; with work stealing every ULT may run
  against every other.

  The locale \<open>chunked_phase\<close> is the contract of a phase whose ULTs do not interfere; inside it, every
  schedule gives what the ULTs give one after the other.
\<close>

section \<open>Interleaving\<close>

type_synonym 's action = "'s \<Rightarrow> 's option"

fun run_steps :: "'s action list \<Rightarrow> 's action" where
  "run_steps [] s = Some s"
| "run_steps (f # fs) s = Option.bind (f s) (run_steps fs)"

lemma run_steps_append: "run_steps (fs @ gs) s = Option.bind (run_steps fs s) (run_steps gs)"
  by (induction fs arbitrary: s) (simp_all split: bind_split)

lemma run_steps_append_fun: "run_steps (fs @ gs) = (\<lambda>s. Option.bind (run_steps fs s) (run_steps gs))"
  by (rule ext) (rule run_steps_append)

definition live :: "'s action list list \<Rightarrow> nat list" where
  "live us = filter (\<lambda>i. us ! i \<noteq> []) [0..<length us]"

lemma live_nth: "live us \<noteq> [] \<Longrightarrow> live us ! (k mod length (live us)) < length us"
  "live us \<noteq> [] \<Longrightarrow> us ! (live us ! (k mod length (live us))) \<noteq> []"
  using nth_mem [of "k mod length (live us)" "live us"] by (auto simp: live_def)

lemma live_Nil: "live us = [] \<longleftrightarrow> concat us = []"
proof
  assume "live us = []"
  then have "us ! i = []" if "i < length us" for i
    using that by (auto simp: live_def filter_empty_conv)
  then show "concat us = []"
    by (auto simp: in_set_conv_nth)
qed (auto simp: live_def filter_empty_conv)

lemma fewer_steps:
  "i < length us \<Longrightarrow> us ! i \<noteq> [] \<Longrightarrow> sum_list (map length (us[i := tl (us ! i)])) < sum_list (map length us)"
proof (induction us arbitrary: i)
  case (Cons u us)
  then show ?case by (cases i) auto
qed simp

function interleave :: "(nat \<Rightarrow> nat) \<Rightarrow> 's action list list \<Rightarrow> 's action" where
  "interleave choice us s =
     (if live us = [] then Some s
      else let i = live us ! (choice 0 mod length (live us))
           in Option.bind (hd (us ! i) s) (interleave (\<lambda>n. choice (n + 1)) (us[i := tl (us ! i)])))"
  by pat_completeness auto
termination
  by (relation "measure (\<lambda>(_, us, _). sum_list (map length us))") (auto simp: live_nth fewer_steps)

declare interleave.simps [simp del]

text \<open>A task: the pool its ULT is created in and the steps of the ULT.\<close>

type_synonym 's task = "nat \<times> 's action list"

definition workers :: "bool \<Rightarrow> nat \<Rightarrow> 's task list \<Rightarrow> 's action list list" where
  "workers stealing num_pools tasks =
     (if stealing then map snd tasks
      else map (\<lambda>k. concat (map snd (filter (\<lambda>t. fst t = k) tasks))) [0..<num_pools])"

text \<open>The creation loop and the join loop. Without a pool, the index of the pool is a division by zero.\<close>

definition run_ults :: "bool \<Rightarrow> nat \<Rightarrow> (nat \<Rightarrow> nat) \<Rightarrow> 's task list \<Rightarrow> 's action" where
  "run_ults stealing num_pools choice tasks s =
     (if num_pools = 0 then None else interleave choice (workers stealing num_pools tasks) s)"

section \<open>Arrays\<close>

text \<open>C arrays as lists: an access out of bounds is undefined.\<close>

definition elem :: "'b list \<Rightarrow> int \<Rightarrow> 'b option" where
  "elem xs i = (if 0 \<le> i \<and> i < int (length xs) then Some (xs ! nat i) else None)"

definition store :: "'b list \<Rightarrow> nat \<Rightarrow> 'b \<Rightarrow> 'b list option" where
  "store xs i v = (if i < length xs then Some (xs[i := v]) else None)"

definition store_int :: "'b list \<Rightarrow> int \<Rightarrow> 'b \<Rightarrow> 'b list option" where
  "store_int xs i v = (if 0 \<le> i \<and> i < int (length xs) then Some (xs[nat i := v]) else None)"

section \<open>Splitting a range\<close>

definition part_start :: "nat \<Rightarrow> nat \<Rightarrow> nat \<Rightarrow> nat" where
  "part_start num_threads n i = i * (n div num_threads)"

definition part_stop :: "nat \<Rightarrow> nat \<Rightarrow> nat \<Rightarrow> nat" where
  "part_stop num_threads n i =
     (if i = num_threads - 1 then n else part_start num_threads n i + n div num_threads)"

definition part :: "nat \<Rightarrow> nat \<Rightarrow> nat \<Rightarrow> nat list" where
  "part num_threads n i = [part_start num_threads n i..<part_stop num_threads n i]"

lemma part_stop_le: "i < T \<Longrightarrow> part_stop T n i \<le> n"
proof -
  assume i: "i < T"
  have "(i + 1) * (n div T) \<le> T * (n div T)"
    using i by (intro mult_right_mono) simp_all
  also have "\<dots> \<le> n" by simp
  finally show ?thesis
    by (simp add: part_stop_def part_start_def)
qed

lemma part_start_mono: "i < k \<Longrightarrow> k < T \<Longrightarrow> part_stop T n i \<le> part_start T n k"
proof -
  assume ik: "i < k" "k < T"
  then have "(i + 1) * (n div T) \<le> k * (n div T)"
    by (intro mult_right_mono) simp_all
  moreover have "i \<noteq> T - 1"
    using ik by simp
  ultimately show ?thesis
    by (simp add: part_stop_def part_start_def)
qed

lemma part_bound: "j \<in> set (part T n i) \<Longrightarrow> i < T \<Longrightarrow> j < n"
  using part_stop_le [of i T n] by (auto simp: part_def)

lemma part_disjoint:
  assumes "j \<in> set (part T n i)" "l \<in> set (part T n k)" "i < T" "k < T" "i \<noteq> k"
  shows "j \<noteq> l"
  using assms part_start_mono [of i k T n] part_start_mono [of k i T n]
  by (auto simp: part_def neq_iff)

lemma parts_prefix:
  assumes "m < T"
  shows "concat (map (part T n) [0..<m]) = [0..<part_start T n m]"
  using assms
proof (induction m)
  case (Suc m)
  have "part T n m = [part_start T n m..<part_start T n (Suc m)]"
    using Suc.prems by (simp add: part_def part_stop_def part_start_def add.commute)
  moreover have "part_start T n m \<le> part_start T n (Suc m)"
    by (simp add: part_start_def)
  ultimately show ?case
    using Suc upt_add_eq_append [of 0 "part_start T n m" "part_start T n (Suc m) - part_start T n m"]
    by simp
qed (simp add: part_start_def)

text \<open>The parts are the range, in order, without gap or overlap.\<close>

lemma parts_cover:
  assumes "0 < T"
  shows "concat (map (part T n) [0..<T]) = [0..<n]"
proof -
  have "[0..<T] = [0..<T - 1] @ [T - 1]"
    using assms by (metis Suc_diff_1 upt_Suc_append zero_le)
  moreover have "part_start T n (T - 1) \<le> n"
    unfolding part_start_def
    by (rule le_trans [OF mult_le_mono1 [of "T - 1" T]]) simp_all
  moreover have "part T n (T - 1) = [part_start T n (T - 1)..<n]"
    by (simp add: part_def part_stop_def)
  ultimately show ?thesis
    using assms parts_prefix [of "T - 1" T n]
      upt_add_eq_append [of 0 "part_start T n (T - 1)" "n - part_start T n (T - 1)"]
    by simp
qed

section \<open>Steps that commute\<close>

definition commuting :: "'s action list \<Rightarrow> 's action list \<Rightarrow> bool" where
  "commuting fs gs \<longleftrightarrow> (\<forall>f \<in> set fs. \<forall>g \<in> set gs. \<forall>s. Option.bind (f s) g = Option.bind (g s) f)"

lemma commuting_sym: "commuting fs gs \<Longrightarrow> commuting gs fs"
  by (simp add: commuting_def)

lemma commuting_Nil [simp]: "commuting [] gs" "commuting fs []"
  by (simp_all add: commuting_def)

lemma commuting_append [simp]:
  "commuting (fs @ fs') gs \<longleftrightarrow> commuting fs gs \<and> commuting fs' gs"
  "commuting fs (gs @ gs') \<longleftrightarrow> commuting fs gs \<and> commuting fs gs'"
  by (auto simp: commuting_def)

lemma commuting_concat:
  "commuting (concat us) gs \<longleftrightarrow> (\<forall>u \<in> set us. commuting u gs)"
  "commuting fs (concat us) \<longleftrightarrow> (\<forall>u \<in> set us. commuting fs u)"
  by (auto simp: commuting_def)

lemma commuting_maps2:
  "(\<And>a b. a \<in> set as \<Longrightarrow> b \<in> set bs \<Longrightarrow> commuting [f a] [g b]) \<Longrightarrow> commuting (map f as) (map g bs)"
  by (simp add: commuting_def)

lemma commuting_tl:
  "commuting fs gs \<Longrightarrow> commuting (tl fs) gs"
  "commuting fs gs \<Longrightarrow> commuting fs (tl gs)"
  by (cases fs; auto simp: commuting_def) (cases gs; auto simp: commuting_def)

lemma commute_step:
  "commuting [f] gs \<Longrightarrow> Option.bind (f s) (run_steps gs) = Option.bind (run_steps gs s) f"
proof (induction gs arbitrary: s)
  case (Cons g gs)
  then have c: "commuting [f] gs" and fg: "Option.bind (f s) g = Option.bind (g s) f"
    by (simp_all add: commuting_def)
  have "Option.bind (f s) (run_steps (g # gs)) = Option.bind (Option.bind (f s) g) (run_steps gs)"
    by (cases "f s") simp_all
  also have "\<dots> = Option.bind (g s) (\<lambda>s. Option.bind (f s) (run_steps gs))"
    by (simp add: fg)
  also have "\<dots> = Option.bind (run_steps (g # gs) s) f"
    using Cons.IH [OF c] by simp
  finally show ?case .
qed (simp split: bind_split)

lemma commute_run:
  "commuting fs gs \<Longrightarrow> run_steps (fs @ gs) s = run_steps (gs @ fs) s"
proof (induction fs arbitrary: s)
  case (Cons f fs)
  have c: "commuting fs gs" and f: "commuting [f] gs"
    using Cons.prems unfolding commuting_def by auto
  have "run_steps ((f # fs) @ gs) s = Option.bind (f s) (\<lambda>s. run_steps (gs @ fs) s)"
    by (cases "f s") (simp_all add: Cons.IH [OF c])
  also have "\<dots> = Option.bind (Option.bind (f s) (run_steps gs)) (run_steps fs)"
    by (simp add: run_steps_append)
  also have "\<dots> = run_steps (gs @ f # fs) s"
    by (simp only: commute_step [OF f]) (cases "run_steps gs s", simp_all add: run_steps_append)
  finally show ?case .
qed simp

definition indep_runs :: "'s action list list \<Rightarrow> bool" where
  "indep_runs us \<longleftrightarrow> sorted_wrt commuting us"

lemma independent_simps [simp]:
  "indep_runs []" "indep_runs (u # us) \<longleftrightarrow> commuting u (concat us) \<and> indep_runs us"
  by (simp_all add: indep_runs_def commuting_concat)

lemma independent_append:
  "indep_runs (us @ vs) \<longleftrightarrow> indep_runs us \<and> indep_runs vs \<and> commuting (concat us) (concat vs)"
  by (auto simp: indep_runs_def sorted_wrt_append commuting_concat)

lemma independent_take_step:
  assumes "indep_runs us" "i < length us" "us ! i \<noteq> []"
  shows "indep_runs (us[i := tl (us ! i)])"
    and "run_steps (concat us) s = Option.bind (hd (us ! i) s) (run_steps (concat (us[i := tl (us ! i)])))"
proof -
  define as bs u where "as = take i us" and "bs = drop (Suc i) us" and "u = us ! i"
  have us: "us = as @ u # bs" and upd: "us[i := tl u] = as @ tl u # bs"
    using assms(2) by (simp_all add: as_def bs_def u_def id_take_nth_drop [symmetric] upd_conv_take_nth_drop)
  have ind: "indep_runs (as @ u # bs)"
    using assms(1) us by simp
  then have as_u: "commuting (concat as) u"
    by (simp add: independent_append)
  show "indep_runs (us[i := tl (us ! i)])"
    using ind as_u by (auto simp: u_def [symmetric] upd independent_append intro: commuting_tl)
  obtain f fs where u: "u = f # fs"
    using assms(3) by (cases u) (auto simp: u_def)
  have f: "commuting [f] (concat as)"
    using as_u u by (auto simp: commuting_def)
  have "run_steps (concat us) s = run_steps ((concat as @ [f]) @ (fs @ concat bs)) s"
    by (simp add: us u)
  also have "\<dots> = Option.bind (run_steps ([f] @ concat as) s) (run_steps (fs @ concat bs))"
    by (simp only: run_steps_append [of "concat as @ [f]"] commute_run [OF f])
  also have "\<dots> = Option.bind (f s) (run_steps (concat (as @ fs # bs)))"
    by (cases "f s") (simp_all add: run_steps_append)
  finally show "run_steps (concat us) s = Option.bind (hd (us ! i) s) (run_steps (concat (us[i := tl (us ! i)])))"
    by (simp add: u_def [symmetric] upd) (simp add: u)
qed

text \<open>Independent sequences: every interleaving is the run of one after the other.\<close>

lemma interleave_independent:
  "indep_runs us \<Longrightarrow> interleave choice us s = run_steps (concat us) s"
proof (induction choice us s rule: interleave.induct)
  case (1 choice us s)
  show ?case
  proof (cases "live us = []")
    case True
    then show ?thesis
      by (simp add: interleave.simps [of choice us s] live_Nil [symmetric]) (metis live_Nil run_steps.simps(1))
  next
    case False
    let ?i = "live us ! (choice 0 mod length (live us))"
    note i = live_nth [OF False, of "choice 0"]
    note t = independent_take_step [OF "1.prems" i]
    have "interleave choice us s = Option.bind (hd (us ! ?i) s)
        (interleave (\<lambda>n. choice (n + 1)) (us[?i := tl (us ! ?i)]))"
      using False by (simp add: interleave.simps [of choice us s] Let_def)
    also have "\<dots> = Option.bind (hd (us ! ?i) s) (run_steps (concat (us[?i := tl (us ! ?i)])))"
      using "1.IH" [OF False refl _ t(1)] by (cases "hd (us ! ?i) s") simp_all
    also have "\<dots> = run_steps (concat us) s"
      by (rule t(2) [symmetric])
    finally show ?thesis .
  qed
qed

lemma pool_insert:
  "commuting u (concat (map W [0..<n])) \<Longrightarrow> k < n \<Longrightarrow>
   run_steps (concat (map (W(k := u @ W k)) [0..<n])) s = run_steps (u @ concat (map W [0..<n])) s"
proof -
  assume c: "commuting u (concat (map W [0..<n]))" and k: "k < n"
  have split: "[0..<n] = [0..<k] @ k # [Suc k..<n]"
    using k upt_add_eq_append [of 0 k "n - k"] by (simp add: upt_conv_Cons)
  have m: "map (W(k := u @ W k)) [0..<k] = map W [0..<k]"
    "map (W(k := u @ W k)) [Suc k..<n] = map W [Suc k..<n]"
    by simp_all
  have c': "commuting (concat (map W [0..<k])) u"
    using c split by (auto simp: intro: commuting_sym)
  have "run_steps (concat (map (W(k := u @ W k)) [0..<n])) s
      = run_steps ((concat (map W [0..<k]) @ u) @ (W k @ concat (map W [Suc k..<n]))) s"
    by (simp add: split m)
  also have "\<dots> = run_steps ((u @ concat (map W [0..<k])) @ (W k @ concat (map W [Suc k..<n]))) s"
    by (simp only: run_steps_append [of "_ @ _"] commute_run [OF c'])
  also have "\<dots> = run_steps (u @ concat (map W [0..<n])) s"
    by (simp add: split)
  finally show ?thesis .
qed

definition pool_steps :: "'s task list \<Rightarrow> nat \<Rightarrow> 's action list" where
  "pool_steps tasks k = concat (map snd (filter (\<lambda>t. fst t = k) tasks))"

lemma pool_steps_Cons: "pool_steps (t # ts) = (pool_steps ts)(fst t := snd t @ pool_steps ts (fst t))"
  by (auto simp: pool_steps_def fun_eq_iff)

lemma pool_steps_Nil: "concat (map (pool_steps []) ks) = []"
  by (induction ks) (simp_all add: pool_steps_def)

lemma pool_steps_subset: "set (pool_steps ts k) \<subseteq> set (concat (map snd ts))"
  by (auto simp: pool_steps_def)

lemma pools_commuting:
  "commuting u (concat (map snd ts)) \<Longrightarrow> commuting u (concat (map (pool_steps ts) [0..<n]))"
  unfolding commuting_def using pool_steps_subset [of ts] by (fastforce simp: pool_steps_def)

lemma pools_run:
  assumes "indep_runs (map snd tasks)" "\<forall>t \<in> set tasks. fst t < n"
  shows "run_steps (concat (map (pool_steps tasks) [0..<n])) s = run_steps (concat (map snd tasks)) s"
  using assms
proof (induction tasks arbitrary: s)
  case Nil
  then show ?case by (simp only: list.map pool_steps_Nil concat.simps run_steps.simps)
next
  case (Cons t ts)
  then have t: "fst t < n" "commuting (snd t) (concat (map (pool_steps ts) [0..<n]))"
    by (auto intro: pools_commuting)
  have "run_steps (concat (map (pool_steps (t # ts)) [0..<n])) s
      = run_steps (snd t @ concat (map (pool_steps ts) [0..<n])) s"
    by (simp only: pool_steps_Cons pool_insert [OF t(2,1)])
  also have "\<dots> = run_steps (concat (map snd (t # ts))) s"
    using Cons by (cases "run_steps (snd t) s") (simp_all add: run_steps_append)
  finally show ?case .
qed

lemma pools_independent:
  assumes "indep_runs (map snd tasks)"
  shows "indep_runs (map (pool_steps tasks) [0..<n])"
  unfolding indep_runs_def sorted_wrt_iff_nth_less
proof (intro allI impI)
  fix i j :: nat
  assume ij: "i < j" "j < length (map (pool_steps tasks) [0..<n])"
  have "commuting (snd t) (snd t')" if "t \<in> set tasks" "t' \<in> set tasks" "fst t \<noteq> fst t'" for t t'
    using assms that
  proof (induction tasks)
    case (Cons u ts)
    then show ?case
      by (auto simp: commuting_concat intro: commuting_sym)
  qed simp
  then have "commuting (pool_steps tasks i) (pool_steps tasks j)"
    using ij(1) by (auto simp: pool_steps_def commuting_concat)
  then show "commuting (map (pool_steps tasks) [0..<n] ! i) (map (pool_steps tasks) [0..<n] ! j)"
    using ij by simp
qed

text \<open>Any scheduler and any schedule, for ULTs that do not interfere.\<close>

lemma run_ults_independent:
  assumes "indep_runs (map snd tasks)" "\<forall>t \<in> set tasks. fst t < num_pools" "0 < num_pools"
  shows "run_ults stealing num_pools choice tasks s = run_steps (concat (map snd tasks)) s"
proof (cases stealing)
  case True
  then show ?thesis
    using assms interleave_independent [OF assms(1)] by (simp add: run_ults_def workers_def)
next
  case False
  have "workers stealing num_pools tasks = map (pool_steps tasks) [0..<num_pools]"
    using False by (simp add: workers_def pool_steps_def)
  then show ?thesis
    using assms interleave_independent [OF pools_independent [OF assms(1)]] pools_run [OF assms(1,2)]
    by (simp add: run_ults_def)
qed

section \<open>The contract of a phase\<close>

definition chunk_tasks ::
    "(nat \<Rightarrow> 's action list) \<Rightarrow> (nat \<Rightarrow> nat \<Rightarrow> 's action) \<Rightarrow> (nat \<Rightarrow> 's action list)
     \<Rightarrow> nat \<Rightarrow> nat \<Rightarrow> nat \<Rightarrow> 's task list" where
  "chunk_tasks before body after num_threads num_pools n =
     map (\<lambda>t. (t mod num_pools, before t @ map (body t) (part num_threads n t) @ after t)) [0..<num_threads]"

locale chunked_phase =
  fixes before :: "nat \<Rightarrow> 's action list"
    and body :: "nat \<Rightarrow> nat \<Rightarrow> 's action"
    and after :: "nat \<Rightarrow> 's action list"
  assumes ends: "t \<noteq> u \<Longrightarrow> commuting (before t @ after t) (before u @ after u)"
    and end_body: "t \<noteq> u \<Longrightarrow> commuting (before t @ after t) [body u k]"
    and bodies: "t \<noteq> u \<Longrightarrow> j \<noteq> k \<Longrightarrow> commuting [body t j] [body u k]"
begin

lemma tasks_commuting:
  assumes "t \<noteq> u" "t < T" "u < T"
  shows "commuting (before t @ map (body t) (part T n t) @ after t)
                   (before u @ map (body u) (part T n u) @ after u)"
proof -
  have "commuting (map (body t) (part T n t)) (map (body u) (part T n u))"
    using bodies [OF assms(1)] part_disjoint [OF _ _ assms(2,3,1), of _ n] by (fastforce simp: commuting_def)
  moreover have "commuting (before t @ after t) (map (body u) (part T n u))"
    using end_body [OF assms(1)] by (auto simp: commuting_def)
  moreover have "commuting (before u @ after u) (map (body t) (part T n t))"
    using end_body [of u t] assms(1) by (auto simp: commuting_def)
  ultimately show ?thesis
    using ends [OF assms(1)] by (auto dest: commuting_sym)
qed

lemma tasks_independent: "indep_runs (map snd (chunk_tasks before body after T P n))"
  unfolding indep_runs_def sorted_wrt_iff_nth_less
  by (auto simp: chunk_tasks_def simp del: commuting_append intro!: tasks_commuting)

text \<open>Every schedule of the phase, under both schedulers, gives the sequential result.\<close>

lemma phase_sequential:
  assumes "0 < P"
  shows "run_ults stealing P choice (chunk_tasks before body after T P n) s
    = run_steps (concat (map snd (chunk_tasks before body after T P n))) s"
  using assms by (intro run_ults_independent tasks_independent) (auto simp: chunk_tasks_def)

end

text \<open>Two rounds of ULTs without a join in between, when only the ULTs of one pool depend on each other.\<close>

lemma two_rounds:
  assumes "\<And>k l. k < m \<Longrightarrow> l < m \<Longrightarrow> k \<noteq> l \<Longrightarrow> commuting (A k) (B l)"
  shows "run_steps (concat (map (\<lambda>k. A k @ B k) [0..<m])) s
       = run_steps (concat (map A [0..<m]) @ concat (map B [0..<m])) s"
  using assms
proof (induction m)
  case (Suc m)
  have c: "commuting (concat (map B [0..<m])) (A m)"
    using Suc.prems by (auto simp: commuting_concat intro!: commuting_sym [of "A m"])
  let ?A = "concat (map A [0..<m])" and ?B = "concat (map B [0..<m])"
  have IH: "run_steps (concat (map (\<lambda>k. A k @ B k) [0..<m])) s = run_steps (?A @ ?B) s"
    by (rule Suc.IH) (simp add: Suc.prems)
  have "run_steps (concat (map (\<lambda>k. A k @ B k) [0..<Suc m])) s = run_steps (?A @ (?B @ A m) @ B m) s"
    by (simp only: upt_Suc_append [OF le0] map_append concat_append run_steps_append [of "concat _"] IH)
      (cases "run_steps ?A s", simp_all add: run_steps_append)
  also have "\<dots> = Option.bind (run_steps ?A s)
      (\<lambda>s. Option.bind (run_steps (?B @ A m) s) (run_steps (B m)))"
    by (cases "run_steps ?A s") (simp_all only: run_steps_append [of ?A] run_steps_append [of "_ @ _"] bind.bind_lunit bind.bind_lzero)
  also have "\<dots> = Option.bind (run_steps ?A s)
      (\<lambda>s. Option.bind (run_steps (A m @ ?B) s) (run_steps (B m)))"
    by (simp only: commute_run [OF c])
  also have "\<dots> = run_steps ((?A @ A m) @ (?B @ B m)) s"
    by (simp add: run_steps_append_fun)
  also have "\<dots> = run_steps (concat (map A [0..<Suc m]) @ concat (map B [0..<Suc m])) s"
    by simp
  finally show ?case .
qed simp

lemma rounds_run:
  assumes I: "indep_runs (map snd I)" "\<forall>t \<in> set I. fst t < P"
    and R: "indep_runs (map snd R)" "\<forall>t \<in> set R. fst t < P"
    and c: "\<And>t u. t \<in> set I \<Longrightarrow> u \<in> set R \<Longrightarrow> fst t \<noteq> fst u \<Longrightarrow> commuting (snd t) (snd u)"
    and P: "0 < P"
  shows "run_ults False P choice (I @ R) s = run_steps (concat (map snd I) @ concat (map snd R)) s"
proof -
  have ps: "pool_steps (I @ R) k = pool_steps I k @ pool_steps R k" for k
    by (simp add: pool_steps_def)
  have cross: "commuting (pool_steps I k) (pool_steps R l)" if "k \<noteq> l" for k l
    using c that by (auto simp: pool_steps_def commuting_concat)
  have "indep_runs (map (pool_steps (I @ R)) [0..<P])"
    using pools_independent [OF I(1), of P] pools_independent [OF R(1), of P] cross cross [THEN commuting_sym]
    by (auto simp: indep_runs_def sorted_wrt_iff_nth_less ps)
  moreover have "workers False P (I @ R) = map (pool_steps (I @ R)) [0..<P]"
    by (simp add: workers_def pool_steps_def)
  ultimately have "run_ults False P choice (I @ R) s = run_steps (concat (map (pool_steps (I @ R)) [0..<P])) s"
    using P interleave_independent by (simp add: run_ults_def)
  also have "\<dots> = run_steps (concat (map (pool_steps I) [0..<P]) @ concat (map (pool_steps R) [0..<P])) s"
    unfolding ps by (rule two_rounds) (rule cross)
  also have "\<dots> = run_steps (concat (map snd I) @ concat (map snd R)) s"
    by (cases "run_steps (concat (map snd I)) s") (simp_all add: run_steps_append pools_run [OF I] pools_run [OF R])
  finally show ?thesis .
qed

text \<open>A phase of pointwise steps is the sequential loop over the whole range.\<close>

lemma pointwise_steps:
  assumes "0 < T"
  shows "concat (map snd (chunk_tasks (\<lambda>_. []) (\<lambda>_. body) (\<lambda>_. []) T P n)) = map body [0..<n]"
proof -
  have "concat (map snd (chunk_tasks (\<lambda>_. []) (\<lambda>_. body) (\<lambda>_. []) T P n))
      = map body (concat (map (part T n) [0..<T]))"
    by (simp add: chunk_tasks_def map_concat comp_def)
  then show ?thesis
    by (simp add: parts_cover [OF assms])
qed

end
