(* ===== verification/ConjGrad.thy ===== *)
theory ConjGrad
  imports Phases ReductionTree
begin

text \<open>
  The conjugate gradient benchmark, \<^verbatim>\<open>cg_argobots_fixed/CG/cg.c\<close>: the ULT functions and the phases
  of \<^verbatim>\<open>conj_grad\<close>, the norms, the normalisation and the inverse power iteration of \<^verbatim>\<open>main\<close>.

  The state \<open>cg\<close> holds the file's arrays; the numbers are of any type with the arithmetic, so the
  same definitions are read over the reals and over a model of \<^verbatim>\<open>double\<close>. An access outside an array
  is \<open>None\<close>, and so is reading a result no ULT has stored. Every ULT has its own accumulators,
  \<open>cg_local\<close>, and stores them to \<open>cg_out\<close>, the arrays the main thread allocates for the results.
  One iteration of a ULT's loop is one step: inside a phase, an iteration writes only elements that no
  other ULT of the phase uses, except between the first two phases of \<^verbatim>\<open>conj_grad\<close>, which the code
  does not separate by a join and which are therefore one phase here, \<open>init_rho_tasks\<close>.

  \<^verbatim>\<open>firstrow\<close> and \<^verbatim>\<open>firstcol\<close> are 0, \<^verbatim>\<open>lastrow\<close> and \<^verbatim>\<open>lastcol\<close> are \<^verbatim>\<open>NA - 1\<close>, as \<^verbatim>\<open>main\<close> sets them.
\<close>

section \<open>State\<close>

datatype cg_result = Rho | D | Sum | Norm1 | Norm2

record 'v cg =
  cg_colidx :: "int list"
  cg_rowstr :: "int list"
  cg_a :: "'v list"
  cg_x :: "'v list"
  cg_z :: "'v list"
  cg_p :: "'v list"
  cg_q :: "'v list"
  cg_r :: "'v list"
  cg_local :: "cg_result \<times> nat \<Rightarrow> 'v"
  cg_out :: "cg_result \<Rightarrow> 'v option list"

text \<open>What the command line and the build fix: \<^verbatim>\<open>num_threads\<close>, \<^verbatim>\<open>num_pools\<close>, the scheduler, \<^verbatim>\<open>NA\<close>.\<close>

record cg_env =
  ce_threads :: nat
  ce_pools :: nat
  ce_stealing :: bool
  ce_na :: nat

definition run_cg :: "cg_env \<Rightarrow> (nat \<Rightarrow> nat) \<Rightarrow> 'v cg task list \<Rightarrow> 'v cg \<Rightarrow> 'v cg option" where
  "run_cg env choice tasks s = run_ults (ce_stealing env) (ce_pools env) choice tasks s"

section \<open>The accumulators of a ULT\<close>

definition acc_clear :: "cg_result \<Rightarrow> nat \<Rightarrow> 'v :: zero cg action" where
  "acc_clear w t s = Some (s\<lparr>cg_local := (cg_local s)((w, t) := 0)\<rparr>)"

definition acc_add :: "cg_result \<Rightarrow> nat \<Rightarrow> 'v :: plus \<Rightarrow> 'v cg action" where
  "acc_add w t v s = Some (s\<lparr>cg_local := (cg_local s)((w, t) := cg_local s (w, t) + v)\<rparr>)"

definition acc_store :: "cg_result \<Rightarrow> nat \<Rightarrow> 'v cg action" where
  "acc_store w t s = do {
     out \<leftarrow> store (cg_out s w) t (Some (cg_local s (w, t)));
     Some (s\<lparr>cg_out := (cg_out s)(w := out)\<rparr>) }"

definition acc_tasks ::
    "cg_result list \<Rightarrow> (nat \<Rightarrow> nat \<Rightarrow> 'v :: zero cg action) \<Rightarrow> nat \<Rightarrow> nat \<Rightarrow> nat \<Rightarrow> 'v cg task list" where
  "acc_tasks ws body =
     chunk_tasks (\<lambda>t. map (\<lambda>w. acc_clear w t) ws) body (\<lambda>t. map (\<lambda>w. acc_store w t) ws)"

definition loop_tasks :: "(nat \<Rightarrow> 's action) \<Rightarrow> nat \<Rightarrow> nat \<Rightarrow> nat \<Rightarrow> 's task list" where
  "loop_tasks body = chunk_tasks (\<lambda>_. []) (\<lambda>_. body) (\<lambda>_. [])"

section \<open>The ULT functions of \<^verbatim>\<open>conj_grad\<close>\<close>

definition conj_grad_init_thread :: "nat \<Rightarrow> 'v :: zero cg action" where
  "conj_grad_init_thread j s = do {
     q \<leftarrow> store (cg_q s) j 0;
     z \<leftarrow> store (cg_z s) j 0;
     xj \<leftarrow> elem (cg_x s) (int j);
     r \<leftarrow> store (cg_r s) j xj;
     rj \<leftarrow> elem r (int j);
     p \<leftarrow> store (cg_p s) j rj;
     Some (s\<lparr>cg_q := q, cg_z := z, cg_r := r, cg_p := p\<rparr>) }"

definition conj_grad_rho_thread :: "nat \<Rightarrow> nat \<Rightarrow> 'v :: {plus, times} cg action" where
  "conj_grad_rho_thread t j s = do {
     rj \<leftarrow> elem (cg_r s) (int j);
     acc_add Rho t (rj * rj) s }"

fun row_sum :: "'v :: {plus, times} cg \<Rightarrow> 'v list \<Rightarrow> int list \<Rightarrow> 'v \<Rightarrow> 'v option" where
  "row_sum s v [] suml = Some suml"
| "row_sum s v (k # ks) suml = do {
     ak \<leftarrow> elem (cg_a s) k;
     col \<leftarrow> elem (cg_colidx s) k;
     vc \<leftarrow> elem v col;
     row_sum s v ks (suml + ak * vc) }"

definition conj_grad_q_thread :: "nat \<Rightarrow> 'v :: {zero, plus, times} cg action" where
  "conj_grad_q_thread j s = do {
     lo \<leftarrow> elem (cg_rowstr s) (int j);
     hi \<leftarrow> elem (cg_rowstr s) (int j + 1);
     suml \<leftarrow> row_sum s (cg_p s) [lo..hi - 1] 0;
     q \<leftarrow> store (cg_q s) j suml;
     Some (s\<lparr>cg_q := q\<rparr>) }"

definition conj_grad_d_thread :: "nat \<Rightarrow> nat \<Rightarrow> 'v :: {plus, times} cg action" where
  "conj_grad_d_thread t j s = do {
     pj \<leftarrow> elem (cg_p s) (int j);
     qj \<leftarrow> elem (cg_q s) (int j);
     acc_add D t (pj * qj) s }"

definition conj_grad_update_thread :: "'v \<Rightarrow> nat \<Rightarrow> nat \<Rightarrow> 'v :: {plus, minus, times} cg action" where
  "conj_grad_update_thread alpha t j s = do {
     zj \<leftarrow> elem (cg_z s) (int j);
     pj \<leftarrow> elem (cg_p s) (int j);
     z \<leftarrow> store (cg_z s) j (zj + alpha * pj);
     rj \<leftarrow> elem (cg_r s) (int j);
     qj \<leftarrow> elem (cg_q s) (int j);
     r \<leftarrow> store (cg_r s) j (rj - alpha * qj);
     rj' \<leftarrow> elem r (int j);
     acc_add Rho t (rj' * rj') (s\<lparr>cg_z := z, cg_r := r\<rparr>) }"

definition conj_grad_p_thread :: "'v \<Rightarrow> nat \<Rightarrow> 'v :: {plus, times} cg action" where
  "conj_grad_p_thread beta j s = do {
     rj \<leftarrow> elem (cg_r s) (int j);
     pj \<leftarrow> elem (cg_p s) (int j);
     p \<leftarrow> store (cg_p s) j (rj + beta * pj);
     Some (s\<lparr>cg_p := p\<rparr>) }"

definition conj_grad_final_thread :: "nat \<Rightarrow> nat \<Rightarrow> 'v :: {plus, minus, times} cg action" where
  "conj_grad_final_thread t j s = do {
     xj \<leftarrow> elem (cg_x s) (int j);
     rj \<leftarrow> elem (cg_r s) (int j);
     let suml = xj - rj;
     acc_add Sum t (suml * suml) s }"

section \<open>\<^verbatim>\<open>conj_grad\<close>\<close>

text \<open>
  The value the tree reduction of one value per ULT returns: the recurrence \<open>level\<close> of theory
  Reduction, with as many levels as there are ULTs, which is enough.
\<close>

definition tree_sum :: "nat \<Rightarrow> 'v :: {zero, plus} list \<Rightarrow> 'v" where
  "tree_sum n vs = level (+) n (base_value (+) n vs 0) n 0"

definition reduce_sum_double :: "nat \<Rightarrow> 'v :: {zero, plus} option list \<Rightarrow> 'v option" where
  "reduce_sum_double num_threads values = do {
     vs \<leftarrow> those values;
     Some (tree_sum num_threads vs) }"

text \<open>The first two creation loops: the second one starts without a join, and reuses the handles.\<close>

definition init_rho_tasks :: "cg_env \<Rightarrow> 'v :: {zero, plus, times} cg task list" where
  "init_rho_tasks env =
     loop_tasks conj_grad_init_thread (ce_threads env) (ce_pools env) (ce_na env + 1) @
     acc_tasks [Rho] conj_grad_rho_thread (ce_threads env) (ce_pools env) (ce_na env)"

definition cg_iteration ::
    "cg_env \<Rightarrow> (nat \<Rightarrow> nat \<Rightarrow> nat) \<Rightarrow> 'v :: {zero, plus, minus, times, divide} \<Rightarrow> 'v cg \<Rightarrow> ('v cg \<times> 'v) option" where
  "cg_iteration env choice rho0 s = (let T = ce_threads env; P = ce_pools env; n = ce_na env in do {
     s \<leftarrow> run_cg env (choice 0) (loop_tasks conj_grad_q_thread T P n) s;
     s \<leftarrow> run_cg env (choice 1) (acc_tasks [D] conj_grad_d_thread T P n) s;
     d \<leftarrow> reduce_sum_double T (cg_out s D);
     let alpha = rho0 div d;
     s \<leftarrow> run_cg env (choice 2) (acc_tasks [Rho] (conj_grad_update_thread alpha) T P n) s;
     rho \<leftarrow> reduce_sum_double T (cg_out s Rho);
     let beta = rho div rho0;
     s \<leftarrow> run_cg env (choice 3) (loop_tasks (conj_grad_p_thread beta) T P n) s;
     Some (s, rho) })"

fun cg_loop ::
    "cg_env \<Rightarrow> nat \<Rightarrow> (nat \<Rightarrow> nat \<Rightarrow> nat) \<Rightarrow> 'v :: {zero, plus, minus, times, divide} \<Rightarrow> 'v cg \<Rightarrow> ('v cg \<times> 'v) option" where
  "cg_loop env 0 choice rho s = Some (s, rho)"
| "cg_loop env (Suc k) choice rho s = do {
     (s, rho) \<leftarrow> cg_iteration env choice rho s;
     cg_loop env k (\<lambda>i. choice (i + 4)) rho s }"

definition cgitmax :: nat where "cgitmax = 25"

text \<open>
  \<open>sqrt'\<close> is the C library's square root. The three arrays of results are allocated, uninitialised,
  and \<open>choice i\<close> is the schedule of the \<open>i\<close>-th parallel phase.
\<close>

definition conj_grad ::
    "('v \<Rightarrow> 'v) \<Rightarrow> cg_env \<Rightarrow> (nat \<Rightarrow> nat \<Rightarrow> nat) \<Rightarrow> 'v :: {zero, plus, minus, times, divide} cg \<Rightarrow> ('v cg \<times> 'v) option" where
  "conj_grad sqrt' env choice s = (let T = ce_threads env; P = ce_pools env; n = ce_na env;
       fresh = replicate T None in do {
     let s = s\<lparr>cg_out := (cg_out s)(Rho := fresh, D := fresh, Sum := fresh)\<rparr>;
     s \<leftarrow> run_cg env (choice 0) (init_rho_tasks env) s;
     rho \<leftarrow> reduce_sum_double T (cg_out s Rho);
     (s, rho) \<leftarrow> cg_loop env cgitmax (\<lambda>i. choice (i + 1)) rho s;
     s \<leftarrow> run_cg env (choice (4 * cgitmax + 1)) (acc_tasks [Sum] conj_grad_final_thread T P n) s;
     sum \<leftarrow> reduce_sum_double T (cg_out s Sum);
     Some (s, sqrt' sum) })"

section \<open>The inverse power iteration\<close>

definition calculate_norm_temps_thread :: "nat \<Rightarrow> nat \<Rightarrow> 'v :: {plus, times} cg action" where
  "calculate_norm_temps_thread t j s = do {
     xj \<leftarrow> elem (cg_x s) (int j);
     zj \<leftarrow> elem (cg_z s) (int j);
     s \<leftarrow> acc_add Norm1 t (xj * zj) s;
     acc_add Norm2 t (zj * zj) s }"

definition calculate_norm_temps ::
    "cg_env \<Rightarrow> (nat \<Rightarrow> nat) \<Rightarrow> 'v :: {zero, plus, times} cg \<Rightarrow> ('v cg \<times> 'v \<times> 'v) option" where
  "calculate_norm_temps env choice s = (let T = ce_threads env; fresh = replicate T None in do {
     let s = s\<lparr>cg_out := (cg_out s)(Norm1 := fresh, Norm2 := fresh)\<rparr>;
     s \<leftarrow> run_cg env choice (acc_tasks [Norm1, Norm2] calculate_norm_temps_thread T (ce_pools env) (ce_na env)) s;
     norm_temp1 \<leftarrow> reduce_sum_double T (cg_out s Norm1);
     norm_temp2 \<leftarrow> reduce_sum_double T (cg_out s Norm2);
     Some (s, norm_temp1, norm_temp2) })"

definition normalize_z_thread :: "'v \<Rightarrow> nat \<Rightarrow> 'v :: times cg action" where
  "normalize_z_thread norm_temp2 j s = do {
     zj \<leftarrow> elem (cg_z s) (int j);
     x \<leftarrow> store (cg_x s) j (norm_temp2 * zj);
     Some (s\<lparr>cg_x := x\<rparr>) }"

definition normalize_z :: "cg_env \<Rightarrow> (nat \<Rightarrow> nat) \<Rightarrow> 'v \<Rightarrow> 'v :: times cg \<Rightarrow> 'v cg option" where
  "normalize_z env choice norm_temp2 s =
     run_cg env choice (loop_tasks (normalize_z_thread norm_temp2) (ce_threads env) (ce_pools env) (ce_na env)) s"

definition set_starting_vector_to_ones_thread :: "nat \<Rightarrow> 'v :: one cg action" where
  "set_starting_vector_to_ones_thread i s = do {
     x \<leftarrow> store (cg_x s) i 1;
     Some (s\<lparr>cg_x := x\<rparr>) }"

definition set_starting_vector_to_ones :: "cg_env \<Rightarrow> (nat \<Rightarrow> nat) \<Rightarrow> 'v :: one cg \<Rightarrow> 'v cg option" where
  "set_starting_vector_to_ones env choice s =
     run_cg env choice
       (loop_tasks set_starting_vector_to_ones_thread (ce_threads env) (ce_pools env) (ce_na env + 1)) s"

text \<open>
  One round of the loops of \<^verbatim>\<open>main\<close>: the line printed for it is \<open>(rnorm, zeta)\<close>. The untimed first
  round computes no \<^verbatim>\<open>zeta\<close>.
\<close>

definition power_round ::
    "('v \<Rightarrow> 'v) \<Rightarrow> 'v \<Rightarrow> cg_env \<Rightarrow> (nat \<Rightarrow> nat \<Rightarrow> nat) \<Rightarrow> 'v :: {zero, one, plus, minus, times, divide} cg
     \<Rightarrow> ('v cg \<times> 'v \<times> 'v) option" where
  "power_round sqrt' shift env choice s = do {
     (s, rnorm) \<leftarrow> conj_grad sqrt' env choice s;
     (s, norm_temp1, norm_temp2) \<leftarrow> calculate_norm_temps env (choice (4 * cgitmax + 2)) s;
     let zeta = shift + 1 div norm_temp1;
     s \<leftarrow> normalize_z env (choice (4 * cgitmax + 3)) (1 div sqrt' norm_temp2) s;
     Some (s, rnorm, zeta) }"

fun power_loop ::
    "('v \<Rightarrow> 'v) \<Rightarrow> 'v \<Rightarrow> cg_env \<Rightarrow> nat \<Rightarrow> (nat \<Rightarrow> nat \<Rightarrow> nat) \<Rightarrow> 'v :: {zero, one, plus, minus, times, divide} cg
     \<Rightarrow> ('v cg \<times> ('v \<times> 'v) list) option" where
  "power_loop sqrt' shift env 0 choice s = Some (s, [])"
| "power_loop sqrt' shift env (Suc k) choice s = do {
     (s, line) \<leftarrow> power_round sqrt' shift env choice s;
     (s, lines) \<leftarrow> power_loop sqrt' shift env k (\<lambda>i. choice (i + (4 * cgitmax + 4))) s;
     Some (s, line # lines) }"

text \<open>\<^verbatim>\<open>main\<close> from the untimed round to the end of the timed section: the printed lines.\<close>

definition cg_main ::
    "('v \<Rightarrow> 'v) \<Rightarrow> 'v \<Rightarrow> cg_env \<Rightarrow> nat \<Rightarrow> (nat \<Rightarrow> nat \<Rightarrow> nat) \<Rightarrow> 'v :: {zero, one, plus, minus, times, divide} cg
     \<Rightarrow> ('v cg \<times> ('v \<times> 'v) list) option" where
  "cg_main sqrt' shift env niter choice s = do {
     (s, _) \<leftarrow> power_round sqrt' shift env choice s;
     s \<leftarrow> set_starting_vector_to_ones env (choice (4 * cgitmax + 4)) s;
     power_loop sqrt' shift env niter (\<lambda>i. choice (i + (4 * cgitmax + 5))) s }"

text \<open>The last \<^verbatim>\<open>zeta\<close>, 0 before the first line.\<close>

definition final_zeta :: "('v :: zero \<times> 'v) list \<Rightarrow> 'v" where
  "final_zeta lines = (if lines = [] then 0 else snd (last lines))"

section \<open>Command line and verification\<close>

text \<open>The scheduler the environment asks for: whether it steals, and whether it uses cost estimates.\<close>

definition configure_scheduler_mode :: "string option \<Rightarrow> bool \<times> bool" where
  "configure_scheduler_mode scheduler_mode = (case scheduler_mode of
     None \<Rightarrow> (False, False)
   | Some m \<Rightarrow> if m = [] \<or> m = ''default'' then (False, False) else (True, m = ''new'' \<or> m = ''cost-aware''))"

text \<open>An optional argument, as \<^verbatim>\<open>atoi\<close> reads it.\<close>

definition count_argument :: "int option \<Rightarrow> nat" where
  "count_argument arg = (case arg of None \<Rightarrow> 4 | Some n \<Rightarrow> if n < 1 then 4 else nat n)"

text \<open>\<^verbatim>\<open>initialize_argobots\<close>: one pool per stream.\<close>

definition cg_start :: "nat \<Rightarrow> string option \<Rightarrow> int option \<Rightarrow> int option \<Rightarrow> cg_env" where
  "cg_start na mode xstreams threads =
     \<lparr>ce_threads = count_argument threads, ce_pools = count_argument xstreams,
      ce_stealing = fst (configure_scheduler_mode mode), ce_na = na\<rparr>"

definition cg_class :: "nat \<Rightarrow> nat \<Rightarrow> nat \<Rightarrow> nat \<Rightarrow> (char \<times> real) option" where
  "cg_class na nonzer niter shift =
     (if na = 1400 \<and> nonzer = 7 \<and> niter = 15 \<and> shift = 10 then Some (CHR ''S'', 85971775078648 / 10 ^ 13)
      else if na = 7000 \<and> nonzer = 8 \<and> niter = 15 \<and> shift = 12 then Some (CHR ''W'', 10362595087124 / 10 ^ 12)
      else if na = 14000 \<and> nonzer = 11 \<and> niter = 15 \<and> shift = 20 then Some (CHR ''A'', 17130235054029 / 10 ^ 12)
      else if na = 75000 \<and> nonzer = 13 \<and> niter = 75 \<and> shift = 60 then Some (CHR ''B'', 22712745482631 / 10 ^ 12)
      else if na = 150000 \<and> nonzer = 15 \<and> niter = 75 \<and> shift = 110 then Some (CHR ''C'', 28973605592845 / 10 ^ 12)
      else if na = 1500000 \<and> nonzer = 21 \<and> niter = 100 \<and> shift = 500 then Some (CHR ''D'', 52514532105794 / 10 ^ 12)
      else if na = 9000000 \<and> nonzer = 26 \<and> niter = 100 \<and> shift = 1500 then Some (CHR ''E'', 77522164599383 / 10 ^ 12)
      else None)"

definition cg_verified :: "(char \<times> real) option \<Rightarrow> real \<Rightarrow> bool" where
  "cg_verified cls zeta = (case cls of None \<Rightarrow> False
     | Some (_, zeta_verify_value) \<Rightarrow> \<bar>zeta - zeta_verify_value\<bar> / zeta_verify_value \<le> 1 / 10 ^ 10)"

section \<open>Vectors and the textbook method\<close>

text \<open>
  The reference, on vectors as functions of the index: the method of Hestenes and Stiefel with a
  fixed number of iterations, for the linear map \<open>A\<close>.
\<close>

type_synonym vec = "nat \<Rightarrow> real"

definition dot :: "nat \<Rightarrow> vec \<Rightarrow> vec \<Rightarrow> real" where
  "dot n u v = (\<Sum>j<n. u j * v j)"

fun cg_textbook :: "nat \<Rightarrow> (vec \<Rightarrow> vec) \<Rightarrow> nat \<Rightarrow> vec \<times> vec \<times> vec \<times> real \<Rightarrow> vec \<times> vec \<times> vec \<times> real" where
  "cg_textbook n A 0 st = st"
| "cg_textbook n A (Suc k) (z, r, p, rho) =
     (let q = A p; alpha = rho / dot n p q;
          z' = (\<lambda>j. z j + alpha * p j); r' = (\<lambda>j. r j - alpha * q j);
          rho' = dot n r' r'; p' = (\<lambda>j. r' j + rho' / rho * p j)
      in cg_textbook n A k (z', r', p', rho'))"

text \<open>The matrix the arrays \<^verbatim>\<open>rowstr\<close>, \<^verbatim>\<open>colidx\<close> and \<^verbatim>\<open>a\<close> stand for, applied to a vector.\<close>

definition csr_mult :: "nat \<Rightarrow> real cg \<Rightarrow> vec \<Rightarrow> vec" where
  "csr_mult n s v j = (if j < n then
     (\<Sum>k\<leftarrow>[cg_rowstr s ! j..cg_rowstr s ! (j + 1) - 1]. cg_a s ! nat k * v (nat (cg_colidx s ! nat k)))
   else 0)"

text \<open>The vector in the first \<open>n\<close> elements of an array.\<close>

definition vec_of :: "nat \<Rightarrow> real list \<Rightarrow> vec" where
  "vec_of n xs j = (if j < n then xs ! j else 0)"

text \<open>The arrays have their declared sizes and the matrix entries are inside the matrix.\<close>

definition cg_arrays_ok :: "nat \<Rightarrow> 'v cg \<Rightarrow> bool" where
  "cg_arrays_ok n s \<longleftrightarrow> length (cg_x s) = n + 2 \<and> length (cg_z s) = n + 2 \<and> length (cg_p s) = n + 2 \<and>
     length (cg_q s) = n + 2 \<and> length (cg_r s) = n + 2 \<and> length (cg_rowstr s) = n + 1 \<and>
     list_all (\<lambda>j. list_all (\<lambda>k. 0 \<le> k \<and> k < int (length (cg_a s)) \<and> k < int (length (cg_colidx s)) \<and>
         0 \<le> cg_colidx s ! nat k \<and> cg_colidx s ! nat k < int n)
       [cg_rowstr s ! j..cg_rowstr s ! (j + 1) - 1]) [0..<n]"

text \<open>A run of the benchmark in which the first two phases of \<^verbatim>\<open>conj_grad\<close> cannot disturb each other.\<close>

definition cg_env_ok :: "cg_env \<Rightarrow> bool" where
  "cg_env_ok env \<longleftrightarrow> 0 < ce_threads env \<and> 0 < ce_pools env \<and> \<not> ce_stealing env \<and>
     (ce_threads env = 1 \<or> \<not> ce_threads env dvd ce_na env + 1)"

lemma count_argument_pos [simp]: "0 < count_argument arg"
  by (simp add: count_argument_def split: option.split)

lemma cg_start_ok:
  "cg_env_ok (cg_start na mode xs ts) \<longleftrightarrow> (mode = None \<or> mode = Some [] \<or> mode = Some ''default'') \<and>
     (count_argument ts = 1 \<or> \<not> count_argument ts dvd na + 1)"
  by (auto simp: cg_env_ok_def cg_start_def configure_scheduler_mode_def split: option.split)

end
