(* ===== verification/ConjGradFacts.thy ===== *)
theory ConjGradFacts
  imports ConjGrad
begin

text \<open>
  The phases of theory ConjGrad meet the contract \<open>chunked_phase\<close>, so their schedule does not
  matter; what every phase computes; and, over the reals, that \<^verbatim>\<open>conj_grad\<close> is the textbook method.
\<close>

section \<open>The phases do not depend on the schedule\<close>

lemma elem_nat [simp]: "elem xs (int j) = (if j < length xs then Some (xs ! j) else None)"
  by (simp add: elem_def)

lemma commuting_single: "commuting [f] [g] \<longleftrightarrow> (\<forall>s. Option.bind (f s) g = Option.bind (g s) f)"
  by (simp add: commuting_def)

lemma row_sum_frame [simp]:
  "row_sum (s\<lparr>cg_q := q\<rparr>) v ks acc = row_sum s v ks acc"
  by (induction ks arbitrary: acc) (simp_all split: bind_split)

interpretation init_phase: chunked_phase "\<lambda>_. []" "\<lambda>_. conj_grad_init_thread" "\<lambda>_. []"
  by unfold_locales
    (simp_all add: commuting_single conj_grad_init_thread_def store_def list_update_swap)

interpretation q_phase: chunked_phase "\<lambda>_. []" "\<lambda>_. conj_grad_q_thread" "\<lambda>_. []"
  by unfold_locales
    (auto simp: commuting_single conj_grad_q_thread_def store_def list_update_swap elem_def split: bind_splits)

interpretation p_phase: chunked_phase "\<lambda>_. []" "\<lambda>_. conj_grad_p_thread beta" "\<lambda>_. []" for beta
  by unfold_locales
    (auto simp: commuting_single conj_grad_p_thread_def store_def list_update_swap)

interpretation normalize_phase: chunked_phase "\<lambda>_. []" "\<lambda>_. normalize_z_thread c" "\<lambda>_. []" for c
  by unfold_locales
    (auto simp: commuting_single normalize_z_thread_def store_def list_update_swap)

interpretation ones_phase: chunked_phase "\<lambda>_. []" "\<lambda>_. set_starting_vector_to_ones_thread" "\<lambda>_. []"
  by unfold_locales
    (auto simp: commuting_single set_starting_vector_to_ones_thread_def store_def list_update_swap)

text \<open>What a body may do to the accumulators and results: add to those of its own ULT.\<close>

lemma clear_clear: "t \<noteq> u \<Longrightarrow> commuting [acc_clear w t] [acc_clear w' u]"
  by (simp add: commuting_single acc_clear_def fun_upd_twist)

lemma clear_store: "t \<noteq> u \<Longrightarrow> commuting [acc_clear w t] [acc_store w' u]"
  by (simp add: commuting_single acc_clear_def acc_store_def store_def)

lemma store_store: "t \<noteq> u \<Longrightarrow> commuting [acc_store w t] [acc_store w' u]"
  by (cases "w = w'") (auto simp: commuting_single acc_store_def store_def list_update_swap fun_upd_twist)

lemma commuting_maps:
  "(\<And>w w'. commuting [f w] [g w']) \<Longrightarrow> commuting (map f ws) (map g ws')"
  by (auto simp: commuting_def)

lemma ends_commute:
  "t \<noteq> u \<Longrightarrow> commuting (map (\<lambda>w. acc_clear w t) ws @ map (\<lambda>w. acc_store w t) ws)
                 (map (\<lambda>w. acc_clear w u) ws @ map (\<lambda>w. acc_store w u) ws)"
  using clear_store [of u t] commuting_sym
  by (auto intro!: commuting_maps clear_clear store_store clear_store)

text \<open>A locale for the phases whose ULTs also sum up: \<open>ws\<close> are the sums.\<close>

locale summing_phase =
  fixes ws :: "cg_result list" and body :: "nat \<Rightarrow> nat \<Rightarrow> 'v :: zero cg action"
  assumes clear_body: "t \<noteq> u \<Longrightarrow> commuting [acc_clear w t] [body u k]"
    and store_body: "t \<noteq> u \<Longrightarrow> commuting [acc_store w t] [body u k]"
    and body_body: "t \<noteq> u \<Longrightarrow> j \<noteq> k \<Longrightarrow> commuting [body t j] [body u k]"

sublocale summing_phase \<subseteq> chunked_phase "\<lambda>t. map (\<lambda>w. acc_clear w t) ws" body "\<lambda>t. map (\<lambda>w. acc_store w t) ws"
proof
  fix t u j k :: nat
  assume tu: "t \<noteq> u"
  show "commuting (map (\<lambda>w. acc_clear w t) ws @ map (\<lambda>w. acc_store w t) ws)
                  (map (\<lambda>w. acc_clear w u) ws @ map (\<lambda>w. acc_store w u) ws)"
    by (rule ends_commute [OF tu])
  show "commuting (map (\<lambda>w. acc_clear w t) ws @ map (\<lambda>w. acc_store w t) ws) [body u k]"
    using clear_body [OF tu, of _ k] store_body [OF tu, of _ k] by (auto simp: commuting_def)
  show "commuting [body t j] [body u k]" if "j \<noteq> k"
    using body_body [OF tu that] .
qed

context summing_phase
begin

lemma run_sums:
  assumes "0 < ce_pools env"
  shows "run_cg env choice (acc_tasks ws body T (ce_pools env) n) s
    = run_steps (concat (map snd (acc_tasks ws body T (ce_pools env) n))) s"
  unfolding run_cg_def acc_tasks_def by (rule phase_sequential [OF assms])

end

lemmas summing_defs = commuting_single acc_clear_def acc_store_def acc_add_def store_def

interpretation rho_phase: summing_phase "[Rho]" conj_grad_rho_thread
  by unfold_locales (auto simp: summing_defs conj_grad_rho_thread_def fun_upd_twist)

interpretation d_phase: summing_phase "[D]" conj_grad_d_thread
  by unfold_locales (auto simp: summing_defs conj_grad_d_thread_def fun_upd_twist)

interpretation update_phase: summing_phase "[Rho]" "conj_grad_update_thread alpha" for alpha
  by unfold_locales (auto simp: summing_defs conj_grad_update_thread_def fun_upd_twist list_update_swap)

interpretation final_phase: summing_phase "[Sum]" conj_grad_final_thread
  by unfold_locales (auto simp: summing_defs conj_grad_final_thread_def fun_upd_twist Let_def)

interpretation norm_phase: summing_phase "[Norm1, Norm2]" calculate_norm_temps_thread
  by unfold_locales (auto simp: summing_defs calculate_norm_temps_thread_def fun_upd_twist)

text \<open>Every phase as the sequential run of its ULTs, whatever the schedule and the scheduler.\<close>

lemma run_loop:
  assumes "0 < ce_pools env" "0 < T" "chunked_phase (\<lambda>_. []) (\<lambda>_. body) (\<lambda>_. [])"
  shows "run_cg env choice (loop_tasks body T (ce_pools env) n) s = run_steps (map body [0..<n]) s"
  unfolding run_cg_def loop_tasks_def pointwise_steps [OF assms(2), of body "ce_pools env", symmetric]
  by (rule chunked_phase.phase_sequential [OF assms(3,1)])

text \<open>
  The phase of the initialisation and the first sum: when the two loops split their ranges at the
  same places, a ULT of the second loop reads only what the ULT of its own number wrote, and that
  one is before it in the same pool.
\<close>

lemma same_split:
  fixes n :: nat
  assumes "1 < T" "\<not> T dvd n + 1"
  shows "(n + 1) div T = n div T"
proof -
  have "(n + 1) mod T \<noteq> 0"
    using assms(2) by (simp add: mod_eq_0_iff_dvd)
  then show ?thesis
    using div_Suc [of n T] by (simp add: mod_Suc split: if_splits)
qed

lemma init_rho_apart:
  assumes "1 < T" "\<not> T dvd n + 1" "t < T" "u < T" "t \<noteq> u"
    and "j \<in> set (part T (n + 1) t)" "k \<in> set (part T n u)"
  shows "j \<noteq> k"
proof (cases "t < u")
  case True
  then have "part_stop T (n + 1) t \<le> part_start T (n + 1) u"
    using part_start_mono assms(4) by blast
  then show ?thesis
    using assms(6,7) same_split [OF assms(1,2)] by (auto simp: part_def part_start_def)
next
  case False
  then have "part_stop T n u \<le> part_start T n t"
    using part_start_mono assms(3,5) by (meson linorder_neqE_nat)
  then show ?thesis
    using assms(6,7) same_split [OF assms(1,2)] by (auto simp: part_def part_start_def)
qed

lemma init_rho_commute: "j \<noteq> k \<Longrightarrow> commuting [conj_grad_init_thread j] [conj_grad_rho_thread u k]"
  by (auto simp: summing_defs conj_grad_rho_thread_def conj_grad_init_thread_def)

lemma init_ends_commute:
  "commuting (map conj_grad_init_thread js) [acc_clear w t]"
  "commuting (map conj_grad_init_thread js) [acc_store w t]"
  by (auto simp: commuting_def acc_clear_def acc_store_def conj_grad_init_thread_def store_def)

lemma tasks_below: "t \<in> set (chunk_tasks before body after T P n) \<Longrightarrow> 0 < P \<Longrightarrow> fst t < P"
  by (auto simp: chunk_tasks_def)

lemma run_init_rho:
  assumes "cg_env_ok env"
  shows "run_cg env choice (init_rho_tasks env) s =
    run_steps (map conj_grad_init_thread [0..<ce_na env + 1] @
       concat (map snd (acc_tasks [Rho] conj_grad_rho_thread (ce_threads env) (ce_pools env) (ce_na env)))) s"
proof -
  let ?T = "ce_threads env" and ?P = "ce_pools env" and ?n = "ce_na env"
  let ?I = "loop_tasks conj_grad_init_thread ?T ?P (?n + 1) :: 'a cg task list"
  let ?R = "acc_tasks [Rho] conj_grad_rho_thread ?T ?P ?n :: 'a cg task list"
  have env: "0 < ?T" "0 < ?P" "\<not> ce_stealing env" "?T = 1 \<or> \<not> ?T dvd ?n + 1"
    using assms by (auto simp: cg_env_ok_def)
  have "commuting (snd t) (snd u)" if tu: "t \<in> set ?I" "u \<in> set ?R" "fst t \<noteq> fst u" for t u
  proof -
    obtain i where i: "i < ?T" "t = (i mod ?P, map conj_grad_init_thread (part ?T (?n + 1) i))"
      using tu(1) by (auto simp: loop_tasks_def chunk_tasks_def)
    obtain k where k: "k < ?T"
      "u = (k mod ?P, [acc_clear Rho k] @ map (conj_grad_rho_thread k) (part ?T ?n k) @ [acc_store Rho k])"
      using tu(2) by (auto simp: acc_tasks_def chunk_tasks_def)
    have ik: "i \<noteq> k"
      using tu(3) i k by auto
    then have "1 < ?T"
      using i(1) k(1) by simp
    then have many: "1 < ?T" "\<not> ?T dvd ?n + 1"
      using env(4) by auto
    have "commuting (map conj_grad_init_thread (part ?T (?n + 1) i)) (map (conj_grad_rho_thread k) (part ?T ?n k))"
      by (rule commuting_maps2) (rule init_rho_commute [OF init_rho_apart [OF many i(1) k(1) ik]])
    then show ?thesis
      by (simp only: i(2) k(2) snd_conv commuting_append simp_thms init_ends_commute)
  qed
  then have "run_ults False ?P choice (?I @ ?R) s = run_steps (concat (map snd ?I) @ concat (map snd ?R)) s"
    unfolding loop_tasks_def acc_tasks_def
    by (intro rounds_run init_phase.tasks_independent rho_phase.tasks_independent ballI tasks_below env) auto
  moreover have "concat (map snd ?I) = map conj_grad_init_thread [0..<?n + 1]"
    unfolding loop_tasks_def by (rule pointwise_steps [OF env(1)])
  ultimately show ?thesis
    by (simp only: run_cg_def init_rho_tasks_def env(3))
qed

section \<open>Reproducible results\<close>

text \<open>
  Two runs with as many threads, for the same problem, on any number of streams and in any order:
  the same values, in any arithmetic.
\<close>

lemma tasks_any_pool: "map snd (chunk_tasks before body after T P n) = map snd (chunk_tasks before body after T P' n)"
  by (simp add: chunk_tasks_def comp_def)

lemma sums_any_pool: "map snd (acc_tasks ws body T P n) = map snd (acc_tasks ws body T P' n)"
  unfolding acc_tasks_def by (rule tasks_any_pool)

lemmas phase_runs =
  run_loop [OF _ _ q_phase.chunked_phase_axioms] run_loop [OF _ _ p_phase.chunked_phase_axioms]
  run_loop [OF _ _ normalize_phase.chunked_phase_axioms] run_loop [OF _ _ ones_phase.chunked_phase_axioms]
  d_phase.run_sums update_phase.run_sums final_phase.run_sums norm_phase.run_sums

definition same_problem :: "cg_env \<Rightarrow> cg_env \<Rightarrow> bool" where
  "same_problem env env' \<longleftrightarrow> ce_threads env = ce_threads env' \<and> ce_na env = ce_na env' \<and>
     cg_env_ok env \<and> cg_env_ok env'"

lemma same_problemD:
  assumes "same_problem env env'"
  shows "ce_threads env' = ce_threads env" "ce_na env' = ce_na env" "0 < ce_threads env"
    "0 < ce_pools env" "0 < ce_pools env'" "cg_env_ok env" "cg_env_ok env'"
  using assms by (auto simp: same_problem_def cg_env_ok_def)

lemma sums_pool: "concat (map snd (acc_tasks ws body T P n)) = concat (map snd (acc_tasks ws body T 1 n))"
  by (simp only: sums_any_pool [of ws body T P n 1])

lemma iteration_same:
  assumes "same_problem env env'"
  shows "cg_iteration env choice rho s = cg_iteration env' choice' rho s"
  using same_problemD [OF assms]
  by (simp add: cg_iteration_def Let_def phase_runs sums_pool [where P = "ce_pools env"] sums_pool [where P = "ce_pools env'"])

lemma loop_same:
  assumes "same_problem env env'"
  shows "cg_loop env k choice rho s = cg_loop env' k choice' rho s"
proof (induction k arbitrary: choice choice' rho s)
  case (Suc k)
  show ?case
    using Suc.IH iteration_same [OF assms, of choice rho s choice']
    by (cases "cg_iteration env' choice' rho s") (auto split: prod.split)
qed simp

lemma conj_grad_same:
  assumes "same_problem env env'"
  shows "conj_grad sqrt' env choice s = conj_grad sqrt' env' choice' s"
  using same_problemD [OF assms]
  by (simp add: conj_grad_def Let_def run_init_rho phase_runs sums_pool [where P = "ce_pools env"]
      sums_pool [where P = "ce_pools env'"] loop_same [OF assms, where choice' = "\<lambda>i. choice' (i + 1)"])

lemma power_round_same:
  assumes "same_problem env env'"
  shows "power_round sqrt' shift env choice s = power_round sqrt' shift env' choice' s"
  using same_problemD [OF assms]
  by (simp add: power_round_def calculate_norm_temps_def normalize_z_def Let_def phase_runs
      sums_pool [where P = "ce_pools env"] sums_pool [where P = "ce_pools env'"]
      conj_grad_same [OF assms, of sqrt' choice s choice'])

lemma power_loop_same:
  assumes "same_problem env env'"
  shows "power_loop sqrt' shift env k choice s = power_loop sqrt' shift env' k choice' s"
proof (induction k arbitrary: choice choice' s)
  case (Suc k)
  let ?c = "\<lambda>i. choice (i + (4 * cgitmax + 4))" and ?c' = "\<lambda>i. choice' (i + (4 * cgitmax + 4))"
  have IH: "power_loop sqrt' shift env k ?c s = power_loop sqrt' shift env' k ?c' s" for s
    by (rule Suc.IH)
  show ?case
    by (simp only: power_loop.simps power_round_same [OF assms, of sqrt' shift choice s choice'] IH)
qed simp

lemma cg_main_same:
  assumes "same_problem env env'"
  shows "cg_main sqrt' shift env niter choice s = cg_main sqrt' shift env' niter choice' s"
proof -
  let ?c = "\<lambda>i. choice (i + (4 * cgitmax + 5))" and ?c' = "\<lambda>i. choice' (i + (4 * cgitmax + 5))"
  have l: "power_loop sqrt' shift env niter ?c s = power_loop sqrt' shift env' niter ?c' s" for s
    by (rule power_loop_same [OF assms])
  show ?thesis
    unfolding cg_main_def power_round_same [OF assms, of sqrt' shift choice s choice'] l
    using same_problemD [OF assms] by (simp add: set_starting_vector_to_ones_def phase_runs)
qed

section \<open>What a phase computes\<close>

definition overwrite :: "nat \<Rightarrow> (nat \<Rightarrow> 'b) \<Rightarrow> 'b list \<Rightarrow> 'b list" where
  "overwrite n f xs = map f [0..<n] @ drop n xs"

lemma overwrite_simps [simp]:
  "overwrite 0 f xs = xs"
  "n \<le> length xs \<Longrightarrow> length (overwrite n f xs) = length xs"
  "n \<le> length xs \<Longrightarrow> j < length xs \<Longrightarrow> overwrite n f xs ! j = (if j < n then f j else xs ! j)"
  by (auto simp: overwrite_def nth_append)

lemma overwrite_Suc [simp]: "n < length xs \<Longrightarrow> (overwrite n f xs)[n := f n] = overwrite (Suc n) f xs"
  by (rule nth_equalityI) (auto simp: nth_list_update less_Suc_eq)

lemma steps_upto:
  assumes "\<And>j. j < n \<Longrightarrow> body j (U j) = Some (U (Suc j))"
  shows "run_steps (map body [0..<n]) (U 0) = Some (U n)"
  using assms by (induction n) (simp_all add: run_steps_append)

text \<open>The sums of a phase, with \<open>U j\<close> the state after \<open>j\<close> iterations and \<open>g w j\<close> the \<open>j\<close>-th summand of \<open>w\<close>.\<close>

definition add_terms :: "cg_result list \<Rightarrow> (cg_result \<Rightarrow> 'v list) \<Rightarrow> nat \<Rightarrow> (cg_result \<times> nat \<Rightarrow> 'v :: plus) \<Rightarrow> cg_result \<times> nat \<Rightarrow> 'v" where
  "add_terms ws vs t l = (\<lambda>(w, u). if w \<in> set ws \<and> u = t then foldl (+) (l (w, u)) (vs w) else l (w, u))"

definition cleared :: "cg_result list \<Rightarrow> nat \<Rightarrow> (cg_result \<times> nat \<Rightarrow> 'v :: zero) \<Rightarrow> cg_result \<times> nat \<Rightarrow> 'v" where
  "cleared ws t l = (\<lambda>(w, u). if w \<in> set ws \<and> u = t then 0 else l (w, u))"

definition stored :: "cg_result list \<Rightarrow> nat \<Rightarrow> (cg_result \<times> nat \<Rightarrow> 'v) \<Rightarrow> (cg_result \<Rightarrow> 'v option list) \<Rightarrow> cg_result \<Rightarrow> 'v option list" where
  "stored ws t l out = (\<lambda>w. if w \<in> set ws then (out w)[t := Some (l (w, t))] else out w)"

lemma run_clears:
  "run_steps (map (\<lambda>w. acc_clear w t) ws) s = Some (s\<lparr>cg_local := cleared ws t (cg_local s)\<rparr>)"
proof (induction ws arbitrary: s)
  case Nil
  have "cleared [] t (cg_local s) = cg_local s"
    by (simp add: cleared_def fun_eq_iff)
  then show ?case
    by simp
next
  case (Cons w ws)
  have "cleared ws t (\<lambda>a. if a = (w, t) then 0 else cg_local s a) = cleared (w # ws) t (cg_local s)"
    by (auto simp: cleared_def fun_eq_iff)
  then show ?case
    using Cons by (simp add: acc_clear_def)
qed

lemma run_stores:
  "\<forall>w \<in> set ws. t < length (cg_out s w) \<Longrightarrow>
   run_steps (map (\<lambda>w. acc_store w t) ws) s = Some (s\<lparr>cg_out := stored ws t (cg_local s) (cg_out s)\<rparr>)"
proof (induction ws arbitrary: s)
  case Nil
  have "stored [] t (cg_local s) (cg_out s) = cg_out s"
    by (simp add: stored_def fun_eq_iff)
  then show ?case
    by simp
next
  case (Cons w ws)
  let ?out = "(cg_out s)(w := (cg_out s w)[t := Some (cg_local s (w, t))])"
  have "stored ws t (cg_local s) (\<lambda>a. if a = w then (cg_out s w)[t := Some (cg_local s (w, t))] else cg_out s a)
      = stored (w # ws) t (cg_local s) (cg_out s)"
    by (auto simp: stored_def fun_eq_iff)
  then show ?case
    using Cons.IH [of "s\<lparr>cg_out := ?out\<rparr>"] Cons.prems by (simp add: acc_store_def store_def)
qed

lemma run_terms:
  assumes "\<And>j l out. j < n \<Longrightarrow> body t j (U j\<lparr>cg_local := l, cg_out := out\<rparr>)
      = Some (U (Suc j)\<lparr>cg_local := add_terms ws (\<lambda>w. [g w j]) t l, cg_out := out\<rparr>)"
    and "a \<le> b" "b \<le> n"
  shows "run_steps (map (body t) [a..<b]) (U a\<lparr>cg_local := l, cg_out := out\<rparr>)
      = Some (U b\<lparr>cg_local := add_terms ws (\<lambda>w. map (g w) [a..<b]) t l, cg_out := out\<rparr>)"
  using assms(2,3)
proof (induction b)
  case 0
  have "add_terms ws (\<lambda>w. []) t l = l"
    by (simp add: add_terms_def fun_eq_iff)
  then show ?case
    using 0 by simp
next
  case (Suc b)
  show ?case
  proof (cases "a = Suc b")
    case True
    have "add_terms ws (\<lambda>w. []) t l = l"
      by (simp add: add_terms_def fun_eq_iff)
    then show ?thesis
      using True by simp
  next
    case False
    have "add_terms ws (\<lambda>w. [g w b]) t (add_terms ws (\<lambda>w. map (g w) [a..<b]) t l)
        = add_terms ws (\<lambda>w. map (g w) [a..<Suc b]) t l"
      using False Suc.prems by (auto simp: add_terms_def fun_eq_iff)
    then show ?thesis
      using False Suc assms(1) [of b] by (simp add: run_steps_append)
  qed
qed

end
