(* ===== verification/ConjGradReal.thy ===== *)
theory ConjGradReal
  imports ConjGradFacts
begin

text \<open>
  What the phases of theory ConjGrad compute, and over the reals the textbook methods they compute:
  the sums of a phase are the sums over the whole range, \<^verbatim>\<open>conj_grad\<close> is \<open>cg_textbook\<close>, the residual
  it maintains is \<open>x - A z\<close>, and the norm it returns is not the norm of that residual.
\<close>

section \<open>The sums of a phase\<close>

text \<open>
  \<open>sum_body\<close>: iteration \<open>j\<close> of ULT \<open>t\<close> goes from \<open>U j\<close> to \<open>U (Suc j)\<close> and adds \<open>g w j\<close> to each of its sums.
\<close>

definition sum_body ::
    "nat \<Rightarrow> (nat \<Rightarrow> nat \<Rightarrow> 'v :: plus cg action) \<Rightarrow> (nat \<Rightarrow> 'v cg) \<Rightarrow> cg_result list \<Rightarrow> (cg_result \<Rightarrow> nat \<Rightarrow> 'v) \<Rightarrow> bool" where
  "sum_body n body U ws g \<longleftrightarrow> (\<forall>t j l out. j < n \<longrightarrow> body t j (U j\<lparr>cg_local := l, cg_out := out\<rparr>)
      = Some (U (Suc j)\<lparr>cg_local := add_terms ws (\<lambda>w. [g w j]) t l, cg_out := out\<rparr>))"

lemma update_order [cell_simps]: "s\<lparr>cg_out := out, cg_local := l\<rparr> = s\<lparr>cg_local := l, cg_out := out\<rparr>"
  by simp

lemma run_sum_task:
  assumes step: "sum_body n body U ws g"
    and ab: "a \<le> b" "b \<le> n" and out: "\<forall>w \<in> set ws. t < length (out w)"
  obtains l' where "run_steps (map (\<lambda>w. acc_clear w t) ws @ map (body t) [a..<b] @ map (\<lambda>w. acc_store w t) ws)
        (U a\<lparr>cg_local := l, cg_out := out\<rparr>)
      = Some (U b\<lparr>cg_local := l', cg_out := (\<lambda>w. if w \<in> set ws then (out w)[t := Some (foldl (+) 0 (map (g w) [a..<b]))] else out w)\<rparr>)"
proof -
  let ?l = "add_terms ws (\<lambda>w. map (g w) [a..<b]) t (cleared ws t l)"
  have "stored ws t ?l out = (\<lambda>w. if w \<in> set ws then (out w)[t := Some (foldl (+) 0 (map (g w) [a..<b]))] else out w)"
    by (auto simp: stored_def add_terms_def cleared_def fun_eq_iff)
  moreover have "run_steps (map (body t) [a..<b]) (U a\<lparr>cg_local := cleared ws t l, cg_out := out\<rparr>)
      = Some (U b\<lparr>cg_local := ?l, cg_out := out\<rparr>)"
    by (rule run_terms [OF _ ab]) (use step in \<open>simp add: sum_body_def\<close>)
  ultimately show ?thesis
    using that [of ?l] out by (simp add: run_steps_append run_clears run_stores cell_simps)
qed

text \<open>The first \<open>m\<close> parts end where the next one starts, and the last one ends at \<open>n\<close>.\<close>

definition part_end :: "nat \<Rightarrow> nat \<Rightarrow> nat \<Rightarrow> nat" where
  "part_end T n m = (if m = T then n else part_start T n m)"

lemma part_end_steps:
  assumes "m < T"
  shows "part T n m = [part_end T n m..<part_end T n (Suc m)]"
    and "part_end T n m \<le> part_end T n (Suc m)" and "part_end T n (Suc m) \<le> n"
proof -
  show e: "part T n m = [part_end T n m..<part_end T n (Suc m)]"
    using assms by (auto simp: part_def part_end_def part_stop_def part_start_def add.commute)
  show b: "part_end T n (Suc m) \<le> n"
    using part_stop_le [of m T n] assms
    by (auto simp: part_end_def part_stop_def part_start_def add.commute split: if_splits)
  have "part_start T n m \<le> n"
    unfolding part_start_def by (rule le_trans [OF mult_le_mono1 [of m T]]) (use assms in simp_all)
  then show "part_end T n m \<le> part_end T n (Suc m)"
    using assms by (auto simp: part_end_def part_start_def)
qed

definition part_sums :: "nat \<Rightarrow> nat \<Rightarrow> (nat \<Rightarrow> 'v :: {zero, plus}) \<Rightarrow> nat \<Rightarrow> 'v option list" where
  "part_sums T n g m = map (\<lambda>t. Some (foldl (+) 0 (map g (part T n t)))) [0..<m]"

lemma run_sums_value:
  assumes step: "sum_body n body U ws g"
    and T: "0 < T" and out: "\<forall>w \<in> set ws. length (cg_out s w) = T" and U: "U 0 = s"
  obtains l where "run_steps (concat (map snd (acc_tasks ws body T P n))) s
      = Some (U n\<lparr>cg_local := l, cg_out := (\<lambda>w. if w \<in> set ws then part_sums T n (g w) T else cg_out s w)\<rparr>)"
proof -
  let ?task = "\<lambda>t. map (\<lambda>w. acc_clear w t) ws @ map (body t) (part T n t) @ map (\<lambda>w. acc_store w t) ws"
  let ?out = "\<lambda>m w. if w \<in> set ws then part_sums T n (g w) m @ drop m (cg_out s w) else cg_out s w"
  have "\<exists>l. run_steps (concat (map ?task [0..<m])) s = Some (U (part_end T n m)\<lparr>cg_local := l, cg_out := ?out m\<rparr>)"
    if "m \<le> T" for m
    using that
  proof (induction m)
    case 0
    have "?out 0 = cg_out s" "part_end T n 0 = 0"
      using T by (auto simp: part_sums_def part_end_def part_start_def)
    then show ?case
      using U by (auto intro: exI [of _ "cg_local s"])
  next
    case (Suc m)
    then obtain l where l: "run_steps (concat (map ?task [0..<m])) s
        = Some (U (part_end T n m)\<lparr>cg_local := l, cg_out := ?out m\<rparr>)"
      by auto
    have m: "m < T"
      using Suc.prems by simp
    have len: "\<forall>w \<in> set ws. m < length (?out m w)"
      using out m by (simp add: part_sums_def)
    have upd: "(\<lambda>w. if w \<in> set ws then (?out m w)[m := Some (foldl (+) 0 (map (g w) (part T n m)))] else ?out m w) = ?out (Suc m)"
      using out m by (auto simp: part_sums_def fun_eq_iff list_update_append Cons_nth_drop_Suc [symmetric])
    obtain l' where "run_steps (?task m) (U (part_end T n m)\<lparr>cg_local := l, cg_out := ?out m\<rparr>)
        = Some (U (part_end T n (Suc m))\<lparr>cg_local := l', cg_out := ?out (Suc m)\<rparr>)"
      by (rule run_sum_task [OF step part_end_steps(2,3) [OF m] len, of l]) (simp only: part_end_steps(1) [OF m, symmetric] upd)
    then show ?case
      using l by (auto simp: run_steps_append)
  qed
  from this [of T] obtain l where "run_steps (concat (map ?task [0..<T])) s = Some (U n\<lparr>cg_local := l, cg_out := ?out T\<rparr>)"
    by (auto simp: part_end_def)
  moreover have "?out T = (\<lambda>w. if w \<in> set ws then part_sums T n (g w) T else cg_out s w)"
    using out by auto
  moreover have "concat (map snd (acc_tasks ws body T P n)) = concat (map ?task [0..<T])"
    by (simp add: acc_tasks_def chunk_tasks_def comp_def)
  ultimately show ?thesis
    using that by simp
qed

section \<open>The reductions over the reals\<close>

lemma those_Some [simp]: "those (map (\<lambda>t. Some (h t)) ts) = Some (map h ts)"
  by (induction ts) simp_all

lemma foldl_sum: "foldl (+) a vs = a + sum_list (vs :: real list)"
  by (induction vs arbitrary: a) (simp_all add: add.assoc)

lemma sum_list_parts: "sum_list (map f (concat xss)) = sum_list (map (\<lambda>xs. sum_list (map f xs) :: real) xss)"
  by (induction xss) simp_all

lemma tree_sum_real:
  assumes "length vs = T" "0 < T"
  shows "tree_sum T vs = sum_list (vs :: real list)"
proof -
  have "red_monoid (+) (0 :: real) UNIV UNIV"
    by unfold_locales simp_all
  then have "tree_sum T vs = foldl (+) 0 vs"
    unfolding tree_sum_def using red_monoid.level_root [of "(+)" 0 UNIV UNIV vs T T] assms(2) less_exp [of T]
    by (simp add: less_imp_le)
  then show ?thesis
    by (simp add: foldl_sum)
qed

lemma reduce_parts:
  assumes "0 < T"
  shows "reduce_sum_double T (part_sums T n g T) = Some (\<Sum>j<n. g j :: real)"
proof -
  have "sum_list (map (\<lambda>t. foldl (+) 0 (map g (part T n t))) [0..<T]) = sum_list (map g (concat (map (part T n) [0..<T])))"
    by (simp add: foldl_sum sum_list_parts comp_def)
  also have "\<dots> = (\<Sum>j<n. g j)"
    unfolding parts_cover [OF assms] by (simp add: interv_sum_list_conv_sum_set_nat atLeast0LessThan)
  finally show ?thesis
    by (simp add: reduce_sum_double_def part_sums_def tree_sum_real [OF _ assms])
qed

section \<open>The phases over the reals\<close>

definition matrix_frame :: "real cg \<Rightarrow> real cg \<Rightarrow> bool" where
  "matrix_frame s s' \<longleftrightarrow> cg_colidx s' = cg_colidx s \<and> cg_rowstr s' = cg_rowstr s \<and> cg_a s' = cg_a s \<and> cg_x s' = cg_x s \<and>
     length (cg_z s') = length (cg_z s) \<and> length (cg_p s') = length (cg_p s) \<and> length (cg_q s') = length (cg_q s) \<and>
     length (cg_r s') = length (cg_r s) \<and> (\<forall>w. length (cg_out s' w) = length (cg_out s w))"

lemma frame_trans: "matrix_frame s t \<Longrightarrow> matrix_frame t u \<Longrightarrow> matrix_frame s u"
  by (simp add: matrix_frame_def)

lemma frame_keeps:
  assumes "matrix_frame s t"
  shows "cg_arrays_ok n t \<longleftrightarrow> cg_arrays_ok n s" "csr_mult n t = csr_mult n s" "cg_x t = cg_x s"
    "length (cg_out t w) = length (cg_out s w)"
  using assms by (auto simp: matrix_frame_def cg_arrays_ok_def csr_mult_def fun_eq_iff)

lemma row_sum_real:
  assumes "list_all (\<lambda>k. 0 \<le> k \<and> k < int (length (cg_a s)) \<and> k < int (length (cg_colidx s)) \<and>
         0 \<le> cg_colidx s ! nat k \<and> cg_colidx s ! nat k < int n) ks" "n \<le> length xs"
  shows "row_sum s xs ks acc = Some (acc + (\<Sum>k\<leftarrow>ks. cg_a s ! nat k * vec_of n xs (nat (cg_colidx s ! nat k))))"
  using assms(1)
proof (induction ks arbitrary: acc)
  case (Cons k ks)
  then have "elem (cg_a s) k = Some (cg_a s ! nat k)" "elem (cg_colidx s) k = Some (cg_colidx s ! nat k)"
    "elem xs (cg_colidx s ! nat k) = Some (vec_of n xs (nat (cg_colidx s ! nat k)))"
    using assms(2) by (auto simp: elem_def vec_of_def)
  then show ?case
    using Cons by (simp add: add.assoc)
qed simp

lemma q_real:
  assumes "cg_arrays_ok n s" "0 < ce_pools env" "0 < T"
  shows "run_cg env choice (loop_tasks conj_grad_q_thread T (ce_pools env) n) s
       = Some (s\<lparr>cg_q := overwrite n (csr_mult n s (vec_of n (cg_p s))) (cg_q s)\<rparr>)"
proof -
  let ?U = "\<lambda>j. s\<lparr>cg_q := overwrite j (csr_mult n s (vec_of n (cg_p s))) (cg_q s)\<rparr>"
  have "conj_grad_q_thread j (?U j) = Some (?U (Suc j))" if j: "j < n" for j
  proof -
    have ok: "list_all (\<lambda>k. 0 \<le> k \<and> k < int (length (cg_a s)) \<and> k < int (length (cg_colidx s)) \<and>
         0 \<le> cg_colidx s ! nat k \<and> cg_colidx s ! nat k < int n) [cg_rowstr s ! j..cg_rowstr s ! (j + 1) - 1]"
      and len: "n \<le> length (cg_p s)" "j < length (cg_q s)" "j \<le> length (cg_q s)" "Suc j < length (cg_rowstr s)" "j < length (cg_rowstr s)"
      using assms(1) j by (simp_all add: cg_arrays_ok_def list_all_iff)
    have lo: "elem (cg_rowstr s) (1 + int j) = Some (cg_rowstr s ! Suc j)"
      using len(4) by (simp add: elem_def nat_add_distrib)
    show ?thesis
      using len row_sum_real [OF ok len(1), of 0] overwrite_Suc [OF len(2), of "csr_mult n s (vec_of n (cg_p s))"] j
      by (simp add: conj_grad_q_thread_def lo store_def csr_mult_def add.commute)
  qed
  then show ?thesis
    using steps_upto [of n conj_grad_q_thread ?U] by (simp add: phase_runs assms)
qed

lemma p_real:
  assumes "cg_arrays_ok n s" "0 < ce_pools env" "0 < T"
  shows "run_cg env choice (loop_tasks (conj_grad_p_thread beta) T (ce_pools env) n) s
       = Some (s\<lparr>cg_p := overwrite n (\<lambda>j. cg_r s ! j + beta * cg_p s ! j) (cg_p s)\<rparr>)"
proof -
  let ?U = "\<lambda>j. s\<lparr>cg_p := overwrite j (\<lambda>j. cg_r s ! j + beta * cg_p s ! j) (cg_p s)\<rparr>"
  have "conj_grad_p_thread beta j (?U j) = Some (?U (Suc j))" if j: "j < n" for j
  proof -
    have len: "j < length (cg_p s)" "j \<le> length (cg_p s)" "j < length (cg_r s)"
      using assms(1) j by (simp_all add: cg_arrays_ok_def)
    show ?thesis
      using len overwrite_Suc [OF len(1), of "\<lambda>j. cg_r s ! j + beta * cg_p s ! j"]
      by (simp add: conj_grad_p_thread_def store_def)
  qed
  then show ?thesis
    using steps_upto [of n "conj_grad_p_thread beta" ?U] by (simp add: phase_runs assms)
qed

text \<open>The sums, with the states they leave. The accumulators keep their last values.\<close>

definition summed :: "nat \<Rightarrow> nat \<Rightarrow> cg_result list \<Rightarrow> (cg_result \<Rightarrow> vec) \<Rightarrow> real cg \<Rightarrow> (cg_result \<times> nat \<Rightarrow> real) \<Rightarrow> real cg" where
  "summed T n ws g s l = s\<lparr>cg_local := l, cg_out := (\<lambda>w. if w \<in> set ws then part_sums T n (g w) T else cg_out s w)\<rparr>"

lemma summed_frame: "\<forall>w \<in> set ws. length (cg_out s w) = T \<Longrightarrow> matrix_frame s (summed T n ws g s l)"
  by (simp add: summed_def matrix_frame_def part_sums_def)

lemma summed_simps [simp]:
  "cg_x (summed T n ws g s l) = cg_x s" "cg_z (summed T n ws g s l) = cg_z s" "cg_p (summed T n ws g s l) = cg_p s"
  "cg_q (summed T n ws g s l) = cg_q s" "cg_r (summed T n ws g s l) = cg_r s"
  by (simp_all add: summed_def)

lemma reduce_summed:
  "0 < T \<Longrightarrow> w \<in> set ws \<Longrightarrow> reduce_sum_double T (cg_out (summed T n ws g s l) w) = Some (\<Sum>j<n. g w j)"
  by (simp add: summed_def reduce_parts)

lemma add_one: "add_terms [w] vs t l = l((w, t) := foldl (+) (l (w, t)) (vs w))"
  by (auto simp: add_terms_def fun_eq_iff)

lemma sums_real:
  assumes "sum_body n body U ws g" "summing_phase body" "0 < ce_pools env" "0 < T"
    "\<forall>w \<in> set ws. length (cg_out (U 0) w) = T" "cg_out (U n) = cg_out (U 0)"
  obtains l where "run_cg env choice (acc_tasks ws body T (ce_pools env) n) (U 0) = Some (summed T n ws g (U n) l)"
proof -
  obtain l where l: "run_steps (concat (map snd (acc_tasks ws body T (ce_pools env) n))) (U 0)
      = Some (U n\<lparr>cg_local := l, cg_out := (\<lambda>w. if w \<in> set ws then part_sums T n (g w) T else cg_out (U 0) w)\<rparr>)"
    by (rule run_sums_value [OF assms(1,4,5) refl])
  show ?thesis
    by (rule that [of l]) (simp add: summing_phase.run_sums [OF assms(2,3)] l summed_def assms(6) cong: if_cong)
qed

lemma rho_body:
  assumes "cg_arrays_ok n s"
  shows "sum_body n conj_grad_rho_thread (\<lambda>_. s) [Rho] (\<lambda>_ j. cg_r s ! j * cg_r s ! j)"
  using assms by (simp add: sum_body_def conj_grad_rho_thread_def acc_add_def add_one cg_arrays_ok_def)

lemma d_body:
  assumes "cg_arrays_ok n s"
  shows "sum_body n conj_grad_d_thread (\<lambda>_. s) [D] (\<lambda>_ j. cg_p s ! j * cg_q s ! j)"
  using assms by (simp add: sum_body_def conj_grad_d_thread_def acc_add_def add_one cg_arrays_ok_def)

lemma final_body:
  assumes "cg_arrays_ok n s"
  shows "sum_body n conj_grad_final_thread (\<lambda>_. s) [Sum] (\<lambda>_ j. (cg_x s ! j - cg_r s ! j) * (cg_x s ! j - cg_r s ! j))"
  using assms by (simp add: sum_body_def conj_grad_final_thread_def acc_add_def add_one cg_arrays_ok_def Let_def)

definition updated :: "real \<Rightarrow> real cg \<Rightarrow> nat \<Rightarrow> real cg" where
  "updated alpha s j = s\<lparr>cg_z := overwrite j (\<lambda>j. cg_z s ! j + alpha * cg_p s ! j) (cg_z s),
     cg_r := overwrite j (\<lambda>j. cg_r s ! j - alpha * cg_q s ! j) (cg_r s)\<rparr>"

lemma update_body:
  assumes "cg_arrays_ok n s"
  shows "sum_body n (conj_grad_update_thread alpha) (updated alpha s) [Rho]
    (\<lambda>_ j. (cg_r s ! j - alpha * cg_q s ! j) * (cg_r s ! j - alpha * cg_q s ! j))"
  unfolding sum_body_def
proof (intro allI impI)
  fix t j l out
  assume j: "j < n"
  have len: "j < length (cg_z s)" "j < length (cg_r s)" "j < length (cg_p s)" "j < length (cg_q s)"
    using assms j by (simp_all add: cg_arrays_ok_def)
  show "conj_grad_update_thread alpha t j (updated alpha s j\<lparr>cg_local := l, cg_out := out\<rparr>)
      = Some (updated alpha s (Suc j)\<lparr>cg_local := add_terms [Rho]
          (\<lambda>_. [(cg_r s ! j - alpha * cg_q s ! j) * (cg_r s ! j - alpha * cg_q s ! j)]) t l, cg_out := out\<rparr>)"
    using len overwrite_Suc [OF len(1), of "\<lambda>j. cg_z s ! j + alpha * cg_p s ! j"]
      overwrite_Suc [OF len(2), of "\<lambda>j. cg_r s ! j - alpha * cg_q s ! j"]
    by (simp add: conj_grad_update_thread_def acc_add_def add_one updated_def store_def)
qed

section \<open>\<^verbatim>\<open>conj_grad\<close> is the textbook method\<close>

lemma vec_of_overwrite: "n \<le> length xs \<Longrightarrow> vec_of n (overwrite n f xs) = (\<lambda>j. if j < n then f j else 0)"
  by (auto simp: vec_of_def fun_eq_iff)

lemma dot_vec: "dot n (vec_of n xs) (vec_of n ys) = (\<Sum>j<n. xs ! j * ys ! j)"
  by (simp add: dot_def vec_of_def)

lemma cg_iteration_real:
  assumes ok: "cg_arrays_ok (ce_na env) s" and env: "0 < ce_pools env" "0 < ce_threads env"
    and out: "length (cg_out s Rho) = ce_threads env" "length (cg_out s D) = ce_threads env"
  obtains s' rho' where "cg_iteration env choice rho s = Some (s', rho')" "matrix_frame s s'"
    "cg_textbook (ce_na env) (csr_mult (ce_na env) s) (Suc k)
       (vec_of (ce_na env) (cg_z s), vec_of (ce_na env) (cg_r s), vec_of (ce_na env) (cg_p s), rho)
     = cg_textbook (ce_na env) (csr_mult (ce_na env) s) k
       (vec_of (ce_na env) (cg_z s'), vec_of (ce_na env) (cg_r s'), vec_of (ce_na env) (cg_p s'), rho')"
proof -
  let ?n = "ce_na env" and ?T = "ce_threads env" and ?P = "ce_pools env"
  let ?A = "csr_mult ?n s"
  define s1 where "s1 = s\<lparr>cg_q := overwrite ?n (?A (vec_of ?n (cg_p s))) (cg_q s)\<rparr>"
  have len: "?n \<le> length (cg_z s)" "?n \<le> length (cg_p s)" "?n \<le> length (cg_q s)" "?n \<le> length (cg_r s)"
    using ok by (simp_all add: cg_arrays_ok_def)
  have r1: "run_cg env (choice 0) (loop_tasks conj_grad_q_thread ?T ?P ?n) s = Some s1"
    unfolding s1_def by (rule q_real [OF ok env])
  have f1: "matrix_frame s s1"
    using len by (simp add: s1_def matrix_frame_def)
  have ok1: "cg_arrays_ok ?n s1"
    using frame_keeps [OF f1] ok by simp
  obtain l2 where r2: "run_cg env (choice 1) (acc_tasks [D] conj_grad_d_thread ?T ?P ?n) s1
      = Some (summed ?T ?n [D] (\<lambda>_ j. cg_p s1 ! j * cg_q s1 ! j) s1 l2)" (is "_ = Some ?s2")
    by (rule sums_real [OF d_body [OF ok1] d_phase.summing_phase_axioms env, where choice = "choice 1"])
      (use out frame_keeps(4) [OF f1] in auto)
  let ?d = "\<Sum>j<?n. cg_p s1 ! j * cg_q s1 ! j"
  define alpha where "alpha = rho / ?d"
  have f2: "matrix_frame s1 ?s2"
    using out frame_keeps(4) [OF f1] by (intro summed_frame) simp
  have ok2: "cg_arrays_ok ?n ?s2"
    using frame_keeps [OF f2] ok1 by simp
  obtain l3 where r3: "run_cg env (choice 2) (acc_tasks [Rho] (conj_grad_update_thread alpha) ?T ?P ?n) (updated alpha ?s2 0)
      = Some (summed ?T ?n [Rho] (\<lambda>_ j. (cg_r ?s2 ! j - alpha * cg_q ?s2 ! j) * (cg_r ?s2 ! j - alpha * cg_q ?s2 ! j))
          (updated alpha ?s2 ?n) l3)" (is "_ = Some ?s3")
    by (rule sums_real [OF update_body [OF ok2] update_phase.summing_phase_axioms env, where choice = "choice 2"])
      (use out frame_keeps(4) [OF f1] frame_keeps(4) [OF f2] in \<open>auto simp: updated_def\<close>)
  have u0: "updated alpha ?s2 0 = ?s2"
    by (simp add: updated_def)
  have f3: "matrix_frame ?s2 ?s3"
    using out frame_keeps(4) [OF f1] frame_keeps(4) [OF f2] ok2
    by (intro frame_trans [OF _ summed_frame, of _ "updated alpha ?s2 ?n"])
      (auto simp: updated_def matrix_frame_def cg_arrays_ok_def)
  have ok3: "cg_arrays_ok ?n ?s3"
    using frame_keeps [OF f3] ok2 by simp
  let ?rho = "\<Sum>j<?n. (cg_r ?s2 ! j - alpha * cg_q ?s2 ! j) * (cg_r ?s2 ! j - alpha * cg_q ?s2 ! j)"
  define s4 where "s4 = ?s3\<lparr>cg_p := overwrite ?n (\<lambda>j. cg_r ?s3 ! j + ?rho / rho * cg_p ?s3 ! j) (cg_p ?s3)\<rparr>"
  have r4: "run_cg env (choice 3) (loop_tasks (conj_grad_p_thread (?rho / rho)) ?T ?P ?n) ?s3 = Some s4"
    unfolding s4_def by (rule p_real [OF ok3 env])
  have f4: "matrix_frame ?s3 s4"
    using ok3 by (simp add: s4_def matrix_frame_def cg_arrays_ok_def)
  have "cg_iteration env choice rho s = Some (s4, ?rho)"
    using r1 r2 r3 r4 u0 env(2)
    by (simp add: cg_iteration_def Let_def reduce_summed alpha_def del: summed_simps)
  moreover have "matrix_frame s s4"
    by (rule frame_trans [OF frame_trans [OF f1 f2] frame_trans [OF f3 f4]])
  moreover have "cg_textbook ?n ?A (Suc k) (vec_of ?n (cg_z s), vec_of ?n (cg_r s), vec_of ?n (cg_p s), rho)
     = cg_textbook ?n ?A k (vec_of ?n (cg_z s4), vec_of ?n (cg_r s4), vec_of ?n (cg_p s4), ?rho)"
  proof -
    let ?z = "vec_of ?n (cg_z s)" and ?r = "vec_of ?n (cg_r s)" and ?p = "vec_of ?n (cg_p s)"
    have q: "cg_q s1 ! j = ?A ?p j" "cg_p s1 = cg_p s" "cg_z s1 = cg_z s" "cg_r s1 = cg_r s" if "j < ?n" for j
      using len that by (simp_all add: s1_def)
    have d: "dot ?n ?p (?A ?p) = ?d"
      unfolding dot_def by (rule sum.cong) (simp_all add: q vec_of_def)
    have z: "(\<lambda>j. ?z j + alpha * ?p j) = vec_of ?n (cg_z s4)"
      using len by (auto simp: s4_def updated_def vec_of_overwrite q fun_eq_iff) (auto simp: vec_of_def s1_def)
    have r: "(\<lambda>j. ?r j - alpha * ?A ?p j) = vec_of ?n (cg_r s4)"
      using len by (auto simp: s4_def updated_def vec_of_overwrite q fun_eq_iff) (auto simp: vec_of_def s1_def csr_mult_def)
    have rho: "dot ?n (vec_of ?n (cg_r s4)) (vec_of ?n (cg_r s4)) = ?rho"
      using len unfolding dot_vec by (intro sum.cong) (simp_all add: s4_def updated_def s1_def)
    have p: "(\<lambda>j. vec_of ?n (cg_r s4) j + ?rho / rho * ?p j) = vec_of ?n (cg_p s4)"
      using len by (auto simp: s4_def updated_def vec_of_overwrite fun_eq_iff) (auto simp: vec_of_def s1_def)
    have p': "(\<lambda>j. ?r j - alpha * ?A ?p j + ?rho / rho * ?p j) = vec_of ?n (cg_p s4)"
      unfolding p [symmetric] r [symmetric] ..
    show ?thesis
      by (simp only: cg_textbook.simps Let_def d alpha_def [symmetric] z r rho p')
  qed
  ultimately show ?thesis
    using that by blast
qed

text \<open>The phase before the loop, the loop and the final sum.\<close>

lemma cg_loop_real:
  assumes "cg_arrays_ok (ce_na env) s" "0 < ce_pools env" "0 < ce_threads env"
    and "length (cg_out s Rho) = ce_threads env" "length (cg_out s D) = ce_threads env"
  shows "\<exists>s' rho'. cg_loop env k choice rho s = Some (s', rho') \<and> matrix_frame s s' \<and>
    cg_textbook (ce_na env) (csr_mult (ce_na env) s) k
       (vec_of (ce_na env) (cg_z s), vec_of (ce_na env) (cg_r s), vec_of (ce_na env) (cg_p s), rho)
     = (vec_of (ce_na env) (cg_z s'), vec_of (ce_na env) (cg_r s'), vec_of (ce_na env) (cg_p s'), rho')"
  using assms(1,4,5)
proof (induction k arbitrary: choice rho s)
  case 0
  then show ?case
    by (auto simp: matrix_frame_def)
next
  case (Suc k)
  obtain s1 rho1 where 1: "cg_iteration env choice rho s = Some (s1, rho1)" "matrix_frame s s1"
    "cg_textbook (ce_na env) (csr_mult (ce_na env) s) (Suc k)
       (vec_of (ce_na env) (cg_z s), vec_of (ce_na env) (cg_r s), vec_of (ce_na env) (cg_p s), rho)
     = cg_textbook (ce_na env) (csr_mult (ce_na env) s) k
       (vec_of (ce_na env) (cg_z s1), vec_of (ce_na env) (cg_r s1), vec_of (ce_na env) (cg_p s1), rho1)"
    by (rule cg_iteration_real [OF Suc.prems(1) assms(2,3) Suc.prems(2,3)])
  note keeps = frame_keeps [OF 1(2)]
  from Suc.IH [of s1 "\<lambda>i. choice (i + 4)" rho1] Suc.prems keeps
  obtain s2 rho2 where "cg_loop env k (\<lambda>i. choice (i + 4)) rho1 s1 = Some (s2, rho2)" "matrix_frame s1 s2"
    "cg_textbook (ce_na env) (csr_mult (ce_na env) s1) k
       (vec_of (ce_na env) (cg_z s1), vec_of (ce_na env) (cg_r s1), vec_of (ce_na env) (cg_p s1), rho1)
     = (vec_of (ce_na env) (cg_z s2), vec_of (ce_na env) (cg_r s2), vec_of (ce_na env) (cg_p s2), rho2)"
    by auto
  then show ?case
    using 1 keeps(2) frame_trans [OF 1(2)] by (auto simp del: cg_textbook.simps)
qed

definition initialised :: "nat \<Rightarrow> real cg \<Rightarrow> real cg" where
  "initialised j s = s\<lparr>cg_q := overwrite j (\<lambda>_. 0) (cg_q s), cg_z := overwrite j (\<lambda>_. 0) (cg_z s),
     cg_r := overwrite j (\<lambda>j. cg_x s ! j) (cg_r s), cg_p := overwrite j (\<lambda>j. cg_x s ! j) (cg_p s)\<rparr>"

lemma run_init:
  assumes "cg_arrays_ok n s"
  shows "run_steps (map conj_grad_init_thread [0..<n + 1]) s = Some (initialised (n + 1) s)"
proof -
  have "conj_grad_init_thread j (initialised j s) = Some (initialised (Suc j) s)" if "j < n + 1" for j
  proof -
    have len: "j < length (cg_q s)" "j < length (cg_z s)" "j < length (cg_r s)" "j < length (cg_p s)" "j < length (cg_x s)"
      using assms that by (simp_all add: cg_arrays_ok_def)
    show ?thesis
      using len overwrite_Suc [OF len(1), of "\<lambda>_. 0"] overwrite_Suc [OF len(2), of "\<lambda>_. 0"]
        overwrite_Suc [OF len(3), of "\<lambda>j. cg_x s ! j"] overwrite_Suc [OF len(4), of "\<lambda>j. cg_x s ! j"]
      by (simp add: conj_grad_init_thread_def store_def initialised_def)
  qed
  moreover have "initialised 0 s = s"
    by (simp add: initialised_def)
  ultimately show ?thesis
    using steps_upto [of "n + 1" conj_grad_init_thread "\<lambda>j. initialised j s"] by simp
qed

text \<open>The start of the method: \<open>z = 0\<close>, \<open>r = p = x\<close>.\<close>

definition cg_solve :: "nat \<Rightarrow> (vec \<Rightarrow> vec) \<Rightarrow> vec \<Rightarrow> vec \<times> vec \<times> vec \<times> real" where
  "cg_solve n A x = cg_textbook n A cgitmax (\<lambda>_. 0, x, x, dot n x x)"

lemma conj_grad_real:
  assumes ok: "cg_arrays_ok (ce_na env) s" and env: "cg_env_ok env"
  obtains s' p rho where
    "conj_grad sqrt env choice s = Some (s', sqrt (dot (ce_na env)
       (\<lambda>j. vec_of (ce_na env) (cg_x s) j - vec_of (ce_na env) (cg_r s') j)
       (\<lambda>j. vec_of (ce_na env) (cg_x s) j - vec_of (ce_na env) (cg_r s') j)))"
    "cg_solve (ce_na env) (csr_mult (ce_na env) s) (vec_of (ce_na env) (cg_x s))
       = (vec_of (ce_na env) (cg_z s'), vec_of (ce_na env) (cg_r s'), p, rho)"
    "cg_arrays_ok (ce_na env) s'" "csr_mult (ce_na env) s' = csr_mult (ce_na env) s" "cg_x s' = cg_x s"
proof -
  let ?n = "ce_na env" and ?T = "ce_threads env" and ?P = "ce_pools env" and ?f = "replicate (ce_threads env) None"
  have pos: "0 < ?P" "0 < ?T"
    using env by (auto simp: cg_env_ok_def)
  define s0 where "s0 = s\<lparr>cg_out := (cg_out s)(Rho := ?f, D := ?f, Sum := ?f)\<rparr>"
  have ok0: "cg_arrays_ok ?n s0" and A0: "csr_mult ?n s0 = csr_mult ?n s" and x0: "cg_x s0 = cg_x s"
    using ok by (auto simp: s0_def cg_arrays_ok_def csr_mult_def fun_eq_iff)
  have out0: "length (cg_out s0 w) = ?T" if "w \<in> {Rho, D, Sum}" for w
    using that by (auto simp: s0_def)
  let ?s1 = "initialised (?n + 1) s0"
  have f1: "matrix_frame s0 ?s1"
    using ok0 by (simp add: initialised_def matrix_frame_def cg_arrays_ok_def)
  have ok1: "cg_arrays_ok ?n ?s1"
    using frame_keeps [OF f1] ok0 by simp
  obtain l2 where "run_cg env (choice 0) (acc_tasks [Rho] conj_grad_rho_thread ?T ?P ?n) ?s1
      = Some (summed ?T ?n [Rho] (\<lambda>_ j. cg_r ?s1 ! j * cg_r ?s1 ! j) ?s1 l2)" (is "_ = Some ?s2")
    by (rule sums_real [OF rho_body [OF ok1] rho_phase.summing_phase_axioms pos, where choice = "choice 0"])
      (use out0 frame_keeps(4) [OF f1] in auto)
  then have r2: "run_steps (concat (map snd (acc_tasks [Rho] conj_grad_rho_thread ?T ?P ?n))) ?s1 = Some ?s2"
    by (simp only: rho_phase.run_sums [OF pos(1)])
  have r1: "run_cg env (choice 0) (init_rho_tasks env) s0 = Some ?s2"
    unfolding run_init_rho [OF env] run_steps_append run_init [OF ok0] by (simp only: bind.bind_lunit r2)
  have f2: "matrix_frame s0 ?s2"
    using out0 frame_keeps(4) [OF f1] by (intro frame_trans [OF f1 summed_frame]) simp
  have keeps2: "cg_arrays_ok ?n ?s2" "csr_mult ?n ?s2 = csr_mult ?n s" "cg_x ?s2 = cg_x s"
    "\<And>w. w \<in> {Rho, D, Sum} \<Longrightarrow> length (cg_out ?s2 w) = ?T"
    using frame_keeps [OF f2] ok0 A0 x0 out0 by auto
  let ?rho = "\<Sum>j<?n. cg_r ?s1 ! j * cg_r ?s1 ! j"
  obtain s3 rho3 where r3: "cg_loop env cgitmax (\<lambda>i. choice (i + 1)) ?rho ?s2 = Some (s3, rho3)" and f3: "matrix_frame ?s2 s3"
    and t3: "cg_textbook ?n (csr_mult ?n s) cgitmax (vec_of ?n (cg_z ?s2), vec_of ?n (cg_r ?s2), vec_of ?n (cg_p ?s2), ?rho)
      = (vec_of ?n (cg_z s3), vec_of ?n (cg_r s3), vec_of ?n (cg_p s3), rho3)"
    using cg_loop_real [OF keeps2(1) pos, of cgitmax "\<lambda>i. choice (i + 1)" ?rho] keeps2 by auto
  have keeps3: "cg_arrays_ok ?n s3" "csr_mult ?n s3 = csr_mult ?n s" "cg_x s3 = cg_x s" "length (cg_out s3 Sum) = ?T"
    using frame_keeps [OF f3] keeps2 by auto
  obtain l4 where r4: "run_cg env (choice (4 * cgitmax + 1)) (acc_tasks [Sum] conj_grad_final_thread ?T ?P ?n) s3
      = Some (summed ?T ?n [Sum] (\<lambda>_ j. (cg_x s3 ! j - cg_r s3 ! j) * (cg_x s3 ! j - cg_r s3 ! j)) s3 l4)" (is "_ = Some ?s4")
    by (rule sums_real [OF final_body [OF keeps3(1)] final_phase.summing_phase_axioms pos, where choice = "choice (4 * cgitmax + 1)"])
      (use keeps3 in auto)
  have f4: "matrix_frame s3 ?s4"
    using keeps3 by (intro summed_frame) simp
  let ?norm = "\<Sum>j<?n. (cg_x s3 ! j - cg_r s3 ! j) * (cg_x s3 ! j - cg_r s3 ! j)"
  have "conj_grad sqrt env choice s = Some (?s4, sqrt ?norm)"
    unfolding conj_grad_def Let_def s0_def [symmetric]
    using r1 r3 r4 pos(2) by (simp add: reduce_summed del: summed_simps)
  moreover have "?norm = dot ?n (\<lambda>j. vec_of ?n (cg_x s) j - vec_of ?n (cg_r ?s4) j) (\<lambda>j. vec_of ?n (cg_x s) j - vec_of ?n (cg_r ?s4) j)"
    unfolding dot_def by (rule sum.cong) (simp_all add: vec_of_def keeps3(3))
  moreover have "cg_solve ?n (csr_mult ?n s) (vec_of ?n (cg_x s)) = (vec_of ?n (cg_z ?s4), vec_of ?n (cg_r ?s4), vec_of ?n (cg_p s3), rho3)"
  proof -
    have "vec_of ?n (cg_z ?s2) = (\<lambda>_. 0)" "vec_of ?n (cg_r ?s2) = vec_of ?n (cg_x s)" "vec_of ?n (cg_p ?s2) = vec_of ?n (cg_x s)"
      using ok0 by (auto simp: initialised_def vec_of_def fun_eq_iff cg_arrays_ok_def x0)
    moreover have "?rho = dot ?n (vec_of ?n (cg_x s)) (vec_of ?n (cg_x s))"
      unfolding dot_vec using ok0 by (intro sum.cong) (auto simp: initialised_def cg_arrays_ok_def x0)
    ultimately show ?thesis
      using t3 by (simp add: cg_solve_def)
  qed
  ultimately show ?thesis
    using that [of ?s4 "vec_of ?n (cg_p s3)" rho3] frame_keeps [OF f4] keeps3 by simp
qed

text \<open>\<open>A\<close> is linear, so the residual the method updates is the residual.\<close>

lemma csr_mult_linear: "csr_mult n s (\<lambda>j. u j + c * v j) = (\<lambda>j. csr_mult n s u j + c * csr_mult n s v j)"
proof -
  have "(\<Sum>k\<leftarrow>ks. f k * (u (g k) + c * v (g k))) = (\<Sum>k\<leftarrow>ks. f k * u (g k)) + c * (\<Sum>k\<leftarrow>ks. f k * v (g k))"
    for ks :: "int list" and f :: "int \<Rightarrow> real" and g :: "int \<Rightarrow> nat"
    by (induction ks) (simp_all add: algebra_simps)
  then show ?thesis
    by (simp add: csr_mult_def fun_eq_iff)
qed

lemma textbook_residual:
  assumes "cg_textbook n (csr_mult n s) k (z, r, p, rho) = (z', r', p', rho')"
    and "\<forall>j. r j = x j - csr_mult n s z j"
  shows "r' j = x j - csr_mult n s z' j"
  using assms
proof (induction k arbitrary: z r p rho)
  case (Suc k)
  have "\<forall>j. r j - a * csr_mult n s p j = x j - csr_mult n s (\<lambda>j. z j + a * p j) j" for a
    using Suc.prems(2) by (simp add: csr_mult_linear)
  then show ?case
    by (rule Suc.IH [OF Suc.prems(1) [unfolded cg_textbook.simps Let_def]])
qed simp

lemma solve_residual:
  assumes "cg_solve n (csr_mult n s) (vec_of n xs) = (z, r, p, rho)"
  shows "(\<lambda>j. vec_of n xs j - r j) = csr_mult n s z"
proof -
  have "csr_mult n s (\<lambda>_. 0) j = 0" for j
    by (simp add: csr_mult_def sum_list_0)
  then show ?thesis
    using textbook_residual [OF assms [unfolded cg_solve_def], of "vec_of n xs"] by (simp add: fun_eq_iff)
qed

section \<open>The inverse power iteration\<close>

text \<open>
  One round of the method, for the vector \<open>x\<close>: the printed line and the next vector. The first number
  of the line is the norm of \<open>A z\<close>.
\<close>

definition power_method_round :: "nat \<Rightarrow> (vec \<Rightarrow> vec) \<Rightarrow> real \<Rightarrow> vec \<Rightarrow> (real \<times> real) \<times> vec" where
  "power_method_round n A shift x =
     (let (z, _) = cg_solve n A x
      in ((sqrt (dot n (A z) (A z)), shift + 1 / dot n x z), (\<lambda>j. 1 / sqrt (dot n z z) * z j)))"

fun power_method :: "nat \<Rightarrow> (vec \<Rightarrow> vec) \<Rightarrow> real \<Rightarrow> nat \<Rightarrow> vec \<Rightarrow> (real \<times> real) list" where
  "power_method n A shift 0 x = []"
| "power_method n A shift (Suc k) x =
     (let (line, x') = power_method_round n A shift x in line # power_method n A shift k x')"

lemma add_two: "add_terms [Norm1, Norm2] vs t l
    = l((Norm1, t) := foldl (+) (l (Norm1, t)) (vs Norm1), (Norm2, t) := foldl (+) (l (Norm2, t)) (vs Norm2))"
  by (auto simp: add_terms_def fun_eq_iff)

lemma norm_body:
  assumes "cg_arrays_ok n s"
  shows "sum_body n calculate_norm_temps_thread (\<lambda>_. s) [Norm1, Norm2]
    (\<lambda>w j. if w = Norm1 then cg_x s ! j * cg_z s ! j else cg_z s ! j * cg_z s ! j)"
  using assms by (simp add: sum_body_def calculate_norm_temps_thread_def acc_add_def add_two cg_arrays_ok_def)

lemma norms_real:
  assumes ok: "cg_arrays_ok (ce_na env) s" and env: "0 < ce_pools env" "0 < ce_threads env"
  obtains s' where "calculate_norm_temps env choice s = Some (s', (\<Sum>j<ce_na env. cg_x s ! j * cg_z s ! j),
      (\<Sum>j<ce_na env. cg_z s ! j * cg_z s ! j))"
    "cg_arrays_ok (ce_na env) s'" "csr_mult (ce_na env) s' = csr_mult (ce_na env) s" "cg_x s' = cg_x s" "cg_z s' = cg_z s"
proof -
  let ?n = "ce_na env" and ?T = "ce_threads env" and ?f = "replicate (ce_threads env) None"
  define s0 where "s0 = s\<lparr>cg_out := (cg_out s)(Norm1 := ?f, Norm2 := ?f)\<rparr>"
  have ok0: "cg_arrays_ok ?n s0" and A0: "csr_mult ?n s0 = csr_mult ?n s" and x0: "cg_x s0 = cg_x s" "cg_z s0 = cg_z s"
    using ok by (auto simp: s0_def cg_arrays_ok_def csr_mult_def fun_eq_iff)
  let ?g = "\<lambda>w j. if w = Norm1 then cg_x s0 ! j * cg_z s0 ! j else cg_z s0 ! j * cg_z s0 ! j"
  obtain l where r: "run_cg env choice (acc_tasks [Norm1, Norm2] calculate_norm_temps_thread ?T (ce_pools env) ?n) s0
      = Some (summed ?T ?n [Norm1, Norm2] ?g s0 l)" (is "_ = Some ?s1")
    by (rule sums_real [OF norm_body [OF ok0] norm_phase.summing_phase_axioms env, where choice = choice])
      (auto simp: s0_def)
  have f: "matrix_frame s0 ?s1"
    by (rule summed_frame) (simp add: s0_def)
  have "calculate_norm_temps env choice s = Some (?s1, (\<Sum>j<?n. cg_x s ! j * cg_z s ! j), (\<Sum>j<?n. cg_z s ! j * cg_z s ! j))"
    unfolding calculate_norm_temps_def Let_def s0_def [symmetric]
    using env by (simp add: r reduce_summed x0)
  then show ?thesis
    using that [of ?s1] frame_keeps [OF f] ok0 A0 x0 by simp
qed

lemma normalize_real:
  assumes ok: "cg_arrays_ok (ce_na env) s" and env: "0 < ce_pools env" "0 < ce_threads env"
  shows "normalize_z env choice c s = Some (s\<lparr>cg_x := overwrite (ce_na env) (\<lambda>j. c * cg_z s ! j) (cg_x s)\<rparr>)"
proof -
  let ?U = "\<lambda>j. s\<lparr>cg_x := overwrite j (\<lambda>j. c * cg_z s ! j) (cg_x s)\<rparr>"
  have "normalize_z_thread c j (?U j) = Some (?U (Suc j))" if j: "j < ce_na env" for j
  proof -
    have len: "j < length (cg_x s)" "j < length (cg_z s)"
      using ok j by (simp_all add: cg_arrays_ok_def)
    show ?thesis
      using len overwrite_Suc [OF len(1), of "\<lambda>j. c * cg_z s ! j"]
      by (simp add: normalize_z_thread_def store_def)
  qed
  then show ?thesis
    using steps_upto [of "ce_na env" "normalize_z_thread c" ?U] by (simp add: normalize_z_def phase_runs env)
qed

lemma ones_real:
  assumes ok: "cg_arrays_ok (ce_na env) s" and env: "0 < ce_pools env" "0 < ce_threads env"
  shows "set_starting_vector_to_ones env choice s = Some (s\<lparr>cg_x := overwrite (ce_na env + 1) (\<lambda>_. 1) (cg_x s)\<rparr>)"
proof -
  let ?U = "\<lambda>j. s\<lparr>cg_x := overwrite j (\<lambda>_. 1) (cg_x s)\<rparr>"
  have "set_starting_vector_to_ones_thread j (?U j) = Some (?U (Suc j))" if j: "j < ce_na env + 1" for j
  proof -
    have len: "j < length (cg_x s)"
      using ok j by (simp add: cg_arrays_ok_def)
    show ?thesis
      using len overwrite_Suc [OF len, of "\<lambda>_. 1"]
      by (simp add: set_starting_vector_to_ones_thread_def store_def)
  qed
  then have "run_steps (map set_starting_vector_to_ones_thread [0..<ce_na env + 1]) (?U 0) = Some (?U (ce_na env + 1))"
    by (rule steps_upto)
  then show ?thesis
    unfolding set_starting_vector_to_ones_def phase_runs(4) [OF env] by simp
qed

lemma x_update_keeps:
  assumes "length xs = length (cg_x s)"
  shows "cg_arrays_ok n (s\<lparr>cg_x := xs\<rparr>) \<longleftrightarrow> cg_arrays_ok n s" "csr_mult n (s\<lparr>cg_x := xs\<rparr>) = csr_mult n s"
  using assms by (auto simp: cg_arrays_ok_def csr_mult_def fun_eq_iff)

lemma power_round_real:
  assumes ok: "cg_arrays_ok (ce_na env) s" and env: "cg_env_ok env"
  obtains s' line where "power_round sqrt shift env choice s = Some (s', line)"
    "power_method_round (ce_na env) (csr_mult (ce_na env) s) shift (vec_of (ce_na env) (cg_x s))
       = (line, vec_of (ce_na env) (cg_x s'))"
    "cg_arrays_ok (ce_na env) s'" "csr_mult (ce_na env) s' = csr_mult (ce_na env) s"
proof -
  let ?n = "ce_na env" and ?A = "csr_mult (ce_na env) s"
  have pos: "0 < ce_pools env" "0 < ce_threads env"
    using env by (auto simp: cg_env_ok_def)
  obtain s1 p rho where 1: "conj_grad sqrt env choice s = Some (s1, sqrt (dot ?n
       (\<lambda>j. vec_of ?n (cg_x s) j - vec_of ?n (cg_r s1) j) (\<lambda>j. vec_of ?n (cg_x s) j - vec_of ?n (cg_r s1) j)))"
    and solve: "cg_solve ?n ?A (vec_of ?n (cg_x s)) = (vec_of ?n (cg_z s1), vec_of ?n (cg_r s1), p, rho)"
    and s1: "cg_arrays_ok ?n s1" "csr_mult ?n s1 = ?A" "cg_x s1 = cg_x s"
    by (rule conj_grad_real [OF ok env])
  obtain s2 where 2: "calculate_norm_temps env (choice (4 * cgitmax + 2)) s1
      = Some (s2, (\<Sum>j<?n. cg_x s1 ! j * cg_z s1 ! j), (\<Sum>j<?n. cg_z s1 ! j * cg_z s1 ! j))"
    and s2: "cg_arrays_ok ?n s2" "csr_mult ?n s2 = csr_mult ?n s1" "cg_x s2 = cg_x s1" "cg_z s2 = cg_z s1"
    by (rule norms_real [OF s1(1) pos])
  let ?c = "1 / sqrt (\<Sum>j<?n. cg_z s1 ! j * cg_z s1 ! j)"
  let ?s3 = "s2\<lparr>cg_x := overwrite ?n (\<lambda>j. ?c * cg_z s2 ! j) (cg_x s2)\<rparr>"
  have len: "length (overwrite ?n (\<lambda>j. ?c * cg_z s2 ! j) (cg_x s2)) = length (cg_x s2)" "?n \<le> length (cg_x s2)"
    using s2(1) by (simp_all add: cg_arrays_ok_def)
  let ?line = "(sqrt (dot ?n (?A (vec_of ?n (cg_z s1))) (?A (vec_of ?n (cg_z s1)))),
      shift + 1 / (\<Sum>j<?n. cg_x s1 ! j * cg_z s1 ! j))"
  have "power_round sqrt shift env choice s = Some (?s3, ?line)"
    by (simp only: power_round_def 1 2 bind.bind_lunit prod.case Let_def normalize_real [OF s2(1) pos]
        solve_residual [OF solve])
  moreover have "power_method_round ?n ?A shift (vec_of ?n (cg_x s)) = (?line, vec_of ?n (cg_x ?s3))"
    using len(2) by (auto simp: power_method_round_def solve dot_vec s1(3) s2 vec_of_overwrite fun_eq_iff vec_of_def)
  ultimately show ?thesis
    using that x_update_keeps [OF len(1)] s1 s2 by simp
qed

lemma power_loop_real:
  assumes "cg_arrays_ok (ce_na env) s" and env: "cg_env_ok env"
  shows "\<exists>s'. power_loop sqrt shift env k choice s
    = Some (s', power_method (ce_na env) (csr_mult (ce_na env) s) shift k (vec_of (ce_na env) (cg_x s)))"
  using assms(1)
proof (induction k arbitrary: choice s)
  case (Suc k)
  obtain s1 line where 1: "power_round sqrt shift env choice s = Some (s1, line)"
    "power_method_round (ce_na env) (csr_mult (ce_na env) s) shift (vec_of (ce_na env) (cg_x s))
       = (line, vec_of (ce_na env) (cg_x s1))"
    "cg_arrays_ok (ce_na env) s1" "csr_mult (ce_na env) s1 = csr_mult (ce_na env) s"
    by (rule power_round_real [OF Suc.prems env])
  then show ?case
    using Suc.IH [OF 1(3), of "\<lambda>i. choice (i + (4 * cgitmax + 4))"] by auto
qed simp

lemma cg_main_real:
  assumes ok: "cg_arrays_ok (ce_na env) s" and env: "cg_env_ok env"
  shows "\<exists>s'. cg_main sqrt shift env niter choice s
    = Some (s', power_method (ce_na env) (csr_mult (ce_na env) s) shift niter (\<lambda>j. if j < ce_na env then 1 else 0))"
proof -
  let ?n = "ce_na env"
  have pos: "0 < ce_pools env" "0 < ce_threads env"
    using env by (auto simp: cg_env_ok_def)
  obtain s1 line where 1: "power_round sqrt shift env choice s = Some (s1, line)"
    "cg_arrays_ok ?n s1" "csr_mult ?n s1 = csr_mult ?n s"
    by (rule power_round_real [OF ok env])
  let ?s2 = "s1\<lparr>cg_x := overwrite (?n + 1) (\<lambda>_. 1) (cg_x s1)\<rparr>"
  have len: "length (overwrite (?n + 1) (\<lambda>_. 1) (cg_x s1)) = length (cg_x s1)" "?n + 1 \<le> length (cg_x s1)"
    using 1(2) by (simp_all add: cg_arrays_ok_def)
  have "vec_of ?n (cg_x ?s2) = (\<lambda>j. if j < ?n then 1 else 0)"
    using len(2) by (auto simp: vec_of_def fun_eq_iff)
  then show ?thesis
    using power_loop_real [of env ?s2 shift niter "\<lambda>i. choice (i + (4 * cgitmax + 5))"] env x_update_keeps [OF len(1)] 1
    by (simp add: cg_main_def ones_real [OF 1(2) pos])
qed

end
