(* ===== verification/NasRand.thy ===== *)
theory NasRand
  imports Prelude Complex_Main "HOL-Library.Log_Nat"
begin

text \<open>
  The pseudorandom generator of the benchmark, \<^verbatim>\<open>cg_argobots_fixed/common/randdp.c\<close>, and its use in
  \<^verbatim>\<open>cg.c\<close>: \<^verbatim>\<open>icnvrt\<close>, \<^verbatim>\<open>sprnvc\<close>, \<^verbatim>\<open>vecset\<close> and the loop of \<^verbatim>\<open>makea\<close> that generates the rows.

  A \<^verbatim>\<open>double\<close> is a rational number and every operation rounds its exact result to 53 significant
  bits, to nearest and ties to even; the exponent is unbounded, since the numbers of this code are
  between \<open>2 ^ -46\<close> and \<open>2 ^ 54\<close> in size or zero. A conversion to \<^verbatim>\<open>int\<close> outside its range is
  undefined behaviour, \<open>None\<close>.
\<close>

section \<open>Double precision\<close>

definition double_exponent :: "rat \<Rightarrow> int" where
  "double_exponent x = (let (p, q) = quotient_of \<bar>x\<bar>; e = bitlen p - bitlen q
     in if 2 powi e \<le> \<bar>x\<bar> then e else e - 1)"

definition round_even :: "rat \<Rightarrow> int" where
  "round_even x = (let f = \<lfloor>x\<rfloor>; d = x - of_int f
     in if d < 1 / 2 \<or> d = 1 / 2 \<and> even f then f else f + 1)"

definition rnd :: "rat \<Rightarrow> rat" where
  "rnd x = (if x = 0 then 0
     else let u = 2 powi (double_exponent x - 52) in of_int (round_even (x / u)) * u)"

definition int_of_double :: "rat \<Rightarrow> int option" where
  "int_of_double x = (let i = (if x < 0 then - \<lfloor>- x\<rfloor> else \<lfloor>x\<rfloor>)
     in if - (2 ^ 31) \<le> i \<and> i < 2 ^ 31 then Some i else None)"

section \<open>\<^verbatim>\<open>randlc\<close> and \<^verbatim>\<open>vranlc\<close>\<close>

definition r23 :: rat where "r23 = rnd (11920928955078125 / 10 ^ 23)"

definition r46 :: rat where "r46 = rnd (r23 * r23)"

definition t23 :: rat where "t23 = rnd 8388608"

definition t46 :: rat where "t46 = rnd (t23 * t23)"

text \<open>The lines of \<^verbatim>\<open>randlc\<close> after \<open>a\<close> is split: the new seed and the number.\<close>

definition lcg_step :: "rat \<Rightarrow> rat \<Rightarrow> rat \<Rightarrow> (rat \<times> rat) option" where
  "lcg_step a1 a2 x = do {
     x1' \<leftarrow> int_of_double (rnd (r23 * x));
     let x1 = of_int x1';
     let x2 = rnd (x - rnd (t23 * x1));
     let t1 = rnd (rnd (a1 * x2) + rnd (a2 * x1));
     t2 \<leftarrow> int_of_double (rnd (r23 * t1));
     let z = rnd (t1 - rnd (t23 * of_int t2));
     let t3 = rnd (rnd (t23 * z) + rnd (a2 * x2));
     t4 \<leftarrow> int_of_double (rnd (r46 * t3));
     let x' = rnd (t3 - rnd (t46 * of_int t4));
     Some (rnd (r46 * x'), x') }"

definition split_multiplier :: "rat \<Rightarrow> (rat \<times> rat) option" where
  "split_multiplier a = do {
     a1' \<leftarrow> int_of_double (rnd (r23 * a));
     let a1 = of_int a1';
     Some (a1, rnd (a - rnd (t23 * a1))) }"

definition randlc :: "rat \<Rightarrow> rat \<Rightarrow> (rat \<times> rat) option" where
  "randlc x a = do {
     (a1, a2) \<leftarrow> split_multiplier a;
     lcg_step a1 a2 x }"

fun vranlc_loop :: "nat \<Rightarrow> rat \<Rightarrow> rat \<Rightarrow> rat \<Rightarrow> (rat list \<times> rat) option" where
  "vranlc_loop 0 a1 a2 x = Some ([], x)"
| "vranlc_loop (Suc n) a1 a2 x = do {
     (y, x) \<leftarrow> lcg_step a1 a2 x;
     (ys, x) \<leftarrow> vranlc_loop n a1 a2 x;
     Some (y # ys, x) }"

definition vranlc :: "nat \<Rightarrow> rat \<Rightarrow> rat \<Rightarrow> (rat list \<times> rat) option" where
  "vranlc n x a = do {
     (a1, a2) \<leftarrow> split_multiplier a;
     vranlc_loop n a1 a2 x }"

section \<open>Exact operations\<close>

lemma round_even_int [simp]: "round_even (of_int z) = z"
  by (simp add: round_even_def Let_def)

lemma double_exponent_bounds:
  assumes "x \<noteq> 0"
  shows "2 powi double_exponent x \<le> \<bar>x\<bar>" "\<bar>x\<bar> < 2 powi (double_exponent x + 1)"
proof -
  obtain p q where pq: "quotient_of \<bar>x\<bar> = (p, q)"
    by fastforce
  have q: "0 < q" and x: "\<bar>x\<bar> = of_int p / of_int q"
    using quotient_of_denom_pos [OF pq] quotient_of_div [OF pq] by auto
  have "0 < \<bar>x\<bar>"
    using assms by simp
  then have "0 < p"
    using q unfolding x by (simp add: zero_less_divide_iff)
  define bp bq where "bp = nat (bitlen p)" and "bq = nat (bitlen q)"
  have b: "bitlen p = int bp" "bitlen q = int bq" "0 < bp" "0 < bq"
    using \<open>0 < p\<close> q bitlen_nonneg [of p] bitlen_nonneg [of q] bitlen_eq_zero_iff [of p] bitlen_eq_zero_iff [of q]
    by (auto simp: bp_def bq_def)
  have pb: "2 ^ (bp - 1) \<le> p" "p < 2 ^ bp" and qb: "2 ^ (bq - 1) \<le> q" "q < 2 ^ bq"
    using bitlen_bounds [OF \<open>0 < p\<close>] bitlen_bounds [OF q] b by (auto simp: nat_diff_distrib)
  have "of_int p < (2 ^ bp :: rat)" "(2 ^ (bq - 1) :: rat) \<le> of_int q"
    "(2 ^ (bp - 1) :: rat) \<le> of_int p" "of_int q < (2 ^ bq :: rat)"
    using pb qb by (metis of_int_less_iff of_int_le_iff of_int_numeral of_int_power)+
  note r = this
  have "\<bar>x\<bar> < 2 ^ bp / 2 ^ (bq - 1)"
    unfolding x using r q \<open>0 < p\<close> by (intro frac_less) auto
  moreover have "(2 :: rat) ^ (bp - 1) / 2 ^ bq < \<bar>x\<bar>"
    unfolding x using r q \<open>0 < p\<close> by (intro frac_less2) auto
  moreover have "(2 :: rat) ^ bp / 2 ^ (bq - 1) = 2 powi (int bp - int bq + 1)"
    using b by (simp add: power_int_diff power_int_add of_nat_diff power_diff)
  moreover have "(2 :: rat) ^ (bp - 1) / 2 ^ bq = 2 powi (int bp - int bq - 1)"
    using b by (simp add: power_int_diff power_int_add of_nat_diff power_diff)
  ultimately have "2 powi (bitlen p - bitlen q - 1) \<le> \<bar>x\<bar>" "\<bar>x\<bar> < 2 powi (bitlen p - bitlen q + 1)"
    using b by simp_all
  then show "2 powi double_exponent x \<le> \<bar>x\<bar>" "\<bar>x\<bar> < 2 powi (double_exponent x + 1)"
    by (auto simp: double_exponent_def pq Let_def)
qed

text \<open>A number with at most 53 significant bits is not changed.\<close>

lemma rnd_exact:
  assumes x: "x = of_int m * 2 powi k" and m: "\<bar>m\<bar> \<le> 2 ^ 53"
  shows "rnd x = x"
proof (cases "x = 0")
  case False
  define e where "e = double_exponent x"
  define u where "u = (2 :: rat) powi (e - 52)"
  have u: "0 < u"
    by (simp add: u_def)
  have lo: "2 ^ 52 \<le> \<bar>x / u\<bar>"
  proof -
    have "2 ^ 52 * u = 2 powi e"
      by (simp add: u_def power_int_diff)
    then show ?thesis
      using double_exponent_bounds(1) [OF False] u by (simp add: e_def pos_le_divide_eq)
  qed
  have "\<exists>z. x / u = of_int z"
  proof (cases "e - 52 \<le> k")
    case True
    have "x / u = of_int m * 2 powi (k - (e - 52))"
      by (simp add: x u_def power_int_diff)
    also have "\<dots> = of_int (m * 2 ^ nat (k - (e - 52)))"
      using True by (simp add: power_int_def)
    finally show ?thesis ..
  next
    case False
    define d where "d = nat (e - 52 - k)"
    have d: "0 < d" "k - (e - 52) = - int d"
      using False by (simp_all add: d_def)
    have "x / u = of_int m * 2 powi (k - (e - 52))"
      by (simp add: x u_def power_int_diff)
    then have xu: "x / u = of_int m / 2 ^ d"
      by (simp only: d(2) power_int_minus_divide power_int_of_nat) simp
    have "of_int (2 ^ (52 + d)) \<le> (of_int \<bar>m\<bar> :: rat)"
      using lo xu by (simp add: pos_le_divide_eq power_add)
    then have "2 ^ (52 + d) \<le> \<bar>m\<bar>"
      by (simp only: of_int_le_iff)
    then have "(2 :: int) ^ (52 + d) \<le> 2 ^ 53" "2 ^ (52 + d) \<le> \<bar>m\<bar>"
      using m by linarith+
    then have d1: "d = 1"
      using d(1) power_le_imp_le_exp [of "2 :: int" "52 + d" 53] by auto
    then have "\<bar>m\<bar> = 2 ^ 53"
      using \<open>2 ^ (52 + d) \<le> \<bar>m\<bar>\<close> m by simp
    then have "m = 2 ^ 53 \<or> m = - (2 ^ 53)"
      by (simp add: abs_if split: if_splits)
    then have "x / u = of_int (2 ^ 52) \<or> x / u = of_int (- (2 ^ 52))"
      unfolding xu d1 by auto
    then show ?thesis
      by blast
  qed
  then obtain z where z: "x / u = of_int z" ..
  have "rnd x = of_int (round_even (x / u)) * u"
    using False by (simp add: rnd_def e_def u_def Let_def)
  also have "\<dots> = x"
    unfolding z round_even_int using u z by (simp add: field_simps)
  finally show ?thesis .
qed (simp add: rnd_def)

lemma rnd_int [simp]: "\<bar>m\<bar> \<le> 2 ^ 53 \<Longrightarrow> rnd (of_int m) = of_int m"
  using rnd_exact [of "of_int m" m 0] by simp

lemma rnd_frac: "\<bar>m\<bar> \<le> 2 ^ 53 \<Longrightarrow> rnd (of_int m / 2 ^ k) = of_int m / 2 ^ k"
  using rnd_exact [of "of_int m / 2 ^ k" m "- int k"] by (simp add: power_int_minus divide_inverse power_inverse)

lemma rnd_ops:
  "\<bar>2 ^ k * m\<bar> \<le> 2 ^ 53 \<Longrightarrow> rnd (2 ^ k * of_int m) = of_int (2 ^ k * m)"
  "\<bar>m * l\<bar> \<le> 2 ^ 53 \<Longrightarrow> rnd (of_int m * of_int l) = of_int (m * l)"
  "\<bar>m + l\<bar> \<le> 2 ^ 53 \<Longrightarrow> rnd (of_int m + of_int l) = of_int (m + l)"
  "\<bar>m - l\<bar> \<le> 2 ^ 53 \<Longrightarrow> rnd (of_int m - of_int l) = of_int (m - l)"
  using rnd_int [of "2 ^ k * m"] rnd_int [of "m * l"] rnd_int [of "m + l"] rnd_int [of "m - l"] by simp_all

lemma constants: "r23 = 1 / 2 ^ 23" "r46 = 1 / 2 ^ 46" "t23 = 2 ^ 23" "t46 = 2 ^ 46"
proof -
  show r: "r23 = 1 / 2 ^ 23"
    using rnd_frac [of 1 23] by (simp add: r23_def)
  show "r46 = 1 / 2 ^ 46"
    using rnd_frac [of 1 46] by (simp add: r46_def r)
  show t: "t23 = 2 ^ 23"
    using rnd_int [of 8388608] by (simp add: t23_def)
  show "t46 = 2 ^ 46"
    using rnd_int [of "2 ^ 46"] by (simp add: t46_def t)
qed

lemma int_of_frac: "0 \<le> m \<Longrightarrow> m < 2 ^ (31 + k) \<Longrightarrow> int_of_double (of_int m / 2 ^ k) = Some (m div 2 ^ k)"
proof -
  assume m: "0 \<le> m" "m < 2 ^ (31 + k)"
  have "\<lfloor>of_int m / (2 ^ k :: rat)\<rfloor> = m div 2 ^ k"
    by (metis floor_divide_of_int_eq of_int_numeral of_int_power)
  moreover have "m div 2 ^ k < 2 ^ 31"
  proof -
    have "m < 2 ^ 31 * 2 ^ k"
      using m(2) by (simp add: power_add)
    moreover have "0 \<le> m mod 2 ^ k"
      by simp
    then have "m div 2 ^ k * 2 ^ k \<le> m"
      using div_mult_mod_eq [of m "2 ^ k"] by linarith
    ultimately show ?thesis
      by (metis le_less_trans mult_less_cancel_right_pos zero_less_numeral zero_less_power)
  qed
  moreover have "0 \<le> m div 2 ^ k"
    using m(1) by (simp add: pos_imp_zdiv_nonneg_iff)
  ultimately show ?thesis
    using m(1) by (simp add: int_of_double_def Let_def divide_less_0_iff)
qed

section \<open>The generator is exact\<close>

text \<open>
  All the intermediate results are integers below \<open>2 ^ 47\<close>, or such integers divided by a power of
  two: no operation rounds, and no conversion overflows.
\<close>

lemma lcg_exact:
  assumes a1: "0 \<le> a1" "a1 < 2 ^ 23" and a2: "0 \<le> a2" "a2 < 2 ^ 23" and x: "0 \<le> x" "x < 2 ^ 46"
  shows "lcg_step (of_int a1) (of_int a2) (of_int x)
    = Some (of_int ((2 ^ 23 * a1 + a2) * x mod 2 ^ 46) / 2 ^ 46, of_int ((2 ^ 23 * a1 + a2) * x mod 2 ^ 46))"
proof -
  define x1 x2 where "x1 = x div 2 ^ 23" and "x2 = x mod 2 ^ 23"
  have x12: "x = 2 ^ 23 * x1 + x2"
    by (simp add: x1_def x2_def)
  have bx: "0 \<le> x1" "x1 < 2 ^ 23" "0 \<le> x2" "x2 < 2 ^ 23"
    using x by (auto simp: x1_def x2_def)
  have prod: "0 \<le> u * v \<and> u * v < 2 ^ 46" if "0 \<le> u" "u < 2 ^ 23" "0 \<le> v" "v < 2 ^ 23" for u v :: int
  proof -
    have "u * v \<le> (2 ^ 23 - 1) * (2 ^ 23 - 1)"
      using that by (intro mult_mono) auto
    then show ?thesis
      using that by simp
  qed
  define t1 where "t1 = a1 * x2 + a2 * x1"
  have b1: "0 \<le> t1" "t1 < 2 ^ 47"
    using prod [OF a1 bx(3,4)] prod [OF a2 bx(1,2)] by (auto simp: t1_def)
  define z where "z = t1 mod 2 ^ 23"
  have bz: "0 \<le> z" "z < 2 ^ 23"
    by (simp_all add: z_def)
  define t3 where "t3 = 2 ^ 23 * z + a2 * x2"
  have b3: "0 \<le> t3" "t3 < 2 ^ 47"
    using prod [OF a2 bx(3,4)] bz by (auto simp: t3_def)
  have s1: "rnd (r23 * of_int x) = of_int x / 2 ^ 23" "int_of_double (of_int x / 2 ^ 23) = Some x1"
    using rnd_frac [of x 23] int_of_frac [of x 23] x by (simp_all add: constants x1_def)
  have s2: "rnd (t23 * of_int x1) = of_int (2 ^ 23 * x1)" "rnd (of_int x - of_int (2 ^ 23 * x1)) = of_int x2"
    using rnd_int [of "2 ^ 23 * x1"] rnd_int [of x2] bx by (simp_all add: constants x12)
  have s3: "rnd (of_int a1 * of_int x2) = of_int (a1 * x2)" "rnd (of_int a2 * of_int x1) = of_int (a2 * x1)"
    "rnd (of_int (a1 * x2) + of_int (a2 * x1)) = of_int t1"
    using rnd_int [of "a1 * x2"] rnd_int [of "a2 * x1"] rnd_int [of t1]
      prod [OF a1 bx(3,4)] prod [OF a2 bx(1,2)] b1 by (simp_all add: t1_def)
  have s4: "rnd (r23 * of_int t1) = of_int t1 / 2 ^ 23" "int_of_double (of_int t1 / 2 ^ 23) = Some (t1 div 2 ^ 23)"
    using rnd_frac [of t1 23] int_of_frac [of t1 23] b1 by (simp_all add: constants)
  have t2: "2 ^ 23 * (t1 div 2 ^ 23) = t1 - z"
    by (simp add: z_def minus_mod_eq_mult_div)
  have s5: "rnd (t23 * of_int (t1 div 2 ^ 23)) = of_int (t1 - z)" "rnd (of_int t1 - of_int (t1 - z)) = of_int z"
    using rnd_ops(1) [of 23 "t1 div 2 ^ 23", unfolded t2] rnd_ops(4) [of t1 "t1 - z"] b1 bz
    by (simp_all only: constants) auto
  have s6: "rnd (t23 * of_int z) = of_int (2 ^ 23 * z)" "rnd (of_int a2 * of_int x2) = of_int (a2 * x2)"
    "rnd (of_int (2 ^ 23 * z) + of_int (a2 * x2)) = of_int t3"
    using rnd_int [of "2 ^ 23 * z"] rnd_int [of "a2 * x2"] rnd_int [of t3] bz prod [OF a2 bx(3,4)] b3
    by (simp_all add: constants t3_def)
  have s7: "rnd (r46 * of_int t3) = of_int t3 / 2 ^ 46" "int_of_double (of_int t3 / 2 ^ 46) = Some (t3 div 2 ^ 46)"
    using rnd_frac [of t3 46] int_of_frac [of t3 46] b3 by (simp_all add: constants)
  define x' where "x' = t3 mod 2 ^ 46"
  have bx': "0 \<le> x'" "x' < 2 ^ 46"
    by (simp_all add: x'_def)
  have t4: "2 ^ 46 * (t3 div 2 ^ 46) = t3 - x'"
    by (simp add: x'_def minus_mod_eq_mult_div)
  have s8: "rnd (t46 * of_int (t3 div 2 ^ 46)) = of_int (t3 - x')" "rnd (of_int t3 - of_int (t3 - x')) = of_int x'"
    "rnd (r46 * of_int x') = of_int x' / 2 ^ 46"
    using rnd_ops(1) [of 46 "t3 div 2 ^ 46", unfolded t4] rnd_ops(4) [of t3 "t3 - x'"] rnd_frac [of x' 46] b3 bx'
    by (simp_all only: constants) auto
  have "lcg_step (of_int a1) (of_int a2) (of_int x) = Some (of_int x' / 2 ^ 46, of_int x')"
    by (simp only: lcg_step_def s1 s2 s3 s4 s5 s6 s7 s8 bind.bind_lunit Let_def)
  moreover have "x' = (2 ^ 23 * a1 + a2) * x mod 2 ^ 46"
  proof -
    have "(2 ^ 23 * a1 + a2) * x = t3 + 2 ^ 46 * (a1 * x1 + t1 div 2 ^ 23)"
      using t2 by (simp add: x12 t3_def t1_def algebra_simps)
    then show ?thesis
      by (simp only: x'_def mod_mult_self2)
  qed
  ultimately show ?thesis
    by simp
qed

lemma split_exact:
  assumes "0 \<le> a" "a < 2 ^ 46"
  shows "split_multiplier (of_int a) = Some (of_int (a div 2 ^ 23), of_int (a mod 2 ^ 23))"
proof -
  have 1: "rnd (r23 * of_int a) = of_int a / 2 ^ 23" "int_of_double (of_int a / 2 ^ 23) = Some (a div 2 ^ 23)"
    using rnd_frac [of a 23] int_of_frac [of a 23] assms by (simp_all add: constants)
  have m: "0 \<le> a mod 2 ^ 23" "a mod 2 ^ 23 < 2 ^ 23"
    by simp_all
  have d: "2 ^ 23 * (a div 2 ^ 23) = a - a mod 2 ^ 23"
    by (simp add: minus_mod_eq_mult_div)
  have 2: "rnd (t23 * of_int (a div 2 ^ 23)) = of_int (a - a mod 2 ^ 23)"
    "rnd (of_int a - of_int (a - a mod 2 ^ 23)) = of_int (a mod 2 ^ 23)"
    using rnd_ops(1) [of 23 "a div 2 ^ 23", unfolded d] rnd_ops(4) [of a "a - a mod 2 ^ 23"] assms m
    by (simp_all only: constants) auto
  show ?thesis
    by (simp only: split_multiplier_def 1 2 bind.bind_lunit Let_def)
qed

definition next_seed :: "int \<Rightarrow> int \<Rightarrow> int" where
  "next_seed a x = a * x mod 2 ^ 46"

lemma randlc_is_lcg:
  assumes "0 \<le> a" "a < 2 ^ 46" "0 \<le> x" "x < 2 ^ 46"
  shows "randlc (of_int x) (of_int a) = Some (of_int (next_seed a x) / 2 ^ 46, of_int (next_seed a x))"
proof -
  have b: "0 \<le> a div 2 ^ 23" "a div 2 ^ 23 < 2 ^ 23" "0 \<le> a mod 2 ^ 23" "a mod 2 ^ 23 < 2 ^ 23"
    using assms by auto
  have "2 ^ 23 * (a div 2 ^ 23) + a mod 2 ^ 23 = a"
    by (rule mult_div_mod_eq)
  then show ?thesis
    using lcg_exact [OF b assms(3,4)] by (simp only: randlc_def split_exact [OF assms(1,2)] bind.bind_lunit prod.case next_seed_def)
qed

lemma next_seed_range: "0 \<le> next_seed a x" "next_seed a x < 2 ^ 46"
  by (simp_all add: next_seed_def)

lemma vranlc_is_lcg:
  assumes "0 \<le> a" "a < 2 ^ 46" "0 \<le> x" "x < 2 ^ 46"
  shows "vranlc n (of_int x) (of_int a)
    = Some (map (\<lambda>i. of_int ((next_seed a ^^ Suc i) x) / 2 ^ 46) [0..<n], of_int ((next_seed a ^^ n) x))"
proof -
  have b: "0 \<le> a div 2 ^ 23" "a div 2 ^ 23 < 2 ^ 23" "0 \<le> a mod 2 ^ 23" "a mod 2 ^ 23 < 2 ^ 23"
    using assms by auto
  have a: "2 ^ 23 * (a div 2 ^ 23) + a mod 2 ^ 23 = a"
    by (rule mult_div_mod_eq)
  have "vranlc_loop n (of_int (a div 2 ^ 23)) (of_int (a mod 2 ^ 23)) (of_int x)
      = Some (map (\<lambda>i. of_int ((next_seed a ^^ Suc i) x) / 2 ^ 46) [0..<n], of_int ((next_seed a ^^ n) x))"
    using assms(3,4)
  proof (induction n arbitrary: x)
    case (Suc n)
    have "map (\<lambda>i. of_int ((next_seed a ^^ Suc i) x) / 2 ^ 46) [0..<Suc n]
        = of_int (next_seed a x) / 2 ^ 46 # map (\<lambda>i. of_int ((next_seed a ^^ Suc i) (next_seed a x)) / (2 ^ 46 :: rat)) [0..<n]"
      by (simp add: upt_conv_Cons map_Suc_upt [symmetric] funpow_swap1 del: upt_Suc)
    then show ?case
      using Suc.IH [OF next_seed_range, of a x] lcg_exact [OF b Suc.prems]
      by (simp only: vranlc_loop.simps a next_seed_def [symmetric] bind.bind_lunit prod.case funpow_Suc_right comp_def)
  qed simp
  then show ?thesis
    by (simp only: vranlc_def split_exact [OF assms(1,2)] bind.bind_lunit prod.case)
qed

section \<open>Random rows\<close>

definition amult :: rat where "amult = rnd 1220703125"

definition icnvrt :: "rat \<Rightarrow> int \<Rightarrow> int option" where
  "icnvrt x ipwr2 = int_of_double (rnd (of_int ipwr2 * x))"

text \<open>
  \<open>v\<close> and \<open>iv\<close> are the first \<^verbatim>\<open>nzv\<close> elements of the arrays of these names. Nothing bounds the number of
  rounds of the loop.
\<close>

partial_function (option) sprnvc_loop ::
    "int \<Rightarrow> nat \<Rightarrow> int \<Rightarrow> rat \<Rightarrow> rat list \<Rightarrow> int list \<Rightarrow> (rat \<times> rat list \<times> int list) option" where
  "sprnvc_loop n nz nn1 tran v iv =
     (if length iv < nz then
        Option.bind (randlc tran amult) (\<lambda>r1.
        Option.bind (randlc (snd r1) amult) (\<lambda>r2.
        Option.bind (icnvrt (fst r2) nn1) (\<lambda>i0.
          if n < i0 + 1 then sprnvc_loop n nz nn1 (snd r2) v iv
          else if i0 + 1 \<in> set iv then sprnvc_loop n nz nn1 (snd r2) v iv
          else sprnvc_loop n nz nn1 (snd r2) (v @ [fst r1]) (iv @ [i0 + 1]))))
      else Some (tran, v, iv))"

declare sprnvc_loop.simps [code]

definition sprnvc :: "int \<Rightarrow> nat \<Rightarrow> int \<Rightarrow> rat \<Rightarrow> (rat \<times> rat list \<times> int list) option" where
  "sprnvc n nz nn1 tran = sprnvc_loop n nz nn1 tran [] []"

definition vecset :: "rat list \<Rightarrow> int list \<Rightarrow> int \<Rightarrow> rat \<Rightarrow> rat list \<times> int list" where
  "vecset v iv i val =
     (let v' = map2 (\<lambda>c x. if c = i then val else x) iv v
      in if i \<in> set iv then (v', iv) else (v' @ [val], iv @ [i]))"

text \<open>\<^verbatim>\<open>nn1\<close>: \<^verbatim>\<open>do nn1 = 2 * nn1; while (nn1 < n)\<close>, which stays in an \<^verbatim>\<open>int\<close> for \<open>n\<close> up to \<open>2 ^ 30\<close>.\<close>

partial_function (option) power_above :: "int \<Rightarrow> int \<Rightarrow> int option" where
  "power_above nn1 n = (if 2 * nn1 < n then power_above (2 * nn1) n else Some (2 * nn1))"

declare power_above.simps [code]

text \<open>
  A row as \<^verbatim>\<open>makea\<close> stores it: \<^verbatim>\<open>iouter\<close> and the columns with their elements, \<^verbatim>\<open>arow\<close> in number. A ULT
  generates all the rows up to its own, and stores its own.
\<close>

fun makea_rows :: "nat \<Rightarrow> nat \<Rightarrow> int \<Rightarrow> nat \<Rightarrow> nat \<Rightarrow> nat \<Rightarrow> rat \<Rightarrow> (nat \<times> (int \<times> rat) list) list option" where
  "makea_rows n nonzer nn1 ilow iouter 0 tran = Some []"
| "makea_rows n nonzer nn1 ilow iouter (Suc m) tran = do {
     (tran, vc, ivc) \<leftarrow> sprnvc (int n) nonzer nn1 tran;
     rows \<leftarrow> makea_rows n nonzer nn1 ilow (iouter + 1) m tran;
     let (v, iv) = vecset vc ivc (int iouter + 1) (1 / 2);
     Some (if ilow \<le> iouter then (iouter, zip (map (\<lambda>c. c - 1) iv) v) # rows else rows) }"

definition makea_low :: "nat \<Rightarrow> nat \<Rightarrow> nat \<Rightarrow> nat" where
  "makea_low num_threads n t = (n + num_threads - 1) div num_threads * t"

definition makea_high :: "nat \<Rightarrow> nat \<Rightarrow> nat \<Rightarrow> nat" where
  "makea_high num_threads n t = min n (makea_low num_threads n t + (n + num_threads - 1) div num_threads)"

text \<open>The seed every ULT starts from: the one after \<^verbatim>\<open>314159265\<close>. More than \<^verbatim>\<open>max_threads\<close> threads exit.\<close>

definition makea_thread :: "nat \<Rightarrow> nat \<Rightarrow> nat \<Rightarrow> nat \<Rightarrow> (nat \<times> (int \<times> rat) list) list option" where
  "makea_thread num_threads n nonzer t = do {
     (_, tran) \<leftarrow> randlc (rnd 314159265) amult;
     nn1 \<leftarrow> power_above 1 (int n);
     if num_threads = 0 \<or> 1024 < num_threads then None
     else makea_rows n nonzer nn1 (makea_low num_threads n t) 0 (makea_high num_threads n t) tran }"

section \<open>The rounds end\<close>

text \<open>
  Every second seed is the one before times \<open>5 ^ 26\<close>. The powers of this number reach every
  residue that agrees with the seed modulo 8, so the leading bits take every value.
\<close>

lemma amult_eq: "amult = of_int (5 ^ 13)"
  using rnd_int [of "5 ^ 13"] by (simp add: amult_def)

definition two_seeds :: "int \<Rightarrow> int" where
  "two_seeds s = next_seed (5 ^ 13) (next_seed (5 ^ 13) s)"

lemma two_seeds_eq: "two_seeds s = 5 ^ 26 * s mod 2 ^ 46"
proof -
  have "two_seeds s = 5 ^ 13 * (5 ^ 13 * s) mod 2 ^ 46"
    unfolding two_seeds_def next_seed_def by (rule mod_mult_right_eq)
  then show ?thesis
    by (simp add: mult.assoc)
qed

lemma odd_seeds: "odd s \<Longrightarrow> odd (two_seeds s)"
  unfolding two_seeds_eq by (simp add: dvd_mod_iff)

lemma two_seeds_iter: "0 \<le> s \<Longrightarrow> s < 2 ^ 46 \<Longrightarrow> (two_seeds ^^ t) s = (5 ^ 26) ^ t * s mod 2 ^ 46"
proof (induction t)
  case (Suc t)
  have "(two_seeds ^^ Suc t) s = 5 ^ 26 * ((5 ^ 26) ^ t * s mod 2 ^ 46) mod 2 ^ 46"
    unfolding funpow.simps comp_def two_seeds_eq [of "(two_seeds ^^ t) s"] using Suc by simp
  also have "\<dots> = 5 ^ 26 * ((5 ^ 26) ^ t * s) mod 2 ^ 46"
    by (rule mod_mult_right_eq)
  finally show ?case
    by (simp add: mult.assoc)
qed simp

lemma multiplier_power: "\<exists>q. odd q \<and> ((5 :: int) ^ 26) ^ 2 ^ j = 1 + 2 ^ (j + 3) * q"
proof (induction j)
  case 0
  have "(5 :: int) ^ 26 = 1 + 2 ^ 3 * 186264514923095703" "odd (186264514923095703 :: int)"
    by simp_all
  then show ?case
    by (metis add_0 power_0 power_one_right)
next
  case (Suc j)
  then obtain q where q: "odd q" "((5 :: int) ^ 26) ^ 2 ^ j = 1 + 2 ^ (j + 3) * q"
    by blast
  have "((5 :: int) ^ 26) ^ 2 ^ Suc j = (1 + 2 ^ (j + 3) * q)\<^sup>2"
    unfolding q(2) [symmetric] power_Suc by (simp only: power_mult [symmetric] ac_simps)
  also have "\<dots> = 1 + 2 ^ (Suc j + 3) * (q + 2 ^ (j + 2) * q\<^sup>2)"
    by (simp add: power2_eq_square power_add algebra_simps)
  finally show ?case
    using q(1) by (intro exI conjI) auto
qed

lemma residues_reached:
  assumes "odd s" "2 ^ 3 dvd s - y"
  shows "\<exists>t. 2 ^ (m + 3) dvd ((5 :: int) ^ 26) ^ t * s - y"
proof (induction m)
  case 0
  then show ?case
    using assms(2) by (intro exI [of _ 0]) simp
next
  case (Suc m)
  then obtain t c where c: "((5 :: int) ^ 26) ^ t * s - y = 2 ^ (m + 3) * c"
    by (auto elim: dvdE)
  show ?case
  proof (cases "even c")
    case True
    then have "2 ^ (Suc m + 3) dvd ((5 :: int) ^ 26) ^ t * s - y"
      unfolding c by (auto elim!: evenE simp: power_add)
    then show ?thesis ..
  next
    case False
    obtain q where q: "odd q" "((5 :: int) ^ 26) ^ 2 ^ m = 1 + 2 ^ (m + 3) * q"
      using multiplier_power by blast
    have "((5 :: int) ^ 26) ^ (t + 2 ^ m) * s - y = 2 ^ (m + 3) * (c + q * (((5 :: int) ^ 26) ^ t * s))"
    proof -
      have "P * (1 + K * q) * s - y = (P * s - y) + K * (q * (P * s))" for P K :: int
        by (simp add: algebra_simps)
      then show ?thesis
        unfolding power_add [of "5 ^ 26" t "2 ^ m"] q(2) using c by (simp only: distrib_left)
    qed
    moreover have "even (c + q * (((5 :: int) ^ 26) ^ t * s))"
      using False q(1) assms(1) by simp
    ultimately have "2 ^ (Suc m + 3) dvd ((5 :: int) ^ 26) ^ (t + 2 ^ m) * s - y"
      by (simp only: power_Suc2 add_Suc mult_dvd_mono dvd_refl)
    then show ?thesis ..
  qed
qed

text \<open>Every value of the leading \<open>k\<close> bits comes up.\<close>

lemma leading_bits_reached:
  assumes s: "odd s" "0 \<le> s" "s < 2 ^ 46" and v: "0 \<le> v" "v < 2 ^ k" and k: "k \<le> 43"
  shows "\<exists>t. (two_seeds ^^ t) s div 2 ^ (46 - k) = v"
proof -
  define y where "y = v * 2 ^ (46 - k) + s mod 8"
  have w: "(8 :: int) \<le> 2 ^ (46 - k)"
    using k power_increasing [of 3 "46 - k" "2 :: int"] by simp
  have r: "0 \<le> s mod 8" "s mod 8 < 2 ^ (46 - k)"
    using w pos_mod_bound [of 8 s] by auto
  have "(8 :: int) dvd 2 ^ (46 - k)"
    using k le_imp_power_dvd [of 3 "46 - k" "2 :: int"] by simp
  then have "8 dvd (s - s mod 8) - v * 2 ^ (46 - k)"
    by (rule dvd_diff [OF dvd_minus_mod dvd_mult])
  then have "2 ^ 3 dvd s - y"
    by (simp add: y_def algebra_simps)
  then obtain t where "2 ^ 46 dvd (5 ^ 26) ^ t * s - y"
    using residues_reached [OF s(1), of y 43] by auto
  then have "(5 ^ 26) ^ t * s mod 2 ^ 46 = y mod 2 ^ 46"
    by (simp add: mod_eq_dvd_iff)
  also have "y mod 2 ^ 46 = y"
  proof -
    have "y < (v + 1) * 2 ^ (46 - k)"
      using r by (simp add: y_def distrib_right)
    also have "\<dots> \<le> 2 ^ k * 2 ^ (46 - k)"
      using v by (intro mult_right_mono) auto
    also have "\<dots> = 2 ^ 46"
      using k by (simp flip: power_add)
    finally show ?thesis
      using v r by (simp add: y_def)
  qed
  finally have "(two_seeds ^^ t) s = y"
    using two_seeds_iter [OF s(2,3)] by simp
  then show ?thesis
    using r by (auto simp: y_def div_add1_eq intro!: exI [of _ t])
qed

text \<open>One round of the loop, on the seed as an integer.\<close>

lemma icnvrt_exact:
  assumes "0 \<le> x" "x < 2 ^ 46" "k \<le> 31"
  shows "icnvrt (of_int x / 2 ^ 46) (2 ^ k) = Some (x div 2 ^ (46 - k))"
proof -
  have p: "(2 :: rat) ^ 46 = 2 ^ k * 2 ^ (46 - k)"
    using assms(3) by (simp flip: power_add)
  have e: "of_int (2 ^ k) * (of_int x / 2 ^ 46) = (of_int x / 2 ^ (46 - k) :: rat)"
    by (subst p) simp
  have "x < 2 ^ (31 + (46 - k))"
    using assms(2,3) power_increasing [of 46 "31 + (46 - k)" "2 :: int"] by linarith
  then show ?thesis
    unfolding icnvrt_def e using rnd_frac [of x "46 - k"] int_of_frac [OF assms(1), of "46 - k"] assms by simp
qed

definition row_index :: "nat \<Rightarrow> int \<Rightarrow> int" where
  "row_index k s = two_seeds s div 2 ^ (46 - k) + 1"

lemma sprnvc_round:
  assumes "0 \<le> s" "s < 2 ^ 46" "k \<le> 31" "length iv < nz"
  shows "sprnvc_loop n nz (2 ^ k) (of_int s) v iv =
    (if n < row_index k s \<or> row_index k s \<in> set iv then sprnvc_loop n nz (2 ^ k) (of_int (two_seeds s)) v iv
     else sprnvc_loop n nz (2 ^ k) (of_int (two_seeds s)) (v @ [of_int (next_seed (5 ^ 13) s) / 2 ^ 46]) (iv @ [row_index k s]))"
proof -
  let ?s1 = "next_seed (5 ^ 13) s"
  have r1: "randlc (of_int s) amult = Some (of_int ?s1 / 2 ^ 46, of_int ?s1)"
    unfolding amult_eq by (rule randlc_is_lcg) (use assms in simp_all)
  have r2: "randlc (of_int ?s1) amult = Some (of_int (two_seeds s) / 2 ^ 46, of_int (two_seeds s))"
    unfolding amult_eq two_seeds_def by (rule randlc_is_lcg) (use next_seed_range in simp_all)
  have i: "icnvrt (of_int (two_seeds s) / 2 ^ 46) (2 ^ k) = Some (two_seeds s div 2 ^ (46 - k))"
    by (rule icnvrt_exact) (use assms(3) next_seed_range in \<open>simp_all only: two_seeds_def\<close>)
  show ?thesis
    by (subst sprnvc_loop.simps)
      (use assms(4) in \<open>simp only: r1 r2 i snd_conv fst_conv bind.bind_lunit row_index_def [symmetric] if_True\<close>, simp)
qed

definition row_ok :: "int \<Rightarrow> int list \<Rightarrow> bool" where
  "row_ok n iv \<longleftrightarrow> distinct iv \<and> set iv \<subseteq> {1..n}"

definition unit_vals :: "rat list \<Rightarrow> bool" where
  "unit_vals v \<longleftrightarrow> (\<forall>x \<in> set v. 0 \<le> x \<and> x < 1)"

lemma row_index_pos: "1 \<le> row_index k s"
  using next_seed_range [of "5 ^ 13" "next_seed (5 ^ 13) s"]
  by (simp add: row_index_def two_seeds_def pos_imp_zdiv_nonneg_iff)

lemma seed_val: "0 \<le> of_int (next_seed a s) / (2 ^ 46 :: rat)" "of_int (next_seed a s) / (2 ^ 46 :: rat) < 1"
proof -
  have "of_int (next_seed a s) < (of_int (2 ^ 46) :: rat)"
    by (simp only: of_int_less_iff next_seed_range)
  then show "0 \<le> of_int (next_seed a s) / (2 ^ 46 :: rat)" "of_int (next_seed a s) / (2 ^ 46 :: rat) < 1"
    using next_seed_range(1) [of a s] by simp_all
qed

lemma sprnvc_loop_returns:
  assumes "odd s" "0 \<le> s" "s < 2 ^ 46" and k: "k \<le> 31" "n \<le> 2 ^ k" and nz: "int nz \<le> n"
    and "row_ok n iv" "length v = length iv" "unit_vals v" "length iv \<le> nz"
  shows "\<exists>s' v' iv'. sprnvc_loop n nz (2 ^ k) (of_int s) v iv = Some (of_int s', v', iv') \<and> odd s' \<and> 0 \<le> s' \<and> s' < 2 ^ 46 \<and>
    row_ok n iv' \<and> length v' = nz \<and> length iv' = nz \<and> unit_vals v'"
  using assms(1-3,7-10)
proof (induction "nz - length iv" arbitrary: s v iv)
  case 0
  then show ?case
    by (subst sprnvc_loop.simps) (auto intro!: exI [of _ s])
next
  case (Suc d)
  then have less: "length iv < nz"
    by simp
  have "\<exists>i \<in> {1..n}. i \<notin> set iv"
  proof (rule ccontr)
    assume "\<not> ?thesis"
    then have "card {1..n} \<le> card (set iv)"
      by (intro card_mono) auto
    then show False
      using less nz card_length [of iv] by simp
  qed
  then obtain i where i: "1 \<le> i" "i \<le> n" "i \<notin> set iv"
    by auto
  have seeds: "odd (two_seeds s)" "0 \<le> two_seeds s" "two_seeds s < 2 ^ 46" if "odd s" for s
    using odd_seeds [OF that] next_seed_range by (simp_all add: two_seeds_def)
  obtain t where t: "(two_seeds ^^ t) (two_seeds s) div 2 ^ (46 - k) = i - 1"
    using leading_bits_reached [OF seeds [OF Suc.prems(1)], of "i - 1" k] i k by auto
  note outer = Suc.hyps(1) and d = Suc.hyps(2)
  from t Suc.prems show ?case
  proof (induction t arbitrary: s)
    case 0
    then have e: "row_index k s = i"
      by (simp add: row_index_def)
    have "row_ok n (iv @ [i])" "unit_vals (v @ [of_int (next_seed (5 ^ 13) s) / 2 ^ 46])"
      using "0.prems" i seed_val by (auto simp: row_ok_def unit_vals_def)
    then show ?case
      unfolding sprnvc_round [OF "0.prems"(3,4) k(1) less] e
      using i outer [of "iv @ [i]" "two_seeds s" "v @ [of_int (next_seed (5 ^ 13) s) / 2 ^ 46]"]
        d "0.prems" seeds [OF "0.prems"(2)] less by simp
  next
    case (Suc t')
    let ?r = "row_index k s"
    show ?case
    proof (cases "n < ?r \<or> ?r \<in> set iv")
      case True
      then show ?thesis
        unfolding sprnvc_round [OF Suc.prems(3,4) k(1) less]
        using Suc.IH [of "two_seeds s"] Suc.prems seeds [OF Suc.prems(2)] by (simp add: funpow_swap1)
    next
      case False
      have "row_ok n (iv @ [?r])" "unit_vals (v @ [of_int (next_seed (5 ^ 13) s) / 2 ^ 46])"
        using Suc.prems False seed_val row_index_pos by (auto simp: row_ok_def unit_vals_def)
      then show ?thesis
        unfolding sprnvc_round [OF Suc.prems(3,4) k(1) less]
        using False d Suc.prems seeds [OF Suc.prems(2)] less
          outer [of "iv @ [?r]" "two_seeds s" "v @ [of_int (next_seed (5 ^ 13) s) / 2 ^ 46]"]
        by simp
    qed
  qed
qed

section \<open>The rows of \<^verbatim>\<open>makea\<close>\<close>

lemma power_above_returns:
  assumes "1 \<le> n" "n \<le> 2 ^ 31"
  obtains k where "power_above 1 n = Some (2 ^ k)" "n \<le> 2 ^ k" "0 < k" "k \<le> 31" "k = 1 \<or> 2 ^ (k - 1) < n"
proof -
  have "\<exists>k. power_above (2 ^ j) n = Some (2 ^ k) \<and> n \<le> 2 ^ k \<and> 0 < k \<and> k \<le> 31 \<and> (k = 1 \<or> 2 ^ (k - 1) < n)"
    if "j \<le> 30" "j = 0 \<or> 2 ^ j < n" for j
    using that
  proof (induction "30 - j" arbitrary: j)
    case 0
    then show ?case
      using assms(2) by (subst power_above.simps) (auto intro!: exI [of _ 31])
  next
    case (Suc d)
    show ?case
    proof (cases "2 * 2 ^ j < n")
      case True
      then show ?thesis
        using Suc.hyps(1) [of "Suc j"] Suc.hyps(2) by (subst power_above.simps) simp
    next
      case False
      then show ?thesis
        using Suc.hyps(2) Suc.prems by (subst power_above.simps) (auto intro!: exI [of _ "Suc j"])
    qed
  qed
  from this [of 0] that show ?thesis
    by auto
qed

lemma vecset_row:
  assumes "length v = length iv" "distinct iv"
  shows "length (fst (vecset v iv i val)) = length (snd (vecset v iv i val))" "distinct (snd (vecset v iv i val))"
    "set (snd (vecset v iv i val)) = insert i (set iv)"
    "map_of (zip (snd (vecset v iv i val)) (fst (vecset v iv i val))) = (map_of (zip iv v))(i \<mapsto> val)"
proof -
  show "length (fst (vecset v iv i val)) = length (snd (vecset v iv i val))" "distinct (snd (vecset v iv i val))"
    "set (snd (vecset v iv i val)) = insert i (set iv)"
    using assms by (auto simp: vecset_def Let_def)
  have m: "map_of (zip iv (map2 (\<lambda>c x. if c = i then val else x) iv v)) c
      = (if c = i \<and> i \<in> set iv then Some val else map_of (zip iv v) c)" for c
    using assms(1) by (induction v iv rule: list_induct2) auto
  have none: "x \<notin> set iv \<Longrightarrow> map_of (zip iv v) x = None" for x
    by (auto simp: map_of_eq_None_iff dest: set_zip_leftD)
  show "map_of (zip (snd (vecset v iv i val)) (fst (vecset v iv i val))) = (map_of (zip iv v))(i \<mapsto> val)"
  proof (rule ext)
    fix x
    show "map_of (zip (snd (vecset v iv i val)) (fst (vecset v iv i val))) x = ((map_of (zip iv v))(i \<mapsto> val)) x"
      using m [of x] none [of x] assms(1)
      by (cases "x = i"; cases "i \<in> set iv"; cases "x \<in> set iv")
        (simp_all add: vecset_def Let_def map_add_def del: map_of_zip_is_None split: option.split)
  qed
qed

definition good_row :: "nat \<Rightarrow> nat \<Rightarrow> nat \<Rightarrow> nat \<times> (int \<times> rat) list \<Rightarrow> bool" where
  "good_row n nonzer i row \<longleftrightarrow> fst row = i \<and> distinct (map fst (snd row)) \<and> fst ` set (snd row) \<subseteq> {0..<int n} \<and>
     nonzer \<le> length (snd row) \<and> length (snd row) \<le> nonzer + 1 \<and> (int i, 1 / 2) \<in> set (snd row)"

lemma makea_row_good:
  assumes "row_ok (int n) iv" "length v = nonzer" "length iv = nonzer" "i < n" "vecset v iv (int i + 1) (1 / 2) = (v', iv')"
  shows "good_row n nonzer i (i, zip (map (\<lambda>c. c - 1) iv') v')"
proof -
  have d: "distinct iv" "set iv \<subseteq> {1..int n}"
    using assms(1) by (auto simp: row_ok_def)
  note r = vecset_row [OF trans [OF assms(2) assms(3) [symmetric]] d(1), of "int i + 1" "1 / 2", unfolded assms(5) fst_conv snd_conv]
  have "distinct (map (\<lambda>c. c - 1) iv')"
    using r(2) by (simp add: distinct_map inj_on_def)
  moreover have "(int i, 1 / 2) \<in> set (zip (map (\<lambda>c. c - 1) iv') v')"
  proof -
    have "(int i + 1, 1 / 2) \<in> set (zip iv' v')"
      by (rule map_of_SomeD) (simp add: r(4))
    then show ?thesis
      by (force simp: zip_map1)
  qed
  moreover have "nonzer \<le> length iv'" "length iv' \<le> nonzer + 1"
  proof -
    have "card (set iv') = length iv'" "card (set iv) = nonzer"
      using r(2) d(1) assms(3) by (simp_all add: distinct_card)
    then show "nonzer \<le> length iv'" "length iv' \<le> nonzer + 1"
      using r(3) by (auto simp: card_insert_if split: if_splits)
  qed
  moreover have "fst ` set (zip (map (\<lambda>c. c - 1) iv') v') \<subseteq> {0..<int n}"
    using r(3) d(2) assms(4) by (fastforce simp: zip_map1 dest: set_zip_leftD)
  ultimately show ?thesis
    using r(1) by (simp add: good_row_def)
qed

lemma makea_rows_return:
  assumes k: "k \<le> 31" "int n \<le> 2 ^ k" and nz: "nonzer \<le> n" and s: "odd s" "0 \<le> s" "s < 2 ^ 46" and m: "io + m \<le> n"
  shows "\<exists>rows. makea_rows n nonzer (2 ^ k) 0 io m (of_int s) = Some rows \<and> length rows = m \<and>
    (\<forall>j < m. good_row n nonzer (io + j) (rows ! j))"
  using s m
proof (induction m arbitrary: s io)
  case (Suc m)
  obtain s' v iv where r: "sprnvc_loop (int n) nonzer (2 ^ k) (of_int s) [] [] = Some (of_int s', v, iv)"
    "odd s'" "0 \<le> s'" "s' < 2 ^ 46" "row_ok (int n) iv" "length v = nonzer" "length iv = nonzer"
    using sprnvc_loop_returns [OF Suc.prems(1-3) k, of nonzer "[]" "[]"] nz by (auto simp: row_ok_def unit_vals_def)
  obtain rows where rows: "makea_rows n nonzer (2 ^ k) 0 (io + 1) m (of_int s') = Some rows" "length rows = m"
    "\<forall>j < m. good_row n nonzer (io + 1 + j) (rows ! j)"
    using Suc.IH [OF r(2-4), of "io + 1"] Suc.prems by auto
  obtain v' iv' where vs: "vecset v iv (int io + 1) (1 / 2) = (v', iv')"
    by fastforce
  have "good_row n nonzer io (io, zip (map (\<lambda>c. c - 1) iv') v')"
    by (rule makea_row_good [OF r(5-7) _ vs]) (use Suc.prems in simp)
  then show ?case
    using rows by (auto simp: sprnvc_def r(1) vs nth_Cons split: nat.split)
qed simp

lemma makea_rows_low:
  "makea_rows n nonzer nn1 ilow io m tran = map_option (filter (\<lambda>r. ilow \<le> fst r)) (makea_rows n nonzer nn1 0 io m tran)"
proof (induction m arbitrary: io tran)
  case (Suc m)
  then show ?case
    by (auto split: bind_splits option.splits prod.splits simp: Let_def map_option_case)
qed simp

lemma makea_rows_prefix:
  "makea_rows n nonzer nn1 0 io (m + d) tran = Some rows \<Longrightarrow> makea_rows n nonzer nn1 0 io m tran = Some (take m rows)"
proof (induction m arbitrary: io tran rows)
  case (Suc m)
  then show ?case
    by (auto simp: Let_def bind_eq_Some_conv case_prod_beta)
qed simp

lemma filter_from:
  assumes "\<forall>j < length xs. fst (xs ! j) = j"
  shows "filter (\<lambda>r. a \<le> fst r) (take b xs) = drop a (take b xs)"
  using assms
proof (induction b)
  case (Suc b)
  then show ?case
    by (cases "b < length xs") (auto simp: take_Suc_conv_app_nth)
qed simp

lemma blocks_cover:
  assumes "length xs \<le> T * w"
  shows "concat (map (\<lambda>t. drop (w * t) (take (min (length xs) (w * t + w)) xs)) [0..<T]) = xs"
proof -
  have "concat (map (\<lambda>t. drop (w * t) (take (min (length xs) (w * t + w)) xs)) [0..<m]) = take (w * m) xs" for m
  proof (induction m)
    case (Suc m)
    have "drop (w * m) (take (min (length xs) (w * m + w)) xs) = take w (drop (w * m) xs)"
      by (auto simp: drop_take min_def)
    then have "take (w * Suc m) xs = take (w * m) xs @ drop (w * m) (take (min (length xs) (w * m + w)) xs)"
      by (simp only: mult_Suc_right add.commute [of w] take_add)
    then show ?case
      using Suc by simp
  qed simp
  from this [of T] show ?thesis
    using assms by (simp add: mult.commute)
qed

lemma makea_threads:
  assumes n: "0 < n" "n \<le> 2 ^ 31" "nonzer \<le> n" and T: "0 < T" "T \<le> 1024"
  shows "\<exists>rows. makea_thread 1 n nonzer 0 = Some rows \<and> length rows = n \<and> (\<forall>i < n. good_row n nonzer i (rows ! i)) \<and>
    (\<forall>t < T. makea_thread T n nonzer t = Some (drop (makea_low T n t) (take (makea_high T n t) rows))) \<and>
    concat (map (\<lambda>t. drop (makea_low T n t) (take (makea_high T n t) rows)) [0..<T]) = rows"
proof -
  have "1 \<le> int n" "int n \<le> 2 ^ 31"
    using n by (simp, metis of_nat_le_iff of_nat_numeral of_nat_power)
  then obtain k where k: "power_above 1 (int n) = Some (2 ^ k)" "int n \<le> 2 ^ k" "k \<le> 31"
    by (rule power_above_returns)
  let ?s = "next_seed (5 ^ 13) 314159265"
  have r: "randlc (rnd 314159265) amult = Some (of_int ?s / 2 ^ 46, of_int ?s)"
    using rnd_int [of 314159265] randlc_is_lcg [of "5 ^ 13" 314159265] by (simp add: amult_eq)
  have s: "odd ?s"
    by (simp add: next_seed_def)
  obtain rows where rows: "makea_rows n nonzer (2 ^ k) 0 0 n (of_int ?s) = Some rows" "length rows = n"
    "\<forall>j < n. good_row n nonzer j (rows ! j)"
    using makea_rows_return [OF k(3,2) n(3) s next_seed_range, of 0 n] by auto
  have idx: "\<forall>j < length rows. fst (rows ! j) = j"
    using rows by (auto simp: good_row_def)
  have thread: "makea_thread T n nonzer t = Some (drop (makea_low T n t) (take (makea_high T n t) rows))"
    if "0 < T" "T \<le> 1024" for T t
  proof -
    have "makea_high T n t + (n - makea_high T n t) = n"
      by (simp add: makea_high_def)
    then have "makea_rows n nonzer (2 ^ k) 0 0 (makea_high T n t) (of_int ?s) = Some (take (makea_high T n t) rows)"
      using makea_rows_prefix [of n nonzer "2 ^ k" 0 "makea_high T n t" "n - makea_high T n t" "of_int ?s" rows] rows(1) by simp
    then show ?thesis
      using that by (simp add: makea_thread_def r k(1) makea_rows_low [of n nonzer "2 ^ k" "makea_low T n t"] filter_from [OF idx])
  qed
  have "n \<le> T * ((n + T - 1) div T)"
  proof -
    have "n + T - 1 < T * ((n + T - 1) div T) + T"
      using T(1) by (metis dividend_less_times_div add.commute)
    then show ?thesis
      using T(1) by linarith
  qed
  then have "concat (map (\<lambda>t. drop (makea_low T n t) (take (makea_high T n t) rows)) [0..<T]) = rows"
    using blocks_cover [of rows T "(n + T - 1) div T"] rows(2) by (simp add: makea_low_def makea_high_def)
  moreover have "makea_thread 1 n nonzer 0 = Some rows"
    using thread [of 1 0] rows(2) by (simp add: makea_low_def makea_high_def)
  ultimately show ?thesis
    using rows thread [OF T] by blast
qed

end
