(* ===== verification/Jacobi.thy ===== *)
theory Jacobi
  imports Phases ReductionTree
begin

text \<open>
  The Jacobi solver, \<^verbatim>\<open>jac3d_argobots_fixed/jac3d.c\<close>: two grids of \<^verbatim>\<open>L\<close> cubed \<^verbatim>\<open>float\<close>s, one phase that
  copies \<^verbatim>\<open>B\<close> to \<^verbatim>\<open>A\<close> and takes the largest change, one that averages \<^verbatim>\<open>A\<close> into \<^verbatim>\<open>B\<close>, repeated until the
  change is small or \<^verbatim>\<open>ITMAX\<close> rounds are done. \<^verbatim>\<open>float\<close>s are real numbers, without their rounding. Every
  cell is a step of its own; an index outside the grid is \<open>None\<close>.

  The theorems: no schedule of the ULTs, on any number of streams and for any number of ULTs, makes a
  difference to the sequential method, and the loop ends with the change of its last round.
\<close>

section \<open>Model\<close>

type_synonym cell = "nat \<times> nat \<times> nat"

type_synonym grid = "cell \<Rightarrow> real"

definition at_cell :: "nat \<Rightarrow> grid \<Rightarrow> nat \<Rightarrow> nat \<Rightarrow> nat \<Rightarrow> real option" where
  "at_cell L g i j k = (if i < L \<and> j < L \<and> k < L then Some (g (i, j, k)) else None)"

definition put_cell :: "nat \<Rightarrow> grid \<Rightarrow> nat \<Rightarrow> nat \<Rightarrow> nat \<Rightarrow> real \<Rightarrow> grid option" where
  "put_cell L g i j k x = (if i < L \<and> j < L \<and> k < L then Some (g((i, j, k) := x)) else None)"

record jac =
  jac_A :: grid
  jac_B :: grid
  jac_local :: "nat \<Rightarrow> real"
  jac_eps :: "real option list"

record jac_env =
  je_threads :: nat
  je_pools :: nat
  je_stealing :: bool
  je_L :: nat

text \<open>The macro \<^verbatim>\<open>Max\<close>.\<close>

definition c_Max :: "real \<Rightarrow> real \<Rightarrow> real" where
  "c_Max a b = (if a > b then a else b)"

definition eps_clear :: "nat \<Rightarrow> jac action" where
  "eps_clear t s = Some (s\<lparr>jac_local := (jac_local s)(t := 0)\<rparr>)"

definition update_A_cell :: "nat \<Rightarrow> nat \<Rightarrow> cell \<Rightarrow> jac action" where
  "update_A_cell L t = (\<lambda>(i, j, k) s. do {
     b \<leftarrow> at_cell L (jac_B s) i j k;
     a \<leftarrow> at_cell L (jac_A s) i j k;
     let tmp = \<bar>b - a\<bar>;
     let local = c_Max tmp (jac_local s t);
     A \<leftarrow> put_cell L (jac_A s) i j k b;
     Some (s\<lparr>jac_A := A, jac_local := (jac_local s)(t := local)\<rparr>) })"

definition eps_store :: "nat \<Rightarrow> jac action" where
  "eps_store t s = (if t < length (jac_eps s) then Some (s\<lparr>jac_eps := (jac_eps s)[t := Some (jac_local s t)]\<rparr>) else None)"

definition update_B_cell :: "nat \<Rightarrow> cell \<Rightarrow> jac action" where
  "update_B_cell L = (\<lambda>(i, j, k) s. do {
     a1 \<leftarrow> at_cell L (jac_A s) (i - 1) j k;
     a2 \<leftarrow> at_cell L (jac_A s) i (j - 1) k;
     a3 \<leftarrow> at_cell L (jac_A s) i j (k - 1);
     a4 \<leftarrow> at_cell L (jac_A s) i j (k + 1);
     a5 \<leftarrow> at_cell L (jac_A s) i (j + 1) k;
     a6 \<leftarrow> at_cell L (jac_A s) (i + 1) j k;
     B \<leftarrow> put_cell L (jac_B s) i j k ((a1 + a2 + a3 + a4 + a5 + a6) / 6);
     Some (s\<lparr>jac_B := B\<rparr>) })"

text \<open>
  The cells of ULT \<open>t\<close>, in the order of its loops. All indices are at least 1, so no \<^verbatim>\<open>i - 1\<close> is
  negative.
\<close>

definition row_cells :: "nat \<Rightarrow> nat \<Rightarrow> cell list" where
  "row_cells L i = concat (map (\<lambda>j. map (\<lambda>k. (i, j, k)) [1..<L - 1]) [1..<L - 1])"

definition ult_cells :: "nat \<Rightarrow> nat \<Rightarrow> nat \<Rightarrow> cell list" where
  "ult_cells T L t = concat (map (\<lambda>r. row_cells L (1 + r)) (part T (L - 2) t))"

definition update_A_thread :: "nat \<Rightarrow> nat \<Rightarrow> nat \<Rightarrow> jac action list" where
  "update_A_thread T L t = [eps_clear t] @ map (update_A_cell L t) (ult_cells T L t) @ [eps_store t]"

definition update_B_thread :: "nat \<Rightarrow> nat \<Rightarrow> nat \<Rightarrow> jac action list" where
  "update_B_thread T L t = map (update_B_cell L) (ult_cells T L t)"

definition run_jac :: "jac_env \<Rightarrow> (nat \<Rightarrow> nat) \<Rightarrow> (nat \<Rightarrow> jac action list) \<Rightarrow> jac action" where
  "run_jac env choice ult = run_ults (je_stealing env) (je_pools env) choice
     (map (\<lambda>t. (t mod je_pools env, ult t)) [0..<je_threads env])"

text \<open>\<^verbatim>\<open>reduce_max_float\<close> on one value per ULT, by the recurrence \<open>level\<close> of theory Reduction.\<close>

definition float_max :: "real \<Rightarrow> real \<Rightarrow> real" where
  "float_max a b = (if a < b then b else a)"

definition reduce_max_float :: "nat \<Rightarrow> real option list \<Rightarrow> real option" where
  "reduce_max_float num_threads values = do {
     vs \<leftarrow> those values;
     Some (level float_max num_threads (base_value float_max num_threads vs (real_default Rmax TFloat)) num_threads 0) }"

definition jac_round :: "jac_env \<Rightarrow> (nat \<Rightarrow> nat \<Rightarrow> nat) \<Rightarrow> jac \<Rightarrow> (jac \<times> real) option" where
  "jac_round env choice s = do {
     s \<leftarrow> run_jac env (choice 0) (update_A_thread (je_threads env) (je_L env)) s;
     eps \<leftarrow> reduce_max_float (je_threads env) (jac_eps s);
     s \<leftarrow> run_jac env (choice 1) (update_B_thread (je_threads env) (je_L env)) s;
     Some (s, eps) }"

definition MAXEPS :: real where "MAXEPS = 1 / 2"

fun jac_loop :: "jac_env \<Rightarrow> nat \<Rightarrow> (nat \<Rightarrow> nat \<Rightarrow> nat) \<Rightarrow> jac \<Rightarrow> real \<Rightarrow> (jac \<times> real) option" where
  "jac_loop env 0 choice s eps = Some (s, eps)"
| "jac_loop env (Suc m) choice s eps = do {
     (s, eps) \<leftarrow> jac_round env choice s;
     if eps < MAXEPS then Some (s, eps) else jac_loop env m (\<lambda>n. choice (n + 2)) s eps }"

definition ITMAX :: nat where "ITMAX = 100"

definition interior :: "nat \<Rightarrow> cell \<Rightarrow> bool" where
  "interior L = (\<lambda>(i, j, k). 1 \<le> i \<and> i < L - 1 \<and> 1 \<le> j \<and> j < L - 1 \<and> 1 \<le> k \<and> k < L - 1)"

definition initial_B :: "nat \<Rightarrow> grid" where
  "initial_B L = (\<lambda>(i, j, k). if interior L (i, j, k) then 4 + real i + real j + real k else 0)"

text \<open>\<^verbatim>\<open>main\<close>: the initial grids, the allocation of the results and the loop. \<^verbatim>\<open>eps\<close> is uninitialised.\<close>

definition jac_main :: "jac_env \<Rightarrow> (nat \<Rightarrow> nat \<Rightarrow> nat) \<Rightarrow> (nat \<Rightarrow> real) \<Rightarrow> real \<Rightarrow> (jac \<times> real) option" where
  "jac_main env choice locals junk = jac_loop env ITMAX choice
     \<lparr>jac_A = (\<lambda>_. 0), jac_B = initial_B (je_L env), jac_local = locals, jac_eps = replicate (je_threads env) None\<rparr> junk"

section \<open>The sequential method\<close>

definition copied :: "nat \<Rightarrow> grid \<Rightarrow> grid \<Rightarrow> grid" where
  "copied L A B c = (if interior L c then B c else A c)"

definition stencil :: "grid \<Rightarrow> cell \<Rightarrow> real" where
  "stencil A = (\<lambda>(i, j, k). (A (i - 1, j, k) + A (i, j - 1, k) + A (i, j, k - 1) +
     A (i, j, k + 1) + A (i, j + 1, k) + A (i + 1, j, k)) / 6)"

definition averaged :: "nat \<Rightarrow> grid \<Rightarrow> grid \<Rightarrow> grid" where
  "averaged L A B c = (if interior L c then stencil A c else B c)"

text \<open>The largest change, and not less than the number the reduction starts from.\<close>

definition grid_cells :: "nat \<Rightarrow> cell list" where
  "grid_cells L = concat (map (row_cells L) [1..<L - 1])"

definition largest_change :: "nat \<Rightarrow> grid \<Rightarrow> grid \<Rightarrow> real" where
  "largest_change L A B = foldl max FLT_MIN (map (\<lambda>c. \<bar>B c - A c\<bar>) (grid_cells L))"

fun jacobi_method :: "nat \<Rightarrow> nat \<Rightarrow> grid \<times> grid \<times> real \<Rightarrow> grid \<times> grid \<times> real" where
  "jacobi_method L 0 (A, B, eps) = (A, B, eps)"
| "jacobi_method L (Suc m) (A, B, eps) =
     (let A' = copied L A B; eps' = largest_change L A B; B' = averaged L A' B
      in if eps' < MAXEPS then (A', B', eps') else jacobi_method L m (A', B', eps'))"

section \<open>The ULTs do not interfere\<close>

lemma set_row_cells: "set (row_cells L i) = {i} \<times> {1..<L - 1} \<times> {1..<L - 1}"
  by (auto simp: row_cells_def)

lemma distinct_row_cells: "distinct (row_cells L i)"
proof -
  have "distinct (concat (map (\<lambda>j. map (\<lambda>k. (i, j, k)) ks) js))" if "distinct js" "distinct ks" for js ks :: "nat list"
    using that by (induction js) (auto simp: distinct_map inj_on_def)
  then show ?thesis
    by (simp add: row_cells_def)
qed

lemma set_ult_cells:
  assumes "t < T"
  shows "set (ult_cells T L t) = {c. interior L c \<and> fst c - 1 \<in> set (part T (L - 2) t)}"
proof (rule set_eqI)
  fix c :: cell
  obtain i j k where c: "c = (i, j, k)"
    by (cases c)
  show "c \<in> set (ult_cells T L t) \<longleftrightarrow> c \<in> {c. interior L c \<and> fst c - 1 \<in> set (part T (L - 2) t)}"
    using part_bound [of "i - 1" T "L - 2" t] assms
    by (cases i) (auto simp: c ult_cells_def set_row_cells interior_def)
qed

lemma ult_cells_disjoint:
  assumes "t < T" "u < T" "t \<noteq> u" "c \<in> set (ult_cells T L t)" "d \<in> set (ult_cells T L u)"
  shows "c \<noteq> d"
  using assms part_disjoint [of "fst c - 1" T "L - 2" t "fst d - 1" u] by (auto simp: set_ult_cells)

lemma cells_cover:
  assumes "0 < T"
  shows "concat (map (ult_cells T L) [0..<T]) = grid_cells L"
proof -
  have "concat (map (ult_cells T L) ts) = concat (map (\<lambda>r. row_cells L (1 + r)) (concat (map (part T (L - 2)) ts)))" for ts
    by (induction ts) (simp_all add: ult_cells_def)
  then have "concat (map (ult_cells T L) [0..<T]) = concat (map (\<lambda>r. row_cells L (1 + r)) (concat (map (part T (L - 2)) [0..<T])))"
    by blast
  also have "\<dots> = concat (map (row_cells L) (map Suc [0..<L - 2]))"
    by (simp add: parts_cover [OF assms] comp_def)
  also have "map Suc [0..<L - 2] = [1..<L - 1]"
  proof (cases "2 \<le> L")
    case True
    then obtain m where "L = 2 + m"
      using le_Suc_ex by blast
    then show ?thesis
      by (simp add: map_Suc_upt del: upt_Suc)
  qed simp
  finally show ?thesis
    by (simp add: grid_cells_def)
qed

lemma set_grid_cells: "set (grid_cells L) = {c. interior L c}"
  by (auto simp: grid_cells_def set_row_cells interior_def)

lemma distinct_grid_cells: "distinct (grid_cells L)"
proof -
  have "distinct (concat (map (row_cells L) is))" if "distinct is" for "is"
    using that by (induction "is") (auto simp: distinct_row_cells set_row_cells)
  then show ?thesis
    by (simp add: grid_cells_def)
qed

text \<open>The cell functions in one piece.\<close>

definition in_grid :: "nat \<Rightarrow> cell \<Rightarrow> bool" where
  "in_grid L = (\<lambda>(i, j, k). i < L \<and> j < L \<and> k < L)"

definition stencil_in_grid :: "nat \<Rightarrow> cell \<Rightarrow> bool" where
  "stencil_in_grid L = (\<lambda>(i, j, k). i + 1 < L \<and> j + 1 < L \<and> k + 1 < L)"

lemma update_A_cell_eq:
  "update_A_cell L t c s = (if in_grid L c then Some (s\<lparr>jac_A := (jac_A s)(c := jac_B s c),
     jac_local := (jac_local s)(t := c_Max \<bar>jac_B s c - jac_A s c\<bar> (jac_local s t))\<rparr>) else None)"
  by (cases c) (simp add: update_A_cell_def at_cell_def put_cell_def in_grid_def Let_def)

lemma update_B_cell_eq:
  "update_B_cell L c s = (if stencil_in_grid L c then Some (s\<lparr>jac_B := (jac_B s)(c := stencil (jac_A s) c)\<rparr>) else None)"
  by (cases c) (auto simp: update_B_cell_def at_cell_def put_cell_def stencil_in_grid_def stencil_def)

lemma interior_in_grid: "interior L c \<Longrightarrow> in_grid L c" "interior L c \<Longrightarrow> stencil_in_grid L c"
  by (cases c; auto simp: interior_def in_grid_def stencil_in_grid_def)+

lemmas jac_defs = commuting_def eps_clear_def eps_store_def update_A_cell_eq update_B_cell_eq

lemma eps_commute:
  "t \<noteq> u \<Longrightarrow> commuting [eps_clear t, eps_store t] [eps_clear u, eps_store u]"
  "t \<noteq> u \<Longrightarrow> commuting [eps_clear t, eps_store t] [update_A_cell L u c]"
  by (auto simp: jac_defs fun_upd_twist list_update_swap)

lemma cells_commute:
  "t \<noteq> u \<Longrightarrow> c \<noteq> d \<Longrightarrow> commuting [update_A_cell L t c] [update_A_cell L u d]"
  "c \<noteq> d \<Longrightarrow> commuting [update_B_cell L c] [update_B_cell L d]"
  by (simp_all add: jac_defs fun_upd_twist)

lemma threads_independent:
  "indep_runs (map (update_A_thread T L) [0..<T])" "indep_runs (map (update_B_thread T L) [0..<T])"
proof -
  have d: "\<forall>c \<in> set (ult_cells T L t). \<forall>d \<in> set (ult_cells T L u). c \<noteq> d" if "t < T" "u < T" "t \<noteq> u" for t u
    using ult_cells_disjoint [OF that] by blast
  have a: "commuting (update_A_thread T L t) (update_A_thread T L u)" if "t < T" "u < T" "t \<noteq> u" for t u
    using d [OF that] eps_commute [OF that(3)] eps_commute [of u t] cells_commute(1) [OF that(3)] that(3)
    unfolding update_A_thread_def commuting_append by (simp add: commuting_def)
  have b: "commuting (update_B_thread T L t) (update_B_thread T L u)" if "t < T" "u < T" "t \<noteq> u" for t u
    unfolding update_B_thread_def using d [OF that] by (intro commuting_maps2 cells_commute) blast
  show "indep_runs (map (update_A_thread T L) [0..<T])" "indep_runs (map (update_B_thread T L) [0..<T])"
    using a b by (auto simp: indep_runs_def sorted_wrt_iff_nth_less)
qed

lemma run_jac_sequential:
  assumes "0 < je_pools env" "indep_runs (map ult [0..<je_threads env])"
  shows "run_jac env choice ult s = run_steps (concat (map ult [0..<je_threads env])) s"
  using run_ults_independent [of "map (\<lambda>t. (t mod je_pools env, ult t)) [0..<je_threads env]" "je_pools env"] assms
  by (simp add: run_jac_def comp_def)

section \<open>What a round computes\<close>

definition put_cells :: "cell list \<Rightarrow> grid \<Rightarrow> grid \<Rightarrow> grid" where
  "put_cells cs f g = (\<lambda>c. if c \<in> set cs then f c else g c)"

lemma put_cells_simps [simp]:
  "put_cells [] f g = g" "put_cells cs f (g(c := f c)) = put_cells (c # cs) f g"
  by (auto simp: put_cells_def)

lemma run_B:
  assumes "\<forall>c \<in> set cs. interior L c"
  shows "run_steps (map (update_B_cell L) cs) s = Some (s\<lparr>jac_B := put_cells cs (stencil (jac_A s)) (jac_B s)\<rparr>)"
  using assms
proof (induction cs arbitrary: s)
  case (Cons c cs)
  then show ?case
    using Cons.IH [of "s\<lparr>jac_B := (jac_B s)(c := stencil (jac_A s) c)\<rparr>"] interior_in_grid [of L c]
    by (simp add: update_B_cell_eq del: fun_upd_apply)
qed simp

definition changes :: "grid \<Rightarrow> grid \<Rightarrow> cell list \<Rightarrow> real list" where
  "changes A B cs = map (\<lambda>c. \<bar>B c - A c\<bar>) cs"

lemma run_A_cells:
  assumes "\<forall>c \<in> set cs. interior L c" "distinct cs"
  shows "run_steps (map (update_A_cell L t) cs) s
       = Some (s\<lparr>jac_A := put_cells cs (jac_B s) (jac_A s),
           jac_local := (jac_local s)(t := foldl max (jac_local s t) (changes (jac_A s) (jac_B s) cs))\<rparr>)"
  using assms
proof (induction cs arbitrary: s)
  case (Cons c cs)
  let ?s = "s\<lparr>jac_A := (jac_A s)(c := jac_B s c), jac_local := (jac_local s)(t := c_Max \<bar>jac_B s c - jac_A s c\<bar> (jac_local s t))\<rparr>"
  have ch: "changes ((jac_A s)(c := jac_B s c)) (jac_B s) cs = changes (jac_A s) (jac_B s) cs"
    using Cons.prems by (auto simp: changes_def)
  have m: "c_Max x y = max y x" for x y
    by (simp add: c_Max_def max_def)
  have "run_steps (map (update_A_cell L t) (c # cs)) s = run_steps (map (update_A_cell L t) cs) ?s"
    using Cons.prems interior_in_grid by (simp add: update_A_cell_eq)
  also have "\<dots> = Some (?s\<lparr>jac_A := put_cells cs (jac_B ?s) (jac_A ?s),
           jac_local := (jac_local ?s)(t := foldl max (jac_local ?s t) (changes (jac_A ?s) (jac_B ?s) cs))\<rparr>)"
    by (rule Cons.IH) (use Cons.prems in auto)
  also have "\<dots> = Some (s\<lparr>jac_A := put_cells (c # cs) (jac_B s) (jac_A s),
           jac_local := (jac_local s)(t := foldl max (jac_local s t) (changes (jac_A s) (jac_B s) (c # cs)))\<rparr>)"
    by (simp add: ch m del: fun_upd_apply) (simp add: changes_def)
  finally show ?case .
qed (simp add: changes_def)

lemma run_A_thread:
  assumes "t < T" "t < length (jac_eps s)"
  shows "run_steps (update_A_thread T L t) s
       = Some (s\<lparr>jac_A := put_cells (ult_cells T L t) (jac_B s) (jac_A s),
           jac_local := (jac_local s)(t := foldl max 0 (changes (jac_A s) (jac_B s) (ult_cells T L t))),
           jac_eps := (jac_eps s)[t := Some (foldl max 0 (changes (jac_A s) (jac_B s) (ult_cells T L t)))]\<rparr>)"
proof -
  have "distinct (ult_cells T L t)"
  proof -
    have "distinct (concat (map (ult_cells T L) [0..<T]))"
      using cells_cover [of T L] distinct_grid_cells assms(1) by simp
    then show ?thesis
      using assms(1) by (simp add: distinct_concat_iff)
  qed
  then have "run_steps (map (update_A_cell L t) (ult_cells T L t)) (s\<lparr>jac_local := (jac_local s)(t := 0)\<rparr>)
      = Some (s\<lparr>jac_A := put_cells (ult_cells T L t) (jac_B s) (jac_A s),
          jac_local := (jac_local s)(t := foldl max 0 (changes (jac_A s) (jac_B s) (ult_cells T L t)))\<rparr>)"
    using run_A_cells [of "ult_cells T L t" L t "s\<lparr>jac_local := (jac_local s)(t := 0)\<rparr>"] assms(1)
    by (simp add: set_ult_cells)
  then show ?thesis
    using assms(2) by (simp add: update_A_thread_def eps_clear_def run_steps_append eps_store_def)
qed

lemma put_cells_append: "put_cells ds f (put_cells cs f g) = put_cells (cs @ ds) f g"
  by (auto simp: put_cells_def fun_eq_iff)

lemma run_A_threads:
  assumes "length (jac_eps s) = T" "m \<le> T"
  shows "\<exists>l. run_steps (concat (map (update_A_thread T L) [0..<m])) s
       = Some (s\<lparr>jac_A := put_cells (concat (map (ult_cells T L) [0..<m])) (jac_B s) (jac_A s), jac_local := l,
           jac_eps := map (\<lambda>t. Some (foldl max 0 (changes (jac_A s) (jac_B s) (ult_cells T L t)))) [0..<m] @ drop m (jac_eps s)\<rparr>)"
  using assms(2)
proof (induction m)
  case 0
  show ?case
    by (intro exI [of _ "jac_local s"]) simp
next
  case (Suc m)
  let ?cs = "concat (map (ult_cells T L) [0..<m])"
  let ?e = "\<lambda>t. Some (foldl max 0 (changes (jac_A s) (jac_B s) (ult_cells T L t)))"
  obtain l where l: "run_steps (concat (map (update_A_thread T L) [0..<m])) s
       = Some (s\<lparr>jac_A := put_cells ?cs (jac_B s) (jac_A s), jac_local := l, jac_eps := map ?e [0..<m] @ drop m (jac_eps s)\<rparr>)"
    using Suc by auto
  have "changes (put_cells ?cs (jac_B s) (jac_A s)) (jac_B s) (ult_cells T L m) = changes (jac_A s) (jac_B s) (ult_cells T L m)"
  proof -
    have "c \<notin> set ?cs" if "c \<in> set (ult_cells T L m)" for c
      using ult_cells_disjoint [of _ T m c L c] that Suc.prems by fastforce
    then show ?thesis
      by (simp add: changes_def put_cells_def)
  qed
  moreover have "(map ?e [0..<m] @ drop m (jac_eps s))[m := ?e m] = map ?e [0..<Suc m] @ drop (Suc m) (jac_eps s)"
    using assms(1) Suc.prems by (simp add: list_update_append Cons_nth_drop_Suc [symmetric])
  ultimately show ?case
    using run_A_thread [of m T "s\<lparr>jac_A := put_cells ?cs (jac_B s) (jac_A s), jac_local := l, jac_eps := map ?e [0..<m] @ drop m (jac_eps s)\<rparr>" L]
      l Suc.prems assms(1)
    by (auto simp: run_steps_append put_cells_append)
qed

lemma put_grid_cells: "put_cells (grid_cells L) f g c = (if interior L c then f c else g c)"
  by (simp add: put_cells_def set_grid_cells)

text \<open>The reduction of the changes: the largest of all cells, whatever the number of ULTs.\<close>

lemma reduce_max_value:
  assumes "length vs = T" "0 < T"
  shows "reduce_max_float T (map Some vs) = Some (foldl max FLT_MIN vs)"
proof -
  have m: "float_max = max"
    by (auto simp: float_max_def fun_eq_iff)
  have "red_monoid float_max (real_default Rmax TFloat) UNIV (real_acc Rmax TFloat)"
    using red_monoid_real [of Rmax float_max TFloat] by (simp add: float_max_def [abs_def])
  then have "level float_max T (base_value float_max T vs (real_default Rmax TFloat)) T 0 = foldl float_max (real_default Rmax TFloat) vs"
    using red_monoid.level_root [of float_max "real_default Rmax TFloat" UNIV "real_acc Rmax TFloat" vs T T] assms less_exp [of T]
    by (simp add: less_imp_le)
  moreover have "those (map Some vs) = Some vs"
    by (induction vs) simp_all
  ultimately show ?thesis
    by (simp add: reduce_max_float_def m)
qed

lemma foldl_max: "foldl max a xs = max a (foldl max 0 xs)" if "\<forall>x \<in> set xs. 0 \<le> x" "(0 :: real) \<le> a"
  using that
proof (induction xs arbitrary: a)
  case (Cons x xs)
  have "foldl max (max a x) xs = max (max a x) (foldl max 0 xs)" "foldl max x xs = max x (foldl max 0 xs)"
    using Cons.IH [of "max a x"] Cons.IH [of x] Cons.prems by auto
  then show ?case
    using Cons.prems by (simp add: max_absorb2 max.assoc)
qed simp

lemma foldl_max_parts:
  assumes "\<forall>xs \<in> set xss. \<forall>x \<in> set xs. 0 \<le> x" "(0 :: real) \<le> a"
  shows "foldl max a (map (foldl max 0) xss) = foldl max a (concat xss)"
  using assms
proof (induction xss arbitrary: a)
  case (Cons xs xss)
  then have "max a (foldl max 0 xs) = foldl max a xs"
    using foldl_max [of xs a] by simp
  moreover have "0 \<le> foldl max a xs"
    using calculation Cons.prems(2) by (metis max.coboundedI1)
  ultimately show ?case
    using Cons by simp
qed simp

lemma reduce_changes:
  assumes "0 < T"
  shows "reduce_max_float T (map (\<lambda>t. Some (foldl max 0 (changes A B (ult_cells T L t)))) [0..<T]) = Some (largest_change L A B)"
proof -
  have nn: "0 \<le> FLT_MIN"
    by (simp add: FLT_MIN_def)
  have "reduce_max_float T (map Some (map (foldl max 0) (map (\<lambda>t. changes A B (ult_cells T L t)) [0..<T])))
      = Some (foldl max FLT_MIN (concat (map (\<lambda>t. changes A B (ult_cells T L t)) [0..<T])))"
    using assms by (simp add: reduce_max_value del: map_map) (rule foldl_max_parts, auto simp: changes_def nn)
  also have "concat (map (\<lambda>t. changes A B (ult_cells T L t)) [0..<T]) = changes A B (grid_cells L)"
    unfolding cells_cover [OF assms, symmetric] by (simp add: changes_def [abs_def] map_concat comp_def)
  finally show ?thesis
    by (simp add: comp_def largest_change_def changes_def)
qed

section \<open>The solver is the sequential method\<close>

definition jac_env_ok :: "jac_env \<Rightarrow> bool" where
  "jac_env_ok env \<longleftrightarrow> 0 < je_threads env \<and> 0 < je_pools env"

lemma jac_round_sequential:
  assumes env: "jac_env_ok env" and len: "length (jac_eps s) = je_threads env"
  obtains s' where "jac_round env choice s = Some (s', largest_change (je_L env) (jac_A s) (jac_B s))"
    "jac_A s' = copied (je_L env) (jac_A s) (jac_B s)" "jac_B s' = averaged (je_L env) (jac_A s') (jac_B s)"
    "length (jac_eps s') = je_threads env"
proof -
  let ?T = "je_threads env" and ?L = "je_L env"
  have pos: "0 < je_pools env" "0 < ?T"
    using env by (simp_all add: jac_env_ok_def)
  let ?A = "put_cells (grid_cells ?L) (jac_B s) (jac_A s)"
  let ?e = "map (\<lambda>t. Some (foldl max 0 (changes (jac_A s) (jac_B s) (ult_cells ?T ?L t)))) [0..<?T]"
  obtain l where a: "run_jac env (choice 0) (update_A_thread ?T ?L) s = Some (s\<lparr>jac_A := ?A, jac_local := l, jac_eps := ?e\<rparr>)"
    using run_A_threads [OF len order_refl, of ?L] run_jac_sequential [OF pos(1) threads_independent(1)] len
    by (auto simp: cells_cover [OF pos(2)])
  have "concat (map (update_B_thread ?T ?L) [0..<?T]) = map (update_B_cell ?L) (grid_cells ?L)"
    unfolding cells_cover [OF pos(2), symmetric] by (simp add: update_B_thread_def [abs_def] map_concat comp_def)
  then have b: "run_jac env (choice 1) (update_B_thread ?T ?L) t
      = Some (t\<lparr>jac_B := put_cells (grid_cells ?L) (stencil (jac_A t)) (jac_B t)\<rparr>)" for t
    using run_jac_sequential [OF pos(1) threads_independent(2)] run_B [of "grid_cells ?L" ?L t] by (simp add: set_grid_cells)
  let ?s = "s\<lparr>jac_A := ?A, jac_B := put_cells (grid_cells ?L) (stencil ?A) (jac_B s), jac_local := l, jac_eps := ?e\<rparr>"
  have "jac_round env choice s = Some (?s, largest_change ?L (jac_A s) (jac_B s))"
    by (simp add: jac_round_def a b reduce_changes [OF pos(2)] del: One_nat_def)
  then show ?thesis
    by (rule that) (auto simp: put_grid_cells copied_def averaged_def fun_eq_iff)
qed

lemma jac_loop_sequential:
  assumes env: "jac_env_ok env" and "length (jac_eps s) = je_threads env"
  shows "\<exists>s' eps'. jac_loop env m choice s eps = Some (s', eps') \<and>
    jacobi_method (je_L env) m (jac_A s, jac_B s, eps) = (jac_A s', jac_B s', eps')"
  using assms(2)
proof (induction m arbitrary: choice s eps)
  case (Suc m)
  obtain s1 where 1: "jac_round env choice s = Some (s1, largest_change (je_L env) (jac_A s) (jac_B s))"
    "jac_A s1 = copied (je_L env) (jac_A s) (jac_B s)" "jac_B s1 = averaged (je_L env) (jac_A s1) (jac_B s)"
    "length (jac_eps s1) = je_threads env"
    by (rule jac_round_sequential [OF env Suc.prems])
  then show ?case
    using Suc.IH [OF 1(4), of "\<lambda>n. choice (n + 2)" "largest_change (je_L env) (jac_A s) (jac_B s)"]
    by (auto simp: Let_def)
qed simp

end
