(* ===== verification/Sparse.thy ===== *)
theory Sparse
  imports Phases NasRand
begin

text \<open>
  The assembly of the matrix, \<^verbatim>\<open>sparse\<close> in \<^verbatim>\<open>cg_argobots_fixed/CG/cg.c\<close>: every ULT counts the entries
  of its rows, fills them in order of their columns, adding up duplicates, and the ULTs then remove
  the unused places together. Its parts between two barriers are functions of the shared arrays,
  \<open>sp\<close>; in the parts but the last, a ULT writes only elements of its own, and they are one step each.
  The last part is one step per row. \<open>None\<close> is an access out of bounds or \<^verbatim>\<open>exit(EXIT_FAILURE)\<close>.
  The input, the rows of \<^verbatim>\<open>makea\<close>, is a list of rows of (column, element) pairs; \<^verbatim>\<open>nzloc\<close>, the part of
  \<^verbatim>\<open>iv\<close> after its first \<^verbatim>\<open>nz\<close> elements, is an array of its own.
\<close>

record 'v sp =
  sp_rowstr :: "int list"
  sp_last_n :: "int list"
  sp_v :: "'v list"
  sp_iv :: "int list"
  sp_nzloc :: "int list"
  sp_a :: "'v list"
  sp_colidx :: "int list"

type_synonym 'v row = "(int \<times> 'v) list"

section \<open>Row pointers\<close>

definition set_rowstr :: "int \<Rightarrow> int \<Rightarrow> 'v sp action" where
  "set_rowstr j x s = do {
     rs \<leftarrow> store_int (sp_rowstr s) j x;
     Some (s\<lparr>sp_rowstr := rs\<rparr>) }"

definition add_rowstr :: "int \<Rightarrow> int \<Rightarrow> 'v sp action" where
  "add_rowstr j x s = do {
     r \<leftarrow> elem (sp_rowstr s) j;
     set_rowstr j (r + x) s }"

definition set_last_n :: "nat \<Rightarrow> int \<Rightarrow> 'v sp action" where
  "set_last_n t x s = do {
     ls \<leftarrow> store_int (sp_last_n s) (int t) x;
     Some (s\<lparr>sp_last_n := ls\<rparr>) }"

text \<open>The first row pointer a ULT owns: the first ULT has one more.\<close>

definition first_j :: "nat \<Rightarrow> int \<Rightarrow> int" where
  "first_j t ilow = (if t = 0 then 0 else ilow + 1)"

definition sparse_count :: "'v row list \<Rightarrow> nat \<Rightarrow> int \<Rightarrow> int \<Rightarrow> 'v sp action" where
  "sparse_count rows t ilow ihigh s = do {
     s \<leftarrow> run_steps (map (\<lambda>j. set_rowstr j 0) [ilow + 1..ihigh]) s;
     s \<leftarrow> run_steps (concat (map (\<lambda>row. map (\<lambda>(j, _). if ilow \<le> j \<and> j < ihigh then add_rowstr (j + 1) (int (length row)) else Some) row) rows)) s;
     s \<leftarrow> (if t = 0 then set_rowstr 0 0 s else Some s);
     s \<leftarrow> run_steps (map (\<lambda>j s. Option.bind (elem (sp_rowstr s) (j - 1)) (\<lambda>r. add_rowstr j r s)) [first_j t ilow + 1..ihigh]) s;
     x \<leftarrow> elem (sp_rowstr s) ihigh;
     set_last_n t x s }"

definition earlier_sum :: "nat \<Rightarrow> 'v sp \<Rightarrow> int option" where
  "earlier_sum t s = map_option sum_list (those (map (\<lambda>i. elem (sp_last_n s) (int i)) [0..<t]))"

definition sparse_offset :: "nat \<Rightarrow> int \<Rightarrow> int \<Rightarrow> 'v sp action" where
  "sparse_offset t ilow ihigh s = do {
     nzrow \<leftarrow> earlier_sum t s;
     if 0 < nzrow then run_steps (map (\<lambda>j. add_rowstr j nzrow) [first_j t ilow..ihigh]) s else Some s }"

section \<open>The entries\<close>

definition set_place :: "int \<Rightarrow> int \<Rightarrow> 'v \<Rightarrow> 'v sp action" where
  "set_place k c x s = do {
     iv \<leftarrow> store_int (sp_iv s) k c;
     v \<leftarrow> store_int (sp_v s) k x;
     Some (s\<lparr>sp_iv := iv, sp_v := v\<rparr>) }"

definition set_nzloc :: "int \<Rightarrow> int \<Rightarrow> 'v sp action" where
  "set_nzloc j x s = do {
     ns \<leftarrow> store_int (sp_nzloc s) j x;
     Some (s\<lparr>sp_nzloc := ns\<rparr>) }"

definition preload_row :: "int \<Rightarrow> 'v :: zero sp action" where
  "preload_row j s = do {
     lo \<leftarrow> elem (sp_rowstr s) j;
     hi \<leftarrow> elem (sp_rowstr s) (j + 1);
     s \<leftarrow> run_steps (map (\<lambda>k. set_place k (-1) 0) [lo..hi - 1]) s;
     set_nzloc j 0 s }"

text \<open>The place the search loop stops at, and the column it finds there.\<close>

fun find_place :: "int list \<Rightarrow> int \<Rightarrow> int list \<Rightarrow> (int \<times> int) option" where
  "find_place iv jcol [] = None"
| "find_place iv jcol (k # ks) = do {
     c \<leftarrow> elem iv k;
     if jcol < c \<or> c = -1 \<or> c = jcol then Some (k, c) else find_place iv jcol ks }"

definition move_up :: "int \<Rightarrow> 'v sp action" where
  "move_up kk s = do {
     c \<leftarrow> elem (sp_iv s) kk;
     if -1 < c then do {
       x \<leftarrow> elem (sp_v s) kk;
       set_place (kk + 1) c x s }
     else Some s }"

definition add_value :: "int \<Rightarrow> 'v :: plus \<Rightarrow> 'v sp action" where
  "add_value k va s = do {
     x \<leftarrow> elem (sp_v s) k;
     v \<leftarrow> store_int (sp_v s) k (x + va);
     Some (s\<lparr>sp_v := v\<rparr>) }"

definition set_column :: "int \<Rightarrow> int \<Rightarrow> 'v sp action" where
  "set_column k c s = do {
     iv \<leftarrow> store_int (sp_iv s) k c;
     Some (s\<lparr>sp_iv := iv\<rparr>) }"

definition insert_entry :: "int \<Rightarrow> int \<Rightarrow> 'v :: {zero, plus} \<Rightarrow> 'v sp action" where
  "insert_entry j jcol va s = do {
     lo \<leftarrow> elem (sp_rowstr s) j;
     hi \<leftarrow> elem (sp_rowstr s) (j + 1);
     (k, c) \<leftarrow> find_place (sp_iv s) jcol [lo..hi - 1];
     s \<leftarrow> (if jcol < c then do {
             s \<leftarrow> run_steps (map move_up (rev [k..hi - 2])) s;
             set_place k jcol 0 s }
           else if c = -1 then set_column k jcol s
           else do {
             n \<leftarrow> elem (sp_nzloc s) j;
             set_nzloc j (n + 1) s });
     add_value k va s }"

text \<open>
  Row \<^verbatim>\<open>i\<close> of the input adds \<open>sz\<close> (\<^verbatim>\<open>size\<close>) times its products to the rows of its columns;
  \<open>ratio\<close> is the value of the C library's \<^verbatim>\<open>pow\<close>.
\<close>

definition fill_from_row ::
    "int \<Rightarrow> int \<Rightarrow> 'v :: {zero, plus, minus, times} \<Rightarrow> 'v \<Rightarrow> 'v \<Rightarrow> int \<Rightarrow> 'v row \<Rightarrow> 'v sp action" where
  "fill_from_row ilow ihigh rcond shift sz i row =
     run_steps (concat (map (\<lambda>(j, e). if j < ilow \<or> ihigh \<le> j then []
       else map (\<lambda>(jcol, e'). let va = e' * (sz * e)
              in insert_entry j jcol (if jcol = j \<and> j = i then va + rcond - shift else va)) row) row))"

fun fill_rows ::
    "int \<Rightarrow> int \<Rightarrow> 'v :: {zero, plus, minus, times} \<Rightarrow> 'v \<Rightarrow> 'v \<Rightarrow> 'v \<Rightarrow> int \<Rightarrow> 'v row list \<Rightarrow> 'v sp action" where
  "fill_rows ilow ihigh rcond shift ratio sz i [] s = Some s"
| "fill_rows ilow ihigh rcond shift ratio sz i (row # rows) s = do {
     s \<leftarrow> fill_from_row ilow ihigh rcond shift sz i row s;
     fill_rows ilow ihigh rcond shift ratio (sz * ratio) (i + 1) rows s }"

definition sparse_fill ::
    "'v :: {zero, one, plus, minus, times} row list \<Rightarrow> int \<Rightarrow> 'v \<Rightarrow> 'v \<Rightarrow> 'v \<Rightarrow> int \<Rightarrow> int \<Rightarrow> 'v sp action" where
  "sparse_fill rows nz rcond shift ratio ilow ihigh s = do {
     r \<leftarrow> elem (sp_rowstr s) (int (length rows));
     if nz < r - 1 then None
     else do {
       s \<leftarrow> run_steps (map preload_row [ilow..ihigh - 1]) s;
       fill_rows ilow ihigh rcond shift ratio 1 0 rows s } }"

section \<open>Removing the empty places\<close>

definition sparse_dups :: "nat \<Rightarrow> int \<Rightarrow> int \<Rightarrow> 'v sp action" where
  "sparse_dups t ilow ihigh s = do {
     s \<leftarrow> run_steps (map (\<lambda>j s. do {
            a \<leftarrow> elem (sp_nzloc s) j;
            b \<leftarrow> elem (sp_nzloc s) (j - 1);
            set_nzloc j (a + b) s }) [ilow + 1..ihigh - 1]) s;
     x \<leftarrow> elem (sp_nzloc s) (ihigh - 1);
     set_last_n t x s }"

definition sparse_dup_offset :: "nat \<Rightarrow> int \<Rightarrow> int \<Rightarrow> 'v sp action" where
  "sparse_dup_offset t ilow ihigh s = do {
     nzrow \<leftarrow> earlier_sum t s;
     if 0 < nzrow then run_steps (map (\<lambda>j s. do {
            a \<leftarrow> elem (sp_nzloc s) j;
            set_nzloc j (a + nzrow) s }) [ilow..ihigh - 1]) s
     else Some s }"

fun copy_places :: "int list \<Rightarrow> int \<Rightarrow> 'v sp action" where
  "copy_places [] nza s = Some s"
| "copy_places (k # ks) nza s = do {
     x \<leftarrow> elem (sp_v s) nza;
     a \<leftarrow> store_int (sp_a s) k x;
     c \<leftarrow> elem (sp_iv s) nza;
     cs \<leftarrow> store_int (sp_colidx s) k c;
     copy_places ks (nza + 1) (s\<lparr>sp_a := a, sp_colidx := cs\<rparr>) }"

definition copy_row :: "nat \<Rightarrow> 'v sp action" where
  "copy_row j s = do {
     nza \<leftarrow> elem (sp_rowstr s) (int j);
     j1 \<leftarrow> (if 0 < j then do { d \<leftarrow> elem (sp_nzloc s) (int j - 1); Some (nza - d) } else Some 0);
     hi \<leftarrow> elem (sp_rowstr s) (int j + 1);
     d \<leftarrow> elem (sp_nzloc s) (int j);
     copy_places [j1..hi - d - 1] nza s }"

definition shrink_rowstr :: "nat \<Rightarrow> 'v sp action" where
  "shrink_rowstr j s = do {
     d \<leftarrow> elem (sp_nzloc s) (int j - 1);
     add_rowstr (int j) (- d) s }"

text \<open>The last part of ULT \<open>t\<close>: copy its rows, then move its row pointers. There is no barrier in between.\<close>

definition sparse_pack :: "nat \<Rightarrow> nat \<Rightarrow> nat \<Rightarrow> 'v sp action list" where
  "sparse_pack num_threads nrows t =
     map copy_row (part num_threads nrows t) @
     map (\<lambda>j. shrink_rowstr (1 + j)) (part num_threads nrows t)"

section \<open>The ULTs\<close>

definition section_of :: "nat \<Rightarrow> (nat \<Rightarrow> 'v sp action) \<Rightarrow> 'v sp action list list" where
  "section_of num_threads f = map (\<lambda>t. [f t]) [0..<num_threads]"

text \<open>The parts, each started when the one before is done by all: these are the barriers.\<close>

definition sparse ::
    "nat \<Rightarrow> (nat \<Rightarrow> nat \<Rightarrow> nat) \<Rightarrow> 'v :: {zero, one, plus, minus, times} row list \<Rightarrow> int \<Rightarrow> 'v \<Rightarrow> 'v \<Rightarrow> 'v \<Rightarrow> 'v sp action" where
  "sparse num_threads choice rows nz rcond ratio shift s = (let n = length rows;
       lo = (\<lambda>t. int (makea_low num_threads n t)); hi = (\<lambda>t. int (makea_high num_threads n t)) in do {
     s \<leftarrow> interleave (choice 0) (section_of num_threads (\<lambda>t. sparse_count rows t (lo t) (hi t))) s;
     s \<leftarrow> interleave (choice 1) (section_of num_threads (\<lambda>t. sparse_offset t (lo t) (hi t))) s;
     s \<leftarrow> interleave (choice 2) (section_of num_threads (\<lambda>t. sparse_fill rows nz rcond shift ratio (lo t) (hi t))) s;
     s \<leftarrow> interleave (choice 3) (section_of num_threads (\<lambda>t. sparse_dups t (lo t) (hi t))) s;
     s \<leftarrow> interleave (choice 4) (section_of num_threads (\<lambda>t. sparse_dup_offset t (lo t) (hi t))) s;
     interleave (choice 5) (map (sparse_pack num_threads n) [0..<num_threads]) s })"


section \<open>A row under construction\<close>

text \<open>
  Places \<open>A\<close> before the row, the entries \<open>es\<close>, and everything behind them: the arrays as lists of pairs.
\<close>

definition places :: "'v sp \<Rightarrow> (int \<times> 'v) list" where
  "places s = zip (sp_iv s) (sp_v s)"

definition with_places :: "(int \<times> 'v) list \<Rightarrow> 'v sp \<Rightarrow> 'v sp" where
  "with_places ps s = s\<lparr>sp_iv := map fst ps, sp_v := map snd ps\<rparr>"

lemma places_with [simp]: "places (with_places ps s) = ps"
  by (simp add: places_def with_places_def zip_map_fst_snd)

lemma with_with [simp]: "with_places ps (with_places qs s) = with_places ps s"
  by (simp add: with_places_def)

lemma with_places_id: "length (sp_iv s) = length (sp_v s) \<Longrightarrow> with_places (places s) s = s"
  by (simp add: places_def with_places_def)

lemma with_places_sel [simp]:
  "sp_rowstr (with_places ps s) = sp_rowstr s" "sp_nzloc (with_places ps s) = sp_nzloc s"
  "sp_iv (with_places ps s) = map fst ps" "sp_v (with_places ps s) = map snd ps"
  by (simp_all add: with_places_def)

lemma with_places_nzloc:
  "s = with_places ps s \<Longrightarrow> s\<lparr>sp_nzloc := ns\<rparr> = with_places ps (s\<lparr>sp_nzloc := ns\<rparr>)"
  by (cases s) (simp add: with_places_def)

lemma elem_middle: "i = int (length A) \<Longrightarrow> elem (A @ x # C) i = Some x"
  by (simp add: elem_def)

lemma store_middle: "i = int (length A) \<Longrightarrow> store_int (A @ x # C) i y = Some (A @ y # C)"
  by (simp add: store_int_def)

lemma set_place_middle:
  "k = int (length A) \<Longrightarrow> set_place k c x (with_places (A @ e # C) s) = Some (with_places (A @ (c, x) # C) s)"
  by (simp add: set_place_def store_middle) (simp add: with_places_def)

lemma set_column_middle:
  "k = int (length A) \<Longrightarrow> set_column k c (with_places (A @ e # C) s) = Some (with_places (A @ (c, snd e) # C) s)"
  by (simp add: set_column_def store_middle) (simp add: with_places_def)

lemma add_value_middle:
  "k = int (length A) \<Longrightarrow>
   add_value k va (with_places (A @ e # C) s) = Some (with_places (A @ (fst e, snd e + va) # C) s)"
  by (simp add: add_value_def store_middle elem_middle) (simp add: with_places_def)

lemma move_up_middle:
  "k = int (length A) \<Longrightarrow> 0 \<le> fst e \<Longrightarrow>
   move_up k (with_places (A @ e # y # C) s) = Some (with_places (A @ e # e # C) s)"
  using set_place_middle [of "k + 1" "A @ [e]" "fst e" "snd e" y C s]
  by (simp add: move_up_def elem_middle)

lemma move_up_free:
  "k = int (length A) \<Longrightarrow> move_up k (with_places (A @ (-1, x) # C) s) = Some (with_places (A @ (-1, x) # C) s)"
  by (simp add: move_up_def elem_middle)

lemma upto_snoc: "i \<le> j \<Longrightarrow> [i..j] = [i..j - 1] @ [j]" for i j :: int
  by (rule upto_rec2)

lemma move_free_places:
  "run_steps (map move_up (rev [int (length A)..int (length A) + int n - 1]))
     (with_places (A @ replicate n (-1, x) @ C) s) = Some (with_places (A @ replicate n (-1, x) @ C) s)"
proof (induction n arbitrary: C)
  case (Suc n)
  have "[int (length A)..int (length A) + int (Suc n) - 1]
      = [int (length A)..int (length A) + int n - 1] @ [int (length A) + int n]"
    using upto_snoc [of "int (length A)" "int (length A) + int n"] by simp
  moreover have "move_up (int (length A) + int n) (with_places (A @ replicate (Suc n) (-1, x) @ C) s)
      = Some (with_places (A @ replicate (Suc n) (-1, x) @ C) s)"
    using move_up_free [of "int (length A) + int n" "A @ replicate n (-1, x)" x C s]
    by (simp add: replicate_append_same flip: replicate_append_same)
  ultimately show ?case
    using Suc [of "(-1, x) # C"] by (simp add: replicate_append_same flip: replicate_append_same)
qed simp

lemma move_entries:
  "\<forall>e \<in> set es. 0 \<le> fst e \<Longrightarrow>
   run_steps (map move_up (rev [int (length A)..int (length A) + int (length es) - 1]))
     (with_places (A @ es @ y # C) s) = Some (with_places (A @ hd (es @ [y]) # es @ C) s)"
proof (induction es arbitrary: y C rule: rev_induct)
  case (snoc e es)
  have "[int (length A)..int (length A) + int (length (es @ [e])) - 1]
      = [int (length A)..int (length A) + int (length es) - 1] @ [int (length A) + int (length es)]"
    using upto_snoc [of "int (length A)" "int (length A) + int (length es)"] by simp
  moreover have "move_up (int (length A) + int (length es)) (with_places (A @ (es @ [e]) @ y # C) s)
      = Some (with_places (A @ es @ e # e # C) s)"
    using move_up_middle [of "int (length A) + int (length es)" "A @ es" e y C s] snoc.prems by simp
  ultimately show ?case
    using snoc.IH [of e "e # C"] snoc.prems by (cases es) simp_all
qed simp

text \<open>The search in a sorted row.\<close>

lemma find_place_skip:
  "\<forall>e \<in> set es. 0 \<le> fst e \<and> fst e < jcol \<Longrightarrow> n \<ge> length es \<Longrightarrow>
   find_place (map fst (A @ es @ C)) jcol [int (length A)..int (length A) + int n - 1] =
   find_place (map fst (A @ es @ C)) jcol [int (length A) + int (length es)..int (length A) + int n - 1]"
proof (induction es arbitrary: A n)
  case (Cons e es)
  have up: "[int (length A)..int (length A) + int n - 1]
      = int (length A) # [int (length A) + 1..int (length A) + int n - 1]"
    using Cons.prems(2) by (simp add: upto_rec1)
  have "elem (map fst (A @ (e # es) @ C)) (int (length A)) = Some (fst e)"
    by (simp add: elem_middle)
  then have "find_place (map fst (A @ (e # es) @ C)) jcol [int (length A)..int (length A) + int n - 1]
      = find_place (map fst ((A @ [e]) @ es @ C)) jcol [int (length (A @ [e]))..int (length (A @ [e])) + int (n - 1) - 1]"
    using Cons.prems by (subst up) (simp add: of_nat_diff algebra_simps)
  then show ?case
    using Cons.IH [of "n - 1" "A @ [e]"] Cons.prems by (simp add: of_nat_diff algebra_simps)
qed simp

lemma find_place_stop:
  "k = int (length A) \<Longrightarrow> k \<le> m \<Longrightarrow> jcol < fst e \<or> fst e = -1 \<or> fst e = jcol \<Longrightarrow>
   find_place (map fst (A @ e # C)) jcol [k..m] = Some (k, fst e)"
  by (simp add: upto_rec1 elem_middle)

section \<open>Inserting into a sorted row\<close>

fun row_insert :: "int \<Rightarrow> 'v :: {zero, plus} \<Rightarrow> (int \<times> 'v) list \<Rightarrow> (int \<times> 'v) list" where
  "row_insert c va [] = [(c, 0 + va)]"
| "row_insert c va ((d, x) # es) =
     (if c < d then (c, 0 + va) # (d, x) # es
      else if c = d then (d, x + va) # es
      else (d, x) # row_insert c va es)"

lemma row_insert_columns: "fst ` set (row_insert c va es) = insert c (fst ` set es)"
  by (induction c va es rule: row_insert.induct) auto

lemma row_insert_sorted: "sorted_wrt (<) (map fst es) \<Longrightarrow> sorted_wrt (<) (map fst (row_insert c va es))"
proof (induction c va es rule: row_insert.induct)
  case (2 c va d x es)
  have "\<forall>e \<in> fst ` set (row_insert c va es). d < e" if "d < c"
    using 2 that by (simp add: row_insert_columns)
  then show ?case
    using 2 by auto
qed simp

lemma row_insert_value:
  "sorted_wrt (<) (map fst es) \<Longrightarrow>
   map_of (row_insert c va es) = (map_of es)(c \<mapsto> (case map_of es c of None \<Rightarrow> 0 | Some x \<Rightarrow> x) + va)"
proof (induction c va es rule: row_insert.induct)
  case (2 c va d x es)
  have "map_of es c = None" if "c < d"
    using 2(2) that by (force simp: map_of_eq_None_iff)
  then show ?case
    using 2 by (auto simp: fun_upd_twist)
qed simp

lemma row_insert_split:
  assumes "sorted_wrt (<) (map fst es)"
  obtains as bs where "es = as @ bs" "\<forall>e \<in> set as. fst e < c"
    "bs = [] \<or> c \<le> fst (hd bs)"
    "row_insert c va es = as @ row_insert c va bs"
proof -
  have "es = takeWhile (\<lambda>e. fst e < c) es @ dropWhile (\<lambda>e. fst e < c) es" by simp
  moreover have "\<forall>e \<in> set (takeWhile (\<lambda>e. fst e < c) es). fst e < c"
    using set_takeWhileD by fast
  moreover have "dropWhile (\<lambda>e. fst e < c) es = [] \<or> c \<le> fst (hd (dropWhile (\<lambda>e. fst e < c) es))"
    using hd_dropWhile [of "\<lambda>e. fst e < c" es] by fastforce
  moreover have "row_insert c va es
      = takeWhile (\<lambda>e. fst e < c) es @ row_insert c va (dropWhile (\<lambda>e. fst e < c) es)"
    by (induction es) auto
  ultimately show thesis
    using that by blast
qed

text \<open>A row is a block of places: entries in order, then free places.\<close>

definition row_places :: "(int \<times> 'v :: zero) list \<Rightarrow> nat \<Rightarrow> (int \<times> 'v) list" where
  "row_places es free = es @ replicate free (-1, 0)"

lemma insert_entry_row:
  assumes row: "places s = A @ row_places es free @ C" "length (sp_iv s) = length (sp_v s)"
    and es: "sorted_wrt (<) (map fst es)" "\<forall>e \<in> set es. 0 \<le> fst e" "0 \<le> c"
    and room: "c \<in> fst ` set es \<or> 0 < free"
    and ptr: "elem (sp_rowstr s) j = Some (int (length A))"
      "elem (sp_rowstr s) (j + 1) = Some (int (length A) + int (length es + free))"
    and cnt: "elem (sp_nzloc s) j = Some d" 
  shows "insert_entry j c va s = Some (with_places
      (A @ row_places (row_insert c va es) (if c \<in> fst ` set es then free else free - 1) @ C)
      (if c \<in> fst ` set es then s\<lparr>sp_nzloc := (sp_nzloc s)[nat j := d + 1]\<rparr> else s))"
proof -
  obtain as bs where split: "es = as @ bs" "\<forall>e \<in> set as. fst e < c" "bs = [] \<or> c \<le> fst (hd bs)"
    "row_insert c va es = as @ row_insert c va bs"
    using row_insert_split [OF es(1)] by metis
  have s: "s = with_places (A @ as @ (bs @ replicate free (-1, 0)) @ C) s"
    using with_places_id [OF row(2)] row(1) split(1) by (simp add: row_places_def)
  let ?k = "int (length (A @ as))" and ?hi = "int (length A) + int (length es + free)"
  have skip: "find_place (sp_iv s) c [int (length A)..?hi - 1]
      = find_place (map fst (A @ as @ (bs @ replicate free (-1, 0)) @ C)) c [?k..?hi - 1]"
    using find_place_skip [of as c "length es + free" A "(bs @ replicate free (-1, 0)) @ C"] split(1,2) es(2)
    by (subst s) (simp add: algebra_simps)
  show ?thesis
  proof (cases bs)
    case Nil
    then have nin: "c \<notin> fst ` set es"
      using split(1,2) by auto
    then obtain f where free: "free = Suc f"
      using room by (cases free) auto
    have t: "s = with_places ((A @ as) @ (-1, 0) # replicate f (-1, 0) @ C) s"
      using s Nil free by simp
    have "find_place (sp_iv s) c [int (length A)..?hi - 1] = Some (?k, -1)"
      unfolding skip using find_place_stop [of ?k "A @ as" "?hi - 1" c "(-1, 0)" "replicate f (-1, 0) @ C"] Nil free split(1)
      by simp
    moreover have "set_column ?k c s = Some (with_places ((A @ as) @ (c, 0) # replicate f (-1, 0) @ C) s)"
      by (subst t) (simp only: set_column_middle snd_conv)
    ultimately show ?thesis
      using ptr es(3) nin free Nil split(1,4)
        add_value_middle [of ?k "A @ as" va "(c, 0)" "replicate f (-1, 0) @ C" s]
      by (simp add: insert_entry_def row_places_def)
  next
    case (Cons b bs')
    show ?thesis
    proof (cases "fst b = c")
      case True
      have inn: "c \<in> fst ` set es"
        using split(1) Cons True by auto
      have t: "s = with_places ((A @ as) @ b # (bs' @ replicate free (-1, 0)) @ C) s"
        using s Cons by simp
      have "find_place (sp_iv s) c [int (length A)..?hi - 1] = Some (?k, c)"
        unfolding skip using find_place_stop [of ?k "A @ as" "?hi - 1" c b "bs' @ replicate free (-1, 0) @ C"] Cons split(1) True
        by simp
      moreover have "set_nzloc j (d + 1) s = Some (s\<lparr>sp_nzloc := (sp_nzloc s)[nat j := d + 1]\<rparr>)"
        using cnt by (auto simp: set_nzloc_def elem_def store_int_def split: if_splits)
      moreover have "add_value ?k va (s\<lparr>sp_nzloc := (sp_nzloc s)[nat j := d + 1]\<rparr>)
          = Some (with_places ((A @ as) @ (c, snd b + va) # (bs' @ replicate free (-1, 0)) @ C)
              (s\<lparr>sp_nzloc := (sp_nzloc s)[nat j := d + 1]\<rparr>))"
        using True by (subst with_places_nzloc [OF t]) (simp only: add_value_middle)
      ultimately show ?thesis
        using ptr es(3) inn Cons split(1,4) True cnt
        by (cases b) (simp add: insert_entry_def row_places_def)
    next
      case False
      then have lt: "c < fst b"
        using split(3) Cons by simp
      have nin: "c \<notin> fst ` set es"
        using split(1,2) es(1) Cons lt by (auto simp: sorted_wrt_append)
      then obtain f where free: "free = Suc f"
        using room by (cases free) auto
      have t: "s = with_places ((A @ as) @ b # (bs' @ replicate free (-1, 0)) @ C) s"
        "s = with_places ((A @ as @ bs) @ replicate f (-1, 0) @ (-1, 0) # C) s"
        using s Cons free by (simp_all flip: replicate_append_same)
      have "find_place (sp_iv s) c [int (length A)..?hi - 1] = Some (?k, fst b)"
        unfolding skip
        using find_place_stop [of ?k "A @ as" "?hi - 1" c b "bs' @ replicate free (-1, 0) @ C"] Cons split(1) lt
        by simp
      moreover have "run_steps (map move_up (rev [?k..?hi - 2])) s
          = Some (with_places ((A @ as) @ b # (bs @ replicate f (-1, 0)) @ C) s)"
      proof -
        have "Suc 0 \<le> length bs"
          using Cons by simp
        then have "[?k..?hi - 2] = [?k..?k + int (length bs) - 1]
            @ [int (length (A @ as @ bs))..int (length (A @ as @ bs)) + int f - 1]"
          using upto_split2 [of ?k "?k + int (length bs) - 1" "?hi - 2"] split(1) free
          by (simp add: algebra_simps)
        moreover have "run_steps (map move_up (rev [int (length (A @ as @ bs))..int (length (A @ as @ bs)) + int f - 1])) s = Some s"
          by (subst (1 2) t(2)) (rule move_free_places)
        moreover have "run_steps (map move_up (rev [?k..?k + int (length bs) - 1])) s
            = Some (with_places ((A @ as) @ b # (bs @ replicate f (-1, 0)) @ C) s)"
          using move_entries [of bs "A @ as" "(-1, 0)" "replicate f (-1, 0) @ C" s] split(1) es(2) t(1) Cons free by simp
        ultimately show ?thesis
          by (simp add: run_steps_append del: length_append)
      qed
      moreover have "set_place ?k c 0 (with_places ((A @ as) @ b # (bs @ replicate f (-1, 0)) @ C) s)
          = Some (with_places ((A @ as) @ (c, 0) # (bs @ replicate f (-1, 0)) @ C) s)"
        by (rule set_place_middle) simp
      moreover have "add_value ?k va (with_places ((A @ as) @ (c, 0) # (bs @ replicate f (-1, 0)) @ C) s)
          = Some (with_places ((A @ as) @ (c, 0 + va) # (bs @ replicate f (-1, 0)) @ C) s)"
        by (subst add_value_middle) simp_all
      ultimately show ?thesis
        using ptr es(3) nin lt free Cons split(1,4) by (cases b) (simp add: insert_entry_def row_places_def)
    qed
  qed
qed

text \<open>The columns of the row stay in order, and the value of the column grows by the new element.\<close>

lemma length_row_insert: "sorted_wrt (<) (map fst es) \<Longrightarrow>
  length (row_insert c va es) = (if c \<in> fst ` set es then length es else Suc (length es))"
  by (induction c va es rule: row_insert.induct) auto

lemma insert_entry_sorted:
  assumes "places s = A @ row_places es free @ C" "length (sp_iv s) = length (sp_v s)"
    and "sorted_wrt (<) (map fst es)" "\<forall>e \<in> set es. 0 \<le> fst e" "0 \<le> c" "c \<in> fst ` set es \<or> 0 < free"
    and "elem (sp_rowstr s) j = Some (int (length A))"
      "elem (sp_rowstr s) (j + 1) = Some (int (length A) + int (length es + free))" "elem (sp_nzloc s) j = Some d"
  shows "\<exists>s' es'. insert_entry j c va s = Some s' \<and> sorted_wrt (<) (map fst es') \<and>
    map_of es' = (map_of es)(c \<mapsto> (case map_of es c of None \<Rightarrow> 0 | Some x \<Rightarrow> x) + va) \<and>
    places s' = A @ row_places es' (length es + free - length es') @ C \<and>
    elem (sp_nzloc s') j = Some (if c \<in> fst ` set es then d + 1 else d)"
proof -
  have "elem ((sp_nzloc s)[nat j := d + 1]) j = Some (d + 1)"
    using assms(9) by (auto simp: elem_def split: if_splits)
  then show ?thesis
    using insert_entry_row [OF assms, of va] row_insert_sorted [OF assms(3), of c va] row_insert_value [OF assms(3), of c va]
      length_row_insert [OF assms(3), of c va] assms(9)
    by (cases "c \<in> fst ` set es"; cases free) (auto intro!: exI [of _ "row_insert c va es"])
qed

end
