(* ===== verification/StreamRank.thy ===== *)
theory StreamRank
  imports Prelude
begin

text \<open>
  The list of execution streams and their ranks (\<^verbatim>\<open>stream.c\<close>, its last part): a doubly linked list in
  the order of the ranks, whose head is the primary stream with rank 0. All functions run under
  \<^verbatim>\<open>xstream_list_lock\<close>, so each is one function on the state. \<open>None\<close> is a failed assertion or an
  overflow of \<^verbatim>\<open>int\<close>.

  Shown against a map from streams to ranks: no two streams share a rank, an automatic rank is the
  smallest free one, a taken rank is refused without any change, and the counters follow.
\<close>

section \<open>State\<close>

type_synonym xstream_ptr = nat

record xs_heap =
  xs_prev :: "xstream_ptr \<Rightarrow> xstream_ptr option"
  xs_next :: "xstream_ptr \<Rightarrow> xstream_ptr option"
  xs_rank :: "xstream_ptr \<Rightarrow> int"

record xs_global =
  p_xstream_head :: "xstream_ptr option"
  num_xstreams :: int
  max_xstreams :: int

type_synonym xs_state = "xs_heap \<times> xs_global"

definition set_xs_prev :: "xstream_ptr \<Rightarrow> xstream_ptr option \<Rightarrow> xs_heap \<Rightarrow> xs_heap" where
  "set_xs_prev x v h = h\<lparr>xs_prev := (xs_prev h)(x := v)\<rparr>"

definition set_xs_next :: "xstream_ptr \<Rightarrow> xstream_ptr option \<Rightarrow> xs_heap \<Rightarrow> xs_heap" where
  "set_xs_next x v h = h\<lparr>xs_next := (xs_next h)(x := v)\<rparr>"

definition set_xs_rank :: "xstream_ptr \<Rightarrow> int \<Rightarrow> xs_heap \<Rightarrow> xs_heap" where
  "set_xs_rank x v h = h\<lparr>xs_rank := (xs_rank h)(x := v)\<rparr>"

lemma set_xs_simps [cell_simps, simp]:
  "xs_prev (set_xs_prev x v h) = (xs_prev h)(x := v)" "xs_next (set_xs_prev x v h) = xs_next h"
  "xs_rank (set_xs_prev x v h) = xs_rank h" "xs_prev (set_xs_next x v h) = xs_prev h"
  "xs_next (set_xs_next x v h) = (xs_next h)(x := v)" "xs_rank (set_xs_next x v h) = xs_rank h"
  "xs_prev (set_xs_rank x r h) = xs_prev h" "xs_next (set_xs_rank x r h) = xs_next h"
  "xs_rank (set_xs_rank x r h) = (xs_rank h)(x := r)"
  by (simp_all add: set_xs_prev_def set_xs_next_def set_xs_rank_def)

section \<open>Operations\<close>

definition xstream_update_max_xstreams :: "int \<Rightarrow> xs_global \<Rightarrow> xs_global option" where
  "xstream_update_max_xstreams newrank g =
     (if max_xstreams g \<le> newrank then
        if newrank = 2 ^ 31 - 1 then None else Some (g\<lparr>max_xstreams := newrank + 1\<rparr>)
      else Some g)"

text \<open>The loop of \<^verbatim>\<open>xstream_add_xstream_list\<close>: the last smaller element and the first larger one.\<close>

partial_function (option) add_scan ::
    "xs_heap \<Rightarrow> int \<Rightarrow> xstream_ptr option \<Rightarrow> xstream_ptr option \<Rightarrow> (xstream_ptr option \<times> xstream_ptr option) option" where
  "add_scan h rank p_prev p = (if p = None then Some (p_prev, None)
     else do {
       x \<leftarrow> p;
       if xs_rank h x = rank then None
       else if rank < xs_rank h x then Some (p_prev, Some x)
       else add_scan h rank (Some x) (xs_next h x) })"

declare add_scan.simps [code]

definition xstream_add_xstream_list :: "xstream_ptr \<Rightarrow> xs_state \<Rightarrow> xs_state option" where
  "xstream_add_xstream_list new = (\<lambda>(h, g). do {
     (p_prev, p) \<leftarrow> add_scan h (xs_rank h new) (p_xstream_head g) (p_xstream_head g);
     case p of
       None \<Rightarrow> (case p_prev of
           Some y \<Rightarrow> Some (set_xs_next new None (set_xs_prev new (Some y) (set_xs_next y (Some new) h)), g)
         | None \<Rightarrow> if p_xstream_head g = None
             then Some (set_xs_next new None (set_xs_prev new None h), g\<lparr>p_xstream_head := Some new\<rparr>) else None)
     | Some x \<Rightarrow> (case xs_prev h x of
           Some y \<Rightarrow> Some (set_xs_next new (Some x) (set_xs_prev x (Some new)
               (set_xs_prev new (Some y) (set_xs_next y (Some new) h))), g)
         | None \<Rightarrow> if p_xstream_head g = Some x
             then Some (set_xs_next new (Some x) (set_xs_prev x (Some new) h), g\<lparr>p_xstream_head := Some new\<rparr>) else None) })"

definition xstream_remove_xstream_list :: "xstream_ptr \<Rightarrow> xs_state \<Rightarrow> xs_state option" where
  "xstream_remove_xstream_list x = (\<lambda>(h, g). do {
     (h, g) \<leftarrow> (case xs_prev h x of
         None \<Rightarrow> if p_xstream_head g = Some x then Some (h, g\<lparr>p_xstream_head := xs_next h x\<rparr>) else None
       | Some y \<Rightarrow> Some (set_xs_next y (xs_next h x) h, g));
     case xs_next h x of
       None \<Rightarrow> Some (h, g)
     | Some z \<Rightarrow> Some (set_xs_prev z (xs_prev h x) h, g) })"

partial_function (option) free_rank :: "xs_heap \<Rightarrow> int \<Rightarrow> xstream_ptr option \<Rightarrow> int option" where
  "free_rank h rank p = (if p = None then Some rank
     else do {
       x \<leftarrow> p;
       if xs_rank h x = rank then free_rank h (rank + 1) (xs_next h x) else Some rank })"

declare free_rank.simps [code]

partial_function (option) rank_taken :: "xs_heap \<Rightarrow> int \<Rightarrow> xstream_ptr option \<Rightarrow> bool option" where
  "rank_taken h rank p = (if p = None then Some False
     else do {
       x \<leftarrow> p;
       if xs_rank h x = rank then Some True
       else if rank < xs_rank h x then Some False else rank_taken h rank (xs_next h x) })"

declare rank_taken.simps [code]

definition xstream_set_new_rank :: "xstream_ptr \<Rightarrow> int \<Rightarrow> xs_state \<Rightarrow> (bool \<times> xs_state) option" where
  "xstream_set_new_rank new rank = (\<lambda>(h, g). do {
     (taken, rank) \<leftarrow> (if rank = -1 then do { r \<leftarrow> free_rank h 0 (p_xstream_head g); Some (False, r) }
                   else do { taken \<leftarrow> rank_taken h rank (p_xstream_head g); Some (taken, rank) });
     if taken then Some (False, h, g)
     else do {
       (h, g) \<leftarrow> xstream_add_xstream_list new (set_xs_rank new rank h, g);
       g \<leftarrow> xstream_update_max_xstreams rank g;
       Some (True, h, g\<lparr>num_xstreams := num_xstreams g + 1\<rparr>) } })"

definition xstream_change_rank :: "xstream_ptr \<Rightarrow> int \<Rightarrow> xs_state \<Rightarrow> (bool \<times> xs_state) option" where
  "xstream_change_rank x rank = (\<lambda>(h, g).
     if xs_rank h x = rank then Some (True, h, g)
     else do {
       taken \<leftarrow> rank_taken h rank (p_xstream_head g);
       if taken then Some (False, h, g)
       else do {
         (h, g) \<leftarrow> xstream_remove_xstream_list x (h, g);
         (h, g) \<leftarrow> xstream_add_xstream_list x (set_xs_rank x rank h, g);
         g \<leftarrow> xstream_update_max_xstreams rank g;
         Some (True, h, g) } })"

definition xstream_return_rank :: "xstream_ptr \<Rightarrow> xs_state \<Rightarrow> xs_state option" where
  "xstream_return_rank x s = do {
     (h, g) \<leftarrow> xstream_remove_xstream_list x s;
     Some (h, g\<lparr>num_xstreams := num_xstreams g - 1\<rparr>) }"

section \<open>Segments of the list\<close>

definition first_or :: "'b option \<Rightarrow> 'b list \<Rightarrow> 'b option" where
  "first_or n xs = (case xs of [] \<Rightarrow> n | x # _ \<Rightarrow> Some x)"

definition last_or :: "'b option \<Rightarrow> 'b list \<Rightarrow> 'b option" where
  "last_or p xs = (if xs = [] then p else Some (last xs))"

lemma first_or_simps [simp]: "first_or n [] = n" "first_or n (x # xs) = Some x"
  "first_or n (xs @ ys) = first_or (first_or n ys) xs"
  by (simp_all add: first_or_def split: list.split)

lemma last_or_simps [simp]: "last_or p [] = p" "last_or p (x # xs) = last_or (Some x) xs"
  "last_or p (xs @ [x]) = Some x"
  by (simp_all add: last_or_def)

fun seg :: "xs_heap \<Rightarrow> xstream_ptr option \<Rightarrow> xstream_ptr list \<Rightarrow> xstream_ptr option \<Rightarrow> bool" where
  "seg h p [] n \<longleftrightarrow> True"
| "seg h p (x # xs) n \<longleftrightarrow> xs_prev h x = p \<and> xs_next h x = first_or n xs \<and> seg h (Some x) xs n"

lemma seg_append: "seg h p (xs @ ys) n \<longleftrightarrow> seg h p xs (first_or n ys) \<and> seg h (last_or p xs) ys n"
  by (induction xs arbitrary: p) auto

lemma seg_cong:
  "(\<And>x. x \<in> set xs \<Longrightarrow> xs_prev h x = xs_prev h' x \<and> xs_next h x = xs_next h' x) \<Longrightarrow> seg h p xs n = seg h' p xs n"
  by (induction xs arbitrary: p) auto

lemma seg_frame [frame_rules, simp]:
  "y \<notin> set xs \<Longrightarrow> seg (set_xs_prev y v h) p xs n = seg h p xs n"
  "y \<notin> set xs \<Longrightarrow> seg (set_xs_next y v h) p xs n = seg h p xs n"
  "seg (set_xs_rank y r h) p xs n = seg h p xs n"
  by (rule seg_cong; force)+

definition ranks :: "xs_heap \<Rightarrow> xstream_ptr list \<Rightarrow> int list" where
  "ranks h xs = map (xs_rank h) xs"

text \<open>The scans over a list in the order of the ranks.\<close>

lemma add_scan_seg:
  "seg h q xs None \<Longrightarrow> rank \<notin> set (ranks h xs) \<Longrightarrow>
   add_scan h rank p (first_or None xs) =
     Some (last_or p (takeWhile (\<lambda>x. xs_rank h x < rank) xs), first_or None (dropWhile (\<lambda>x. xs_rank h x < rank) xs))"
proof (induction xs arbitrary: p q)
  case (Cons x xs)
  then show ?case
    by (subst add_scan.simps) (auto simp: ranks_def)
qed (simp add: add_scan.simps)

lemma rank_taken_seg:
  "seg h q xs None \<Longrightarrow> sorted_wrt (<) (ranks h xs) \<Longrightarrow>
   rank_taken h rank (first_or None xs) = Some (rank \<in> set (ranks h xs))"
proof (induction xs arbitrary: q)
  case (Cons x xs)
  then show ?case
    by (subst rank_taken.simps) (auto simp: ranks_def)
qed (simp add: rank_taken.simps ranks_def)

text \<open>The smallest number from \<open>rank\<close> on that is not in an ascending list.\<close>

lemma free_rank_seg:
  "seg h q xs None \<Longrightarrow> sorted_wrt (<) (ranks h xs) \<Longrightarrow> \<forall>r \<in> set (ranks h xs). rank \<le> r \<Longrightarrow>
   \<exists>r. free_rank h rank (first_or None xs) = Some r \<and> rank \<le> r \<and> r \<notin> set (ranks h xs) \<and>
     {rank..<r} \<subseteq> set (ranks h xs)"
proof (induction xs arbitrary: q rank)
  case (Cons x xs)
  show ?case
  proof (cases "xs_rank h x = rank")
    case True
    then have "\<forall>r \<in> set (ranks h xs). rank + 1 \<le> r"
      using Cons.prems by (auto simp: ranks_def)
    then obtain r where r: "free_rank h (rank + 1) (first_or None xs) = Some r" "rank + 1 \<le> r"
      "r \<notin> set (ranks h xs)" "{rank + 1..<r} \<subseteq> set (ranks h xs)"
      using Cons.IH [of "Some x" "rank + 1"] Cons.prems by (auto simp: ranks_def)
    moreover have "{rank..<r} = insert rank {rank + 1..<r}"
      using r(2) by auto
    ultimately show ?thesis
      using True Cons.prems by (subst free_rank.simps) (auto simp: ranks_def)
  next
    case False
    then show ?thesis
      using Cons.prems by (subst free_rank.simps) (force simp: ranks_def)
  qed
qed (simp add: free_rank.simps ranks_def)

section \<open>Linking and unlinking\<close>

definition lower_part :: "xs_heap \<Rightarrow> int \<Rightarrow> xstream_ptr list \<Rightarrow> xstream_ptr list" where
  "lower_part h rank xs = takeWhile (\<lambda>x. xs_rank h x < rank) xs"

definition upper_part :: "xs_heap \<Rightarrow> int \<Rightarrow> xstream_ptr list \<Rightarrow> xstream_ptr list" where
  "upper_part h rank xs = dropWhile (\<lambda>x. xs_rank h x < rank) xs"

lemma lower_upper: "lower_part h rank xs @ upper_part h rank xs = xs"
  by (simp add: lower_part_def upper_part_def)

lemma add_links:
  assumes "p_xstream_head g = first_or None xs" "seg h None xs None" "distinct xs" "new \<notin> set xs"
    and "xs_rank h new \<notin> set (ranks h xs)"
    and "xs_prev h new = None \<or> lower_part h (xs_rank h new) xs \<noteq> []"
  shows "\<exists>h' g'. xstream_add_xstream_list new (h, g) = Some (h', g') \<and> xs_rank h' = xs_rank h \<and>
    seg h' None (lower_part h (xs_rank h new) xs @ new # upper_part h (xs_rank h new) xs) None \<and>
    p_xstream_head g' = first_or None (lower_part h (xs_rank h new) xs @ new # upper_part h (xs_rank h new) xs) \<and>
    num_xstreams g' = num_xstreams g \<and> max_xstreams g' = max_xstreams g"
proof -
  define as bs where "as = lower_part h (xs_rank h new) xs" and "bs = upper_part h (xs_rank h new) xs"
  have xs: "xs = as @ bs"
    by (simp add: as_def bs_def lower_upper)
  have scan: "add_scan h (xs_rank h new) (p_xstream_head g) (p_xstream_head g)
      = Some (last_or (p_xstream_head g) as, first_or None bs)"
    using add_scan_seg [OF assms(2,5)] assms(1) by (simp add: as_def bs_def lower_part_def upper_part_def)
  have segs: "seg h None as (first_or None bs)" "seg h (last_or None as) bs None"
    using assms(2) by (simp_all add: xs seg_append)
  have new: "xs_prev h new = None \<or> as \<noteq> []"
    using assms(6) by (simp add: as_def)
  have dist: "distinct as" "distinct bs" "set as \<inter> set bs = {}" "new \<notin> set as" "new \<notin> set bs"
    using assms(3,4) by (auto simp: xs)
  have "\<exists>h' g'. xstream_add_xstream_list new (h, g) = Some (h', g') \<and> xs_rank h' = xs_rank h \<and>
    seg h' None (as @ new # bs) None \<and> p_xstream_head g' = first_or None (as @ new # bs) \<and>
    num_xstreams g' = num_xstreams g \<and> max_xstreams g' = max_xstreams g"
  proof (cases as rule: rev_cases)
    case Nil
    then show ?thesis
      using scan segs dist assms(1) new xs by (cases bs) (auto simp: xstream_add_xstream_list_def)
  next
    case (snoc as' y)
    then show ?thesis
      using scan segs dist assms(1) xs
      by (cases bs) (auto simp: xstream_add_xstream_list_def seg_append)
  qed
  then show ?thesis
    by (simp add: as_def bs_def)
qed

lemma remove_links:
  assumes "p_xstream_head g = first_or None (as @ x # bs)" "seg h None (as @ x # bs) None" "distinct (as @ x # bs)"
  shows "\<exists>h' g'. xstream_remove_xstream_list x (h, g) = Some (h', g') \<and> xs_rank h' = xs_rank h \<and>
    xs_prev h' x = xs_prev h x \<and> seg h' None (as @ bs) None \<and> p_xstream_head g' = first_or None (as @ bs) \<and>
    num_xstreams g' = num_xstreams g \<and> max_xstreams g' = max_xstreams g"
proof (cases as rule: rev_cases)
  case Nil
  then show ?thesis
    using assms by (cases bs) (auto simp: xstream_remove_xstream_list_def)
next
  case (snoc as' y)
  then show ?thesis
    using assms by (cases bs) (auto simp: xstream_remove_xstream_list_def seg_append)
qed

section \<open>The ranks of the streams\<close>

definition rank_list :: "xs_heap \<Rightarrow> xs_global \<Rightarrow> xstream_ptr list \<Rightarrow> bool" where
  "rank_list h g xs \<longleftrightarrow> p_xstream_head g = first_or None xs \<and> seg h None xs None \<and>
     sorted_wrt (<) (ranks h xs) \<and> (\<forall>r \<in> set (ranks h xs). 0 \<le> r \<and> r < max_xstreams g)"

lemma ranks_distinct: "sorted_wrt (<) (ranks h xs) \<Longrightarrow> distinct xs"
  by (simp add: ranks_def strict_sorted_iff distinct_map)

definition rank_of :: "xs_heap \<Rightarrow> xstream_ptr list \<Rightarrow> xstream_ptr \<Rightarrow> int option" where
  "rank_of h xs x = (if x \<in> set xs then Some (xs_rank h x) else None)"

lemma ran_rank_of: "ran (rank_of h xs) = set (ranks h xs)"
  by (auto simp: ran_def rank_of_def ranks_def)

lemma dom_rank_of: "dom (rank_of h xs) = set xs"
  by (auto simp: rank_of_def split: if_splits)

lemma rank_of_inj: "sorted_wrt (<) (ranks h xs) \<Longrightarrow> inj_on (rank_of h xs) (set xs)"
  unfolding ranks_def
  by (auto simp: inj_on_def rank_of_def strict_sorted_iff distinct_map)

lemma sorted_insert:
  assumes "sorted_wrt (<) (ranks h xs)" "xs_rank h new \<notin> set (ranks h xs)"
  shows "sorted_wrt (<) (ranks h (lower_part h (xs_rank h new) xs @ new # upper_part h (xs_rank h new) xs))"
  using assms
proof (induction xs)
  case (Cons x xs)
  then show ?case
    by (auto simp: lower_part_def upper_part_def ranks_def dest: set_takeWhileD set_dropWhileD)
qed (simp add: lower_part_def upper_part_def ranks_def)

lemma set_insert: "set (lower_part h r xs @ x # upper_part h r xs) = insert x (set xs)"
  using lower_upper [of h r xs] by (metis Un_insert_right list.simps(15) set_append)

lemma add_rank_list:
  assumes "rank_list h g xs" "new \<notin> set xs" "0 \<le> r" "r < 2 ^ 31 - 1" "r \<notin> set (ranks h xs)"
    and "xs_prev h new = None \<or> lower_part h r xs \<noteq> []"
  shows "\<exists>h' g' g'' ys. xstream_add_xstream_list new (set_xs_rank new r h, g) = Some (h', g') \<and>
    xstream_update_max_xstreams r g' = Some g'' \<and> num_xstreams g'' = num_xstreams g \<and>
    rank_list h' g'' ys \<and> rank_of h' ys = (rank_of h xs)(new \<mapsto> r)"
proof -
  let ?h = "set_xs_rank new r h"
  have same: "ranks ?h xs = ranks h xs" "lower_part ?h r xs = lower_part h r xs" "upper_part ?h r xs = upper_part h r xs"
    using assms(2) by (auto simp: ranks_def lower_part_def upper_part_def intro!: takeWhile_cong dropWhile_cong)
  have rep: "p_xstream_head g = first_or None xs" "seg ?h None xs None" "sorted_wrt (<) (ranks ?h xs)" "distinct xs"
    using assms(1) ranks_distinct by (auto simp: rank_list_def same)
  let ?ys = "lower_part ?h r xs @ new # upper_part ?h r xs"
  obtain h' g' where add: "xstream_add_xstream_list new (?h, g) = Some (h', g')" "xs_rank h' = xs_rank ?h"
    "seg h' None ?ys None" "p_xstream_head g' = first_or None ?ys"
    "num_xstreams g' = num_xstreams g" "max_xstreams g' = max_xstreams g"
    using add_links [OF rep(1,2,4) assms(2)] assms(5,6) same by auto
  have "sorted_wrt (<) (ranks ?h ?ys)"
    using sorted_insert [OF rep(3), of new] assms(5) by (simp add: same(1))
  then have sorted: "sorted_wrt (<) (ranks h' ?ys)"
    by (simp only: ranks_def add(2))
  have rset: "set (ranks h' ?ys) = insert r (set (ranks h xs))"
  proof -
    have "set (ranks h' ?ys) = xs_rank ?h ` set ?ys"
      by (simp only: ranks_def add(2) set_map)
    also have "\<dots> = insert r (set (ranks ?h xs))"
      by (simp only: set_insert ranks_def set_map image_insert) simp
    finally show ?thesis
      by (simp only: same(1))
  qed
  obtain g'' where upd: "xstream_update_max_xstreams r g' = Some g''" "num_xstreams g'' = num_xstreams g"
    "p_xstream_head g'' = p_xstream_head g'" "r < max_xstreams g''" "max_xstreams g \<le> max_xstreams g''"
    using assms(4) add(5,6) by (cases "max_xstreams g' \<le> r") (auto simp: xstream_update_max_xstreams_def)
  have "\<forall>q \<in> insert r (set (ranks h xs)). 0 \<le> q \<and> q < max_xstreams g''"
    using assms(1,3) upd(4,5) by (auto simp: rank_list_def)
  then have "rank_list h' g'' ?ys"
    using add(3,4) sorted assms(1) upd(3) by (simp add: rank_list_def rset del: first_or_simps)
  moreover have "rank_of h' ?ys = (rank_of h xs)(new \<mapsto> r)"
    unfolding rank_of_def by (simp only: set_insert add(2)) (auto simp: fun_eq_iff)
  ultimately show ?thesis
    using add(1) upd(1,2) by blast
qed

lemma lower_part_nonempty:
  assumes "0 \<in> set (ranks h xs)" "sorted_wrt (<) (ranks h xs)" "0 < r"
  shows "lower_part h r xs \<noteq> []"
  using assms by (cases xs) (auto simp: lower_part_def ranks_def)

lemma remove_rank_list:
  assumes "rank_list h g xs" "x \<in> set xs"
  shows "\<exists>h' g' ys. xstream_remove_xstream_list x (h, g) = Some (h', g') \<and> num_xstreams g' = num_xstreams g \<and>
    rank_list h' g' ys \<and> rank_of h' ys = (rank_of h xs)(x := None) \<and>
    x \<notin> set ys"
proof -
  obtain as bs where xs: "xs = as @ x # bs"
    using split_list [OF assms(2)] by blast
  have dist: "distinct (as @ x # bs)"
    using assms(1) ranks_distinct [of h "as @ x # bs"] by (simp add: rank_list_def xs)
  obtain h' g' where r: "xstream_remove_xstream_list x (h, g) = Some (h', g')" "xs_rank h' = xs_rank h"
    "seg h' None (as @ bs) None" "p_xstream_head g' = first_or None (as @ bs)" "num_xstreams g' = num_xstreams g"
    "max_xstreams g' = max_xstreams g"
    using remove_links [of g as x bs h] assms(1) dist by (auto simp: rank_list_def xs)
  moreover have "rank_list h' g' (as @ bs)"
    using assms(1) r by (auto simp: rank_list_def xs ranks_def sorted_wrt_append)
  moreover have "rank_of h' (as @ bs) = (rank_of h xs)(x := None)"
    using dist by (auto simp: rank_of_def xs r(2) fun_eq_iff)
  ultimately show ?thesis
    using dist by (metis Un_iff distinct_append disjoint_iff list.set_intros(1) not_distinct_conv_prefix set_append distinct.simps(2))
qed

section \<open>Refinement of a map of ranks\<close>

text \<open>
  \<open>rank_map s p m\<close>: the list holds the streams of \<open>m\<close> with their ranks, among them the primary stream \<open>p\<close>
  with rank 0.
\<close>

definition rank_map :: "xs_state \<Rightarrow> xstream_ptr \<Rightarrow> (xstream_ptr \<Rightarrow> int option) \<Rightarrow> bool" where
  "rank_map s p m \<longleftrightarrow> (\<exists>xs. rank_list (fst s) (snd s) xs \<and> m = rank_of (fst s) xs) \<and> m p = Some 0 \<and>
     num_xstreams (snd s) = int (card (dom m))"

lemma rank_map_facts:
  assumes "rank_map s p m"
  shows "inj_on m (dom m)" "finite (dom m)" "num_xstreams (snd s) = int (card (dom m))"
    "r \<in> ran m \<Longrightarrow> 0 \<le> r \<and> r < max_xstreams (snd s)"
proof -
  obtain xs where xs: "rank_list (fst s) (snd s) xs" "m = rank_of (fst s) xs"
    using assms by (auto simp: rank_map_def)
  note rl = xs(1) [unfolded rank_list_def]
  show "inj_on m (dom m)"
    using rank_of_inj rl by (simp add: xs(2) dom_rank_of)
  show "finite (dom m)" "num_xstreams (snd s) = int (card (dom m))"
    using assms by (simp_all add: xs(2) dom_rank_of rank_map_def)
  show "0 \<le> r \<and> r < max_xstreams (snd s)" if "r \<in> ran m"
    using rl that by (simp add: xs(2) ran_rank_of)
qed

text \<open>The operations as \<^verbatim>\<open>stream.c\<close> calls them: a new stream's links are cleared first.\<close>

datatype rank_op = RNew xstream_ptr int | RChange xstream_ptr int | RReturn xstream_ptr

fun run_rank_op :: "rank_op \<Rightarrow> xs_state \<Rightarrow> (bool \<times> xs_state) option" where
  "run_rank_op (RNew x rank) (h, g) = xstream_set_new_rank x rank (set_xs_next x None (set_xs_prev x None h), g)"
| "run_rank_op (RChange x rank) s = xstream_change_rank x rank s"
| "run_rank_op (RReturn x) s = do { s \<leftarrow> xstream_return_rank x s; Some (True, s) }"

definition least_free :: "(xstream_ptr \<Rightarrow> int option) \<Rightarrow> int" where
  "least_free m = int (LEAST n. int n \<notin> ran m)"

fun rank_op_spec :: "rank_op \<Rightarrow> (xstream_ptr \<Rightarrow> int option) \<Rightarrow> bool \<times> (xstream_ptr \<Rightarrow> int option)" where
  "rank_op_spec (RNew x rank) m =
     (if rank = -1 then (True, m(x \<mapsto> least_free m))
      else if rank \<in> ran m then (False, m) else (True, m(x \<mapsto> rank)))"
| "rank_op_spec (RChange x rank) m =
     (if m x = Some rank then (True, m)
      else if rank \<in> ran m then (False, m) else (True, m(x \<mapsto> rank)))"
| "rank_op_spec (RReturn x) m = (True, m(x := None))"

text \<open>
  What \<^verbatim>\<open>stream.c\<close> checks before it calls them: ranks are not negative, the primary stream keeps its
  rank. It does not check that the rank is below the largest \<^verbatim>\<open>int\<close>.
\<close>

fun rank_op_allowed :: "xstream_ptr \<Rightarrow> rank_op \<Rightarrow> (xstream_ptr \<Rightarrow> int option) \<Rightarrow> bool" where
  "rank_op_allowed p (RNew x rank) m \<longleftrightarrow> m x = None \<and> -1 \<le> rank \<and> rank < 2 ^ 31 - 1 \<and> card (dom m) < 2 ^ 31 - 1"
| "rank_op_allowed p (RChange x rank) m \<longleftrightarrow> x \<in> dom m \<and> x \<noteq> p \<and> 0 \<le> rank \<and> rank < 2 ^ 31 - 1"
| "rank_op_allowed p (RReturn x) m \<longleftrightarrow> x \<in> dom m \<and> x \<noteq> p"

lemma least_free_unique:
  assumes "0 \<le> r" "r \<notin> ran m" "{0..<r} \<subseteq> ran m"
  shows "r = least_free m"
proof -
  have "(LEAST n. int n \<notin> ran m) = nat r"
  proof (rule Least_equality)
    show "int (nat r) \<notin> ran m"
      using assms by simp
    show "nat r \<le> n" if "int n \<notin> ran m" for n
    proof (rule ccontr)
      assume "\<not> nat r \<le> n"
      then have "int n \<in> {0..<r}"
        by auto
      then show False
        using that assms(3) by blast
    qed
  qed
  then show ?thesis
    using assms(1) by (simp add: least_free_def)
qed

lemma set_new_rank_map:
  assumes "rank_map s p m" "rank_op_allowed p (RNew x rank) m"
  shows "\<exists>s'. run_rank_op (RNew x rank) s = Some (fst (rank_op_spec (RNew x rank) m), s') \<and>
    rank_map s' p (snd (rank_op_spec (RNew x rank) m))"
proof -
  obtain h g where s: "s = (h, g)"
    by (cases s)
  obtain xs where rl: "rank_list h g xs" and m: "m = rank_of h xs" "m p = Some 0" "num_xstreams g = int (card (dom m))"
    using assms(1) by (auto simp: rank_map_def s)
  let ?h = "set_xs_next x None (set_xs_prev x None h)"
  have new: "x \<notin> set xs" "x \<noteq> p"
    using assms(2) m by (auto simp: rank_of_def split: if_splits)
  have rk: "ranks ?h xs = ranks h xs" "rank_of ?h xs = rank_of h xs" "lower_part ?h = lower_part h"
    by (simp_all add: ranks_def rank_of_def fun_eq_iff lower_part_def)
  have rl': "rank_list ?h g xs"
    using rl new(1) by (simp add: rank_list_def rk)
  then have ord: "seg ?h None xs None" "sorted_wrt (<) (ranks ?h xs)" "p_xstream_head g = first_or None xs"
    by (auto simp: rank_list_def)
  have add: "\<exists>s'. (do { (h, g) \<leftarrow> xstream_add_xstream_list x (set_xs_rank x r ?h, g);
       g \<leftarrow> xstream_update_max_xstreams r g;
       Some (True, h, g\<lparr>num_xstreams := num_xstreams g + 1\<rparr>) }) = Some (True, s') \<and> rank_map s' p (m(x \<mapsto> r))"
    if r: "0 \<le> r" "r < 2 ^ 31 - 1" "r \<notin> ran m" for r
  proof -
    obtain h' g' g'' ys where a: "xstream_add_xstream_list x (set_xs_rank x r ?h, g) = Some (h', g')"
      "xstream_update_max_xstreams r g' = Some g''" "num_xstreams g'' = num_xstreams g"
      "rank_list h' g'' ys" "rank_of h' ys = m(x \<mapsto> r)"
      using add_rank_list [OF rl' new(1) r(1,2)] r(3) by (auto simp: rk m(1) ran_rank_of)
    have "card (dom (m(x \<mapsto> r))) = Suc (card (dom m))"
      using new(1) by (simp add: m(1) dom_rank_of)
    moreover have "rank_list h' (g''\<lparr>num_xstreams := num_xstreams g + 1\<rparr>) ys"
      using a(4) by (simp add: rank_list_def)
    ultimately have "rank_map (h', g''\<lparr>num_xstreams := num_xstreams g + 1\<rparr>) p (m(x \<mapsto> r))"
      using a(5) m(2,3) new(2) unfolding rank_map_def by (auto intro: exI [of _ ys])
    then show ?thesis
      using a by simp
  qed
  show ?thesis
  proof (cases "rank = -1")
    case True
    obtain r where r: "free_rank ?h 0 (p_xstream_head g) = Some r" "0 \<le> r" "r \<notin> ran m" "{0..<r} \<subseteq> ran m"
      using free_rank_seg [OF ord(1,2), of 0] rl by (auto simp: ord(3) m ran_rank_of rk rank_list_def)
    have "card {0..<r} \<le> card (ran m)"
      by (rule card_mono [OF _ r(4)]) (simp add: m ran_rank_of)
    also have "card (ran m) \<le> length xs"
      by (simp add: m ran_rank_of ranks_def) (metis card_length length_map set_map)
    also have "length xs = card (dom m)"
      using ranks_distinct [OF ord(2)] by (simp add: m dom_rank_of distinct_card)
    finally have "nat r \<le> card (dom m)"
      by simp
    then have "r \<le> int (card (dom m))"
      by linarith
    moreover have "int (card (dom m)) < 2 ^ 31 - 1"
      using assms(2) by simp
    ultimately have "r < 2 ^ 31 - 1"
      by linarith
    then show ?thesis
      using add [OF r(2) _ r(3)] r(1) True least_free_unique [OF r(2,3,4)]
      by (simp add: s xstream_set_new_rank_def)
  next
    case False
    then have r: "0 \<le> rank" "rank < 2 ^ 31 - 1"
      using assms(2) by simp_all
    have "rank_taken ?h rank (p_xstream_head g) = Some (rank \<in> ran m)"
      using rank_taken_seg [OF ord(1,2), of rank] by (simp add: ord(3) m ran_rank_of rk)
    moreover have "rank_map (?h, g) p m"
      using rl' m by (auto simp: rank_map_def rk)
    ultimately show ?thesis
      using add [OF r] False by (cases "rank \<in> ran m") (auto simp: s xstream_set_new_rank_def)
  qed
qed

lemma change_rank_map:
  assumes "rank_map s p m" "rank_op_allowed p (RChange x rank) m"
  shows "\<exists>s'. run_rank_op (RChange x rank) s = Some (fst (rank_op_spec (RChange x rank) m), s') \<and>
    rank_map s' p (snd (rank_op_spec (RChange x rank) m))"
proof -
  obtain h g where s: "s = (h, g)"
    by (cases s)
  obtain xs where rl: "rank_list h g xs" and m: "m = rank_of h xs" "m p = Some 0" "num_xstreams g = int (card (dom m))"
    using assms(1) by (auto simp: rank_map_def s)
  have x: "x \<in> set xs" "x \<noteq> p" "0 \<le> rank" "rank < 2 ^ 31 - 1" "m x = Some (xs_rank h x)"
    using assms(2) m by (auto simp: dom_rank_of rank_of_def split: if_splits)
  have taken: "rank_taken h rank (p_xstream_head g) = Some (rank \<in> ran m)"
    using rank_taken_seg [of h None xs rank] rl by (auto simp: rank_list_def m ran_rank_of)
  show ?thesis
  proof (cases "xs_rank h x = rank \<or> rank \<in> ran m")
    case True
    then show ?thesis
      using assms(1) x taken by (auto simp: s xstream_change_rank_def)
  next
    case False
    obtain h1 g1 ys where rm: "xstream_remove_xstream_list x (h, g) = Some (h1, g1)" "num_xstreams g1 = num_xstreams g"
      "rank_list h1 g1 ys" "rank_of h1 ys = m(x := None)" "x \<notin> set ys"
      using remove_rank_list [OF rl x(1)] m(1) by blast
    have "rank_of h1 ys p = Some 0"
      using rm(4) x(2) m(2) by simp
    then have in0: "0 \<in> ran (rank_of h1 ys)"
      by (rule ranI)
    have "ran (m(x := None)) \<subseteq> ran m"
      by (auto simp: ran_def split: if_splits)
    then have free: "rank \<notin> set (ranks h1 ys)"
      using False rm(4) by (auto simp flip: ran_rank_of)
    then have "0 < rank"
      using in0 x(3) by (cases "rank = 0") (auto simp: ran_rank_of)
    then have low: "lower_part h1 rank ys \<noteq> []"
      using lower_part_nonempty [of h1 ys rank] in0 rm(3) by (simp add: ran_rank_of rank_list_def)
    obtain h' g' g'' zs where a: "xstream_add_xstream_list x (set_xs_rank x rank h1, g1) = Some (h', g')"
      "xstream_update_max_xstreams rank g' = Some g''" "num_xstreams g'' = num_xstreams g1"
      "rank_list h' g'' zs" "rank_of h' zs = m(x \<mapsto> rank)"
      using add_rank_list [OF rm(3,5) x(3,4) free] low rm(4) by auto
    have "dom (m(x \<mapsto> rank)) = dom m"
      using x(5) by auto
    then have "rank_map (h', g'') p (m(x \<mapsto> rank))"
      using a(3,4,5) rm(2) m(2,3) x(2) unfolding rank_map_def by (auto intro: exI [of _ zs])
    then show ?thesis
      using a(1,2) rm(1) taken False x(5) by (simp add: s xstream_change_rank_def)
  qed
qed

lemma return_rank_map:
  assumes "rank_map s p m" "rank_op_allowed p (RReturn x) m"
  shows "\<exists>s'. run_rank_op (RReturn x) s = Some (True, s') \<and> rank_map s' p (m(x := None))"
proof -
  obtain h g where s: "s = (h, g)"
    by (cases s)
  obtain xs where rl: "rank_list h g xs" and m: "m = rank_of h xs" "m p = Some 0" "num_xstreams g = int (card (dom m))"
    using assms(1) by (auto simp: rank_map_def s)
  have x: "x \<in> set xs" "x \<noteq> p"
    using assms(2) by (auto simp: m(1) dom_rank_of)
  obtain h' g' ys where r: "xstream_remove_xstream_list x (h, g) = Some (h', g')" "num_xstreams g' = num_xstreams g"
    "rank_list h' g' ys" "rank_of h' ys = m(x := None)"
    using remove_rank_list [OF rl x(1)] m(1) by blast
  have "int (card (dom (m(x := None)))) = int (card (dom m)) - 1"
  proof -
    have "0 < card (set xs)"
      using x(1) by (auto simp: card_gt_0_iff)
    then show ?thesis
      using x(1) by (simp add: m(1) dom_rank_of card_Diff_singleton of_nat_diff)
  qed
  moreover have "rank_list h' (g'\<lparr>num_xstreams := num_xstreams g' - 1\<rparr>) ys"
    using r(3) by (simp add: rank_list_def)
  ultimately have "rank_map (h', g'\<lparr>num_xstreams := num_xstreams g' - 1\<rparr>) p (m(x := None))"
    using r(2,4) m(2,3) x(2) unfolding rank_map_def by (auto intro: exI [of _ ys])
  then show ?thesis
    using r(1) by (simp add: s xstream_return_rank_def)
qed

lemma rank_op_map:
  assumes "rank_map s p m" "rank_op_allowed p op m"
  shows "\<exists>s'. run_rank_op op s = Some (fst (rank_op_spec op m), s') \<and> rank_map s' p (snd (rank_op_spec op m))"
proof (cases op)
  case (RNew x r)
  then show ?thesis
    using set_new_rank_map [of s p m x r] assms by blast
next
  case (RChange x r)
  then show ?thesis
    using change_rank_map [of s p m x r] assms by blast
next
  case (RReturn x)
  then show ?thesis
    using return_rank_map [of s p m x] assms by auto
qed

text \<open>Sequences of operations.\<close>

fun run_rank_ops :: "rank_op list \<Rightarrow> xs_state \<Rightarrow> (bool list \<times> xs_state) option" where
  "run_rank_ops [] s = Some ([], s)"
| "run_rank_ops (op # ops) s = do {
     (b, s) \<leftarrow> run_rank_op op s;
     (bs, s) \<leftarrow> run_rank_ops ops s;
     Some (b # bs, s) }"

fun rank_ops_spec :: "rank_op list \<Rightarrow> (xstream_ptr \<Rightarrow> int option) \<Rightarrow> bool list \<times> (xstream_ptr \<Rightarrow> int option)" where
  "rank_ops_spec [] m = ([], m)"
| "rank_ops_spec (op # ops) m = (let (b, m) = rank_op_spec op m; (bs, m) = rank_ops_spec ops m in (b # bs, m))"

fun rank_ops_allowed :: "xstream_ptr \<Rightarrow> rank_op list \<Rightarrow> (xstream_ptr \<Rightarrow> int option) \<Rightarrow> bool" where
  "rank_ops_allowed p [] m \<longleftrightarrow> True"
| "rank_ops_allowed p (op # ops) m \<longleftrightarrow> rank_op_allowed p op m \<and> rank_ops_allowed p ops (snd (rank_op_spec op m))"

lemma rank_ops_map:
  assumes "rank_map s p m" "rank_ops_allowed p ops m"
  shows "\<exists>s'. run_rank_ops ops s = Some (fst (rank_ops_spec ops m), s') \<and> rank_map s' p (snd (rank_ops_spec ops m))"
  using assms
proof (induction ops arbitrary: s m)
  case (Cons op ops)
  obtain s1 where 1: "run_rank_op op s = Some (fst (rank_op_spec op m), s1)" "rank_map s1 p (snd (rank_op_spec op m))"
    using rank_op_map [OF Cons.prems(1), of op] Cons.prems(2) by auto
  obtain s2 where "run_rank_ops ops s1 = Some (fst (rank_ops_spec ops (snd (rank_op_spec op m))), s2)"
    "rank_map s2 p (snd (rank_ops_spec ops (snd (rank_op_spec op m))))"
    using Cons.IH [OF 1(2)] Cons.prems(2) by auto
  then show ?case
    using 1(1) by (auto simp: Let_def split: prod.split)
qed simp

text \<open>The state of \<^verbatim>\<open>ABT_init\<close> after the primary stream was created.\<close>

definition no_xstreams :: "int \<Rightarrow> xs_state" where
  "no_xstreams maxx = (\<lparr>xs_prev = (\<lambda>_. None), xs_next = (\<lambda>_. None), xs_rank = (\<lambda>_. 0)\<rparr>,
     \<lparr>p_xstream_head = None, num_xstreams = 0, max_xstreams = maxx\<rparr>)"

lemma primary_rank:
  assumes "0 < maxx"
  shows "\<exists>s. run_rank_op (RNew p (-1)) (no_xstreams maxx) = Some (True, s) \<and> rank_map s p [p \<mapsto> 0]"
proof -
  let ?s = "(set_xs_next p None (set_xs_prev p None (set_xs_rank p 0 (set_xs_next p None (set_xs_prev p None (fst (no_xstreams maxx)))))),
    \<lparr>p_xstream_head = Some p, num_xstreams = 1, max_xstreams = maxx\<rparr>)"
  have "run_rank_op (RNew p (-1)) (no_xstreams maxx) = Some (True, ?s)"
    using assms by (simp add: no_xstreams_def xstream_set_new_rank_def free_rank.simps xstream_add_xstream_list_def
        add_scan.simps xstream_update_max_xstreams_def)
  moreover have "rank_map ?s p [p \<mapsto> 0]"
    using assms unfolding rank_map_def
    by (auto simp: rank_list_def ranks_def rank_of_def fun_eq_iff intro!: exI [of _ "[p]"])
  ultimately show ?thesis
    by blast
qed

end
