(* ===== verification/StreamLife.thy ===== *)
theory StreamLife
  imports SyncBase
begin

text \<open>
  The life of a secondary execution stream: its native thread (\<^verbatim>\<open>arch/abtd_stream.c\<close>, with
  \<^verbatim>\<open>thread_root_func\<close> of \<^verbatim>\<open>thread.c\<close>) against a caller of \<^verbatim>\<open>ABT_xstream_join\<close>, \<^verbatim>\<open>_free\<close>, \<^verbatim>\<open>_cancel\<close> and
  \<^verbatim>\<open>_revive\<close> (\<^verbatim>\<open>stream.c\<close>). The stream may have one caller at a time, as the documentation asks.

  Both sides take one step per access to what they share: the state of the context, the mutex
  \<^verbatim>\<open>state_lock\<close> and the condition variable \<^verbatim>\<open>state_cond\<close>, the state of the stream and that of the main
  scheduler's ULT. Of what the stream runs, only that is modelled: once a stop is requested the
  main scheduler ends. \<open>Fails\<close> is a failed assertion. A signal wakes one sleeper, the one \<open>pick\<close>
  names if it sleeps; sleepers may also wake for no reason.
\<close>

section \<open>State\<close>

datatype context_state =
  CONTEXT_RUNNING | CONTEXT_WAITING | CONTEXT_REQ_JOIN | CONTEXT_REQ_TERMINATE | CONTEXT_UNINIT

datatype xstream_state = ABT_XSTREAM_STATE_RUNNING | ABT_XSTREAM_STATE_TERMINATED

datatype party = Native | Caller

record life =
  lf_ctx :: context_state
  lf_lock :: bool
  lf_asleep :: "party \<Rightarrow> bool"
  lf_state :: xstream_state
  lf_sched_done :: bool
  lf_stop :: bool

definition cond_wait :: "party \<Rightarrow> life \<Rightarrow> life" where
  "cond_wait x s = s\<lparr>lf_asleep := (lf_asleep s)(x := True), lf_lock := False\<rparr>"

definition cond_signal :: "party \<Rightarrow> life \<Rightarrow> life" where
  "cond_signal pick s = (let x = (if lf_asleep s pick then pick else if pick = Native then Caller else Native)
     in s\<lparr>lf_asleep := (lf_asleep s)(x := False)\<rparr>)"

section \<open>The native thread\<close>

datatype native_pc =
  NStart | NRootStart | NRoot | NTerminate | NLock | NDone | NAsleep | NCheck | NExited

fun xstream_context_thread_func :: "party \<Rightarrow> native_pc \<Rightarrow> life \<Rightarrow> (native_pc \<times> life) micro" where
  "xstream_context_thread_func pick NStart s =
     (if lf_ctx s = CONTEXT_RUNNING then Moves (NRootStart, s) else Fails)"
| "xstream_context_thread_func pick NRootStart s =
     (if lf_state s = ABT_XSTREAM_STATE_RUNNING then Moves (NRoot, s) else Fails)"
| "xstream_context_thread_func pick NRoot s =
     (if lf_sched_done s then Moves (NTerminate, s)
      else if lf_stop s then Moves (NRoot, s\<lparr>lf_sched_done := True\<rparr>) else Spins)"
| "xstream_context_thread_func pick NTerminate s = Moves (NLock, s\<lparr>lf_state := ABT_XSTREAM_STATE_TERMINATED\<rparr>)"
| "xstream_context_thread_func pick NLock s = (if lf_lock s then Spins else Moves (NDone, s\<lparr>lf_lock := True\<rparr>))"
| "xstream_context_thread_func pick NDone s =
     (let s = (if lf_ctx s = CONTEXT_REQ_JOIN then cond_signal pick s else s)
      in Moves (NAsleep, cond_wait Native (s\<lparr>lf_ctx := CONTEXT_WAITING\<rparr>)))"
| "xstream_context_thread_func pick NAsleep s =
     (if lf_asleep s Native \<or> lf_lock s then Spins else Moves (NCheck, s\<lparr>lf_lock := True\<rparr>))"
| "xstream_context_thread_func pick NCheck s =
     (if lf_ctx s = CONTEXT_WAITING then Moves (NAsleep, cond_wait Native s)
      else if lf_ctx s = CONTEXT_REQ_TERMINATE then Moves (NExited, s\<lparr>lf_lock := False\<rparr>)
      else if lf_ctx s = CONTEXT_RUNNING \<or> lf_ctx s = CONTEXT_REQ_JOIN then Moves (NRootStart, s\<lparr>lf_lock := False\<rparr>)
      else Fails)"
| "xstream_context_thread_func pick NExited s = Spins"

section \<open>The caller\<close>

text \<open>\<open>free\<close> tells whether the join is part of \<^verbatim>\<open>ABT_xstream_free\<close>.\<close>

datatype caller_pc =
  CIdle | CJoinThread bool | CJoinLock bool | CJoinCheck bool | CJoinAsleep bool | CJoinRecheck bool | CJoinAssert bool
| CFreeLock | CFreeSignal | CFreeWait | CFreed
| CReviveThread | CReviveState | CReviveLock | CReviveSignal

datatype stream_call = Join | Free | Cancel | Revive

text \<open>The first step of a call: requests to the main scheduler, and the check of \<^verbatim>\<open>ABT_xstream_revive\<close>.\<close>

fun start_call :: "stream_call \<Rightarrow> life \<Rightarrow> caller_pc \<times> life" where
  "start_call Join s = (CJoinThread False, s\<lparr>lf_stop := True\<rparr>)"
| "start_call Free s = (CJoinThread True, s\<lparr>lf_stop := True\<rparr>)"
| "start_call Cancel s = (CIdle, s\<lparr>lf_stop := True\<rparr>)"
| "start_call Revive s = (if lf_sched_done s then (CReviveThread, s) else (CIdle, s))"

fun caller_micro :: "party \<Rightarrow> bool \<Rightarrow> caller_pc \<Rightarrow> life \<Rightarrow> (caller_pc \<times> life) micro" where
  "caller_micro pick exited CIdle s = Spins"
| "caller_micro pick exited (CJoinThread free) s = (if lf_sched_done s then Moves (CJoinLock free, s) else Spins)"
| "caller_micro pick exited (CJoinLock free) s =
     (if lf_lock s then Spins else Moves (CJoinCheck free, s\<lparr>lf_lock := True\<rparr>))"
| "caller_micro pick exited (CJoinCheck free) s =
     (if lf_ctx s \<noteq> CONTEXT_WAITING then
        if lf_ctx s = CONTEXT_RUNNING then Moves (CJoinAsleep free, cond_wait Caller (s\<lparr>lf_ctx := CONTEXT_REQ_JOIN\<rparr>))
        else Fails
      else Moves (CJoinAssert free, s\<lparr>lf_lock := False\<rparr>))"
| "caller_micro pick exited (CJoinAsleep free) s =
     (if lf_asleep s Caller \<or> lf_lock s then Spins else Moves (CJoinRecheck free, s\<lparr>lf_lock := True\<rparr>))"
| "caller_micro pick exited (CJoinRecheck free) s =
     (if lf_ctx s = CONTEXT_REQ_JOIN then Moves (CJoinAsleep free, cond_wait Caller s)
      else if lf_ctx s = CONTEXT_WAITING then Moves (CJoinAssert free, s\<lparr>lf_lock := False\<rparr>) else Fails)"
| "caller_micro pick exited (CJoinAssert free) s =
     (if lf_state s = ABT_XSTREAM_STATE_TERMINATED then Moves (if free then CFreeLock else CIdle, s) else Fails)"
| "caller_micro pick exited CFreeLock s = (if lf_lock s then Spins else Moves (CFreeSignal, s\<lparr>lf_lock := True\<rparr>))"
| "caller_micro pick exited CFreeSignal s =
     (if lf_ctx s = CONTEXT_WAITING
      then Moves (CFreeWait, cond_signal pick (s\<lparr>lf_ctx := CONTEXT_REQ_TERMINATE\<rparr>)\<lparr>lf_lock := False\<rparr>) else Fails)"
| "caller_micro pick exited CFreeWait s = (if exited then Moves (CFreed, s) else Spins)"
| "caller_micro pick exited CFreed s = Spins"
| "caller_micro pick exited CReviveThread s = Moves (CReviveState, s\<lparr>lf_stop := False, lf_sched_done := False\<rparr>)"
| "caller_micro pick exited CReviveState s = Moves (CReviveLock, s\<lparr>lf_state := ABT_XSTREAM_STATE_RUNNING\<rparr>)"
| "caller_micro pick exited CReviveLock s = (if lf_lock s then Spins else Moves (CReviveSignal, s\<lparr>lf_lock := True\<rparr>))"
| "caller_micro pick exited CReviveSignal s =
     (if lf_ctx s = CONTEXT_WAITING
      then Moves (CIdle, cond_signal pick (s\<lparr>lf_ctx := CONTEXT_RUNNING\<rparr>)\<lparr>lf_lock := False\<rparr>) else Fails)"

section \<open>Both together\<close>

text \<open>\<open>ls_joined\<close>: the stream has been joined since it was last started.\<close>

record life_sys =
  ls_native :: native_pc
  ls_caller :: caller_pc
  ls_life :: life
  ls_joined :: bool

definition native_step :: "party \<Rightarrow> life_sys \<Rightarrow> life_sys micro" where
  "native_step pick S = (case xstream_context_thread_func pick (ls_native S) (ls_life S) of
     Moves (n, s) \<Rightarrow> Moves (S\<lparr>ls_native := n, ls_life := s\<rparr>) | Spins \<Rightarrow> Spins | Fails \<Rightarrow> Fails)"

fun joins_now :: "caller_pc \<Rightarrow> bool" where
  "joins_now (CJoinAssert free) = True" | "joins_now _ = False"

definition caller_step :: "party \<Rightarrow> life_sys \<Rightarrow> life_sys micro" where
  "caller_step pick S = (case caller_micro pick (ls_native S = NExited) (ls_caller S) (ls_life S) of
     Moves (c, s) \<Rightarrow> Moves (S\<lparr>ls_caller := c, ls_life := s, ls_joined := ls_joined S \<or> joins_now (ls_caller S)\<rparr>)
   | Spins \<Rightarrow> Spins | Fails \<Rightarrow> Fails)"

text \<open>A call is by the rules if it does not revive a stream nobody has joined.\<close>

definition by_the_rules :: "stream_call \<Rightarrow> life_sys \<Rightarrow> bool" where
  "by_the_rules call S \<longleftrightarrow> (call = Revive \<longrightarrow> ls_joined S)"

inductive life_moves :: "life_sys \<Rightarrow> life_sys \<Rightarrow> bool" where
  native: "native_step pick S = Moves S' \<Longrightarrow> life_moves S S'"
| caller: "caller_step pick S = Moves S' \<Longrightarrow> life_moves S S'"

inductive life_step :: "(stream_call \<Rightarrow> life_sys \<Rightarrow> bool) \<Rightarrow> life_sys \<Rightarrow> life_sys \<Rightarrow> bool" for allowed where
  moves: "life_moves S S' \<Longrightarrow> life_step allowed S S'"
| call: "ls_caller S = CIdle \<Longrightarrow> allowed call S \<Longrightarrow> start_call call (ls_life S) = (c, s) \<Longrightarrow>
    life_step allowed S (S\<lparr>ls_caller := c, ls_life := s, ls_joined := ls_joined S \<and> call \<noteq> Revive\<rparr>)"
| spurious: "life_step allowed S (S\<lparr>ls_life := (ls_life S)\<lparr>lf_asleep := (lf_asleep (ls_life S))(x := False)\<rparr>\<rparr>)"

text \<open>\<^verbatim>\<open>ABTD_xstream_context_create\<close> has started the native thread.\<close>

definition life_start :: life_sys where
  "life_start = \<lparr>ls_native = NStart, ls_caller = CIdle,
     ls_life = \<lparr>lf_ctx = CONTEXT_RUNNING, lf_lock = False, lf_asleep = (\<lambda>_. False),
       lf_state = ABT_XSTREAM_STATE_RUNNING, lf_sched_done = False, lf_stop = False\<rparr>, ls_joined = False\<rparr>"

inductive life_reachable :: "(stream_call \<Rightarrow> life_sys \<Rightarrow> bool) \<Rightarrow> life_sys \<Rightarrow> bool" for allowed where
  init: "life_reachable allowed life_start"
| step: "life_reachable allowed S \<Longrightarrow> life_step allowed S S' \<Longrightarrow> life_reachable allowed S'"

inductive_cases life_stepE: "life_step allowed S S'"
inductive_cases life_movesE: "life_moves S S'"

section \<open>The invariant\<close>

fun native_holds :: "native_pc \<Rightarrow> bool" where
  "native_holds NDone = True" | "native_holds NCheck = True" | "native_holds _ = False"

fun caller_holds :: "caller_pc \<Rightarrow> bool" where
  "caller_holds (CJoinCheck free) = True" | "caller_holds (CJoinRecheck free) = True"
| "caller_holds CFreeSignal = True" | "caller_holds CReviveSignal = True" | "caller_holds _ = False"

text \<open>What the native thread's place says of the rest.\<close>

definition parked :: "native_pc \<Rightarrow> bool" where
  "parked n \<longleftrightarrow> n = NAsleep \<or> n = NCheck"

fun native_ok :: "native_pc \<Rightarrow> life \<Rightarrow> bool" where
  "native_ok NStart s \<longleftrightarrow> lf_ctx s = CONTEXT_RUNNING \<and> lf_state s = ABT_XSTREAM_STATE_RUNNING \<and> \<not> lf_sched_done s \<and> \<not> lf_asleep s Native"
| "native_ok NRootStart s \<longleftrightarrow> lf_ctx s = CONTEXT_RUNNING \<and> lf_state s = ABT_XSTREAM_STATE_RUNNING \<and> \<not> lf_sched_done s \<and> \<not> lf_asleep s Native"
| "native_ok NRoot s \<longleftrightarrow> lf_state s = ABT_XSTREAM_STATE_RUNNING \<and> \<not> lf_asleep s Native \<and>
     (lf_ctx s = CONTEXT_RUNNING \<or> lf_sched_done s \<and> lf_ctx s = CONTEXT_REQ_JOIN)"
| "native_ok NTerminate s \<longleftrightarrow> lf_state s = ABT_XSTREAM_STATE_RUNNING \<and> \<not> lf_asleep s Native \<and> lf_sched_done s \<and>
     lf_ctx s \<in> {CONTEXT_RUNNING, CONTEXT_REQ_JOIN}"
| "native_ok NLock s \<longleftrightarrow> lf_state s = ABT_XSTREAM_STATE_TERMINATED \<and> \<not> lf_asleep s Native \<and> lf_sched_done s \<and>
     lf_ctx s \<in> {CONTEXT_RUNNING, CONTEXT_REQ_JOIN}"
| "native_ok NDone s \<longleftrightarrow> lf_state s = ABT_XSTREAM_STATE_TERMINATED \<and> \<not> lf_asleep s Native \<and> lf_sched_done s \<and>
     lf_ctx s \<in> {CONTEXT_RUNNING, CONTEXT_REQ_JOIN}"
| "native_ok NAsleep s \<longleftrightarrow> lf_ctx s = CONTEXT_WAITING \<or> \<not> lf_asleep s Native \<and>
     (lf_ctx s = CONTEXT_RUNNING \<and> lf_state s = ABT_XSTREAM_STATE_RUNNING \<and> \<not> lf_sched_done s \<or> lf_ctx s = CONTEXT_REQ_TERMINATE)"
| "native_ok NCheck s \<longleftrightarrow> \<not> lf_asleep s Native \<and> (lf_ctx s = CONTEXT_WAITING \<or>
     lf_ctx s = CONTEXT_RUNNING \<and> lf_state s = ABT_XSTREAM_STATE_RUNNING \<and> \<not> lf_sched_done s \<or> lf_ctx s = CONTEXT_REQ_TERMINATE)"
| "native_ok NExited s \<longleftrightarrow> lf_ctx s = CONTEXT_REQ_TERMINATE \<and> \<not> lf_asleep s Native"

definition stream_ended :: "native_pc \<Rightarrow> life \<Rightarrow> bool" where
  "stream_ended n s \<longleftrightarrow> parked n \<and> lf_ctx s = CONTEXT_WAITING \<and> lf_state s = ABT_XSTREAM_STATE_TERMINATED \<and> lf_sched_done s"

text \<open>No request is pending.\<close>

definition settled :: "native_pc \<Rightarrow> life \<Rightarrow> bool \<Rightarrow> bool" where
  "settled n s joined \<longleftrightarrow> lf_ctx s \<noteq> CONTEXT_REQ_JOIN \<and> lf_ctx s \<noteq> CONTEXT_REQ_TERMINATE \<and>
     (lf_ctx s = CONTEXT_WAITING \<longrightarrow> stream_ended n s) \<and> (joined \<longrightarrow> stream_ended n s)"

definition reviving :: "native_pc \<Rightarrow> life \<Rightarrow> bool" where
  "reviving n s \<longleftrightarrow> parked n \<and> lf_ctx s = CONTEXT_WAITING \<and> \<not> lf_sched_done s"

text \<open>A caller that sleeps has its request pending; if it is not pending any more, it has been woken.\<close>

fun stream_caller_ok :: "caller_pc \<Rightarrow> native_pc \<Rightarrow> life \<Rightarrow> bool \<Rightarrow> bool" where
  "stream_caller_ok CIdle n s joined \<longleftrightarrow> settled n s joined"
| "stream_caller_ok (CJoinThread free) n s joined \<longleftrightarrow> lf_stop s \<and> settled n s joined"
| "stream_caller_ok (CJoinLock free) n s joined \<longleftrightarrow> lf_sched_done s \<and> settled n s joined"
| "stream_caller_ok (CJoinCheck free) n s joined \<longleftrightarrow> lf_sched_done s \<and> settled n s joined"
| "stream_caller_ok (CJoinAsleep free) n s joined \<longleftrightarrow> lf_sched_done s \<and> \<not> joined \<and>
     (lf_ctx s = CONTEXT_REQ_JOIN \<or> stream_ended n s \<and> \<not> lf_asleep s Caller)"
| "stream_caller_ok (CJoinRecheck free) n s joined \<longleftrightarrow> lf_sched_done s \<and> \<not> joined \<and> (lf_ctx s = CONTEXT_REQ_JOIN \<or> stream_ended n s)"
| "stream_caller_ok (CJoinAssert free) n s joined \<longleftrightarrow> stream_ended n s"
| "stream_caller_ok CFreeLock n s joined \<longleftrightarrow> stream_ended n s"
| "stream_caller_ok CFreeSignal n s joined \<longleftrightarrow> stream_ended n s"
| "stream_caller_ok CFreeWait n s joined \<longleftrightarrow> lf_ctx s = CONTEXT_REQ_TERMINATE"
| "stream_caller_ok CFreed n s joined \<longleftrightarrow> n = NExited"
| "stream_caller_ok CReviveThread n s joined \<longleftrightarrow> stream_ended n s \<and> \<not> joined"
| "stream_caller_ok CReviveState n s joined \<longleftrightarrow> \<not> joined \<and> reviving n s"
| "stream_caller_ok CReviveLock n s joined \<longleftrightarrow> \<not> joined \<and> reviving n s \<and> lf_state s = ABT_XSTREAM_STATE_RUNNING"
| "stream_caller_ok CReviveSignal n s joined \<longleftrightarrow> \<not> joined \<and> reviving n s \<and> lf_state s = ABT_XSTREAM_STATE_RUNNING"

fun sleeps_only :: "caller_pc \<Rightarrow> bool" where
  "sleeps_only (CJoinAsleep free) = True" | "sleeps_only _ = False"

definition life_inv :: "life_sys \<Rightarrow> bool" where
  "life_inv S \<longleftrightarrow> (let n = ls_native S; c = ls_caller S; s = ls_life S in
     lf_lock s = (native_holds n \<or> caller_holds c) \<and> \<not> (native_holds n \<and> caller_holds c) \<and>
     native_ok n s \<and> stream_caller_ok c n s (ls_joined S) \<and> (lf_asleep s Caller \<longrightarrow> sleeps_only c))"

lemma life_inv_start: "life_inv life_start"
  by (simp add: life_inv_def life_start_def settled_def)

lemma native_ok_frame [simp]:
  "native_ok n (s\<lparr>lf_lock := b\<rparr>) = native_ok n s" "native_ok n (s\<lparr>lf_stop := b\<rparr>) = native_ok n s"
  "stream_ended n (s\<lparr>lf_lock := b\<rparr>) = stream_ended n s" "stream_ended n (s\<lparr>lf_stop := b\<rparr>) = stream_ended n s"
  "settled n (s\<lparr>lf_lock := b\<rparr>) joined = settled n s joined" "settled n (s\<lparr>lf_stop := b\<rparr>) joined = settled n s joined"
  "reviving n (s\<lparr>lf_lock := b\<rparr>) = reviving n s" "reviving n (s\<lparr>lf_stop := b\<rparr>) = reviving n s"
  by (cases n; simp add: stream_ended_def settled_def reviving_def)+

lemma native_ok_woken:
  "native_ok n s \<Longrightarrow> native_ok n (s\<lparr>lf_asleep := (lf_asleep s)(x := False)\<rparr>)"
  by (cases n) auto

lemma stream_caller_ok_woken:
  "stream_caller_ok c n s j \<Longrightarrow> stream_caller_ok c n (s\<lparr>lf_asleep := (lf_asleep s)(x := False)\<rparr>) j"
  by (cases c) (auto simp: stream_ended_def settled_def reviving_def)

lemmas micro_defs = cond_wait_def cond_signal_def Let_def

lemma not_uninit: "native_ok n s \<Longrightarrow> lf_ctx s \<noteq> CONTEXT_UNINIT"
  by (cases n) auto

text \<open>What the steps of the native thread keep.\<close>

lemma native_keeps:
  assumes "xstream_context_thread_func pick n s = Moves (n', s')" "native_ok n s"
  shows "lf_stop s' = lf_stop s" "lf_sched_done s \<Longrightarrow> lf_sched_done s'" "stream_ended n s \<Longrightarrow> stream_ended n' s'"
    "reviving n s \<Longrightarrow> reviving n' s' \<and> lf_state s' = lf_state s"
    "settled n s joined \<Longrightarrow> settled n' s' joined"
    "lf_ctx s = CONTEXT_REQ_TERMINATE \<Longrightarrow> lf_ctx s' = CONTEXT_REQ_TERMINATE" "n \<noteq> NExited"
    "lf_asleep s' Caller \<Longrightarrow> lf_asleep s Caller"
  using assms by (cases n; auto simp: micro_defs stream_ended_def settled_def reviving_def parked_def split: if_splits)+

lemma native_keeps_request:
  assumes "xstream_context_thread_func pick n s = Moves (n', s')" "native_ok n s" "lf_ctx s = CONTEXT_REQ_JOIN"
  shows "lf_ctx s' = CONTEXT_REQ_JOIN \<or> stream_ended n' s' \<and> \<not> lf_asleep s' Caller"
  using assms by (cases n; cases pick; auto simp: micro_defs stream_ended_def parked_def split: if_splits)

lemma native_lock:
  assumes "xstream_context_thread_func pick n s = Moves (n', s')" "lf_lock s = (native_holds n \<or> h)" "\<not> (native_holds n \<and> h)"
  shows "lf_lock s' = (native_holds n' \<or> h) \<and> \<not> (native_holds n' \<and> h)"
  using assms by (cases n; auto simp: micro_defs split: if_splits)

lemma native_keeps_ok:
  assumes "xstream_context_thread_func pick n s = Moves (n', s')" "native_ok n s"
  shows "native_ok n' s'"
  using assms by (cases n; auto simp: micro_defs split: if_splits)

lemma native_keeps_caller:
  assumes "xstream_context_thread_func pick n s = Moves (n', s')" "native_ok n s" "stream_caller_ok c n s j"
  shows "stream_caller_ok c n' s' j"
  using assms(3) native_keeps [OF assms(1,2)] native_keeps_request [OF assms(1,2)]
  by (cases c) auto

lemma native_inv: "life_inv S \<Longrightarrow> native_step pick S = Moves S' \<Longrightarrow> life_inv S'"
  unfolding life_inv_def Let_def native_step_def
  using native_lock [of pick "ls_native S" "ls_life S" _ _ "caller_holds (ls_caller S)"]
    native_keeps_ok [of pick "ls_native S" "ls_life S"] native_keeps(8) [of pick "ls_native S" "ls_life S"]
    native_keeps_caller [of pick "ls_native S" "ls_life S" _ _ "ls_caller S" "ls_joined S"]
  by (auto split: micro.splits)

text \<open>What the steps of the caller keep.\<close>

lemma caller_lock:
  assumes "caller_micro pick ex c s = Moves (c', s')" "lf_lock s = (h \<or> caller_holds c)" "\<not> (h \<and> caller_holds c)"
  shows "lf_lock s' = (h \<or> caller_holds c') \<and> \<not> (h \<and> caller_holds c')"
  using assms by (cases c; auto simp: micro_defs split: if_splits)

lemma caller_sleeps:
  assumes "caller_micro pick ex c s = Moves (c', s')" "lf_asleep s Caller \<longrightarrow> sleeps_only c"
  shows "lf_asleep s' Caller \<longrightarrow> sleeps_only c'"
  using assms by (cases c; cases pick; auto simp: micro_defs split: if_splits)

lemma caller_keeps:
  assumes "caller_micro pick (n = NExited) c s = Moves (c', s')" "native_ok n s" "stream_caller_ok c n s j"
    "lf_asleep s Caller \<longrightarrow> sleeps_only c"
  shows "native_ok n s' \<and> stream_caller_ok c' n s' (j \<or> joins_now c)"
proof (cases c)
  case (CJoinCheck free)
  then show ?thesis
    using assms by (cases n) (auto simp: micro_defs settled_def stream_ended_def parked_def split: if_splits)
next
  case (CJoinRecheck free)
  then show ?thesis
    using assms by (cases n) (auto simp: micro_defs settled_def stream_ended_def parked_def split: if_splits)
next
  case CFreeSignal
  then show ?thesis
    using assms by (cases n; cases pick) (auto simp: micro_defs settled_def stream_ended_def parked_def split: if_splits)
next
  case CReviveSignal
  then show ?thesis
    using assms by (cases n; cases pick) (auto simp: micro_defs settled_def stream_ended_def reviving_def parked_def split: if_splits)
next
  case CReviveThread
  then show ?thesis
    using assms by (cases n) (auto simp: stream_ended_def reviving_def parked_def)
next
  case CReviveState
  then show ?thesis
    using assms by (cases n) (auto simp: reviving_def parked_def)
qed (use assms in \<open>auto simp: settled_def stream_ended_def split: if_splits\<close>)

lemma caller_inv:
  assumes "life_inv S" "caller_step pick S = Moves S'"
  shows "life_inv S'"
proof -
  obtain c s where m: "caller_micro pick (ls_native S = NExited) (ls_caller S) (ls_life S) = Moves (c, s)"
    and S': "S' = S\<lparr>ls_caller := c, ls_life := s, ls_joined := ls_joined S \<or> joins_now (ls_caller S)\<rparr>"
    using assms(2) by (auto simp: caller_step_def split: micro.splits)
  have i: "lf_lock (ls_life S) = (native_holds (ls_native S) \<or> caller_holds (ls_caller S))"
    "\<not> (native_holds (ls_native S) \<and> caller_holds (ls_caller S))" "native_ok (ls_native S) (ls_life S)"
    "stream_caller_ok (ls_caller S) (ls_native S) (ls_life S) (ls_joined S)"
    "lf_asleep (ls_life S) Caller \<longrightarrow> sleeps_only (ls_caller S)"
    using assms(1) by (simp_all add: life_inv_def Let_def)
  show ?thesis
    using caller_lock [OF m i(1,2)] caller_sleeps [OF m i(5)] caller_keeps [OF m i(3,4,5)]
    by (simp add: S' life_inv_def Let_def)
qed

lemma call_inv:
  assumes "life_inv S" "ls_caller S = CIdle" "by_the_rules call S" "start_call call (ls_life S) = (c, s)"
  shows "life_inv (S\<lparr>ls_caller := c, ls_life := s, ls_joined := ls_joined S \<and> call \<noteq> Revive\<rparr>)"
  using assms by (cases call) (auto simp: life_inv_def Let_def by_the_rules_def settled_def stream_ended_def split: if_splits)

lemma spurious_inv:
  "life_inv S \<Longrightarrow> life_inv (S\<lparr>ls_life := (ls_life S)\<lparr>lf_asleep := (lf_asleep (ls_life S))(x := False)\<rparr>\<rparr>)"
  by (auto simp: life_inv_def Let_def native_ok_woken stream_caller_ok_woken)

lemma life_reachable_inv: "life_reachable by_the_rules S \<Longrightarrow> life_inv S"
proof (induction rule: life_reachable.induct)
  case (step S S')
  from step.hyps(2) step.IH show ?case
    by (cases rule: life_step.cases) (auto elim!: life_movesE intro: native_inv caller_inv call_inv spurious_inv)
qed (rule life_inv_start)

section \<open>Safety and progress\<close>

lemma no_assertion_fails:
  assumes "life_inv S"
  shows "native_step pick S \<noteq> Fails" "caller_step pick S \<noteq> Fails"
proof -
  have i: "native_ok (ls_native S) (ls_life S)" "stream_caller_ok (ls_caller S) (ls_native S) (ls_life S) (ls_joined S)"
    using assms by (simp_all add: life_inv_def Let_def)
  show "native_step pick S \<noteq> Fails"
    using i(1) by (cases "ls_native S") (auto simp: native_step_def micro_defs)
  show "caller_step pick S \<noteq> Fails"
    using i not_uninit [OF i(1)]
    by (cases "ls_caller S"; cases "lf_ctx (ls_life S)") (auto simp: caller_step_def micro_defs settled_def stream_ended_def reviving_def)
qed

text \<open>After a join, and until a revival, the stream is terminated and its native thread is parked.\<close>

lemma joined_ended: "life_inv S \<Longrightarrow> ls_joined S \<Longrightarrow> ls_caller S = CIdle \<Longrightarrow> stream_ended (ls_native S) (ls_life S)"
  by (simp add: life_inv_def Let_def settled_def)

text \<open>
  While a call is going on, one of the two sides can move without waiting for a spurious wake-up:
  no wake-up is lost.
\<close>

fun in_call :: "caller_pc \<Rightarrow> bool" where
  "in_call CIdle = False" | "in_call CFreed = False" | "in_call _ = True"

lemma native_waits:
  assumes "native_step Native S = Spins" "native_ok n s" "ls_native S = n" "ls_life S = s"
  shows "n = NRoot \<and> \<not> lf_sched_done s \<and> \<not> lf_stop s \<or> n = NLock \<and> lf_lock s \<or>
    n = NAsleep \<and> (lf_asleep s Native \<or> lf_lock s) \<or> n = NExited"
  using assms by (cases n) (auto simp: native_step_def micro_defs split: if_splits)

lemma somebody_moves:
  assumes "life_inv S" "in_call (ls_caller S)"
  shows "\<exists>S'. life_moves S S'"
proof (rule ccontr)
  assume stuck: "\<nexists>S'. life_moves S S'"
  let ?n = "ls_native S" and ?c = "ls_caller S" and ?s = "ls_life S"
  have "native_step Native S = Spins"
    using stuck no_assertion_fails(1) [OF assms(1), of Native] by (cases "native_step Native S") (auto intro: life_moves.native)
  moreover have c: "caller_step Native S = Spins"
    using stuck no_assertion_fails(2) [OF assms(1), of Native] by (cases "caller_step Native S") (auto intro: life_moves.caller)
  moreover have inv: "native_ok ?n ?s" "stream_caller_ok ?c ?n ?s (ls_joined S)" "lf_lock ?s = (native_holds ?n \<or> caller_holds ?c)"
    using assms(1) by (simp_all add: life_inv_def Let_def)
  ultimately have n: "?n = NRoot \<and> \<not> lf_sched_done ?s \<and> \<not> lf_stop ?s \<or> ?n = NLock \<and> lf_lock ?s \<or>
    ?n = NAsleep \<and> (lf_asleep ?s Native \<or> lf_lock ?s) \<or> ?n = NExited"
    by (intro native_waits) simp_all
  show False
    using n c inv assms(2)
    by (cases ?c) (auto simp: caller_step_def micro_defs settled_def stream_ended_def reviving_def parked_def split: if_splits)
qed

text \<open>
  Every move during a call brings its end closer, so without spurious wake-ups a call returns after
  a bounded number of moves. (A spurious wake-up costs at most four more.)
\<close>

fun native_left :: "native_pc \<Rightarrow> life \<Rightarrow> nat" where
  "native_left NStart s = 20" | "native_left NRootStart s = 19"
| "native_left NRoot s = (if lf_sched_done s then 17 else 18)"
| "native_left NTerminate s = 16" | "native_left NLock s = 15" | "native_left NDone s = 14"
| "native_left NAsleep s = (if lf_ctx s = CONTEXT_RUNNING then 22 else if lf_asleep s Native then 1 else 3)"
| "native_left NCheck s = (if lf_ctx s = CONTEXT_RUNNING then 21 else 2)"
| "native_left NExited s = 0"

fun caller_left :: "caller_pc \<Rightarrow> life \<Rightarrow> nat" where
  "caller_left (CJoinThread free) s = 40" | "caller_left (CJoinLock free) s = 36"
| "caller_left (CJoinCheck free) s = 32" | "caller_left (CJoinAsleep free) s = (if lf_asleep s Caller then 20 else 24)"
| "caller_left (CJoinRecheck free) s = 22" | "caller_left (CJoinAssert free) s = 12"
| "caller_left CFreeLock s = 10" | "caller_left CFreeSignal s = 8" | "caller_left CFreeWait s = 1"
| "caller_left CReviveThread s = 8" | "caller_left CReviveState s = 6" | "caller_left CReviveLock s = 4"
| "caller_left CReviveSignal s = 2" | "caller_left _ s = 0"

definition moves_left :: "life_sys \<Rightarrow> nat" where
  "moves_left S = (if in_call (ls_caller S)
     then 1 + native_left (ls_native S) (ls_life S) + caller_left (ls_caller S) (ls_life S) else 0)"

lemma native_left_less:
  assumes "xstream_context_thread_func pick n s = Moves (n', s')" "native_ok n s" "stream_caller_ok c n s j"
  shows "native_left n' s' + caller_left c s' < native_left n s + caller_left c s"
proof -
  have "caller_left c s' \<le> caller_left c s + (if n = NDone then 4 else 0)"
    using assms(1) by (cases n; cases c) (auto simp: micro_defs split: if_splits)
  moreover have "native_left n' s' + (if n = NDone then 4 else 0) < native_left n s"
    using assms(1,2) by (cases n) (auto simp: micro_defs split: if_splits)
  ultimately show ?thesis
    by linarith
qed

lemma caller_left_less:
  assumes "caller_micro pick (n = NExited) c s = Moves (c', s')" "native_ok n s" "stream_caller_ok c n s j" "in_call c'"
  shows "native_left n s' + caller_left c' s' < native_left n s + caller_left c s"
proof (cases "n = NAsleep \<or> n = NCheck \<or> n = NRoot")
  case True
  then show ?thesis
    using assms by (elim disjE; cases c) (auto simp: micro_defs settled_def stream_ended_def reviving_def parked_def split: if_splits)
next
  case False
  then have "native_left n s' = native_left n s"
    by (cases n) auto
  then show ?thesis
    using assms by (cases c) (auto simp: micro_defs split: if_splits)
qed

lemma moves_left_less:
  assumes "life_inv S" "in_call (ls_caller S)" "life_moves S S'"
  shows "moves_left S' < moves_left S"
proof -
  have i: "native_ok (ls_native S) (ls_life S)" "stream_caller_ok (ls_caller S) (ls_native S) (ls_life S) (ls_joined S)"
    using assms(1) by (simp_all add: life_inv_def Let_def)
  from assms(3) show ?thesis
  proof cases
    case (native pick)
    then obtain n s where m: "xstream_context_thread_func pick (ls_native S) (ls_life S) = Moves (n, s)"
      and S': "S' = S\<lparr>ls_native := n, ls_life := s\<rparr>"
      by (auto simp: native_step_def split: micro.splits)
    show ?thesis
      using native_left_less [OF m i] assms(2) by (simp add: moves_left_def S')
  next
    case (caller pick)
    then obtain c s where m: "caller_micro pick (ls_native S = NExited) (ls_caller S) (ls_life S) = Moves (c, s)"
      and S': "S' = S\<lparr>ls_caller := c, ls_life := s, ls_joined := ls_joined S \<or> joins_now (ls_caller S)\<rparr>"
      by (auto simp: caller_step_def split: micro.splits)
    show ?thesis
      using caller_left_less [OF m i] assms(2) by (cases "in_call c") (simp_all add: moves_left_def S')
  qed
qed

lemma call_returns:
  assumes "life_inv S"
  shows "\<exists>S'. life_moves\<^sup>*\<^sup>* S S' \<and> \<not> in_call (ls_caller S')"
  using assms
proof (induction "moves_left S" arbitrary: S rule: less_induct)
  case less
  show ?case
  proof (cases "in_call (ls_caller S)")
    case True
    then obtain S1 where S1: "life_moves S S1"
      using somebody_moves [OF less.prems] by blast
    moreover have "life_inv S1"
      using S1 less.prems by (auto elim!: life_movesE intro: native_inv caller_inv)
    ultimately obtain S' where "life_moves\<^sup>*\<^sup>* S1 S'" "\<not> in_call (ls_caller S')"
      using less.hyps [OF moves_left_less [OF less.prems True S1]] by blast
    then show ?thesis
      using converse_rtranclp_into_rtranclp [of life_moves, OF S1] by blast
  qed blast
qed

section \<open>Reviving too early\<close>

text \<open>
  \<^verbatim>\<open>ABT_xstream_revive\<close> checks the state of the main scheduler's ULT only. Between the end of this ULT
  and the end of the stream it goes on, and finds the native thread still running.
\<close>

lemma reach_native: "life_reachable a S \<Longrightarrow> native_step Native S = Moves S' \<Longrightarrow> life_reachable a S'"
  by (blast intro: life_reachable.step life_step.moves life_moves.native)

lemma reach_caller: "life_reachable a S \<Longrightarrow> caller_step Native S = Moves S' \<Longrightarrow> life_reachable a S'"
  by (blast intro: life_reachable.step life_step.moves life_moves.caller)

lemma reach_call:
  "life_reachable a S \<Longrightarrow> ls_caller S = CIdle \<Longrightarrow> a call S \<Longrightarrow> start_call call (ls_life S) = (c, s) \<Longrightarrow>
   life_reachable a (S\<lparr>ls_caller := c, ls_life := s, ls_joined := ls_joined S \<and> call \<noteq> Revive\<rparr>)"
  by (blast intro: life_reachable.step life_step.call)

lemma revive_fails_unjoined: "\<exists>S. life_reachable (\<lambda>_ _. True) S \<and> caller_step Native S = Fails"
proof -
  define s0 :: life where "s0 = \<lparr>lf_ctx = CONTEXT_RUNNING, lf_lock = False, lf_asleep = (\<lambda>_. False),
    lf_state = ABT_XSTREAM_STATE_RUNNING, lf_sched_done = False, lf_stop = False\<rparr>"
  let ?at = "\<lambda>n c s. \<lparr>ls_native = n, ls_caller = c, ls_life = s, ls_joined = False\<rparr>"
  let ?reach = "life_reachable (\<lambda>_ _. True)"
  have "?reach (?at NStart CIdle s0)"
    using life_reachable.init by (simp add: life_start_def s0_def)
  then have "?reach (?at NStart CIdle (s0\<lparr>lf_stop := True\<rparr>))"
    using reach_call [of "\<lambda>_ _. True" "?at NStart CIdle s0" Cancel] by simp
  then have "?reach (?at NRootStart CIdle (s0\<lparr>lf_stop := True\<rparr>))"
    by (rule reach_native) (simp add: native_step_def s0_def)
  then have "?reach (?at NRoot CIdle (s0\<lparr>lf_stop := True\<rparr>))"
    by (rule reach_native) (simp add: native_step_def s0_def)
  then have "?reach (?at NRoot CIdle (s0\<lparr>lf_stop := True, lf_sched_done := True\<rparr>))"
    by (rule reach_native) (simp add: native_step_def s0_def)
  then have "?reach (?at NRoot CReviveThread (s0\<lparr>lf_stop := True, lf_sched_done := True\<rparr>))"
    using reach_call [of "\<lambda>_ _. True" "?at NRoot CIdle (s0\<lparr>lf_stop := True, lf_sched_done := True\<rparr>)" Revive] by simp
  then have "?reach (?at NRoot CReviveState s0)"
    by (rule reach_caller) (simp add: caller_step_def s0_def)
  then have "?reach (?at NRoot CReviveLock s0)"
    by (rule reach_caller) (simp add: caller_step_def s0_def)
  then have "?reach (?at NRoot CReviveSignal (s0\<lparr>lf_lock := True\<rparr>))"
    by (rule reach_caller) (simp add: caller_step_def s0_def)
  then show ?thesis
    by (intro exI conjI) (assumption, simp add: caller_step_def s0_def)
qed

end
