(* ===== verification/Streams.thy ===== *)
theory Streams
  imports StreamRank StreamLife SchedRefs
begin

text \<open>
  Execution streams as objects (\<^verbatim>\<open>stream.c\<close>): creation with its stages and the clean-up of a failed
  one, freeing, joining and reviving, the main scheduler and its replacement, the queries.
  \<open>xw_held\<close> is the set of parts that are allocated; releasing one that is not is \<open>None\<close>. Ranks are
  those of theory StreamRank, schedulers and pools those of SchedCore. The constructors of the parts
  succeed or return an error, which is the argument \<open>E\<close>. A join returns when the stream has ended
  (theory StreamLife); here its end is part of the join.
\<close>

section \<open>State\<close>

datatype xstream_type = ABTI_XSTREAM_TYPE_PRIMARY | ABTI_XSTREAM_TYPE_SECONDARY

datatype xs_part = PObject | PLocal_memory | PRoot_ythread | PRoot_pool | PSched_ythread | PContext

type_synonym sched_id = nat

record xstream =
  xo_type :: xstream_type
  xo_state :: xstream_state
  xo_main_sched :: "sched_id option"
  xo_replace :: "(sched_id \<times> thread_ptr) option"

record 'd xs_world =
  xw_list :: xs_state
  xw_obj :: "xstream_ptr \<Rightarrow> xstream option"
  xw_held :: "(xstream_ptr \<times> xs_part) set"
  xw_sched :: "sched_id \<Rightarrow> 'd sched option"
  xw_pools :: pool_table

text \<open>The address of the new object, if there is memory, and what the constructors return.\<close>

record part_env =
  ne_object :: "xstream_ptr option"
  ne_local :: abt_errno
  ne_root :: abt_errno
  ne_root_pool :: abt_errno
  ne_sched_ythread :: abt_errno
  ne_context :: abt_errno
  ne_sched_thread :: thread_ptr

definition hold :: "xstream_ptr \<Rightarrow> xs_part \<Rightarrow> 'd xs_world \<Rightarrow> 'd xs_world" where
  "hold x part w = w\<lparr>xw_held := insert (x, part) (xw_held w)\<rparr>"

definition release :: "xstream_ptr \<Rightarrow> xs_part \<Rightarrow> 'd xs_world \<Rightarrow> 'd xs_world option" where
  "release x part w = (if (x, part) \<in> xw_held w then Some (w\<lparr>xw_held := xw_held w - {(x, part)}\<rparr>) else None)"

definition with_sched :: "sched_id \<Rightarrow> ('d sched \<Rightarrow> 'd sched) \<Rightarrow> 'd xs_world \<Rightarrow> 'd xs_world option" where
  "with_sched sid f w = do {
     s \<leftarrow> xw_sched w sid;
     Some (w\<lparr>xw_sched := (xw_sched w)(sid \<mapsto> f s)\<rparr>) }"

definition with_xstream :: "xstream_ptr \<Rightarrow> (xstream \<Rightarrow> xstream) \<Rightarrow> 'd xs_world \<Rightarrow> 'd xs_world option" where
  "with_xstream x f w = do {
     ob \<leftarrow> xw_obj w x;
     Some (w\<lparr>xw_obj := (xw_obj w)(x \<mapsto> f ob)\<rparr>) }"

section \<open>Creation\<close>

definition xstream_init_main_sched :: "xstream_ptr \<Rightarrow> sched_id \<Rightarrow> 'd xs_world \<Rightarrow> 'd xs_world option" where
  "xstream_init_main_sched x sid w = do {
     ob \<leftarrow> xw_obj w x;
     if xo_main_sched ob \<noteq> None then None
     else do {
       w \<leftarrow> with_sched sid (\<lambda>s. s\<lparr>sc_used := ABTI_SCHED_MAIN\<rparr>) w;
       with_xstream x (\<lambda>ob. ob\<lparr>xo_main_sched := Some sid\<rparr>) w } }"

definition return_rank :: "xstream_ptr \<Rightarrow> 'd xs_world \<Rightarrow> 'd xs_world option" where
  "return_rank x w = do {
     l \<leftarrow> xstream_return_rank x (xw_list w);
     Some (w\<lparr>xw_list := l\<rparr>) }"

definition free_object :: "xstream_ptr \<Rightarrow> 'd xs_world \<Rightarrow> 'd xs_world option" where
  "free_object x w = do {
     w \<leftarrow> release x PObject w;
     Some (w\<lparr>xw_obj := (xw_obj w)(x := None)\<rparr>) }"

text \<open>The clean-up behind \<^verbatim>\<open>FAILED\<close>.\<close>

definition undo_create :: "nat \<Rightarrow> xstream_ptr \<Rightarrow> sched_id \<Rightarrow> 'd xs_world \<Rightarrow> 'd xs_world option" where
  "undo_create init_stage x sid w = do {
     w \<leftarrow> (if 5 \<le> init_stage then do {
             w \<leftarrow> release x PSched_ythread w;
             with_sched sid (\<lambda>s. s\<lparr>sc_ythread := None\<rparr>) w }
           else Some w);
     w \<leftarrow> (if 4 \<le> init_stage then release x PRoot_pool w else Some w);
     w \<leftarrow> (if 3 \<le> init_stage then release x PRoot_ythread w else Some w);
     w \<leftarrow> (if 2 \<le> init_stage then do {
             w \<leftarrow> with_sched sid (\<lambda>s. s\<lparr>sc_used := ABTI_SCHED_NOT_USED\<rparr>) w;
             release x PLocal_memory w }
           else Some w);
     w \<leftarrow> (if 1 \<le> init_stage then return_rank x w else Some w);
     free_object x w }"

definition create_failed :: "abt_errno \<Rightarrow> nat \<Rightarrow> xstream_ptr \<Rightarrow> sched_id \<Rightarrow> 'd xs_world \<Rightarrow> (abt_errno \<times> xstream_ptr option \<times> 'd xs_world) option" where
  "create_failed err init_stage x sid w = map_option (\<lambda>w. (err, None, w)) (undo_create init_stage x sid w)"

definition xstream_create ::
    "part_env \<Rightarrow> sched_id \<Rightarrow> xstream_type \<Rightarrow> int \<Rightarrow> bool \<Rightarrow> 'd xs_world \<Rightarrow> (abt_errno \<times> xstream_ptr option \<times> 'd xs_world) option" where
  "xstream_create E sid ty rank start w = (case ne_object E of
     None \<Rightarrow> Some (ABT_ERR_MEM, None, w)
   | Some x \<Rightarrow> do {
       let w = hold x PObject w;
       (ranked, l) \<leftarrow> run_rank_op (RNew x rank) (xw_list w);
       let w = w\<lparr>xw_list := l\<rparr>;
       if \<not> ranked then create_failed ABT_ERR_INV_XSTREAM_RANK 0 x sid w
       else do {
         let w = w\<lparr>xw_obj := (xw_obj w)(x \<mapsto> \<lparr>xo_type = ty, xo_state = ABT_XSTREAM_STATE_RUNNING,
                xo_main_sched = None, xo_replace = None\<rparr>)\<rparr>;
         if ne_local E \<noteq> ABT_SUCCESS then create_failed (ne_local E) 1 x sid w
         else do {
           w \<leftarrow> xstream_init_main_sched x sid (hold x PLocal_memory w);
           if ne_root E \<noteq> ABT_SUCCESS then create_failed (ne_root E) 2 x sid w
           else let w = hold x PRoot_ythread w in
             if ne_root_pool E \<noteq> ABT_SUCCESS then create_failed (ne_root_pool E) 3 x sid w
             else let w = hold x PRoot_pool w in
               if ne_sched_ythread E \<noteq> ABT_SUCCESS then create_failed (ne_sched_ythread E) 4 x sid w
               else do {
                 w \<leftarrow> with_sched sid (\<lambda>s. s\<lparr>sc_ythread := Some (ne_sched_thread E)\<rparr>) (hold x PSched_ythread w);
                 if start then
                   if ty = ABTI_XSTREAM_TYPE_PRIMARY then None
                   else if ne_context E \<noteq> ABT_SUCCESS then create_failed (ne_context E) 5 x sid w
                   else Some (ABT_SUCCESS, Some x, hold x PContext w)
                 else Some (ABT_SUCCESS, Some x, w) } } } })"

text \<open>
  The scheduler a NULL argument stands for: what \<^verbatim>\<open>ABTI_sched_create_basic\<close> needs to create it, and
  its address.
\<close>

record 'd default_env =
  dv_id :: sched_id
  dv_malloc0 :: bool
  dv_malloc1 :: bool
  dv_malloc2 :: bool
  dv_alloc :: "nat \<Rightarrow> nat option"
  dv_def :: "ABT_sched_predef \<Rightarrow> 'd sched_def"

definition basic_sched ::
    "'d default_env \<Rightarrow> ABT_sched_predef \<Rightarrow> nat option list option \<Rightarrow> config option \<Rightarrow> 'd xs_world \<Rightarrow> (abt_errno \<times> 'd xs_world) option" where
  "basic_sched D predef pools config w = do {
     (err, s, T) \<leftarrow> ABTI_sched_create_basic (dv_malloc0 D) (dv_malloc1 D) (dv_malloc2 D) (dv_alloc D) (dv_def D)
        predef pools config (xw_pools w);
     let w = w\<lparr>xw_pools := T\<rparr>;
     if err \<noteq> ABT_SUCCESS then Some (err, w)
     else do { s \<leftarrow> s; Some (ABT_SUCCESS, w\<lparr>xw_sched := (xw_sched w)(dv_id D \<mapsto> s)\<rparr>) } }"

definition default_sched :: "'d default_env \<Rightarrow> 'd xs_world \<Rightarrow> (abt_errno \<times> 'd xs_world) option" where
  "default_sched D w = basic_sched D ABT_SCHED_DEFAULT None None w"

definition free_sched :: "sched_id \<Rightarrow> bool \<Rightarrow> 'd xs_world \<Rightarrow> 'd xs_world option" where
  "free_sched sid force_free w = do {
     s \<leftarrow> xw_sched w sid;
     T \<leftarrow> ABTI_sched_free s force_free (xw_pools w);
     Some (w\<lparr>xw_pools := T, xw_sched := (xw_sched w)(sid := None)\<rparr>) }"

text \<open>What \<^verbatim>\<open>ABT_xstream_create\<close> and \<^verbatim>\<open>ABT_xstream_create_with_rank\<close> share.\<close>

definition create_on_sched ::
    "part_env \<Rightarrow> 'd default_env \<Rightarrow> sched_id option \<Rightarrow> int \<Rightarrow> 'd xs_world \<Rightarrow> (abt_errno \<times> xstream_ptr option \<times> 'd xs_world) option" where
  "create_on_sched E D sched rank w = (case sched of
     None \<Rightarrow> do {
       (err, w) \<leftarrow> default_sched D w;
       if err \<noteq> ABT_SUCCESS then Some (err, None, w)
       else do {
         (err, x, w) \<leftarrow> xstream_create E (dv_id D) ABTI_XSTREAM_TYPE_SECONDARY rank True w;
         if err \<noteq> ABT_SUCCESS then do { w \<leftarrow> free_sched (dv_id D) False w; Some (err, None, w) }
         else Some (ABT_SUCCESS, x, w) } }
   | Some sid \<Rightarrow> do {
       s \<leftarrow> xw_sched w sid;
       if sc_used s \<noteq> ABTI_SCHED_NOT_USED then Some (ABT_ERR_INV_SCHED, None, w)
       else xstream_create E sid ABTI_XSTREAM_TYPE_SECONDARY rank True w })"

definition ABT_xstream_create where
  "ABT_xstream_create E D sched w = create_on_sched E D sched (-1) w"

definition ABT_xstream_create_with_rank where
  "ABT_xstream_create_with_rank E D sched rank w =
     (if rank < 0 then Some (ABT_ERR_INV_XSTREAM_RANK, None, w) else create_on_sched E D sched rank w)"

text \<open>
  Predefined schedulers. When the stream cannot be created, the pools the caller gave are released
  and taken out of the scheduler, so that freeing it does not free them. A list stands for the
  array and its length.
\<close>

fun release_given :: "nat option list \<Rightarrow> nat option list \<Rightarrow> pool_table \<Rightarrow> (nat option list \<times> pool_table) option" where
  "release_given (None # pools) (q # qs) T = do { (qs, T) \<leftarrow> release_given pools qs T; Some (q # qs, T) }"
| "release_given (Some _ # pools) (Some q # qs) T = do {
     (_, T) \<leftarrow> ABTI_pool_release q T;
     (qs, T) \<leftarrow> release_given pools qs T;
     Some (None # qs, T) }"
| "release_given [] qs T = Some (qs, T)"
| "release_given _ _ T = None"

definition give_up_sched :: "nat option list option \<Rightarrow> sched_id \<Rightarrow> 'd xs_world \<Rightarrow> 'd xs_world option" where
  "give_up_sched pools sid w = do {
     s \<leftarrow> xw_sched w sid;
     (qs, T) \<leftarrow> release_given (case pools of None \<Rightarrow> [] | Some ps \<Rightarrow> ps) (sc_pools s) (xw_pools w);
     w \<leftarrow> with_sched sid (\<lambda>s. s\<lparr>sc_pools := qs\<rparr>) (w\<lparr>xw_pools := T\<rparr>);
     free_sched sid False w }"

definition ABT_xstream_create_basic ::
    "part_env \<Rightarrow> 'd default_env \<Rightarrow> ABT_sched_predef \<Rightarrow> int \<Rightarrow> nat option list option \<Rightarrow> config option \<Rightarrow> 'd xs_world
     \<Rightarrow> (abt_errno \<times> xstream_ptr option \<times> 'd xs_world) option" where
  "ABT_xstream_create_basic E D predef num_pools pools config w =
     (if num_pools < 0 then Some (ABT_ERR_INV_ARG, None, w)
      else do {
        let pools = map_option (take (nat num_pools)) pools;
        (err, w) \<leftarrow> basic_sched D predef pools config w;
        if err \<noteq> ABT_SUCCESS then Some (err, None, w)
        else do {
          (err, x, w) \<leftarrow> xstream_create E (dv_id D) ABTI_XSTREAM_TYPE_SECONDARY (-1) True w;
          if err \<noteq> ABT_SUCCESS then do { w \<leftarrow> give_up_sched pools (dv_id D) w; Some (err, None, w) }
          else Some (ABT_SUCCESS, x, w) } })"

text \<open>The primary stream; its default scheduler is freed with its pool if the creation fails.\<close>

definition ABTI_xstream_create_primary ::
    "part_env \<Rightarrow> 'd default_env \<Rightarrow> 'd xs_world \<Rightarrow> (abt_errno \<times> xstream_ptr option \<times> 'd xs_world) option" where
  "ABTI_xstream_create_primary E D w = do {
     (err, w) \<leftarrow> default_sched D w;
     if err \<noteq> ABT_SUCCESS then Some (err, None, w)
     else do {
       (err, x, w) \<leftarrow> xstream_create E (dv_id D) ABTI_XSTREAM_TYPE_PRIMARY (-1) False w;
       if err \<noteq> ABT_SUCCESS then do { w \<leftarrow> free_sched (dv_id D) True w; Some (err, None, w) }
       else Some (ABT_SUCCESS, x, w) } }"

section \<open>The end of a stream\<close>

text \<open>The parts that \<^verbatim>\<open>ABTI_sched_discard_and_free\<close> and \<^verbatim>\<open>ABTI_sched_free\<close> release, and the stream's own.\<close>

definition discard_and_free_sched :: "xstream_ptr \<Rightarrow> sched_id \<Rightarrow> bool \<Rightarrow> 'd xs_world \<Rightarrow> 'd xs_world option" where
  "discard_and_free_sched x sid force_free w = do {
     w \<leftarrow> with_sched sid (\<lambda>s. s\<lparr>sc_used := ABTI_SCHED_NOT_USED\<rparr>) w;
     s \<leftarrow> xw_sched w sid;
     w \<leftarrow> (if sc_automatic s \<or> force_free then free_sched sid force_free w else Some w);
     if sc_ythread s \<noteq> None then do {
       w \<leftarrow> release x PSched_ythread w;
       if sc_automatic s \<or> force_free then Some w else with_sched sid (\<lambda>s. s\<lparr>sc_ythread := None\<rparr>) w }
     else Some w }"

definition ABTI_xstream_free :: "xstream_ptr \<Rightarrow> bool \<Rightarrow> 'd xs_world \<Rightarrow> 'd xs_world option" where
  "ABTI_xstream_free x force_free w = do {
     ob \<leftarrow> xw_obj w x;
     w \<leftarrow> release x PLocal_memory w;
     w \<leftarrow> return_rank x w;
     w \<leftarrow> (case xo_main_sched ob of None \<Rightarrow> Some w | Some sid \<Rightarrow> discard_and_free_sched x sid force_free w);
     w \<leftarrow> release x PRoot_ythread w;
     w \<leftarrow> release x PRoot_pool w;
     w \<leftarrow> (if xo_type ob = ABTI_XSTREAM_TYPE_SECONDARY then release x PContext w else Some w);
     free_object x w }"

text \<open>\<open>self\<close> is the stream of the caller with its current work unit.\<close>

definition xstream_join :: "(xstream_ptr \<times> thread_ptr) option \<Rightarrow> xstream_ptr \<Rightarrow> 'd xs_world \<Rightarrow> (abt_errno \<times> 'd xs_world) option" where
  "xstream_join self x w = do {
     ob \<leftarrow> xw_obj w x;
     if xo_type ob = ABTI_XSTREAM_TYPE_PRIMARY then Some (ABT_ERR_INV_XSTREAM, w)
     else do {
       sid \<leftarrow> xo_main_sched ob;
       s \<leftarrow> xw_sched w sid;
       if self \<noteq> None \<and> map_option snd self = sc_ythread s then Some (ABT_ERR_INV_XSTREAM, w)
       else do {
         w \<leftarrow> with_sched sid ABTI_sched_finish w;
         w \<leftarrow> with_xstream x (\<lambda>ob. ob\<lparr>xo_state := ABT_XSTREAM_STATE_TERMINATED\<rparr>) w;
         Some (ABT_SUCCESS, w) } } }"

definition ABT_xstream_join where
  "ABT_xstream_join self x w = (case x of
     None \<Rightarrow> Some (ABT_ERR_INV_XSTREAM, w) | Some x \<Rightarrow> xstream_join self x w)"

definition ABT_xstream_free ::
    "(xstream_ptr \<times> thread_ptr) option \<Rightarrow> xstream_ptr option \<Rightarrow> 'd xs_world \<Rightarrow> (abt_errno \<times> xstream_ptr option \<times> 'd xs_world) option" where
  "ABT_xstream_free self xp w = (case xp of
     None \<Rightarrow> Some (ABT_ERR_INV_XSTREAM, None, w)
   | Some x \<Rightarrow> do {
       ob \<leftarrow> xw_obj w x;
       if map_option fst self = Some x \<or> xo_type ob = ABTI_XSTREAM_TYPE_PRIMARY then Some (ABT_ERR_INV_XSTREAM, xp, w)
       else do {
         (err, w) \<leftarrow> xstream_join self x w;
         if err \<noteq> ABT_SUCCESS then Some (err, xp, w)
         else do { w \<leftarrow> ABTI_xstream_free x False w; Some (ABT_SUCCESS, None, w) } } })"

text \<open>The main scheduler's ULT has ended exactly when the stream has.\<close>

definition ABT_xstream_revive :: "xstream_ptr option \<Rightarrow> 'd xs_world \<Rightarrow> (abt_errno \<times> 'd xs_world) option" where
  "ABT_xstream_revive xp w = (case xp of
     None \<Rightarrow> Some (ABT_ERR_INV_XSTREAM, w)
   | Some x \<Rightarrow> do {
       ob \<leftarrow> xw_obj w x;
       sid \<leftarrow> xo_main_sched ob;
       if xo_state ob \<noteq> ABT_XSTREAM_STATE_TERMINATED then Some (ABT_ERR_INV_XSTREAM, w)
       else do {
         w \<leftarrow> with_sched sid (\<lambda>s. s\<lparr>sc_request := 0\<rparr>) w;
         w \<leftarrow> with_xstream x (\<lambda>ob. ob\<lparr>xo_state := ABT_XSTREAM_STATE_RUNNING\<rparr>) w;
         Some (ABT_SUCCESS, w) } })"

section \<open>Queries and ranks\<close>

definition xstream_query :: "(xstream_ptr \<Rightarrow> xstream \<Rightarrow> 'r) \<Rightarrow> xstream_ptr option \<Rightarrow> 'd xs_world \<Rightarrow> (abt_errno + 'r) option" where
  "xstream_query f xp w = (case xp of
     None \<Rightarrow> Some (Inl ABT_ERR_INV_XSTREAM)
   | Some x \<Rightarrow> map_option (\<lambda>ob. Inr (f x ob)) (xw_obj w x))"

definition ABT_xstream_get_state where
  "ABT_xstream_get_state xp w = xstream_query (\<lambda>_. xo_state) xp w"

definition ABT_xstream_is_primary where
  "ABT_xstream_is_primary xp w = xstream_query (\<lambda>_ ob. xo_type ob = ABTI_XSTREAM_TYPE_PRIMARY) xp w"

definition ABT_xstream_get_main_sched where
  "ABT_xstream_get_main_sched xp w = xstream_query (\<lambda>_. xo_main_sched) xp w"

definition ABT_xstream_get_rank where
  "ABT_xstream_get_rank xp w = xstream_query (\<lambda>x _. xs_rank (fst (xw_list w)) x) xp w"

definition ABT_xstream_get_num :: "'d xs_world \<Rightarrow> int" where
  "ABT_xstream_get_num w = num_xstreams (snd (xw_list w))"

definition ABT_xstream_equal :: "xstream_ptr option \<Rightarrow> xstream_ptr option \<Rightarrow> bool" where
  "ABT_xstream_equal x y \<longleftrightarrow> x = y"

text \<open>A negative \<open>max_pools\<close> is not checked; it becomes the size of a copy.\<close>

definition ABT_xstream_get_main_pools :: "xstream_ptr option \<Rightarrow> int \<Rightarrow> 'd xs_world \<Rightarrow> (abt_errno + nat option list) option" where
  "ABT_xstream_get_main_pools xp max_pools w = (case xp of
     None \<Rightarrow> Some (Inl ABT_ERR_INV_XSTREAM)
   | Some x \<Rightarrow> do {
       ob \<leftarrow> xw_obj w x;
       sid \<leftarrow> xo_main_sched ob;
       s \<leftarrow> xw_sched w sid;
       let n = min (int (length (sc_pools s))) max_pools;
       if n < 0 then None else Some (Inr (take (nat n) (sc_pools s))) })"

definition ABT_xstream_set_rank :: "xstream_ptr option \<Rightarrow> int \<Rightarrow> 'd xs_world \<Rightarrow> (abt_errno \<times> 'd xs_world) option" where
  "ABT_xstream_set_rank xp rank w = (case xp of
     None \<Rightarrow> Some (ABT_ERR_INV_XSTREAM, w)
   | Some x \<Rightarrow> do {
       ob \<leftarrow> xw_obj w x;
       if xo_type ob = ABTI_XSTREAM_TYPE_PRIMARY then Some (ABT_ERR_INV_XSTREAM, w)
       else if rank < 0 then Some (ABT_ERR_INV_XSTREAM_RANK, w)
       else do {
         (changed, l) \<leftarrow> run_rank_op (RChange x rank) (xw_list w);
         Some (if changed then ABT_SUCCESS else ABT_ERR_INV_XSTREAM_RANK, w\<lparr>xw_list := l\<rparr>) } })"

section \<open>The main scheduler\<close>

text \<open>
  \<open>assoc\<close> is what associating the work unit with the first pool of the new scheduler returns;
  \<open>in_old_pool\<close> tells whether the caller's ULT, \<open>self\<close>, is associated with a pool of the current
  one. The last component is a ULT to resume.
\<close>

definition xstream_update_main_sched ::
    "bool \<Rightarrow> abt_errno \<Rightarrow> bool \<Rightarrow> thread_ptr \<Rightarrow> xstream_ptr \<Rightarrow> sched_id \<Rightarrow> 'd xs_world
     \<Rightarrow> (abt_errno \<times> thread_ptr option \<times> 'd xs_world) option" where
  "xstream_update_main_sched on_local assoc in_old_pool self x sid w = do {
     ob \<leftarrow> xw_obj w x;
     case xo_main_sched ob of
       None \<Rightarrow> do {
         w \<leftarrow> with_sched sid (\<lambda>s. s\<lparr>sc_used := ABTI_SCHED_MAIN\<rparr>) w;
         w \<leftarrow> with_xstream x (\<lambda>ob. ob\<lparr>xo_main_sched := Some sid\<rparr>) w;
         Some (ABT_SUCCESS, None, w) }
     | Some old \<Rightarrow>
         if \<not> on_local then
           if xo_state ob \<noteq> ABT_XSTREAM_STATE_TERMINATED then None
           else if assoc \<noteq> ABT_SUCCESS then Some (assoc, None, w)
           else do {
             so \<leftarrow> xw_sched w old;
             w \<leftarrow> with_sched sid (\<lambda>s. s\<lparr>sc_used := ABTI_SCHED_MAIN, sc_ythread := sc_ythread so\<rparr>) w;
             w \<leftarrow> with_sched old (\<lambda>s. s\<lparr>sc_ythread := None, sc_used := ABTI_SCHED_NOT_USED\<rparr>) w;
             w \<leftarrow> (if sc_automatic so then free_sched old False w else Some w);
             w \<leftarrow> with_xstream x (\<lambda>ob. ob\<lparr>xo_main_sched := Some sid\<rparr>) w;
             Some (ABT_SUCCESS, None, w) }
         else if in_old_pool \<and> assoc \<noteq> ABT_SUCCESS then Some (assoc, None, w)
         else do {
           w \<leftarrow> (case xo_replace ob of None \<Rightarrow> Some w | Some (r, _) \<Rightarrow> discard_and_free_sched x r False w);
           w \<leftarrow> with_xstream x (\<lambda>ob. ob\<lparr>xo_replace := Some (sid, self)\<rparr>) w;
           w \<leftarrow> with_sched old (\<lambda>s. s\<lparr>sc_request := sc_request s OR ABTI_SCHED_REQ_REPLACE\<rparr>) w;
           Some (ABT_SUCCESS, map_option snd (xo_replace ob), w) } }"

text \<open>The part of \<^verbatim>\<open>thread_main_sched_func\<close> that replaces the scheduler, with the ULT it resumes.\<close>

definition replace_main_sched :: "xstream_ptr \<Rightarrow> 'd xs_world \<Rightarrow> (thread_ptr option \<times> 'd xs_world) option" where
  "replace_main_sched x w = do {
     ob \<leftarrow> xw_obj w x;
     old \<leftarrow> xo_main_sched ob;
     so \<leftarrow> xw_sched w old;
     if sc_request so AND ABTI_SCHED_REQ_REPLACE = 0 then Some (None, w)
     else do {
       (new, waiter) \<leftarrow> xo_replace ob;
       w \<leftarrow> with_sched new (\<lambda>s. s\<lparr>sc_used := ABTI_SCHED_MAIN, sc_ythread := sc_ythread so\<rparr>) w;
       w \<leftarrow> with_xstream x (\<lambda>ob. ob\<lparr>xo_main_sched := Some new, xo_replace := None\<rparr>) w;
       w \<leftarrow> with_sched old (\<lambda>s. s\<lparr>sc_ythread := None\<rparr>) w;
       w \<leftarrow> discard_and_free_sched x old False w;
       Some (Some waiter, w) } }"

text \<open>\<open>self\<close> is the caller: its stream, its work unit and whether that is yieldable.\<close>

definition ABT_xstream_set_main_sched ::
    "'d default_env \<Rightarrow> abt_errno \<Rightarrow> bool \<Rightarrow> (xstream_ptr \<times> thread_ptr \<times> bool) option \<Rightarrow> xstream_ptr option \<Rightarrow> sched_id option
     \<Rightarrow> 'd xs_world \<Rightarrow> (abt_errno \<times> thread_ptr option \<times> 'd xs_world) option" where
  "ABT_xstream_set_main_sched D assoc in_old_pool self xp sched w = (case (xp, self) of
     (None, _) \<Rightarrow> Some (ABT_ERR_INV_XSTREAM, None, w)
   | (Some x, None) \<Rightarrow> Some (ABT_ERR_INV_XSTREAM, None, w)
   | (Some x, Some (own, t, yieldable)) \<Rightarrow>
       if \<not> yieldable then Some (ABT_ERR_INV_THREAD, None, w)
       else do {
         ob \<leftarrow> xw_obj w x;
         if xo_state ob = ABT_XSTREAM_STATE_RUNNING \<and> own \<noteq> x then Some (ABT_ERR_XSTREAM_STATE, None, w)
         else case sched of
           None \<Rightarrow> do {
             (err, w) \<leftarrow> default_sched D w;
             if err \<noteq> ABT_SUCCESS then Some (err, None, w)
             else do {
               (err, resumed, w) \<leftarrow> xstream_update_main_sched (own = x) assoc in_old_pool t x (dv_id D) w;
               if err \<noteq> ABT_SUCCESS then do { w \<leftarrow> free_sched (dv_id D) False w; Some (err, None, w) }
               else Some (ABT_SUCCESS, resumed, w) } }
         | Some sid \<Rightarrow> do {
             s \<leftarrow> xw_sched w sid;
             if sc_used s \<noteq> ABTI_SCHED_NOT_USED then Some (ABT_ERR_INV_SCHED, None, w)
             else xstream_update_main_sched (own = x) assoc in_old_pool t x sid w } })"

definition ABT_xstream_set_main_sched_basic ::
    "'d default_env \<Rightarrow> abt_errno \<Rightarrow> bool \<Rightarrow> (xstream_ptr \<times> thread_ptr \<times> bool) option \<Rightarrow> xstream_ptr option
     \<Rightarrow> ABT_sched_predef \<Rightarrow> nat option list option \<Rightarrow> 'd xs_world \<Rightarrow> (abt_errno \<times> thread_ptr option \<times> 'd xs_world) option" where
  "ABT_xstream_set_main_sched_basic D assoc in_old_pool self xp predef pools w = (case (self, xp) of
     (None, _) \<Rightarrow> Some (ABT_ERR_INV_XSTREAM, None, w)
   | (Some (own, t, yieldable), _) \<Rightarrow>
       if \<not> yieldable then Some (ABT_ERR_INV_THREAD, None, w)
       else case xp of None \<Rightarrow> Some (ABT_ERR_INV_XSTREAM, None, w)
       | Some x \<Rightarrow> do {
           (err, w) \<leftarrow> basic_sched D predef pools None w;
           if err \<noteq> ABT_SUCCESS then Some (err, None, w)
           else do {
             (err, resumed, w) \<leftarrow> xstream_update_main_sched (own = x) assoc in_old_pool t x (dv_id D) w;
             if err \<noteq> ABT_SUCCESS then do { w \<leftarrow> give_up_sched pools (dv_id D) w; Some (err, None, w) }
             else Some (ABT_SUCCESS, resumed, w) } })"

text \<open>Requests to the ULT of the main scheduler reach the scheduler here.\<close>

definition ABTI_xstream_check_events :: "bool \<Rightarrow> bool \<Rightarrow> 'd sched \<Rightarrow> 'd sched" where
  "ABTI_xstream_check_events join cancel s =
     (let s = (if join then ABTI_sched_finish s else s)
      in if cancel then ABTI_sched_exit s else s)"

section \<open>Creation is all or nothing\<close>

text \<open>Ranks and objects agree, and only objects have parts.\<close>

definition streams_ok :: "xstream_ptr \<Rightarrow> (xstream_ptr \<Rightarrow> int option) \<Rightarrow> 'd xs_world \<Rightarrow> bool" where
  "streams_ok p m w \<longleftrightarrow> rank_map (xw_list w) p m \<and> dom (xw_obj w) = dom m \<and> fst ` xw_held w \<subseteq> dom m"

text \<open>Only the links and ranks may differ, of streams that are gone.\<close>

definition only_list :: "'d xs_world \<Rightarrow> 'd xs_world \<Rightarrow> bool" where
  "only_list w w' \<longleftrightarrow> (\<exists>l. w' = w\<lparr>xw_list := l\<rparr>)"

lemma only_list_simps [simp]: "only_list w (w\<lparr>xw_list := l\<rparr>)" "only_list w w"
  unfolding only_list_def by (rule exI, rule refl) (rule exI [of _ "xw_list w"], simp)

definition unused_sched :: "sched_id \<Rightarrow> 'd xs_world \<Rightarrow> bool" where
  "unused_sched sid w \<longleftrightarrow> (\<exists>s. xw_sched w sid = Some s \<and> sc_used s = ABTI_SCHED_NOT_USED \<and> sc_ythread s = None)"

definition all_parts :: "xstream_ptr \<Rightarrow> (xstream_ptr \<times> xs_part) set" where
  "all_parts x = {(x, PObject), (x, PLocal_memory), (x, PRoot_ythread), (x, PRoot_pool), (x, PSched_ythread), (x, PContext)}"

text \<open>What a stream is like after its creation on scheduler \<open>sid\<close>.\<close>

definition made_stream :: "part_env \<Rightarrow> sched_id \<Rightarrow> xstream_ptr \<Rightarrow> 'd xs_world \<Rightarrow> 'd xs_world \<Rightarrow> bool" where
  "made_stream E sid x w w' \<longleftrightarrow>
     xw_obj w' = (xw_obj w)(x \<mapsto> \<lparr>xo_type = ABTI_XSTREAM_TYPE_SECONDARY, xo_state = ABT_XSTREAM_STATE_RUNNING,
       xo_main_sched = Some sid, xo_replace = None\<rparr>) \<and>
     xw_held w' = xw_held w \<union> all_parts x \<and>
     xw_sched w' = (xw_sched w)(sid := map_option (\<lambda>s. s\<lparr>sc_used := ABTI_SCHED_MAIN, sc_ythread := Some (ne_sched_thread E)\<rparr>)
       (xw_sched w sid)) \<and>
     xw_pools w' = xw_pools w"

lemmas world_defs = create_failed_def undo_create_def free_object_def release_def return_rank_def with_sched_def
  with_xstream_def hold_def xstream_init_main_sched_def

lemma xstream_create_spec:
  assumes ok: "streams_ok p m w" and new: "\<And>x. ne_object E = Some x \<Longrightarrow> m x = None"
    and rank: "-1 \<le> rank" "rank < 2 ^ 31 - 1" "card (dom m) < 2 ^ 31 - 1" and sid: "unused_sched sid w"
  shows "\<exists>err r w'. xstream_create E sid ABTI_XSTREAM_TYPE_SECONDARY rank True w = Some (err, r, w') \<and>
    (if err = ABT_SUCCESS
     then \<exists>x. r = Some x \<and> m x = None \<and> made_stream E sid x w w' \<and> streams_ok p (snd (rank_op_spec (RNew x rank) m)) w' \<and>
       (rank = -1 \<or> rank \<notin> ran m)
     else r = None \<and> streams_ok p m w' \<and> only_list w w')"
proof (cases "ne_object E")
  case None
  then show ?thesis
    using ok by (simp add: xstream_create_def)
next
  case (Some x)
  have mx: "m x = None"
    using new [OF Some] .
  have rm: "rank_map (xw_list w) p m" and obj: "dom (xw_obj w) = dom m" and held: "fst ` xw_held w \<subseteq> dom m"
    using ok by (auto simp: streams_ok_def)
  have x: "xw_obj w x = None" "(x, part) \<notin> xw_held w" for part
    using mx obj held by (metis domIff, force)
  obtain s where s: "xw_sched w sid = Some s" "sc_used s = ABTI_SCHED_NOT_USED" "sc_ythread s = None"
    using sid by (auto simp: unused_sched_def)
  have same_sched: "(xw_sched w)(sid \<mapsto> s) = xw_sched w" "s\<lparr>sc_used := ABTI_SCHED_NOT_USED\<rparr> = s"
    "s\<lparr>sc_ythread := None, sc_used := ABTI_SCHED_NOT_USED\<rparr> = s"
    using s by auto
  have same_obj: "(xw_obj w)(x := None) = xw_obj w"
    using x(1) by auto
  have same_held: "insert (x, PObject) (xw_held w) - {(x, PObject)} = xw_held w"
    using x(2) by auto
  obtain l1 where l1: "run_rank_op (RNew x rank) (xw_list w) = Some (fst (rank_op_spec (RNew x rank) m), l1)"
    "rank_map l1 p (snd (rank_op_spec (RNew x rank) m))"
    using set_new_rank_map [OF rm, of x rank] rank mx by auto
  show ?thesis
  proof (cases "fst (rank_op_spec (RNew x rank) m)")
    case False
    then show ?thesis
      using l1 Some rm ok same_obj same_held
      by (auto simp: xstream_create_def world_defs streams_ok_def split: if_splits)
  next
    case True
    let ?m = "snd (rank_op_spec (RNew x rank) m)"
    have m: "?m(x := None) = m" "x \<in> dom ?m" "x \<noteq> p" "dom ?m = insert x (dom m)" "rank = -1 \<or> rank \<notin> ran m"
      using True mx rm by (auto simp: rank_map_def fun_eq_iff split: if_splits)
    obtain l2 where l2: "xstream_return_rank x l1 = Some l2" "rank_map l2 p m"
      using return_rank_map [OF l1(2), of x] m by (auto split: bind_splits)
    have ok2: "streams_ok p m (w\<lparr>xw_list := l2\<rparr>)"
      using l2(2) obj held by (simp add: streams_ok_def)
    have made_rank: "run_rank_op (RNew x rank) (xw_list w) = Some (True, l1)"
      using l1(1) True by metis
    note simps = xstream_create_def Some made_rank world_defs l2(1) s x(1) same_sched same_obj same_held insert_Diff_if x(2)
    consider (e1) "ne_local E \<noteq> ABT_SUCCESS" | (e2) "ne_local E = ABT_SUCCESS" "ne_root E \<noteq> ABT_SUCCESS"
      | (e3) "ne_local E = ABT_SUCCESS" "ne_root E = ABT_SUCCESS" "ne_root_pool E \<noteq> ABT_SUCCESS"
      | (e4) "ne_local E = ABT_SUCCESS" "ne_root E = ABT_SUCCESS" "ne_root_pool E = ABT_SUCCESS" "ne_sched_ythread E \<noteq> ABT_SUCCESS"
      | (e5) "ne_local E = ABT_SUCCESS" "ne_root E = ABT_SUCCESS" "ne_root_pool E = ABT_SUCCESS" "ne_sched_ythread E = ABT_SUCCESS"
          "ne_context E \<noteq> ABT_SUCCESS"
      | (made) "ne_local E = ABT_SUCCESS" "ne_root E = ABT_SUCCESS" "ne_root_pool E = ABT_SUCCESS" "ne_sched_ythread E = ABT_SUCCESS"
          "ne_context E = ABT_SUCCESS"
      by blast
    then show ?thesis
    proof cases
      case e1
      then have "xstream_create E sid ABTI_XSTREAM_TYPE_SECONDARY rank True w = Some (ne_local E, None, w\<lparr>xw_list := l2\<rparr>)"
        by (simp add: simps)
      then show ?thesis
        using e1 ok2 by simp
    next
      case e2
      then have "xstream_create E sid ABTI_XSTREAM_TYPE_SECONDARY rank True w = Some (ne_root E, None, w\<lparr>xw_list := l2\<rparr>)"
        by (simp add: simps)
      then show ?thesis
        using e2 ok2 by simp
    next
      case e3
      then have "xstream_create E sid ABTI_XSTREAM_TYPE_SECONDARY rank True w = Some (ne_root_pool E, None, w\<lparr>xw_list := l2\<rparr>)"
        by (simp add: simps)
      then show ?thesis
        using e3 ok2 by simp
    next
      case e4
      then have "xstream_create E sid ABTI_XSTREAM_TYPE_SECONDARY rank True w = Some (ne_sched_ythread E, None, w\<lparr>xw_list := l2\<rparr>)"
        by (simp add: simps)
      then show ?thesis
        using e4 ok2 by simp
    next
      case e5
      then have "xstream_create E sid ABTI_XSTREAM_TYPE_SECONDARY rank True w = Some (ne_context E, None, w\<lparr>xw_list := l2\<rparr>)"
        by (simp add: simps)
      then show ?thesis
        using e5 ok2 by simp
    next
      case made
      then have "\<exists>w'. xstream_create E sid ABTI_XSTREAM_TYPE_SECONDARY rank True w = Some (ABT_SUCCESS, Some x, w') \<and>
          made_stream E sid x w w' \<and> xw_list w' = l1"
        by (auto simp: simps made_stream_def all_parts_def)
      then obtain w' where w': "xstream_create E sid ABTI_XSTREAM_TYPE_SECONDARY rank True w = Some (ABT_SUCCESS, Some x, w')"
        "made_stream E sid x w w'" "xw_list w' = l1"
        by blast
      have "streams_ok p ?m w'"
        using w'(2,3) l1(2) obj held m(4) by (auto simp: streams_ok_def made_stream_def all_parts_def)
      then show ?thesis
        using w'(1,2) mx m(5) by auto
    qed
  qed
qed

section \<open>Default schedulers\<close>

lemma sched_create_fresh:
  "sched_create m1 m2 alloc sd pools config def_automatic T = Some (err, Some s, T') \<Longrightarrow>
   sc_ythread s = None \<and> config_automatic def_automatic config = Some (sc_automatic s)"
  by (auto simp: sched_create_def split: if_splits bind_splits prod.splits option.splits)

text \<open>The environment of a default scheduler: new addresses, and an initialization function that returns.\<close>

definition default_env_ok :: "'d default_env \<Rightarrow> 'd xs_world \<Rightarrow> bool" where
  "default_env_ok D w \<longleftrightarrow> table_ok (xw_pools w) \<and> fresh_alloc (dv_alloc D) (xw_pools w) \<and> xw_sched w (dv_id D) = None \<and>
     (\<forall>ps f. def_init (dv_def D ABT_SCHED_DEFAULT) = Some f \<longrightarrow> f ps \<noteq> None)"

lemma default_sched_spec:
  assumes "default_env_ok D w"
  shows "\<exists>err w'. default_sched D w = Some (err, w') \<and>
    (if err = ABT_SUCCESS
     then \<exists>s T'. w' = w\<lparr>xw_pools := T', xw_sched := (xw_sched w)(dv_id D \<mapsto> s)\<rparr> \<and> sc_used s = ABTI_SCHED_NOT_USED \<and>
       sc_ythread s = None \<and> sc_automatic s \<and> release_pools False (sc_pools s) T' = Some (xw_pools w)
     else w' = w)"
proof (cases "dv_alloc D 0")
  case None
  then show ?thesis
    by (simp add: default_sched_def basic_sched_def ABTI_sched_create_basic_def)
next
  case (Some q)
  let ?T = "xw_pools w" and ?T1 = "(xw_pools w)(q \<mapsto> new_pool ABT_POOL_ACCESS_MPMC)"
  let ?sd = "dv_def D ABT_SCHED_DEFAULT"
  have q: "?T q = None"
    using assms Some by (auto simp: default_env_ok_def fresh_alloc_def)
  have ok1: "table_ok ?T1"
    using assms by (auto simp: default_env_ok_def table_ok_def new_pool_def)
  have undo: "?T1(q := None) = ?T"
    using q by auto
  obtain err s T' where c: "sched_create (dv_malloc1 D) (dv_malloc2 D) (\<lambda>_. None) ?sd [Some q] None True ?T1 = Some (err, s, T')"
    "if err = ABT_SUCCESS then \<exists>s0 l. s = Some s0 \<and> created_with [Some q] l ?T1 s0 T' else s = None \<and> T' = ?T1"
    using sched_create_spec [of ?T1 "\<lambda>_. None" "[Some q]" ?sd True None "dv_malloc1 D" "dv_malloc2 D"] ok1 assms
    by (auto simp: fresh_alloc_def given_pools_def config_automatic_def default_env_ok_def)
  show ?thesis
  proof (cases "err = ABT_SUCCESS")
    case False
    then show ?thesis
      using c Some q undo
      by (simp add: default_sched_def basic_sched_def ABTI_sched_create_basic_def ABTI_pool_free_def)
  next
    case True
    then obtain s0 l where s0: "s = Some s0" "created_with [Some q] l ?T1 s0 T'"
      using c(2) by auto
    have fresh: "sc_ythread s0 = None" "sc_automatic s0"
      using sched_create_fresh [of "dv_malloc1 D" "dv_malloc2 D" "\<lambda>_. None" ?sd "[Some q]" None True ?T1 err s0 T'] c(1) s0(1)
      by (auto simp: config_automatic_def)
    have l: "sc_used s0 = ABTI_SCHED_NOT_USED" "given l = [q]"
      using s0(2) given_fst [of l] by (auto simp: created_with_def given_pools_def)
    have "ABTI_sched_free s0 False T' = Some ?T"
      using create_free [OF ok1 s0(2)] q by (auto simp: l(2) new_pool_def fun_eq_iff split: option.split)
    then have "release_pools False (sc_pools s0) T' = Some ?T"
      using l(1) by (simp add: ABTI_sched_free_def)
    then show ?thesis
      using c(1) True s0(1) fresh l(1) Some by (auto simp: default_sched_def basic_sched_def ABTI_sched_create_basic_def)
  qed
qed

section \<open>All or nothing, with the scheduler\<close>

lemma create_on_sched_spec:
  assumes ok: "streams_ok p m w" and new: "\<And>x. ne_object E = Some x \<Longrightarrow> m x = None"
    and rank: "-1 \<le> rank" "rank < 2 ^ 31 - 1" "card (dom m) < 2 ^ 31 - 1"
    and sched: "case sched of None \<Rightarrow> default_env_ok D w | Some sid \<Rightarrow> unused_sched sid w"
  shows "\<exists>err r w'. create_on_sched E D sched rank w = Some (err, r, w') \<and>
    (if err = ABT_SUCCESS
     then \<exists>x. r = Some x \<and> m x = None \<and> streams_ok p (snd (rank_op_spec (RNew x rank) m)) w' \<and> (rank = -1 \<or> rank \<notin> ran m)
     else r = None \<and> streams_ok p m w' \<and> only_list w w')"
proof (cases sched)
  case (Some sid)
  then obtain s where "xw_sched w sid = Some s" "sc_used s = ABTI_SCHED_NOT_USED"
    using sched by (auto simp: unused_sched_def)
  then have "create_on_sched E D sched rank w = xstream_create E sid ABTI_XSTREAM_TYPE_SECONDARY rank True w"
    using Some by (simp add: create_on_sched_def)
  moreover have "unused_sched sid w"
    using sched Some by simp
  moreover obtain err r w' where "xstream_create E sid ABTI_XSTREAM_TYPE_SECONDARY rank True w = Some (err, r, w')"
    "if err = ABT_SUCCESS
     then \<exists>x. r = Some x \<and> m x = None \<and> made_stream E sid x w w' \<and> streams_ok p (snd (rank_op_spec (RNew x rank) m)) w' \<and>
       (rank = -1 \<or> rank \<notin> ran m)
     else r = None \<and> streams_ok p m w' \<and> only_list w w'"
    using xstream_create_spec [OF ok new rank \<open>unused_sched sid w\<close>] by blast
  ultimately show ?thesis
    by (cases "err = ABT_SUCCESS") (auto simp del: rank_op_spec.simps)
next
  case None
  let ?id = "dv_id D"
  have env: "default_env_ok D w"
    using sched None by simp
  obtain err w1 where d: "default_sched D w = Some (err, w1)"
    "if err = ABT_SUCCESS
     then \<exists>s T'. w1 = w\<lparr>xw_pools := T', xw_sched := (xw_sched w)(?id \<mapsto> s)\<rparr> \<and> sc_used s = ABTI_SCHED_NOT_USED \<and>
       sc_ythread s = None \<and> sc_automatic s \<and> release_pools False (sc_pools s) T' = Some (xw_pools w)
     else w1 = w"
    using default_sched_spec [OF env] by blast
  show ?thesis
  proof (cases "err = ABT_SUCCESS")
    case False
    then show ?thesis
      using d None ok by (simp add: create_on_sched_def)
  next
    case True
    then obtain s T' where s: "w1 = w\<lparr>xw_pools := T', xw_sched := (xw_sched w)(?id \<mapsto> s)\<rparr>" "sc_used s = ABTI_SCHED_NOT_USED"
      "sc_ythread s = None" "sc_automatic s" "release_pools False (sc_pools s) T' = Some (xw_pools w)"
      using d(2) by auto
    have ok1: "streams_ok p m w1" "unused_sched ?id w1"
      using ok s(2,3) by (auto simp: s(1) streams_ok_def unused_sched_def)
    obtain err2 r w2 where c: "xstream_create E ?id ABTI_XSTREAM_TYPE_SECONDARY rank True w1 = Some (err2, r, w2)"
      "if err2 = ABT_SUCCESS
       then \<exists>x. r = Some x \<and> m x = None \<and> made_stream E ?id x w1 w2 \<and> streams_ok p (snd (rank_op_spec (RNew x rank) m)) w2 \<and>
         (rank = -1 \<or> rank \<notin> ran m)
       else r = None \<and> streams_ok p m w2 \<and> only_list w1 w2"
      using xstream_create_spec [OF ok1(1) new rank ok1(2)] by blast
    show ?thesis
    proof (cases "err2 = ABT_SUCCESS")
      case succ: True
      then show ?thesis
        using c d(1) True None by (auto simp: create_on_sched_def)
    next
      case fail: False
      obtain l where l: "r = None" "streams_ok p m w2" "w2 = w1\<lparr>xw_list := l\<rparr>"
        using c(2) fail unfolding only_list_def by auto
      have "free_sched ?id False w2 = Some (w\<lparr>xw_list := l\<rparr>)"
        using s env by (simp add: free_sched_def ABTI_sched_free_def l(3) default_env_ok_def fun_upd_idem)
      moreover have "streams_ok p m (w\<lparr>xw_list := l\<rparr>)"
        using l(2) ok by (auto simp: streams_ok_def l(3) s(1))
      ultimately show ?thesis
        using c(1) d(1) True fail None by (auto simp: create_on_sched_def)
    qed
  qed
qed

section \<open>Creating and freeing\<close>

text \<open>The scheduler after its stream was freed, if it is not freed itself.\<close>

definition left_sched :: "'d sched \<Rightarrow> 'd sched option" where
  "left_sched s = (if sc_automatic s then None
     else Some (s\<lparr>sc_request := sc_request s OR ABTI_SCHED_REQ_FINISH, sc_used := ABTI_SCHED_NOT_USED, sc_ythread := None\<rparr>))"

lemma free_made_stream:
  assumes made: "made_stream E sid x w w'" and ok: "streams_ok p m w" "m x = None"
    and m': "rank_map (xw_list w') p m'" "m'(x := None) = m" "x \<in> dom m'"
    and s: "xw_sched w sid = Some s" "sc_automatic s \<Longrightarrow> release_pools False (sc_pools s) (xw_pools w) = Some T"
      "\<not> sc_automatic s \<Longrightarrow> T = xw_pools w"
  shows "\<exists>l. ABT_xstream_free None (Some x) w' = Some (ABT_SUCCESS, None,
      w\<lparr>xw_list := l, xw_sched := (xw_sched w)(sid := left_sched s), xw_pools := T\<rparr>) \<and> rank_map l p m"
proof -
  have no_obj: "xw_obj w x = None"
    using ok by (auto simp: streams_ok_def)
  have no_part: "(x, part) \<notin> xw_held w" for part
    using ok by (force simp: streams_ok_def)
  have "x \<noteq> p"
    using ok by (auto simp: streams_ok_def rank_map_def)
  then obtain l where l: "xstream_return_rank x (xw_list w') = Some l" "rank_map l p m"
    using return_rank_map [OF m'(1), of x] m'(2,3) by (auto split: bind_splits)
  have restored: "(xw_obj w)(x := None) = xw_obj w" "xw_held w - all_parts x = xw_held w"
    using no_obj no_part by (auto simp: all_parts_def)
  note made' = made [unfolded made_stream_def]
  obtain l0 o0 h0 s0 t0 where w': "w' = \<lparr>xw_list = l0, xw_obj = o0, xw_held = h0, xw_sched = s0, xw_pools = t0\<rparr>"
    by (cases w')
  obtain l1 o1 h1 s1 t1 where w: "w = \<lparr>xw_list = l1, xw_obj = o1, xw_held = h1, xw_sched = s1, xw_pools = t1\<rparr>"
    by (cases w)
  show ?thesis
    using made' l no_obj no_part s restored
    by (intro exI [of _ l])
       (simp add: w w' ABT_xstream_free_def xstream_join_def ABTI_xstream_free_def discard_and_free_sched_def world_defs
          free_sched_def ABTI_sched_free_def ABTI_sched_finish_def left_sched_def all_parts_def insert_Diff_if)
qed

text \<open>With a default scheduler everything but the links of the list is as before.\<close>

lemma create_free_default:
  assumes ok: "streams_ok p m w" and new: "\<And>x. ne_object E = Some x \<Longrightarrow> m x = None"
    and rank: "-1 \<le> rank" "rank < 2 ^ 31 - 1" "card (dom m) < 2 ^ 31 - 1" and env: "default_env_ok D w"
    and created: "create_on_sched E D None rank w = Some (ABT_SUCCESS, r, w')"
  shows "\<exists>w''. ABT_xstream_free None r w' = Some (ABT_SUCCESS, None, w'') \<and> only_list w w'' \<and> streams_ok p m w''"
proof -
  let ?id = "dv_id D"
  obtain w1 where d: "default_sched D w = Some (ABT_SUCCESS, w1)"
    using created by (auto simp: create_on_sched_def split: bind_splits if_splits)
  then obtain s T' where s: "w1 = w\<lparr>xw_pools := T', xw_sched := (xw_sched w)(?id \<mapsto> s)\<rparr>" "sc_used s = ABTI_SCHED_NOT_USED"
    "sc_ythread s = None" "sc_automatic s" "release_pools False (sc_pools s) T' = Some (xw_pools w)"
    using default_sched_spec [OF env] by auto
  have ok1: "streams_ok p m w1" "unused_sched ?id w1"
    using ok s(2,3) by (auto simp: s(1) streams_ok_def unused_sched_def)
  have c: "xstream_create E ?id ABTI_XSTREAM_TYPE_SECONDARY rank True w1 = Some (ABT_SUCCESS, r, w')"
    using created d by (auto simp: create_on_sched_def split: bind_splits if_splits)
  obtain err2 r2 w2 where c2: "xstream_create E ?id ABTI_XSTREAM_TYPE_SECONDARY rank True w1 = Some (err2, r2, w2)"
    "if err2 = ABT_SUCCESS
     then \<exists>x. r2 = Some x \<and> m x = None \<and> made_stream E ?id x w1 w2 \<and> streams_ok p (snd (rank_op_spec (RNew x rank) m)) w2 \<and>
       (rank = -1 \<or> rank \<notin> ran m)
     else r2 = None \<and> streams_ok p m w2 \<and> only_list w1 w2"
    using xstream_create_spec [OF ok1(1) new rank ok1(2)] by blast
  have "err2 = ABT_SUCCESS" "r2 = r" "w2 = w'"
    using c c2(1) by simp_all
  then obtain x where x: "r = Some x" "m x = None" "made_stream E ?id x w1 w'"
    "streams_ok p (snd (rank_op_spec (RNew x rank) m)) w'" "rank = -1 \<or> rank \<notin> ran m"
    using c2(2) by (auto simp del: rank_op_spec.simps)
  let ?m = "snd (rank_op_spec (RNew x rank) m)"
  have m: "?m(x := None) = m" "x \<in> dom ?m"
    using x(2,5) by (auto simp: fun_eq_iff)
  obtain l where "ABT_xstream_free None (Some x) w' = Some (ABT_SUCCESS, None,
      w1\<lparr>xw_list := l, xw_sched := (xw_sched w1)(?id := left_sched s), xw_pools := xw_pools w\<rparr>)" "rank_map l p m"
    using free_made_stream [OF x(3) ok1(1) x(2) _ m, of s "xw_pools w"] x(4) s(4,5) by (auto simp: streams_ok_def s(1))
  moreover have "w1\<lparr>xw_list := l, xw_sched := (xw_sched w1)(?id := left_sched s), xw_pools := xw_pools w\<rparr> = w\<lparr>xw_list := l\<rparr>"
    using env s(4) by (simp add: s(1) left_sched_def default_env_ok_def fun_upd_idem)
  ultimately show ?thesis
    using ok by (auto simp: x(1) streams_ok_def)
qed

section \<open>Replacing the main scheduler\<close>

lemma replace_requested: "(r OR ABTI_SCHED_REQ_REPLACE) AND ABTI_SCHED_REQ_REPLACE \<noteq> 0"
proof -
  have "(r OR ABTI_SCHED_REQ_REPLACE) AND ABTI_SCHED_REQ_REPLACE = ABTI_SCHED_REQ_REPLACE"
    by (rule bit_eqI) (auto simp: bit_simps)
  then show ?thesis
    by (simp add: ABTI_SCHED_REQ_REPLACE_def)
qed

text \<open>
  A ULT replaces the scheduler of the stream it runs on: the stream keeps the old one until it
  sees the request. Then the new one has its ULT, the old one is freed if it is automatic, and
  the caller is resumed.
\<close>

definition replaced :: "xstream_ptr \<Rightarrow> sched_id \<Rightarrow> sched_id \<Rightarrow> 'd xs_world \<Rightarrow> 'd xs_world \<Rightarrow> bool" where
  "replaced x old new w w' \<longleftrightarrow> (\<exists>ob so s. xw_obj w x = Some ob \<and> xw_sched w old = Some so \<and> xw_sched w new = Some s \<and>
     xw_obj w' = (xw_obj w)(x \<mapsto> ob\<lparr>xo_main_sched := Some new, xo_replace := None\<rparr>) \<and>
     xw_sched w' new = Some (s\<lparr>sc_used := ABTI_SCHED_MAIN, sc_ythread := sc_ythread so\<rparr>) \<and>
     (if sc_automatic so then xw_sched w' old = None \<and> release_pools False (sc_pools so) (xw_pools w) = Some (xw_pools w')
      else xw_sched w' old = Some (so\<lparr>sc_used := ABTI_SCHED_NOT_USED, sc_ythread := None,
          sc_request := sc_request so OR ABTI_SCHED_REQ_REPLACE\<rparr>) \<and> xw_pools w' = xw_pools w) \<and>
     (\<forall>sid. sid \<noteq> old \<and> sid \<noteq> new \<longrightarrow> xw_sched w' sid = xw_sched w sid) \<and> xw_held w' = xw_held w \<and> xw_list w' = xw_list w)"

lemma replace_hands_over:
  assumes x: "xw_obj w x = Some ob" "xo_main_sched ob = Some old" "xo_replace ob = None"
    and so: "xw_sched w old = Some so" "sc_automatic so \<Longrightarrow> release_pools False (sc_pools so) (xw_pools w) \<noteq> None"
    and new: "unused_sched sid w" "sid \<noteq> old" and assoc: "\<not> in_old_pool \<or> assoc = ABT_SUCCESS"
  shows "\<exists>w1 w2. ABT_xstream_set_main_sched D assoc in_old_pool (Some (x, t, True)) (Some x) (Some sid) w = Some (ABT_SUCCESS, None, w1) \<and>
    xw_obj w1 x = Some (ob\<lparr>xo_replace := Some (sid, t)\<rparr>) \<and> replace_main_sched x w1 = Some (Some t, w2) \<and> replaced x old sid w w2"
proof -
  obtain s where s: "xw_sched w sid = Some s" "sc_used s = ABTI_SCHED_NOT_USED" "sc_ythread s = None"
    using new(1) by (auto simp: unused_sched_def)
  let ?w1 = "w\<lparr>xw_obj := (xw_obj w)(x \<mapsto> ob\<lparr>xo_replace := Some (sid, t)\<rparr>),
    xw_sched := (xw_sched w)(old \<mapsto> so\<lparr>sc_request := sc_request so OR ABTI_SCHED_REQ_REPLACE\<rparr>)\<rparr>"
  have 1: "ABT_xstream_set_main_sched D assoc in_old_pool (Some (x, t, True)) (Some x) (Some sid) w = Some (ABT_SUCCESS, None, ?w1)"
    using x so(1) s(1,2) assoc
    by (auto simp: ABT_xstream_set_main_sched_def xstream_update_main_sched_def with_xstream_def with_sched_def)
  have "\<exists>w2. replace_main_sched x ?w1 = Some (Some t, w2) \<and> replaced x old sid w w2"
  proof (cases "sc_automatic so")
    case True
    then obtain T where "release_pools False (sc_pools so) (xw_pools w) = Some T"
      using so(2) by auto
    then show ?thesis
      using x so(1) s new(2) True replace_requested [of "sc_request so"]
      by (simp add: replace_main_sched_def with_xstream_def with_sched_def discard_and_free_sched_def free_sched_def
          ABTI_sched_free_def replaced_def)
  next
    case False
    then show ?thesis
      using x so(1) s new(2) replace_requested [of "sc_request so"]
      by (simp add: replace_main_sched_def with_xstream_def with_sched_def discard_and_free_sched_def replaced_def)
  qed
  then show ?thesis
    using 1 by auto
qed

end
