(* ===== verification/Scenarios.thy ===== *)
theory Scenarios
  imports ReductionTree Barrier Mutex Rwlock Cond Eventual Future PoolFifo PoolRandws SchedRefs CostAware ThreadFacts Atoi UnitMap KeyTable WorkSteal Config PoolFifoWait ConjGradReal NasRand Jacobi Sparse Streams
begin

text \<open>
  Small concrete states of the components, and the runs that reach them: the inputs on which
  the properties of the root theory are exercised.
\<close>

lemma reduce_max_correct:
  assumes "few_threads n" "set array \<subseteq> values_of ty" "array \<noteq> []"
    and "red_reachable (int_body Rmax ty) n array (int_default Rmax ty) s" "rd_main s = MReturn"
  shows "rd_result s = Some (Max (set array))"
  using finished_result [OF red_monoid_int assms(2,1) red_reachable_inv [OF assms(4,1)] assms(5)]
    fold_max_ok [OF assms(3,2)] by simp

lemma reduce_max_correct_witness:
  "\<exists>s. red_reachable (int_body Rmax TInt) 2 [-5, -7, -6] (int_default Rmax TInt) s \<and>
     rd_result s = Some (-5)"
proof -
  have n: "few_threads 2"
    by (simp add: few_threads_def)
  obtain s where s: "red_reachable (int_body Rmax TInt) 2 [-5, -7, -6] (int_default Rmax TInt) s"
    "rd_main s = MReturn"
    by (rule red_end_reachable [OF n])
  then show ?thesis
    using reduce_max_correct [OF n _ _ s] by (auto simp: values_of_def type_min_def type_max_def)
qed

lemma reduce_setup_partitions:
  assumes "reduce_setup n p array d = Some work"
  shows "concat (map (\<lambda>(a, _). take (ra_num_elems a) (ra_array a)) work) = array \<and>
    map snd work = map (\<lambda>i. i mod p) [0..<n] \<and> map (ra_thread_id \<circ> fst) work = [0..<n]"
proof -
  have n: "0 < n" "work = map (\<lambda>i. (thread_args n array d i, i mod p)) [0..<n]"
    using assms by (auto simp: reduce_setup_def split: if_splits)
  have "map (\<lambda>(a, _). take (ra_num_elems a) (ra_array a)) work = map (chunk n array) [0..<n]"
    by (simp add: n(2) chunk_eq [of n array _ d])
  then have "concat (map (\<lambda>(a, _). take (ra_num_elems a) (ra_array a)) work) = array"
    using chunks_cover [OF n(1), of array] by (simp del: map_map)
  then show ?thesis
    by (simp add: n(2) comp_def)
qed

lemma reduce_setup_partitions_witness:
  "\<exists>work. reduce_setup 3 2 ''abcdefg'' CHR ''z'' = Some work \<and>
     concat (map (\<lambda>(a, _). take (ra_num_elems a) (ra_array a)) work) = ''abcdefg'' \<and> map snd work = [0, 1, 0]"
proof -
  obtain work where w: "reduce_setup 3 2 ''abcdefg'' CHR ''z'' = Some work"
    by (simp add: reduce_setup_def)
  then show ?thesis
    using reduce_setup_partitions [OF w] by (simp add: upt_rec numeral_eq_Suc)
qed

definition heap0 :: wait_heap where
  "heap0 = \<lparr>wl_next = (\<lambda>_. None), wl_prev = (\<lambda>_. None), wl_ready = (\<lambda>_. False), wl_yieldable = (\<lambda>_. True)\<rparr>"

definition solo_barrier :: barrier where
  "solo_barrier = \<lparr>b_num_waiters = 1, b_counter = 0, b_waitlist = ABTI_waitlist_init\<rparr>"

lemma solo_passes:
  "barrier_reachable {7} \<lparr>bs_heap = heap0, bs_barrier = solo_barrier, bs_arrived = (\<lambda>_. 0)(7 := 1),
     bs_passed = (\<lambda>_. 0)(7 := 1)\<rparr>"
proof -
  let ?s = "\<lparr>bs_heap = heap0, bs_barrier = solo_barrier, bs_arrived = (\<lambda>_. 0), bs_passed = (\<lambda>_. 0)\<rparr>"
  have r: "barrier_reachable {7} ?s"
    by (rule barrier_reachable.init [of 1]) (simp_all add: ABT_barrier_create_def solo_barrier_def)
  have "ABT_barrier_wait Yieldable 7 (Some (bs_barrier ?s)) (bs_heap ?s)
      = Some (Returns ABT_SUCCESS, [], heap0, Some solo_barrier)"
    by (simp add: ABT_barrier_wait_def solo_barrier_def ABTI_waitlist_broadcast_def ABTI_waitlist_init_def)
  from barrier_reachable.step [OF r barrier_step.call [OF _ _ this]] show ?thesis
    by simp
qed

definition mutex_start :: mutex_sys where
  "mutex_start = \<lparr>ms_heap = heap0, ms_mutex = ABTI_mutex_init, ms_pc = (\<lambda>_. Idle)\<rparr>"

lemma mutex_start_reachable: "mutex_reachable P mutex_start"
  unfolding mutex_start_def by (rule mutex_reachable.init [of None]) (simp add: ABT_mutex_create_with_attr_def)

lemma mutex_trylock_reachable:
  "mutex_reachable {1, 2} (mutex_start\<lparr>ms_mutex := ABTI_mutex_init\<lparr>m_lock := True\<rparr>, ms_pc := (\<lambda>_. Idle)(1 := Crit)\<rparr>)"
proof -
  have "ABTI_mutex_trylock 1 (ms_mutex mutex_start) = Moves (ABT_SUCCESS, ABTI_mutex_init\<lparr>m_lock := True\<rparr>)"
    by (simp add: mutex_start_def ABTI_mutex_trylock_def ABTI_mutex_trylock_no_recursion_def ABTI_mutex_init_def
        mutex_is_recursive_def ABTI_MUTEX_ATTR_NONE_def)
  from mutex_reachable.step [OF mutex_start_reachable mutex_step.trylock [OF _ _ this, of "{1, 2}"]] show ?thesis
    by (simp add: mutex_start_def)
qed

lemma mutex_assertions_hold:
  assumes "mutex_reachable P s" "0 \<notin> P" "t \<in> P"
  shows "mutex_micro t (ms_pc s t) (ms_heap s) (ms_mutex s) \<noteq> Fails"
  by (rule mutex_micro_never_fails [OF reachable_mutex_inv [OF assms(1,2)] assms(3,2)])

lemma mutex_assertions_hold_witness:
  "mutex_micro 2 (ms_pc mutex_start 2) (ms_heap mutex_start) (ms_mutex mutex_start) \<noteq> Fails"
  by (rule mutex_assertions_hold [OF mutex_start_reachable [of "{1, 2}"]]) simp_all

definition rw0 :: rwlock where
  "rw0 = \<lparr>rw_locked = False, rw_mutex_addr = 64, rw_cond = ABTI_cond_init, rw_cond_lock = False,
     rw_reader_count = 0, rw_write_flag = False\<rparr>"

definition rw_start :: rw_sys where
  "rw_start = \<lparr>rs_heap = heap0, rs_rw = rw0, rs_pc = (\<lambda>_. RIdle)\<rparr>"

lemma rw_start_reachable: "rw_reachable P rw_start"
  unfolding rw_start_def by (rule rw_reachable.init [of 64]) (simp add: ABT_rwlock_create_def rw0_def)

lemma rw_writer_reachable:
  "rw_reachable {1, 2} (rw_start\<lparr>rs_rw := rw0\<lparr>rw_write_flag := True\<rparr>, rs_pc := (\<lambda>_. RIdle)(1 := RHeld Writer)\<rparr>)"
proof -
  let ?pc = "\<lambda>c. (\<lambda>_. RIdle)(1 := c)" and ?P = "{1, 2} :: nat set"
  have 1: "rw_reachable ?P (rw_start\<lparr>rs_pc := ?pc (RLockMutex Writer)\<rparr>)"
    using rw_reachable.step [OF rw_start_reachable rw_step.wrlock [of 1 ?P rw_start External "RLockMutex Writer"]]
    by (simp add: rw_start_def ABT_rwlock_wrlock_def)
  have 2: "rw_reachable ?P (rw_start\<lparr>rs_rw := rw0\<lparr>rw_locked := True\<rparr>, rs_pc := ?pc (RCheck Writer)\<rparr>)"
    using rw_reachable.step [OF 1 rw_step.run [of 1 ?P _ "RCheck Writer" heap0 "rw0\<lparr>rw_locked := True\<rparr>"]]
    by (simp add: rw_start_def rw0_def)
  have 3: "rw_reachable ?P (rw_start\<lparr>rs_rw := rw0\<lparr>rw_locked := True, rw_write_flag := True\<rparr>,
      rs_pc := ?pc (RUnlockMutex Writer)\<rparr>)"
    using rw_reachable.step [OF 2 rw_step.run [of 1 ?P _ "RUnlockMutex Writer" heap0
        "rw0\<lparr>rw_locked := True, rw_write_flag := True\<rparr>"]]
    by (simp add: rw_start_def rw0_def)
  show ?thesis
    using rw_reachable.step [OF 3 rw_step.run [of 1 ?P _ "RHeld Writer" heap0
        "rw0\<lparr>rw_locked := False, rw_write_flag := True\<rparr>"]]
    by (simp add: rw_start_def rw0_def)
qed

lemma cond_mutex_never_released:
  assumes "cond_run ops (h, c) = Some (rs, h', c')" "c_waiter_mutex c = Some m" "m' \<noteq> m"
  shows "ABT_cond_wait Yieldable t (Some c') (Some m') h' = Some (Returns ABT_ERR_INV_MUTEX, h', Some c')"
  by (rule wait_other_mutex [OF bound_kept_run [OF assms(1,2)] assms(3)])

lemma cond_mutex_never_released_witness:
  "ABT_cond_wait Yieldable 2 (Some (ABTI_cond_init\<lparr>c_waiter_mutex := Some 64\<rparr>)) (Some 8) heap0
    = Some (Returns ABT_ERR_INV_MUTEX, heap0, Some (ABTI_cond_init\<lparr>c_waiter_mutex := Some 64\<rparr>))"
  by (rule cond_mutex_never_released [of "[CBroadcast]" heap0 "ABTI_cond_init\<lparr>c_waiter_mutex := Some 64\<rparr>" "[RWoken []]"])
     (auto simp: ABT_cond_broadcast_def ABTI_cond_broadcast_def ABTI_waitlist_broadcast_def ABTI_cond_init_def
       ABTI_waitlist_init_def)

lemma future_collects:
  assumes "ABT_future_create True (Some mem) n cb = (ABT_SUCCESS, Some f)" "length mem = unat n"
    and "length vs = unat n" "vs \<noteq> []" "distinct ts"
  shows "\<exists>s1 h2 f2. fut.blocks ts (h, f) = Some s1 \<and> future_sets vs s1 = Some (ts, h2, f2) \<and>
    ABT_future_test (Some f2) = (ABT_SUCCESS, True) \<and>
    f_array f2 = (case cb of None \<Rightarrow> vs | Some g \<Rightarrow> g vs) \<and>
    (\<forall>t. ABT_future_wait Yieldable t (Some f2) h2 = Some (Returns ABT_SUCCESS, h2, Some f2)) \<and>
    (\<forall>v. ABT_future_set (Some f2) v h2 = Some (ABT_ERR_FUTURE, [], h2, Some f2))"
proof -
  have "n \<noteq> 0"
    using assms(3,4) by auto
  then have "pending vs cb (h, f) []"
    using future_create_rep [of n mem cb h] assms(1-3) by (auto simp: pending_def)
  from fut.wake_reaches_all [OF this, of ts] show ?thesis
    using assms(5) future_wait_done [of _ _ vs Yieldable] future_set_done [of _ _ vs]
    by (auto simp: future_done_def ABT_future_test_def)
qed

lemma future_collects_witness:
  "\<exists>f s1 h2 f2. ABT_future_create True (Some [0, 0, 0 :: nat]) 3 (Some rev) = (ABT_SUCCESS, Some f) \<and>
     fut.blocks [2, 4] (heap0, f) = Some s1 \<and> future_sets [5, 6, 7] s1 = Some ([2, 4], h2, f2) \<and>
     f_array f2 = [7, 6, 5]"
proof -
  obtain f where f: "ABT_future_create True (Some [0, 0, 0 :: nat]) 3 (Some rev) = (ABT_SUCCESS, Some f)"
    by (simp add: ABT_future_create_def)
  then show ?thesis
    using future_collects [OF f, of "[5, 6, 7]" "[2, 4]" heap0] by auto
qed

definition pd0 :: pool_data where
  "pd0 = \<lparr>pd_mutex = True, pd_queue = thread_queue_init\<rparr>"

definition th0 :: thread_heap where
  "th0 = \<lparr>p_prev = (\<lambda>_. None), p_next = (\<lambda>_. None), is_in_pool = (\<lambda>_. False)\<rparr>"

definition wp0 :: wait_pool where
  "wp0 = \<lparr>wp_mutex = False, wp_queue = thread_queue_init, wp_sleepers = [], wp_woken = []\<rparr>"

lemma deadline_nanoseconds_overflow:
  "pop_wait_deadline 0 500000000 (1 / 2) = (0, 10 ^ 9)"
  by (rule deadline_not_normal)

definition two_pools :: sched_world where
  "two_pools = \<lparr>sw_heap = \<lparr>p_prev = (\<lambda>_. Some 2), p_next = (\<lambda>_. Some 2), is_in_pool = (\<lambda>_. True)\<rparr>,
     sw_pools = (\<lambda>p. (p = 1, \<lparr>pd_mutex = False, pd_queue = (if p = 1
       then \<lparr>num_threads = 1, q_head = Some 2, q_tail = Some 2, q_is_empty = False\<rparr>
       else \<lparr>num_threads = 0, q_head = None, q_tail = None, q_is_empty = True\<rparr>)\<rparr>)),
     sw_log = [], sw_pool_of = (\<lambda>_. None)\<rparr>"

lemma two_pools_ok: "world_ok two_pools" "pool_units p two_pools = (if p = 1 then [2] else [])"
proof -
  have rep: "pool_rep (sw_heap two_pools) (snd (sw_pools two_pools p)) (if p = 1 then [2] else [])" for p
    by (simp add: two_pools_def pool_rep_def tq_rep_def linked_def)
  then show u: "pool_units p two_pools = (if p = 1 then [2] else [])" for p
    by (rule rep_units)
  show "world_ok two_pools"
    using rep by (auto simp: world_ok_def u)
qed

definition one_pool_table :: pool_table where
  "one_pool_table = [5 \<mapsto> new_pool ABT_POOL_ACCESS_MPMC]"

lemma one_pool_table_ok: "table_ok one_pool_table" "fresh_alloc (\<lambda>i. Some (10 + i)) one_pool_table"
  "5 \<in> dom one_pool_table"
  by (auto simp: table_ok_def fresh_alloc_def one_pool_table_def new_pool_def split: if_splits)

lemma ws_schedulers_share_pools:
  assumes "length ps = num" "\<forall>i. m i = (True, True)" "set ps \<subseteq> dom T"
  shows "\<exists>ss. ABT_create_ws_scheds True True True m alloc num (map Some ps) T
      = Some (ss, add_refs (\<lambda>p. int num * uses ps p) T) \<and> length ss = num \<and>
    (\<forall>i < num. ws_made 10 (rotate i ps) (ss ! i) \<and> hd (rotate i ps) = ps ! i \<and> mset (rotate i ps) = mset ps)"
proof -
  have "hd (rotate i ps) = ps ! i" "mset (rotate i ps) = mset ps" if "i < num" for i
  proof -
    have "ps \<noteq> []"
      using that assms(1) by auto
    then show "hd (rotate i ps) = ps ! i" "mset (rotate i ps) = mset ps"
      using that assms(1) by (simp_all add: hd_rotate_conv_nth mset_rotate)
  qed
  then show ?thesis
    using create_ws_scheds [OF assms] by blast
qed

lemma ws_schedulers_share_pools_witness:
  "\<exists>ss. ABT_create_ws_scheds True True True (\<lambda>_. (True, True)) (\<lambda>_ _. None) 1 (map Some [5]) one_pool_table
      = Some (ss, add_refs (\<lambda>p. int 1 * uses [5] p) one_pool_table) \<and> length ss = 1 \<and>
    (\<forall>i < 1. ws_made 10 (rotate i [5]) (ss ! i) \<and> hd (rotate i [5]) = [5 :: nat] ! i \<and> mset (rotate i [5]) = mset [5 :: nat])"
  by (rule ws_schedulers_share_pools) (use one_pool_table_ok(3) in simp_all)

definition one_assoc :: associations where
  "one_assoc = \<lparr>as_table = unit_init_hash_table, as_unit = (\<lambda>_. 9), as_pool = (\<lambda>_. None)(8 := Some 0), as_calls = []\<rparr>"

lemma config_reads_back:
  assumes "ABT_sched_config_var_end \<notin> fst ` set kvs"
  shows "\<exists>c. ABT_sched_config_create True True (arg_list kvs) = Some (ABT_SUCCESS, Some c) \<and>
    (\<forall>k. ABTI_sched_config_read c k =
      Some (case map_of (rev kvs) k of Some e \<Rightarrow> (ABT_SUCCESS, Some e) | None \<Rightarrow> (ABT_ERR_INV_ARG, None)))"
proof -
  obtain c where c: "ABT_sched_config_create True True (arg_list kvs) = Some (ABT_SUCCESS, Some c)" "ht_ok c"
    "config_map c = map_of (rev kvs)"
    using sched_config_create_map [OF assms] by blast
  have "ABTI_sched_config_read c k =
      Some (case map_of (rev kvs) k of Some e \<Rightarrow> (ABT_SUCCESS, Some e) | None \<Rightarrow> (ABT_ERR_INV_ARG, None))" for k
    using sched_config_read_map [OF c(2), of k] fun_cong [OF c(3), of k] by simp
  then show ?thesis
    using c(1) by blast
qed

lemma config_reads_back_witness:
  "\<exists>c. ABT_sched_config_create True True (arg_list [(-4, V_int 50), (7, V_ptr 3)]) = Some (ABT_SUCCESS, Some c) \<and>
    (\<forall>k. ABTI_sched_config_read c k =
      Some (case map_of (rev [(-4, V_int 50), (7, V_ptr 3)]) k of
        Some e \<Rightarrow> (ABT_SUCCESS, Some e) | None \<Rightarrow> (ABT_ERR_INV_ARG, None)))"
  by (rule config_reads_back) (simp add: ABT_sched_config_var_end_def)

lemmas runtime_defs = errno_of_def ABT_thread_create_def ythread_create_def Let_def stack_kind_of_def named_type_def
  new_work_unit_def init_pool_def ABTI_thread_init_pool_def ABTI_unit_init_builtin_def ABTI_unit_get_builtin_unit_def
  set_unit_def ABTI_pool_push_def ABTI_pool_remove_def schedule_enter_def ABTI_thread_handle_request_def
  ABTI_ythread_run_child_def set_state_def upd_def ABTI_ythread_switch_to_child_internal_def set_thread_def success_def
  ABT_thread_join_def thread_join_def is_self_def primary_def main_sched_def ABTI_thread_set_request_def
  ABTI_ythread_suspend_join_def ABTI_ythread_switch_to_parent_internal_def ABTI_ythread_callback_suspend_join_def
  ABTI_pool_inc_num_blocked_def idle_ready_def on_stream_def may_switch_def handle_ok_def st_def lst_def par_def

lemmas migrate_defs = ABT_thread_migrate_to_pool_def with_thread_def with_pool_def not_migratable_def
  thread_migrate_to_pool_def ABTI_thread_get_mig_data_def ABTI_ythread_suspend_def ABTI_ythread_callback_suspend_def
  ABTI_thread_handle_request_migrate_def set_associated_pool_def ABTI_thread_set_associated_pool_def
  ABTI_unit_is_builtin_def ABTI_thread_unset_request_def ABT_thread_cancel_def fails_def

definition idle_unit :: "thread_type set \<Rightarrow> work_unit" where
  "idle_unit ty = new_work_unit ty None 0 0"

definition root_only :: runtime where
  "root_only = \<lparr>
     rt_unit = [2 \<mapsto> (idle_unit {ABTI_THREAD_TYPE_YIELDABLE, ABTI_THREAD_TYPE_ROOT, ABTI_THREAD_TYPE_NAMED})
       \<lparr>wu_state := ABT_THREAD_STATE_RUNNING, wu_last_xstream := Some 0\<rparr>],
     rt_assoc = \<lparr>as_table = unit_init_hash_table, as_unit = (\<lambda>_. 0), as_pool = (\<lambda>_. None), as_calls = []\<rparr>,
     rt_queue = (\<lambda>_. []), rt_blocked = (\<lambda>_. 0), rt_thread = (\<lambda>_. 2), rt_locks = {}, rt_replace = {}, rt_woken = [],
     rt_callbacks = []\<rparr>"

lemma root_only_ok: "rt_ok (\<lambda>_. True) {} {} (\<lambda>x. if x = 0 then [2] else []) (\<lambda>_. 0) root_only"
proof (rule rt_okI)
  have t: "table_map unit_init_hash_table u = None" for u
    using init_ok by simp
  have "as_table (rt_assoc root_only) = unit_init_hash_table"
    by (simp add: root_only_def)
  then show "units_sound (\<lambda>_. True) root_only"
    using init_ok t by (simp add: units_sound_def assoc_ok_def root_only_def req_def idle_unit_def new_work_unit_def)
  show "stacks_ok {} (\<lambda>x. if x = 0 then [2] else []) root_only"
    by (auto simp: stacks_ok_def root_only_def views idle_unit_def new_work_unit_def split: if_splits)
  show "queues_ok {} root_only" "counts_ok {} (\<lambda>_. 0) root_only" "links_ok {} {} root_only" "hands_ok {} root_only"
    by (auto simp: queues_ok_def counts_ok_def links_ok_def hands_ok_def joins_def blocked_in_def root_only_def views
        idle_unit_def new_work_unit_def split: if_splits)
qed

definition plain_alloc :: "thread_ptr \<Rightarrow> alloc" where
  "plain_alloc t = \<lparr>al_new = t, al_thread = (\<lambda>_. ABT_SUCCESS), al_mig_data = ABT_SUCCESS, al_mig_key = ABT_SUCCESS,
     al_sched_key = ABT_SUCCESS, al_default_stacksize = 16384\<rparr>"

definition plain_env :: env where
  "plain_env = \<lparr>en_builtin = (\<lambda>_. True), en_malloc_ok = True, en_new_unit = 64, en_mig_data = ABT_SUCCESS\<rparr>"

definition start_two :: "call list" where
  "start_two =
     [Thread_create (plain_alloc 4) plain_env (Some 0) 0 0 None True,
      Thread_create (plain_alloc 6) plain_env (Some 0) 0 0 None True,
      Pool_take 0 4, Sched_run plain_env 0 4]"

lemmas program_defs = start_two_def root_only_def plain_env_def plain_alloc_def idle_unit_def new_work_unit_def
  new_ptr_def fresh_env_def init_ok runtime_defs

definition join_program :: "call list" where
  "join_program = start_two @ [Thread_join plain_env 1 (Some 0) (Some 6), Pool_take 0 6, Sched_run plain_env 0 6]"

lemma start_two_allowed: "allowed_run (\<lambda>_. True) start_two root_only" "calm_run start_two root_only"
  by (simp_all add: program_defs suspends_def)

lemma join_program_allowed: "allowed_run (\<lambda>_. True) join_program root_only" "calm_run join_program root_only"
  by (simp_all add: join_program_def program_defs suspends_def mig_pending_def req_def)

definition migrating_program :: "call list" where
  "migrating_program = start_two @ [Thread_migrate_to_pool plain_env (Some 4) (Some 1)]"

lemma migrating_program_allowed: "allowed_run (\<lambda>_. True) migrating_program root_only"
  by (simp add: migrating_program_def program_defs migrate_defs)

definition cancelling_program :: "call list" where
  "cancelling_program = start_two @ [Thread_cancel (Some 6), Pool_take 0 6]"

lemma cancelling_program_allowed: "allowed_run (\<lambda>_. True) cancelling_program root_only"
  by (simp add: cancelling_program_def program_defs migrate_defs)

lemma pop_program_allowed: "allowed_run (\<lambda>_. True) (start_two @ [Pool_take 0 6]) root_only"
  by (simp add: program_defs)

lemma suspend_to_leaves_target_ready:
  assumes "ABT_self_suspend_to E (Some x) (Some n) w = Some (ABT_SUCCESS, w')" "st w n = Some ABT_THREAD_STATE_READY"
    "\<not> mig_pending w (rt_thread w x)"
  shows "rt_thread w' x = n \<and> ABT_thread_get_state (Some n) w' = Some (Inr ABT_THREAD_STATE_READY)"
proof -
  obtain u where u: "rt_unit w (rt_thread w x) = Some u" "ABTI_THREAD_TYPE_YIELDABLE \<in> wu_type u"
    using assms(1) by (cases "rt_unit w (rt_thread w x)") (auto simp: ABT_self_suspend_to_def api_defs split: if_splits)
  obtain v where v: "rt_unit w n = Some v"
    using live [OF assms(2)] by blast
  have "ABTI_ythread_suspend_to E x (rt_thread w x) n w = Some w'" "n \<noteq> rt_thread w x"
    using assms(1) u v by (auto simp: ABT_self_suspend_to_def api_defs split: if_splits)
  from suspend_to_ready [OF this(1) assms(2) this(2)] have "rt_thread w' x = n \<and> st w' n = Some ABT_THREAD_STATE_READY"
    using u(1) assms(3) by simp
  then show ?thesis
    by (auto simp: ABT_thread_get_state_def query_def st_def)
qed

lemma suspend_to_leaves_target_ready_witness:
  "\<exists>w w'. run_calls (start_two @ [Pool_take 0 6]) root_only = Some w \<and>
    ABT_self_suspend_to plain_env (Some 0) (Some 6) w = Some (ABT_SUCCESS, w') \<and>
    rt_thread w' 0 = 6 \<and> ABT_thread_get_state (Some 6) w' = Some (Inr ABT_THREAD_STATE_READY)"
proof -
  obtain w where w: "run_calls (start_two @ [Pool_take 0 6]) root_only = Some w"
    using run_ok [OF root_only_ok pop_program_allowed] by blast
  have "run_calls (start_two @ [Pool_take 0 6]) root_only = Some w \<Longrightarrow> rt_thread w 0 = 4 \<and>
    st w 6 = Some ABT_THREAD_STATE_READY \<and> \<not> mig_pending w 4 \<and>
    (\<exists>w'. ABT_self_suspend_to plain_env (Some 0) (Some 6) w = Some (ABT_SUCCESS, w'))"
    by (simp add: program_defs, hypsubst) (simp add: program_defs migrate_defs mig_pending_def req_def ABT_self_suspend_to_def
        with_self_def with_ythread_def ABTI_ythread_suspend_to_def ABTI_ythread_switch_to_sibling_internal_def)
  with w(1) obtain w' where "rt_thread w 0 = 4" "st w 6 = Some ABT_THREAD_STATE_READY" "\<not> mig_pending w 4"
    "ABT_self_suspend_to plain_env (Some 0) (Some 6) w = Some (ABT_SUCCESS, w')"
    by blast
  then show ?thesis
    using suspend_to_leaves_target_ready [of plain_env 0 6 w w'] w by auto
qed

lemma migrate_takes_no_other_stream:
  assumes "rt_unit w t = Some u" "ABTI_THREAD_TYPE_MIGRATABLE \<in> wu_type u" "ABTI_THREAD_TYPE_MAIN_SCHED \<notin> wu_type u"
    "\<forall>(x, running, s) \<in> set xstreams. \<exists>p \<in> set (sc_pools s). p \<noteq> pool_of w t"
  shows "ABT_thread_migrate E True xstreams (Some t) w = Some (ABT_ERR_MIGRATION_NA, w)"
  using migrate_loop_na [OF assms(4)] assms(1-3) by (simp add: ABT_thread_migrate_def api_defs not_migratable_def)

definition two_streams :: "(nat \<times> bool \<times> unit sched) list" where
  "two_streams = [(0, True, \<lparr>sc_used = ABTI_SCHED_MAIN, sc_automatic = True, sc_kind = 0, sc_request = 0, sc_pools = [Some 0, Some 1],
     sc_ythread = None, sc_data = None, sc_get_migr_pool = None\<rparr>),
   (1, True, \<lparr>sc_used = ABTI_SCHED_MAIN, sc_automatic = True, sc_kind = 0, sc_request = 0, sc_pools = [Some 2, Some 1],
     sc_ythread = None, sc_data = None, sc_get_migr_pool = None\<rparr>)]"

lemma migrate_takes_no_other_stream_witness:
  "\<exists>w. run_calls start_two root_only = Some w \<and>
    ABT_thread_migrate plain_env True two_streams (Some 6) w = Some (ABT_ERR_MIGRATION_NA, w)"
proof -
  obtain w where w: "run_calls start_two root_only = Some w"
    using run_ok [OF root_only_ok start_two_allowed(1)] by blast
  have "run_calls start_two root_only = Some w \<Longrightarrow> pool_of w 6 = Some 0 \<and>
    (\<exists>u. rt_unit w 6 = Some u \<and> ABTI_THREAD_TYPE_MIGRATABLE \<in> wu_type u \<and> ABTI_THREAD_TYPE_MAIN_SCHED \<notin> wu_type u)"
    by (simp add: program_defs, hypsubst) simp
  with w obtain u where u: "pool_of w 6 = Some 0" "rt_unit w 6 = Some u" "ABTI_THREAD_TYPE_MIGRATABLE \<in> wu_type u"
    "ABTI_THREAD_TYPE_MAIN_SCHED \<notin> wu_type u"
    by blast
  have "ABT_thread_migrate plain_env True two_streams (Some 6) w = Some (ABT_ERR_MIGRATION_NA, w)"
    by (rule migrate_takes_no_other_stream [OF u(2-4)]) (simp add: two_streams_def u(1))
  then show ?thesis
    using w by blast
qed

definition race_env :: cg_env where
  "race_env = \<lparr>ce_threads = 3, ce_pools = 3, ce_stealing = False, ce_na = 5\<rparr>"

definition race_state :: "int cg" where
  "race_state = \<lparr>cg_colidx = [], cg_rowstr = replicate 6 0, cg_a = [], cg_x = replicate 7 1, cg_z = replicate 7 0,
     cg_p = replicate 7 0, cg_q = replicate 7 0, cg_r = replicate 7 0, cg_local = (\<lambda>_. 0), cg_out = (\<lambda>_. replicate 3 None)\<rparr>"

definition demo_env :: "nat \<Rightarrow> cg_env" where
  "demo_env pools = \<lparr>ce_threads = 2, ce_pools = pools, ce_stealing = False, ce_na = 2\<rparr>"

definition demo_arrays :: "'v :: {zero, one} cg" where
  "demo_arrays = \<lparr>cg_colidx = [0, 1, 0, 1], cg_rowstr = [0, 2, 4], cg_a = [1, 0, 0, 1], cg_x = [1, 1, 1, 0], cg_z = replicate 4 0,
     cg_p = replicate 4 0, cg_q = replicate 4 0, cg_r = replicate 4 0, cg_local = (\<lambda>_. 0), cg_out = (\<lambda>_. [])\<rparr>"

definition demo_row :: "int sp" where
  "demo_row = \<lparr>sp_rowstr = [0, 4], sp_last_n = [], sp_v = [5, 6, 0, 0], sp_iv = [1, 3, -1, -1], sp_nzloc = [0], sp_a = [], sp_colidx = []\<rparr>"

definition demo_rows :: "int row list" where
  "demo_rows = [[(1, 3), (0, 1)], [(0, 2), (1, 1)], [(1, 2), (2, 1)]]"

definition demo_sp :: "int sp" where
  "demo_sp = \<lparr>sp_rowstr = replicate 4 9, sp_last_n = [0, 0], sp_v = replicate 12 9, sp_iv = replicate 12 9,
     sp_nzloc = replicate 3 9, sp_a = replicate 12 0, sp_colidx = replicate 12 0\<rparr>"

definition being_freed :: life_sys where
  "being_freed = life_start\<lparr>ls_caller := CJoinThread True, ls_life := (ls_life life_start)\<lparr>lf_stop := True\<rparr>, ls_joined := False\<rparr>"

lemma being_freed_reachable: "life_reachable by_the_rules being_freed"
  using reach_call [OF life_reachable.init, of by_the_rules Free]
  by (simp add: being_freed_def life_start_def by_the_rules_def)

definition first_list :: xs_state where
  "first_list = (\<lparr>xs_prev = (\<lambda>_. None), xs_next = (\<lambda>_. None), xs_rank = (\<lambda>_. 0)\<rparr>,
     \<lparr>p_xstream_head = Some 0, num_xstreams = 1, max_xstreams = 4\<rparr>)"

definition used_sched :: "bool \<Rightarrow> unit sched" where
  "used_sched main = \<lparr>sc_used = (if main then ABTI_SCHED_MAIN else ABTI_SCHED_NOT_USED), sc_automatic = False, sc_kind = 0,
     sc_request = 0, sc_pools = [], sc_ythread = (if main then Some 30 else None), sc_data = None, sc_get_migr_pool = None\<rparr>"

definition first_world :: "unit xs_world" where
  "first_world = \<lparr>xw_list = first_list,
     xw_obj = [0 \<mapsto> \<lparr>xo_type = ABTI_XSTREAM_TYPE_PRIMARY, xo_state = ABT_XSTREAM_STATE_RUNNING, xo_main_sched = Some 3, xo_replace = None\<rparr>],
     xw_held = {(0, PObject)}, xw_sched = [3 \<mapsto> used_sched True, 4 \<mapsto> used_sched False], xw_pools = Map.empty\<rparr>"

definition first_env :: "abt_errno \<Rightarrow> part_env" where
  "first_env pool = \<lparr>ne_object = Some 1, ne_local = ABT_SUCCESS, ne_root = ABT_SUCCESS, ne_root_pool = pool,
     ne_sched_ythread = ABT_SUCCESS, ne_context = ABT_SUCCESS, ne_sched_thread = 31\<rparr>"

definition first_default :: "unit default_env" where
  "first_default = \<lparr>dv_id = 7, dv_malloc0 = True, dv_malloc1 = True, dv_malloc2 = True, dv_alloc = (\<lambda>i. Some (10 + i)),
     dv_def = (\<lambda>_. \<lparr>def_kind = 0, def_init = None, def_get_migr_pool = None\<rparr>)\<rparr>"

lemma first_world_ok: "streams_ok 0 [0 \<mapsto> 0] first_world" "default_env_ok first_default first_world"
proof -
  have "rank_list (fst first_list) (snd first_list) [0]" "rank_of (fst first_list) [0] = [0 \<mapsto> 0]"
    by (auto simp: first_list_def rank_list_def ranks_def rank_of_def fun_eq_iff)
  then show "streams_ok 0 [0 \<mapsto> 0] first_world"
    unfolding streams_ok_def rank_map_def by (auto simp: first_world_def first_list_def)
  show "default_env_ok first_default first_world"
    by (simp add: default_env_ok_def first_default_def first_world_def table_ok_def fresh_alloc_def)
qed

lemma first_created:
  "map_option (\<lambda>(err, r, _). (err, r)) (ABT_xstream_create (first_env ABT_SUCCESS) first_default None first_world) = Some (ABT_SUCCESS, Some 1)"
  by code_simp

end
