(* ===== verification/Spec2Isabelle.thy ===== *)
theory Spec2Isabelle
  imports Scenarios
begin

text \<open>
  Verification of the Argobots runtime of this repository (\<^verbatim>\<open>src/argobots_framework\<close>) and of
  the programs built on it: the parallel reduction and the two work-stealing schedulers of
  \<^verbatim>\<open>examples/\<close>, the conjugate gradient and the Jacobi benchmark. Paths below are relative to
  \<^verbatim>\<open>src/argobots_framework\<close> if not said otherwise, and file names without a directory are in its
  \<^verbatim>\<open>src/\<close>.

  \<^bold>\<open>The program.\<close> Argobots runs user-level threads (ULTs) and tasklets, the work units, on
  execution streams, each one a native thread. A work unit waits in a pool; a scheduler is a loop
  that pops from its pools and runs what it gets. ULTs that wait for each other (mutex, condition
  variable, barrier, eventual, future, readers-writer lock, join) leave their stream: they are
  BLOCKED, counted in their pool, and pushed back when they are resumed.

  \<^bold>\<open>Theories and sources.\<close>
  \<^item> Prelude: return codes and shared lemmas. A C function that returns a code and changes state
    is a function to a pair; \<open>None\<close> is undefined behaviour (a NULL pointer, a failed assertion), so
    that a result \<open>Some\<close> is a claim.
  \<^item> Pools: ThreadQueue (\<^verbatim>\<open>pool/thread_queue.h\<close>), PoolBase (\<^verbatim>\<open>include/abti_unit.h\<close>, spinlocks),
    PoolFifo, PoolRandws, PoolFifoWait (\<^verbatim>\<open>pool/fifo.c\<close>, \<^verbatim>\<open>randws.c\<close>, \<^verbatim>\<open>fifo_wait.c\<close>). Queues are heaps of
    link fields; the pools refine a queue or a deque.
  \<^item> Units of user-defined pools: UnitMap (\<^verbatim>\<open>unit.c\<close>).
  \<^item> Synchronization: Waitlist (\<^verbatim>\<open>include/abti_waitlist.h\<close>), SyncBase, Barrier, Eventual, Future,
    Mutex, Cond, Rwlock (\<^verbatim>\<open>barrier.c\<close>, \<^verbatim>\<open>eventual.c\<close>, \<^verbatim>\<open>futures.c\<close>, \<^verbatim>\<open>mutex.c\<close>, \<^verbatim>\<open>cond.c\<close>,
    \<^verbatim>\<open>rwlock.c\<close> and their headers). What runs under an object's spinlock is one function on
    its state; what runs without it is cut at every shared access and composed to a step relation
    over any number of threads.
  \<^item> Tables: KeyMap, HashTable (\<^verbatim>\<open>util/hashtable.c\<close>), Config (\<^verbatim>\<open>sched/sched_config.c\<close>,
    \<^verbatim>\<open>pool/pool_config.c\<close>), KeyTable (\<^verbatim>\<open>key.c\<close>, \<^verbatim>\<open>include/abti_key.h\<close>).
  \<^item> Schedulers: SchedCore and SchedRefs (\<^verbatim>\<open>sched/sched.c\<close>: objects and reference counts), SchedLoops
    and SchedProps (\<^verbatim>\<open>sched/basic.c\<close>, \<^verbatim>\<open>prio.c\<close>, \<^verbatim>\<open>randws.c\<close>, \<^verbatim>\<open>basic_wait.c\<close>), WorkSteal, CostMeta and
    CostAware (\<^verbatim>\<open>examples/workstealing_scheduler/\<close>).
  \<^item> Atoi (\<^verbatim>\<open>util/atoi.c\<close>).
  \<^item> RedOps, Reduction, ReductionTree (\<^verbatim>\<open>examples/reduction/abt_reduction.c\<close>).
  \<^item> Scenarios: concrete states and runs, on which the witnesses evaluate the model.
  \<^item> Work units: Ythread (\<^verbatim>\<open>include/abti_ythread.h\<close>, \<^verbatim>\<open>include/abti_thread.h\<close>, \<^verbatim>\<open>ythread.c\<close> and the
    internal functions of \<^verbatim>\<open>thread.c\<close>: switches, their callbacks, requests), ThreadApi
    (\<^verbatim>\<open>thread.c\<close>, \<^verbatim>\<open>task.c\<close>, \<^verbatim>\<open>self.c\<close>, \<^verbatim>\<open>thread_attr.c\<close>: creation, joining, migration, the API with its
    checks). The state is a map of descriptors, the queues and counters of the pools, and the
    current work unit of every stream; a freed descriptor is not in the map.
  \<^item> YthreadInv, YthreadMoves, YthreadRequests, YthreadSteps, YthreadCalm: the invariant of that
    state (who runs where, who is queued, counted, joined), and that every operation keeps it.
    ThreadLife adds creation, reviving, pools and joins, ThreadRun runs of any calls, ThreadFacts
    single promises and defects.
  \<^item> Execution streams (\<^verbatim>\<open>stream.c\<close>): StreamRank (the sorted list of streams and their ranks), StreamLife
    (\<^verbatim>\<open>arch/abtd_stream.c\<close>: the native thread of a stream against a caller, one step per access, with
    spurious wake-ups), Streams (objects: creation stage by stage, clean-up, main schedulers).
  \<^item> Applications (paths from the root of the repository): Phases, the parallel phases they are made
    of, ULTs over parts of an index range between creation and join, interleaved step by step by
    an arbitrary schedule. ConjGrad, ConjGradFacts, ConjGradReal (\<^verbatim>\<open>cg_argobots_fixed/CG/cg.c\<close>: the
    solver and the power method, any schedule against the textbook), NasRand
    (\<^verbatim>\<open>cg_argobots_fixed/common/randdp.c\<close>, the matrix rows of \<^verbatim>\<open>makea\<close>), Sparse (the assembly),
    Jacobi (\<^verbatim>\<open>jac3d_argobots_fixed/jac3d.c\<close>).

  \<^bold>\<open>Interfaces.\<close> A locale states what one part promises another, and is interpreted on the
  model's own definitions: \<open>unit_store\<close> (PoolBase), what a pool's push and pop promise its
  iterated operations, on the FIFO and the work-stealing pool; \<open>wake_all\<close> and \<open>one_shot\<close>
  (SyncBase), objects that wake all their waiters, on the condition variable, the eventual and
  the future; \<open>key_table\<close> and \<open>deletable_table\<close> (KeyMap) on the hash table; \<open>red_monoid\<close> (RedOps),
  what a reduction operator needs so that the grouping does not matter, on the operators;
  \<open>work_pools\<close> and \<open>draining_pools\<close> (SchedProps), what a scheduler asks of its pools, and
  \<open>stealing_pools\<close> (WorkSteal) on a world of built-in pools; \<open>chunked_phase\<close> (Phases) and
  \<open>summing_phase\<close> (ConjGradFacts), phases whose ULTs do not interfere, on those of the solver.

  \<^bold>\<open>Groups of lemmas.\<close> For the data structures, a representation relation between heap and list
  and one lemma per operation, which is total on represented states. For the concurrent objects,
  an invariant, its preservation by every step, and progress: a state where nobody can move is a
  final one. For the loops, a measure or enough fuel. For the reduction, an invariant of all
  interleavings that splits the array among the ULTs that are still running.

  \<^bold>\<open>Bounds.\<close> Integers have the width of the code where it matters: the counters of the
  schedulers and the arrays of the cost-aware one are 32 bits wide (their properties ask for
  fewer than \<open>2 ^ 32\<close> pools, and for an event frequency that leaves room for one more round), the
  reduction's steps are \<^verbatim>\<open>int\<close> (at most \<open>2 ^ 30\<close> ULTs), its integer elements wrap, the conversions of
  \<^verbatim>\<open>atoi.c\<close> clamp. Doubles are real numbers and rounding is
  out of scope, except in NasRand, which rounds every operation, and in the reproducibility of the
  solver, which holds in any arithmetic. Scheduler loops return
  \<open>None\<close> when fuel runs out; the theorems give the fuel that is enough, so they claim termination.
  Allocation fails when a flag says so, and both outcomes are covered. Ranks of streams are below
  the largest \<^verbatim>\<open>int\<close>, for which the code overflows.

  \<^bold>\<open>Not modelled.\<close> Context switching (assembly), atomics and futexes (each is one step of a model,
  sequentially consistent), clocks, printing, logging and tool callbacks, start-up and
  shut-down, CPU binding, memory pools, large pages, and the demo programs. What a native thread runs
  is cut to the end of its main scheduler in StreamLife, and that end is part of the join in Streams. The
  components of the manifest say what is missing where a part is modelled only in part.
\<close>

section \<open>Properties\<close>

text \<open>
  C1. The tree reduction, for every integer element type and every operator but subtraction, any
  number of threads and any interleaving: once \<^verbatim>\<open>reduce_common\<close> has
  returned, the result is the sequential fold of the whole array from the default value; until
  then some thread can run, so the system never deadlocks.
\<close>

theorem tree_reduction_correct:
  assumes "op \<noteq> Rsub" "set array \<subseteq> values_of ty" "few_threads n"
    and "red_reachable (int_body op ty) n array (int_default op ty) s"
  shows "if rd_main s = MReturn
    then rd_result s = Some (foldl (int_body op ty) (int_default op ty) array)
    else \<exists>s'. red_step (int_body op ty) n array (int_default op ty) s s'"
  using finished_result [OF red_monoid_int [OF assms(1)] assms(2,3) red_reachable_inv [OF assms(4,3)]]
    red_progress [OF red_reachable_inv [OF assms(4,3)] assms(3)] by simp

theorem tree_reduction_correct_witness:
  "\<exists>s. red_reachable (int_body Rsum TInt) 3 [1, 2, 3, 4, 5, 6, 7] (int_default Rsum TInt) s \<and>
     rd_main s = MReturn \<and> rd_result s = Some 28"
proof -
  have n: "few_threads 3"
    by (simp add: few_threads_def)
  obtain s where s: "red_reachable (int_body Rsum TInt) 3 [1, 2, 3, 4, 5, 6, 7] (int_default Rsum TInt) s"
    "rd_main s = MReturn"
    by (rule red_end_reachable [OF n])
  moreover have "foldl (int_body Rsum TInt) (int_default Rsum TInt) [1, 2, 3, 4, 5, 6, 7] = 28"
    by (simp add: wrap_def signed_take_bit_int_eq_self)
  ultimately show ?thesis
    using tree_reduction_correct [OF _ _ n s(1)] by (auto simp: values_of_def type_min_def type_max_def)
qed

text \<open>
  C2. Termination of the tree reduction: every step lowers a measure of the state, so every schedule
  is finite, and from every reachable state the main thread does return.
\<close>

theorem tree_reduction_terminates:
  assumes "few_threads n" "red_reachable f n array d s"
  shows "(\<forall>k t. red_steps f n array d k s t \<longrightarrow> k + red_measure n array t \<le> red_measure n array s) \<and>
    (\<exists>k t. red_steps f n array d k s t \<and> rd_main t = MReturn)"
  using red_steps_bound [OF red_reachable_inv [OF assms(2,1)]]
    red_can_finish [OF assms(1) red_reachable_inv [OF assms(2,1)]] by blast

theorem tree_reduction_terminates_witness:
  "\<exists>k t. red_steps (int_body Rsum TInt) 2 [1, 2, 3] 0 k (red_start 2) t \<and> rd_main t = MReturn"
  using tree_reduction_terminates [OF _ red_start_reachable, of 2 "int_body Rsum TInt" "[1, 2, 3]" 0]
  by (simp add: few_threads_def)

text \<open>
  C3. No ULT of the tree reduction ever fails: it does not read a slot of
  \<^verbatim>\<open>thread_results\<close> that is not written yet or is freed already, and
  \<^verbatim>\<open>step\<close> does not overflow for up to \<open>2 ^ 30\<close> threads.
\<close>

theorem tree_reduction_memory_safe:
  assumes "few_threads n" "red_reachable f n array d s" "i < n"
  shows "red_micro f (thread_args n array d i) (rd_pc s i) (rd_slots s) (rd_result s) \<noteq> Fails"
  by (rule red_micro_never_fails [OF red_reachable_inv [OF assms(2,1)] assms(1,3)])

theorem tree_reduction_memory_safe_witness:
  "red_micro (int_body Rmax TLong) (thread_args 4 [7, -2, 9] (type_min TLong) 3) (rd_pc (red_start 4) 3)
     (rd_slots (red_start 4)) (rd_result (red_start 4)) \<noteq> Fails"
  by (rule tree_reduction_memory_safe [OF _ red_start_reachable]) (simp_all add: few_threads_def)

text \<open>
  C4. Mutual exclusion: however lock, trylock, spinlock and unlock of a mutex (recursive or not)
  interleave, at most one thread is in its critical section, and the lock word is set while one
  is.
\<close>

theorem mutex_excludes:
  assumes "mutex_reachable P s" "0 \<notin> P" "t \<in> P" "u \<in> P" "ms_pc s t = Crit" "ms_pc s u = Crit"
  shows "t = u \<and> m_lock (ms_mutex s)"
proof -
  have "lock_inv P s"
    using reachable_mutex_inv [OF assms(1,2)] by (simp add: mutex_inv_def)
  then show ?thesis
    using crit_holder [of P s t u] crit_locked [of P s t] assms by simp
qed

theorem mutex_excludes_witness:
  "(1::nat) = 1 \<and> m_lock (ms_mutex (mutex_start\<lparr>ms_mutex := ABTI_mutex_init\<lparr>m_lock := True\<rparr>,
     ms_pc := (\<lambda>_. Idle)(1 := Crit)\<rparr>))"
  by (rule mutex_excludes [OF mutex_trylock_reachable]) simp_all

text \<open>
  C5. No lost wake-up: if a thread is inside a mutex operation and nobody is in a critical section,
  some thread can move; the waiter that checks the lock again under the waiter lock before it
  sleeps makes this true.
\<close>

theorem mutex_no_deadlock:
  assumes "mutex_reachable P s" "0 \<notin> P" "t0 \<in> P" "ms_pc s t0 \<noteq> Idle" "\<forall>t \<in> P. ms_pc s t \<noteq> Crit"
  shows "\<exists>t \<in> P. can_run s t"
  by (rule inv_run [OF reachable_mutex_inv [OF assms(1,2)] assms(2,5,3,4)])

theorem mutex_no_deadlock_witness:
  "\<exists>t \<in> {1, 2}. can_run (mutex_start\<lparr>ms_pc := (\<lambda>_. Idle)(2 := Try)\<rparr>) t"
proof -
  have "ABTI_mutex_lock 2 (ms_mutex mutex_start) = Moves (Try, ABTI_mutex_init)"
    by (simp add: mutex_start_def ABTI_mutex_lock_def ABTI_mutex_init_def mutex_is_recursive_def
        ABTI_MUTEX_ATTR_NONE_def)
  from mutex_reachable.step [OF mutex_start_reachable mutex_step.lock [OF _ _ this, of "{1, 2}"]]
  have "mutex_reachable {1, 2} (mutex_start\<lparr>ms_pc := (\<lambda>_. Idle)(2 := Try)\<rparr>)"
    by (simp add: mutex_start_def)
  from mutex_no_deadlock [OF this, of 2] show ?thesis
    by simp
qed

text \<open>
  C6. While a writer holds the readers-writer lock, no other thread holds it, neither as a reader nor
  as a writer.
\<close>

theorem rwlock_writer_excludes:
  assumes "rw_reachable P s" "finite P" "t \<in> P" "u \<in> P" "u \<noteq> t" "rs_pc s t = RHeld Writer"
  shows "rs_pc s u \<noteq> RHeld k"
  by (rule writer_alone [OF rw_reachable_inv [OF assms(1,2)] assms(3,6,4,5,2)])

theorem rwlock_writer_excludes_witness:
  "rs_pc (rw_start\<lparr>rs_rw := rw0\<lparr>rw_write_flag := True\<rparr>, rs_pc := (\<lambda>_. RIdle)(1 := RHeld Writer)\<rparr>) 2
    \<noteq> RHeld Reader"
  by (rule rwlock_writer_excludes [OF rw_writer_reachable, of 1]) simp_all

text \<open>
  C7. If a thread is inside an operation of the readers-writer lock and nobody holds the lock, some
  thread can move: the broadcast of the last unlock reaches every sleeper.
\<close>

theorem rwlock_no_lost_wakeup:
  assumes "rw_reachable P s" "finite P" "t0 \<in> P" "rs_pc s t0 \<noteq> RIdle" "\<forall>t \<in> P. \<forall>k. rs_pc s t \<noteq> RHeld k"
  shows "\<exists>t \<in> P. rw_can_run s t"
  by (rule rw_progress [OF rw_reachable_inv [OF assms(1,2)] assms(2,5,3,4)])

theorem rwlock_no_lost_wakeup_witness:
  "\<exists>t \<in> {1, 2}. rw_can_run (rw_start\<lparr>rs_pc := (\<lambda>_. RIdle)(1 := RLockMutex Reader)\<rparr>) t"
proof -
  have "rw_reachable {1, 2} (rw_start\<lparr>rs_pc := (\<lambda>_. RIdle)(1 := RLockMutex Reader)\<rparr>)"
    using rw_reachable.step [OF rw_start_reachable
        rw_step.rdlock [of 1 "{1, 2}" rw_start External "RLockMutex Reader"]]
    by (simp add: rw_start_def ABT_rwlock_rdlock_def)
  from rwlock_no_lost_wakeup [OF this, of 1] show ?thesis
    by simp
qed





text \<open>
  C10. The random number generators are exact: in double arithmetic, rounded after every operation, and
  with 32-bit conversions, they compute the seeds of the linear congruential generator modulo
  \<open>2 ^ 46\<close>. No operation rounds and no conversion overflows.
\<close>

theorem randlc_exact:
  assumes "0 \<le> a" "a < 2 ^ 46" "0 \<le> x" "x < 2 ^ 46"
  shows "randlc (of_int x) (of_int a) = Some (of_int (next_seed a x) / 2 ^ 46, of_int (next_seed a x)) \<and>
    vranlc n (of_int x) (of_int a)
      = Some (map (\<lambda>i. of_int ((next_seed a ^^ Suc i) x) / 2 ^ 46) [0..<n], of_int ((next_seed a ^^ n) x))"
  by (rule conjI [OF randlc_is_lcg [OF assms] vranlc_is_lcg [OF assms]])

theorem randlc_exact_witness:
  "randlc (of_int 314159265) (of_int 1220703125)
    = Some (of_int (next_seed 1220703125 314159265) / 2 ^ 46, of_int (next_seed 1220703125 314159265)) \<and>
   vranlc 3 (of_int 314159265) (of_int 1220703125)
      = Some (map (\<lambda>i. of_int ((next_seed 1220703125 ^^ Suc i) 314159265) / 2 ^ 46) [0..<3],
          of_int ((next_seed 1220703125 ^^ 3) 314159265))"
  by (rule randlc_exact) simp_all

text \<open>
  C11. Generating the matrix: the loops that reject random columns end, for every thread; each thread
  gets its part of the rows a single thread would generate, the parts are all the rows, and
  every row has distinct columns inside the matrix, one of them on the diagonal.
\<close>

theorem makea_threads_agree:
  assumes "0 < n" "n \<le> 2 ^ 30" "nonzer \<le> n" "0 < T" "T \<le> 1024"
  shows "\<exists>rows. makea_thread 1 n nonzer 0 = Some rows \<and> length rows = n \<and> (\<forall>i < n. good_row n nonzer i (rows ! i)) \<and>
    (\<forall>t < T. makea_thread T n nonzer t = Some (drop (makea_low T n t) (take (makea_high T n t) rows))) \<and>
    concat (map (\<lambda>t. drop (makea_low T n t) (take (makea_high T n t) rows)) [0..<T]) = rows"
  by (rule makea_threads) (use assms in auto)

theorem makea_threads_agree_witness:
  "\<exists>rows. makea_thread 1 1400 7 0 = Some rows \<and> length rows = 1400 \<and> (\<forall>i < 1400. good_row 1400 7 i (rows ! i)) \<and>
    (\<forall>t < 8. makea_thread 8 1400 7 t = Some (drop (makea_low 8 1400 t) (take (makea_high 8 1400 t) rows))) \<and>
    concat (map (\<lambda>t. drop (makea_low 8 1400 t) (take (makea_high 8 1400 t) rows)) [0..<8]) = rows"
  by (rule makea_threads_agree) simp_all

text \<open>
  C12. Assembling a row: inserting an element keeps the columns in order, adds the element to the value
  of its column (a new column starts from 0), leaves all other rows as they are and counts
  exactly the duplicates.
\<close>

theorem sparse_insert_correct:
  assumes "places s = A @ row_places es free @ C" "length (sp_iv s) = length (sp_v s)"
    and "sorted_wrt (<) (map fst es)" "\<forall>e \<in> set es. 0 \<le> fst e" "0 \<le> c" "c \<in> fst ` set es \<or> 0 < free"
    and "elem (sp_rowstr s) j = Some (int (length A))"
      "elem (sp_rowstr s) (j + 1) = Some (int (length A) + int (length es + free))" "elem (sp_nzloc s) j = Some d"
  shows "\<exists>s' es'. insert_entry j c va s = Some s' \<and> sorted_wrt (<) (map fst es') \<and>
    map_of es' = (map_of es)(c \<mapsto> (case map_of es c of None \<Rightarrow> 0 | Some x \<Rightarrow> x) + va) \<and>
    places s' = A @ row_places es' (length es + free - length es') @ C \<and>
    elem (sp_nzloc s') j = Some (if c \<in> fst ` set es then d + 1 else d)"
  using insert_entry_sorted [OF assms] .

theorem sparse_insert_correct_witness:
  "\<exists>s' es'. insert_entry 0 2 7 demo_row = Some s' \<and> sorted_wrt (<) (map fst es') \<and>
    map_of es' = (map_of [(1 :: int, 5 :: int), (3, 6)])(2 \<mapsto> (case map_of [(1 :: int, 5), (3, 6)] 2 of None \<Rightarrow> 0 | Some x \<Rightarrow> x) + 7) \<and>
    places s' = [] @ row_places es' (length [(1 :: int, 5 :: int), (3, 6)] + 2 - length es') @ [] \<and>
    elem (sp_nzloc s') 0 = Some (if 2 \<in> fst ` set [(1 :: int, 5 :: int), (3, 6)] then 0 + 1 else 0)"
  by (rule sparse_insert_correct) (simp_all add: demo_row_def places_def row_places_def elem_def numeral_2_eq_2)

text \<open>
  C13. The Jacobi solver: for any number of threads and streams, with and without work stealing and for
  every schedule, it returns with the grids and the largest change of the sequential method.
\<close>

theorem jacobi_sequential:
  assumes "jac_env_ok env"
  shows "\<exists>s eps. jac_main env choice locals junk = Some (s, eps) \<and>
    jacobi_method (je_L env) ITMAX (\<lambda>_. 0, initial_B (je_L env), junk) = (jac_A s, jac_B s, eps)"
  unfolding jac_main_def
  using jac_loop_sequential [OF assms, of "\<lparr>jac_A = \<lambda>_. 0, jac_B = initial_B (je_L env), jac_local = locals,
    jac_eps = replicate (je_threads env) None\<rparr>" ITMAX choice junk] by simp

theorem jacobi_sequential_witness:
  "\<exists>s eps. jac_main \<lparr>je_threads = 3, je_pools = 2, je_stealing = True, je_L = 6\<rparr> (\<lambda>_ i. i) (\<lambda>_. 1) 7 = Some (s, eps) \<and>
    jacobi_method 6 ITMAX (\<lambda>_. 0, initial_B 6, 7) = (jac_A s, jac_B s, eps)"
  using jacobi_sequential [of "\<lparr>je_threads = 3, je_pools = 2, je_stealing = True, je_L = 6\<rparr>" "\<lambda>_ i. i" "\<lambda>_. 1" 7]
  by (simp add: jac_env_ok_def)

text \<open>
  C14. The barrier promise, for repeated use: a thread that has left round \<open>j\<close> proves that
  every participant has entered it.
\<close>

theorem barrier_safe:
  assumes "barrier_reachable P s" "finite P" "t \<in> P" "u \<in> P" "j < bs_passed s t"
  shows "j < bs_arrived s u"
  using reachable_inv [OF assms(1,2)] round_safety [OF _ assms(3-5)] by blast

theorem barrier_safe_witness:
  "0 < bs_arrived \<lparr>bs_heap = heap0, bs_barrier = solo_barrier, bs_arrived = (\<lambda>_. 0)(7 := 1),
     bs_passed = (\<lambda>_. 0)(7 := 1)\<rparr> 7"
  by (rule barrier_safe [OF solo_passes, of 7]) simp_all

text \<open>
  C15. The participants of a barrier never get stuck: in every reachable state one of them can arrive
  or leave.
\<close>

theorem barrier_never_stuck:
  assumes "barrier_reachable P s" "finite P"
  shows "\<exists>s'. barrier_step P s s'"
  using reachable_inv [OF assms] inv_progress [OF _ assms(2)] by blast

theorem barrier_never_stuck_witness:
  "\<exists>s'. barrier_step {7} \<lparr>bs_heap = heap0, bs_barrier = solo_barrier, bs_arrived = (\<lambda>_. 0)(7 := 1),
     bs_passed = (\<lambda>_. 0)(7 := 1)\<rparr> s'"
  by (rule barrier_never_stuck [OF solo_passes]) simp



text \<open>
  C17. The shared FIFO pool is a queue: every sequence of pushes, pops, removals and size queries the
  specification allows gives the results of a list, and leaves the linked ring in the shape of
  that list, with the lock free.
\<close>

theorem fifo_pool_is_queue:
  assumes "fifo_pool_init (Some m) access = (ABT_SUCCESS, Some d)" "access \<noteq> ABT_POOL_ACCESS_PRIV"
    and "fifo_spec_run ops [] = Some (rs, zs)"
  shows "\<exists>h' d'. fifo_run ops (h, d) = Some (rs, h', d') \<and> pool_rep h' d' zs"
  using fifo_run_spec [of "(h, d)" "[]" ops rs zs] fifo_init_rep [OF assms(1,2)] assms(3) by auto

theorem fifo_pool_is_queue_witness:
  "\<exists>d h' d'. fifo_pool_init (Some pd0) ABT_POOL_ACCESS_MPMC = (ABT_SUCCESS, Some d) \<and>
     fifo_run [OPush 2, OPushMany [4, 6, 8], OPop, ORemove 6, OSize, OPopMany 9] (th0, d)
       = Some ([RNone, RNone, RUnits [2], RCode ABT_SUCCESS, RSize 2, RUnits [4, 8]], h', d')"
proof -
  obtain d where d: "fifo_pool_init (Some pd0) ABT_POOL_ACCESS_MPMC = (ABT_SUCCESS, Some d)"
    by (simp add: fifo_pool_init_def Let_def)
  have "fifo_spec_run [OPush 2, OPushMany [4, 6, 8], OPop, ORemove 6, OSize, OPopMany 9] []
      = Some ([RNone, RNone, RUnits [2], RCode ABT_SUCCESS, RSize 2, RUnits [4, 8]], [])"
    by simp
  from fifo_pool_is_queue [OF d _ this, of th0] d show ?thesis
    by blast
qed

text \<open>
  C18. The shared work-stealing pool is a deque: new and revived ULTs go to the head, yielding ones to
  the tail, the owner takes from the head and a thief from the tail, over every sequence of
  calls.
\<close>

theorem randws_pool_is_deque:
  assumes "randws_pool_init (Some m) access = (ABT_SUCCESS, Some d)" "access \<noteq> ABT_POOL_ACCESS_PRIV"
    and "ws_spec_run ops [] = Some (rs, zs)"
  shows "\<exists>h' d'. ws_run ops (h, d) = Some (rs, h', d') \<and> pool_rep h' d' zs"
proof -
  have "pool_rep h d []"
    using assms(1,2) by (auto simp: randws_pool_init_def pool_rep_def Let_def)
  then show ?thesis
    using ws_run_spec [of "(h, d)" "[]" ops rs zs] assms(3) by auto
qed

theorem randws_pool_is_deque_witness:
  "\<exists>d h' d'. randws_pool_init (Some pd0) ABT_POOL_ACCESS_MPMC = (ABT_SUCCESS, Some d) \<and>
     ws_run [WCreate 2, WCreate 4, WYield 6, WSteal, WPop, WSteal, WPop] (th0, d)
       = Some ([None, None, None, Some 6, Some 4, Some 2, None], h', d')"
proof -
  obtain d where d: "randws_pool_init (Some pd0) ABT_POOL_ACCESS_MPMC = (ABT_SUCCESS, Some d)"
    by (simp add: randws_pool_init_def Let_def)
  have "ws_spec_run [WCreate 2, WCreate 4, WYield 6, WSteal, WPop, WSteal, WPop] []
      = Some ([None, None, None, Some 6, Some 4, Some 2, None], [])"
    by simp
  from randws_pool_is_deque [OF d _ this, of th0] d show ?thesis
    by blast
qed

text \<open>
  C19. The blocking FIFO pool loses no wake-up: in every reachable state the ring represents a list,
  and while consumers sleep, every queued unit has a signaled consumer that is about to take it.
\<close>

theorem fifo_wait_no_lost_wakeup:
  assumes "fw_reachable (h, w)"
  shows "\<exists>xs. tq_rep h (wp_queue w) xs \<and> (wp_sleepers w \<noteq> [] \<longrightarrow> length xs \<le> length (wp_woken w))"
  using fw_reachable_inv [OF assms] by (auto simp: fw_inv_def)

theorem fifo_wait_no_lost_wakeup_witness:
  "\<exists>h w xs. fw_reachable (h, w) \<and> wp_sleepers w = [11] \<and> wp_woken w = [10] \<and>
     tq_rep h (wp_queue w) xs \<and> length xs \<le> 1"
proof -
  have 0: "fw_reachable (th0, wp0)"
    by (rule fw_reachable.init) (simp add: fifo_wait_pool_init_def wp0_def)
  have 1: "fw_reachable (th0, wp0\<lparr>wp_sleepers := [10]\<rparr>)"
    by (rule fw_reachable.step [OF 0 fw_step.wait_begin [of 10 _ _ "Inl ()"]])
       (simp add: fifo_wait_pool_pop_wait_begin_def wp0_def thread_queue_is_empty_def thread_queue_init_def)
  have 2: "fw_reachable (th0, wp0\<lparr>wp_sleepers := [10, 11]\<rparr>)"
    by (rule fw_reachable.step [OF 1 fw_step.wait_begin [of 11 _ _ "Inl ()"]])
       (simp add: fifo_wait_pool_pop_wait_begin_def wp0_def thread_queue_is_empty_def thread_queue_init_def)
  have u: "ABTI_unit_get_thread_from_builtin_unit 3 = Some 2"
    by (simp add: ABTI_unit_get_thread_from_builtin_unit_def ABTI_unit_is_builtin_def)
  obtain h' w' where p: "fifo_wait_pool_push 0 (2 + 1) (wp0\<lparr>wp_sleepers := [10, 11]\<rparr>) th0 = Some (h', w')"
    "wp_sleepers w' = [11]" "wp_woken w' = [10]"
    using push_tail_rep [of th0 thread_queue_init "[]" 2]
    by (auto simp: u fifo_wait_pool_push_def wp0_def pthread_cond_signal_def Let_def)
  have 3: "fw_reachable (h', w')"
    by (rule fw_reachable.step [OF 2 fw_step.push [of 2]]) (use p(1) in \<open>simp_all add: th0_def\<close>)
  show ?thesis
    using fifo_wait_no_lost_wakeup [OF 3] 3 p by auto
qed

text \<open>
  C20. Any sequence of calls of work units and external threads, interleaved with what the schedulers
  do, as long as each call is one its caller may make: every call returns, no assertion fails
  and no freed descriptor is touched; afterwards the running work units are those of the
  streams' stacks, a queued unit belongs to one READY work unit of its pool, and a joiner is
  BLOCKED while its target lives.
\<close>

theorem runtime_consistent:
  assumes "rt_ok B {} {} S L w" "allowed_run B cs w"
  shows "\<exists>w' S' L'. run_calls cs w = Some w' \<and> rt_ok B {} {} S' L' w'"
  using run_ok [OF assms] by blast

theorem runtime_consistent_witness:
  "\<exists>w' S' L'. run_calls join_program root_only = Some w' \<and> rt_ok (\<lambda>_. True) {} {} S' L' w'"
  by (rule runtime_consistent [OF root_only_ok join_program_allowed(1)])

text \<open>
  C21. The counter of blocked work units, which tells a scheduler that a pool is not finished although
  it is empty: after any allowed sequence of calls in which nobody blocks while a migration of
  it is pending, it is the number of BLOCKED work units of the pool, for every pool.
\<close>

theorem num_blocked_counts:
  assumes "rt_ok B {} {} S (\<lambda>_. 0) w" "allowed_run B cs w" "calm_run cs w"
  shows "\<exists>w'. run_calls cs w = Some w' \<and>
    (\<forall>p. rt_blocked w' p = int (card {t. st w' t = Some ABT_THREAD_STATE_BLOCKED \<and> pool_of w' t = Some p}))"
proof -
  obtain w' S' where "run_calls cs w = Some w'" "rt_ok B {} {} S' (\<lambda>_. 0) w'"
    using run_ok [OF assms(1,2)] assms(3) by blast
  then show ?thesis
    using rt_okD(4) [of B "{}" "{}" S' "\<lambda>_. 0" w'] by (auto simp: counts_ok_def blocked_in_def)
qed

theorem num_blocked_counts_witness:
  "\<exists>w'. run_calls join_program root_only = Some w' \<and>
    (\<forall>p. rt_blocked w' p = int (card {t. st w' t = Some ABT_THREAD_STATE_BLOCKED \<and> pool_of w' t = Some p}))"
  by (rule num_blocked_counts [OF root_only_ok join_program_allowed])

text \<open>
  C22. No joiner is forgotten: when a ULT with a joiner ends, it switches to the joiner, or the joiner
  is READY and in its pool and the parent runs.
\<close>

theorem exit_resumes_joiner:
  assumes "rt_ok B {} {} S L w" "may_switch (Some x) w" "lnk w (rt_thread w x) = Some (Joiner j)"
  shows "\<exists>w'. ABTI_ythread_exit x (rt_thread w x) w = Some w' \<and>
    (rt_thread w' x = j \<and> st w' j = Some ABT_THREAD_STATE_RUNNING \<or>
     par w (rt_thread w x) = Some (rt_thread w' x) \<and> st w' j = Some ABT_THREAD_STATE_READY \<and>
       (\<exists>p. pool_of w' j = Some p \<and> unit_of w' j \<in> set (rt_queue w' p)))"
proof -
  obtain q r where S: "S x = rt_thread w x # q # r"
    using stack_form [OF assms(1,2)] by blast
  have "joins {} w j (rt_thread w x)"
    using assms(2,3) by (simp add: joins_def may_switch_def on_stream_def)
  from exit_joined [OF assms(1) S this] show ?thesis
    using leave_ok(2) [OF assms(1) S] by auto
qed

theorem exit_resumes_joiner_witness:
  "\<exists>w w'. run_calls join_program root_only = Some w \<and> ABTI_ythread_exit 0 6 w = Some w' \<and>
    (rt_thread w' 0 = 4 \<and> st w' 4 = Some ABT_THREAD_STATE_RUNNING \<or>
     par w 6 = Some (rt_thread w' 0) \<and> st w' 4 = Some ABT_THREAD_STATE_READY \<and>
       (\<exists>p. pool_of w' 4 = Some p \<and> unit_of w' 4 \<in> set (rt_queue w' p)))"
proof -
  obtain w S L where w: "run_calls join_program root_only = Some w" "rt_ok (\<lambda>_. True) {} {} S L w"
    using run_ok [OF root_only_ok join_program_allowed(1)] by blast
  have "run_calls join_program root_only = Some w \<Longrightarrow> may_switch (Some 0) w \<and> rt_thread w 0 = 6 \<and> lnk w 6 = Some (Joiner 4)"
    by (simp add: join_program_def program_defs, hypsubst) (simp add: lnk_def)
  with w(1) have "may_switch (Some 0) w" "rt_thread w 0 = 6" "lnk w 6 = Some (Joiner 4)"
    by blast+
  then show ?thesis
    using exit_resumes_joiner [OF w(2), of 0 4] w(1) by auto
qed

text \<open>
  C23. A scheduler that takes a work unit with a pending cancellation ends it, whatever its function
  would do: it is TERMINATED, or freed if it has no name, and the stacks of the streams are as
  before.
\<close>

theorem cancelled_never_runs:
  assumes "rt_ok B {} {} S L w" "idle_ready w t" "fresh_env B E w" "ABTI_THREAD_REQ_CANCEL \<in> req w t"
  shows "\<exists>w'. ABTI_ythread_schedule body E x t w = Some w' \<and> rt_ok B {} {} S L w' \<and>
    (st w' t = Some ABT_THREAD_STATE_TERMINATED \<or> rt_unit w' t = None)"
  using cancelled_ends [OF assms] by (auto simp: ended_def)

theorem cancelled_never_runs_witness:
  "\<exists>w w'. run_calls cancelling_program root_only = Some w \<and> ABTI_ythread_schedule (\<lambda>_. Some) plain_env 0 6 w = Some w' \<and>
    (st w' 6 = Some ABT_THREAD_STATE_TERMINATED \<or> rt_unit w' 6 = None)"
proof -
  obtain w S L where w: "run_calls cancelling_program root_only = Some w" "rt_ok (\<lambda>_. True) {} {} S L w"
    using run_ok [OF root_only_ok cancelling_program_allowed] by blast
  have "run_calls cancelling_program root_only = Some w \<Longrightarrow> idle_ready w 6 \<and> fresh_env (\<lambda>_. True) plain_env w \<and>
    ABTI_THREAD_REQ_CANCEL \<in> req w 6"
    by (simp add: cancelling_program_def program_defs migrate_defs, hypsubst) (simp add: req_def program_defs)
  with w(1) have "idle_ready w 6" "fresh_env (\<lambda>_. True) plain_env w" "ABTI_THREAD_REQ_CANCEL \<in> req w 6"
    by blast+
  from cancelled_never_runs [OF w(2) this] show ?thesis
    using w(1) by blast
qed

text \<open>
  C24. An eventual: every thread blocked before the set is released by it, in order, and every later
  wait returns at once with the value copied over the start of the buffer.
\<close>

theorem eventual_reaches_all:
  assumes "ABT_eventual_create True (Some buf) n = (ABT_SUCCESS, Some e)" "length buf = nat n"
    and "int (length val) \<le> n" "0 < n" "distinct ts"
  shows "\<exists>s1 s2. ev.blocks ts (h, e) = Some s1 \<and> ev_set val s1 = Some (ts, s2) \<and>
    (\<forall>t. ABT_eventual_wait Yieldable t (Some (snd s2)) (fst s2)
      = Some (Returns ABT_SUCCESS, Some (val @ drop (length val) buf), fst s2, Some (snd s2)))"
proof -
  have "unset (Some buf) val (h, e) []"
    using eventual_create_rep [of n buf h] assms by (auto simp: unset_def)
  from ev.nobody_left_behind [OF this assms(5)] show ?thesis
    by (simp add: written_def)
qed

theorem eventual_reaches_all_witness:
  "\<exists>e s1 s2. ABT_eventual_create True (Some [0, 0, 0, 9]) 4 = (ABT_SUCCESS, Some e) \<and>
     ev.blocks [2, 4, 6] (heap0, e) = Some s1 \<and> ev_set [1, 2, 3] s1 = Some ([2, 4, 6], s2) \<and>
     ABT_eventual_wait Yieldable 8 (Some (snd s2)) (fst s2)
       = Some (Returns ABT_SUCCESS, Some [1, 2, 3, 9], fst s2, Some (snd s2))"
proof -
  obtain e where e: "ABT_eventual_create True (Some [0, 0, 0, 9]) 4 = (ABT_SUCCESS, Some e)"
    by (simp add: ABT_eventual_create_def)
  then show ?thesis
    using eventual_reaches_all [OF e, of "[1, 2, 3]" "[2, 4, 6]" heap0] by auto
qed



text \<open>
  C26. While a caller joins, frees or revives an execution stream, whatever the interleaving with its
  native thread and whatever spurious wake-ups there were: one of the two can move, every move
  lowers a bound on the moves left, and so the call returns. No wake-up is lost.
\<close>

theorem stream_calls_return:
  assumes "life_reachable by_the_rules S" "in_call (ls_caller S)"
  shows "(\<exists>S'. life_moves\<^sup>*\<^sup>* S S' \<and> \<not> in_call (ls_caller S')) \<and> (\<exists>S'. life_moves S S') \<and>
    (\<forall>S'. life_moves S S' \<longrightarrow> moves_left S' < moves_left S)"
  using life_reachable_inv [OF assms(1)] assms(2) call_returns somebody_moves moves_left_less by blast

theorem stream_calls_return_witness:
  "\<exists>S'. life_moves\<^sup>*\<^sup>* being_freed S' \<and> \<not> in_call (ls_caller S')"
  using stream_calls_return [OF being_freed_reachable] by (auto simp: being_freed_def)

text \<open>
  C27. In every interleaving of a stream's native thread with callers that join, free, cancel and,
  after a join, revive it, no assertion fails; after a join, and until a revival, the stream is
  terminated and its native thread waits for a request.
\<close>

theorem stream_life_safe:
  assumes "life_reachable by_the_rules S"
  shows "native_step pick S \<noteq> Fails \<and> caller_step pick S \<noteq> Fails \<and>
    (ls_joined S \<and> ls_caller S = CIdle \<longrightarrow> stream_ended (ls_native S) (ls_life S))"
  using no_assertion_fails [OF life_reachable_inv [OF assms]] joined_ended [OF life_reachable_inv [OF assms]] by blast

theorem stream_life_safe_witness: "native_step Native being_freed \<noteq> Fails \<and> caller_step Native being_freed \<noteq> Fails"
  using stream_life_safe [OF being_freed_reachable] by blast

text \<open>
  C28. The sorted list of streams implements an injective map from streams to ranks: every sequence of
  creations, rank changes and releases, starting with the primary stream, succeeds and fails as
  the map says, an automatic rank is the smallest free one, and the counter is the size of the
  map.
\<close>

theorem stream_ranks_refine:
  assumes "0 < maxx" "rank_ops_allowed p ops [p \<mapsto> 0]"
  shows "\<exists>s. run_rank_ops (RNew p (-1) # ops) (no_xstreams maxx) = Some (True # fst (rank_ops_spec ops [p \<mapsto> 0]), s) \<and>
    rank_map s p (snd (rank_ops_spec ops [p \<mapsto> 0])) \<and>
    inj_on (snd (rank_ops_spec ops [p \<mapsto> 0])) (dom (snd (rank_ops_spec ops [p \<mapsto> 0])))"
proof -
  obtain s1 where 1: "run_rank_op (RNew p (-1)) (no_xstreams maxx) = Some (True, s1)" "rank_map s1 p [p \<mapsto> 0]"
    using primary_rank [OF assms(1)] by blast
  obtain s2 where 2: "run_rank_ops ops s1 = Some (fst (rank_ops_spec ops [p \<mapsto> 0]), s2)"
    "rank_map s2 p (snd (rank_ops_spec ops [p \<mapsto> 0]))"
    using rank_ops_map [OF 1(2) assms(2)] by blast
  then show ?thesis
    using 1(1) rank_map_facts(1) [OF 2(2)] by (intro exI [of _ s2]) (simp del: rank_ops_spec.simps run_rank_op.simps)
qed

theorem stream_ranks_refine_witness:
  "\<exists>s. run_rank_ops [RNew 0 (-1), RNew 1 2, RNew 2 2, RChange 1 3, RReturn 1] (no_xstreams 1) = Some ([True, True, False, True, True], s) \<and>
    rank_map s 0 [0 \<mapsto> 0]"
proof -
  have "rank_ops_allowed 0 [RNew 1 2, RNew 2 2, RChange 1 3, RReturn 1] [0 \<mapsto> 0]"
    by (simp add: card_insert_if)
  from stream_ranks_refine [OF _ this, of 1] show ?thesis
    by (auto simp: fun_upd_twist)
qed



text \<open>
  C30. A stream created on a default scheduler and freed leaves nothing behind: objects, parts,
  schedulers, pools and ranks are as before the creation.
\<close>

theorem stream_create_free_roundtrip:
  assumes "streams_ok p m w" "\<And>x. ne_object E = Some x \<Longrightarrow> m x = None"
    and "card (dom m) < 2 ^ 31 - 1" "default_env_ok Def w"
  shows "\<exists>err r w'. ABT_xstream_create E Def None w = Some (err, r, w') \<and>
    (err = ABT_SUCCESS \<longrightarrow> (\<exists>w''. ABT_xstream_free None r w' = Some (ABT_SUCCESS, None, w'') \<and> only_list w w'' \<and> streams_ok p m w''))"
proof -
  obtain err r w' where "create_on_sched E Def None (-1) w = Some (err, r, w')"
    using create_on_sched_spec [where p = p and m = m and w = w and E = E and rank = "-1" and sched = None and D = Def, OF assms(1,2)] assms(3,4) by auto
  then show ?thesis
    using create_free_default [of p m w E "-1" Def, OF assms(1,2)] assms(3,4) by (auto simp: ABT_xstream_create_def)
qed

theorem stream_create_free_roundtrip_witness:
  "\<exists>w' w''. ABT_xstream_create (first_env ABT_SUCCESS) first_default None first_world = Some (ABT_SUCCESS, Some 1, w') \<and>
    ABT_xstream_free None (Some 1) w' = Some (ABT_SUCCESS, None, w'') \<and> only_list first_world w'' \<and> streams_ok 0 [0 \<mapsto> 0] w''"
  using stream_create_free_roundtrip [OF first_world_ok(1), where E = "first_env ABT_SUCCESS" and Def = first_default]
    first_world_ok(2) first_created by (auto simp: first_env_def)



text \<open>
  C32. The basic and the priority scheduler over linked FIFO and work-stealing pools with units that
  run to completion: told to finish, they return, their pools are empty and every unit was run
  exactly once. The counter of the basic scheduler must not wrap, which bounds its frequency and
  its pools.
\<close>

theorem schedulers_drain_pools:
  assumes "world_ok w" "sd_pools d = ps" "sd_num_pools d = length ps" "ps \<noteq> []"
    "unat (sd_event_freq d) + length ps < 2 ^ 32"
    "run = prio_sched_run \<or> run = basic_sched_run"
  shows "\<exists>w'. run (builtin_env ps) d w = Some w' \<and> world_ok w' \<and> (\<forall>p \<in> set ps. pool_units p w' = []) \<and>
    mset (sw_log w') = mset (sw_log w) + (\<Sum>p \<in> set ps. mset (pool_units p w))"
  using world.prio_drains [OF assms(1-4)] world.basic_drains [OF assms(1-5)] assms(6)
  unfolding world.finished_def world.total_def by blast

theorem schedulers_drain_pools_witness:
  "\<exists>w'. prio_sched_run (builtin_env [0, 1]) \<lparr>sd_event_freq = 50, sd_num_pools = 2, sd_pools = [0, 1]\<rparr> two_pools = Some w' \<and>
    world_ok w' \<and> (\<forall>p \<in> set [0, 1]. pool_units p w' = []) \<and>
    mset (sw_log w') = mset (sw_log two_pools) + (\<Sum>p \<in> set [0, 1]. mset (pool_units p two_pools))"
  by (rule schedulers_drain_pools [OF two_pools_ok(1)]) simp_all

text \<open>
  C33. The work-stealing scheduler of the examples, started on any rotation of the pools: told to
  finish, it returns with all of them empty, having run every unit once, its own and the stolen
  ones.
\<close>

theorem ws_scheduler_drains:
  assumes "world_ok w" "ps \<noteq> []" "i < length ps"
  shows "\<exists>w'. ws_sched_run (ws_builtin_env ps) freq (rotate i ps) w = Some w' \<and> world_ok w' \<and>
    (\<forall>p \<in> set ps. pool_units p w' = []) \<and>
    mset (sw_log w') = mset (sw_log w) + (\<Sum>p \<in> set ps. mset (pool_units p w))"
  using ws_world.ws_drains [OF assms(1), of "rotate i ps" ps freq] assms(2)
  unfolding ws_world.finished_def ws_world.total_def by simp

theorem ws_scheduler_drains_witness:
  "\<exists>w'. ws_sched_run (ws_builtin_env [0, 1]) 10 (rotate 1 [0, 1]) two_pools = Some w' \<and> world_ok w' \<and>
    (\<forall>p \<in> set [0, 1]. pool_units p w' = []) \<and>
    mset (sw_log w') = mset (sw_log two_pools) + (\<Sum>p \<in> set [0, 1]. mset (pool_units p two_pools))"
  by (rule ws_scheduler_drains [OF two_pools_ok(1)]) simp_all



text \<open>
  C35. The law of the counters of blocked work units over a suspension and a resumption: suspending
  counts the ULT in its old pool, then handles a pending migration, and resuming counts it out
  of the new one. After a migration the old pool has one blocked work unit too many for ever and
  the new one one too few.
\<close>

theorem migration_while_blocked_miscounts:
  assumes "rt_ok B {} {} S L w" "may_switch (Some x) w" "fresh_env B E w"
  shows "\<exists>w1 w2. ABTI_ythread_suspend E x (rt_thread w x) w = Some w1 \<and>
    ABT_thread_get_state (Some (rt_thread w x)) w1 = Some (Inr ABT_THREAD_STATE_BLOCKED) \<and>
    ABTI_ythread_resume_and_push (rt_thread w x) w1 = Some w2 \<and> st w2 (rt_thread w x) = Some ABT_THREAD_STATE_READY \<and>
    (\<forall>p. rt_blocked w2 p = rt_blocked w p + of_bool (pool_of w (rt_thread w x) = Some p)
      - of_bool (pool_of w1 (rt_thread w x) = Some p))"
proof -
  obtain q r where S: "S x = rt_thread w x # q # r"
    using stack_form [OF assms(1,2)] by blast
  show ?thesis
    by (rule suspend_resume_counts [OF assms(1) S assms(3)])
qed

theorem migration_while_blocked_miscounts_witness:
  "\<exists>w w1 w2. run_calls migrating_program root_only = Some w \<and> ABTI_ythread_suspend plain_env 0 4 w = Some w1 \<and>
    pool_of w 4 = Some 0 \<and> pool_of w1 4 = Some 1 \<and> ABTI_ythread_resume_and_push 4 w1 = Some w2 \<and>
    rt_blocked w2 0 = rt_blocked w 0 + 1 \<and> rt_blocked w2 1 = rt_blocked w 1 - 1"
proof -
  obtain w S L where w: "run_calls migrating_program root_only = Some w" "rt_ok (\<lambda>_. True) {} {} S L w"
    using run_ok [OF root_only_ok migrating_program_allowed] by blast
  have "run_calls migrating_program root_only = Some w \<Longrightarrow> may_switch (Some 0) w \<and> fresh_env (\<lambda>_. True) plain_env w \<and>
    rt_thread w 0 = 4 \<and> pool_of w 4 = Some 0 \<and>
    (\<forall>w1. ABTI_ythread_suspend plain_env 0 4 w = Some w1 \<longrightarrow> pool_of w1 4 = Some 1)"
    by (simp add: migrating_program_def program_defs migrate_defs, hypsubst) (simp add: program_defs migrate_defs)
  with w(1) have "may_switch (Some 0) w" "fresh_env (\<lambda>_. True) plain_env w" "rt_thread w 0 = 4" "pool_of w 4 = Some 0"
    "\<And>w1. ABTI_ythread_suspend plain_env 0 4 w = Some w1 \<Longrightarrow> pool_of w1 4 = Some 1"
    by blast+
  then show ?thesis
    using migration_while_blocked_miscounts [OF w(2), of 0 plain_env] w(1) by fastforce
qed

text \<open>
  C36. The conversion functions equal their reference: blanks, signs and digits of any length are read,
  the value is clamped to the range of the type and the overflow flag tells whether that changed
  it, although the loop works in 64 bits.
\<close>

theorem atoi_equals_reference:
  "map_sum id (\<lambda>(v, over). (sint v, over)) (ABTU_atoi str) =
     (case parse_int str of None \<Rightarrow> Inl ABT_ERR_INV_ARG | Some v \<Rightarrow> Inr (clamp (- 2147483648) 2147483647 v)) \<and>
   map_sum id (\<lambda>(v, over). (uint v, over)) (ABTU_atoui32 str) =
     (case parse_int str of None \<Rightarrow> Inl ABT_ERR_INV_ARG | Some v \<Rightarrow> Inr (clamp 0 4294967295 v)) \<and>
   map_sum id (\<lambda>(v, over). (uint v, over)) (ABTU_atosz str) =
     (case parse_int str of None \<Rightarrow> Inl ABT_ERR_INV_ARG | Some v \<Rightarrow> Inr (clamp 0 (2 ^ 64 - 1) v))"
  using atoi_parses [of str] atoui32_parses [of str] atosz_parses [of str] by blast

text \<open>
  C37. The well-formedness of unit handles is kept by every change of a work unit's pool, between
  built-in and user-defined pools, also when creating or mapping the new unit fails: every unit
  leads back to its work unit and the table maps no other.
\<close>

theorem unit_associations_consistent:
  assumes "assoc_ok is_builtin a" "as_pool a t = Some q" "even new_unit" "table_map (as_table a) new_unit = None"
  shows "\<exists>ret a'. ABTI_thread_set_associated_pool is_builtin malloc_ok new_unit t p a = Some (ret, a') \<and>
    assoc_ok is_builtin a' \<and> changed ret t p a a' \<and>
    (\<forall>s r. as_pool a' s = Some r \<longrightarrow> ABTI_unit_get_thread (as_unit a' s) (as_table a') = Some s)"
  using set_associated_pool_ok [OF assms, of malloc_ok p] assoc_get_thread by blast

theorem unit_associations_consistent_witness:
  "\<exists>ret a'. ABTI_thread_set_associated_pool (\<lambda>p. p = 0) True 64 8 1 one_assoc = Some (ret, a') \<and>
    assoc_ok (\<lambda>p. p = 0) a' \<and> changed ret 8 1 one_assoc a' \<and>
    (\<forall>s r. as_pool a' s = Some r \<longrightarrow> ABTI_unit_get_thread (as_unit a' s) (as_table a') = Some s)"
proof (rule unit_associations_consistent)
  show "assoc_ok (\<lambda>p. p = 0) one_assoc" "table_map (as_table one_assoc) 64 = None"
    using init_ok by (simp_all add: one_assoc_def assoc_ok_def)
qed (simp_all add: one_assoc_def)





end
